(* ===== verification/Prelude.thy ===== *)
theory Prelude
  imports Main "HOL-Library.Word"
begin

text \<open>
  Shared vocabulary of the development: the C integer types at their widths, the error
  numbers the code returns, the collections of simplification rules that the component
  theories extend, and generic facts on words, bits and lists that several components use.
\<close>

unbundle bit_operations_syntax

section \<open>C integer types and error numbers\<close>

type_synonym u8 = "8 word"
type_synonym u16 = "16 word"
type_synonym u32 = "32 word"
type_synonym u64 = "64 word"

text \<open>The error numbers returned (negated) by the modelled routines.\<close>

datatype errno = EIO | EINVAL | EFSCORRUPTED | ENOSPC | ENOMEM | ENOENT | EEXIST | EDEADLOCK | EAGAIN

type_synonym 'a result = "errno + 'a"

section \<open>Rule collections\<close>

named_theorems disk_simps \<open>round trips between the disk and the CPU byte order\<close>
named_theorems geom_simps \<open>conversions between block, extent and word numbers\<close>

section \<open>Words and bits\<close>

lemma unat_lt_2p: "unat (w :: 'a::len word) < 2 ^ LENGTH('a)"
  by (rule unsigned_less)

lemma u32_unat_bound: "unat (w :: u32) < 4294967296"
  using unat_lt_2p [of w] by simp

lemma u64_unat_bound: "unat (w :: u64) < 18446744073709551616"
  using unat_lt_2p [of w] by simp

lemma unat_add_small:
  "unat (a :: 'a::len word) + unat b < 2 ^ LENGTH('a) \<Longrightarrow> unat (a + b) = unat a + unat b"
  by (simp add: unat_word_ariths)

lemma unat_sub_le: "b \<le> a \<Longrightarrow> unat (a - b) = unat a - unat (b :: 'a::len word)"
  by (rule unat_sub)

lemma unat_minus_step: "c \<le> len - i \<Longrightarrow> 0 < unat c \<Longrightarrow> unat (len - (i + c)) < unat (len - i)" for len :: "'a::len word"
proof -
  assume "c \<le> len - i" "0 < unat c"
  moreover have "len - (i + c) = (len - i) - c" by simp
  ultimately show ?thesis by (simp only: unat_sub_le) (simp add: word_le_nat_alt)
qed

lemma minus_32_decreases:
  "(32 :: u64) \<le> l - j \<Longrightarrow> unat (l - (j + 32)) < unat (l - j)"
  "(32 :: u32) \<le> k - i \<Longrightarrow> unat (k - (i + 32)) < unat (k - i)"
  by (rule unat_minus_step; simp)+

lemma u32_eq_iff_unat: "(a :: u32) = b \<longleftrightarrow> unat a = unat b"
  by (simp add: word_unat_eq_iff)

lemma u64_eq_iff_unat: "(a :: u64) = b \<longleftrightarrow> unat a = unat b"
  by (simp add: word_unat_eq_iff)

lemma unat_ucast_32_64 [simp]: "unat (ucast (x :: u32) :: u64) = unat x"
  using u32_unat_bound [of x] by (simp add: unsigned_ucast_eq take_bit_nat_eq_self_iff)

lemma unat_ucast_64_32: "unat (ucast (x :: u64) :: u32) = unat x mod 2 ^ 32"
  by (simp add: unsigned_ucast_eq take_bit_eq_mod)

lemma unat_ucast_64_32_small: "unat (x :: u64) < 2 ^ 32 \<Longrightarrow> unat (ucast x :: u32) = unat x"
  by (simp add: unat_ucast_64_32)

lemma unat_of_nat_32: "n < 2 ^ 32 \<Longrightarrow> unat (of_nat n :: u32) = n"
  by (simp add: unat_of_nat)

lemma unat_of_nat_64: "n < 2 ^ 64 \<Longrightarrow> unat (of_nat n :: u64) = n"
  by (simp add: unat_of_nat)

lemma u32_bit_lt: "bit (w :: u32) n \<Longrightarrow> n < 32"
  using bit_imp_le_length by fastforce

lemma u64_bit_lt: "bit (w :: u64) n \<Longrightarrow> n < 64"
  using bit_imp_le_length by fastforce

lemma word_nonzero_bit: "(w :: 'a::len word) \<noteq> 0 \<Longrightarrow> \<exists>n < LENGTH('a). bit w n"
  by (metis bit_0_eq bit_imp_le_length bit_word_eqI bot_apply bot_bool_def)

lemma word_zero_bits: "(w :: 'a::len word) = 0 \<longleftrightarrow> (\<forall>n < LENGTH('a). \<not> bit w n)"
  using word_nonzero_bit by auto

lemma word_minus1_bits: "(w :: 'a::len word) = - 1 \<longleftrightarrow> (\<forall>n < LENGTH('a). bit w n)"
  by (auto intro: bit_word_eqI)

lemma bit_imp_exp_le: "bit (w :: 'a::len word) n \<Longrightarrow> 2 ^ n \<le> unat w"
proof -
  assume "bit w n"
  then have "bit (unat w) n" by (simp add: bit_unsigned_iff)
  then have "odd (unat w div 2 ^ n)" by (simp add: bit_iff_odd)
  then show ?thesis by (metis div_less even_zero not_le_imp_less)
qed

lemma unat_bit_bound: "unat (w :: 'a::len word) < 2 ^ m \<Longrightarrow> bit w n \<Longrightarrow> n < m"
proof -
  assume "unat w < 2 ^ m" and "bit w n"
  with bit_imp_exp_le have "(2 :: nat) ^ n < 2 ^ m" by (metis le_less_trans)
  then show "n < m" by simp
qed

lemma unat_and_mask: "unat (w AND mask n :: 'a::len word) < 2 ^ n"
  by (metis take_bit_eq_mask take_bit_nat_less_exp unsigned_take_bit_eq)

text \<open>A mask written as in the code, \<open>((1 << n) - 1) << m\<close>.\<close>

lemma shifted_ones_eq: "push_bit n (1 :: 'a::len word) - 1 = mask n"
  by (simp add: mask_eq_exp_minus_1 push_bit_eq_mult)

lemma exp_minus_1_mask: "2 ^ n - 1 = (mask n :: 'a::len word)"
  by (simp add: mask_eq_exp_minus_1)

lemma bit_mask_shift:
  "bit (push_bit m (push_bit n 1 - 1) :: 'a::len word) k \<longleftrightarrow> m \<le> k \<and> k < m + n \<and> k < LENGTH('a)"
  by (auto simp: exp_minus_1_mask bit_push_bit_iff bit_mask_iff)

section \<open>Bits of a sequence of 32-bit words\<close>

text \<open>Bit \<open>n\<close> of an array of 32-bit words, numbered from the low bit of the first word.\<close>

definition wbit :: "u32 list \<Rightarrow> nat \<Rightarrow> bool" where
  "wbit ws n \<longleftrightarrow> n div 32 < length ws \<and> bit (ws ! (n div 32)) (n mod 32)"

lemma wbit_Cons_lt: "n < 32 \<Longrightarrow> wbit (w # ws) n \<longleftrightarrow> bit w n"
  by (simp add: wbit_def)

lemma wbit_Cons_ge: "wbit (w # ws) (n + 32) \<longleftrightarrow> wbit ws n"
proof -
  have "(n + 32) div 32 = Suc (n div 32)" by simp
  then show ?thesis by (simp add: wbit_def)
qed

lemma wbit_Nil [simp]: "\<not> wbit [] n"
  by (simp add: wbit_def)

lemma wbit_drop: "wbit (drop k ws) n \<longleftrightarrow> wbit ws (n + 32 * k)"
  by (cases "k \<le> length ws") (auto simp: wbit_def add.commute)

lemma wbit_imp_lt: "wbit ws n \<Longrightarrow> n < 32 * length ws"
  by (auto simp: wbit_def)

end
