(* ===== verification/Arch.thy ===== *)
theory Arch
  imports Prelude
begin

text \<open>
  Byte order, from \<^verbatim>\<open>include/xfs_arch.h\<close>. The on-disk format of XFS is big endian; the
  model fixes a little-endian host (the \<^verbatim>\<open>#else\<close> branch of \<^verbatim>\<open>XFS_NATIVE_HOST\<close>), so a
  \<^verbatim>\<open>__be32\<close> field read as a CPU word is byte-swapped. Memory accessed through
  \<^verbatim>\<open>get_unaligned_be*\<close> and \<^verbatim>\<open>put_unaligned_be*\<close> is a list of bytes.
\<close>

section \<open>Byte swapping\<close>

definition swab16 :: "u16 \<Rightarrow> u16" where
  "swab16 x = (push_bit 8 (x AND 0x00ff)) OR (drop_bit 8 (x AND 0xff00))"

definition swab32 :: "u32 \<Rightarrow> u32" where
  "swab32 x =
     (push_bit 24 (x AND 0x000000ff)) OR
     (push_bit 8 (x AND 0x0000ff00)) OR
     (drop_bit 8 (x AND 0x00ff0000)) OR
     (drop_bit 24 (x AND 0xff000000))"

definition swab64 :: "u64 \<Rightarrow> u64" where
  "swab64 x =
     (push_bit 56 (x AND 0x00000000000000ff)) OR
     (push_bit 40 (x AND 0x000000000000ff00)) OR
     (push_bit 24 (x AND 0x0000000000ff0000)) OR
     (push_bit 8 (x AND 0x00000000ff000000)) OR
     (drop_bit 8 (x AND 0x000000ff00000000)) OR
     (drop_bit 24 (x AND 0x0000ff0000000000)) OR
     (drop_bit 40 (x AND 0x00ff000000000000)) OR
     (drop_bit 56 (x AND 0xff00000000000000))"

definition cpu_to_be16 :: "u16 \<Rightarrow> u16" where "cpu_to_be16 = swab16"
definition be16_to_cpu :: "u16 \<Rightarrow> u16" where "be16_to_cpu = swab16"
definition cpu_to_be32 :: "u32 \<Rightarrow> u32" where "cpu_to_be32 = swab32"
definition be32_to_cpu :: "u32 \<Rightarrow> u32" where "be32_to_cpu = swab32"
definition cpu_to_be64 :: "u64 \<Rightarrow> u64" where "cpu_to_be64 = swab64"
definition be64_to_cpu :: "u64 \<Rightarrow> u64" where "be64_to_cpu = swab64"
definition cpu_to_le32 :: "u32 \<Rightarrow> u32" where "cpu_to_le32 x = x"
definition le32_to_cpu :: "u32 \<Rightarrow> u32" where "le32_to_cpu x = x"

text \<open>\<^verbatim>\<open>be32_add_cpu(&a, b)\<close>: the new value of the big-endian field \<open>a\<close>.\<close>

definition be16_add_cpu :: "u16 \<Rightarrow> u16 \<Rightarrow> u16" where
  "be16_add_cpu a b = cpu_to_be16 (be16_to_cpu a + b)"

definition be32_add_cpu :: "u32 \<Rightarrow> u32 \<Rightarrow> u32" where
  "be32_add_cpu a b = cpu_to_be32 (be32_to_cpu a + b)"

definition be64_add_cpu :: "u64 \<Rightarrow> u64 \<Rightarrow> u64" where
  "be64_add_cpu a b = cpu_to_be64 (be64_to_cpu a + b)"

section \<open>Unaligned big-endian access\<close>

text \<open>
  Reading past the end of the bytes is \<open>None\<close>. Writing overwrites the bytes at the
  pointer and keeps those behind them.
\<close>

fun get_unaligned_be16 :: "u8 list \<Rightarrow> u16 option" where
  "get_unaligned_be16 (a # b # _) = Some (push_bit 8 (ucast a) OR ucast b)"
| "get_unaligned_be16 _ = None"

fun get_unaligned_be32 :: "u8 list \<Rightarrow> u32 option" where
  "get_unaligned_be32 (a # b # c # d # _) =
     Some (push_bit 24 (ucast a) OR push_bit 16 (ucast b) OR push_bit 8 (ucast c) OR ucast d)"
| "get_unaligned_be32 _ = None"

definition get_unaligned_be64 :: "u8 list \<Rightarrow> u64 option" where
  "get_unaligned_be64 p =
     (case get_unaligned_be32 p of None \<Rightarrow> None | Some h \<Rightarrow>
      (case get_unaligned_be32 (drop 4 p) of None \<Rightarrow> None | Some l \<Rightarrow>
        Some (push_bit 32 (ucast h) OR ucast l)))"

definition put_unaligned_be16 :: "u16 \<Rightarrow> u8 list \<Rightarrow> u8 list" where
  "put_unaligned_be16 val p = ucast (drop_bit 8 val) # ucast val # drop 2 p"

definition put_unaligned_be32 :: "u32 \<Rightarrow> u8 list \<Rightarrow> u8 list" where
  "put_unaligned_be32 val p =
     (let p1 = put_unaligned_be16 (ucast (drop_bit 16 val)) p
      in take 2 p1 @ put_unaligned_be16 (ucast val) (drop 2 p1))"

definition put_unaligned_be64 :: "u64 \<Rightarrow> u8 list \<Rightarrow> u8 list" where
  "put_unaligned_be64 val p =
     (let p1 = put_unaligned_be32 (ucast (drop_bit 32 val)) p
      in take 4 p1 @ put_unaligned_be32 (ucast val) (drop 4 p1))"

text \<open>The memory image of a 64-bit word on the (little-endian) host, and the word back from it.\<close>

definition native_bytes64 :: "u64 \<Rightarrow> u8 list" where
  "native_bytes64 w = map (\<lambda>i. ucast (drop_bit (8 * i) w)) [0..<8]"

fun native_word64 :: "u8 list \<Rightarrow> u64" where
  "native_word64 [] = 0"
| "native_word64 (b # bs) = ucast b OR push_bit 8 (native_word64 bs)"

section \<open>Disk codecs\<close>

text \<open>
  The contract of a pair of conversion routines between an in-core structure and its
  on-disk form: converting a valid structure to disk and back gives it again. For a
  bijective format every disk image is also the image of a valid structure.
\<close>

locale disk_codec =
  fixes to_disk :: "'a \<Rightarrow> 'd"
    and from_disk :: "'d \<Rightarrow> 'a"
    and valid :: "'a \<Rightarrow> bool"
  assumes from_to: "valid x \<Longrightarrow> from_disk (to_disk x) = x"
begin

lemma to_disk_inj_on: "inj_on to_disk (Collect valid)"
  by (metis (mono_tags, lifting) from_to inj_onI mem_Collect_eq)

lemma to_disk_eq_iff: "valid x \<Longrightarrow> valid y \<Longrightarrow> to_disk x = to_disk y \<longleftrightarrow> x = y"
  by (metis from_to)

end

locale disk_format = disk_codec +
  assumes to_from: "to_disk (from_disk d) = d"
    and valid_from: "valid (from_disk d)"
begin

lemma to_disk_bij: "bij_betw to_disk (Collect valid) UNIV"
  unfolding bij_betw_def
  using to_disk_inj_on to_from valid_from by (metis UNIV_eq_I imageI mem_Collect_eq)

lemma from_disk_surj: "valid x \<Longrightarrow> \<exists>d. from_disk d = x"
  using from_to by blast

end

section \<open>Round trips\<close>

text \<open>The byte masks of the swaps, as shifted runs of ones.\<close>

lemma byte_masks16:
  "(0x00ff :: u16) = mask 8" "(0xff00 :: u16) = push_bit 8 (mask 8)"
  by (simp_all add: mask_eq_exp_minus_1)

lemma byte_masks32:
  "(0x000000ff :: u32) = mask 8" "(0x0000ff00 :: u32) = push_bit 8 (mask 8)"
  "(0x00ff0000 :: u32) = push_bit 16 (mask 8)" "(0xff000000 :: u32) = push_bit 24 (mask 8)"
  by (simp_all add: mask_eq_exp_minus_1)

lemma byte_masks64:
  "(0x00000000000000ff :: u64) = mask 8" "(0x000000000000ff00 :: u64) = push_bit 8 (mask 8)"
  "(0x0000000000ff0000 :: u64) = push_bit 16 (mask 8)" "(0x00000000ff000000 :: u64) = push_bit 24 (mask 8)"
  "(0x000000ff00000000 :: u64) = push_bit 32 (mask 8)" "(0x0000ff0000000000 :: u64) = push_bit 40 (mask 8)"
  "(0x00ff000000000000 :: u64) = push_bit 48 (mask 8)" "(0xff00000000000000 :: u64) = push_bit 56 (mask 8)"
  by (simp_all add: mask_eq_exp_minus_1)

text \<open>A swap moves bit \<open>k\<close> of a byte to bit \<open>k\<close> of the mirrored byte.\<close>

lemma bit_swab16:
  "bit (swab16 x) n \<longleftrightarrow> (if n < 8 then bit x (8 + n) else n < 16 \<and> bit x (n - 8))"
  unfolding swab16_def byte_masks16
  by (auto simp: bit_simps dest: bit_imp_le_length)

lemma bit_swab32:
  "bit (swab32 x) n \<longleftrightarrow>
     (if n < 8 then bit x (24 + n) else if n < 16 then bit x (8 + n)
      else if n < 24 then bit x (n - 8) else n < 32 \<and> bit x (n - 24))"
  unfolding swab32_def byte_masks32
  by (auto simp: bit_simps dest: bit_imp_le_length)

lemma bit_byte_up:
  "bit (push_bit k (x AND push_bit m (mask 8)) :: u64) n \<longleftrightarrow>
     k + m \<le> n \<and> n < k + m + 8 \<and> n < 64 \<and> bit x (n - k)"
  by (auto simp: bit_simps)

lemma bit_byte_down:
  "bit (drop_bit k (x AND push_bit m (mask 8)) :: u64) n \<longleftrightarrow>
     m \<le> k + n \<and> k + n < m + 8 \<and> bit x (k + n)"
  by (auto simp: bit_simps dest: bit_imp_le_length)

lemma bit_swab64:
  "bit (swab64 x) n \<longleftrightarrow>
     (if n < 8 then bit x (56 + n) else if n < 16 then bit x (40 + n)
      else if n < 24 then bit x (24 + n) else if n < 32 then bit x (8 + n)
      else if n < 40 then bit x (n - 8) else if n < 48 then bit x (n - 24)
      else if n < 56 then bit x (n - 40) else n < 64 \<and> bit x (n - 56))"
proof -
  have m0: "mask 8 = push_bit 0 (mask 8 :: u64)" by simp
  show ?thesis
    unfolding swab64_def byte_masks64 bit_or_iff
    apply (subst m0)
    apply (simp only: bit_byte_up bit_byte_down)
    apply (cases "n < 8"; cases "n < 16"; cases "n < 24"; cases "n < 32"; cases "n < 40";
        cases "n < 48"; cases "n < 56"; simp)
    done
qed

lemma swab16_swab16 [simp, disk_simps]: "swab16 (swab16 x) = x"
  by (rule bit_word_eqI) (auto simp: bit_swab16)

lemma swab32_swab32 [simp, disk_simps]: "swab32 (swab32 x) = x"
  by (rule bit_word_eqI) (auto simp: bit_swab32)

lemma swab64_swab64 [simp, disk_simps]: "swab64 (swab64 x) = x"
  by (rule bit_word_eqI) (auto simp: bit_swab64)

lemma be_roundtrips [simp, disk_simps]:
  "be16_to_cpu (cpu_to_be16 a) = a" "cpu_to_be16 (be16_to_cpu a) = a"
  "be32_to_cpu (cpu_to_be32 b) = b" "cpu_to_be32 (be32_to_cpu b) = b"
  "be64_to_cpu (cpu_to_be64 c) = c" "cpu_to_be64 (be64_to_cpu c) = c"
  by (simp_all add: be16_to_cpu_def cpu_to_be16_def be32_to_cpu_def cpu_to_be32_def
        be64_to_cpu_def cpu_to_be64_def)

lemma be_add_cpu_value [disk_simps]:
  "be16_to_cpu (be16_add_cpu a x) = be16_to_cpu a + x"
  "be32_to_cpu (be32_add_cpu b y) = be32_to_cpu b + y"
  "be64_to_cpu (be64_add_cpu c z) = be64_to_cpu c + z"
  by (simp_all add: be16_add_cpu_def be32_add_cpu_def be64_add_cpu_def)

text \<open>Unaligned stores followed by loads return the stored value.\<close>

lemma be16_bytes: "push_bit 8 (ucast (ucast (drop_bit 8 v) :: u8)) OR ucast (ucast v :: u8) = (v :: u16)"
  by (rule bit_word_eqI) (auto simp: bit_simps)

lemma be32_bytes:
  "push_bit 24 (ucast (ucast (drop_bit 8 (ucast (drop_bit 16 v) :: u16)) :: u8)) OR
   push_bit 16 (ucast (ucast (ucast (drop_bit 16 v) :: u16) :: u8)) OR
   push_bit 8 (ucast (ucast (drop_bit 8 (ucast v :: u16)) :: u8)) OR
   ucast (ucast (ucast v :: u16) :: u8) = (v :: u32)"
  by (rule bit_word_eqI) (auto simp: bit_simps)

lemma be64_halves: "push_bit 32 (ucast (ucast (drop_bit 32 v) :: u32)) OR ucast (ucast v :: u32) = (v :: u64)"
  by (rule bit_word_eqI) (auto simp: bit_simps)

lemma get_put_unaligned_be16: "get_unaligned_be16 (put_unaligned_be16 v p) = Some v"
  by (simp add: put_unaligned_be16_def be16_bytes)

lemma put_unaligned_be32_bytes:
  "put_unaligned_be32 v p =
     ucast (drop_bit 8 (ucast (drop_bit 16 v) :: u16)) # ucast (ucast (drop_bit 16 v) :: u16) #
     ucast (drop_bit 8 (ucast v :: u16)) # ucast (ucast v :: u16) # drop 4 p"
  by (simp add: put_unaligned_be32_def put_unaligned_be16_def numeral_eq_Suc drop_drop)

lemma get_put_unaligned_be32: "get_unaligned_be32 (put_unaligned_be32 v p) = Some v"
  by (simp add: put_unaligned_be32_bytes be32_bytes)

lemma take4_put_unaligned_be32: "take 4 (put_unaligned_be32 v p) @ q = put_unaligned_be32 v (replicate 4 0 @ q)"
  by (simp add: put_unaligned_be32_bytes)

lemma drop4_put_unaligned_be32: "drop 4 (put_unaligned_be32 v p) = drop 4 p"
  by (simp add: put_unaligned_be32_bytes)

lemma get_put_unaligned_be64: "get_unaligned_be64 (put_unaligned_be64 v p) = Some v"
  by (simp add: get_unaligned_be64_def put_unaligned_be64_def Let_def take4_put_unaligned_be32
      get_put_unaligned_be32 drop4_put_unaligned_be32 be64_halves)

lemma drop8_put_unaligned_be64: "drop 8 (put_unaligned_be64 v p) = drop 8 p"
  by (simp add: put_unaligned_be64_def Let_def put_unaligned_be32_bytes)

lemma get_unaligned_be64_put_append:
  "get_unaligned_be64 (put_unaligned_be64 v p @ q) = Some v"
  by (simp add: get_unaligned_be64_def put_unaligned_be64_def Let_def put_unaligned_be32_bytes
      be32_bytes be64_halves)

text \<open>An unaligned access to a word in memory is a byte swap of the word.\<close>

lemma bit_native_word64:
  "bit (native_word64 bs) n \<longleftrightarrow> n < 64 \<and> n div 8 < length bs \<and> bit (bs ! (n div 8)) (n mod 8)"
proof (induction bs arbitrary: n)
  case Nil
  then show ?case by simp
next
  case (Cons b bs)
  show ?case
  proof (cases "n < 8")
    case True
    then show ?thesis by (simp add: bit_simps)
  next
    case False
    then obtain m where m: "n = m + 8" by (metis add.commute le_Suc_ex not_le)
    have "\<not> bit b n" using False bit_imp_le_length [of b n] by auto
    moreover have "n div 8 = Suc (m div 8)" "n mod 8 = m mod 8" using m by simp_all
    moreover have "bit (native_word64 (b # bs)) n \<longleftrightarrow> n < 64 \<and> bit (native_word64 bs) m"
      using calculation(1) m by (auto simp: bit_simps)
    ultimately show ?thesis using m by (auto simp: Cons.IH)
  qed
qed

lemma native_word64_bytes [simp, disk_simps]: "native_word64 (native_bytes64 w) = w"
proof (rule bit_word_eqI)
  fix n :: nat
  assume n: "n < LENGTH(64)"
  then have "n div 8 < 8" by simp
  with n show "bit (native_word64 (native_bytes64 w)) n = bit w n"
    by (simp add: bit_native_word64 native_bytes64_def bit_simps)
qed

lemma bit_be32_bytes:
  "bit (push_bit 24 (ucast a) OR push_bit 16 (ucast b) OR push_bit 8 (ucast c) OR ucast (d :: u8) :: u32) n \<longleftrightarrow>
     (if n < 8 then bit d n else if n < 16 then bit (c :: u8) (n - 8)
      else if n < 24 then bit (b :: u8) (n - 16) else n < 32 \<and> bit (a :: u8) (n - 24))"
  by (cases "n < 8"; cases "n < 16"; cases "n < 24"; cases "n < 32") (auto simp: bit_simps dest: bit_imp_le_length)

lemma get_unaligned_be64_native: "get_unaligned_be64 (native_bytes64 w) = Some (swab64 w)"
proof -
  let ?b = "\<lambda>k. ucast (drop_bit k w) :: u8"
  let ?h = "push_bit 24 (ucast (?b 0)) OR push_bit 16 (ucast (?b 8)) OR
      push_bit 8 (ucast (?b 16)) OR ucast (?b 24) :: u32"
  let ?l = "push_bit 24 (ucast (?b 32)) OR push_bit 16 (ucast (?b 40)) OR
      push_bit 8 (ucast (?b 48)) OR ucast (?b 56) :: u32"
  have "push_bit 32 (ucast ?h) OR ucast ?l = swab64 w"
  proof (rule bit_word_eqI)
    fix n :: nat
    assume n: "n < LENGTH(64)"
    have byte: "bit (?b k) j \<longleftrightarrow> j < 8 \<and> bit w (k + j)" for k j
      by (auto simp: bit_simps)
    have "bit (push_bit 32 (ucast ?h) OR ucast ?l :: u64) n \<longleftrightarrow>
        (if n < 32 then bit ?l n else bit ?h (n - 32))"
      using n by (simp only: bit_or_iff bit_push_bit_iff bit_ucast_iff) (auto dest: u32_bit_lt)
    also have "\<dots> \<longleftrightarrow> bit (swab64 w) n"
    proof (cases "n < 32")
      case True
      then show ?thesis unfolding bit_be32_bytes byte bit_swab64
        by (cases "n < 8"; cases "n < 16"; cases "n < 24") auto
    next
      case False
      then obtain m where m: "n = 32 + m" "m < 32" using n by (auto simp: le_iff_add not_less)
      show ?thesis unfolding bit_be32_bytes byte bit_swab64 m(1) using m(2)
        by (cases "m < 8"; cases "m < 16"; cases "m < 24") auto
    qed
    finally show "bit (push_bit 32 (ucast ?h) OR ucast ?l :: u64) n = bit (swab64 w) n" .
  qed
  then show ?thesis by (simp add: get_unaligned_be64_def native_bytes64_def upt_rec)
qed

end
