(* ===== verification/Bits.thy ===== *)
theory Bits
  imports Prelude
begin

text \<open>
  Bit scanning: \<^verbatim>\<open>include/bitops.h\<close>, \<^verbatim>\<open>libxfs/xfs_bit.h\<close> and \<^verbatim>\<open>libxfs/xfs_bit.c\<close>.
  \<^verbatim>\<open>ffs\<close> is the C library's "find first set" (numbered from one, 0 for a zero word). A C
  \<^verbatim>\<open>int\<close> result is an \<open>int\<close>; arithmetic on \<^verbatim>\<open>uint\<close> stays at 32 bits and is read back
  as signed where the function returns \<^verbatim>\<open>int\<close>. A read past the end of the bitmap array is
  \<open>None\<close>.
\<close>

section \<open>Definitions\<close>

definition ffs :: "u32 \<Rightarrow> int" where
  "ffs x = (case find (\<lambda>n. bit x n) [0..<32] of None \<Rightarrow> 0 | Some n \<Rightarrow> int n + 1)"

definition fls_step :: "u32 \<Rightarrow> u32 \<Rightarrow> nat \<Rightarrow> u32 \<times> int \<Rightarrow> u32 \<times> int" where
  "fls_step hi lo k = (\<lambda>(x, r). if x AND hi = 0 then (push_bit k (x AND lo), r - int k) else (x, r))"

definition fls :: "u32 \<Rightarrow> int" where
  "fls x =
     (if x = 0 then 0 else
      let xr = (x, 32);
          xr = fls_step 0xffff0000 0xffff 16 xr;
          xr = fls_step 0xff000000 0xffffff 8 xr;
          xr = fls_step 0xf0000000 0xfffffff 4 xr;
          xr = fls_step 0xc0000000 0x3fffffff 2 xr
      in if fst xr AND 0x80000000 = 0 then snd xr - 1 else snd xr)"

definition fls64 :: "u64 \<Rightarrow> int" where
  "fls64 x = (let h = ucast (drop_bit 32 x) :: u32 in if h \<noteq> 0 then fls h + 32 else fls (ucast x))"

definition ffz :: "u32 \<Rightarrow> int" where
  "ffz x = ffs (NOT x)"

definition xfs_mask64hi :: "nat \<Rightarrow> u64" where
  "xfs_mask64hi n = push_bit (64 - n) (- 1)"

definition xfs_mask32lo :: "nat \<Rightarrow> u32" where
  "xfs_mask32lo n = push_bit n 1 - 1"

definition xfs_mask64lo :: "nat \<Rightarrow> u64" where
  "xfs_mask64lo n = push_bit n 1 - 1"

definition xfs_highbit32 :: "u32 \<Rightarrow> int" where
  "xfs_highbit32 v = fls v - 1"

definition xfs_highbit64 :: "u64 \<Rightarrow> int" where
  "xfs_highbit64 v = fls64 v - 1"

definition xfs_lowbit32 :: "u32 \<Rightarrow> int" where
  "xfs_lowbit32 v = ffs v - 1"

definition xfs_lowbit64 :: "u64 \<Rightarrow> int" where
  "xfs_lowbit64 v =
     (let w = ucast v :: u32;
          n = (if w \<noteq> 0 then ffs w
               else let w = ucast (drop_bit 32 v) :: u32
                    in if w \<noteq> 0 then (let n = ffs w in if n \<noteq> 0 then n + 32 else n) else 0)
      in n - 1)"

definition rounddown_pow_of_two :: "u64 \<Rightarrow> u64" where
  "rounddown_pow_of_two n = push_bit (nat (fls64 n - 1)) 1"

text \<open>\<^verbatim>\<open>xfs_bitmap_empty\<close>: the loop over \<open>i < sz\<close>, reading \<open>map[i]\<close>.\<close>

fun xfs_bitmap_empty :: "u32 list \<Rightarrow> nat \<Rightarrow> int option" where
  "xfs_bitmap_empty bmap 0 = Some 1"
| "xfs_bitmap_empty [] (Suc sz) = None"
| "xfs_bitmap_empty (w # bmap) (Suc sz) =
     (if w \<noteq> 0 then Some 0 else xfs_bitmap_empty bmap sz)"

text \<open>
  The loops of \<^verbatim>\<open>xfs_contig_bits\<close> and \<^verbatim>\<open>xfs_next_bit\<close>: \<open>p\<close> is the rest of the array from
  the pointer on, \<open>sz\<close> counts the bits left.
\<close>

definition xfs_contig_bits_found :: "u32 \<Rightarrow> u32 \<Rightarrow> u32 \<Rightarrow> int" where
  "xfs_contig_bits_found result tmp start_bit = sint (result + of_int (ffz tmp) - start_bit)"

fun xfs_contig_bits_loop :: "u32 list \<Rightarrow> u32 \<Rightarrow> u32 \<Rightarrow> u32 \<Rightarrow> int option" where
  "xfs_contig_bits_loop [] sz result start_bit =
     (if sz = 0 then Some (sint (result - start_bit)) else None)"
| "xfs_contig_bits_loop (tmp # p) sz result start_bit =
     (if sz = 0 then Some (sint (result - start_bit))
      else if tmp \<noteq> - 1 then Some (xfs_contig_bits_found result tmp start_bit)
      else xfs_contig_bits_loop p (sz - 32) (result + 32) start_bit)"

definition xfs_contig_bits :: "u32 list \<Rightarrow> u32 \<Rightarrow> u32 \<Rightarrow> int option" where
  "xfs_contig_bits bmap sz start_bit =
     (let p = drop (unat (drop_bit 5 start_bit)) bmap;
          sz = push_bit 5 sz;
          sz = sz - (start_bit AND NOT 31);
          start_bit = start_bit AND 31
      in if start_bit \<noteq> 0 then
           (case p of [] \<Rightarrow> None
            | tmp # p' \<Rightarrow>
                let tmp = tmp OR drop_bit (32 - unat start_bit) (- 1)
                in if tmp \<noteq> - 1 then Some (xfs_contig_bits_found 0 tmp start_bit)
                   else xfs_contig_bits_loop p' (sz - 32) 32 start_bit)
         else xfs_contig_bits_loop p sz 0 start_bit)"

fun xfs_next_bit_loop :: "u32 list \<Rightarrow> u32 \<Rightarrow> u32 \<Rightarrow> int option" where
  "xfs_next_bit_loop [] sz result = (if sz = 0 then Some (- 1) else None)"
| "xfs_next_bit_loop (tmp # p) sz result =
     (if sz = 0 then Some (- 1)
      else if tmp \<noteq> 0 then Some (sint (result + of_int (ffs tmp) - 1))
      else xfs_next_bit_loop p (sz - 32) (result + 32))"

definition xfs_next_bit :: "u32 list \<Rightarrow> u32 \<Rightarrow> u32 \<Rightarrow> int option" where
  "xfs_next_bit bmap sz start_bit =
     (let p = drop (unat (drop_bit 5 start_bit)) bmap;
          result = start_bit AND NOT 31;
          sz = push_bit 5 sz
      in if start_bit \<ge> sz then Some (- 1)
         else
           let sz = sz - result;
               start_bit = start_bit AND 31
           in if start_bit \<noteq> 0 then
                (case p of [] \<Rightarrow> None
                 | tmp # p' \<Rightarrow>
                     let tmp = tmp AND push_bit (unat start_bit) (- 1)
                     in if tmp \<noteq> 0 then Some (sint (result + of_int (ffs tmp) - 1))
                        else xfs_next_bit_loop p' (sz - 32) (result + 32))
              else xfs_next_bit_loop p sz result)"

lemma xfs_masklo_mask: "xfs_mask64lo n = mask n" "xfs_mask32lo n = mask n"
  by (simp_all add: xfs_mask64lo_def xfs_mask32lo_def mask_eq_exp_minus_1 push_bit_eq_mult)

section \<open>Lowest set bit\<close>

lemma find_upt_Some:
  "find P [0..<b] = Some n \<longleftrightarrow> n < b \<and> P n \<and> (\<forall>m < n. \<not> P m)"
  by (auto simp: find_Some_iff)

lemma find_upt_None: "find P [0..<b] = None \<longleftrightarrow> (\<forall>m < b. \<not> P m)"
  by (auto simp: find_None_iff)

lemma ffs_0 [simp]: "ffs 0 = 0"
  by (simp add: ffs_def find_upt_None split: option.split)

text \<open>For a nonzero word \<open>ffs\<close> is one more than the lowest set bit.\<close>

lemma ffs_spec:
  assumes "w \<noteq> 0"
  shows "\<exists>n < 32. ffs w = int n + 1 \<and> bit w n \<and> (\<forall>m < n. \<not> bit w m)"
proof (cases "find (\<lambda>n. bit w n) [0..<32]")
  case None
  then have "\<forall>m < 32. \<not> bit w m" by (simp add: find_upt_None)
  with assms word_nonzero_bit [of w] show ?thesis by auto
next
  case (Some n)
  then have "ffs w = int n + 1" by (simp add: ffs_def)
  moreover from Some have "n < 32 \<and> bit w n \<and> (\<forall>m < n. \<not> bit w m)"
    by (simp add: find_upt_Some)
  ultimately show ?thesis by blast
qed

lemma ffs_eqI:
  assumes "bit w n" and "\<And>m. m < n \<Longrightarrow> \<not> bit w m"
  shows "ffs w = int n + 1"
proof -
  from assms(1) have "n < 32" using bit_imp_le_length by fastforce
  with assms have "find (\<lambda>n. bit w n) [0..<32] = Some n" by (simp add: find_upt_Some)
  then show ?thesis by (simp add: ffs_def)
qed

lemma xfs_lowbit32_eqI:
  "bit w n \<Longrightarrow> (\<And>m. m < n \<Longrightarrow> \<not> bit w m) \<Longrightarrow> xfs_lowbit32 w = int n"
  by (simp add: xfs_lowbit32_def ffs_eqI)

lemma xfs_lowbit32_spec:
  "w \<noteq> 0 \<Longrightarrow> \<exists>n < 32. xfs_lowbit32 w = int n \<and> bit w n \<and> (\<forall>m < n. \<not> bit w m)"
  using ffs_spec [of w] by (auto simp: xfs_lowbit32_def)

lemma xfs_lowbit64_spec:
  assumes "w \<noteq> 0"
  shows "\<exists>n < 64. xfs_lowbit64 w = int n \<and> bit w n \<and> (\<forall>m < n. \<not> bit w m)"
proof (cases "(ucast w :: u32) = 0")
  case False
  from ffs_spec [OF this] obtain n where "n < 32" "ffs (ucast w) = int n + 1"
    "bit (ucast w :: u32) n" "\<forall>m < n. \<not> bit (ucast w :: u32) m" by blast
  with False show ?thesis
    by (intro exI [of _ n]) (auto simp: xfs_lowbit64_def Let_def bit_simps)
next
  case True
  then have lo: "\<not> bit w m" if "m < 32" for m
    using that by (auto simp: word_zero_bits bit_simps)
  have hi: "(ucast (drop_bit 32 w) :: u32) \<noteq> 0"
  proof -
    from word_nonzero_bit [OF assms] obtain k where k: "k < 64" "bit w k" by auto
    with lo have "bit (ucast (drop_bit 32 w) :: u32) (k - 32)"
      by (cases "k < 32") (auto simp: bit_simps)
    then show ?thesis by auto
  qed
  from ffs_spec [OF this] obtain n where n: "n < 32" "ffs (ucast (drop_bit 32 w)) = int n + 1"
    "bit (ucast (drop_bit 32 w) :: u32) n"
    "\<forall>m < n. \<not> bit (ucast (drop_bit 32 w) :: u32) m" by blast
  have "\<not> bit w m" if "m < n + 32" for m
    using that lo [of m] n(1) n(4) [rule_format, of "m - 32"]
    by (cases "m < 32") (auto simp: bit_simps)
  with True hi n show ?thesis
    by (intro exI [of _ "n + 32"]) (auto simp: xfs_lowbit64_def Let_def bit_simps add.commute)
qed

section \<open>Highest set bit\<close>

text \<open>
  The halving steps of \<open>fls\<close> keep the word shifted left by \<open>s\<close> without losing a bit.
\<close>

definition fls_inv :: "u32 \<Rightarrow> u32 \<Rightarrow> nat \<Rightarrow> bool" where
  "fls_inv x y s \<longleftrightarrow> (\<forall>n < 32. bit y n \<longleftrightarrow> s \<le> n \<and> bit x (n - s)) \<and> (\<forall>n. bit x n \<longrightarrow> n + s < 32)"

lemma fls_inv_step:
  assumes "fls_inv x y s" and "y AND push_bit (32 - k) (mask k) = 0" and "k \<le> 32"
  shows "fls_inv x (push_bit k (y AND mask (32 - k))) (k + s)"
proof -
  have top: "\<not> bit y n" if "32 - k \<le> n" "n < 32" for n
    using assms(2) that by (auto simp: word_zero_bits bit_simps)
  have "n + (k + s) < 32" if "bit x n" for n
  proof -
    from assms(1) that have "n + s < 32" "bit y (n + s)" by (auto simp: fls_inv_def)
    with top [of "n + s"] show ?thesis by linarith
  qed
  with assms(1) show ?thesis by (auto simp: fls_inv_def bit_simps)
qed

abbreviation fls_half :: "nat \<Rightarrow> u32 \<times> int \<Rightarrow> u32 \<times> int" where
  "fls_half k \<equiv> fls_step (push_bit (32 - k) (mask k)) (mask (32 - k)) k"

lemma fls_masks:
  "fls_step 0xffff0000 0xffff 16 = fls_half 16" "fls_step 0xff000000 0xffffff 8 = fls_half 8"
  "fls_step 0xf0000000 0xfffffff 4 = fls_half 4" "fls_step 0xc0000000 0x3fffffff 2 = fls_half 2"
  by (simp_all add: mask_eq_exp_minus_1)

definition fls_rel :: "u32 \<Rightarrow> u32 \<times> int \<Rightarrow> bool" where
  "fls_rel x = (\<lambda>(y, r). fls_inv x y (nat (32 - r)) \<and> 0 \<le> r \<and> r \<le> 32)"

lemma fls_half_rel:
  assumes "x \<noteq> 0" and "fls_rel x yr" and "k \<le> 32"
  shows "fls_rel x (fls_half k yr)"
proof (cases yr)
  case (Pair y r)
  show ?thesis
  proof (cases "y AND push_bit (32 - k) (mask k) = 0")
    case True
    from assms Pair have inv: "fls_inv x y (nat (32 - r))" and r: "0 \<le> r" "r \<le> 32"
      by (auto simp: fls_rel_def)
    have step: "fls_inv x (push_bit k (y AND mask (32 - k))) (k + nat (32 - r))"
      by (rule fls_inv_step [OF inv True assms(3)])
    from word_nonzero_bit [OF assms(1)] obtain n where "bit x n" by blast
    with step have "k + nat (32 - r) < 32" by (fastforce simp: fls_inv_def)
    with r have "0 \<le> r - int k" "k + nat (32 - r) = nat (32 - (r - int k))" by linarith+
    with True Pair r step show ?thesis by (simp add: fls_step_def fls_rel_def)
  next
    case False
    with Pair assms(2) show ?thesis by (simp add: fls_step_def)
  qed
qed

lemma fls_half_top:
  assumes "fst yr AND push_bit (32 - 2 * k) (mask (2 * k)) \<noteq> 0" and "2 * k \<le> 32"
  shows "fst (fls_half k yr) AND push_bit (32 - k) (mask k) \<noteq> 0"
proof (cases "fst yr AND push_bit (32 - k) (mask k) = 0")
  case True
  let ?y = "fst yr"
  from assms(1) obtain n where n: "n < 32" "bit ?y n" "32 - 2 * k \<le> n"
    by (auto simp: word_zero_bits bit_simps)
  moreover from True n have "n < 32 - k"
    by (auto simp: word_zero_bits bit_simps dest!: spec [of _ n])
  ultimately have "bit (push_bit k (?y AND mask (32 - k)) AND push_bit (32 - k) (mask k)) (n + k)"
    using assms(2) by (auto simp: bit_simps)
  then have "push_bit k (?y AND mask (32 - k)) AND push_bit (32 - k) (mask k) \<noteq> 0"
    by (metis bit_0_eq bot_apply bot_bool_def)
  with True show ?thesis by (simp add: fls_step_def split_beta)
next
  case False
  then show ?thesis by (simp add: fls_step_def split_beta)
qed

lemma fls_spec:
  assumes "x \<noteq> 0"
  shows "\<exists>n < 32. fls x = int n + 1 \<and> bit x n \<and> (\<forall>m. n < m \<longrightarrow> \<not> bit x m)"
proof -
  let ?h = "fls_half 2 (fls_half 4 (fls_half 8 (fls_half 16 (x, 32))))"
  obtain y r where h: "?h = (y, r)" by fastforce
  have "fls_rel x (x, 32)" by (auto simp: fls_rel_def fls_inv_def dest: bit_imp_le_length)
  then have rel: "fls_rel x ?h" using assms by (intro fls_half_rel) auto
  have "x AND push_bit (32 - 2 * 16) (mask (2 * 16)) \<noteq> 0"
    using word_nonzero_bit [OF assms] by (auto simp: word_zero_bits bit_simps)
  then have "fst (fls_half 16 (x, 32)) AND push_bit (32 - 2 * 8) (mask (2 * 8)) \<noteq> 0"
    using fls_half_top [of "(x, 32)" 16] by simp
  then have "fst (fls_half 8 (fls_half 16 (x, 32))) AND push_bit (32 - 2 * 4) (mask (2 * 4)) \<noteq> 0"
    using fls_half_top [of "fls_half 16 (x, 32)" 8] by simp
  then have "fst (fls_half 4 (fls_half 8 (fls_half 16 (x, 32)))) AND push_bit (32 - 2 * 2) (mask (2 * 2)) \<noteq> 0"
    using fls_half_top [of "fls_half 8 (fls_half 16 (x, 32))" 4] by simp
  then have "fst ?h AND push_bit (32 - 2) (mask 2) \<noteq> 0"
    using fls_half_top [of "fls_half 4 (fls_half 8 (fls_half 16 (x, 32)))" 2] by simp
  with h have "\<exists>n < 32. 30 \<le> n \<and> bit y n"
    by (auto simp: word_zero_bits bit_simps)
  then have top2: "bit y 30 \<or> bit y 31"
  proof (elim exE conjE)
    fix n assume "n < (32 :: nat)" "30 \<le> n" "bit y n"
    moreover from this have "n = 30 \<or> n = 31" by arith
    ultimately show ?thesis by auto
  qed
  have top1: "y AND 0x80000000 = 0 \<longleftrightarrow> \<not> bit y 31"
    using and_exp_eq_0_iff_not_bit [of y 31] by simp
  from rel h have inv: "fls_inv x y (nat (32 - r))" and r: "0 \<le> r" "r \<le> 32"
    by (auto simp: fls_rel_def)
  define n where "n = (if bit y 31 then 31 else 30 :: nat)"
  from top2 have n: "n < 32" "bit y n" "\<And>m. n < m \<Longrightarrow> m < 32 \<Longrightarrow> \<not> bit y m"
  proof -
    show "\<not> bit y m" if "n < m" "m < 32" for m
    proof -
      from that have "n = 30" "m = 31" by (auto simp: n_def split: if_splits)
      then show ?thesis by (auto simp: n_def split: if_splits)
    qed
  qed (auto simp: n_def)
  from inv n have s: "nat (32 - r) \<le> n" "bit x (n - nat (32 - r))" by (auto simp: fls_inv_def)
  have above: "\<not> bit x m" if "n - nat (32 - r) < m" for m
    using inv n(3) [of "m + nat (32 - r)"] that s unfolding fls_inv_def
    by (metis add_diff_cancel_right' le_add2 less_diff_conv2)
  have "fls x = int n - 31 + r"
    using assms h top1 by (simp add: fls_def fls_masks n_def)
  with n s r above show ?thesis
    by (intro exI [of _ "n - nat (32 - r)"]) auto
qed

lemma fls_eqI:
  assumes "bit x n" and "\<And>m. n < m \<Longrightarrow> \<not> bit x m"
  shows "fls x = int n + 1"
proof -
  from assms(1) have "x \<noteq> 0" by auto
  from fls_spec [OF this] assms show ?thesis by (metis nat_neq_iff)
qed

lemma xfs_highbit32_spec:
  "x \<noteq> 0 \<Longrightarrow> \<exists>n < 32. xfs_highbit32 x = int n \<and> bit x n \<and> (\<forall>m. n < m \<longrightarrow> \<not> bit x m)"
  using fls_spec [of x] by (auto simp: xfs_highbit32_def)

lemma xfs_highbit64_spec:
  assumes "x \<noteq> 0"
  shows "\<exists>n < 64. xfs_highbit64 x = int n \<and> bit x n \<and> (\<forall>m. n < m \<longrightarrow> \<not> bit x m)"
proof (cases "(ucast (drop_bit 32 x) :: u32) = 0")
  case False
  from fls_spec [OF this] obtain n where n: "n < 32" "fls (ucast (drop_bit 32 x)) = int n + 1"
    "bit (ucast (drop_bit 32 x) :: u32) n"
    "\<forall>m. n < m \<longrightarrow> \<not> bit (ucast (drop_bit 32 x) :: u32) m" by blast
  have "\<not> bit x m" if "n + 32 < m" for m
  proof
    assume m: "bit x m"
    then have "m < 64" using bit_imp_le_length by fastforce
    with that have "n < m - 32" "m - 32 < 32" by linarith+
    with n(4) m that show False by (auto simp: bit_simps)
  qed
  with False n show ?thesis
    by (intro exI [of _ "n + 32"]) (auto simp: xfs_highbit64_def fls64_def Let_def bit_simps add.commute)
next
  case True
  have hi: "\<not> bit x m" if "32 \<le> m" for m
    using that True bit_imp_le_length [of x m]
    by (auto simp: word_zero_bits bit_simps dest!: spec [of _ "m - 32"])
  have lo: "(ucast x :: u32) \<noteq> 0"
    using word_nonzero_bit [OF assms] hi by (auto simp: word_zero_bits bit_simps) (meson not_less)
  from fls_spec [OF this] obtain n where "n < 32" "fls (ucast x) = int n + 1"
    "bit (ucast x :: u32) n" "\<forall>m. n < m \<longrightarrow> \<not> bit (ucast x :: u32) m" by blast
  with True hi show ?thesis
    by (intro exI [of _ n]) (auto simp: xfs_highbit64_def fls64_def Let_def bit_simps not_less)
qed

text \<open>The highest set bit is the base-two logarithm.\<close>

lemma highest_bit_bounds:
  fixes x :: "'a::len word"
  assumes "bit x n" and "\<And>m. n < m \<Longrightarrow> \<not> bit x m"
  shows "2 ^ n \<le> unat x" and "unat x < 2 ^ Suc n"
proof -
  have n: "n < LENGTH('a)" using assms(1) by (rule bit_imp_le_length)
  have "take_bit (Suc n) x = x"
    using assms(2) by (intro bit_word_eqI) (auto simp: bit_take_bit_iff less_Suc_eq_le intro: leI)
  then have "unat x = take_bit (Suc n) (unat x)"
    by (metis unsigned_take_bit_eq)
  then show "unat x < 2 ^ Suc n" by (metis take_bit_nat_less_exp)
  show "2 ^ n \<le> unat x" using assms(1) by (rule bit_imp_exp_le)
qed

lemma xfs_highbit64_log:
  assumes "x \<noteq> 0"
  shows "0 \<le> xfs_highbit64 x \<and> xfs_highbit64 x < 64 \<and>
     2 ^ nat (xfs_highbit64 x) \<le> unat x \<and> unat x < 2 ^ Suc (nat (xfs_highbit64 x))"
proof -
  from xfs_highbit64_spec [OF assms] obtain n where n: "n < 64" "xfs_highbit64 x = int n"
    "bit x n" "\<And>m. n < m \<Longrightarrow> \<not> bit x m" by blast
  with highest_bit_bounds [of x n] show ?thesis by simp
qed

section \<open>Scanning a bitmap\<close>

lemma sint_small: "unat w < 2 ^ 31 \<Longrightarrow> sint (w :: u32) = int (unat w)"
proof -
  assume *: "unat w < 2 ^ 31"
  then have "int (unat w) < 2 ^ 31" by (metis of_nat_less_iff of_nat_numeral of_nat_power)
  then have "uint w < 2 ^ 31" by simp
  then have "signed_take_bit 31 (uint w) = uint w"
    by (intro signed_take_bit_int_eq_self) (simp_all add: order_trans [OF _ uint_ge_0])
  then show ?thesis by (simp add: sint_uint)
qed

lemma found_bit_value:
  fixes result :: u32
  assumes "ffs w = int n + 1" and "n < 32" and "unat result + 32 < 2 ^ 31"
  shows "sint (result + of_int (ffs w) - 1) = int (unat result + n)"
proof -
  have "unat (result + of_nat n) = unat result + n"
    using assms(2,3) by (subst unat_add_small) (simp_all add: unat_of_nat)
  moreover have "result + of_int (ffs w) - 1 = result + of_nat n"
    using assms(1) by simp
  ultimately show ?thesis using assms(2,3) by (simp only:) (subst sint_small, simp_all)
qed

text \<open>The next set bit at or after \<open>start\<close>, or -1 when there is none.\<close>

definition next_bit_spec :: "u32 list \<Rightarrow> nat \<Rightarrow> int \<Rightarrow> bool" where
  "next_bit_spec ws start r \<longleftrightarrow>
     (r = - 1 \<and> (\<forall>n \<ge> start. \<not> wbit ws n)) \<or>
     (\<exists>n \<ge> start. r = int n \<and> wbit ws n \<and> (\<forall>m. start \<le> m \<and> m < n \<longrightarrow> \<not> wbit ws m))"

lemma next_bit_specI:
  "wbit ws n \<Longrightarrow> start \<le> n \<Longrightarrow> (\<And>m. start \<le> m \<Longrightarrow> m < n \<Longrightarrow> \<not> wbit ws m) \<Longrightarrow> next_bit_spec ws start (int n)"
  by (auto simp: next_bit_spec_def)

lemma unat_minus_32: "32 \<le> unat sz \<Longrightarrow> unat (sz - 32 :: u32) = unat sz - 32"
  by (subst unat_sub_le) (simp_all add: word_le_nat_alt)

lemma unat_plus_32: "unat r + 32 < 2 ^ 32 \<Longrightarrow> unat (r + 32 :: u32) = unat r + 32"
  by (subst unat_add_small) simp_all

lemma xfs_next_bit_loop_spec:
  assumes "unat sz = 32 * length p" and "unat result + 32 * length p < 2 ^ 31"
    and "pre @ p = ws" and "unat result = 32 * length pre" and "start \<le> unat result"
    and "\<And>m. start \<le> m \<Longrightarrow> m < unat result \<Longrightarrow> \<not> wbit ws m"
  shows "\<exists>r. xfs_next_bit_loop p sz result = Some r \<and> next_bit_spec ws start r"
  using assms
proof (induction p arbitrary: sz result pre)
  case Nil
  then have "\<not> wbit ws n" if "start \<le> n" for n
    using that by (cases "n < unat result") (auto dest: wbit_imp_lt)
  with Nil show ?case by (auto simp: next_bit_spec_def unat_eq_0)
next
  case (Cons tmp p)
  have bits: "wbit ws m \<longleftrightarrow> bit tmp (m - unat result)" if "unat result \<le> m" "m < unat result + 32" for m
  proof -
    from that Cons.prems(4) obtain k where "m = 32 * length pre + k" "k < 32"
      by (metis add_less_cancel_left le_iff_add)
    then have "m div 32 = length pre" "m mod 32 = m - unat result" using Cons.prems(4) by simp_all
    with Cons.prems(3) show ?thesis by (auto simp: wbit_def)
  qed
  from Cons.prems(1) have sz: "sz \<noteq> 0" by auto
  show ?case
  proof (cases "tmp = 0")
    case False
    from ffs_spec [OF this] obtain n where n: "n < 32" "ffs tmp = int n + 1" "bit tmp n"
      "\<forall>m < n. \<not> bit tmp m" by blast
    have "\<not> wbit ws m" if "start \<le> m" "m < unat result + n" for m
      using that bits [of m] Cons.prems(6) [of m] n(1,4) by (cases "m < unat result") auto
    moreover have "wbit ws (unat result + n)" using bits [of "unat result + n"] n by simp
    ultimately have "next_bit_spec ws start (int (unat result + n))"
      using Cons.prems(5) by (intro next_bit_specI) auto
    moreover have "sint (result + of_int (ffs tmp) - 1) = int (unat result + n)"
      using n Cons.prems(2) by (intro found_bit_value) auto
    ultimately show ?thesis using False sz by simp
  next
    case True
    have r32: "unat (result + 32) = unat result + 32"
      using Cons.prems(2) by (intro unat_plus_32) simp
    have "\<exists>r. xfs_next_bit_loop p (sz - 32) (result + 32) = Some r \<and> next_bit_spec ws start r"
    proof (rule Cons.IH [of _ _ "pre @ [tmp]"])
      show "unat (sz - 32) = 32 * length p"
        using Cons.prems(1) by (simp add: unat_minus_32)
      show "\<not> wbit ws m" if "start \<le> m" "m < unat (result + 32)" for m
        using that True r32 bits [of m] Cons.prems(6) [of m] by (cases "m < unat result") auto
    qed (use Cons.prems r32 in auto)
    with True sz show ?thesis by simp
  qed
qed

text \<open>The bit and word parts of a bit number.\<close>

lemma unat_and_31: "unat (s AND 31 :: u32) = unat s mod 32"
proof -
  have "s AND 31 = take_bit 5 s" by (simp add: take_bit_eq_mask mask_eq_exp_minus_1)
  then show ?thesis by (simp add: take_bit_eq_mod unat_mod)
qed

lemma unat_drop_5: "unat (drop_bit 5 s :: u32) = unat s div 32"
  by (simp add: drop_bit_eq_div unat_div)

lemma and_split: "(s AND m) + (s AND NOT m) = (s :: 'a::len word)"
proof -
  have "(s AND m) + (s AND NOT m) = (s AND m) OR (s AND NOT m)"
    by (rule disjunctive_add) (auto simp: bit_simps)
  then show ?thesis by (simp add: bit_eq_iff bit_simps) blast
qed

lemma unat_and_not_31: "unat (s AND NOT 31 :: u32) = 32 * (unat s div 32)"
proof -
  have "s AND NOT 31 = s - (s AND 31)"
    using and_split [of s 31] by (metis add_diff_cancel_left')
  moreover have "s AND 31 \<le> s" by (rule word_and_le2)
  ultimately have "unat (s AND NOT 31) = unat s - unat s mod 32"
    by (simp only: unat_sub_le unat_and_31)
  then show ?thesis by (simp only: minus_mod_eq_mult_div)
qed

lemma unat_push_5: "unat sz < 2 ^ 27 \<Longrightarrow> unat (push_bit 5 sz :: u32) = 32 * unat sz"
  by (simp add: push_bit_eq_mult unat_word_ariths)

text \<open>
  The partial first word is the loop started on that word with the bits before the start
  masked off, so both scans are one loop over a patched copy of the array.
\<close>

lemma xfs_next_bit_as_loop:
  assumes "start_bit < push_bit 5 sz" and "unat start_bit div 32 < length bmap"
    and "push_bit 5 sz - (start_bit AND NOT 31) \<noteq> 0"
  shows "xfs_next_bit bmap sz start_bit =
     xfs_next_bit_loop
       ((bmap ! (unat start_bit div 32) AND push_bit (unat start_bit mod 32) (- 1)) #
          drop (Suc (unat start_bit div 32)) bmap)
       (push_bit 5 sz - (start_bit AND NOT 31)) (start_bit AND NOT 31)"
proof -
  have p: "drop (unat start_bit div 32) bmap =
      bmap ! (unat start_bit div 32) # drop (Suc (unat start_bit div 32)) bmap"
    using assms(2) by (simp add: Cons_nth_drop_Suc)
  have z: "unat start_bit mod 32 = 0 \<longleftrightarrow> start_bit AND 31 = 0"
    by (metis unat_and_31 unat_eq_zero)
  have "\<not> push_bit 5 sz \<le> start_bit" using assms(1) by simp
  then show ?thesis
    using assms(3) z
    by (cases "start_bit AND 31 = 0")
       (simp_all only: xfs_next_bit_def Let_def unat_drop_5 unat_and_31 p, simp_all)
qed

lemma scan_start:
  fixes sz start_bit :: u32
  assumes "unat sz = length bmap" and "length bmap < 2 ^ 26" and "start_bit < push_bit 5 sz"
  shows "unat start_bit div 32 < length bmap"
    and "unat (push_bit 5 sz - (start_bit AND NOT 31)) = 32 * (length bmap - unat start_bit div 32)"
    and "unat start_bit < 32 * length bmap"
proof -
  have n: "unat (push_bit 5 sz) = 32 * length bmap" using assms(1,2) by (simp add: unat_push_5)
  with assms(3) show s: "unat start_bit < 32 * length bmap" by (simp add: word_less_nat_alt)
  then show w: "unat start_bit div 32 < length bmap" by (simp add: less_mult_imp_div_less mult.commute)
  have "start_bit AND NOT 31 \<le> push_bit 5 sz"
    using n w by (simp only: word_le_nat_alt unat_and_not_31)
  then show "unat (push_bit 5 sz - (start_bit AND NOT 31)) = 32 * (length bmap - unat start_bit div 32)"
    using n by (simp only: unat_sub_le unat_and_not_31 diff_mult_distrib2)
qed

lemma from_start_iff: "(s :: nat) \<le> 32 * (s div 32) + k \<longleftrightarrow> s mod 32 \<le> k"
  by (metis add_le_cancel_left mult_div_mod_eq)

lemma wbit_patched:
  assumes "w < length ws" and "\<And>k. k < 32 \<Longrightarrow> bit t k \<longleftrightarrow> P (32 * w + k)"
    and "32 * w \<le> m"
  shows "wbit (ws[w := t]) m \<longleftrightarrow> (if m < 32 * Suc w then P m else wbit ws m)"
proof (cases "m < 32 * Suc w")
  case True
  with assms(3) have m: "m div 32 = w" by auto
  then have "32 * w + m mod 32 = m" by auto
  with m True assms(1) assms(2) [of "m mod 32"] show ?thesis by (simp add: wbit_def)
next
  case False
  then have "m div 32 \<noteq> w" by auto
  with False show ?thesis by (auto simp: wbit_def)
qed

lemma next_bit_spec_shift:
  assumes "a \<le> s" and "\<And>m. a \<le> m \<Longrightarrow> wbit ws' m \<longleftrightarrow> s \<le> m \<and> wbit ws m" and "next_bit_spec ws' a r"
  shows "next_bit_spec ws s r"
  using assms(3) unfolding next_bit_spec_def
proof (elim disjE exE conjE)
  assume "r = - 1" "\<forall>n \<ge> a. \<not> wbit ws' n"
  with assms(1,2) show "r = - 1 \<and> (\<forall>n \<ge> s. \<not> wbit ws n) \<or>
    (\<exists>n \<ge> s. r = int n \<and> wbit ws n \<and> (\<forall>m. s \<le> m \<and> m < n \<longrightarrow> \<not> wbit ws m))"
    by auto
next
  fix n assume "a \<le> n" "r = int n" "wbit ws' n" "\<forall>m. a \<le> m \<and> m < n \<longrightarrow> \<not> wbit ws' m"
  with assms(1,2) show "r = - 1 \<and> (\<forall>n \<ge> s. \<not> wbit ws n) \<or>
    (\<exists>n \<ge> s. r = int n \<and> wbit ws n \<and> (\<forall>m. s \<le> m \<and> m < n \<longrightarrow> \<not> wbit ws m))"
    by (intro disjI2 exI [of _ n]) auto
qed

text \<open>
  For every bitmap of at most \<open>2 ^ 26\<close> words whose size is passed correctly,
  \<^verbatim>\<open>xfs_next_bit\<close> returns (without reading outside the bitmap) the number of the first set bit
  at or after the start bit, or -1 if no bit is set from there on.
\<close>

theorem xfs_next_bit_finds:
  assumes sz: "unat sz = length bmap" and len: "length bmap < 2 ^ 26"
  shows "\<exists>r. xfs_next_bit bmap sz start_bit = Some r \<and> next_bit_spec bmap (unat start_bit) r"
proof (cases "start_bit < push_bit 5 sz")
  case False
  then have le: "push_bit 5 sz \<le> start_bit" by simp
  have "unat (push_bit 5 sz) = 32 * length bmap" using sz len by (simp add: unat_push_5)
  with le have "32 * length bmap \<le> unat start_bit" by (simp add: word_le_nat_alt)
  then have "next_bit_spec bmap (unat start_bit) (- 1)"
    by (auto simp: next_bit_spec_def dest: wbit_imp_lt)
  with le show ?thesis by (simp add: xfs_next_bit_def Let_def)
next
  case True
  let ?s = "unat start_bit" and ?r = "start_bit AND NOT 31"
  let ?w = "?s div 32" and ?n = "push_bit 5 sz - (start_bit AND NOT 31)"
  let ?t = "bmap ! ?w AND push_bit (?s mod 32) (- 1)"
  note st = scan_start [OF sz len True]
  have eq: "xfs_next_bit bmap sz start_bit = xfs_next_bit_loop (?t # drop (Suc ?w) bmap) ?n ?r"
    by (rule xfs_next_bit_as_loop) (use True st in auto)
  have bt: "bit ?t k \<longleftrightarrow> ?s \<le> 32 * ?w + k \<and> wbit bmap (32 * ?w + k)" if "k < 32" for k
    using that st(1) by (auto simp: bit_simps wbit_def from_start_iff)
  have wb: "wbit (bmap[?w := ?t]) m \<longleftrightarrow> ?s \<le> m \<and> wbit bmap m" if "32 * ?w \<le> m" for m
    using wbit_patched [of ?w bmap ?t "\<lambda>m. ?s \<le> m \<and> wbit bmap m", OF st(1) bt that] by auto
  have "\<exists>r. xfs_next_bit_loop (?t # drop (Suc ?w) bmap) ?n ?r = Some r \<and>
      next_bit_spec (bmap[?w := ?t]) (32 * ?w) r"
  proof (rule xfs_next_bit_loop_spec [where pre = "take ?w bmap"])
    show "take ?w bmap @ ?t # drop (Suc ?w) bmap = bmap[?w := ?t]"
      using st(1) by (simp add: upd_conv_take_nth_drop)
  qed (use st len in \<open>simp_all only: unat_and_not_31, simp_all\<close>)
  moreover have "32 * ?w \<le> ?s" by simp
  then have "next_bit_spec (bmap[?w := ?t]) (32 * ?w) r \<Longrightarrow> next_bit_spec bmap ?s r" for r
    using wb by (rule next_bit_spec_shift)
  ultimately show ?thesis using eq by auto
qed

theorem xfs_next_bit_finds_witness:
  "unat (2 :: u32) = length [0, 4 :: u32] \<and> length [0, 4 :: u32] < 2 ^ 26 \<and>
   (\<exists>r. xfs_next_bit [0, 4] 2 3 = Some r \<and> next_bit_spec [0, 4] (unat (3 :: u32)) r)"
proof -
  have "unat (2 :: u32) = length [0, 4 :: u32]" "length [0, 4 :: u32] < 2 ^ 26" by simp_all
  with xfs_next_bit_finds [OF this] show ?thesis by blast
qed

text \<open>
  \<^verbatim>\<open>xfs_contig_bits\<close>. The length of the run of set bits from a position; bits past the end of
  the array count as clear.
\<close>

definition contig_run :: "u32 list \<Rightarrow> nat \<Rightarrow> nat \<Rightarrow> bool" where
  "contig_run ws start c \<longleftrightarrow> (\<forall>k < c. wbit ws (start + k)) \<and> \<not> wbit ws (start + c)"

lemma contig_found_value:
  assumes "tmp \<noteq> - 1" and "unat result + 32 < 2 ^ 31"
    and "unat sb \<le> unat result \<or> (\<forall>m < unat sb. bit tmp m)"
  shows "\<exists>k < 32. \<not> bit tmp k \<and> (\<forall>m < k. bit tmp m) \<and>
     xfs_contig_bits_found result tmp sb = int (unat result + k + 1) - int (unat sb)"
proof -
  from assms(1) have "NOT tmp \<noteq> 0"
    by (metis bit.compl_zero bit.double_compl)
  from ffs_spec [OF this] obtain k where k: "k < 32" "ffs (NOT tmp) = int k + 1"
    "bit (NOT tmp) k" "\<forall>m < k. \<not> bit (NOT tmp) m" by blast
  have run: "\<not> bit tmp k \<and> (\<forall>m < k. bit tmp m)"
    using k(1,3,4) by (auto simp: bit_not_iff)
  with assms(3) have sb: "unat sb \<le> unat result + k + 1" by (metis add.commute le_SucI Suc_eq_plus1 le_add1 le_trans not_le trans_le_add2)
  define v where "v = result + of_nat (k + 1)"
  have "unat (of_nat (k + 1) :: u32) = k + 1"
    by (simp only: unat_of_nat) (use k(1) in simp)
  then have v: "unat v = unat result + (k + 1)"
    unfolding v_def using assms(2) k(1) by (subst unat_add_small) (simp_all only:, simp)
  have "sb \<le> v" using v sb by (simp add: word_le_nat_alt)
  then have u: "unat (v - sb) = unat result + k + 1 - unat sb" by (simp add: unat_sub_le v)
  have "xfs_contig_bits_found result tmp sb = sint (v - sb)"
    using k(2) by (simp add: xfs_contig_bits_found_def ffz_def v_def add.commute)
  also have "\<dots> = int (unat (v - sb))"
    by (rule sint_small) (use u assms(2) k(1) in simp)
  finally have "xfs_contig_bits_found result tmp sb = int (unat result + k + 1) - int (unat sb)"
    using u sb by linarith
  with run k(1) show ?thesis by blast
qed

lemma wbit_Cons: "wbit (w # ws) n \<longleftrightarrow> (if n < 32 then bit w n else wbit ws (n - 32))"
  using wbit_Cons_lt [of n w ws] wbit_Cons_ge [of w ws "n - 32"] by auto

lemma xfs_contig_bits_loop_spec:
  assumes "unat sz = 32 * length p" and "unat result + 32 * length p < 2 ^ 31"
    and "unat sb \<le> unat result \<or> p \<noteq> [] \<and> unat sb \<le> 32 \<and> (\<forall>k < unat sb. bit (hd p) k)"
  shows "\<exists>c. contig_run p 0 c \<and> xfs_contig_bits_loop p sz result sb =
     Some (int (unat result + c) - int (unat sb) + (if c = 32 * length p then 0 else 1))"
  using assms
proof (induction p arbitrary: sz result)
  case Nil
  then have "sint (result - sb) = int (unat result) - int (unat sb)"
    by (subst sint_small) (auto simp: unat_sub_le word_le_nat_alt)
  with Nil show ?case by (auto simp: contig_run_def unat_eq_0)
next
  case (Cons tmp p)
  from Cons.prems(1) have sz: "sz \<noteq> 0" by auto
  show ?case
  proof (cases "tmp = - 1")
    case False
    have "\<exists>k < 32. \<not> bit tmp k \<and> (\<forall>m < k. bit tmp m) \<and>
        xfs_contig_bits_found result tmp sb = int (unat result + k + 1) - int (unat sb)"
      by (rule contig_found_value [OF False]) (use Cons.prems in auto)
    then obtain k where k: "k < 32" "\<not> bit tmp k" "\<forall>m < k. bit tmp m"
      "xfs_contig_bits_found result tmp sb = int (unat result + k + 1) - int (unat sb)" by blast
    then have "contig_run (tmp # p) 0 k" by (auto simp: contig_run_def wbit_Cons)
    with k False sz show ?thesis by (intro exI [of _ k]) auto
  next
    case True
    have r32: "unat (result + 32) = unat result + 32"
      using Cons.prems(2) by (intro unat_plus_32) simp
    have "\<exists>c. contig_run p 0 c \<and> xfs_contig_bits_loop p (sz - 32) (result + 32) sb =
      Some (int (unat (result + 32) + c) - int (unat sb) + (if c = 32 * length p then 0 else 1))"
      using Cons.prems r32 by (intro Cons.IH) (auto simp: unat_minus_32)
    then obtain c where c: "contig_run p 0 c" "xfs_contig_bits_loop p (sz - 32) (result + 32) sb =
      Some (int (unat (result + 32) + c) - int (unat sb) + (if c = 32 * length p then 0 else 1))" by blast
    have "contig_run (tmp # p) 0 (c + 32)"
      using c(1) True by (auto simp: contig_run_def wbit_Cons)
    with c(2) True sz r32 show ?thesis by (intro exI [of _ "c + 32"]) auto
  qed
qed

lemma xfs_contig_bits_as_loop:
  assumes "start_bit < push_bit 5 sz" and "unat start_bit div 32 < length bmap"
    and "push_bit 5 sz - (start_bit AND NOT 31) \<noteq> 0"
  shows "xfs_contig_bits bmap sz start_bit =
     xfs_contig_bits_loop
       ((bmap ! (unat start_bit div 32) OR drop_bit (32 - unat start_bit mod 32) (- 1)) #
          drop (Suc (unat start_bit div 32)) bmap)
       (push_bit 5 sz - (start_bit AND NOT 31)) 0 (start_bit AND 31)"
proof -
  have p: "drop (unat start_bit div 32) bmap =
      bmap ! (unat start_bit div 32) # drop (Suc (unat start_bit div 32)) bmap"
    using assms(2) by (simp add: Cons_nth_drop_Suc)
  have z: "unat start_bit mod 32 = 0 \<longleftrightarrow> start_bit AND 31 = 0"
    by (metis unat_and_31 unat_eq_zero)
  have e: "drop_bit 32 (- 1 :: u32) = 0" by (rule bit_word_eqI) (simp add: bit_simps)
  show ?thesis
    using assms(3) z e
    by (cases "start_bit AND 31 = 0")
       (simp_all only: xfs_contig_bits_def Let_def unat_drop_5 unat_and_31 p, simp_all)
qed

lemma contig_run_unique: "contig_run ws s c \<Longrightarrow> contig_run ws s d \<Longrightarrow> c = d"
  by (metis contig_run_def linorder_neqE_nat)

text \<open>
  \<^verbatim>\<open>xfs_contig_bits\<close> returns one bit too many whenever the run of set bits ends at a clear
  bit of the bitmap: \<^verbatim>\<open>ffz\<close> of \<^verbatim>\<open>include/bitops.h\<close> numbers bits from one, like \<^verbatim>\<open>ffs\<close>, while
  the function adds it as a count of set bits. Only a run that reaches the end of the bitmap is
  counted exactly.
\<close>

theorem xfs_contig_bits_result:
  assumes sz: "unat sz = length bmap" and len: "length bmap < 2 ^ 26"
    and start: "unat start_bit < 32 * length bmap" and run: "contig_run bmap (unat start_bit) c"
  shows "xfs_contig_bits bmap sz start_bit =
     Some (int c + (if unat start_bit + c = 32 * length bmap then 0 else 1))"
proof -
  let ?s = "unat start_bit" and ?n = "push_bit 5 sz - (start_bit AND NOT 31)"
  let ?w = "?s div 32"
  define t where "t = bmap ! ?w OR drop_bit (32 - ?s mod 32) (- 1)"
  let ?p = "t # drop (Suc ?w) bmap"
  have "unat (push_bit 5 sz) = 32 * length bmap" using sz len by (simp add: unat_push_5)
  with start have lt: "start_bit < push_bit 5 sz" by (simp add: word_less_nat_alt)
  note st = scan_start [OF sz len lt]
  have n0: "?n \<noteq> 0"
    by (metis st(1,2) mult_is_0 zero_neq_numeral diff_is_0_eq not_le unat_0)
  have p: "length ?p = length bmap - ?w" using st(1) by simp
  have bt: "bit t k \<longleftrightarrow> k < ?s mod 32 \<or> bit (bmap ! ?w) k" for k
    by (auto simp: t_def bit_simps)
  have wb: "wbit ?p k \<longleftrightarrow> k < ?s mod 32 \<or> wbit bmap (32 * ?w + k)" for k
  proof (cases "k < 32")
    case True
    with st(1) show ?thesis by (simp add: wbit_Cons bt wbit_def)
  next
    case False
    moreover have "k - 32 + 32 * Suc ?w = 32 * ?w + k" using False by simp
    moreover have "\<not> k < ?s mod 32" using False by (metis mod_less_divisor not_less_iff_gr_or_eq order_less_trans zero_less_numeral)
    ultimately show ?thesis by (simp only: wbit_Cons wbit_drop if_False) simp
  qed
  have "\<exists>c. contig_run ?p 0 c \<and> xfs_contig_bits_loop ?p ?n 0 (start_bit AND 31) =
    Some (int (unat (0 :: u32) + c) - int (unat (start_bit AND 31)) + (if c = 32 * length ?p then 0 else 1))"
    by (rule xfs_contig_bits_loop_spec, unfold p) (use st len bt in \<open>auto simp: unat_and_31\<close>)
  moreover have "xfs_contig_bits bmap sz start_bit = xfs_contig_bits_loop ?p ?n 0 (start_bit AND 31)"
    unfolding t_def by (rule xfs_contig_bits_as_loop [OF lt st(1) n0])
  ultimately obtain d where d: "contig_run ?p 0 d" "xfs_contig_bits bmap sz start_bit =
       Some (int d - int (?s mod 32) + (if d = 32 * (length bmap - ?w) then 0 else 1))"
    by (auto simp only: unat_and_31 p unat_0 add_0)
  have le: "?s mod 32 \<le> d" using d(1) wb by (auto simp: contig_run_def not_less)
  have eq: "32 * ?w + (?s mod 32 + k) = ?s + k" for k by simp
  have "contig_run bmap ?s (d - ?s mod 32)"
  proof -
    have "wbit bmap (?s + k)" if "k < d - ?s mod 32" for k
      using d(1) wb [of "?s mod 32 + k"] that eq [of k] by (auto simp: contig_run_def)
    moreover have "\<not> wbit bmap (?s + (d - ?s mod 32))"
      using d(1) wb [of d] eq [of "d - ?s mod 32"] le by (auto simp: contig_run_def)
    ultimately show ?thesis by (auto simp: contig_run_def)
  qed
  with run have "c = d - ?s mod 32" by (rule contig_run_unique)
  moreover have "?s + (d - ?s mod 32) = 32 * ?w + d" using le eq [of "d - ?s mod 32"] by simp
  ultimately show ?thesis using d(2) le st(1) by (auto simp: diff_mult_distrib2)
qed

theorem xfs_contig_bits_result_witness:
  "contig_run [3] (unat (0 :: u32)) 2 \<and> xfs_contig_bits [3] 1 0 = Some 3"
proof -
  have run: "contig_run [3] (unat (0 :: u32)) 2"
    by (simp add: contig_run_def wbit_def less_Suc_eq numeral_2_eq_2)
  have "xfs_contig_bits [3] 1 0 = Some (int 2 + (if unat (0 :: u32) + 2 = 32 * length [3 :: u32] then 0 else 1))"
    using xfs_contig_bits_result [of 1 "[3]" 0 2] run by simp
  with run show ?thesis by simp
qed

end
