(* ===== verification/Rt_Model.thy ===== *)
theory Rt_Model
  imports Arch Bits
begin

text \<open>
  The realtime bitmap and summary files: \<^verbatim>\<open>libxfs/xfs_rtbitmap.c\<close> and the inline routines of
  \<^verbatim>\<open>libxfs/xfs_rtbitmap.h\<close>. This theory holds the data and the operations; the theories
  \<^verbatim>\<open>Rt_Scan\<close>, \<^verbatim>\<open>Rt_Modify\<close> and \<^verbatim>\<open>Rt_Free\<close> hold the proofs.

  The state of a call is one record: the mount geometry, the blocks of the two files as the
  buffer cache presents them, the two cached buffers of \<^verbatim>\<open>struct xfs_rtalloc_args\<close>, the
  in-core summary cache and the byte ranges logged in the transaction. What the block map
  and the device return for a file block is the value stored for that block: an error of
  the mapping, a hole (or unwritten extent), a read error, or a buffer. An access outside
  a buffer, or with no buffer held, is the error \<open>Fault\<close>. The calls that mark metadata as
  sick are empty functions in this program (\<^verbatim>\<open>libxfs/util.c\<close>) and leave no trace in the model.
\<close>

section \<open>State\<close>

record rt_mount =
  m_has_rtgroups :: bool
  m_has_zoned :: bool
  m_rtx_per_rbmblock :: u32
  m_blkbit_log :: nat
  m_blockwsize :: u32
  m_blockmask :: u32
  m_rsumblocks :: u64
  m_rtxblklog :: int
  m_rtxblkmask :: u64
  m_rtg_blkmask :: u64
  sb_rbmblocks :: u32
  sb_blocklog :: nat
  sb_blocksize :: u32
  sb_rextsize :: u32
  sb_rextents :: u64
  sb_rgextents :: u32
  sb_frextents :: u64

record rt_buf =
  rt_owner :: u64
  rt_words :: "u32 list"

datatype rtfile_block = Bmapi_error errno | Bmapi_hole | Read_error errno | Rt_buf rt_buf

datatype xfs_rtg_inodes = XFS_RTGI_BITMAP | XFS_RTGI_SUMMARY | XFS_RTGI_RMAP | XFS_RTGI_REFCOUNT

datatype rt_err = Errno errno | Fault

text \<open>
  \<open>rbmbp\<close> and \<open>sumbp\<close> identify the held buffer by the file block it was read from. A log
  entry is the file, the block and the first and last byte logged.
\<close>

record xfs_rtalloc_args =
  mp :: rt_mount
  rtg_extents :: u64
  rtg_rsum_cache :: "u8 list option"
  rbm_ino :: u64
  rsum_ino :: u64
  rbm_file :: "rtfile_block list"
  rsum_file :: "rtfile_block list"
  rbmbp :: "u64 option"
  sumbp :: "u64 option"
  rbmoff :: u64
  sumoff :: u64
  tp_log :: "(xfs_rtg_inodes \<times> u64 \<times> nat \<times> nat) list"
  t_frextents_delta :: u64
  rbm_newrtbm :: bool
  rbm_atime_sec :: u64

type_synonym 'a rtm = "xfs_rtalloc_args \<Rightarrow> (rt_err + 'a) \<times> xfs_rtalloc_args"

definition rt_return :: "'a \<Rightarrow> 'a rtm" where
  "rt_return x s = (Inr x, s)"

definition rt_bind :: "'a rtm \<Rightarrow> ('a \<Rightarrow> 'b rtm) \<Rightarrow> 'b rtm" where
  "rt_bind m f s = (case m s of (Inl e, s') \<Rightarrow> (Inl e, s') | (Inr x, s') \<Rightarrow> f x s')"

definition NULLFILEOFF :: u64 where "NULLFILEOFF = - 1"

section \<open>Geometry\<close>

definition howmany_64 :: "u64 \<Rightarrow> u32 \<Rightarrow> u64" where
  "howmany_64 x y = (x + ucast (y - 1)) div ucast y"

definition roundup_64 :: "u64 \<Rightarrow> u32 \<Rightarrow> u64" where
  "roundup_64 x y = (x + ucast (y - 1)) div ucast y * ucast y"

definition rounddown_64 :: "u64 \<Rightarrow> u32 \<Rightarrow> u64" where
  "rounddown_64 x y = x div ucast y * ucast y"

definition xfs_rtbxlen_to_blen :: "rt_mount \<Rightarrow> u64 \<Rightarrow> u64" where
  "xfs_rtbxlen_to_blen m rtbxlen =
     (if m_rtxblklog m \<ge> 0 then push_bit (nat (m_rtxblklog m)) rtbxlen
      else rtbxlen * ucast (sb_rextsize m))"

definition xfs_extlen_to_rtxmod :: "rt_mount \<Rightarrow> u32 \<Rightarrow> u32" where
  "xfs_extlen_to_rtxmod m len =
     (if m_rtxblklog m \<ge> 0 then ucast (ucast len AND m_rtxblkmask m) else len mod sb_rextsize m)"

definition xfs_extlen_to_rtxlen :: "rt_mount \<Rightarrow> u32 \<Rightarrow> u32" where
  "xfs_extlen_to_rtxlen m len =
     (if m_rtxblklog m \<ge> 0 then drop_bit (nat (m_rtxblklog m)) len else len div sb_rextsize m)"

definition xfs_blen_to_rtbxlen :: "rt_mount \<Rightarrow> u64 \<Rightarrow> u64" where
  "xfs_blen_to_rtbxlen m blen =
     (if m_rtxblklog m \<ge> 0 then drop_bit (nat (m_rtxblklog m)) blen
      else blen div ucast (sb_rextsize m))"

definition xfs_blen_to_rtxoff :: "rt_mount \<Rightarrow> u64 \<Rightarrow> u32" where
  "xfs_blen_to_rtxoff m blen =
     (if m_rtxblklog m \<ge> 0 then ucast (blen AND m_rtxblkmask m)
      else ucast (blen mod ucast (sb_rextsize m)))"

definition xfs_blen_roundup_rtx :: "rt_mount \<Rightarrow> u64 \<Rightarrow> u64" where
  "xfs_blen_roundup_rtx m blen = roundup_64 blen (sb_rextsize m)"

definition xfs_rtb_to_rtx :: "rt_mount \<Rightarrow> u64 \<Rightarrow> u64" where
  "xfs_rtb_to_rtx m rtbno =
     (let rtbno = rtbno AND m_rtg_blkmask m
      in if m_rtxblklog m \<ge> 0 then drop_bit (nat (m_rtxblklog m)) rtbno
         else rtbno div ucast (sb_rextsize m))"

definition xfs_rtb_to_rtxoff :: "rt_mount \<Rightarrow> u64 \<Rightarrow> u32" where
  "xfs_rtb_to_rtxoff m rtbno =
     (let rtbno = rtbno AND m_rtg_blkmask m
      in if m_rtxblklog m \<ge> 0 then ucast (rtbno AND m_rtxblkmask m)
         else ucast (rtbno mod ucast (sb_rextsize m)))"

definition xfs_rtx_to_rbmblock :: "rt_mount \<Rightarrow> u64 \<Rightarrow> u64" where
  "xfs_rtx_to_rbmblock m rtx =
     (if m_has_rtgroups m then rtx div ucast (m_rtx_per_rbmblock m)
      else drop_bit (m_blkbit_log m) rtx)"

definition xfs_rtx_to_rbmword :: "rt_mount \<Rightarrow> u64 \<Rightarrow> u32" where
  "xfs_rtx_to_rbmword m rtx =
     (if m_has_rtgroups m then ucast (drop_bit 5 rtx mod ucast (m_blockwsize m))
      else ucast (drop_bit 5 rtx AND ucast (m_blockwsize m - 1)))"

definition xfs_rbmblock_to_rtx :: "rt_mount \<Rightarrow> u64 \<Rightarrow> u64" where
  "xfs_rbmblock_to_rtx m off =
     (if m_has_rtgroups m then off * ucast (m_rtx_per_rbmblock m)
      else push_bit (m_blkbit_log m) off)"

definition xfs_rtsumoffs :: "rt_mount \<Rightarrow> int \<Rightarrow> u64 \<Rightarrow> u32" where
  "xfs_rtsumoffs m log2_len off = ucast (ucast (of_int log2_len * sb_rbmblocks m) + off)"

definition xfs_rtsumoffs_to_block :: "rt_mount \<Rightarrow> u32 \<Rightarrow> u64" where
  "xfs_rtsumoffs_to_block m rsumoff =
     (if m_has_rtgroups m then ucast (rsumoff div m_blockwsize m)
      else drop_bit (sb_blocklog m) (ucast rsumoff * 4))"

definition xfs_rtsumoffs_to_infoword :: "rt_mount \<Rightarrow> u32 \<Rightarrow> u32" where
  "xfs_rtsumoffs_to_infoword m rsumoff =
     (let mask = drop_bit 2 (m_blockmask m)
      in if m_has_rtgroups m then rsumoff mod m_blockwsize m else rsumoff AND mask)"

section \<open>Buffers\<close>

definition rtfile_lookup :: "rtfile_block list \<Rightarrow> u64 \<Rightarrow> rtfile_block" where
  "rtfile_lookup f block = (if unat block < length f then f ! unat block else Bmapi_hole)"

definition xfs_rtbuf_cache_relse :: "xfs_rtalloc_args \<Rightarrow> xfs_rtalloc_args" where
  "xfs_rtbuf_cache_relse s =
     (let s = (if rbmbp s \<noteq> None then s\<lparr>rbmbp := None, rbmoff := NULLFILEOFF\<rparr> else s)
      in if sumbp s \<noteq> None then s\<lparr>sumbp := None, sumoff := NULLFILEOFF\<rparr> else s)"

text \<open>
  \<^verbatim>\<open>xfs_rtbuf_get\<close>. \<open>rtbuf_fetch\<close> is the part after the cached buffer was dropped: the
  mapping of the block, the read and the owner check.
\<close>

definition rtbuf_fetch :: "rt_mount \<Rightarrow> u64 \<Rightarrow> rtfile_block \<Rightarrow> rt_err option" where
  "rtbuf_fetch m ino b =
     (case b of
        Bmapi_error e \<Rightarrow> Some (Errno e)
      | Bmapi_hole \<Rightarrow> Some (Errno EFSCORRUPTED)
      | Read_error e \<Rightarrow> Some (Errno e)
      | Rt_buf blk \<Rightarrow>
          if m_has_rtgroups m \<and> rt_owner blk \<noteq> cpu_to_be64 ino then Some (Errno EFSCORRUPTED)
          else None)"

definition xfs_rtbuf_get :: "u64 \<Rightarrow> xfs_rtg_inodes \<Rightarrow> unit rtm" where
  "xfs_rtbuf_get block type s =
     (case type of
        XFS_RTGI_SUMMARY \<Rightarrow>
          (if sumbp s \<noteq> None \<and> sumoff s = block then (Inr (), s)
           else let s = s\<lparr>sumbp := None\<rparr>
                in case rtbuf_fetch (mp s) (rsum_ino s) (rtfile_lookup (rsum_file s) block) of
                     Some e \<Rightarrow> (Inl e, s)
                   | None \<Rightarrow> (Inr (), s\<lparr>sumbp := Some block, sumoff := block\<rparr>))
      | XFS_RTGI_BITMAP \<Rightarrow>
          (if rbmbp s \<noteq> None \<and> rbmoff s = block then (Inr (), s)
           else let s = s\<lparr>rbmbp := None\<rparr>
                in case rtbuf_fetch (mp s) (rbm_ino s) (rtfile_lookup (rbm_file s) block) of
                     Some e \<Rightarrow> (Inl e, s)
                   | None \<Rightarrow> (Inr (), s\<lparr>rbmbp := Some block, rbmoff := block\<rparr>))
      | _ \<Rightarrow> (Inl (Errno EINVAL), s))"

definition xfs_rtbitmap_read_buf :: "u64 \<Rightarrow> unit rtm" where
  "xfs_rtbitmap_read_buf block s =
     (if block \<ge> ucast (sb_rbmblocks (mp s)) then (Inl (Errno EFSCORRUPTED), s)
      else xfs_rtbuf_get block XFS_RTGI_BITMAP s)"

definition xfs_rtsummary_read_buf :: "u64 \<Rightarrow> unit rtm" where
  "xfs_rtsummary_read_buf block s =
     (if block \<ge> m_rsumblocks (mp s) then (Inl (Errno EFSCORRUPTED), s)
      else xfs_rtbuf_get block XFS_RTGI_SUMMARY s)"

text \<open>The words behind the header of a held buffer, and their update.\<close>

definition held_words :: "rtfile_block list \<Rightarrow> u64 option \<Rightarrow> u32 list option" where
  "held_words f bp =
     (case bp of None \<Rightarrow> None
      | Some b \<Rightarrow> (case rtfile_lookup f b of Rt_buf blk \<Rightarrow> Some (rt_words blk) | _ \<Rightarrow> None))"

definition store_word :: "rtfile_block list \<Rightarrow> u64 \<Rightarrow> nat \<Rightarrow> u32 \<Rightarrow> rtfile_block list" where
  "store_word f b i raw =
     (case rtfile_lookup f b of
        Rt_buf blk \<Rightarrow> f[unat b := Rt_buf (blk\<lparr>rt_words := (rt_words blk)[i := raw]\<rparr>)]
      | _ \<Rightarrow> f)"

definition xfs_rtbitmap_getword :: "u32 \<Rightarrow> u32 rtm" where
  "xfs_rtbitmap_getword index s =
     (case held_words (rbm_file s) (rbmbp s) of
        None \<Rightarrow> (Inl Fault, s)
      | Some ws \<Rightarrow>
          if unat index < length ws
          then (Inr (if m_has_rtgroups (mp s) then be32_to_cpu (ws ! unat index)
                     else ws ! unat index), s)
          else (Inl Fault, s))"

definition xfs_rtbitmap_setword :: "u32 \<Rightarrow> u32 \<Rightarrow> unit rtm" where
  "xfs_rtbitmap_setword index value s =
     (case (rbmbp s, held_words (rbm_file s) (rbmbp s)) of
        (Some b, Some ws) \<Rightarrow>
          if unat index < length ws
          then (Inr (), s\<lparr>rbm_file := store_word (rbm_file s) b (unat index)
                   (if m_has_rtgroups (mp s) then cpu_to_be32 value else value)\<rparr>)
          else (Inl Fault, s)
      | _ \<Rightarrow> (Inl Fault, s))"

definition xfs_suminfo_get :: "u32 \<Rightarrow> u32 rtm" where
  "xfs_suminfo_get index s =
     (case held_words (rsum_file s) (sumbp s) of
        None \<Rightarrow> (Inl Fault, s)
      | Some ws \<Rightarrow>
          if unat index < length ws
          then (Inr (if m_has_rtgroups (mp s) then be32_to_cpu (ws ! unat index)
                     else ws ! unat index), s)
          else (Inl Fault, s))"

definition xfs_suminfo_add :: "u32 \<Rightarrow> int \<Rightarrow> u32 rtm" where
  "xfs_suminfo_add index delta s =
     (case (sumbp s, held_words (rsum_file s) (sumbp s)) of
        (Some b, Some ws) \<Rightarrow>
          if unat index < length ws
          then let old = ws ! unat index;
                   new = (if m_has_rtgroups (mp s) then be32_add_cpu old (of_int delta)
                          else old + of_int delta)
               in (Inr (if m_has_rtgroups (mp s) then be32_to_cpu new else new),
                   s\<lparr>rsum_file := store_word (rsum_file s) b (unat index) new\<rparr>)
          else (Inl Fault, s)
      | _ \<Rightarrow> (Inl Fault, s))"

text \<open>
  Logging. The header of a block is 48 bytes (\<^verbatim>\<open>struct xfs_rtbuf_blkinfo\<close>) on file systems
  with realtime groups and absent otherwise; a word is four bytes.
\<close>

definition rt_hdr_bytes :: "rt_mount \<Rightarrow> nat" where
  "rt_hdr_bytes m = (if m_has_rtgroups m then 48 else 0)"

definition xfs_trans_log_rtsummary :: "u32 \<Rightarrow> unit rtm" where
  "xfs_trans_log_rtsummary infoword s =
     (case sumbp s of
        None \<Rightarrow> (Inl Fault, s)
      | Some b \<Rightarrow>
          let first = rt_hdr_bytes (mp s) + 4 * unat infoword;
              last = first + 4 - 1
          in (Inr (), s\<lparr>tp_log := tp_log s @ [(XFS_RTGI_SUMMARY, b, first, last)]\<rparr>))"

definition xfs_trans_log_rtbitmap :: "u32 \<Rightarrow> u32 \<Rightarrow> unit rtm" where
  "xfs_trans_log_rtbitmap from nxt s =
     (case rbmbp s of
        None \<Rightarrow> (Inl Fault, s)
      | Some b \<Rightarrow>
          let first = rt_hdr_bytes (mp s) + 4 * unat from;
              last = rt_hdr_bytes (mp s) + 4 * unat nxt - 1
          in (Inr (), s\<lparr>tp_log := tp_log s @ [(XFS_RTGI_BITMAP, b, first, last)]\<rparr>))"

section \<open>Scanning\<close>

text \<open>
  The step to the next word, repeated in every forward loop of the file: advance the word,
  and when the block is used up and more bits are needed read the next block.
\<close>

definition rt_next_word :: "bool \<Rightarrow> u64 \<Rightarrow> u32 \<Rightarrow> (u64 \<times> u32) rtm" where
  "rt_next_word need block word s =
     (let word = word + 1
      in if word = m_blockwsize (mp s) \<and> need
         then rt_bind (xfs_rtbitmap_read_buf (block + 1)) (\<lambda>_. rt_return (block + 1, 0)) s
         else (Inr (block, word), s))"

text \<open>
  The forward scan shared by \<^verbatim>\<open>xfs_rtfind_forw\<close> and \<^verbatim>\<open>xfs_rtcheck_range\<close>, which contain the
  same three parts: the first partial word, the loop over whole words and the last partial
  word. \<open>Differ i\<close> is the early exit at the first bit (relative to the start) that differs
  from \<open>want\<close>; \<open>Scanned i block word\<close> is the state in which the next part starts.
\<close>

datatype rt_scan = Differ u64 | Scanned u64 u64 u32

definition rt_scan_first :: "u32 \<Rightarrow> nat \<Rightarrow> u64 \<Rightarrow> u64 \<Rightarrow> u64 \<Rightarrow> u32 \<Rightarrow> rt_scan rtm" where
  "rt_scan_first want b lastbit len block word =
     (if b \<noteq> 0 then
        let mask = push_bit b (push_bit (unat lastbit - b) 1 - 1)
        in rt_bind (xfs_rtbitmap_getword word) (\<lambda>incore.
             let wdiff = (incore XOR want) AND mask
             in if wdiff \<noteq> 0 then rt_return (Differ (of_int (xfs_lowbit32 wdiff - int b)))
                else
                  let i = lastbit - of_nat b
                  in rt_bind (rt_next_word (i < len) block word) (\<lambda>(block, word).
                       rt_return (Scanned i block word)))
      else rt_return (Scanned 0 block word))"

function rt_scan_words :: "u32 \<Rightarrow> u64 \<Rightarrow> u64 \<Rightarrow> u64 \<Rightarrow> u32 \<Rightarrow> rt_scan rtm" where
  "rt_scan_words want len i block word s =
     (if len - i \<ge> 32 then
        (case xfs_rtbitmap_getword word s of
           (Inl e, s) \<Rightarrow> (Inl e, s)
         | (Inr incore, s) \<Rightarrow>
             let wdiff = incore XOR want
             in if wdiff \<noteq> 0 then (Inr (Differ (i + of_int (xfs_lowbit32 wdiff))), s)
                else (case rt_next_word (i + 32 < len) block word s of
                        (Inl e, s) \<Rightarrow> (Inl e, s)
                      | (Inr (block, word), s) \<Rightarrow> rt_scan_words want len (i + 32) block word s))
      else (Inr (Scanned i block word), s))"
  by pat_completeness auto

termination
  by (relation "measure (\<lambda>(want, len, i, block, word, s). unat (len - i))")
     (auto dest: minus_32_decreases)

definition rt_scan_last :: "u32 \<Rightarrow> u64 \<Rightarrow> u64 \<Rightarrow> u64 \<Rightarrow> u32 \<Rightarrow> rt_scan rtm" where
  "rt_scan_last want len i block word =
     (let lastbit = len - i
      in if lastbit \<noteq> 0 then
           let mask = push_bit (unat lastbit) 1 - 1
           in rt_bind (xfs_rtbitmap_getword word) (\<lambda>incore.
                let wdiff = (incore XOR want) AND mask
                in if wdiff \<noteq> 0 then rt_return (Differ (i + of_int (xfs_lowbit32 wdiff)))
                   else rt_return (Scanned len block word))
         else rt_return (Scanned i block word))"

definition rt_scan_bits :: "u32 \<Rightarrow> nat \<Rightarrow> u64 \<Rightarrow> u64 \<Rightarrow> u64 \<Rightarrow> u32 \<Rightarrow> rt_scan rtm" where
  "rt_scan_bits want b lastbit len block word =
     rt_bind (rt_scan_first want b lastbit len block word) (\<lambda>r.
       case r of Differ i \<Rightarrow> rt_return (Differ i)
       | Scanned i block word \<Rightarrow>
           rt_bind (rt_scan_words want len i block word) (\<lambda>r.
             case r of Differ i \<Rightarrow> rt_return (Differ i)
             | Scanned i block word \<Rightarrow> rt_scan_last want len i block word))"

text \<open>The assertion \<^verbatim>\<open>start <= limit\<close> of \<^verbatim>\<open>xfs_rtfind_forw\<close> is a hypothesis of the lemmas about it.\<close>

definition xfs_rtfind_forw :: "u64 \<Rightarrow> u64 \<Rightarrow> u64 rtm" where
  "xfs_rtfind_forw start limit s =
     (let block = xfs_rtx_to_rbmblock (mp s) start
      in rt_bind (xfs_rtbitmap_read_buf block) (\<lambda>_ s.
           let word = xfs_rtx_to_rbmword (mp s) start;
               b = unat (start AND 31);
               len = limit - start + 1
           in rt_bind (xfs_rtbitmap_getword word) (\<lambda>incore.
                let want = (if incore AND push_bit b 1 \<noteq> 0 then - 1 else 0);
                    lastbit = min (of_nat b + len) 32
                in rt_bind (rt_scan_bits want b lastbit len block word) (\<lambda>r.
                     case r of
                       Differ i \<Rightarrow> rt_return (start + i - 1)
                     | Scanned i _ _ \<Rightarrow> rt_return (start + i - 1))) s) s)"

text \<open>\<^verbatim>\<open>xfs_rtcheck_range\<close> returns the pair of its outputs \<open>*new\<close> and \<open>*stat\<close>.\<close>

definition xfs_rtcheck_range :: "u64 \<Rightarrow> u32 \<Rightarrow> int \<Rightarrow> (u64 \<times> int) rtm" where
  "xfs_rtcheck_range start len val s =
     (let block = xfs_rtx_to_rbmblock (mp s) start
      in rt_bind (xfs_rtbitmap_read_buf block) (\<lambda>_ s.
           let word = xfs_rtx_to_rbmword (mp s) start;
               b = unat (start AND 31);
               want = of_int (- val);
               lastbit = ucast (min (of_nat b + len) 32)
           in rt_bind (rt_scan_bits want b lastbit (ucast len) block word) (\<lambda>r.
                case r of
                  Differ i \<Rightarrow> rt_return (start + i, 0)
                | Scanned i _ _ \<Rightarrow> rt_return (start + i, 1)) s) s)"

text \<open>
  \<^verbatim>\<open>xfs_rtfind_back\<close>. The step to the previous word relies on the unsigned word index
  wrapping from 0 to all ones.
\<close>

definition rt_prev_word :: "bool \<Rightarrow> u64 \<Rightarrow> u32 \<Rightarrow> (u64 \<times> u32) rtm" where
  "rt_prev_word need block word s =
     (let word = word - 1
      in if word = - 1 \<and> need
         then rt_bind (xfs_rtbitmap_read_buf (block - 1))
                (\<lambda>_ s. (Inr (block - 1, m_blockwsize (mp s) - 1), s)) s
         else (Inr (block, word), s))"

definition rt_back_first :: "u32 \<Rightarrow> nat \<Rightarrow> u64 \<Rightarrow> u64 \<Rightarrow> u32 \<Rightarrow> rt_scan rtm" where
  "rt_back_first want b len block word =
     (if b < 32 - 1 then
        let firstbit = (if sint (of_nat b - len + 1 :: u64) > 0 then of_nat b - len + 1 else 0) :: u64;
            mask = push_bit (unat firstbit) (push_bit (unat (of_nat b - firstbit + 1)) 1 - 1)
        in rt_bind (xfs_rtbitmap_getword word) (\<lambda>incore.
             let wdiff = (incore XOR want) AND mask
             in if wdiff \<noteq> 0 then rt_return (Differ (of_int (int b - xfs_highbit32 wdiff)))
                else
                  let i = of_nat b - firstbit + 1
                  in rt_bind (rt_prev_word (i < len) block word) (\<lambda>(block, word).
                       rt_return (Scanned i block word)))
      else rt_return (Scanned 0 block word))"

function rt_back_words :: "u32 \<Rightarrow> u64 \<Rightarrow> u64 \<Rightarrow> u64 \<Rightarrow> u32 \<Rightarrow> rt_scan rtm" where
  "rt_back_words want len i block word s =
     (if len - i \<ge> 32 then
        (case xfs_rtbitmap_getword word s of
           (Inl e, s) \<Rightarrow> (Inl e, s)
         | (Inr incore, s) \<Rightarrow>
             let wdiff = incore XOR want
             in if wdiff \<noteq> 0 then (Inr (Differ (i + of_int (32 - 1 - xfs_highbit32 wdiff))), s)
                else (case rt_prev_word (i + 32 < len) block word s of
                        (Inl e, s) \<Rightarrow> (Inl e, s)
                      | (Inr (block, word), s) \<Rightarrow> rt_back_words want len (i + 32) block word s))
      else (Inr (Scanned i block word), s))"
  by pat_completeness auto

termination
  by (relation "measure (\<lambda>(want, len, i, block, word, s). unat (len - i))")
     (auto dest: minus_32_decreases)

definition rt_back_last :: "u32 \<Rightarrow> u64 \<Rightarrow> u64 \<Rightarrow> u64 \<Rightarrow> u32 \<Rightarrow> rt_scan rtm" where
  "rt_back_last want len i block word =
     (if len - i \<noteq> 0 then
        let firstbit = 32 - (len - i);
            mask = push_bit (unat firstbit) (push_bit (unat (len - i)) 1 - 1)
        in rt_bind (xfs_rtbitmap_getword word) (\<lambda>incore.
             let wdiff = (incore XOR want) AND mask
             in if wdiff \<noteq> 0 then rt_return (Differ (i + of_int (32 - 1 - xfs_highbit32 wdiff)))
                else rt_return (Scanned len block word))
      else rt_return (Scanned i block word))"

definition xfs_rtfind_back :: "u64 \<Rightarrow> u64 rtm" where
  "xfs_rtfind_back start s =
     (let block = xfs_rtx_to_rbmblock (mp s) start
      in rt_bind (xfs_rtbitmap_read_buf block) (\<lambda>_ s.
           let word = xfs_rtx_to_rbmword (mp s) start;
               b = unat (start AND 31);
               len = start + 1
           in rt_bind (xfs_rtbitmap_getword word) (\<lambda>incore.
                let want = (if incore AND push_bit b 1 \<noteq> 0 then - 1 else 0)
                in rt_bind (rt_back_first want b len block word) (\<lambda>r.
                     case r of
                       Differ i \<Rightarrow> rt_return (start - i + 1)
                     | Scanned i block word \<Rightarrow>
                         rt_bind (rt_back_words want len i block word) (\<lambda>r.
                           case r of
                             Differ i \<Rightarrow> rt_return (start - i + 1)
                           | Scanned i block word \<Rightarrow>
                               rt_bind (rt_back_last want len i block word) (\<lambda>r.
                                 case r of
                                   Differ i \<Rightarrow> rt_return (start - i + 1)
                                 | Scanned i _ _ \<Rightarrow> rt_return (start - i + 1))))) s) s)"

section \<open>Modifying the bitmap\<close>

definition rt_modify_next :: "bool \<Rightarrow> u64 \<Rightarrow> u32 \<Rightarrow> u32 \<Rightarrow> (u64 \<times> u32 \<times> u32) rtm" where
  "rt_modify_next need block word firstword s =
     (let word = word + 1
      in if word = m_blockwsize (mp s) \<and> need
         then rt_bind (xfs_trans_log_rtbitmap firstword word) (\<lambda>_.
                rt_bind (xfs_rtbitmap_read_buf (block + 1)) (\<lambda>_.
                  rt_return (block + 1, 0, 0))) s
         else (Inr (block, word, firstword), s))"

definition rt_modify_word :: "int \<Rightarrow> u32 \<Rightarrow> u32 \<Rightarrow> unit rtm" where
  "rt_modify_word val msk word =
     rt_bind (xfs_rtbitmap_getword word) (\<lambda>incore.
       xfs_rtbitmap_setword word (if val \<noteq> 0 then incore OR msk else incore AND NOT msk))"

function rt_modify_words :: "int \<Rightarrow> u32 \<Rightarrow> u32 \<Rightarrow> u64 \<Rightarrow> u32 \<Rightarrow> u32 \<Rightarrow> (u32 \<times> u64 \<times> u32 \<times> u32) rtm" where
  "rt_modify_words val len i block word firstword s =
     (if len - i \<ge> 32 then
        (case xfs_rtbitmap_setword word (of_int val) s of
           (Inl e, s) \<Rightarrow> (Inl e, s)
         | (Inr _, s) \<Rightarrow>
             (case rt_modify_next (i + 32 < len) block word firstword s of
                (Inl e, s) \<Rightarrow> (Inl e, s)
              | (Inr (block, word, firstword), s) \<Rightarrow>
                  rt_modify_words val len (i + 32) block word firstword s))
      else (Inr (i, block, word, firstword), s))"
  by pat_completeness auto

termination
  by (relation "measure (\<lambda>(val, len, i, block, word, firstword, s). unat (len - i))")
     (auto dest: minus_32_decreases)

definition xfs_rtmodify_range :: "u64 \<Rightarrow> u32 \<Rightarrow> int \<Rightarrow> unit rtm" where
  "xfs_rtmodify_range start len val s =
     (let block = xfs_rtx_to_rbmblock (mp s) start
      in rt_bind (xfs_rtbitmap_read_buf block) (\<lambda>_ s.
           let word = xfs_rtx_to_rbmword (mp s) start;
               firstword = word;
               b = unat (start AND 31);
               val = - val
           in rt_bind
                (if b \<noteq> 0 then
                   let lastbit = min (of_nat b + len) 32;
                       mask = push_bit b (push_bit (unat lastbit - b) 1 - 1)
                   in rt_bind (rt_modify_word val mask word) (\<lambda>_.
                        let i = lastbit - of_nat b
                        in rt_bind (rt_modify_next (i < len) block word firstword)
                             (\<lambda>(block, word, firstword). rt_return (i, block, word, firstword)))
                 else rt_return (0, block, word, firstword))
                (\<lambda>(i, block, word, firstword).
                   rt_bind (rt_modify_words val len i block word firstword)
                     (\<lambda>(i, block, word, firstword).
                        let lastbit = len - i
                        in rt_bind
                             (if lastbit \<noteq> 0 then
                                let mask = push_bit (unat lastbit) 1 - 1
                                in rt_bind (rt_modify_word val mask word) (\<lambda>_. rt_return (word + 1))
                              else rt_return word)
                             (\<lambda>word. if word > firstword
                                     then xfs_trans_log_rtbitmap firstword word
                                     else rt_return ()))) s) s)"

section \<open>The summary\<close>

definition rsum_cache_update :: "int \<Rightarrow> u64 \<Rightarrow> u32 \<Rightarrow> u8 list \<Rightarrow> u8 list option" where
  "rsum_cache_update log bbno val cache =
     (if unat bbno < length cache then
        let c1 = (if val = 0 \<and> log + 1 = int (unat (cache ! unat bbno))
                  then cache[unat bbno := of_int log] else cache)
        in Some (if val \<noteq> 0 \<and> log \<ge> int (unat (c1 ! unat bbno))
                 then c1[unat bbno := of_int (log + 1)] else c1)
      else None)"

definition xfs_rtmodify_summary :: "int \<Rightarrow> u64 \<Rightarrow> int \<Rightarrow> unit rtm" where
  "xfs_rtmodify_summary log bbno delta s =
     (let so = xfs_rtsumoffs (mp s) log bbno
      in rt_bind (xfs_rtsummary_read_buf (xfs_rtsumoffs_to_block (mp s) so)) (\<lambda>_ s.
           let infoword = xfs_rtsumoffs_to_infoword (mp s) so
           in rt_bind (xfs_suminfo_add infoword delta) (\<lambda>val.
                rt_bind (\<lambda>s.
                  case rtg_rsum_cache s of
                    None \<Rightarrow> (Inr (), s)
                  | Some cache \<Rightarrow>
                      (case rsum_cache_update log bbno val cache of
                         None \<Rightarrow> (Inl Fault, s)
                       | Some cache' \<Rightarrow> (Inr (), s\<lparr>rtg_rsum_cache := Some cache'\<rparr>)))
                  (\<lambda>_. xfs_trans_log_rtsummary infoword)) s) s)"

definition xfs_rtget_summary :: "int \<Rightarrow> u64 \<Rightarrow> u32 rtm" where
  "xfs_rtget_summary log bbno s =
     (let so = xfs_rtsumoffs (mp s) log bbno
      in rt_bind (xfs_rtsummary_read_buf (xfs_rtsumoffs_to_block (mp s) so)) (\<lambda>_ s.
           xfs_suminfo_get (xfs_rtsumoffs_to_infoword (mp s) so) s) s)"

section \<open>Freeing\<close>

definition xfs_rtfree_range :: "u64 \<Rightarrow> u32 \<Rightarrow> unit rtm" where
  "xfs_rtfree_range start len s =
     (let end = start + ucast len - 1
      in rt_bind (xfs_rtmodify_range start len 1) (\<lambda>_.
           rt_bind (xfs_rtfind_back start) (\<lambda>preblock s.
             rt_bind (xfs_rtfind_forw end (rtg_extents s - 1)) (\<lambda>postblock.
               rt_bind (if preblock < start
                        then (\<lambda>s. xfs_rtmodify_summary (xfs_highbit64 (start - preblock))
                                (xfs_rtx_to_rbmblock (mp s) preblock) (- 1) s)
                        else rt_return ()) (\<lambda>_.
                 rt_bind (if postblock > end
                          then (\<lambda>s. xfs_rtmodify_summary (xfs_highbit64 (postblock - end))
                                  (xfs_rtx_to_rbmblock (mp s) (end + 1)) (- 1) s)
                          else rt_return ()) (\<lambda>_ s.
                   xfs_rtmodify_summary (xfs_highbit64 (postblock + 1 - preblock))
                     (xfs_rtx_to_rbmblock (mp s) preblock) 1 s))) s)) s)"

text \<open>
  \<^verbatim>\<open>xfs_rtfree_extent\<close>, as built without \<^verbatim>\<open>DEBUG\<close>: the check that the range is allocated and
  the error injection are compiled out.
\<close>

definition xfs_rtfree_extent :: "u64 \<Rightarrow> u32 \<Rightarrow> unit rtm" where
  "xfs_rtfree_extent start len s =
     (case xfs_rtfree_range start len (s\<lparr>rbmbp := None, sumbp := None, rbmoff := 0, sumoff := 0\<rparr>) of
        (Inl e, s) \<Rightarrow> (Inl e, xfs_rtbuf_cache_relse s)
      | (Inr _, s) \<Rightarrow>
          let s = s\<lparr>t_frextents_delta := t_frextents_delta s + ucast len\<rparr>;
              s = (if \<not> m_has_rtgroups (mp s) \<and>
                      t_frextents_delta s + sb_frextents (mp s) = sb_rextents (mp s)
                   then s\<lparr>rbm_newrtbm := True, rbm_atime_sec := 0\<rparr> else s)
          in (Inr (), xfs_rtbuf_cache_relse s))"

text \<open>
  \<^verbatim>\<open>xfs_extent_busy_insert\<close>, which the code calls at the end for a file system with realtime groups, is an
  empty macro of \<^verbatim>\<open>libxfs_priv.h\<close>; the assertions are not part of the library as it is built.
\<close>

definition xfs_rtfree_blocks :: "u64 \<Rightarrow> u64 \<Rightarrow> unit rtm" where
  "xfs_rtfree_blocks rtbno rtlen s =
     (if xfs_blen_to_rtxoff (mp s) rtlen \<noteq> 0 then (Inl (Errno EIO), s)
      else if xfs_rtb_to_rtxoff (mp s) rtbno \<noteq> 0 then (Inl (Errno EIO), s)
      else xfs_rtfree_extent (xfs_rtb_to_rtx (mp s) rtbno)
             (xfs_extlen_to_rtxlen (mp s) (ucast rtlen)) s)"

section \<open>Queries\<close>

record xfs_rtalloc_rec =
  ar_startext :: u64
  ar_extcount :: u64

text \<open>
  \<^verbatim>\<open>xfs_rtalloc_query_range\<close>. The callback takes a record and its private data and returns an
  error or nothing with the new private data. The loop runs on fuel; \<open>None\<close> is out of fuel.
\<close>

type_synonym 'p query_fn = "xfs_rtalloc_rec \<Rightarrow> 'p \<Rightarrow> errno option \<times> 'p"

fun rt_query_loop :: "nat \<Rightarrow> 'p query_fn \<Rightarrow> u64 \<Rightarrow> u64 \<Rightarrow> 'p \<Rightarrow> xfs_rtalloc_args \<Rightarrow>
    ((rt_err option \<times> 'p) \<times> xfs_rtalloc_args) option" where
  "rt_query_loop 0 fn start end priv s = (if start \<le> end then None else Some ((None, priv), s))"
| "rt_query_loop (Suc fuel) fn start end priv s =
     (if start \<le> end then
        (case xfs_rtcheck_range start 1 1 s of
           (Inl e, s) \<Rightarrow> Some ((Some e, priv), s)
         | (Inr (_, is_free), s) \<Rightarrow>
             (case xfs_rtfind_forw start end s of
                (Inl e, s) \<Rightarrow> Some ((Some e, priv), s)
              | (Inr rtend, s) \<Rightarrow>
                  if is_free \<noteq> 0 then
                    (case fn \<lparr>ar_startext = start, ar_extcount = rtend - start + 1\<rparr> priv of
                       (Some e, priv) \<Rightarrow> Some ((Some (Errno e), priv), s)
                     | (None, priv) \<Rightarrow> rt_query_loop fuel fn (rtend + 1) end priv s)
                  else rt_query_loop fuel fn (rtend + 1) end priv s))
      else Some ((None, priv), s))"

definition xfs_rtalloc_query_range :: "'p query_fn \<Rightarrow> u64 \<Rightarrow> u64 \<Rightarrow> 'p \<Rightarrow> xfs_rtalloc_args \<Rightarrow>
    ((rt_err option \<times> 'p) \<times> xfs_rtalloc_args) option" where
  "xfs_rtalloc_query_range fn start end priv s =
     (if start > end then Some ((Some (Errno EINVAL), priv), s)
      else if start = end \<or> start \<ge> rtg_extents s then Some ((None, priv), s)
      else
        let end = min end (rtg_extents s - 1)
        in if m_has_zoned (mp s) then Some ((Some (Errno EINVAL), priv), s)
           else (case rt_query_loop (unat (end - start) + 1) fn start end priv
                        (s\<lparr>rbmbp := None, sumbp := None, rbmoff := 0, sumoff := 0\<rparr>) of
                   None \<Rightarrow> None
                 | Some (r, s) \<Rightarrow> Some (r, xfs_rtbuf_cache_relse s)))"

definition xfs_rtalloc_query_all :: "'p query_fn \<Rightarrow> 'p \<Rightarrow> xfs_rtalloc_args \<Rightarrow>
    ((rt_err option \<times> 'p) \<times> xfs_rtalloc_args) option" where
  "xfs_rtalloc_query_all fn priv s = xfs_rtalloc_query_range fn 0 (rtg_extents s - 1) priv s"

definition xfs_rtalloc_extent_is_free :: "u64 \<Rightarrow> u32 \<Rightarrow> bool rtm" where
  "xfs_rtalloc_extent_is_free start len s =
     (case xfs_rtcheck_range start len 1 (s\<lparr>rbmbp := None, sumbp := None, rbmoff := 0, sumoff := 0\<rparr>) of
        (Inl e, s) \<Rightarrow> (Inl e, xfs_rtbuf_cache_relse s)
      | (Inr (_, matches), s) \<Rightarrow> (Inr (matches \<noteq> 0), xfs_rtbuf_cache_relse s))"

section \<open>File sizes\<close>

definition xfs_rtbitmap_rtx_per_rbmblock :: "rt_mount \<Rightarrow> u64" where
  "xfs_rtbitmap_rtx_per_rbmblock m =
     (let rbmblock_bytes = sb_blocksize m;
          rbmblock_bytes = (if m_has_rtgroups m then rbmblock_bytes - 48 else rbmblock_bytes)
      in ucast (rbmblock_bytes * 8))"

definition xfs_rtbitmap_blockcount_len :: "rt_mount \<Rightarrow> u64 \<Rightarrow> u64" where
  "xfs_rtbitmap_blockcount_len m rtextents =
     (if m_has_zoned m then 0
      else howmany_64 rtextents (ucast (xfs_rtbitmap_rtx_per_rbmblock m)))"

definition xfs_rtbitmap_bitcount :: "rt_mount \<Rightarrow> u64" where
  "xfs_rtbitmap_bitcount m =
     (if sb_rextents m = 0 then 0
      else if m_has_rtgroups m then ucast (sb_rgextents m)
      else sb_rextents m)"

definition xfs_rtbitmap_blockcount :: "rt_mount \<Rightarrow> u64" where
  "xfs_rtbitmap_blockcount m = xfs_rtbitmap_blockcount_len m (xfs_rtbitmap_bitcount m)"

definition xfs_compute_rextslog :: "u64 \<Rightarrow> u8" where
  "xfs_compute_rextslog rtextents = (if rtextents = 0 then 0 else of_int (xfs_highbit64 rtextents))"

definition xfs_rtsummary_blockcount :: "rt_mount \<Rightarrow> u64 \<times> u32" where
  "xfs_rtsummary_blockcount m =
     (let rextents = xfs_rtbitmap_bitcount m
      in if m_has_zoned m then (0, 0)
         else
           let rsumlevels = ucast (xfs_compute_rextslog rextents) + 1 :: u32;
               rsumwords = xfs_rtbitmap_blockcount_len m rextents * ucast rsumlevels
           in (howmany_64 rsumwords (m_blockwsize m), rsumlevels))"

end
