(* ===== verification/Rt_Scan.thy ===== *)
theory Rt_Scan
  imports Rt_Model
begin

text \<open>
  Correctness of the bitmap scans. The words of all bitmap blocks form one sequence of bits,
  \<open>rt_free s x\<close> for realtime extent \<open>x\<close>; \<^verbatim>\<open>xfs_rtfind_forw\<close>, \<^verbatim>\<open>xfs_rtfind_back\<close> and
  \<^verbatim>\<open>xfs_rtcheck_range\<close> are proved to compute run boundaries of that sequence, whatever the
  alignment of the range and however many blocks it spans.
\<close>

section \<open>Well-formed states and the bit sequence\<close>

definition rt_wsize :: "rt_mount \<Rightarrow> nat" where
  "rt_wsize m = unat (m_blockwsize m)"

definition rt_nblocks :: "rt_mount \<Rightarrow> nat" where
  "rt_nblocks m = unat (sb_rbmblocks m)"

text \<open>
  The geometry that mounting computes: at most 16384 words per block (64k blocks), the
  number of extents per block, and without realtime groups a power of two.
\<close>

definition rt_geom_ok :: "rt_mount \<Rightarrow> bool" where
  "rt_geom_ok m \<longleftrightarrow>
     0 < rt_wsize m \<and> rt_wsize m \<le> 16384 \<and>
     (if m_has_rtgroups m then unat (m_rtx_per_rbmblock m) = 32 * rt_wsize m
      else 5 \<le> m_blkbit_log m \<and> m_blkbit_log m \<le> 19 \<and> rt_wsize m = 2 ^ (m_blkbit_log m - 5))"

definition rtblock_ok :: "rt_mount \<Rightarrow> u64 \<Rightarrow> rtfile_block \<Rightarrow> bool" where
  "rtblock_ok m ino b \<longleftrightarrow>
     (case b of Rt_buf blk \<Rightarrow>
        length (rt_words blk) = rt_wsize m \<and> (m_has_rtgroups m \<longrightarrow> rt_owner blk = cpu_to_be64 ino)
      | _ \<Rightarrow> False)"

definition rt_wf :: "xfs_rtalloc_args \<Rightarrow> bool" where
  "rt_wf s \<longleftrightarrow>
     rt_geom_ok (mp s) \<and> rt_nblocks (mp s) \<le> length (rbm_file s) \<and>
     list_all (rtblock_ok (mp s) (rbm_ino s)) (take (rt_nblocks (mp s)) (rbm_file s)) \<and>
     (rbmbp s = None \<or> rbmbp s = Some (rbmoff s))"

definition block_words :: "rtfile_block \<Rightarrow> u32 list" where
  "block_words b = (case b of Rt_buf blk \<Rightarrow> rt_words blk | _ \<Rightarrow> [])"

definition rt_cpu_word :: "rt_mount \<Rightarrow> u32 \<Rightarrow> u32" where
  "rt_cpu_word m raw = (if m_has_rtgroups m then be32_to_cpu raw else raw)"

definition rt_word :: "xfs_rtalloc_args \<Rightarrow> nat \<Rightarrow> u32" where
  "rt_word s w =
     rt_cpu_word (mp s) (block_words (rbm_file s ! (w div rt_wsize (mp s))) ! (w mod rt_wsize (mp s)))"

definition rt_free :: "xfs_rtalloc_args \<Rightarrow> nat \<Rightarrow> bool" where
  "rt_free s x \<longleftrightarrow> bit (rt_word s (x div 32)) (x mod 32)"

definition rt_nwords :: "rt_mount \<Rightarrow> nat" where
  "rt_nwords m = rt_wsize m * rt_nblocks m"

definition rt_at :: "xfs_rtalloc_args \<Rightarrow> u64 \<Rightarrow> xfs_rtalloc_args" where
  "rt_at s b = s\<lparr>rbmbp := Some b, rbmoff := b\<rparr>"

lemma rt_at_simps [simp]:
  "mp (rt_at s b) = mp s" "rt_at (rt_at s a) b = rt_at s b" "rbm_file (rt_at s b) = rbm_file s"
  "rbm_ino (rt_at s b) = rbm_ino s" "rbmbp (rt_at s b) = Some b" "rbmoff (rt_at s b) = b"
  "rt_word (rt_at s b) = rt_word s" "rt_free (rt_at s b) = rt_free s" "rtg_extents (rt_at s b) = rtg_extents s"
  "rt_wf s \<Longrightarrow> rt_wf (rt_at s b)"
  by (auto simp: rt_at_def rt_word_def rt_free_def rt_wf_def fun_eq_iff)

lemma rt_wf_block:
  assumes "rt_wf s" and "i < rt_nblocks (mp s)"
  obtains blk where "rbm_file s ! i = Rt_buf blk" and "length (rt_words blk) = rt_wsize (mp s)"
    and "m_has_rtgroups (mp s) \<Longrightarrow> rt_owner blk = cpu_to_be64 (rbm_ino s)" and "i < length (rbm_file s)"
proof -
  from assms have i: "i < length (rbm_file s)" by (simp add: rt_wf_def)
  with assms have "rtblock_ok (mp s) (rbm_ino s) (rbm_file s ! i)"
    by (auto simp: rt_wf_def list_all_length)
  then show ?thesis using i that by (auto simp: rtblock_ok_def split: rtfile_block.splits)
qed

lemma rt_wsize_pos: "rt_wf s \<Longrightarrow> 0 < rt_wsize (mp s)"
  by (simp add: rt_wf_def rt_geom_ok_def)

lemma rt_nwords_bound: "rt_wf s \<Longrightarrow> 32 * rt_nwords (mp s) < 2 ^ 52"
proof -
  assume "rt_wf s"
  then have "rt_wsize (mp s) \<le> 16384" by (simp add: rt_wf_def rt_geom_ok_def)
  moreover have "rt_nblocks (mp s) < 2 ^ 32" by (simp add: rt_nblocks_def u32_unat_bound)
  ultimately have "rt_nwords (mp s) \<le> 16384 * 2 ^ 32"
    unfolding rt_nwords_def by (intro mult_le_mono) simp_all
  then show ?thesis by simp
qed

section \<open>Buffer access\<close>

lemma read_buf_at:
  assumes "rt_wf s" and "unat b < rt_nblocks (mp s)"
  shows "xfs_rtbitmap_read_buf b s = (Inr (), rt_at s b)"
proof -
  from assms obtain blk where "rbm_file s ! unat b = Rt_buf blk"
    "m_has_rtgroups (mp s) \<Longrightarrow> rt_owner blk = cpu_to_be64 (rbm_ino s)" "unat b < length (rbm_file s)"
    by (metis rt_wf_block)
  moreover have "\<not> ucast (sb_rbmblocks (mp s)) \<le> b"
    using assms(2) by (simp add: word_le_nat_alt rt_nblocks_def)
  moreover have "rbmbp s = None \<or> rbmbp s = Some (rbmoff s)" using assms(1) by (simp add: rt_wf_def)
  ultimately show ?thesis
    by (auto simp: xfs_rtbitmap_read_buf_def xfs_rtbuf_get_def rtbuf_fetch_def rtfile_lookup_def rt_at_def)
qed

text \<open>\<open>rt_loc s b w j\<close>: word \<open>w\<close> of block \<open>b\<close> is word \<open>j\<close> of the bitmap.\<close>

definition rt_loc :: "rt_mount \<Rightarrow> u64 \<Rightarrow> u32 \<Rightarrow> nat \<Rightarrow> bool" where
  "rt_loc m b w j \<longleftrightarrow> unat b < rt_nblocks m \<and> unat w < rt_wsize m \<and> unat b * rt_wsize m + unat w = j"

lemma rt_loc_div: "rt_loc m b w j \<Longrightarrow> j div rt_wsize m = unat b \<and> j mod rt_wsize m = unat w"
  by (auto simp: rt_loc_def)

lemma rt_loc_lt: "rt_loc m b w j \<Longrightarrow> j < rt_nwords m"
  unfolding rt_loc_def rt_nwords_def
  by (metis (no_types, lifting) add_less_cancel_left mult.commute mult_Suc_right mult_le_mono2 Suc_leI
      add.commute order.strict_trans2)

lemma getword_at:
  assumes "rt_wf s" and "rt_loc (mp s) b w j"
  shows "xfs_rtbitmap_getword w (rt_at s b) = (Inr (rt_word s j), rt_at s b)"
proof -
  from assms obtain blk where "rbm_file s ! unat b = Rt_buf blk" "length (rt_words blk) = rt_wsize (mp s)"
    "unat b < length (rbm_file s)" by (metis rt_wf_block rt_loc_def)
  with assms(2) rt_loc_div [OF assms(2)] show ?thesis
    by (auto simp: xfs_rtbitmap_getword_def held_words_def rtfile_lookup_def rt_word_def rt_cpu_word_def
        block_words_def rt_loc_def)
qed

lemma next_word_at:
  assumes wf: "rt_wf s" and loc: "rt_loc (mp s) b w j" and need: "need \<Longrightarrow> Suc j < rt_nwords (mp s)"
  shows "\<exists>b' w'. rt_next_word need b w (rt_at s b) = (Inr (b', w'), rt_at s b') \<and>
     (need \<longrightarrow> rt_loc (mp s) b' w' (Suc j))"
proof (cases "w + 1 = m_blockwsize (mp s) \<and> need")
  case True
  have w1: "unat (w + 1) = unat w + 1"
    using loc rt_wf_def wf
    by (subst unat_add_small) (auto simp: rt_loc_def rt_geom_ok_def)
  with True have w: "unat w + 1 = rt_wsize (mp s)" by (simp add: rt_wsize_def)
  from need True have "Suc j < rt_wsize (mp s) * rt_nblocks (mp s)" by (simp add: rt_nwords_def)
  moreover have "Suc j = Suc (unat b) * rt_wsize (mp s)" using loc w by (auto simp: rt_loc_def)
  ultimately have b: "Suc (unat b) < rt_nblocks (mp s)" by (metis mult.commute mult_less_cancel2)
  then have "unat (b + 1) = unat b + 1"
    using u32_unat_bound [of "sb_rbmblocks (mp s)"]
    by (subst unat_add_small) (auto simp: rt_nblocks_def)
  with b \<open>Suc j = _\<close> wf rt_wsize_pos [OF wf] True show ?thesis
    by (auto simp: rt_next_word_def rt_bind_def rt_return_def read_buf_at rt_loc_def)
next
  case False
  have "need \<longrightarrow> rt_loc (mp s) b (w + 1) (Suc j)"
  proof
    assume need
    with False have ne: "w + 1 \<noteq> m_blockwsize (mp s)" by simp
    have w1: "unat (w + 1) = unat w + 1"
      using loc rt_wf_def wf by (subst unat_add_small) (auto simp: rt_loc_def rt_geom_ok_def)
    with ne loc have "unat w + 1 < rt_wsize (mp s)"
      by (simp add: rt_loc_def rt_wsize_def u32_eq_iff_unat)
    with loc w1 show "rt_loc (mp s) b (w + 1) (Suc j)" by (auto simp: rt_loc_def)
  qed
  with False show ?thesis by (auto simp: rt_next_word_def)
qed

section \<open>Geometry\<close>

lemma unat_drop_bit: "unat (drop_bit k w :: 'a::len word) = unat w div 2 ^ k"
  by (subst unat_drop_bit_eq) (simp only: drop_bit_eq_div)

lemma blkbit_words:
  assumes "rt_geom_ok m" and "\<not> m_has_rtgroups m"
  shows "2 ^ m_blkbit_log m = 32 * rt_wsize m"
proof -
  from assms obtain k where "m_blkbit_log m = 5 + k" "rt_wsize m = 2 ^ k"
    by (auto simp: rt_geom_ok_def le_iff_add)
  then show ?thesis by (simp add: power_add)
qed

lemma rtx_to_rbmblock_div:
  assumes "rt_geom_ok m"
  shows "unat (xfs_rtx_to_rbmblock m x) = unat x div 32 div rt_wsize m"
proof (cases "m_has_rtgroups m")
  case True
  with assms show ?thesis
    by (simp add: xfs_rtx_to_rbmblock_def rt_geom_ok_def unat_div div_mult2_eq)
next
  case False
  with blkbit_words [OF assms False] show ?thesis
    by (simp only: xfs_rtx_to_rbmblock_def unat_drop_bit div_mult2_eq if_False)
qed

lemma rtx_to_rbmword_mod:
  assumes "rt_geom_ok m"
  shows "unat (xfs_rtx_to_rbmword m x) = unat x div 32 mod rt_wsize m"
proof -
  have w: "0 < rt_wsize m" "rt_wsize m \<le> 16384" using assms by (auto simp: rt_geom_ok_def)
  have "unat x div 32 mod rt_wsize m < rt_wsize m" using w by simp
  with w have small: "unat x div 32 mod rt_wsize m < 2 ^ 32" by simp
  have five: "unat (drop_bit 5 x) = unat x div 32" by (simp only: unat_drop_bit) simp
  show ?thesis
  proof (cases "m_has_rtgroups m")
    case True
    with small show ?thesis
      by (simp only: xfs_rtx_to_rbmword_def if_True unat_ucast_64_32 unat_mod five unat_ucast_32_64
          rt_wsize_def [symmetric]) simp
  next
    case False
    with assms obtain k where k: "rt_wsize m = 2 ^ k" "k \<le> 14"
      by (auto simp: rt_geom_ok_def)
    have "of_nat (rt_wsize m) = m_blockwsize m" by (simp add: rt_wsize_def)
    with k(1) have "m_blockwsize m = 2 ^ k" by simp
    then have "ucast (m_blockwsize m - 1) = (mask k :: u64)"
      using k(2) by (intro bit_word_eqI) (auto simp: exp_minus_1_mask bit_simps)
    then have "drop_bit 5 x AND ucast (m_blockwsize m - 1) = take_bit k (drop_bit 5 x)"
      by (simp only: take_bit_eq_mask)
    moreover have "unat (take_bit k (drop_bit 5 x)) = unat x div 32 mod rt_wsize m"
      by (simp only: unsigned_take_bit_eq five k take_bit_eq_mod [where 'a = nat])
    ultimately show ?thesis using False small
      by (simp only: xfs_rtx_to_rbmword_def if_False unat_ucast_64_32) simp
  qed
qed

lemma rt_start_loc:
  assumes "rt_wf s" and "unat x < 32 * rt_nwords (mp s)"
  shows "rt_loc (mp s) (xfs_rtx_to_rbmblock (mp s) x) (xfs_rtx_to_rbmword (mp s) x) (unat x div 32)"
proof -
  have g: "rt_geom_ok (mp s)" using assms(1) by (simp add: rt_wf_def)
  have "unat x div 32 < rt_wsize (mp s) * rt_nblocks (mp s)"
    using assms(2) by (simp add: rt_nwords_def less_mult_imp_div_less mult.commute)
  then have "unat x div 32 div rt_wsize (mp s) < rt_nblocks (mp s)"
    by (simp add: less_mult_imp_div_less mult.commute)
  then show ?thesis
    using rt_wsize_pos [OF assms(1)] by (simp add: rt_loc_def rtx_to_rbmblock_div [OF g] rtx_to_rbmword_mod [OF g])
qed

section \<open>The forward scan\<close>

text \<open>The wanted value as a word, and the difference of a word from it.\<close>

definition want_word :: "bool \<Rightarrow> u32" where
  "want_word v = (if v then - 1 else 0)"

lemma bit_xor_want: "bit (x XOR want_word v) k \<longleftrightarrow> k < 32 \<and> bit x k \<noteq> v"
  by (auto simp: want_word_def bit_simps dest: u32_bit_lt)

lemma rt_free_word: "k < 32 \<Longrightarrow> rt_free s (32 * j + k) \<longleftrightarrow> bit (rt_word s j) k"
  by (simp add: rt_free_def)

text \<open>All extents in \<open>[lo, hi)\<close> have value \<open>v\<close>.\<close>

definition rt_same :: "xfs_rtalloc_args \<Rightarrow> bool \<Rightarrow> nat \<Rightarrow> nat \<Rightarrow> bool" where
  "rt_same s v lo hi \<longleftrightarrow> (\<forall>x. lo \<le> x \<and> x < hi \<longrightarrow> rt_free s x = v)"

lemma rt_same_empty [simp]: "rt_same s v lo lo"
  by (auto simp: rt_same_def)

lemma rt_same_join: "rt_same s v a b \<Longrightarrow> rt_same s v b c \<Longrightarrow> rt_same s v a c"
  unfolding rt_same_def by (meson not_le)

lemma rt_same_mono: "rt_same s v a b \<Longrightarrow> a \<le> c \<Longrightarrow> d \<le> b \<Longrightarrow> rt_same s v c d"
  by (auto simp: rt_same_def)

text \<open>
  Comparing a word with the wanted value under a mask: either no bit of the masked range
  differs, or the lowest set bit of the difference is the first one that does.
\<close>

lemma masked_diff_zero:
  assumes "(rt_word s j XOR want_word v) AND msk = 0"
    and "\<And>k. bit msk k \<longleftrightarrow> lo \<le> k \<and> k < hi \<and> k < 32" and "hi \<le> 32"
  shows "rt_same s v (32 * j + lo) (32 * j + hi)"
  unfolding rt_same_def
proof (intro allI impI)
  fix x assume x: "32 * j + lo \<le> x \<and> x < 32 * j + hi"
  then obtain k where k: "x = 32 * j + k" "lo \<le> k" "k < hi" by (metis add_le_cancel_left add_less_cancel_left le_iff_add order_trans le_add1)
  with assms(3) have "k < 32" by simp
  have "\<not> bit ((rt_word s j XOR want_word v) AND msk) k" using assms(1) by simp
  with assms(2) k \<open>k < 32\<close> show "rt_free s x = v"
    by (auto simp: bit_and_iff bit_xor_want rt_free_word)
qed

lemma masked_diff_low:
  assumes "(rt_word s j XOR want_word v) AND msk \<noteq> 0"
    and "\<And>k. bit msk k \<longleftrightarrow> lo \<le> k \<and> k < hi \<and> k < 32" and "hi \<le> 32"
  shows "\<exists>k. xfs_lowbit32 ((rt_word s j XOR want_word v) AND msk) = int k \<and> lo \<le> k \<and> k < hi \<and>
     rt_free s (32 * j + k) \<noteq> v \<and> rt_same s v (32 * j + lo) (32 * j + k)"
proof -
  from xfs_lowbit32_spec [OF assms(1)] obtain k where
    k: "k < 32" "xfs_lowbit32 ((rt_word s j XOR want_word v) AND msk) = int k"
      "bit ((rt_word s j XOR want_word v) AND msk) k"
      "\<forall>m < k. \<not> bit ((rt_word s j XOR want_word v) AND msk) m" by blast
  from k(3) assms(2) have lohi: "lo \<le> k" "k < hi" and "rt_free s (32 * j + k) \<noteq> v"
    by (auto simp: bit_and_iff bit_xor_want rt_free_word)
  moreover have "rt_same s v (32 * j + lo) (32 * j + k)"
    unfolding rt_same_def
  proof (intro allI impI)
    fix x assume x: "32 * j + lo \<le> x \<and> x < 32 * j + k"
    then obtain m where m: "x = 32 * j + m" "lo \<le> m" "m < k"
      by (metis add_le_cancel_left add_less_cancel_left le_iff_add order_trans le_add1)
    with k(1,4) lohi assms(2) show "rt_free s x = v"
      by (auto simp: bit_and_iff bit_xor_want rt_free_word)
  qed
  ultimately show ?thesis using k(2) by blast
qed

text \<open>
  What a scan that has reached offset \<open>i\<close> of a range of \<open>len\<close> extents at \<open>A\<close> returns:
  an offset where the value differs, all before it equal; or a later offset, word aligned
  unless it is the end, with the block of the next word held.
\<close>

definition differs_at :: "xfs_rtalloc_args \<Rightarrow> bool \<Rightarrow> nat \<Rightarrow> nat \<Rightarrow> nat \<Rightarrow> u64 \<Rightarrow> bool" where
  "differs_at s v A i len d \<longleftrightarrow>
     i \<le> unat d \<and> unat d < len \<and> rt_free s (A + unat d) \<noteq> v \<and> rt_same s v (A + i) (A + unat d)"

definition scan_pos :: "xfs_rtalloc_args \<Rightarrow> nat \<Rightarrow> nat \<Rightarrow> nat \<Rightarrow> u64 \<Rightarrow> u32 \<Rightarrow> bool" where
  "scan_pos s A len i b w \<longleftrightarrow>
     i \<le> len \<and> (i < len \<longrightarrow> 32 dvd A + i \<and> rt_loc (mp s) b w ((A + i) div 32))"

lemma unat_add_of_nat: "unat (i :: u64) + k < 2 ^ 64 \<Longrightarrow> unat (i + of_nat k) = unat i + k"
  by (subst unat_add_small) (simp_all add: unat_of_nat)

definition scan_result :: "xfs_rtalloc_args \<Rightarrow> bool \<Rightarrow> nat \<Rightarrow> nat \<Rightarrow> nat \<Rightarrow> (u64 \<Rightarrow> bool) \<Rightarrow>
    (rt_err + rt_scan) \<times> xfs_rtalloc_args \<Rightarrow> bool" where
  "scan_result s v A i len P r \<longleftrightarrow>
     (\<exists>d b'. r = (Inr (Differ d), rt_at s b') \<and> differs_at s v A i len d) \<or>
     (\<exists>i' b' w'. r = (Inr (Scanned i' b' w'), rt_at s b') \<and> i \<le> unat i' \<and> P i' \<and>
        scan_pos s A len (unat i') b' w' \<and> rt_same s v (A + i) (A + unat i'))"

lemma scan_result_cases [consumes 1, case_names diff more]:
  assumes "scan_result s v A i len P r"
  obtains d b' where "r = (Inr (Differ d), rt_at s b')" "differs_at s v A i len d"
    | i' b' w' where "r = (Inr (Scanned i' b' w'), rt_at s b')" "i \<le> unat i'" "P i'"
        "scan_pos s A len (unat i') b' w'" "rt_same s v (A + i) (A + unat i')"
  using assms by (auto simp: scan_result_def)

lemma scan_result_step:
  assumes "scan_result s v A i' len P r" and "rt_same s v (A + i) (A + i')" and "i \<le> i'"
  shows "scan_result s v A i len P r"
  using assms by (force simp: scan_result_def differs_at_def intro: rt_same_join)

lemma rt_scan_words_ok:
  assumes wf: "rt_wf s" and len: "A + unat len \<le> 32 * rt_nwords (mp s)"
    and "scan_pos s A (unat len) (unat i) b w"
  shows "scan_result s v A (unat i) (unat len) (\<lambda>i'. unat len < unat i' + 32)
           (rt_scan_words (want_word v) len i b w (rt_at s b))"
  using assms(3)
proof (induction "unat (len - i)" arbitrary: i b w rule: less_induct)
  case less
  let ?r = "rt_scan_words (want_word v) len i b w (rt_at s b)"
  have pos: "unat i \<le> unat len" using less.prems by (simp add: scan_pos_def)
  then have sub: "unat (len - i) = unat len - unat i" by (simp add: unat_sub_le word_le_nat_alt)
  show ?case
  proof (cases "32 \<le> len - i")
    case False
    then have "?r = (Inr (Scanned i b w), rt_at s b)" by simp
    with False pos sub less.prems show ?thesis by (auto simp: scan_result_def word_le_nat_alt)
  next
    case True
    then have i32: "unat i + 32 \<le> unat len" using pos sub by (simp add: word_le_nat_alt)
    define j where "j = (A + unat i) div 32"
    have j: "A + unat i = 32 * j" "rt_loc (mp s) b w j"
      using less.prems i32 by (auto simp: scan_pos_def j_def)
    note get = getword_at [OF wf j(2)]
    show ?thesis
    proof (cases "rt_word s j XOR want_word v = 0")
      case False
      with masked_diff_low [of s j v "- 1" 0 32] obtain k where
        k: "xfs_lowbit32 (rt_word s j XOR want_word v) = int k" "k < 32"
          "rt_free s (32 * j + k) \<noteq> v" "rt_same s v (32 * j) (32 * j + k)"
        by auto
      then have "?r = (Inr (Differ (i + of_nat k)), rt_at s b)"
        using True False get by simp
      moreover have "unat (i + of_nat k) = unat i + k"
        using i32 k(2) by (intro unat_add_of_nat) (use u64_unat_bound [of len] in simp)
      then have "differs_at s v A (unat i) (unat len) (i + of_nat k)"
        using k i32 j(1) by (simp add: differs_at_def add.assoc [symmetric])
      ultimately show ?thesis by (auto simp: scan_result_def)
    next
      case same: True
      have i': "unat (i + 32) = unat i + 32"
        using i32 u64_unat_bound [of len] by (subst unat_add_small) simp_all
      have need: "i + 32 < len \<Longrightarrow> Suc j < rt_nwords (mp s)"
        using len j(1) i' by (simp add: word_less_nat_alt)
      from next_word_at [OF wf j(2) need] obtain b' w' where
        n: "rt_next_word (i + 32 < len) b w (rt_at s b) = (Inr (b', w'), rt_at s b')"
          "i + 32 < len \<longrightarrow> rt_loc (mp s) b' w' (Suc j)" by blast
      have "?r = rt_scan_words (want_word v) len (i + 32) b' w' (rt_at s b')"
        using True same get n(1) by simp
      moreover have "rt_same s v (A + unat i) (A + unat (i + 32))"
        using masked_diff_zero [of s j v "- 1" 0 32] same j(1) i' by (simp add: add.assoc [symmetric])
      moreover have "scan_pos s A (unat len) (unat (i + 32)) b' w'"
        using n(2) j(1) i' i32 by (auto simp: scan_pos_def word_less_nat_alt add.assoc [symmetric])
      ultimately show ?thesis
        using less.hyps [OF minus_32_decreases(1) [OF True]] i' by (metis le_add1 scan_result_step)
    qed
  qed
qed

lemma rt_scan_first_eq:
  assumes "b \<noteq> 0" and "xfs_rtbitmap_getword w s = (Inr x, s)"
  shows "rt_scan_first want b lastbit len blk w s =
     (let wdiff = (x XOR want) AND push_bit b (push_bit (unat lastbit - b) 1 - 1)
      in if wdiff \<noteq> 0 then (Inr (Differ (of_int (xfs_lowbit32 wdiff - int b))), s)
         else rt_bind (rt_next_word (lastbit - of_nat b < len) blk w)
                (\<lambda>(block, word). rt_return (Scanned (lastbit - of_nat b) block word)) s)"
  using assms by (simp add: rt_scan_first_def rt_bind_def rt_return_def Let_def)

lemma rt_scan_last_eq:
  assumes "len \<noteq> i" and "xfs_rtbitmap_getword w s = (Inr x, s)"
  shows "rt_scan_last want len i blk w s =
     (let wdiff = (x XOR want) AND (push_bit (unat (len - i)) 1 - 1)
      in if wdiff \<noteq> 0 then (Inr (Differ (i + of_int (xfs_lowbit32 wdiff))), s)
         else (Inr (Scanned len blk w), s))"
  using assms by (simp add: rt_scan_last_def rt_bind_def rt_return_def Let_def)

lemma rt_bind_Inr: "m s = (Inr x, s') \<Longrightarrow> rt_bind m f s = f x s'"
  by (simp add: rt_bind_def)

lemma rt_bind_Inl: "m s = (Inl e, s') \<Longrightarrow> rt_bind m f s = (Inl e, s')"
  by (simp add: rt_bind_def)

lemma rt_scan_first_ok:
  assumes wf: "rt_wf s" and len: "A + unat len \<le> 32 * rt_nwords (mp s)"
    and loc: "rt_loc (mp s) blk w (A div 32)" and b: "b = A mod 32"
    and last: "unat lastbit = min (b + unat len) 32"
  shows "scan_result s v A 0 (unat len) (\<lambda>_. True)
           (rt_scan_first (want_word v) b lastbit len blk w (rt_at s blk))"
proof (cases "b = 0")
  case True
  with loc b show ?thesis
    by (auto simp: rt_scan_first_def rt_return_def scan_result_def scan_pos_def intro!: exI [of _ 0])
next
  case False
  let ?r = "rt_scan_first (want_word v) b lastbit len blk w (rt_at s blk)"
  let ?msk = "push_bit b (push_bit (unat lastbit - b) 1 - 1) :: u32"
  define j where "j = A div 32"
  have A: "A = 32 * j + b" and b32: "b < 32" using b by (simp_all add: j_def)
  have lb: "b \<le> unat lastbit" "unat lastbit \<le> 32" "unat lastbit - b \<le> unat len" using last b32 by auto
  have msk: "bit ?msk k \<longleftrightarrow> b \<le> k \<and> k < unat lastbit \<and> k < 32" for k
    using lb(1) by (auto simp only: bit_mask_shift) auto
  note get = getword_at [OF wf loc [folded j_def]]
  show ?thesis
  proof (cases "(rt_word s j XOR want_word v) AND ?msk = 0")
    case diff: False
    from masked_diff_low [OF diff msk lb(2)] obtain k where
      k: "xfs_lowbit32 ((rt_word s j XOR want_word v) AND ?msk) = int k" "b \<le> k" "k < unat lastbit"
        "rt_free s (32 * j + k) \<noteq> v" "rt_same s v (32 * j + b) (32 * j + k)" by blast
    have "int k - int b = int (k - b)" using k(2) by simp
    with diff have "?r = (Inr (Differ (of_nat (k - b))), rt_at s blk)"
      by (simp only: rt_scan_first_eq [OF False get] Let_def k(1) if_True not_False_eq_True of_int_of_nat_eq)
    moreover have "unat (of_nat (k - b) :: u64) = k - b"
      using k lb by (intro unat_of_nat_64) simp
    ultimately show ?thesis using k lb A by (auto simp: scan_result_def differs_at_def)
  next
    case same: True
    have i: "unat (lastbit - of_nat b) = unat lastbit - b"
      using lb b32 by (simp add: unat_sub_le word_le_nat_alt unat_of_nat)
    have need: "lastbit - of_nat b < len \<Longrightarrow> Suc j < rt_nwords (mp s)"
      using len A last i by (simp add: word_less_nat_alt min_def split: if_splits)
    from next_word_at [OF wf loc [folded j_def] need] obtain b' w' where
      n: "rt_next_word (lastbit - of_nat b < len) blk w (rt_at s blk) = (Inr (b', w'), rt_at s b')"
        "lastbit - of_nat b < len \<longrightarrow> rt_loc (mp s) b' w' (Suc j)" by blast
    have "?r = (Inr (Scanned (lastbit - of_nat b) b' w'), rt_at s b')"
      by (simp only: rt_scan_first_eq [OF False get] Let_def same if_False simp_thms rt_bind_def n(1)
          prod.case sum.case rt_return_def)
    moreover have "rt_same s v A (A + (unat lastbit - b))"
      using masked_diff_zero [OF same msk lb(2)] A lb by simp
    moreover have "scan_pos s A (unat len) (unat lastbit - b) b' w'"
      using n(2) i A lb last
      by (auto simp: scan_pos_def word_less_nat_alt min_def not_le split: if_splits)
    ultimately show ?thesis using i by (auto simp: scan_result_def)
  qed
qed

lemma rt_scan_last_ok:
  assumes wf: "rt_wf s" and pos: "scan_pos s A (unat len) (unat i) b w" and i: "unat len < unat i + 32"
  shows "scan_result s v A (unat i) (unat len) (\<lambda>i'. i' = len)
           (rt_scan_last (want_word v) len i b w (rt_at s b))"
proof (cases "len = i")
  case True
  with pos show ?thesis by (auto simp: rt_scan_last_def rt_return_def scan_result_def)
next
  case False
  let ?r = "rt_scan_last (want_word v) len i b w (rt_at s b)"
  let ?msk = "push_bit (unat (len - i)) 1 - 1 :: u32"
  have le: "unat i \<le> unat len" using pos by (simp add: scan_pos_def)
  then have sub: "unat (len - i) = unat len - unat i" by (simp add: unat_sub_le word_le_nat_alt)
  have lt: "unat i < unat len" using False le by (simp add: u64_eq_iff_unat)
  define j where "j = (A + unat i) div 32"
  have j: "A + unat i = 32 * j" "rt_loc (mp s) b w j" using pos lt by (auto simp: scan_pos_def j_def)
  have msk: "bit ?msk k \<longleftrightarrow> 0 \<le> k \<and> k < unat len - unat i \<and> k < 32" for k
    using bit_mask_shift [of 0 "unat len - unat i" k, where 'a = 32] by (simp add: sub)
  have hi: "unat len - unat i \<le> 32" using i by simp
  note get = getword_at [OF wf j(2)]
  show ?thesis
  proof (cases "(rt_word s j XOR want_word v) AND ?msk = 0")
    case diff: False
    from masked_diff_low [OF diff msk hi] obtain k where
      k: "xfs_lowbit32 ((rt_word s j XOR want_word v) AND ?msk) = int k" "k < unat len - unat i"
        "rt_free s (32 * j + k) \<noteq> v" "rt_same s v (32 * j) (32 * j + k)" by auto
    with diff have "?r = (Inr (Differ (i + of_nat k)), rt_at s b)"
      by (simp only: rt_scan_last_eq [OF False get] Let_def if_True not_False_eq_True of_int_of_nat_eq)
    moreover have "unat (i + of_nat k) = unat i + k"
      using k(2) by (intro unat_add_of_nat) (use u64_unat_bound [of len] in simp)
    ultimately show ?thesis using k j(1) by (auto simp: scan_result_def differs_at_def add.assoc [symmetric])
  next
    case same: True
    then have "?r = (Inr (Scanned len b w), rt_at s b)"
      by (simp only: rt_scan_last_eq [OF False get] Let_def if_False simp_thms)
    moreover have "32 * j + (unat len - unat i) = A + unat len" using j(1) le by simp
    then have "rt_same s v (A + unat i) (A + unat len)"
      using masked_diff_zero [OF same msk hi] j(1) by simp
    ultimately show ?thesis using le by (auto simp: scan_result_def scan_pos_def)
  qed
qed

lemma rt_scan_bits_ok:
  assumes wf: "rt_wf s" and len: "A + unat len \<le> 32 * rt_nwords (mp s)"
    and loc: "rt_loc (mp s) blk w (A div 32)" and b: "b = A mod 32"
    and last: "unat lastbit = min (b + unat len) 32"
  shows "scan_result s v A 0 (unat len) (\<lambda>i. i = len)
           (rt_scan_bits (want_word v) b lastbit len blk w (rt_at s blk))"
proof -
  let ?rest = "\<lambda>r. case r of Differ i \<Rightarrow> rt_return (Differ i)
             | Scanned i block word \<Rightarrow> rt_scan_last (want_word v) len i block word"
  have words: "scan_result s v A (unat i) (unat len) (\<lambda>i. i = len)
      (rt_bind (rt_scan_words (want_word v) len i b' w') ?rest (rt_at s b'))"
    if pos: "scan_pos s A (unat len) (unat i) b' w'" for i b' w'
    using rt_scan_words_ok [OF wf len pos, of v]
  proof (cases rule: scan_result_cases)
    case (diff d b2)
    then show ?thesis by (auto simp: rt_bind_def rt_return_def scan_result_def)
  next
    case (more i2 b2 w2)
    from rt_scan_last_ok [OF wf more(4,3), of v] more(1,2,5) show ?thesis
      by (simp add: rt_bind_def scan_result_step)
  qed
  show ?thesis
    using rt_scan_first_ok [OF assms, of v]
  proof (cases rule: scan_result_cases)
    case (diff d b2)
    then show ?thesis by (auto simp: rt_scan_bits_def rt_bind_def rt_return_def scan_result_def)
  next
    case (more i2 b2 w2)
    then have "rt_scan_bits (want_word v) b lastbit len blk w (rt_at s blk) =
        rt_bind (rt_scan_words (want_word v) len i2 b2 w2) ?rest (rt_at s b2)"
      by (simp add: rt_scan_bits_def rt_bind_def)
    with words [OF more(4)] more(5) show ?thesis by (simp add: scan_result_step)
  qed
qed

text \<open>
  The two forward routines. A range \<open>[start, limit]\<close> lies inside the bitmap; the run that
  starts at \<open>start\<close> is clipped at \<open>limit\<close>.
\<close>

definition run_end :: "xfs_rtalloc_args \<Rightarrow> nat \<Rightarrow> nat \<Rightarrow> nat \<Rightarrow> bool" where
  "run_end s lo hi e \<longleftrightarrow>
     lo \<le> e \<and> e \<le> hi \<and> rt_same s (rt_free s lo) lo (Suc e) \<and> (e < hi \<longrightarrow> rt_free s (Suc e) \<noteq> rt_free s lo)"

lemma run_endD:
  assumes "run_end s lo hi e"
  shows "lo \<le> e" "e \<le> hi" "lo \<le> x \<Longrightarrow> x \<le> e \<Longrightarrow> rt_free s x = rt_free s lo"
    "e < hi \<Longrightarrow> rt_free s (Suc e) \<noteq> rt_free s lo"
  using assms unfolding run_end_def rt_same_def by (blast intro: le_imp_less_Suc)+

lemma run_end_at [simp]: "run_end (rt_at s b) = run_end s"
  by (intro ext) (simp only: run_end_def rt_same_def rt_at_simps)

lemma rt_read_start:
  assumes "rt_wf s" and "unat x < 32 * rt_nwords (mp s)"
  shows "xfs_rtbitmap_read_buf (xfs_rtx_to_rbmblock (mp s) x) s = (Inr (), rt_at s (xfs_rtx_to_rbmblock (mp s) x))"
  using rt_start_loc [OF assms] by (intro read_buf_at [OF assms(1)]) (simp add: rt_loc_def)

lemma unat_and_31_64: "unat (x AND 31 :: u64) = unat x mod 32"
proof -
  have "x AND 31 = take_bit 5 x" by (simp add: take_bit_eq_mask mask_eq_exp_minus_1)
  then show ?thesis by (simp add: take_bit_eq_mod unat_mod)
qed

lemma want_of_bit:
  "(if w AND push_bit b 1 \<noteq> 0 then - 1 else 0) = want_word (bit (w :: u32) b)"
  by (simp add: want_word_def and_exp_eq_0_iff_not_bit)

lemma unat_lastbit_64:
  "b < 32 \<Longrightarrow> b + unat len < 2 ^ 64 \<Longrightarrow> unat (min (of_nat b + len) 32 :: u64) = min (b + unat len) 32"
  by (simp add: min_def word_le_nat_alt unat_add_of_nat add.commute [of "of_nat b"]) 

lemma unat_add_minus_1:
  "0 < unat d \<Longrightarrow> unat a + unat d < 2 ^ 64 \<Longrightarrow> unat (a + d - 1 :: u64) = unat a + unat d - 1"
  by (subst unat_sub_le) (simp_all add: word_le_nat_alt unat_add_small)

lemma run_endI:
  assumes "rt_same s (rt_free s A) A (A + n)" and "0 < n" and "A + n \<le> Suc hi"
    and "A + n \<le> hi \<Longrightarrow> rt_free s (A + n) \<noteq> rt_free s A"
  shows "run_end s A hi (A + n - 1)"
  using assms by (auto simp: run_end_def)

lemma rtfind_forw_run_end:
  assumes wf: "rt_wf s" and "start \<le> limit" and lim: "unat limit < 32 * rt_nwords (mp s)"
  shows "\<exists>r b. xfs_rtfind_forw start limit s = (Inr r, rt_at s b) \<and> run_end s (unat start) (unat limit) (unat r)"
proof -
  let ?blk = "xfs_rtx_to_rbmblock (mp s) start" and ?w = "xfs_rtx_to_rbmword (mp s) start"
  let ?b = "unat (start AND 31)" and ?len = "limit - start + 1" and ?v = "rt_free s (unat start)"
  have le: "unat start \<le> unat limit" using assms(2) by (simp add: word_le_nat_alt)
  then have st: "unat start < 32 * rt_nwords (mp s)" using lim by simp
  note loc = rt_start_loc [OF wf st]
  have b: "?b = unat start mod 32" by (rule unat_and_31_64)
  note big = rt_nwords_bound [OF wf]
  have len: "unat ?len = unat limit - unat start + 1"
    using le lim big by (subst unat_add_small) (simp_all add: unat_sub_le assms(2))
  have rng: "unat start + unat ?len \<le> 32 * rt_nwords (mp s)" using len le lim by simp
  have last: "unat (min (of_nat ?b + ?len) 32) = min (?b + unat ?len) 32"
    using rng big by (intro unat_lastbit_64) (simp_all add: b)
  have v: "bit (rt_word s (unat start div 32)) ?b = ?v" by (simp add: rt_free_def b)
  have eq: "xfs_rtfind_forw start limit s =
      rt_bind (rt_scan_bits (want_word ?v) ?b (min (of_nat ?b + ?len) 32) ?len ?blk ?w)
       (\<lambda>r. case r of Differ i \<Rightarrow> rt_return (start + i - 1) | Scanned i _ _ \<Rightarrow> rt_return (start + i - 1))
       (rt_at s ?blk)"
    unfolding xfs_rtfind_forw_def Let_def rt_bind_def [of "xfs_rtbitmap_read_buf _"]
      rt_bind_def [of "xfs_rtbitmap_getword _"]
    by (simp only: rt_read_start [OF wf st] prod.case sum.case getword_at [OF wf loc] rt_at_simps want_of_bit v)
  have conv: "unat (start + d - 1) = unat start + unat d - 1" if "0 < unat d" "unat d \<le> unat ?len" for d
    using that rng big by (intro unat_add_minus_1) simp_all
  show ?thesis
    using rt_scan_bits_ok [OF wf rng loc b last, of ?v]
  proof (cases rule: scan_result_cases)
    case (diff d b2)
    then have "unat d \<noteq> 0" by (metis add_0_right differs_at_def)
    moreover have "unat d < unat ?len" using diff(2) by (simp add: differs_at_def)
    ultimately have "unat (start + d - 1) = unat start + unat d - 1" by (intro conv) simp_all
    moreover have "run_end s (unat start) (unat limit) (unat start + unat d - 1)"
      using diff(2) \<open>unat d \<noteq> 0\<close> len le by (intro run_endI) (auto simp: differs_at_def)
    moreover have "xfs_rtfind_forw start limit s = (Inr (start + d - 1), rt_at s b2)"
      by (simp only: eq rt_bind_def rt_return_def diff(1) prod.case sum.case rt_scan.case)
    ultimately show ?thesis by auto
  next
    case (more i2 b2 w2)
    have "unat (start + ?len - 1) = unat start + unat ?len - 1" using len by (intro conv) simp_all
    moreover have "run_end s (unat start) (unat limit) (unat start + unat ?len - 1)"
      using more(3,5) len le by (intro run_endI) simp_all
    moreover have "xfs_rtfind_forw start limit s = (Inr (start + ?len - 1), rt_at s b2)"
      by (simp only: eq rt_bind_def rt_return_def more(1,3) prod.case sum.case rt_scan.case)
    ultimately show ?thesis by auto
  qed
qed

text \<open>\<open>xfs_rtcheck_range\<close>: the first extent of the range that has not the value asked for.\<close>

definition check_result :: "xfs_rtalloc_args \<Rightarrow> bool \<Rightarrow> nat \<Rightarrow> nat \<Rightarrow> nat \<Rightarrow> int \<Rightarrow> bool" where
  "check_result s v lo hi new stat \<longleftrightarrow>
     lo \<le> new \<and> new \<le> hi \<and> rt_same s v lo new \<and>
     (if new = hi then stat = 1 else stat = 0 \<and> rt_free s new \<noteq> v)"

lemma want_of_val: "of_int (- (if v then 1 else 0)) = want_word v"
  by (simp add: want_word_def)

lemma unat_lastbit_32:
  assumes "b < 32" and "b + unat len < 2 ^ 32"
  shows "unat (ucast (min (of_nat b + len) 32 :: u32) :: u64) = min (b + unat len) 32"
proof -
  have "unat (of_nat b + len) = b + unat len"
    using assms by (subst unat_add_small) (simp_all add: unat_of_nat)
  then show ?thesis by (simp add: min_def word_le_nat_alt)
qed

lemma rtcheck_range_result:
  assumes wf: "rt_wf s" and rng: "unat start + unat len \<le> 32 * rt_nwords (mp s)"
    and "unat start < 32 * rt_nwords (mp s)" and "unat len < 2 ^ 32 - 32"
  shows "\<exists>new stat b. xfs_rtcheck_range start len (if v then 1 else 0) s = (Inr (new, stat), rt_at s b) \<and>
     check_result s v (unat start) (unat start + unat len) (unat new) stat"
proof -
  let ?blk = "xfs_rtx_to_rbmblock (mp s) start" and ?w = "xfs_rtx_to_rbmword (mp s) start"
  let ?b = "unat (start AND 31)"
  note loc = rt_start_loc [OF wf assms(3)]
  note big = rt_nwords_bound [OF wf]
  have b: "?b = unat start mod 32" by (rule unat_and_31_64)
  have last: "unat (ucast (min (of_nat ?b + len) 32) :: u64) = min (?b + unat (ucast len :: u64)) 32"
    using assms(4) mod_less_divisor [of 32 "unat start"] by (subst unat_lastbit_32) (simp_all add: b)
  have rng': "unat start + unat (ucast len :: u64) \<le> 32 * rt_nwords (mp s)" using rng by simp
  have eq: "xfs_rtcheck_range start len (if v then 1 else 0) s =
      rt_bind (rt_scan_bits (want_word v) ?b (ucast (min (of_nat ?b + len) 32)) (ucast len) ?blk ?w)
       (\<lambda>r. case r of Differ i \<Rightarrow> rt_return (start + i, 0) | Scanned i _ _ \<Rightarrow> rt_return (start + i, 1))
       (rt_at s ?blk)"
    unfolding xfs_rtcheck_range_def Let_def rt_bind_def [of "xfs_rtbitmap_read_buf _"]
    by (simp only: rt_read_start [OF wf assms(3)] prod.case sum.case rt_at_simps want_of_val)
  have conv: "unat (start + d) = unat start + unat d" if "unat d \<le> unat len" for d
    using that rng big by (intro unat_add_small) simp
  show ?thesis
    using rt_scan_bits_ok [OF wf rng' loc b last, of v]
  proof (cases rule: scan_result_cases)
    case (diff d b2)
    then have "xfs_rtcheck_range start len (if v then 1 else 0) s = (Inr (start + d, 0), rt_at s b2)"
      by (simp only: eq rt_bind_def rt_return_def prod.case sum.case rt_scan.case)
    with diff(2) show ?thesis by (auto simp: check_result_def differs_at_def conv)
  next
    case (more i2 b2 w2)
    then have "xfs_rtcheck_range start len (if v then 1 else 0) s = (Inr (start + ucast len, 1), rt_at s b2)"
      by (simp only: eq rt_bind_def rt_return_def prod.case sum.case rt_scan.case)
    with more(3,5) show ?thesis by (auto simp: check_result_def conv)
  qed
qed

section \<open>The backward scan\<close>

lemma masked_diff_high:
  assumes "(rt_word s j XOR want_word v) AND msk \<noteq> 0"
    and "\<And>k. bit msk k \<longleftrightarrow> k < hi \<and> k < 32" and "hi \<le> 32"
  shows "\<exists>k. xfs_highbit32 ((rt_word s j XOR want_word v) AND msk) = int k \<and> k < hi \<and>
     rt_free s (32 * j + k) \<noteq> v \<and> rt_same s v (32 * j + Suc k) (32 * j + hi)"
proof -
  from xfs_highbit32_spec [OF assms(1)] obtain k where
    k: "k < 32" "xfs_highbit32 ((rt_word s j XOR want_word v) AND msk) = int k"
      "bit ((rt_word s j XOR want_word v) AND msk) k"
      "\<forall>m. k < m \<longrightarrow> \<not> bit ((rt_word s j XOR want_word v) AND msk) m" by blast
  from k(3) assms(2) have hi: "k < hi" and "rt_free s (32 * j + k) \<noteq> v"
    by (auto simp: bit_and_iff bit_xor_want rt_free_word)
  moreover have "rt_same s v (32 * j + Suc k) (32 * j + hi)"
    unfolding rt_same_def
  proof (intro allI impI)
    fix x assume x: "32 * j + Suc k \<le> x \<and> x < 32 * j + hi"
    then obtain m where m: "x = 32 * j + m" "k < m" "m < hi"
      by (metis Suc_le_eq add_le_cancel_left add_less_cancel_left le_iff_add order_trans le_add1)
    with k(4) assms(2,3) show "rt_free s x = v"
      by (auto simp: bit_and_iff bit_xor_want rt_free_word)
  qed
  ultimately show ?thesis using k(2) by blast
qed

lemma prev_word_at:
  assumes wf: "rt_wf s" and loc: "rt_loc (mp s) b w j" and need: "need \<Longrightarrow> 0 < j"
  shows "\<exists>b' w'. rt_prev_word need b w (rt_at s b) = (Inr (b', w'), rt_at s b') \<and>
     (need \<longrightarrow> rt_loc (mp s) b' w' (j - 1))"
proof (cases "w = 0 \<and> need")
  case True
  with need loc have b: "0 < unat b" by (auto simp: rt_loc_def)
  then have b1: "unat (b - 1) = unat b - 1" by (subst unat_sub_le) (simp_all add: word_le_nat_alt)
  have w1: "unat (m_blockwsize (mp s) - 1) = rt_wsize (mp s) - 1"
    using rt_wsize_pos [OF wf] by (subst unat_sub_le) (simp_all add: word_le_nat_alt rt_wsize_def)
  obtain c where c: "unat b = Suc c" using b by (metis gr0_implies_Suc)
  have "rt_loc (mp s) (b - 1) (m_blockwsize (mp s) - 1) (j - 1)"
    using loc True b1 w1 rt_wsize_pos [OF wf] by (auto simp: rt_loc_def c)
  moreover have "unat (b - 1) < rt_nblocks (mp s)" using loc b1 by (auto simp: rt_loc_def)
  ultimately show ?thesis using True wf
    by (simp add: rt_prev_word_def rt_bind_def read_buf_at)
next
  case False
  have "rt_loc (mp s) b (w - 1) (j - 1)" if need
  proof -
    from False that have "0 < unat w" by (simp add: u32_eq_iff_unat)
    moreover from this have "unat (w - 1) = unat w - 1"
      by (subst unat_sub_le) (simp_all add: word_le_nat_alt)
    ultimately show ?thesis using loc by (auto simp: rt_loc_def)
  qed
  with False show ?thesis by (auto simp: rt_prev_word_def)
qed

text \<open>
  A backward scan of the extents below \<open>L\<close> that has come down to \<open>E\<close>: the value differs
  just below some \<open>p \<le> E\<close> and nowhere between, or the scan goes on from a lower word.
\<close>

definition back_pos :: "xfs_rtalloc_args \<Rightarrow> nat \<Rightarrow> u64 \<Rightarrow> u32 \<Rightarrow> bool" where
  "back_pos s E b w \<longleftrightarrow> 32 dvd E \<and> (0 < E \<longrightarrow> rt_loc (mp s) b w (E div 32 - 1))"

definition back_result :: "xfs_rtalloc_args \<Rightarrow> bool \<Rightarrow> nat \<Rightarrow> nat \<Rightarrow> (nat \<Rightarrow> bool) \<Rightarrow>
    (rt_err + rt_scan) \<times> xfs_rtalloc_args \<Rightarrow> bool" where
  "back_result s v L E P r \<longleftrightarrow>
     (\<exists>d b' p. r = (Inr (Differ d), rt_at s b') \<and> unat d + p = L \<and> 0 < p \<and> p \<le> E \<and>
        rt_free s (p - 1) \<noteq> v \<and> rt_same s v p E) \<or>
     (\<exists>i' b' w' E'. r = (Inr (Scanned i' b' w'), rt_at s b') \<and> unat i' + E' = L \<and> E' \<le> E \<and> P E' \<and>
        back_pos s E' b' w' \<and> rt_same s v E' E)"

lemma back_result_cases [consumes 1, case_names diff more]:
  assumes "back_result s v L E P r"
  obtains d b' p where "r = (Inr (Differ d), rt_at s b')" "unat d + p = L" "0 < p" "p \<le> E"
      "rt_free s (p - 1) \<noteq> v" "rt_same s v p E"
    | i' b' w' E' where "r = (Inr (Scanned i' b' w'), rt_at s b')" "unat i' + E' = L" "E' \<le> E" "P E'"
        "back_pos s E' b' w'" "rt_same s v E' E"
  using assms by (auto simp: back_result_def)

lemma back_result_step:
  assumes "back_result s v L E' P r" and "rt_same s v E' E" and "E' \<le> E"
  shows "back_result s v L E P r"
  using assms(1)
proof (cases rule: back_result_cases)
  case (diff d b' p)
  moreover have "rt_same s v p E" by (rule rt_same_join [OF diff(6) assms(2)])
  ultimately show ?thesis using assms(3) by (fastforce simp: back_result_def)
next
  case (more i' b' w' E2)
  moreover have "rt_same s v E2 E" by (rule rt_same_join [OF more(6) assms(2)])
  ultimately show ?thesis using assms(3) by (fastforce simp: back_result_def)
qed

lemma rt_back_words_ok:
  assumes wf: "rt_wf s" and L: "unat len = L" and "unat i + E = L" and "back_pos s E b w"
  shows "back_result s v L E (\<lambda>E'. E' = 0) (rt_back_words (want_word v) len i b w (rt_at s b))"
  using assms(3,4)
proof (induction "unat (len - i)" arbitrary: i E b w rule: less_induct)
  case less
  let ?r = "rt_back_words (want_word v) len i b w (rt_at s b)"
  have sub: "unat (len - i) = E" using less.prems(1) L by (simp add: unat_sub_le word_le_nat_alt)
  show ?case
  proof (cases "32 \<le> len - i")
    case False
    moreover have "32 dvd E" using less.prems(2) by (simp add: back_pos_def)
    ultimately have "E = 0" using sub by (auto simp: word_le_nat_alt)
    moreover have "?r = (Inr (Scanned i b w), rt_at s b)" using False by simp
    ultimately show ?thesis using less.prems by (auto simp: back_result_def)
  next
    case True
    then have "32 \<le> E" using sub by (simp add: word_le_nat_alt)
    moreover obtain q where "E = 32 * q" using less.prems(2) by (auto simp: back_pos_def)
    ultimately obtain j where E: "E = 32 * j + 32" by (cases q) auto
    then have loc: "rt_loc (mp s) b w j" using less.prems(2) by (simp add: back_pos_def)
    note get = getword_at [OF wf loc]
    show ?thesis
    proof (cases "rt_word s j XOR want_word v = 0")
      case False
      with masked_diff_high [of s j v "- 1" 32] obtain k where
        k: "xfs_highbit32 (rt_word s j XOR want_word v) = int k" "k < 32"
          "rt_free s (32 * j + k) \<noteq> v" "rt_same s v (32 * j + Suc k) (32 * j + 32)"
        by auto
      have hk: "31 - xfs_highbit32 (rt_word s j XOR want_word v) = int (31 - k)" using k(1,2) by simp
      have "?r = (Inr (Differ (i + of_nat (31 - k))), rt_at s b)"
        by (subst rt_back_words.simps) (simp add: True False get hk del: of_nat_diff rt_back_words.simps)
      moreover have "unat (i + of_nat (31 - k)) = unat i + (31 - k)"
        using less.prems(1) E L u64_unat_bound [of len] by (intro unat_add_of_nat) simp
      ultimately show ?thesis using k E less.prems(1)
        by (auto simp: back_result_def intro!: exI [of _ "32 * j + Suc k"])
    next
      case same: True
      have i': "unat (i + 32) = unat i + 32"
        using less.prems(1) E L u64_unat_bound [of len] by (subst unat_add_small) simp_all
      have need: "i + 32 < len \<Longrightarrow> 0 < j"
        using less.prems(1) E L i' by (simp add: word_less_nat_alt)
      from prev_word_at [OF wf loc need] obtain b' w' where
        n: "rt_prev_word (i + 32 < len) b w (rt_at s b) = (Inr (b', w'), rt_at s b')"
          "i + 32 < len \<longrightarrow> rt_loc (mp s) b' w' (j - 1)" by blast
      have "?r = rt_back_words (want_word v) len (i + 32) b' w' (rt_at s b')"
        using True same get n(1) by simp
      moreover have "rt_same s v (32 * j) E"
        using masked_diff_zero [of s j v "- 1" 0 32] same E by simp
      moreover have "back_pos s (32 * j) b' w'"
        using n(2) i' E L less.prems(1) by (auto simp: back_pos_def word_less_nat_alt)
      moreover have "unat (i + 32) + 32 * j = L" using i' E less.prems(1) by simp
      ultimately show ?thesis
        using less.hyps [OF minus_32_decreases(1) [OF True]] E by (metis le_add1 back_result_step)
    qed
  qed
qed

lemma rt_back_first_eq:
  assumes "b < 31" and "xfs_rtbitmap_getword w s = (Inr x, s)" and "\<not> sint (of_nat b - len + 1 :: u64) > 0"
  shows "rt_back_first want b len blk w s =
     (let wdiff = (x XOR want) AND (push_bit (Suc b) 1 - 1)
      in if wdiff \<noteq> 0 then (Inr (Differ (of_int (int b - xfs_highbit32 wdiff))), s)
         else rt_bind (rt_prev_word (of_nat b + 1 < len) blk w)
                (\<lambda>(block, word). rt_return (Scanned (of_nat b + 1) block word)) s)"
proof -
  have "unat (of_nat b + 1 :: u64) = Suc b" using assms(1) unat_of_nat_64 [of "Suc b"] by (simp add: add.commute)
  with assms show ?thesis
    by (simp add: rt_back_first_def rt_bind_def rt_return_def Let_def del: push_bit_of_1)
qed

lemma sint_diff_le_0:
  assumes "b \<le> unat x" and "unat x < 2 ^ 63"
  shows "\<not> sint (of_nat b - (x + 1) + 1 :: u64) > 0"
proof -
  obtain n where n: "unat x = n" by simp
  then have "x = of_nat n" by (simp flip: n)
  then have "of_nat b - (x + 1) + 1 = of_int (int b - int n)" by simp
  moreover have "sint (of_int (int b - int n) :: u64) = int b - int n"
    unfolding sint_sbintrunc' by (rule signed_take_bit_int_eq_self) (use assms n in simp_all)
  ultimately show ?thesis using assms(1) n by simp
qed

lemma Suc_mod_31: "n mod 32 = 31 \<Longrightarrow> Suc n = 32 * Suc (n div 32)" for n :: nat
  by presburger

lemma rt_back_first_ok:
  assumes wf: "rt_wf s" and start: "unat start < 32 * rt_nwords (mp s)"
    and loc: "rt_loc (mp s) blk w (unat start div 32)" and b: "b = unat start mod 32"
  shows "back_result s v (Suc (unat start)) (Suc (unat start)) (\<lambda>_. True)
           (rt_back_first (want_word v) b (start + 1) blk w (rt_at s blk))"
proof (cases "b < 31")
  case False
  with b have "unat start mod 32 = 31" using mod_less_divisor [of 32 "unat start"] by linarith
  then have st: "Suc (unat start) = 32 * Suc (unat start div 32)" by (rule Suc_mod_31)
  then have "32 dvd Suc (unat start)" by (metis dvd_triv_left)
  moreover have "Suc (unat start) div 32 - 1 = unat start div 32" by (simp only: st) simp
  ultimately show ?thesis using False loc
    by (auto simp: rt_back_first_def rt_return_def back_result_def back_pos_def intro!: exI [of _ 0])
next
  case True
  let ?r = "rt_back_first (want_word v) b (start + 1) blk w (rt_at s blk)"
  let ?msk = "push_bit (Suc b) 1 - 1 :: u32"
  define j where "j = unat start div 32"
  have A: "unat start = 32 * j + b" using b by (simp add: j_def)
  have msk: "bit ?msk k \<longleftrightarrow> k < Suc b \<and> k < 32" for k
    using bit_mask_shift [of 0 "Suc b" k, where 'a = 32] by (simp del: push_bit_Suc)
  have hi: "Suc b \<le> 32" using True by simp
  have neg: "\<not> sint (of_nat b - (start + 1) + 1 :: u64) > 0"
    using A start rt_nwords_bound [OF wf] by (intro sint_diff_le_0) simp_all
  note get = getword_at [OF wf loc [folded j_def]]
  note eq = rt_back_first_eq [OF True get neg]
  have len: "unat (start + 1) = Suc (unat start)" 
    using start rt_nwords_bound [OF wf] by (subst unat_add_small) simp_all
  show ?thesis
  proof (cases "(rt_word s j XOR want_word v) AND ?msk = 0")
    case diff: False
    from masked_diff_high [OF diff msk hi] obtain k where
      k: "xfs_highbit32 ((rt_word s j XOR want_word v) AND ?msk) = int k" "k < Suc b"
        "rt_free s (32 * j + k) \<noteq> v" "rt_same s v (32 * j + Suc k) (32 * j + Suc b)" by blast
    have "int b - int k = int (b - k)" using k(2) by simp
    with diff have "?r = (Inr (Differ (of_nat (b - k))), rt_at s blk)"
      by (simp only: eq Let_def k(1) if_True not_False_eq_True of_int_of_nat_eq)
    moreover have "unat (of_nat (b - k) :: u64) = b - k" using True by (intro unat_of_nat_64) simp
    ultimately show ?thesis using k A
      by (auto simp: back_result_def intro!: exI [of _ "32 * j + Suc k"])
  next
    case same: True
    have i: "unat (of_nat b + 1 :: u64) = Suc b"
      using True unat_of_nat_64 [of "Suc b"] by (simp add: add.commute)
    have need: "of_nat b + 1 < start + 1 \<Longrightarrow> 0 < j"
      using A i len by (simp add: word_less_nat_alt)
    from prev_word_at [OF wf loc [folded j_def] need] obtain b' w' where
      n: "rt_prev_word (of_nat b + 1 < start + 1) blk w (rt_at s blk) = (Inr (b', w'), rt_at s b')"
        "of_nat b + 1 < start + 1 \<longrightarrow> rt_loc (mp s) b' w' (j - 1)" by blast
    have "?r = (Inr (Scanned (of_nat b + 1) b' w'), rt_at s b')"
      by (simp only: eq Let_def same if_False simp_thms rt_bind_def n(1) prod.case sum.case rt_return_def)
    moreover have "rt_same s v (32 * j) (Suc (unat start))"
      using masked_diff_zero [of s j v ?msk 0 "Suc b"] msk same hi A by simp
    moreover have "back_pos s (32 * j) b' w'"
      using n(2) i A len by (auto simp: back_pos_def word_less_nat_alt)
    ultimately show ?thesis using i A
      by (auto simp: back_result_def intro!: exI [of _ "32 * j"])
  qed
qed

definition run_start :: "xfs_rtalloc_args \<Rightarrow> nat \<Rightarrow> nat \<Rightarrow> bool" where
  "run_start s hi r \<longleftrightarrow>
     r \<le> hi \<and> rt_same s (rt_free s hi) r (Suc hi) \<and> (0 < r \<longrightarrow> rt_free s (r - 1) \<noteq> rt_free s hi)"

lemma rtfind_back_run_start:
  assumes wf: "rt_wf s" and st: "unat start < 32 * rt_nwords (mp s)"
  shows "\<exists>r b. xfs_rtfind_back start s = (Inr r, rt_at s b) \<and> run_start s (unat start) (unat r)"
proof -
  let ?blk = "xfs_rtx_to_rbmblock (mp s) start" and ?w = "xfs_rtx_to_rbmword (mp s) start"
  let ?b = "unat (start AND 31)" and ?v = "rt_free s (unat start)" and ?L = "Suc (unat start)"
  note loc = rt_start_loc [OF wf st]
  have b: "?b = unat start mod 32" by (rule unat_and_31_64)
  have len: "unat (start + 1) = ?L"
    using st rt_nwords_bound [OF wf] by (subst unat_add_small) simp_all
  have v: "bit (rt_word s (unat start div 32)) ?b = ?v" by (simp add: rt_free_def b)
  let ?last = "\<lambda>r. case r of Differ i \<Rightarrow> rt_return (start - i + 1) | Scanned i _ _ \<Rightarrow> rt_return (start - i + 1)"
  let ?words = "\<lambda>r. case r of Differ i \<Rightarrow> rt_return (start - i + 1)
      | Scanned i block word \<Rightarrow> rt_bind (rt_back_last (want_word ?v) (start + 1) i block word) ?last"
  let ?first = "\<lambda>r. case r of Differ i \<Rightarrow> rt_return (start - i + 1)
      | Scanned i block word \<Rightarrow> rt_bind (rt_back_words (want_word ?v) (start + 1) i block word) ?words"
  have eq: "xfs_rtfind_back start s =
      rt_bind (rt_back_first (want_word ?v) ?b (start + 1) ?blk ?w) ?first (rt_at s ?blk)"
    unfolding xfs_rtfind_back_def Let_def rt_bind_def [of "xfs_rtbitmap_read_buf _"]
      rt_bind_def [of "xfs_rtbitmap_getword _"]
    by (simp only: rt_read_start [OF wf st] prod.case sum.case getword_at [OF wf loc] rt_at_simps want_of_bit v)
  let ?G = "\<lambda>res. \<exists>r b. res = (Inr r, rt_at s b) \<and> run_start s (unat start) (unat r)"
  have fin: "?G (rt_return (start - d + 1) (rt_at s b'))"
    if "unat d + p = ?L" "0 < p \<longrightarrow> rt_free s (p - 1) \<noteq> ?v" "rt_same s ?v p ?L" for d p b'
  proof -
    have "start - d + 1 = (start + 1) - d" by simp
    then have "unat (start - d + 1) = p"
      using that(1) len by (simp only: unat_sub_le word_le_nat_alt)
    moreover have "p \<noteq> ?L" using that(2) by auto
    ultimately show ?thesis using that by (auto simp: rt_return_def run_start_def)
  qed
  have words: "?G (rt_bind (rt_back_words (want_word ?v) (start + 1) i b' w') ?words (rt_at s b'))"
    if i: "unat i + E = ?L" and pos: "back_pos s E b' w'" and same: "rt_same s ?v E ?L" for i E b' w'
    using rt_back_words_ok [OF wf len i pos, of ?v]
  proof (cases rule: back_result_cases)
    case (diff d b2 p)
    with fin [of d p b2] rt_same_join [OF diff(6) same] show ?thesis by (simp add: rt_bind_def)
  next
    case (more i2 b2 w2 E2)
    then have "i2 = start + 1" by (simp add: u64_eq_iff_unat len)
    with more fin [of i2 0 b2] rt_same_join [OF more(6) same] show ?thesis
      by (simp add: rt_bind_def rt_back_last_def rt_return_def)
  qed
  show ?thesis
    using rt_back_first_ok [OF wf st loc b, of ?v]
  proof (cases rule: back_result_cases)
    case (diff d b2 p)
    with fin [of d p b2] show ?thesis by (simp add: eq rt_bind_def)
  next
    case (more i2 b2 w2 E2)
    with words [OF more(2,5,6)] show ?thesis unfolding eq by (simp add: rt_bind_def)
  qed
qed

section \<open>A concrete state\<close>

text \<open>
  A group of 128 extents in two bitmap blocks of two words each, big-endian on disk. Free
  are extents 4 to 39 and 64 to 127.
\<close>

definition rt_example_mount :: rt_mount where
  "rt_example_mount = \<lparr>m_has_rtgroups = True, m_has_zoned = False, m_rtx_per_rbmblock = 64,
     m_blkbit_log = 6, m_blockwsize = 2, m_blockmask = 7, m_rsumblocks = 16, m_rtxblklog = 0,
     m_rtxblkmask = 0, m_rtg_blkmask = - 1, sb_rbmblocks = 2, sb_blocklog = 3, sb_blocksize = 56,
     sb_rextsize = 1, sb_rextents = 128, sb_rgextents = 128, sb_frextents = 100\<rparr>"

definition rt_example :: xfs_rtalloc_args where
  "rt_example = \<lparr>mp = rt_example_mount, rtg_extents = 128, rtg_rsum_cache = None, rbm_ino = 129, rsum_ino = 130,
     rbm_file = [Rt_buf \<lparr>rt_owner = cpu_to_be64 129, rt_words = [cpu_to_be32 0xFFFFFFF0, cpu_to_be32 0xFF]\<rparr>,
       Rt_buf \<lparr>rt_owner = cpu_to_be64 129, rt_words = [- 1, - 1]\<rparr>],
     rsum_file = replicate 16 (Rt_buf \<lparr>rt_owner = cpu_to_be64 130, rt_words = [0, 0]\<rparr>),
     rbmbp = None, sumbp = None, rbmoff = 0, sumoff = 0, tp_log = [], t_frextents_delta = 0,
     rbm_newrtbm = False, rbm_atime_sec = 0\<rparr>"

lemma rt_example_wf: "rt_wf rt_example" "rt_nwords (mp rt_example) = 4" "rtg_extents rt_example = 128"
  by code_simp+

section \<open>Scan results\<close>

text \<open>
  \<^verbatim>\<open>xfs_rtfind_forw\<close> returns, for every well-formed bitmap and every range inside it, the
  last extent of the run of equal allocation state that starts at \<open>start\<close>, clipped at \<open>limit\<close>;
  it fails on no block boundary and changes nothing but the cached buffer.
\<close>

theorem xfs_rtfind_forw_run:
  assumes "rt_wf s" and "start \<le> limit" and "unat limit < 32 * rt_nwords (mp s)"
  shows "\<exists>r b. xfs_rtfind_forw start limit s = (Inr r, rt_at s b) \<and>
    start \<le> r \<and> r \<le> limit \<and>
    (\<forall>x. unat start \<le> x \<and> x \<le> unat r \<longrightarrow> rt_free s x = rt_free s (unat start)) \<and>
    (r < limit \<longrightarrow> rt_free s (Suc (unat r)) \<noteq> rt_free s (unat start))"
  using rtfind_forw_run_end [OF assms]
  by (auto simp: run_end_def rt_same_def word_le_nat_alt word_less_nat_alt less_Suc_eq_le)

theorem xfs_rtfind_forw_run_witness:
  "\<exists>r b. xfs_rtfind_forw 5 100 rt_example = (Inr r, rt_at rt_example b) \<and> 5 \<le> r \<and> r \<le> 100"
  using xfs_rtfind_forw_run [of rt_example 5 100] rt_example_wf by auto

text \<open>
  \<^verbatim>\<open>xfs_rtfind_back\<close> returns the first extent of the run of equal allocation state that ends
  at \<open>start\<close>, down to extent 0, and changes nothing but the cached buffer. (Its last part, for a
  partial word, is never reached with a nonzero length.)
\<close>

theorem xfs_rtfind_back_run:
  assumes "rt_wf s" and "unat start < 32 * rt_nwords (mp s)"
  shows "\<exists>r b. xfs_rtfind_back start s = (Inr r, rt_at s b) \<and> r \<le> start \<and>
    (\<forall>x. unat r \<le> x \<and> x \<le> unat start \<longrightarrow> rt_free s x = rt_free s (unat start)) \<and>
    (0 < r \<longrightarrow> rt_free s (unat r - 1) \<noteq> rt_free s (unat start))"
  using rtfind_back_run_start [OF assms]
  by (auto simp: run_start_def rt_same_def word_le_nat_alt word_less_nat_alt less_Suc_eq_le)

theorem xfs_rtfind_back_run_witness:
  "\<exists>r b. xfs_rtfind_back 100 rt_example = (Inr r, rt_at rt_example b) \<and> r \<le> 100"
  using xfs_rtfind_back_run [of rt_example 100] rt_example_wf by auto

text \<open>
  \<^verbatim>\<open>xfs_rtcheck_range\<close> stores 1 in \<open>*stat\<close> exactly when every extent of the range has the value
  asked for, and \<open>*new\<close> is the first extent that has not (the end of the range if there is none).
\<close>

theorem xfs_rtcheck_range_exact:
  assumes "rt_wf s" and "unat start < 32 * rt_nwords (mp s)"
    and "unat start + unat len \<le> 32 * rt_nwords (mp s)" and "unat len < 2 ^ 32 - 32"
  shows "\<exists>new stat b. xfs_rtcheck_range start len (if v then 1 else 0) s = (Inr (new, stat), rt_at s b) \<and>
    (stat = 1 \<longleftrightarrow> (\<forall>x. unat start \<le> x \<and> x < unat start + unat len \<longrightarrow> rt_free s x = v)) \<and>
    (stat = 1 \<longrightarrow> unat new = unat start + unat len) \<and>
    (stat \<noteq> 1 \<longrightarrow> stat = 0 \<and> start \<le> new \<and> unat new < unat start + unat len \<and> rt_free s (unat new) \<noteq> v \<and>
       (\<forall>x. unat start \<le> x \<and> x < unat new \<longrightarrow> rt_free s x = v))"
proof -
  from rtcheck_range_result [OF assms(1,3,2,4)] obtain new stat b where
    r: "xfs_rtcheck_range start len (if v then 1 else 0) s = (Inr (new, stat), rt_at s b)"
    and c: "check_result s v (unat start) (unat start + unat len) (unat new) stat" by blast
  show ?thesis
  proof (intro exI conjI)
    show "xfs_rtcheck_range start len (if v then 1 else 0) s = (Inr (new, stat), rt_at s b)" by (rule r)
    show "stat = 1 \<longleftrightarrow> (\<forall>x. unat start \<le> x \<and> x < unat start + unat len \<longrightarrow> rt_free s x = v)"
      using c by (auto simp: check_result_def rt_same_def split: if_splits)
  qed (use c in \<open>auto simp: check_result_def rt_same_def word_le_nat_alt split: if_splits\<close>)
qed

theorem xfs_rtcheck_range_exact_witness:
  "\<exists>new stat b. xfs_rtcheck_range 64 40 1 rt_example = (Inr (new, stat), rt_at rt_example b) \<and>
     (stat \<noteq> 1 \<longrightarrow> stat = 0 \<and> 64 \<le> new)"
  using xfs_rtcheck_range_exact [of rt_example 64 40 True] rt_example_wf by auto

end
