(* ===== verification/Rt_Modify.thy ===== *)
theory Rt_Modify
  imports Rt_Scan
begin

text \<open>
  \<^verbatim>\<open>xfs_rtmodify_range\<close> sets exactly the bits of its range, across word and block boundaries,
  and logs every word it changes.
\<close>

section \<open>Writing one word\<close>

definition rt_raw_word :: "rt_mount \<Rightarrow> u32 \<Rightarrow> u32" where
  "rt_raw_word m w = (if m_has_rtgroups m then cpu_to_be32 w else w)"

lemma rt_cpu_raw_word [simp]: "rt_cpu_word m (rt_raw_word m w) = w"
  by (simp add: rt_cpu_word_def rt_raw_word_def disk_simps)

definition rt_upd :: "xfs_rtalloc_args \<Rightarrow> nat \<Rightarrow> u32 \<Rightarrow> xfs_rtalloc_args" where
  "rt_upd s j x = s\<lparr>rbm_file := store_word (rbm_file s) (of_nat (j div rt_wsize (mp s)))
     (j mod rt_wsize (mp s)) (rt_raw_word (mp s) x)\<rparr>"

lemma rt_upd_simps [simp]:
  "mp (rt_upd s j x) = mp s" "rt_at (rt_upd s j x) b = rt_upd (rt_at s b) j x"
  "rbm_ino (rt_upd s j x) = rbm_ino s" "rbmbp (rt_upd s j x) = rbmbp s" "rbmoff (rt_upd s j x) = rbmoff s"
  "tp_log (rt_upd s j x) = tp_log s"
  by (simp_all add: rt_upd_def rt_at_def)

lemma setword_at:
  assumes "rt_wf s" and "rt_loc (mp s) b w j" and "rbmbp s = Some b"
  shows "xfs_rtbitmap_setword w x s = (Inr (), rt_upd s j x)"
proof -
  from assms obtain blk where "rbm_file s ! unat b = Rt_buf blk" "length (rt_words blk) = rt_wsize (mp s)"
    "unat b < length (rbm_file s)" by (metis rt_wf_block rt_loc_def)
  with assms(2,3) rt_loc_div [OF assms(2)] show ?thesis
    by (auto simp: xfs_rtbitmap_setword_def held_words_def rtfile_lookup_def rt_upd_def rt_raw_word_def rt_loc_def)
qed

lemma rt_upd_file:
  assumes "rt_wf s" and "j < rt_nwords (mp s)"
  shows "\<exists>blk. rbm_file s ! (j div rt_wsize (mp s)) = Rt_buf blk \<and> length (rt_words blk) = rt_wsize (mp s) \<and>
    j div rt_wsize (mp s) < rt_nblocks (mp s) \<and>
    rbm_file (rt_upd s j x) = (rbm_file s)[j div rt_wsize (mp s) :=
      Rt_buf (blk\<lparr>rt_words := (rt_words blk)[j mod rt_wsize (mp s) := rt_raw_word (mp s) x]\<rparr>)]"
proof -
  let ?b = "j div rt_wsize (mp s)"
  have b: "?b < rt_nblocks (mp s)" using assms(2) by (simp add: rt_nwords_def less_mult_imp_div_less mult.commute)
  then obtain blk where "rbm_file s ! ?b = Rt_buf blk" "length (rt_words blk) = rt_wsize (mp s)"
    "?b < length (rbm_file s)" using assms(1) by (metis rt_wf_block)
  moreover have "unat (of_nat ?b :: u64) = ?b"
    using b u32_unat_bound [of "sb_rbmblocks (mp s)"] by (intro unat_of_nat_64) (simp add: rt_nblocks_def)
  ultimately show ?thesis using b by (simp add: rt_upd_def store_word_def rtfile_lookup_def)
qed

lemma rt_wf_rtblock:
  "rt_wf s \<Longrightarrow> i < rt_nblocks (mp s) \<Longrightarrow> rtblock_ok (mp s) (rbm_ino s) (rbm_file s ! i) \<and> i < length (rbm_file s)"
  by (auto simp: rt_wf_def list_all_length)

lemma rt_upd_wf:
  assumes "rt_wf s" and "j < rt_nwords (mp s)"
  shows "rt_wf (rt_upd s j x)"
proof -
  from rt_upd_file [OF assms, of x] obtain blk where
    f: "rbm_file s ! (j div rt_wsize (mp s)) = Rt_buf blk" "length (rt_words blk) = rt_wsize (mp s)"
      "j div rt_wsize (mp s) < rt_nblocks (mp s)"
      "rbm_file (rt_upd s j x) = (rbm_file s)[j div rt_wsize (mp s) :=
        Rt_buf (blk\<lparr>rt_words := (rt_words blk)[j mod rt_wsize (mp s) := rt_raw_word (mp s) x]\<rparr>)]" by blast
  have "rtblock_ok (mp s) (rbm_ino s) (rbm_file (rt_upd s j x) ! i)" if "i < rt_nblocks (mp s)" for i
    using rt_wf_rtblock [OF assms(1) that] rt_wf_rtblock [OF assms(1) f(3)] f
    by (cases "i = j div rt_wsize (mp s)") (auto simp: rtblock_ok_def nth_list_update)
  with assms(1) show ?thesis
    by (auto simp: rt_wf_def list_all_length f(4))
qed

lemma rt_word_upd:
  assumes "rt_wf s" and "j < rt_nwords (mp s)"
  shows "rt_word (rt_upd s j x) i = (if i = j then x else rt_word s i)"
proof -
  from rt_upd_file [OF assms, of x] obtain blk where
    f: "rbm_file s ! (j div rt_wsize (mp s)) = Rt_buf blk" "length (rt_words blk) = rt_wsize (mp s)"
      "j div rt_wsize (mp s) < rt_nblocks (mp s)"
      "rbm_file (rt_upd s j x) = (rbm_file s)[j div rt_wsize (mp s) :=
        Rt_buf (blk\<lparr>rt_words := (rt_words blk)[j mod rt_wsize (mp s) := rt_raw_word (mp s) x]\<rparr>)]" by blast
  have len: "j div rt_wsize (mp s) < length (rbm_file s)" using f(3) assms(1) by (simp add: rt_wf_def)
  have m: "j mod rt_wsize (mp s) < rt_wsize (mp s)" using rt_wsize_pos [OF assms(1)] by simp
  show ?thesis
  proof (cases "i div rt_wsize (mp s) = j div rt_wsize (mp s)")
    case True
    then have "i mod rt_wsize (mp s) = j mod rt_wsize (mp s) \<longleftrightarrow> i = j" by (metis div_mult_mod_eq)
    with True f len m show ?thesis by (auto simp: rt_word_def block_words_def nth_list_update)
  next
    case False
    with f len show ?thesis by (auto simp: rt_word_def nth_list_update)
  qed
qed

section \<open>The invariant of the loop\<close>

text \<open>A word of the bitmap lies inside a logged byte range of its block.\<close>

definition logged :: "rt_mount \<Rightarrow> (xfs_rtg_inodes \<times> u64 \<times> nat \<times> nat) list \<Rightarrow> nat \<Rightarrow> bool" where
  "logged m log j \<longleftrightarrow>
     (\<exists>blk first last. (XFS_RTGI_BITMAP, blk, first, last) \<in> set log \<and> unat blk = j div rt_wsize m \<and>
        first \<le> rt_hdr_bytes m + 4 * (j mod rt_wsize m) \<and> rt_hdr_bytes m + 4 * (j mod rt_wsize m) + 3 \<le> last)"

lemma logged_append [simp]: "logged m (l1 @ l2) j \<longleftrightarrow> logged m l1 j \<or> logged m l2 j"
  by (auto simp: logged_def)

text \<open>Only the bitmap blocks, the cached bitmap buffer and the log differ.\<close>

definition rt_blank :: "xfs_rtalloc_args \<Rightarrow> xfs_rtalloc_args" where
  "rt_blank s = s\<lparr>rbm_file := [], rbmbp := None, rbmoff := 0, tp_log := []\<rparr>"

definition rt_frame :: "xfs_rtalloc_args \<Rightarrow> xfs_rtalloc_args \<Rightarrow> bool" where
  "rt_frame s st \<longleftrightarrow> rt_blank st = rt_blank s"

lemma rt_blank_simps [simp]:
  "rt_blank (rt_upd s j x) = rt_blank s" "rt_blank (rt_at s b) = rt_blank s"
  "rt_blank (s\<lparr>tp_log := l\<rparr>) = rt_blank s" "mp (rt_blank s) = mp s"
  by (simp_all add: rt_blank_def rt_upd_def rt_at_def)

lemma rt_frame_mp: "rt_frame s st \<Longrightarrow> mp st = mp s"
  unfolding rt_frame_def by (drule arg_cong [of _ _ mp]) simp

text \<open>Words \<open>fw\<close> to below \<open>w\<close> of block \<open>b\<close> are written but not yet logged.\<close>

definition log_pending :: "rt_mount \<Rightarrow> u64 \<Rightarrow> u32 \<Rightarrow> u32 \<Rightarrow> nat \<Rightarrow> bool" where
  "log_pending m b fw w j \<longleftrightarrow>
     j div rt_wsize m = unat b \<and> unat fw \<le> j mod rt_wsize m \<and> j mod rt_wsize m < unat w"

definition modify_inv :: "xfs_rtalloc_args \<Rightarrow> bool \<Rightarrow> nat \<Rightarrow> nat \<Rightarrow> u64 \<Rightarrow> u32 \<Rightarrow> u32 \<Rightarrow> xfs_rtalloc_args \<Rightarrow> bool" where
  "modify_inv s v A i b w fw st \<longleftrightarrow>
     rt_wf st \<and> rt_frame s st \<and> rbmbp st = Some b \<and> unat fw \<le> unat w \<and>
     (\<forall>x. rt_free st x = (if A \<le> x \<and> x < A + i then v else rt_free s x)) \<and>
     (\<exists>l. tp_log st = tp_log s @ l \<and>
        (\<forall>x. A \<le> x \<and> x < A + i \<longrightarrow> logged (mp s) l (x div 32) \<or> log_pending (mp s) b fw w (x div 32)))"

lemma rt_free_upd:
  assumes "rt_wf st" and "j < rt_nwords (mp st)"
    and "\<And>k. k < 32 \<Longrightarrow> bit x k = (if lo \<le> k \<and> k < hi then v else bit (rt_word st j) k)" and "hi \<le> 32"
  shows "rt_free (rt_upd st j x) y = (if 32 * j + lo \<le> y \<and> y < 32 * j + hi then v else rt_free st y)"
proof (cases "y div 32 = j")
  case True
  then obtain k where "y = 32 * j + k" "k < 32" by (metis mult_div_mod_eq mod_less_divisor zero_less_numeral)
  with assms show ?thesis by (simp add: rt_free_word rt_word_upd)
next
  case False
  then have "\<not> (32 * j + lo \<le> y \<and> y < 32 * j + hi)" using assms(4) by auto
  with False assms(1,2) show ?thesis by (auto simp: rt_free_def rt_word_upd)
qed

lemma rt_at_self: "rt_wf st \<Longrightarrow> rbmbp st = Some b \<Longrightarrow> st = rt_at st b"
  by (cases st) (auto simp: rt_wf_def rt_at_def)

lemma rt_wf_log [simp]: "rt_wf (st\<lparr>tp_log := l\<rparr>) = rt_wf st"
  and rt_free_log [simp]: "rt_free (st\<lparr>tp_log := l\<rparr>) = rt_free st"
  and rt_at_log: "rt_at (st\<lparr>tp_log := l\<rparr>) b = (rt_at st b)\<lparr>tp_log := l\<rparr>"
  by (simp_all add: rt_wf_def rt_free_def rt_word_def rt_at_def fun_eq_iff)

lemma log_bitmap_at:
  "rbmbp st = Some b \<Longrightarrow> xfs_trans_log_rtbitmap fw w st =
     (Inr (), st\<lparr>tp_log := tp_log st @ [(XFS_RTGI_BITMAP, b, rt_hdr_bytes (mp st) + 4 * unat fw,
                                          rt_hdr_bytes (mp st) + 4 * unat w - 1)]\<rparr>)"
  by (simp add: xfs_trans_log_rtbitmap_def)

text \<open>Logging the words from \<open>fw\<close> to below \<open>w\<close> of the held block discharges what was pending.\<close>

lemma logged_range:
  assumes "log_pending m b fw w j"
  shows "logged m [(XFS_RTGI_BITMAP, b, rt_hdr_bytes m + 4 * unat fw, rt_hdr_bytes m + 4 * unat w - 1)] j"
  using assms by (auto simp: logged_def log_pending_def)

lemma modify_inv_log:
  assumes inv: "modify_inv s v A i b w fw st"
  shows "\<exists>l. xfs_trans_log_rtbitmap fw w st = (Inr (), st\<lparr>tp_log := tp_log s @ l\<rparr>) \<and>
     (\<forall>x. A \<le> x \<and> x < A + i \<longrightarrow> logged (mp s) l (x div 32))"
proof -
  from inv obtain l where l: "tp_log st = tp_log s @ l"
    "\<And>x. A \<le> x \<Longrightarrow> x < A + i \<Longrightarrow> logged (mp s) l (x div 32) \<or> log_pending (mp s) b fw w (x div 32)"
    by (auto simp: modify_inv_def)
  moreover have "mp st = mp s" and "rbmbp st = Some b" using inv by (auto simp: modify_inv_def rt_frame_mp)
  ultimately show ?thesis
    by (intro exI [of _ "l @ [(XFS_RTGI_BITMAP, b, rt_hdr_bytes (mp s) + 4 * unat fw, rt_hdr_bytes (mp s) + 4 * unat w - 1)]"])
       (auto simp: log_bitmap_at simp del: One_nat_def dest: logged_range)
qed

lemma rt_loc_next:
  assumes "rt_wf s" and "rt_loc (mp s) b w j" and "Suc j < rt_nwords (mp s)"
  shows "if w + 1 = m_blockwsize (mp s) then rt_loc (mp s) (b + 1) 0 (Suc j) else rt_loc (mp s) b (w + 1) (Suc j)"
  using next_word_at [OF assms(1,2), of True] assms(3)
  by (auto simp: rt_next_word_def rt_bind_def rt_return_def split: if_splits prod.splits sum.splits)

lemma modify_next_ok:
  assumes inv: "modify_inv s v A i b (w + 1) fw st" and loc: "rt_loc (mp s) b w j"
    and need: "need \<Longrightarrow> Suc j < rt_nwords (mp s)"
  shows "\<exists>b' w' fw' st'. rt_modify_next need b w fw st = (Inr (b', w', fw'), st') \<and>
     modify_inv s v A i b' w' fw' st' \<and> (need \<longrightarrow> rt_loc (mp s) b' w' (Suc j)) \<and> (\<not> need \<longrightarrow> w' = w + 1)"
proof -
  have m: "mp st = mp s" and wf: "rt_wf st" using inv by (auto simp: modify_inv_def rt_frame_mp)
  show ?thesis
  proof (cases "w + 1 = m_blockwsize (mp s) \<and> need")
    case True
    with rt_loc_next [OF wf, of b w j] loc need m have loc': "rt_loc (mp s) (b + 1) 0 (Suc j)" by simp
    from modify_inv_log [OF inv] obtain l where
      l: "xfs_trans_log_rtbitmap fw (w + 1) st = (Inr (), st\<lparr>tp_log := tp_log s @ l\<rparr>)"
        "\<And>x. A \<le> x \<Longrightarrow> x < A + i \<Longrightarrow> logged (mp s) l (x div 32)" by blast
    let ?st = "rt_at (st\<lparr>tp_log := tp_log s @ l\<rparr>) (b + 1)"
    have "xfs_rtbitmap_read_buf (b + 1) (st\<lparr>tp_log := tp_log s @ l\<rparr>) = (Inr (), ?st)"
      using loc' wf m by (intro read_buf_at) (simp_all add: rt_loc_def)
    with True l(1) m have "rt_modify_next need b w fw st = (Inr (b + 1, 0, 0), ?st)"
      by (simp add: rt_modify_next_def rt_bind_def rt_return_def)
    moreover have "modify_inv s v A i (b + 1) 0 0 ?st"
      using inv l(2) by (auto simp: modify_inv_def rt_at_log rt_frame_def)
    ultimately show ?thesis using loc' True by blast
  next
    case False
    then have "rt_modify_next need b w fw st = (Inr (b, w + 1, fw), st)" by (auto simp: rt_modify_next_def m)
    moreover have "need \<longrightarrow> rt_loc (mp s) b (w + 1) (Suc j)"
      using rt_loc_next [OF wf, of b w j] loc need m False by (auto split: if_splits)
    ultimately show ?thesis using inv by blast
  qed
qed

text \<open>One word: from offset \<open>i\<close>, bits \<open>lo\<close> to below \<open>hi\<close> of word \<open>j\<close> get the value.\<close>

lemma modify_set_ok:
  assumes inv: "modify_inv s v A i b w fw st" and loc: "rt_loc (mp s) b w j"
    and pos: "A + i = 32 * j + lo" and lohi: "lo \<le> hi" "hi \<le> 32"
    and x: "\<And>k. k < 32 \<Longrightarrow> bit x k = (if lo \<le> k \<and> k < hi then v else bit (rt_word st j) k)"
  shows "xfs_rtbitmap_setword w x st = (Inr (), rt_upd st j x) \<and>
     modify_inv s v A (i + (hi - lo)) b (w + 1) fw (rt_upd st j x)"
proof -
  have m: "mp st = mp s" and wf: "rt_wf st" and bp: "rbmbp st = Some b" and fw: "unat fw \<le> unat w"
    using inv by (auto simp: modify_inv_def rt_frame_mp)
  have j: "j < rt_nwords (mp st)" using rt_loc_lt [OF loc] m by simp
  have free: "rt_free (rt_upd st j x) y = (if A \<le> y \<and> y < A + (i + (hi - lo)) then v else rt_free s y)" for y
    using inv pos lohi unfolding modify_inv_def by (auto simp: rt_free_upd [OF wf j x lohi(2)])
  from inv obtain l where l: "tp_log st = tp_log s @ l"
    "\<And>x. A \<le> x \<Longrightarrow> x < A + i \<Longrightarrow> logged (mp s) l (x div 32) \<or> log_pending (mp s) b fw w (x div 32)"
    by (auto simp: modify_inv_def)
  have w1: "unat (w + 1) = unat w + 1"
    using loc wf m by (subst unat_add_small) (auto simp: rt_loc_def rt_wf_def rt_geom_ok_def)
  have "logged (mp s) l (y div 32) \<or> log_pending (mp s) b fw (w + 1) (y div 32)"
    if y: "A \<le> y" "y < A + (i + (hi - lo))" for y
  proof (cases "y < A + i")
    case True
    with l(2) [OF y(1)] w1 show ?thesis by (auto simp: log_pending_def)
  next
    case False
    with y(2) pos lohi have "y div 32 = j" by (intro div_nat_eqI) auto
    with rt_loc_div [OF loc] fw w1 show ?thesis by (simp add: log_pending_def)
  qed
  with free l(1) inv rt_upd_wf [OF wf j] have "modify_inv s v A (i + (hi - lo)) b (w + 1) fw (rt_upd st j x)"
    by (auto simp: modify_inv_def rt_frame_def w1)
  with setword_at [OF wf _ bp] loc m show ?thesis by simp
qed

section \<open>The whole routine\<close>

lemma modify_inv_facts:
  assumes "modify_inv s v A i b w fw st"
  shows "mp st = mp s" "rt_wf st" "rbmbp st = Some b" "st = rt_at st b"
  using assms rt_at_self [of st b] by (auto simp: modify_inv_def rt_frame_mp)

lemma bit_all_val: "k < 32 \<Longrightarrow> bit (of_int (- (if v then 1 else 0)) :: u32) k = v"
  by (simp only: want_of_val) (simp add: want_word_def)

lemma rt_modify_words_ok:
  assumes A: "A + unat len \<le> 32 * rt_nwords (mp s)"
    and "modify_inv s v A (unat i) b w fw st" and "scan_pos s A (unat len) (unat i) b w"
  shows "\<exists>i' b' w' fw' st'.
     rt_modify_words (- (if v then 1 else 0)) len i b w fw st = (Inr (i', b', w', fw'), st') \<and>
     modify_inv s v A (unat i') b' w' fw' st' \<and> scan_pos s A (unat len) (unat i') b' w' \<and>
     unat len < unat i' + 32"
  using assms(2,3)
proof (induction "unat (len - i)" arbitrary: i b w fw st rule: less_induct)
  case less
  let ?val = "- (if v then 1 else 0) :: int"
  have pos: "unat i \<le> unat len" using less.prems by (simp add: scan_pos_def)
  then have sub: "unat (len - i) = unat len - unat i" by (simp add: unat_sub_le word_le_nat_alt)
  show ?case
  proof (cases "32 \<le> len - i")
    case False
    then have "rt_modify_words ?val len i b w fw st = (Inr (i, b, w, fw), st)" by simp
    with False pos sub less.prems show ?thesis by (auto simp: word_le_nat_alt)
  next
    case True
    then have i32: "unat i + 32 \<le> unat len" using pos sub by (simp add: word_le_nat_alt)
    define j where "j = (A + unat i) div 32"
    have j: "A + unat i = 32 * j" "rt_loc (mp s) b w j"
      using less.prems i32 by (auto simp: scan_pos_def j_def)
    have i': "unat (i + 32) = unat i + 32"
      using i32 u32_unat_bound [of len] by (subst unat_add_small) simp_all
    from modify_set_ok [OF less.prems(1) j(2), of 0 32 "of_int ?val"] j(1)
    have set: "xfs_rtbitmap_setword w (of_int ?val) st = (Inr (), rt_upd st j (of_int ?val))"
      and inv: "modify_inv s v A (unat (i + 32)) b (w + 1) fw (rt_upd st j (of_int ?val))"
      by (simp_all add: bit_all_val i' del: of_int_minus)
    have need: "i + 32 < len \<Longrightarrow> Suc j < rt_nwords (mp s)"
      using A j(1) i' by (simp add: word_less_nat_alt)
    from modify_next_ok [OF inv j(2) need] obtain b' w' fw' st' where
      n: "rt_modify_next (i + 32 < len) b w fw (rt_upd st j (of_int ?val)) = (Inr (b', w', fw'), st')"
        "modify_inv s v A (unat (i + 32)) b' w' fw' st'" "i + 32 < len \<longrightarrow> rt_loc (mp s) b' w' (Suc j)" by blast
    have "rt_modify_words ?val len i b w fw st = rt_modify_words ?val len (i + 32) b' w' fw' st'"
      by (subst rt_modify_words.simps) (simp add: True set n(1) del: of_int_minus rt_modify_words.simps)
    moreover have "scan_pos s A (unat len) (unat (i + 32)) b' w'"
      using n(3) j(1) i' i32 by (auto simp: scan_pos_def word_less_nat_alt add.assoc [symmetric])
    ultimately show ?thesis
      using less.hyps [OF minus_32_decreases(2) [OF True] n(2)] by simp
  qed
qed

text \<open>A masked update of one word, as in the first and the last part.\<close>

lemma rt_modify_word_ok:
  assumes inv: "modify_inv s v A i b w fw st" and loc: "rt_loc (mp s) b w j"
    and pos: "A + i = 32 * j + lo" and lohi: "lo \<le> hi" "hi \<le> 32"
    and msk: "\<And>k. bit msk k \<longleftrightarrow> lo \<le> k \<and> k < hi \<and> k < 32"
  shows "\<exists>st'. rt_modify_word (- (if v then 1 else 0)) msk w st = (Inr (), st') \<and>
     modify_inv s v A (i + (hi - lo)) b (w + 1) fw st'"
proof -
  let ?x = "if v then rt_word st j OR msk else rt_word st j AND NOT msk"
  note f = modify_inv_facts [OF inv]
  have "xfs_rtbitmap_getword w st = (Inr (rt_word st j), st)"
    using getword_at [OF f(2), of b w j] loc f(1,4) by metis
  then have "rt_modify_word (- (if v then 1 else 0)) msk w st = xfs_rtbitmap_setword w ?x st"
    by (simp add: rt_modify_word_def rt_bind_def)
  moreover have "bit ?x k = (if lo \<le> k \<and> k < hi then v else bit (rt_word st j) k)" if "k < 32" for k
    using that msk [of k] by (auto simp: bit_simps)
  ultimately show ?thesis using modify_set_ok [OF inv loc pos lohi, of ?x] by metis
qed

definition modified :: "xfs_rtalloc_args \<Rightarrow> bool \<Rightarrow> nat \<Rightarrow> nat \<Rightarrow> xfs_rtalloc_args \<Rightarrow> bool" where
  "modified s v lo hi st \<longleftrightarrow>
     rt_wf st \<and> rt_frame s st \<and> rbmbp st \<noteq> None \<and>
     (\<forall>x. rt_free st x = (if lo \<le> x \<and> x < hi then v else rt_free s x)) \<and>
     (\<exists>l. tp_log st = tp_log s @ l \<and> (\<forall>x. lo \<le> x \<and> x < hi \<longrightarrow> logged (mp s) l (x div 32)))"

text \<open>The final part: the last partial word, then the log of the words of the last block.\<close>

lemma rt_modify_tail_ok:
  assumes inv: "modify_inv s v A (unat i) b w fw st" and pos: "scan_pos s A (unat len) (unat i) b w"
    and i: "unat (len :: u32) < unat (i :: u32) + 32"
  shows "\<exists>st'. rt_bind
       (if len - i \<noteq> 0 then
          rt_bind (rt_modify_word (- (if v then 1 else 0)) (push_bit (unat (len - i)) 1 - 1) w)
            (\<lambda>_. rt_return (w + 1))
        else rt_return w)
       (\<lambda>word. if word > fw then xfs_trans_log_rtbitmap fw word else rt_return ()) st = (Inr (), st') \<and>
     modified s v A (A + unat len) st'"
proof -
  have fin: "\<exists>st'. (if w' > fw then xfs_trans_log_rtbitmap fw w' else rt_return ()) st1 = (Inr (), st') \<and>
      modified s v A (A + unat len) st'" if inv1: "modify_inv s v A (unat len) b w' fw st1" for w' st1
  proof (cases "w' > fw")
    case True
    with modify_inv_log [OF inv1] inv1 show ?thesis
      by (fastforce simp: modified_def modify_inv_def rt_frame_def)
  next
    case False
    then have "\<not> log_pending (mp s) b fw w' j" for j by (auto simp: log_pending_def word_less_nat_alt)
    with False inv1 show ?thesis by (auto simp: modified_def modify_inv_def rt_return_def)
  qed
  show ?thesis
  proof (cases "len - i = 0")
    case True
    with fin [of w st] inv show ?thesis by (simp add: rt_bind_def rt_return_def)
  next
    case False
    have le: "unat i \<le> unat len" using pos by (simp add: scan_pos_def)
    then have sub: "unat (len - i) = unat len - unat i" by (simp add: unat_sub_le word_le_nat_alt)
    have "len \<noteq> i" using False by auto
    then have "unat len \<noteq> unat i" by (simp add: u32_eq_iff_unat)
    with le have lt: "unat i < unat len" by simp
    define j where "j = (A + unat i) div 32"
    have j: "A + unat i = 32 * j + 0" "rt_loc (mp s) b w j" using pos lt by (auto simp: scan_pos_def j_def)
    have hi: "unat len - unat i \<le> 32" using i by simp
    have msk: "bit (push_bit (unat (len - i)) 1 - 1 :: u32) k \<longleftrightarrow> 0 \<le> k \<and> k < unat len - unat i \<and> k < 32" for k
      using bit_mask_shift [of 0 "unat len - unat i" k, where 'a = 32] by (simp add: sub)
    from rt_modify_word_ok [OF inv j(2,1) _ hi msk] le obtain st1 where
      "rt_modify_word (- (if v then 1 else 0)) (push_bit (unat (len - i)) 1 - 1) w st = (Inr (), st1)"
      "modify_inv s v A (unat len) b (w + 1) fw st1" by auto
    with fin [of "w + 1" st1] False show ?thesis by (simp add: rt_bind_def rt_return_def)
  qed
qed

lemma unat_sub_of_nat_32:
  assumes "b \<le> unat x"
  shows "unat (x - of_nat b :: u32) = unat x - b"
proof -
  have "unat (of_nat b :: u32) = b" using assms u32_unat_bound [of x] by (intro unat_of_nat_32) simp
  with assms show ?thesis by (subst unat_sub_le) (simp_all add: word_le_nat_alt)
qed

lemma rt_modify_head_ok:
  assumes wf: "rt_wf s" and A: "A + unat len \<le> 32 * rt_nwords (mp s)" and "unat (len :: u32) < 2 ^ 32 - 32"
    and loc: "rt_loc (mp s) blk w (A div 32)" and b: "b = A mod 32"
  shows "\<exists>i b' w' fw st. (if b \<noteq> 0 then
          let lastbit = min (of_nat b + len) 32;
              mask = push_bit b (push_bit (unat lastbit - b) 1 - 1)
          in rt_bind (rt_modify_word (- (if v then 1 else 0)) mask w) (\<lambda>_.
               let i = lastbit - of_nat b
               in rt_bind (rt_modify_next (i < len) blk w w)
                    (\<lambda>(block, word, firstword). rt_return (i, block, word, firstword)))
        else rt_return (0, blk, w, w)) (rt_at s blk) = (Inr (i, b', w', fw), st) \<and>
     modify_inv s v A (unat i) b' w' fw st \<and> scan_pos s A (unat len) (unat i) b' w'"
proof -
  have inv: "modify_inv s v A 0 blk w w (rt_at s blk)"
  proof -
    have "tp_log (rt_at s blk) = tp_log s @ []" by (simp add: rt_at_def)
    with wf show ?thesis unfolding modify_inv_def rt_frame_def by fastforce
  qed
  show ?thesis
  proof (cases "b = 0")
    case True
    with inv loc b show ?thesis by (auto simp: rt_return_def scan_pos_def)
  next
    case False
    let ?lb = "min (of_nat b + len) 32"
    define j where "j = A div 32"
    have Aj: "A + 0 = 32 * j + b" and b32: "b < 32" using b by (simp_all add: j_def)
    have lb: "unat ?lb = min (b + unat len) 32"
      using unat_lastbit_32 [of b len] b32 assms(3) by simp
    have lb': "b \<le> unat ?lb" "unat ?lb \<le> 32" using lb b32 by auto
    have msk: "bit (push_bit b (push_bit (unat ?lb - b) 1 - 1) :: u32) k \<longleftrightarrow> b \<le> k \<and> k < unat ?lb \<and> k < 32" for k
      using lb'(1) by (auto simp only: bit_mask_shift) auto
    have i: "unat (?lb - of_nat b) = unat ?lb - b"
      by (rule unat_sub_of_nat_32 [OF lb'(1)])
    from rt_modify_word_ok [OF inv loc [folded j_def] Aj lb' msk] obtain st1 where
      st1: "rt_modify_word (- (if v then 1 else 0)) (push_bit b (push_bit (unat ?lb - b) 1 - 1)) w (rt_at s blk) = (Inr (), st1)"
        "modify_inv s v A (unat (?lb - of_nat b)) blk (w + 1) w st1" by (auto simp: i)
    have need: "?lb - of_nat b < len \<Longrightarrow> Suc j < rt_nwords (mp s)"
      using A Aj lb i b32 by (simp add: word_less_nat_alt min_def split: if_splits)
    from modify_next_ok [OF st1(2) loc [folded j_def] need] obtain b' w' fw' st' where
      n: "rt_modify_next (?lb - of_nat b < len) blk w w st1 = (Inr (b', w', fw'), st')"
        "modify_inv s v A (unat (?lb - of_nat b)) b' w' fw' st'"
        "?lb - of_nat b < len \<longrightarrow> rt_loc (mp s) b' w' (Suc j)" by blast
    have "scan_pos s A (unat len) (unat (?lb - of_nat b)) b' w'"
      using n(3) i Aj lb b32
      by (auto simp: scan_pos_def word_less_nat_alt min_def not_le split: if_splits)
    moreover note st1(1) n(1,2)
    ultimately show ?thesis using False
      by (simp only: Let_def rt_bind_def rt_return_def prod.case sum.case if_True not_False_eq_True)
         (intro exI conjI, rule refl, assumption+)
  qed
qed

lemma rtmodify_range_modified:
  assumes wf: "rt_wf s" and st: "unat start < 32 * rt_nwords (mp s)"
    and rng: "unat start + unat len \<le> 32 * rt_nwords (mp s)" and "unat len < 2 ^ 32 - 32"
  shows "\<exists>st. xfs_rtmodify_range start len (if v then 1 else 0) s = (Inr (), st) \<and>
     modified s v (unat start) (unat start + unat len) st"
proof -
  let ?blk = "xfs_rtx_to_rbmblock (mp s) start" and ?w = "xfs_rtx_to_rbmword (mp s) start"
  let ?b = "unat (start AND 31)" and ?val = "- (if v then 1 else 0) :: int"
  note loc = rt_start_loc [OF wf st]
  have b: "?b = unat start mod 32" by (rule unat_and_31_64)
  note head = rt_modify_head_ok [OF wf rng assms(4) loc b, of v]
  from head obtain i b' w' fw st1 where h:
    "(if ?b \<noteq> 0 then
          let lastbit = min (of_nat ?b + len) 32;
              mask = push_bit ?b (push_bit (unat lastbit - ?b) 1 - 1)
          in rt_bind (rt_modify_word ?val mask ?w) (\<lambda>_.
               let i = lastbit - of_nat ?b
               in rt_bind (rt_modify_next (i < len) ?blk ?w ?w)
                    (\<lambda>(block, word, firstword). rt_return (i, block, word, firstword)))
        else rt_return (0, ?blk, ?w, ?w)) (rt_at s ?blk) = (Inr (i, b', w', fw), st1)"
    "modify_inv s v (unat start) (unat i) b' w' fw st1" "scan_pos s (unat start) (unat len) (unat i) b' w'"
    by blast
  from rt_modify_words_ok [OF rng h(2,3)] obtain i2 b2 w2 fw2 st2 where m:
    "rt_modify_words ?val len i b' w' fw st1 = (Inr (i2, b2, w2, fw2), st2)"
    "modify_inv s v (unat start) (unat i2) b2 w2 fw2 st2" "scan_pos s (unat start) (unat len) (unat i2) b2 w2"
    "unat len < unat i2 + 32" by blast
  from rt_modify_tail_ok [OF m(2-4)] obtain st3 where t:
    "rt_bind
       (if len - i2 \<noteq> 0 then
          rt_bind (rt_modify_word ?val (push_bit (unat (len - i2)) 1 - 1) w2) (\<lambda>_. rt_return (w2 + 1))
        else rt_return w2)
       (\<lambda>word. if word > fw2 then xfs_trans_log_rtbitmap fw2 word else rt_return ()) st2 = (Inr (), st3)"
    "modified s v (unat start) (unat start + unat len) st3" by blast
  have "xfs_rtmodify_range start len (if v then 1 else 0) s = (Inr (), st3)"
    using h(1) m(1) t(1) unfolding xfs_rtmodify_range_def rt_bind_def Let_def
    by (simp only: rt_read_start [OF wf st] prod.case sum.case rt_at_simps)
  with t(2) show ?thesis by blast
qed

text \<open>
  C14. \<^verbatim>\<open>xfs_rtmodify_range\<close> gives exactly the extents of its range the requested value and leaves
  every other extent as it was, keeps the bitmap well formed, touches no other part of the
  state, and every bitmap word that holds an extent of the range lies inside a byte range
  it logs for the block of that word.
\<close>

theorem xfs_rtmodify_range_exact:
  assumes "rt_wf s" and "unat start < 32 * rt_nwords (mp s)"
    and "unat start + unat len \<le> 32 * rt_nwords (mp s)" and "unat len < 2 ^ 32 - 32"
  shows "\<exists>st l. xfs_rtmodify_range start len (if v then 1 else 0) s = (Inr (), st) \<and>
    rt_wf st \<and> rt_frame s st \<and>
    (\<forall>x. rt_free st x = (if unat start \<le> x \<and> x < unat start + unat len then v else rt_free s x)) \<and>
    tp_log st = tp_log s @ l \<and>
    (\<forall>x. unat start \<le> x \<and> x < unat start + unat len \<longrightarrow> logged (mp s) l (x div 32))"
  using rtmodify_range_modified [OF assms, of v] by (auto simp: modified_def)

theorem xfs_rtmodify_range_exact_witness:
  "\<exists>st. xfs_rtmodify_range 30 50 1 rt_example = (Inr (), st) \<and> rt_wf st \<and> rt_free st 41"
  using xfs_rtmodify_range_exact [of rt_example 30 50 True] rt_example_wf by auto

end
