(* ===== verification/Rt_Summary.thy ===== *)
theory Rt_Summary
  imports Rt_Modify
begin

text \<open>
  The summary file as an array of counters indexed by (log of the run length, bitmap block):
  \<^verbatim>\<open>xfs_rtmodify_summary\<close> adds to exactly one counter, and keeps the in-core cache an upper
  bound of the levels in use; \<^verbatim>\<open>xfs_rtget_summary\<close> reads the counter.
\<close>

section \<open>The counters\<close>

definition sum_word :: "xfs_rtalloc_args \<Rightarrow> nat \<Rightarrow> u32" where
  "sum_word s w =
     rt_cpu_word (mp s) (block_words (rsum_file s ! (w div rt_wsize (mp s))) ! (w mod rt_wsize (mp s)))"

definition sum_count :: "xfs_rtalloc_args \<Rightarrow> nat \<Rightarrow> nat \<Rightarrow> u32" where
  "sum_count s k bb = sum_word s (k * rt_nblocks (mp s) + bb)"

text \<open>
  \<open>levels\<close> is the number of levels the summary has room for; block and word of a counter are
  computed by shifts on file systems without realtime groups.
\<close>

definition sum_geom_ok :: "rt_mount \<Rightarrow> nat \<Rightarrow> bool" where
  "sum_geom_ok m levels \<longleftrightarrow>
     levels \<le> 64 \<and> levels * rt_nblocks m \<le> unat (m_rsumblocks m) * rt_wsize m \<and>
     levels * rt_nblocks m < 2 ^ 32 \<and> 0 < rt_nblocks m \<and>
     (if m_has_rtgroups m then True
      else 2 \<le> sb_blocklog m \<and> sb_blocklog m \<le> 16 \<and> rt_wsize m = 2 ^ (sb_blocklog m - 2) \<and>
           m_blockmask m = 2 ^ sb_blocklog m - 1)"

definition sum_wf :: "nat \<Rightarrow> xfs_rtalloc_args \<Rightarrow> bool" where
  "sum_wf levels s \<longleftrightarrow>
     rt_geom_ok (mp s) \<and> sum_geom_ok (mp s) levels \<and> unat (m_rsumblocks (mp s)) \<le> length (rsum_file s) \<and>
     list_all (rtblock_ok (mp s) (rsum_ino s)) (take (unat (m_rsumblocks (mp s))) (rsum_file s)) \<and>
     (sumbp s = None \<or> sumbp s = Some (sumoff s)) \<and>
     (case rtg_rsum_cache s of None \<Rightarrow> True | Some c \<Rightarrow> rt_nblocks (mp s) \<le> length c)"

definition cache_ok :: "nat \<Rightarrow> xfs_rtalloc_args \<Rightarrow> bool" where
  "cache_ok levels s \<longleftrightarrow>
     (case rtg_rsum_cache s of None \<Rightarrow> True
      | Some c \<Rightarrow> \<forall>k < levels. \<forall>bb < rt_nblocks (mp s). sum_count s k bb \<noteq> 0 \<longrightarrow> k < unat (c ! bb))"

section \<open>Locating a counter\<close>

lemma sum_index_lt:
  assumes "k < levels" and "bb < (n :: nat)"
  shows "k * n + bb < levels * n"
proof -
  have "k * n + bb < Suc k * n" using assms(2) by simp
  also have "\<dots> \<le> levels * n" using assms(1) by (intro mult_le_mono1) simp
  finally show ?thesis .
qed

lemma sum_index_inj:
  assumes "bb < n" and "bb' < n" and "k * n + bb = k' * n + bb'"
  shows "k = k' \<and> bb = (bb' :: nat)"
  using assms by (metis add.commute div_mult_self1 mod_mult_self1 div_less mod_less add_0 less_nat_zero_code not_gr_zero)

lemma rtsumoffs_value:
  assumes "sum_geom_ok m levels" and "k < levels" and "unat bb < rt_nblocks m"
  shows "unat (xfs_rtsumoffs m (int k) bb) = k * rt_nblocks m + unat bb"
proof -
  have lt: "k * rt_nblocks m + unat bb < 2 ^ 32"
    using sum_index_lt [OF assms(2,3)] assms(1) by (simp add: sum_geom_ok_def)
  have k: "unat (of_nat k :: u32) = k" using assms(1,2) by (intro unat_of_nat_32) (simp add: sum_geom_ok_def)
  have "unat (of_nat k * sb_rbmblocks m) = k * rt_nblocks m"
    using lt k by (simp add: unat_word_ariths rt_nblocks_def)
  then have "unat (ucast (of_nat k * sb_rbmblocks m) + bb) = k * rt_nblocks m + unat bb"
    using lt by (subst unat_add_small) simp_all
  with lt show ?thesis by (simp add: xfs_rtsumoffs_def unat_ucast_64_32)
qed

lemma rtsumoffs_block:
  assumes "sum_geom_ok m levels" and "rt_geom_ok m"
  shows "unat (xfs_rtsumoffs_to_block m so) = unat so div rt_wsize m"
proof (cases "m_has_rtgroups m")
  case True
  then show ?thesis by (simp add: xfs_rtsumoffs_to_block_def unat_div rt_wsize_def)
next
  case False
  with assms(1) obtain j where j: "sb_blocklog m = 2 + j" "rt_wsize m = 2 ^ j"
    by (auto simp: sum_geom_ok_def le_iff_add)
  have "unat (ucast so * 4 :: u64) = unat so * 4"
    using u32_unat_bound [of so] by (simp add: unat_word_ariths)
  then have "unat (xfs_rtsumoffs_to_block m so) = unat so * 4 div 2 ^ sb_blocklog m"
    using False by (simp only: xfs_rtsumoffs_to_block_def if_False unat_drop_bit)
  also have "\<dots> = unat so div 2 ^ j" by (simp add: j(1) power_add div_mult2_eq)
  finally show ?thesis by (simp add: j(2))
qed

lemma rtsumoffs_infoword:
  assumes "sum_geom_ok m levels" and "rt_geom_ok m"
  shows "unat (xfs_rtsumoffs_to_infoword m so) = unat so mod rt_wsize m"
proof (cases "m_has_rtgroups m")
  case True
  then show ?thesis by (simp add: xfs_rtsumoffs_to_infoword_def unat_mod rt_wsize_def)
next
  case False
  define j where "j = sb_blocklog m - 2"
  with False assms(1) have j: "sb_blocklog m = 2 + j" "j \<le> 14" "rt_wsize m = 2 ^ j"
    "m_blockmask m = mask (sb_blocklog m)"
    by (auto simp: sum_geom_ok_def exp_minus_1_mask)
  have "drop_bit 2 (m_blockmask m) = mask j"
    using j(2) unfolding j(4) j(1) by (intro bit_word_eqI) (auto simp: bit_simps)
  then have "xfs_rtsumoffs_to_infoword m so = take_bit j so"
    using False by (simp add: xfs_rtsumoffs_to_infoword_def Let_def take_bit_eq_mask)
  then show ?thesis by (simp only: unsigned_take_bit_eq take_bit_eq_mod [where 'a = nat] j(3))
qed

section \<open>Reading and adding\<close>

text \<open>The summary buffer holds block \<open>b\<close>; counter \<open>j\<close> is word \<open>w\<close> of it.\<close>

definition sum_at :: "xfs_rtalloc_args \<Rightarrow> u64 \<Rightarrow> xfs_rtalloc_args" where
  "sum_at s b = s\<lparr>sumbp := Some b, sumoff := b\<rparr>"

lemma sum_at_simps [simp]:
  "mp (sum_at s b) = mp s" "rsum_file (sum_at s b) = rsum_file s" "sumbp (sum_at s b) = Some b"
  "sum_word (sum_at s b) = sum_word s" "rtg_rsum_cache (sum_at s b) = rtg_rsum_cache s" "tp_log (sum_at s b) = tp_log s"
  by (simp_all add: sum_at_def sum_word_def fun_eq_iff)

lemma sum_wf_block:
  assumes "sum_wf levels s" and "i < unat (m_rsumblocks (mp s))"
  shows "\<exists>blk. rsum_file s ! i = Rt_buf blk \<and> length (rt_words blk) = rt_wsize (mp s) \<and>
    (m_has_rtgroups (mp s) \<longrightarrow> rt_owner blk = cpu_to_be64 (rsum_ino s)) \<and> i < length (rsum_file s)"
proof -
  from assms have i: "i < length (rsum_file s)" by (simp add: sum_wf_def)
  with assms have "rtblock_ok (mp s) (rsum_ino s) (rsum_file s ! i)"
    by (auto simp: sum_wf_def list_all_length)
  then show ?thesis using i by (auto simp: rtblock_ok_def split: rtfile_block.splits)
qed

lemma sum_read_buf_at:
  assumes "sum_wf levels s" and "unat b < unat (m_rsumblocks (mp s))"
  shows "xfs_rtsummary_read_buf b s = (Inr (), sum_at s b)"
proof -
  from sum_wf_block [OF assms] obtain blk where "rsum_file s ! unat b = Rt_buf blk"
    "m_has_rtgroups (mp s) \<longrightarrow> rt_owner blk = cpu_to_be64 (rsum_ino s)" "unat b < length (rsum_file s)" by blast
  moreover have "\<not> m_rsumblocks (mp s) \<le> b" using assms(2) by (simp add: word_le_nat_alt)
  moreover have "sumbp s = None \<or> sumbp s = Some (sumoff s)" using assms(1) by (simp add: sum_wf_def)
  ultimately show ?thesis
    by (auto simp: xfs_rtsummary_read_buf_def xfs_rtbuf_get_def rtbuf_fetch_def rtfile_lookup_def sum_at_def)
qed

lemma sum_counter_loc:
  assumes "sum_wf levels s" and "k < levels" and "unat bb < rt_nblocks (mp s)"
  defines "so \<equiv> xfs_rtsumoffs (mp s) (int k) bb"
  shows "unat (xfs_rtsumoffs_to_block (mp s) so) = (k * rt_nblocks (mp s) + unat bb) div rt_wsize (mp s)"
    and "unat (xfs_rtsumoffs_to_infoword (mp s) so) = (k * rt_nblocks (mp s) + unat bb) mod rt_wsize (mp s)"
    and "unat (xfs_rtsumoffs_to_block (mp s) so) < unat (m_rsumblocks (mp s))"
    and "unat (xfs_rtsumoffs_to_infoword (mp s) so) < rt_wsize (mp s)"
proof -
  have g: "sum_geom_ok (mp s) levels" "rt_geom_ok (mp s)" using assms(1) by (simp_all add: sum_wf_def)
  note v = rtsumoffs_value [OF g(1) assms(2,3), folded so_def]
  show blk: "unat (xfs_rtsumoffs_to_block (mp s) so) = (k * rt_nblocks (mp s) + unat bb) div rt_wsize (mp s)"
    using rtsumoffs_block [OF g, of so] v by simp
  show info: "unat (xfs_rtsumoffs_to_infoword (mp s) so) = (k * rt_nblocks (mp s) + unat bb) mod rt_wsize (mp s)"
    using rtsumoffs_infoword [OF g, of so] v by simp
  have "k * rt_nblocks (mp s) + unat bb < unat (m_rsumblocks (mp s)) * rt_wsize (mp s)"
    using sum_index_lt [OF assms(2,3)] g(1) by (simp add: sum_geom_ok_def)
  with blk show "unat (xfs_rtsumoffs_to_block (mp s) so) < unat (m_rsumblocks (mp s))"
    by (simp add: less_mult_imp_div_less)
  from info g(2) show "unat (xfs_rtsumoffs_to_infoword (mp s) so) < rt_wsize (mp s)" by (simp add: rt_geom_ok_def)
qed

lemma suminfo_add_at:
  assumes wf: "sum_wf levels s" and b: "unat b < unat (m_rsumblocks (mp s))" and w: "unat w < rt_wsize (mp s)"
  defines "j \<equiv> unat b * rt_wsize (mp s) + unat w"
  shows "\<exists>f. xfs_suminfo_add w delta (sum_at s b) = (Inr (sum_word s j + of_int delta), (sum_at s b)\<lparr>rsum_file := f\<rparr>) \<and>
     length f = length (rsum_file s) \<and>
     list_all (rtblock_ok (mp s) (rsum_ino s)) (take (unat (m_rsumblocks (mp s))) f) \<and>
     (\<forall>i. sum_word (s\<lparr>rsum_file := f\<rparr>) i = (if i = j then sum_word s j + of_int delta else sum_word s i))"
proof -
  from sum_wf_block [OF wf b] obtain blk where blk: "rsum_file s ! unat b = Rt_buf blk"
    "length (rt_words blk) = rt_wsize (mp s)" "m_has_rtgroups (mp s) \<longrightarrow> rt_owner blk = cpu_to_be64 (rsum_ino s)"
    "unat b < length (rsum_file s)" by blast
  let ?old = "rt_words blk ! unat w"
  let ?new = "if m_has_rtgroups (mp s) then be32_add_cpu ?old (of_int delta) else ?old + of_int delta"
  let ?f = "(rsum_file s)[unat b := Rt_buf (blk\<lparr>rt_words := (rt_words blk)[unat w := ?new]\<rparr>)]"
  have j: "j div rt_wsize (mp s) = unat b" "j mod rt_wsize (mp s) = unat w" using w by (simp_all add: j_def)
  have val: "rt_cpu_word (mp s) ?new = rt_cpu_word (mp s) ?old + of_int delta"
    by (simp add: rt_cpu_word_def be32_add_cpu_def disk_simps)
  have "xfs_suminfo_add w delta (sum_at s b) = (Inr (sum_word s j + of_int delta), (sum_at s b)\<lparr>rsum_file := ?f\<rparr>)"
    using blk w j val
    by (simp add: xfs_suminfo_add_def held_words_def rtfile_lookup_def store_word_def sum_word_def block_words_def
        rt_cpu_word_def Let_def)
  moreover have "list_all (rtblock_ok (mp s) (rsum_ino s)) (take (unat (m_rsumblocks (mp s))) ?f)"
    using wf blk by (auto simp: sum_wf_def list_all_length rtblock_ok_def nth_list_update)
  moreover have "sum_word (s\<lparr>rsum_file := ?f\<rparr>) i = (if i = j then sum_word s j + of_int delta else sum_word s i)" for i
  proof (cases "i div rt_wsize (mp s) = unat b")
    case True
    then have "i mod rt_wsize (mp s) = unat w \<longleftrightarrow> i = j" using j by (metis div_mult_mod_eq)
    with True blk j w val show ?thesis by (auto simp: sum_word_def block_words_def nth_list_update)
  next
    case False
    with blk j show ?thesis by (auto simp: sum_word_def nth_list_update)
  qed
  ultimately show ?thesis by (intro exI [of _ ?f]) simp
qed

section \<open>The cache\<close>

lemma rsum_cache_update_ok:
  assumes "unat bb < length c" and "k < 64"
  shows "\<exists>c'. rsum_cache_update (int k) bb val c = Some c' \<and> length c' = length c \<and>
     (\<forall>i. i \<noteq> unat bb \<longrightarrow> c' ! i = c ! i) \<and>
     unat (c' ! unat bb) = (if val = 0 then (if Suc k = unat (c ! unat bb) then k else unat (c ! unat bb))
                            else max (Suc k) (unat (c ! unat bb)))"
proof -
  have k: "unat (of_nat k :: u8) = k" "unat (of_nat (Suc k) :: u8) = Suc k"
    using assms(2) by (simp_all only: unat_of_nat) simp_all
  have k': "unat (1 + of_nat k :: u8) = Suc k" using k(2) by simp
  have "int k + 1 = int (unat (c ! unat bb)) \<longleftrightarrow> Suc k = unat (c ! unat bb)" by linarith
  with assms(1) k k' show ?thesis
    by (auto simp: rsum_cache_update_def Let_def nth_list_update add.commute [of _ 1] max_def not_le
        simp del: of_nat_unat)
qed

text \<open>Everything but the summary blocks, its cached buffer, the cache and the log is as before.\<close>

definition sum_blank :: "xfs_rtalloc_args \<Rightarrow> xfs_rtalloc_args" where
  "sum_blank s = s\<lparr>rsum_file := [], sumbp := None, sumoff := 0, rtg_rsum_cache := None, tp_log := []\<rparr>"

lemma sum_blank_eqD:
  assumes "sum_blank st = sum_blank s"
  shows "mp st = mp s" "rbm_file st = rbm_file s" "rsum_ino st = rsum_ino s" "rbmbp st = rbmbp s" "rbmoff st = rbmoff s"
    "rbm_ino st = rbm_ino s" "rtg_extents st = rtg_extents s" "rt_free st = rt_free s" "rt_wf st = rt_wf s"
proof -
  have f: "mp (sum_blank x) = mp x" "rbm_file (sum_blank x) = rbm_file x" "rsum_ino (sum_blank x) = rsum_ino x"
    "rbmbp (sum_blank x) = rbmbp x" "rbmoff (sum_blank x) = rbmoff x" "rbm_ino (sum_blank x) = rbm_ino x"
    "rtg_extents (sum_blank x) = rtg_extents x" for x by (simp_all add: sum_blank_def)
  show eq: "mp st = mp s" "rbm_file st = rbm_file s" "rsum_ino st = rsum_ino s" "rbmbp st = rbmbp s"
    "rbmoff st = rbmoff s" "rbm_ino st = rbm_ino s" "rtg_extents st = rtg_extents s"
    using assms f by metis+
  then show "rt_free st = rt_free s" "rt_wf st = rt_wf s"
    by (simp_all add: rt_free_def rt_word_def rt_wf_def fun_eq_iff)
qed

section \<open>Updating one counter\<close>

definition sum_added :: "nat \<Rightarrow> xfs_rtalloc_args \<Rightarrow> nat \<Rightarrow> nat \<Rightarrow> int \<Rightarrow> xfs_rtalloc_args \<Rightarrow> bool" where
  "sum_added levels s k bb delta st \<longleftrightarrow>
     sum_wf levels st \<and> sum_blank st = sum_blank s \<and> (\<exists>l. tp_log st = tp_log s @ l) \<and>
     (\<forall>k' bb'. bb' < rt_nblocks (mp s) \<longrightarrow>
        sum_count st k' bb' = sum_count s k' bb' + (if k' = k \<and> bb' = bb then of_int delta else 0)) \<and>
     (cache_ok levels s \<longrightarrow> cache_ok levels st)"

text \<open>The cache after a counter became \<open>val\<close>.\<close>

lemma cache_ok_update:
  assumes "cache_ok levels s" and cache: "rtg_rsum_cache s = Some c" and "unat bb < length c" and "k < 64"
    and m: "mp st = mp s" and st: "rsum_cache_update (int k) bb (sum_count st k (unat bb)) c = rtg_rsum_cache st"
    and cnt: "\<And>k' bb'. bb' < rt_nblocks (mp s) \<Longrightarrow> \<not> (k' = k \<and> bb' = unat bb) \<Longrightarrow>
      sum_count st k' bb' = sum_count s k' bb'"
  shows "cache_ok levels st"
proof -
  from rsum_cache_update_ok [OF assms(3,4), of "sum_count st k (unat bb)"] st obtain c' where
    c': "rtg_rsum_cache st = Some c'" "\<forall>i. i \<noteq> unat bb \<longrightarrow> c' ! i = c ! i"
      "unat (c' ! unat bb) = (if sum_count st k (unat bb) = 0
         then (if Suc k = unat (c ! unat bb) then k else unat (c ! unat bb)) else max (Suc k) (unat (c ! unat bb)))"
    by auto
  have old: "k' < unat (c ! bb')" if "k' < levels" "bb' < rt_nblocks (mp s)" "sum_count s k' bb' \<noteq> 0" for k' bb'
    using assms(1) cache that by (auto simp: cache_ok_def)
  have "k' < unat (c' ! bb')"
    if "k' < levels" "bb' < rt_nblocks (mp s)" "sum_count st k' bb' \<noteq> 0" for k' bb'
  proof (cases "bb' = unat bb")
    case False
    with that old [of k' bb'] cnt [of bb' k'] c'(2) show ?thesis by simp
  next
    case True
    show ?thesis
    proof (cases "k' = k")
      case same: True
      with True that c'(3) show ?thesis by simp
    next
      case False
      with that cnt [of bb' k'] old [of k' bb'] have "k' < unat (c ! bb')" by simp
      with False True c'(3) show ?thesis by (auto simp: max_def)
    qed
  qed
  with c'(1) m show ?thesis by (simp add: cache_ok_def)
qed

lemma rtmodify_summary_added:
  assumes wf: "sum_wf levels s" and k: "k < levels" and bb: "unat bb < rt_nblocks (mp s)"
  shows "\<exists>st. xfs_rtmodify_summary (int k) bb delta s = (Inr (), st) \<and> sum_added levels s k (unat bb) delta st"
proof -
  let ?so = "xfs_rtsumoffs (mp s) (int k) bb"
  let ?b = "xfs_rtsumoffs_to_block (mp s) ?so" and ?w = "xfs_rtsumoffs_to_infoword (mp s) ?so"
  let ?j = "k * rt_nblocks (mp s) + unat bb"
  note loc = sum_counter_loc [OF wf k bb]
  have j: "unat ?b * rt_wsize (mp s) + unat ?w = ?j" using loc(1,2) by simp
  from suminfo_add_at [OF wf loc(3,4), of delta] obtain f where
    add: "xfs_suminfo_add ?w delta (sum_at s ?b) = (Inr (sum_word s ?j + of_int delta), (sum_at s ?b)\<lparr>rsum_file := f\<rparr>)"
    and f: "length f = length (rsum_file s)"
      "list_all (rtblock_ok (mp s) (rsum_ino s)) (take (unat (m_rsumblocks (mp s))) f)"
      "\<And>i. sum_word (s\<lparr>rsum_file := f\<rparr>) i = (if i = ?j then sum_word s ?j + of_int delta else sum_word s i)"
    unfolding j by blast
  let ?log = "[(XFS_RTGI_SUMMARY, ?b, rt_hdr_bytes (mp s) + 4 * unat ?w, rt_hdr_bytes (mp s) + 4 * unat ?w + 4 - 1)]"
  define st where "st c = (sum_at s ?b)\<lparr>rsum_file := f, rtg_rsum_cache := c, tp_log := tp_log s @ ?log\<rparr>" for c
  have cnt: "sum_count (st c) k' bb' = sum_count s k' bb' + (if k' = k \<and> bb' = unat bb then of_int delta else 0)"
    if "bb' < rt_nblocks (mp s)" for c k' bb'
  proof -
    have "sum_word (st c) i = sum_word (s\<lparr>rsum_file := f\<rparr>) i" for i by (simp add: st_def sum_word_def sum_at_def)
    moreover have "mp (st c) = mp s" by (simp add: st_def)
    ultimately show ?thesis using f(3) sum_index_inj [OF that bb] by (auto simp: sum_count_def)
  qed
  have wf': "sum_wf levels (st c)" if "case c of None \<Rightarrow> True | Some c \<Rightarrow> rt_nblocks (mp s) \<le> length c" for c
    using wf f(1,2) that by (cases c) (simp_all add: sum_wf_def st_def sum_at_def)
  have blank: "sum_blank (st c) = sum_blank s" "tp_log (st c) = tp_log s @ ?log" for c
    by (simp_all add: st_def sum_blank_def sum_at_def)
  note run = xfs_rtmodify_summary_def Let_def rt_bind_def sum_read_buf_at [OF wf loc(3)] add xfs_trans_log_rtsummary_def
  show ?thesis
  proof (cases "rtg_rsum_cache s")
    case None
    then have "xfs_rtmodify_summary (int k) bb delta s = (Inr (), st None)"
      by (simp add: run st_def)
    with cnt wf' [of None] blank show ?thesis by (auto simp: sum_added_def cache_ok_def st_def)
  next
    case (Some c)
    with wf have len: "rt_nblocks (mp s) \<le> length c" "k < 64"
      using k by (auto simp: sum_wf_def sum_geom_ok_def)
    with bb have bbc: "unat bb < length c" by simp
    from rsum_cache_update_ok [OF bbc len(2), of "sum_word s ?j + of_int delta"] obtain c' where
      c': "rsum_cache_update (int k) bb (sum_word s ?j + of_int delta) c = Some c'" "length c' = length c" by blast
    have "xfs_rtmodify_summary (int k) bb delta s = (Inr (), st (Some c'))"
      using Some c'(1) by (simp add: run st_def)
    moreover have "sum_wf levels (st (Some c'))" using len c'(2) by (intro wf') simp
    moreover have "cache_ok levels (st (Some c'))" if "cache_ok levels s"
    proof (rule cache_ok_update [OF that Some bbc len(2)])
      show "rsum_cache_update (int k) bb (sum_count (st (Some c')) k (unat bb)) c = rtg_rsum_cache (st (Some c'))"
        using c'(1) cnt [OF bb, of "Some c'" k] by (simp add: st_def sum_count_def)
      show "mp (st (Some c')) = mp s" by (simp add: st_def)
    qed (auto simp: cnt)
    ultimately show ?thesis using cnt blank by (auto simp: sum_added_def)
  qed
qed

lemma rtget_summary_count:
  assumes wf: "sum_wf levels s" and k: "k < levels" and bb: "unat bb < rt_nblocks (mp s)"
  shows "\<exists>st. xfs_rtget_summary (int k) bb s = (Inr (sum_count s k (unat bb)), st)"
proof -
  note loc = sum_counter_loc [OF wf k bb]
  from sum_wf_block [OF wf loc(3)] loc show ?thesis
    by (auto simp: xfs_rtget_summary_def Let_def rt_bind_def sum_read_buf_at [OF wf loc(3)] xfs_suminfo_get_def
        held_words_def rtfile_lookup_def sum_count_def sum_word_def rt_cpu_word_def block_words_def)
qed

lemma rt_example_sum_wf: "sum_wf 8 rt_example"
  by (simp add: sum_wf_def sum_geom_ok_def rt_geom_ok_def rt_example_def rt_example_mount_def rt_nblocks_def
      rt_wsize_def rtblock_ok_def list_all_iff)

text \<open>
  \<^verbatim>\<open>xfs_rtmodify_summary\<close> adds \<open>delta\<close> to the counter of its level and bitmap block and to
  no other counter, changes nothing outside the summary file and its caches, and leaves the
  in-core cache an upper bound of the levels with a nonzero counter if it was one;
  \<^verbatim>\<open>xfs_rtget_summary\<close> then reads the new value.
\<close>

theorem xfs_rtmodify_summary_counter:
  assumes "sum_wf levels s" and "k < levels" and "unat bb < rt_nblocks (mp s)"
  shows "\<exists>st. xfs_rtmodify_summary (int k) bb delta s = (Inr (), st) \<and> sum_blank st = sum_blank s \<and>
    (\<forall>k' bb'. bb' < rt_nblocks (mp s) \<longrightarrow> sum_count st k' bb' =
       (if k' = k \<and> bb' = unat bb then sum_count s k' bb' + of_int delta else sum_count s k' bb')) \<and>
    (cache_ok levels s \<longrightarrow> cache_ok levels st) \<and>
    fst (xfs_rtget_summary (int k) bb st) = Inr (sum_count s k (unat bb) + of_int delta)"
proof -
  from rtmodify_summary_added [OF assms] obtain st where
    st: "xfs_rtmodify_summary (int k) bb delta s = (Inr (), st)" "sum_added levels s k (unat bb) delta st" by blast
  then have "mp st = mp s" and "sum_wf levels st"
    and "sum_count st k (unat bb) = sum_count s k (unat bb) + of_int delta"
    using assms(3) by (auto simp: sum_added_def dest: sum_blank_eqD(1))
  with rtget_summary_count [of levels st k bb] assms(2,3) st show ?thesis by (auto simp: sum_added_def)
qed

theorem xfs_rtmodify_summary_counter_witness:
  "\<exists>st. xfs_rtmodify_summary 5 1 1 rt_example = (Inr (), st) \<and>
     fst (xfs_rtget_summary 5 1 st) = Inr (sum_count rt_example 5 1 + 1)"
proof -
  have "rt_nblocks (mp rt_example) = 2" by (simp add: rt_example_def rt_example_mount_def rt_nblocks_def)
  with rt_example_sum_wf show ?thesis using xfs_rtmodify_summary_counter [of 8 rt_example 5 1 1] by auto
qed

end
