(* ===== verification/Rt_Free.thy ===== *)
theory Rt_Free
  imports Rt_Summary
begin

text \<open>
  \<^verbatim>\<open>xfs_rtfree_range\<close> keeps the summary exact: if every counter is the number of maximal free
  runs of its level that start in its bitmap block, then it still is after the range is freed,
  with the runs left and right of the range merged into one.
\<close>

section \<open>Maximal runs\<close>

definition run :: "(nat \<Rightarrow> bool) \<Rightarrow> nat \<Rightarrow> nat \<Rightarrow> nat \<Rightarrow> bool" where
  "run F n a e \<longleftrightarrow>
     a \<le> e \<and> e < n \<and> (\<forall>x. a \<le> x \<and> x \<le> e \<longrightarrow> F x) \<and> (a = 0 \<or> \<not> F (a - 1)) \<and> (Suc e = n \<or> \<not> F (Suc e))"

definition run_level :: "nat \<Rightarrow> nat \<Rightarrow> bool" where
  "run_level len k \<longleftrightarrow> 2 ^ k \<le> len \<and> len < 2 ^ Suc k"

definition runs_in :: "(nat \<Rightarrow> bool) \<Rightarrow> nat \<Rightarrow> nat \<Rightarrow> nat \<Rightarrow> nat \<Rightarrow> (nat \<times> nat) set" where
  "runs_in F n bs k bb = {(a, e). run F n a e \<and> run_level (Suc e - a) k \<and> a div bs = bb}"

lemma run_unique:
  assumes "run F n a e" and "run F n a' e'" and "a \<le> x" "x \<le> e" "a' \<le> x" "x \<le> e'"
  shows "a = a' \<and> e = e'"
proof -
  have le: "b \<le> a" if "run F n a e" "run F n b d" "a \<le> x" "x \<le> e" "b \<le> x" "x \<le> d" for a e b d
  proof (rule ccontr)
    assume "\<not> b \<le> a"
    then have "0 < b" "a \<le> b - 1" "b - 1 \<le> e" using that by auto
    with that(1,2) show False by (auto simp: run_def)
  qed
  have ge: "e \<le> d" if "run F n a e" "run F n b d" "a \<le> x" "x \<le> e" "b \<le> x" "x \<le> d" for a e b d
  proof (rule ccontr)
    assume "\<not> e \<le> d"
    then have "a \<le> Suc d" "Suc d \<le> e" using that by auto
    with that(1,2) show False by (auto simp: run_def)
  qed
  show ?thesis
    using le [OF assms(1,2)] le [OF assms(2,1)] ge [OF assms(1,2)] ge [OF assms(2,1)] assms(3-) by (simp add: le_antisym)
qed

lemma finite_runs_in: "finite (runs_in F n bs k bb)"
  by (rule finite_subset [of _ "{..<n} \<times> {..<n}"]) (auto simp: runs_in_def run_def)

text \<open>What freeing \<open>[st, en]\<close> does to the runs; \<open>pre\<close> and \<open>post\<close> are the ends of the merged run.\<close>

definition merges :: "(nat \<Rightarrow> bool) \<Rightarrow> nat \<Rightarrow> nat \<Rightarrow> nat \<Rightarrow> nat \<Rightarrow> nat \<Rightarrow> bool" where
  "merges F n st en pre post \<longleftrightarrow>
     st \<le> en \<and> en < n \<and> (\<forall>x. st \<le> x \<and> x \<le> en \<longrightarrow> \<not> F x) \<and>
     pre \<le> st \<and> (\<forall>x. pre \<le> x \<and> x < st \<longrightarrow> F x) \<and> (pre = 0 \<or> \<not> F (pre - 1)) \<and>
     en \<le> post \<and> post < n \<and> (\<forall>x. en < x \<and> x \<le> post \<longrightarrow> F x) \<and> (Suc post = n \<or> \<not> F (Suc post))"

definition freed :: "(nat \<Rightarrow> bool) \<Rightarrow> nat \<Rightarrow> nat \<Rightarrow> nat \<Rightarrow> bool" where
  "freed F st en x \<longleftrightarrow> F x \<or> st \<le> x \<and> x \<le> en"

lemma merges_runs:
  assumes "merges F n st en pre post"
  shows merged: "run (freed F st en) n pre post"
    and left: "pre < st \<Longrightarrow> run F n pre (st - 1)"
    and right: "en < post \<Longrightarrow> run F n (Suc en) post"
    and fresh: "\<not> run F n pre post"
  using assms unfolding merges_def run_def freed_def
  by (auto simp: not_less Suc_le_eq le_diff_conv)

lemma run_left_of:
  assumes m: "merges F n st en pre post" and "e < st"
  shows "run (freed F st en) n a e \<longleftrightarrow> run F n a e \<and> \<not> (pre < st \<and> a = pre \<and> e = st - 1)"
proof -
  have "run (freed F st en) n a e \<longleftrightarrow> run F n a e \<and> Suc e \<noteq> st"
    using assms by (auto simp: run_def freed_def merges_def)
  moreover have "pre < st \<and> a = pre \<and> e = st - 1" if r: "run F n a e" and "Suc e = st"
  proof -
    have "pre < st" using m r that(2) by (cases "pre = st") (auto simp: merges_def run_def)
    with run_unique [OF r left [OF m], of e] r that(2) show ?thesis by (auto simp: run_def)
  qed
  ultimately show ?thesis using assms(2) by auto
qed

lemma run_right_of:
  assumes m: "merges F n st en pre post" and "en < a" and "a \<le> e"
  shows "run (freed F st en) n a e \<longleftrightarrow> run F n a e \<and> \<not> (en < post \<and> a = Suc en \<and> e = post)"
proof -
  have "run (freed F st en) n a e \<longleftrightarrow> run F n a e \<and> a \<noteq> Suc en"
    using assms by (auto simp: run_def freed_def merges_def)
  moreover have "en < post \<and> e = post" if r: "run F n a e" and "a = Suc en"
  proof -
    have "en < post" using m r that(2) by (cases "post = en") (auto simp: merges_def run_def)
    with run_unique [OF r right [OF m], of a] r that(2) show ?thesis by (auto simp: run_def)
  qed
  ultimately show ?thesis by auto
qed

lemma run_freed_iff:
  assumes m: "merges F n st en pre post"
  shows "run (freed F st en) n a e \<longleftrightarrow>
     a = pre \<and> e = post \<or>
     run F n a e \<and> \<not> (pre < st \<and> a = pre \<and> e = st - 1) \<and> \<not> (en < post \<and> a = Suc en \<and> e = post)"
proof (cases "\<exists>x. a \<le> x \<and> x \<le> e \<and> st \<le> x \<and> x \<le> en")
  case True
  then obtain x where x: "a \<le> x" "x \<le> e" "st \<le> x" "x \<le> en" by blast
  with m have "\<not> run F n a e" by (auto simp: merges_def run_def)
  moreover have "a = pre \<and> e = post" if "run (freed F st en) n a e"
    using run_unique [OF that merged [OF m], of x] x m by (auto simp: merges_def)
  ultimately show ?thesis using merged [OF m] by blast
next
  case False
  from m have pp: "pre \<le> st" "st \<le> en" "en \<le> post" by (auto simp: merges_def)
  with False have no: "\<not> (a = pre \<and> e = post)" by auto
  show ?thesis
  proof (cases "a \<le> e")
    case True
    with False pp consider "e < st" | "en < a" by (metis not_le order_trans le_cases)
    then show ?thesis
    proof cases
      case 1
      with run_left_of [OF m 1, of a] no pp show ?thesis by auto
    next
      case 2
      with run_right_of [OF m 2 True] no pp show ?thesis by auto
    qed
  qed (use no in \<open>auto simp: run_def\<close>)
qed

lemma card_runs_freed:
  assumes m: "merges F n st en pre post"
  shows "int (card (runs_in (freed F st en) n bs k bb)) =
     int (card (runs_in F n bs k bb))
     - (if pre < st \<and> run_level (st - pre) k \<and> pre div bs = bb then 1 else 0)
     - (if en < post \<and> run_level (post - en) k \<and> Suc en div bs = bb then 1 else 0)
     + (if run_level (Suc post - pre) k \<and> pre div bs = bb then 1 else 0)"
proof -
  let ?A = "runs_in F n bs k bb" and ?A' = "runs_in (freed F st en) n bs k bb"
  let ?l = "(pre, st - 1)" and ?r = "(Suc en, post)" and ?p = "(pre, post)"
  define L where "L = (if pre < st \<and> run_level (st - pre) k \<and> pre div bs = bb then {?l} else {})"
  define R where "R = (if en < post \<and> run_level (post - en) k \<and> Suc en div bs = bb then {?r} else {})"
  define P where "P = (if run_level (Suc post - pre) k \<and> pre div bs = bb then {?p} else {})"
  have pp: "pre \<le> st" "st \<le> en" "en \<le> post" using m by (auto simp: merges_def)
  have sub: "L \<subseteq> ?A" "R \<subseteq> ?A" "L \<inter> R = {}" "P \<inter> ?A = {}"
    using left [OF m] right [OF m] fresh [OF m] pp by (auto simp: L_def R_def P_def runs_in_def)
  have "?A' = (?A - L - R) \<union> P"
    using run_freed_iff [OF m] pp by (auto simp: runs_in_def L_def R_def P_def)
  moreover have "finite L" "finite R" "finite P" by (simp_all add: L_def R_def P_def)
  moreover have "(?A - L - R) \<inter> P = {}" using sub(4) by blast
  ultimately have "card ?A' = card (?A - L - R) + card P"
    using finite_runs_in [of F n bs k bb] by (simp add: card_Un_disjoint)
  also have "?A - L - R = ?A - (L \<union> R)" by blast
  also have "card (?A - (L \<union> R)) = card ?A - card (L \<union> R)"
    using sub(1,2) \<open>finite L\<close> \<open>finite R\<close> by (intro card_Diff_subset) simp_all
  finally have "int (card ?A') = int (card ?A) - int (card L) - int (card R) + int (card P)"
    using sub \<open>finite L\<close> \<open>finite R\<close> finite_runs_in [of F n bs k bb] card_mono [of ?A "L \<union> R"]
    by (simp add: card_Un_disjoint)
  then show ?thesis by (simp add: L_def R_def P_def)
qed

section \<open>One step of the summary update\<close>

lemma run_level_unique: "run_level n k \<Longrightarrow> run_level n k' \<Longrightarrow> k = k'"
proof -
  have "k \<le> k'" if "run_level n k" "run_level n k'" for k k'
  proof -
    from that have "(2 :: nat) ^ k < 2 ^ Suc k'" by (auto simp: run_level_def)
    then have "k < Suc k'" by (simp only: power_strict_increasing_iff)
    then show ?thesis by simp
  qed
  then show "run_level n k \<Longrightarrow> run_level n k' \<Longrightarrow> k = k'" by (simp add: le_antisym)
qed

definition bmp_span :: "rt_mount \<Rightarrow> nat" where
  "bmp_span m = 32 * rt_wsize m"

definition sum_stepped :: "nat \<Rightarrow> xfs_rtalloc_args \<Rightarrow> nat \<Rightarrow> nat \<Rightarrow> int \<Rightarrow> xfs_rtalloc_args \<Rightarrow> bool" where
  "sum_stepped levels s len p d st \<longleftrightarrow>
     sum_wf levels st \<and> sum_blank st = sum_blank s \<and> (cache_ok levels s \<longrightarrow> cache_ok levels st) \<and>
     (\<forall>k bb. bb < rt_nblocks (mp s) \<longrightarrow> sum_count st k bb =
        sum_count s k bb + (if run_level len k \<and> p div bmp_span (mp s) = bb then of_int d else 0))"

lemma modify_summary_step:
  assumes wf: "sum_wf levels s" and x: "0 < unat x" "unat x < 2 ^ levels" and p: "unat p < 32 * rt_nwords (mp s)"
  shows "\<exists>st. xfs_rtmodify_summary (xfs_highbit64 x) (xfs_rtx_to_rbmblock (mp s) p) d s = (Inr (), st) \<and>
     sum_stepped levels s (unat x) (unat p) d st"
proof -
  from x(1) have "x \<noteq> 0" by auto
  note hb = xfs_highbit64_log [OF this]
  define k where "k = nat (xfs_highbit64 x)"
  have k: "xfs_highbit64 x = int k" "run_level (unat x) k" using hb by (simp_all add: k_def run_level_def)
  have "(2 :: nat) ^ k < 2 ^ levels" using k(2) x(2) unfolding run_level_def by (blast intro: le_less_trans)
  then have kl: "k < levels" by simp
  have g: "rt_geom_ok (mp s)" using wf by (simp add: sum_wf_def)
  have blk: "unat (xfs_rtx_to_rbmblock (mp s) p) = unat p div bmp_span (mp s)"
    by (simp add: rtx_to_rbmblock_div [OF g] bmp_span_def div_mult2_eq)
  moreover have "unat p div bmp_span (mp s) < rt_nblocks (mp s)"
    using p by (simp add: bmp_span_def rt_nwords_def less_mult_imp_div_less mult.assoc mult.commute [of _ "rt_nblocks _"])
  ultimately have bb: "unat (xfs_rtx_to_rbmblock (mp s) p) < rt_nblocks (mp s)" by simp
  have "run_level (unat x) k' \<longleftrightarrow> k' = k" for k' using k(2) run_level_unique by blast
  with rtmodify_summary_added [OF wf kl bb, of d] show ?thesis
    by (auto simp: k(1) sum_added_def sum_stepped_def blk)
qed

section \<open>The counters are exact\<close>

definition summary_exact :: "nat \<Rightarrow> xfs_rtalloc_args \<Rightarrow> bool" where
  "summary_exact levels s \<longleftrightarrow>
     (\<forall>k < levels. \<forall>bb < rt_nblocks (mp s). sum_count s k bb =
        of_nat (card (runs_in (rt_free s) (unat (rtg_extents s)) (bmp_span (mp s)) k bb)))"

lemma rt_frame_sum:
  assumes "rt_frame s st"
  shows "mp st = mp s" "rtg_extents st = rtg_extents s" "sum_wf levels st = sum_wf levels s"
    "sum_count st = sum_count s" "cache_ok levels st = cache_ok levels s"
proof -
  have f: "mp (rt_blank x) = mp x" "rtg_extents (rt_blank x) = rtg_extents x" "rsum_file (rt_blank x) = rsum_file x"
    "sumbp (rt_blank x) = sumbp x" "sumoff (rt_blank x) = sumoff x" "rsum_ino (rt_blank x) = rsum_ino x"
    "rtg_rsum_cache (rt_blank x) = rtg_rsum_cache x" for x by (simp_all add: rt_blank_def)
  have eq: "mp st = mp s" "rtg_extents st = rtg_extents s" "rsum_file st = rsum_file s" "sumbp st = sumbp s"
    "sumoff st = sumoff s" "rsum_ino st = rsum_ino s" "rtg_rsum_cache st = rtg_rsum_cache s"
    using assms f unfolding rt_frame_def by metis+
  then show "mp st = mp s" "rtg_extents st = rtg_extents s" by simp_all
  show "sum_wf levels st = sum_wf levels s" unfolding sum_wf_def eq by (rule refl)
  show cnt: "sum_count st = sum_count s" by (simp add: sum_count_def sum_word_def eq fun_eq_iff)
  show "cache_ok levels st = cache_ok levels s" unfolding cache_ok_def cnt eq by (rule refl)
qed

section \<open>Freeing a range\<close>

text \<open>The three updates of the counters, each with its guard.\<close>

lemma sum_stepped_facts:
  assumes "sum_stepped levels s len p d st"
  shows "sum_wf levels st" "mp st = mp s" "rt_wf st = rt_wf s" "rt_free st = rt_free s" "rtg_extents st = rtg_extents s"
  using assms by (auto simp: sum_stepped_def dest: sum_blank_eqD)

definition sum_guarded :: "nat \<Rightarrow> bool \<Rightarrow> xfs_rtalloc_args \<Rightarrow> nat \<Rightarrow> nat \<Rightarrow> int \<Rightarrow> xfs_rtalloc_args \<Rightarrow> bool" where
  "sum_guarded levels g s len p d st \<longleftrightarrow> (if g then sum_stepped levels s len p d st else st = s)"

lemma modify_summary_guarded:
  assumes "sum_wf levels s" and "g \<Longrightarrow> 0 < unat x \<and> unat x < 2 ^ levels \<and> unat p < 32 * rt_nwords (mp s)"
  shows "\<exists>st. (if g then (\<lambda>s. xfs_rtmodify_summary (xfs_highbit64 x) (xfs_rtx_to_rbmblock (mp s) p) d s)
             else rt_return ()) s = (Inr (), st) \<and> sum_guarded levels g s (unat x) (unat p) d st"
  using assms modify_summary_step [OF assms(1), of x p d]
  by (cases g) (auto simp: sum_guarded_def rt_return_def)

lemma sum_guarded_facts:
  assumes "sum_guarded levels g s len p d st" and "sum_wf levels s"
  shows "sum_wf levels st" "mp st = mp s" "rt_wf st = rt_wf s" "rt_free st = rt_free s" "rtg_extents st = rtg_extents s"
    "cache_ok levels s \<Longrightarrow> cache_ok levels st"
    "bb < rt_nblocks (mp s) \<Longrightarrow> sum_count st k bb =
       sum_count s k bb + of_int (if g \<and> run_level len k \<and> p div bmp_span (mp s) = bb then d else 0)"
  using assms sum_stepped_facts [of levels s len p d st]
  by (auto simp: sum_guarded_def sum_stepped_def split: if_splits)

text \<open>The boundaries that the scans find are those of the merged run.\<close>

lemma scans_merge:
  assumes free: "\<And>x. rt_free s1 x = (if st \<le> x \<and> x < Suc en then True else rt_free s x)"
    and alloc: "\<And>x. st \<le> x \<Longrightarrow> x \<le> en \<Longrightarrow> \<not> rt_free s x" and "st \<le> en" and "en < n"
    and bwd: "run_start s1 st pre" and fwd: "run_end s1 en (n - 1) post"
  shows "merges (rt_free s) n st en pre post"
proof -
  have t: "rt_free s1 st" "rt_free s1 en" using free assms(3) by simp_all
  have b: "pre \<le> st" "\<And>x. pre \<le> x \<Longrightarrow> x < st \<Longrightarrow> rt_free s1 x" "0 < pre \<Longrightarrow> \<not> rt_free s1 (pre - 1)"
    using bwd t(1) by (auto simp: run_start_def rt_same_def)
  have f: "en \<le> post" "post \<le> n - 1" "\<And>x. en \<le> x \<Longrightarrow> x \<le> post \<Longrightarrow> rt_free s1 x"
    "post < n - 1 \<Longrightarrow> \<not> rt_free s1 (Suc post)"
    using run_endD [OF fwd] t(2) by blast+
  have "rt_free s x" if "pre \<le> x" "x < st" for x using b(2) [OF that] free [of x] that by simp
  moreover have "pre = 0 \<or> \<not> rt_free s (pre - 1)" using b(1,3) free [of "pre - 1"] by (auto split: if_splits)
  moreover have "rt_free s x" if "en < x" "x \<le> post" for x using f(3) [of x] free [of x] that by simp
  moreover have "Suc post = n \<or> \<not> rt_free s (Suc post)"
    using f(1,2,4) free [of "Suc post"] assms(4) by (cases "post < n - 1") (auto split: if_splits)
  ultimately show ?thesis using alloc assms(3,4) b(1) f(1,2) by (auto simp: merges_def)
qed

lemma freed_pred:
  "(\<And>x. F' x = (if st \<le> x \<and> x < Suc en then True else F x)) \<Longrightarrow> F' = freed F st en"
  by (auto simp: freed_def fun_eq_iff less_Suc_eq_le)

lemma exact_after_merge:
  assumes m: "merges F n st en pre post" and "c = of_nat (card (runs_in F n bs k bb))"
  shows "c + of_int (if pre < st \<and> run_level (st - pre) k \<and> pre div bs = bb then - 1 else 0)
           + of_int (if en < post \<and> run_level (post - en) k \<and> Suc en div bs = bb then - 1 else 0)
           + of_int (if True \<and> run_level (Suc post - pre) k \<and> pre div bs = bb then 1 else 0)
         = (of_nat (card (runs_in (freed F st en) n bs k bb)) :: u32)"
proof -
  have "(of_nat (card (runs_in (freed F st en) n bs k bb)) :: u32) = of_int (int (card (runs_in (freed F st en) n bs k bb)))"
    by simp
  then show ?thesis using assms(2) unfolding card_runs_freed [OF m] by simp
qed

definition rtfree_summary :: "u64 \<Rightarrow> u64 \<Rightarrow> u64 \<Rightarrow> u64 \<Rightarrow> unit rtm" where
  "rtfree_summary start end preblock postblock =
     rt_bind (if preblock < start
              then (\<lambda>s. xfs_rtmodify_summary (xfs_highbit64 (start - preblock))
                      (xfs_rtx_to_rbmblock (mp s) preblock) (- 1) s)
              else rt_return ()) (\<lambda>_.
       rt_bind (if end < postblock
                then (\<lambda>s. xfs_rtmodify_summary (xfs_highbit64 (postblock - end))
                        (xfs_rtx_to_rbmblock (mp s) (end + 1)) (- 1) s)
                else rt_return ()) (\<lambda>_ s.
         xfs_rtmodify_summary (xfs_highbit64 (postblock + 1 - preblock))
           (xfs_rtx_to_rbmblock (mp s) preblock) 1 s))"

text \<open>The values of the word expressions, below the size of the bitmap.\<close>

lemma merge_words:
  fixes start "end" pre post :: u64
  assumes "merges F n (unat start) (unat end) (unat pre) (unat post)" and "n < 2 ^ 52"
  shows "pre < start \<longleftrightarrow> unat pre < unat start" "end < post \<longleftrightarrow> unat end < unat post"
    "unat (start - pre) = unat start - unat pre" "unat (post - end) = unat post - unat end"
    "unat (end + 1) = Suc (unat end)" "unat (post + 1 - pre) = Suc (unat post) - unat pre"
proof -
  have o: "unat pre \<le> unat start" "unat start \<le> unat end" "unat end \<le> unat post" "unat post < n"
    using assms(1) by (auto simp: merges_def)
  show "pre < start \<longleftrightarrow> unat pre < unat start" "end < post \<longleftrightarrow> unat end < unat post"
    by (simp_all add: word_less_nat_alt)
  show "unat (start - pre) = unat start - unat pre" "unat (post - end) = unat post - unat end"
    using o by (simp_all add: unat_sub_le word_le_nat_alt)
  have p: "unat (post + 1) = Suc (unat post)" using o assms(2) by (subst unat_add_small) simp_all
  show "unat (end + 1) = Suc (unat end)" using o assms(2) by (subst unat_add_small) simp_all
  show "unat (post + 1 - pre) = Suc (unat post) - unat pre"
    using o p by (subst unat_sub_le) (simp_all add: word_le_nat_alt)
qed

lemma rtfree_summary_exact:
  assumes swf: "sum_wf levels s" and m: "merges F n (unat start) (unat end) (unat pre) (unat post)"
    and n: "n < 2 ^ 52" "n \<le> 32 * rt_nwords (mp s)" "n < 2 ^ levels"
    and exact: "\<And>k bb. k < levels \<Longrightarrow> bb < rt_nblocks (mp s) \<Longrightarrow>
      sum_count s k bb = of_nat (card (runs_in F n (bmp_span (mp s)) k bb))"
  shows "\<exists>st. rtfree_summary start end pre post s = (Inr (), st) \<and> sum_wf levels st \<and> mp st = mp s \<and>
     rt_wf st = rt_wf s \<and> rt_free st = rt_free s \<and> rtg_extents st = rtg_extents s \<and>
     (cache_ok levels s \<longrightarrow> cache_ok levels st) \<and>
     (\<forall>k < levels. \<forall>bb < rt_nblocks (mp s). sum_count st k bb =
        of_nat (card (runs_in (freed F (unat start) (unat end)) n (bmp_span (mp s)) k bb)))"
proof -
  note w = merge_words [OF m n(1)]
  have o: "unat pre \<le> unat start" "unat start \<le> unat end" "unat end \<le> unat post" "unat post < n"
    using m by (auto simp: merges_def)
  have g1: "pre < start \<Longrightarrow> 0 < unat (start - pre) \<and> unat (start - pre) < 2 ^ levels \<and> unat pre < 32 * rt_nwords (mp s)"
    using w o n by simp
  from modify_summary_guarded [OF swf g1] obtain s1 where
    s1: "(if pre < start then (\<lambda>s. xfs_rtmodify_summary (xfs_highbit64 (start - pre)) (xfs_rtx_to_rbmblock (mp s) pre) (- 1) s)
          else rt_return ()) s = (Inr (), s1)" "sum_guarded levels (pre < start) s (unat (start - pre)) (unat pre) (- 1) s1"
    by blast
  note f1 = sum_guarded_facts [OF s1(2) swf]
  have g2: "end < post \<Longrightarrow> 0 < unat (post - end) \<and> unat (post - end) < 2 ^ levels \<and> unat (end + 1) < 32 * rt_nwords (mp s1)"
    using w o n f1(2) by simp
  from modify_summary_guarded [OF f1(1) g2] obtain s2 where
    s2: "(if end < post then (\<lambda>s. xfs_rtmodify_summary (xfs_highbit64 (post - end)) (xfs_rtx_to_rbmblock (mp s) (end + 1)) (- 1) s)
          else rt_return ()) s1 = (Inr (), s2)" "sum_guarded levels (end < post) s1 (unat (post - end)) (unat (end + 1)) (- 1) s2"
    by blast
  note f2 = sum_guarded_facts [OF s2(2) f1(1)]
  have g3: "True \<Longrightarrow> 0 < unat (post + 1 - pre) \<and> unat (post + 1 - pre) < 2 ^ levels \<and> unat pre < 32 * rt_nwords (mp s2)"
    using w o n f1(2) f2(2) by simp
  from modify_summary_guarded [OF f2(1), of True "post + 1 - pre" pre 1] g3 obtain s3 where
    s3: "xfs_rtmodify_summary (xfs_highbit64 (post + 1 - pre)) (xfs_rtx_to_rbmblock (mp s2) pre) 1 s2 = (Inr (), s3)"
      "sum_guarded levels True s2 (unat (post + 1 - pre)) (unat pre) 1 s3"
    by auto
  note f3 = sum_guarded_facts [OF s3(2) f2(1)]
  have "rtfree_summary start end pre post s = (Inr (), s3)"
    unfolding rtfree_summary_def rt_bind_def by (simp only: s1(1) s2(1) s3(1) prod.case sum.case)
  moreover have "sum_count s3 k bb = of_nat (card (runs_in (freed F (unat start) (unat end)) n (bmp_span (mp s)) k bb))"
    if "k < levels" "bb < rt_nblocks (mp s)" for k bb
    using exact_after_merge [OF m exact [OF that]] f1(7) [of bb k] f2(7) [of bb k] f3(7) [of bb k] f1(2) f2(2) that w
    by simp
  ultimately show ?thesis using f1 f2 f3 by auto
qed

lemma rtfree_range_exact:
  assumes wf: "rt_wf s" and swf: "sum_wf levels s" and exact: "summary_exact levels s"
    and n: "unat (rtg_extents s) \<le> 32 * rt_nwords (mp s)" "unat (rtg_extents s) < 2 ^ levels"
    and len: "0 < unat len" "unat len < 2 ^ 32 - 32" "unat start + unat len \<le> unat (rtg_extents s)"
    and alloc: "\<And>x. unat start \<le> x \<Longrightarrow> x < unat start + unat len \<Longrightarrow> \<not> rt_free s x"
  shows "\<exists>st. xfs_rtfree_range start len s = (Inr (), st) \<and> rt_wf st \<and> sum_wf levels st \<and>
     mp st = mp s \<and> rtg_extents st = rtg_extents s \<and>
     rt_free st = freed (rt_free s) (unat start) (unat start + unat len - 1) \<and>
     summary_exact levels st \<and> (cache_ok levels s \<longrightarrow> cache_ok levels st)"
proof -
  let ?n = "unat (rtg_extents s)" and ?en = "start + ucast len - 1"
  note big = rt_nwords_bound [OF wf]
  have en: "unat ?en = unat start + unat len - 1"
    using unat_add_minus_1 [of "ucast len" start] len n big by simp
  then have en': "Suc (unat ?en) = unat start + unat len" using len by simp
  have st: "unat start < 32 * rt_nwords (mp s)" "unat start + unat len \<le> 32 * rt_nwords (mp s)" using len n by simp_all
  from rtmodify_range_modified [OF wf st len(2), of True] obtain s1 where
    s1: "xfs_rtmodify_range start len 1 s = (Inr (), s1)" and m1: "modified s True (unat start) (unat start + unat len) s1"
    by auto
  have wf1: "rt_wf s1" and fr: "rt_frame s s1"
    and free1: "\<And>x. rt_free s1 x = (if unat start \<le> x \<and> x < Suc (unat ?en) then True else rt_free s x)"
    using m1 unfolding modified_def en' by auto
  note f1 = rt_frame_sum [OF fr]
  from rtfind_back_run_start [OF wf1, of start] st f1(1) obtain pre b1 where
    bk: "xfs_rtfind_back start s1 = (Inr pre, rt_at s1 b1)" "run_start s1 (unat start) (unat pre)" by auto
  have lim: "unat (rtg_extents s - 1) = ?n - 1" using len by (subst unat_sub_le) (simp_all add: word_le_nat_alt)
  have le: "?en \<le> rtg_extents s - 1" using en lim len by (simp add: word_le_nat_alt)
  have "unat (rtg_extents s - 1) < 32 * rt_nwords (mp (rt_at s1 b1))" using n lim len f1(1) by simp
  from rtfind_forw_run_end [of "rt_at s1 b1", OF _ le this] wf1 lim obtain post b2 where
    fw: "xfs_rtfind_forw ?en (rtg_extents s - 1) (rt_at s1 b1) = (Inr post, rt_at s1 b2)"
      "run_end s1 (unat ?en) (?n - 1) (unat post)" by auto
  have m: "merges (rt_free s) ?n (unat start) (unat ?en) (unat pre) (unat post)"
    using free1 alloc bk(2) fw(2) en' len by (intro scans_merge [of s1]) auto
  have fr2: "rt_frame s (rt_at s1 b2)" using fr by (simp add: rt_frame_def)
  note f2 = rt_frame_sum [OF fr2]
  have "?n < 2 ^ 52" using n big by simp
  from rtfree_summary_exact [of levels "rt_at s1 b2", OF _ m this] n f2 swf exact obtain s5 where
    s5: "rtfree_summary start ?en pre post (rt_at s1 b2) = (Inr (), s5)" "sum_wf levels s5" "mp s5 = mp s"
      "rt_wf s5" "rt_free s5 = rt_free s1" "rtg_extents s5 = rtg_extents s" "cache_ok levels s \<longrightarrow> cache_ok levels s5"
      "\<forall>k < levels. \<forall>bb < rt_nblocks (mp s). sum_count s5 k bb =
        of_nat (card (runs_in (freed (rt_free s) (unat start) (unat ?en)) ?n (bmp_span (mp s)) k bb))"
    using wf1 by (auto simp: summary_exact_def)
  have "xfs_rtfree_range start len s = (Inr (), s5)"
    using s5(1) bk(1) fw(1) f1(2) unfolding xfs_rtfree_range_def Let_def rtfree_summary_def
    by (simp add: rt_bind_def [of "xfs_rtmodify_range _ _ _"] rt_bind_def [of "xfs_rtfind_back _"]
        rt_bind_def [of "xfs_rtfind_forw _ _"] s1)
  moreover have "rt_free s5 = freed (rt_free s) (unat start) (unat ?en)"
    unfolding s5(5) by (rule freed_pred) (rule free1)
  ultimately show ?thesis using s5 by (auto simp: summary_exact_def en)
qed

text \<open>A group with nothing free and an empty summary.\<close>

definition rt_example_full :: xfs_rtalloc_args where
  "rt_example_full = rt_example\<lparr>rtg_rsum_cache := Some [0, 0],
     rbm_file := [Rt_buf \<lparr>rt_owner = cpu_to_be64 129, rt_words = [0, 0]\<rparr>,
       Rt_buf \<lparr>rt_owner = cpu_to_be64 129, rt_words = [0, 0]\<rparr>]\<rparr>"

lemma rt_example_full_wf:
  "rt_wf rt_example_full" "sum_wf 8 rt_example_full" "rt_nwords (mp rt_example_full) = 4"
  "rtg_extents rt_example_full = 128"
  by (simp_all add: rt_wf_def sum_wf_def sum_geom_ok_def rt_geom_ok_def rt_example_def rt_example_full_def
      rt_example_mount_def rt_nblocks_def rt_wsize_def rtblock_ok_def list_all_iff rt_nwords_def)

lemma rt_example_full_alloc: "x < 128 \<Longrightarrow> \<not> rt_free rt_example_full x"
proof -
  assume "x < 128"
  then have "x div 32 < 4" by simp
  then consider "x div 32 = 0" | "x div 32 = 1" | "x div 32 = 2" | "x div 32 = 3" by linarith
  moreover have "rt_word rt_example_full 0 = 0" "rt_word rt_example_full 1 = 0" "rt_word rt_example_full 2 = 0"
    "rt_word rt_example_full 3 = 0" by code_simp+
  ultimately show ?thesis by cases (simp_all add: rt_free_def)
qed

lemma rt_example_full_sum: "j < 32 \<Longrightarrow> sum_word rt_example_full j = 0"
proof -
  assume "j < 32"
  then have j: "j div 2 < 16" by simp
  have "j mod 2 = 0 \<or> j mod 2 = 1" by auto
  then have "[0, 0] ! (j mod 2) = (0 :: u32)" by auto
  with j show ?thesis
    by (simp add: sum_word_def rt_example_full_def rt_example_def rt_example_mount_def rt_wsize_def block_words_def
        rt_cpu_word_def disk_simps be32_to_cpu_def swab32_def)
qed

lemma rt_example_full_exact: "summary_exact 8 rt_example_full"
proof -
  have "\<not> run (rt_free rt_example_full) 128 a e" for a e
    using rt_example_full_alloc [of a] by (auto simp: run_def)
  then have "runs_in (rt_free rt_example_full) 128 bs k bb = {}" for bs k bb by (auto simp: runs_in_def)
  moreover have "rt_nblocks (mp rt_example_full) = 2"
    by (simp add: rt_example_full_def rt_example_def rt_example_mount_def rt_nblocks_def)
  ultimately show ?thesis
    using rt_example_full_sum by (simp add: summary_exact_def sum_count_def rt_example_full_wf)
qed

text \<open>
  C1. Freeing an allocated range keeps the realtime summary exact: if before
  \<^verbatim>\<open>xfs_rtfree_range\<close> each counter is the number of maximal free runs whose length has that
  binary logarithm and that start in that bitmap block, then the call succeeds, exactly the
  range becomes free, every counter again is that number for the new bitmap (the neighbours
  merged with the range into one run), and the summary cache stays an upper bound.
\<close>

theorem xfs_rtfree_range_summary_exact:
  assumes "rt_wf s" and "sum_wf levels s" and "summary_exact levels s"
    and "unat (rtg_extents s) \<le> 32 * rt_nwords (mp s)" and "unat (rtg_extents s) < 2 ^ levels"
    and "0 < unat len" and "unat len < 2 ^ 32 - 32" and "unat start + unat len \<le> unat (rtg_extents s)"
    and "\<And>x. unat start \<le> x \<Longrightarrow> x < unat start + unat len \<Longrightarrow> \<not> rt_free s x"
  shows "\<exists>st. xfs_rtfree_range start len s = (Inr (), st) \<and> rt_wf st \<and> sum_wf levels st \<and>
    (\<forall>x. rt_free st x \<longleftrightarrow> rt_free s x \<or> unat start \<le> x \<and> x < unat start + unat len) \<and>
    summary_exact levels st \<and> (cache_ok levels s \<longrightarrow> cache_ok levels st)"
proof -
  have "x \<le> unat start + unat len - 1 \<longleftrightarrow> x < unat start + unat len" for x using assms(6) by auto
  with rtfree_range_exact [OF assms(1-8)] assms(9) show ?thesis by (auto simp: freed_def)
qed

theorem xfs_rtfree_range_summary_exact_witness:
  "\<exists>st. xfs_rtfree_range 20 70 rt_example_full = (Inr (), st) \<and> rt_free st 40 \<and> summary_exact 8 st"
  using xfs_rtfree_range_summary_exact [of rt_example_full 8 70 20] rt_example_full_wf rt_example_full_exact
    rt_example_full_alloc by auto

end
