(* ===== verification/Rt_Query.thy ===== *)
theory Rt_Query
  imports Rt_Scan
begin

text \<open>
  \<^verbatim>\<open>xfs_rtalloc_query_range\<close>: the callback is called on exactly the maximal free runs of the
  range, in order, and the loop ends on its own.
\<close>

section \<open>What the records of a query are\<close>

definition rec_run :: "xfs_rtalloc_args \<Rightarrow> nat \<Rightarrow> nat \<Rightarrow> xfs_rtalloc_rec \<Rightarrow> bool" where
  "rec_run s lo hi r \<longleftrightarrow>
     (let a = unat (ar_startext r); n = unat (ar_extcount r)
      in lo \<le> a \<and> 0 < n \<and> a + n \<le> Suc hi \<and> (\<forall>x. a \<le> x \<and> x < a + n \<longrightarrow> rt_free s x) \<and>
         (lo < a \<longrightarrow> \<not> rt_free s (a - 1)) \<and> (a + n \<le> hi \<longrightarrow> \<not> rt_free s (a + n)))"

definition rec_before :: "xfs_rtalloc_rec \<Rightarrow> xfs_rtalloc_rec \<Rightarrow> bool" where
  "rec_before a b \<longleftrightarrow> unat (ar_startext a) + unat (ar_extcount a) < unat (ar_startext b)"

definition free_records :: "xfs_rtalloc_args \<Rightarrow> nat \<Rightarrow> nat \<Rightarrow> xfs_rtalloc_rec list \<Rightarrow> bool" where
  "free_records s lo hi recs \<longleftrightarrow>
     (\<forall>r \<in> set recs. rec_run s lo hi r) \<and> sorted_wrt rec_before recs \<and>
     (\<forall>x. lo \<le> x \<and> x \<le> hi \<and> rt_free s x \<longrightarrow>
        (\<exists>r \<in> set recs. unat (ar_startext r) \<le> x \<and> x < unat (ar_startext r) + unat (ar_extcount r)))"

text \<open>Calling a callback on each record in turn until it returns an error.\<close>

fun call_all :: "'p query_fn \<Rightarrow> xfs_rtalloc_rec list \<Rightarrow> 'p \<Rightarrow> errno option \<times> 'p" where
  "call_all fn [] priv = (None, priv)"
| "call_all fn (r # rs) priv =
     (case fn r priv of (Some e, p) \<Rightarrow> (Some e, p) | (None, p) \<Rightarrow> call_all fn rs p)"

lemma free_records_empty: "hi < lo \<Longrightarrow> free_records s lo hi []"
  by (auto simp: free_records_def)

text \<open>Records of the rest of the range are records of the whole, past a run of equal state.\<close>

lemma rec_run_past:
  assumes "rec_run s (Suc e) hi r" and "run_end s lo hi e"
  shows "rec_run s lo hi r" and "rt_free s lo \<Longrightarrow> Suc e < unat (ar_startext r)"
proof -
  let ?a = "unat (ar_startext r)"
  from assms(1) have a: "Suc e \<le> ?a" "?a \<le> hi" "rt_free s ?a" unfolding rec_run_def Let_def by simp_all
  have e: "lo \<le> e" "rt_free s e = rt_free s lo"
    using run_endD(1) [OF assms(2)] run_endD(3) [OF assms(2), of e] by simp_all
  have neq: "rt_free s (Suc e) \<noteq> rt_free s lo" if "e < hi" using assms(2) that by (simp add: run_end_def)
  show *: "Suc e < ?a" if "rt_free s lo"
  proof (rule ccontr)
    assume "\<not> Suc e < ?a"
    with a(1) have "?a = Suc e" by simp
    with a neq that show False by simp
  qed
  have "\<not> rt_free s (?a - 1)"
  proof (cases "Suc e < ?a")
    case True
    with assms(1) show ?thesis by (simp add: rec_run_def Let_def)
  next
    case False
    with * a e show ?thesis by (cases "?a = Suc e") auto
  qed
  with assms(1) e(1) show "rec_run s lo hi r" by (auto simp: rec_run_def Let_def)
qed

lemma free_records_skip:
  assumes "free_records s (Suc e) hi recs" and "run_end s lo hi e" and "\<not> rt_free s lo"
  shows "free_records s lo hi recs"
proof -
  have "\<not> rt_free s x" if "lo \<le> x" "x \<le> e" for x
    using assms(2,3) that by (auto simp: run_end_def rt_same_def)
  then have "Suc e \<le> x" if "lo \<le> x" "rt_free s x" for x using that by (meson not_less_eq_eq)
  with assms(1) rec_run_past(1) [OF _ assms(2)] show ?thesis
    unfolding free_records_def by blast
qed

lemma free_records_add:
  assumes "free_records s (Suc e) hi recs" and "run_end s lo hi e" and "rt_free s lo"
    and "unat (ar_startext r) = lo" and "unat (ar_extcount r) = Suc e - lo"
  shows "free_records s lo hi (r # recs)"
proof -
  have e: "lo \<le> e" "e \<le> hi" "\<And>x. lo \<le> x \<Longrightarrow> x \<le> e \<Longrightarrow> rt_free s x" "e < hi \<Longrightarrow> \<not> rt_free s (Suc e)"
    using assms(2,3) by (auto simp: run_end_def rt_same_def)
  have "rec_run s lo hi r" using e assms(4,5) by (auto simp: rec_run_def Let_def)
  moreover have "rec_before r q" if "q \<in> set recs" for q
    using that assms(1,3-5) rec_run_past(2) [OF _ assms(2)] e(1) by (auto simp: free_records_def rec_before_def)
  moreover have "unat (ar_startext r) \<le> x \<and> x < unat (ar_startext r) + unat (ar_extcount r) \<or> Suc e \<le> x"
    if "lo \<le> x" for x using that e(1) assms(4,5) by auto
  ultimately show ?thesis
    using assms(1) rec_run_past(1) [OF _ assms(2)] unfolding free_records_def
    by (simp only: list.set sorted_wrt.simps ball_simps bex_simps) blast
qed

section \<open>The loop\<close>

lemma check_one:
  assumes "rt_wf s" and "unat x < 32 * rt_nwords (mp s)"
  shows "\<exists>new b. xfs_rtcheck_range x 1 1 s = (Inr (new, if rt_free s (unat x) then 1 else 0), rt_at s b)"
proof -
  from rtcheck_range_result [OF assms(1) _ assms(2), of 1 True] assms(2) obtain new stat b where
    r: "xfs_rtcheck_range x 1 1 s = (Inr (new, stat), rt_at s b)"
    and c: "check_result s True (unat x) (unat x + 1) (unat new) stat" by auto
  have "stat = (if rt_free s (unat x) then 1 else 0)"
    using c by (cases "unat new = unat x + 1"; cases "unat new = unat x") (auto simp: check_result_def rt_same_def)
  with r show ?thesis by blast
qed

lemma rt_query_loop_ok:
  assumes "rt_wf s" and "unat end < 32 * rt_nwords (mp s)" and "Suc (unat end) - unat start \<le> fuel"
  shows "\<exists>recs. free_records s (unat start) (unat end) recs \<and>
     (\<forall>priv. \<exists>st. rt_query_loop fuel fn start end priv s =
        Some ((map_option Errno (fst (call_all fn recs priv)), snd (call_all fn recs priv)), st) \<and>
        (st = s \<or> (\<exists>b. st = rt_at s b)))"
  using assms
proof (induction fuel arbitrary: start s)
  case 0
  then have "\<not> start \<le> end" by (simp add: word_le_nat_alt)
  with free_records_empty [of "unat end" "unat start" s] show ?case
    by (intro exI [of _ "[]"]) (simp add: word_le_nat_alt)
next
  case (Suc fuel)
  show ?case
  proof (cases "start \<le> end")
    case False
    with free_records_empty [of "unat end" "unat start" s] show ?thesis
      by (intro exI [of _ "[]"]) (simp add: word_le_nat_alt)
  next
    case True
    then have st: "unat start < 32 * rt_nwords (mp s)" using Suc.prems(2) by (simp add: word_le_nat_alt)
    from check_one [OF Suc.prems(1) st] obtain new b where
      c: "xfs_rtcheck_range start 1 1 s = (Inr (new, if rt_free s (unat start) then 1 else 0), rt_at s b)" by blast
    have wf: "rt_wf (rt_at s b)" using Suc.prems(1) by simp
    from rtfind_forw_run_end [OF wf True] Suc.prems(2) obtain r b2 where
      f: "xfs_rtfind_forw start end (rt_at s b) = (Inr r, rt_at s b2)"
      and "run_end (rt_at s b) (unat start) (unat end) (unat r)" by (auto simp del: run_end_at)
    then have e: "run_end s (unat start) (unat end) (unat r)" by simp
    note r = run_endD(1,2) [OF e]
    have r1: "unat (r + 1) = Suc (unat r)"
      using r Suc.prems(2) rt_nwords_bound [OF Suc.prems(1)] by (subst unat_add_small) simp_all
    have "Suc (unat end) - unat (r + 1) \<le> fuel" using r r1 Suc.prems(3) by simp
    from Suc.IH [of "rt_at s b2" "r + 1", OF _ _ this] Suc.prems(1,2) obtain recs where
      recs: "free_records s (Suc (unat r)) (unat end) recs"
      "\<And>priv. \<exists>st. rt_query_loop fuel fn (r + 1) end priv (rt_at s b2) =
        Some ((map_option Errno (fst (call_all fn recs priv)), snd (call_all fn recs priv)), st) \<and>
        (st = rt_at s b2 \<or> (\<exists>b. st = rt_at s b))"
      by (auto simp: r1 free_records_def rec_run_def)
    show ?thesis
    proof (cases "rt_free s (unat start)")
      case False
      with free_records_skip [OF recs(1) e] recs(2) True c f show ?thesis
        by (intro exI [of _ recs]) auto
    next
      case free: True
      let ?r = "\<lparr>ar_startext = start, ar_extcount = r - start + 1\<rparr>"
      have n: "unat (r - start + 1) = Suc (unat r) - unat start"
        using r Suc.prems(2) rt_nwords_bound [OF Suc.prems(1)]
        by (subst unat_add_small) (simp_all add: unat_sub_le word_le_nat_alt)
      have "free_records s (unat start) (unat end) (?r # recs)"
        using free_records_add [OF recs(1) e free] n by simp
      moreover have "\<exists>st. rt_query_loop (Suc fuel) fn start end priv s =
          Some ((map_option Errno (fst (call_all fn (?r # recs) priv)), snd (call_all fn (?r # recs) priv)), st) \<and>
          (st = s \<or> (\<exists>b. st = rt_at s b))" for priv
        using True c f free recs(2) [of "snd (fn ?r priv)"]
        by (cases "fn ?r priv"; cases "fst (fn ?r priv)") auto
      ultimately show ?thesis by blast
    qed
  qed
qed

section \<open>The query\<close>

lemma query_range_walks:
  assumes "rt_wf s" and "start < end" and "start < rtg_extents s" and "unat (rtg_extents s) \<le> 32 * rt_nwords (mp s)"
    and "\<not> m_has_zoned (mp s)"
  shows "\<exists>recs st. free_records s (unat start) (min (unat end) (unat (rtg_extents s) - 1)) recs \<and>
    xfs_rtalloc_query_range fn start end priv s =
      Some ((map_option Errno (fst (call_all fn recs priv)), snd (call_all fn recs priv)), st) \<and>
    rbm_file st = rbm_file s \<and> tp_log st = tp_log s \<and> rbmbp st = None"
proof -
  let ?s = "s\<lparr>rbmbp := None, sumbp := None, rbmoff := 0, sumoff := 0\<rparr>"
  let ?e = "min end (rtg_extents s - 1)"
  have pos: "1 \<le> rtg_extents s" using assms(3) by (simp add: word_le_nat_alt word_less_nat_alt)
  have e: "unat ?e = min (unat end) (unat (rtg_extents s) - 1)"
    using unat_sub_le [OF pos] by (simp add: min_def word_le_nat_alt)
  have le: "start \<le> ?e"
    using assms(2,3) e by (simp add: word_le_nat_alt word_less_nat_alt)
  have free: "rt_free ?s = rt_free s" by (simp add: rt_free_def rt_word_def fun_eq_iff)
  have "Suc (unat ?e) - unat start \<le> unat (?e - start) + 1" using le by (simp add: unat_sub_le)
  moreover have "unat ?e < 32 * rt_nwords (mp ?s)" using e assms(3,4) by (simp add: word_less_nat_alt)
  moreover have "rt_wf ?s" using assms(1) by (simp add: rt_wf_def)
  ultimately obtain recs st where
    recs: "free_records ?s (unat start) (unat ?e) recs"
      "rt_query_loop (unat (?e - start) + 1) fn start ?e priv ?s =
        Some ((map_option Errno (fst (call_all fn recs priv)), snd (call_all fn recs priv)), st)"
      "st = ?s \<or> (\<exists>b. st = rt_at ?s b)"
    using rt_query_loop_ok [of ?s ?e start _ fn] by blast
  moreover have "free_records s (unat start) (unat ?e) recs"
    using recs(1) unfolding free_records_def rec_run_def free .
  moreover have "rbm_file (xfs_rtbuf_cache_relse st) = rbm_file s \<and> tp_log (xfs_rtbuf_cache_relse st) = tp_log s \<and>
      rbmbp (xfs_rtbuf_cache_relse st) = None"
    using recs(3) by (auto simp: xfs_rtbuf_cache_relse_def rt_at_def Let_def)
  ultimately show ?thesis
    using assms(2,3,5) e by (auto simp: xfs_rtalloc_query_range_def Let_def)
qed

text \<open>
  C9. On a well-formed bitmap \<^verbatim>\<open>xfs_rtalloc_query_range\<close> returns for every range (the fuel of the model is
  enough). A range of two or more extents that begins inside the group is clipped to the group,
  and the callback is called, until its first error, on exactly the maximal free runs of the
  clipped range in ascending order; the error and the private data returned are those of the
  callback, and the bitmap and the log are unchanged. A range of one extent, \<open>start = end\<close>, is
  answered without a callback whether the extent is free or not, as is a range that begins past
  the group; a range that ends before it begins, and any other on a zoned file system, is refused.
\<close>

theorem xfs_rtalloc_query_range_runs:
  assumes "rt_wf s" and "unat (rtg_extents s) \<le> 32 * rt_nwords (mp s)"
  shows "if end < start then xfs_rtalloc_query_range fn start end priv s = Some ((Some (Errno EINVAL), priv), s)
    else if start = end \<or> rtg_extents s \<le> start then xfs_rtalloc_query_range fn start end priv s = Some ((None, priv), s)
    else if m_has_zoned (mp s) then xfs_rtalloc_query_range fn start end priv s = Some ((Some (Errno EINVAL), priv), s)
    else \<exists>recs st. free_records s (unat start) (min (unat end) (unat (rtg_extents s) - 1)) recs \<and>
      xfs_rtalloc_query_range fn start end priv s =
        Some ((map_option Errno (fst (call_all fn recs priv)), snd (call_all fn recs priv)), st) \<and>
      rbm_file st = rbm_file s \<and> tp_log st = tp_log s \<and> rbmbp st = None"
proof (cases "end < start \<or> start = end \<or> rtg_extents s \<le> start \<or> m_has_zoned (mp s)")
  case True
  then show ?thesis by (elim disjE) (simp_all add: xfs_rtalloc_query_range_def Let_def)
next
  case False
  then have "start < end" "start < rtg_extents s" "\<not> m_has_zoned (mp s)" by auto
  from query_range_walks [OF assms(1) this(1,2) assms(2) this(3), of fn priv] show ?thesis using False by simp
qed

theorem xfs_rtalloc_query_range_runs_witness:
  "\<exists>recs st. free_records rt_example 0 127 recs \<and>
     xfs_rtalloc_query_range (\<lambda>r n. (None, n + unat (ar_extcount r))) 0 200 (0 :: nat) rt_example =
       Some ((map_option Errno (fst (call_all (\<lambda>r n. (None, n + unat (ar_extcount r))) recs 0)),
              snd (call_all (\<lambda>r n. (None, n + unat (ar_extcount r))) recs 0)), st)"
proof -
  have "\<not> m_has_zoned (mp rt_example)" by code_simp
  then show ?thesis
    using xfs_rtalloc_query_range_runs [of rt_example 200 0 "\<lambda>r n. (None, n + unat (ar_extcount r))" 0]
      rt_example_wf by (auto split: if_splits)
qed

end
