(* ===== verification/Bmbt_Rec.thy ===== *)
theory Bmbt_Rec
  imports Arch Bits
begin

text \<open>
  The file extent records of the block map btree, from \<^verbatim>\<open>libxfs/xfs_bmap_btree.c\<close> and
  \<^verbatim>\<open>libxfs/xfs_format.h\<close>. An on-disk record packs, from the high bit down, one state bit,
  54 bits of file offset, 52 bits of start block and 21 bits of length into two big-endian
  words; \<open>l0\<close> and \<open>l1\<close> are these words as they lie in memory.
\<close>

section \<open>Records\<close>

datatype xfs_exntst = XFS_EXT_NORM | XFS_EXT_UNWRITTEN

record xfs_bmbt_irec =
  br_startoff :: u64
  br_startblock :: u64
  br_blockcount :: u64
  br_state :: xfs_exntst

record xfs_bmbt_rec =
  l0 :: u64
  l1 :: u64

text \<open>\<^verbatim>\<open>get_unaligned_be64\<close> and \<^verbatim>\<open>put_unaligned_be64\<close> applied to a field of a record.\<close>

definition get_field_be64 :: "u64 \<Rightarrow> u64" where
  "get_field_be64 f = the (get_unaligned_be64 (native_bytes64 f))"

definition put_field_be64 :: "u64 \<Rightarrow> u64 \<Rightarrow> u64" where
  "put_field_be64 v f = native_word64 (put_unaligned_be64 v (native_bytes64 f))"

definition xfs_bmbt_disk_get_all :: "xfs_bmbt_rec \<Rightarrow> xfs_bmbt_irec" where
  "xfs_bmbt_disk_get_all rec =
     (let l0 = get_field_be64 (l0 rec);
          l1 = get_field_be64 (l1 rec)
      in \<lparr>br_startoff = drop_bit 9 (l0 AND xfs_mask64lo (64 - 1)),
          br_startblock = push_bit 43 (l0 AND xfs_mask64lo 9) OR drop_bit 21 l1,
          br_blockcount = l1 AND xfs_mask64lo 21,
          br_state = (if drop_bit (64 - 1) l0 \<noteq> 0 then XFS_EXT_UNWRITTEN else XFS_EXT_NORM)\<rparr>)"

definition xfs_bmbt_disk_get_blockcount :: "xfs_bmbt_rec \<Rightarrow> u64" where
  "xfs_bmbt_disk_get_blockcount r = be64_to_cpu (l1 r) AND xfs_mask64lo 21"

definition xfs_bmbt_disk_get_startoff :: "xfs_bmbt_rec \<Rightarrow> u64" where
  "xfs_bmbt_disk_get_startoff r = drop_bit 9 (be64_to_cpu (l0 r) AND xfs_mask64lo (64 - 1))"

definition xfs_bmbt_disk_set_all :: "xfs_bmbt_rec \<Rightarrow> xfs_bmbt_irec \<Rightarrow> xfs_bmbt_rec" where
  "xfs_bmbt_disk_set_all r s =
     (let extent_flag = (if br_state s \<noteq> XFS_EXT_NORM then 1 else 0) :: u64
      in r\<lparr>l0 := put_field_be64 (push_bit 63 extent_flag OR push_bit 9 (br_startoff s) OR
                    drop_bit 43 (br_startblock s)) (l0 r),
           l1 := put_field_be64 (push_bit 21 (br_startblock s) OR
                    (br_blockcount s AND xfs_mask64lo 21)) (l1 r)\<rparr>)"

text \<open>The conditions asserted by \<^verbatim>\<open>xfs_bmbt_disk_set_all\<close> on the record it packs.\<close>

definition bmbt_irec_fits :: "xfs_bmbt_irec \<Rightarrow> bool" where
  "bmbt_irec_fits s \<longleftrightarrow>
     br_startoff s AND xfs_mask64hi (64 - 54) = 0 \<and>
     br_blockcount s AND xfs_mask64hi (64 - 21) = 0 \<and>
     br_startblock s AND xfs_mask64hi (64 - 52) = 0"

section \<open>Keys and ordering\<close>

definition xfs_bmbt_init_key_from_rec :: "xfs_bmbt_rec \<Rightarrow> u64" where
  "xfs_bmbt_init_key_from_rec rec = cpu_to_be64 (xfs_bmbt_disk_get_startoff rec)"

definition xfs_bmbt_init_high_key_from_rec :: "xfs_bmbt_rec \<Rightarrow> u64" where
  "xfs_bmbt_init_high_key_from_rec rec =
     cpu_to_be64 (xfs_bmbt_disk_get_startoff rec + xfs_bmbt_disk_get_blockcount rec - 1)"

definition xfs_bmbt_keys_inorder :: "u64 \<Rightarrow> u64 \<Rightarrow> bool" where
  "xfs_bmbt_keys_inorder k1 k2 \<longleftrightarrow> be64_to_cpu k1 < be64_to_cpu k2"

definition xfs_bmbt_recs_inorder :: "xfs_bmbt_rec \<Rightarrow> xfs_bmbt_rec \<Rightarrow> bool" where
  "xfs_bmbt_recs_inorder r1 r2 \<longleftrightarrow>
     xfs_bmbt_disk_get_startoff r1 + xfs_bmbt_disk_get_blockcount r1
       \<le> xfs_bmbt_disk_get_startoff r2"

section \<open>Delayed-allocation start blocks\<close>

definition STARTBLOCKMASK :: u64 where
  "STARTBLOCKMASK = push_bit 17 (push_bit 35 1 - 1)"

definition isnullstartblock :: "u64 \<Rightarrow> bool" where
  "isnullstartblock x \<longleftrightarrow> x AND STARTBLOCKMASK = STARTBLOCKMASK"

text \<open>
  The code asserts that the reservation fits into 17 bits; here it is a hypothesis of the lemmas, and
  the removal of a delayed extent is shown to keep to it.
\<close>

definition nullstartblock :: "u32 \<Rightarrow> u64" where
  "nullstartblock k = STARTBLOCKMASK OR scast k"

definition startblockval :: "u64 \<Rightarrow> u64" where
  "startblockval x = x AND NOT STARTBLOCKMASK"

section \<open>Field accesses are byte swaps\<close>

lemma get_field_be64_swab: "get_field_be64 f = be64_to_cpu f"
  by (simp add: get_field_be64_def get_unaligned_be64_native be64_to_cpu_def)

lemma put_field_be64_swab: "put_field_be64 v f = cpu_to_be64 v"
proof -
  have "put_unaligned_be64 v (native_bytes64 f) = native_bytes64 (cpu_to_be64 v)"
    unfolding put_unaligned_be64_def put_unaligned_be32_bytes Let_def native_bytes64_def cpu_to_be64_def
    by (auto simp: upt_rec bit_eq_iff bit_simps bit_swab64)
  then show ?thesis by (simp add: put_field_be64_def)
qed

lemmas bmbt_field_simps = get_field_be64_swab put_field_be64_swab xfs_masklo_mask Let_def

section \<open>Round trips\<close>

lemma bmbt_irec_fits_bits:
  "bmbt_irec_fits s \<longleftrightarrow>
     (\<forall>n. bit (br_startoff s) n \<longrightarrow> n < 54) \<and> (\<forall>n. bit (br_blockcount s) n \<longrightarrow> n < 21) \<and>
     (\<forall>n. bit (br_startblock s) n \<longrightarrow> n < 52)"
  unfolding bmbt_irec_fits_def xfs_mask64hi_def word_zero_bits
  by (auto simp: bit_simps dest: u64_bit_lt)

lemma drop63_nonzero: "drop_bit 63 (w :: u64) \<noteq> 0 \<longleftrightarrow> bit w 63"
proof
  assume "drop_bit 63 w \<noteq> 0"
  then obtain n where n: "bit w (63 + n)" unfolding word_zero_bits by (auto simp: bit_simps)
  with u64_bit_lt [OF n] show "bit w 63" by simp
next
  assume "bit w 63"
  then have "bit (drop_bit 63 w) 0" by (simp add: bit_drop_bit_eq)
  then show "drop_bit 63 w \<noteq> 0" by auto
qed

lemma bmbt_from_to:
  assumes "bmbt_irec_fits s"
  shows "xfs_bmbt_disk_get_all (xfs_bmbt_disk_set_all r s) = s"
proof -
  obtain off blk cnt st where s: "s = \<lparr>br_startoff = off, br_startblock = blk, br_blockcount = cnt, br_state = st\<rparr>"
    by (cases s) simp
  from assms have o: "\<And>n. bit off n \<Longrightarrow> n < 54" and c: "\<And>n. bit cnt n \<Longrightarrow> n < 21"
    and b: "\<And>n. bit blk n \<Longrightarrow> n < 52"
    unfolding bmbt_irec_fits_bits s by auto
  define f where "f = (if st \<noteq> XFS_EXT_NORM then 1 else 0 :: u64)"
  define w0 where "w0 = push_bit 63 f OR push_bit 9 off OR drop_bit 43 blk"
  define w1 where "w1 = push_bit 21 blk OR (cnt AND mask 21)"
  have f: "bit f n \<longleftrightarrow> st \<noteq> XFS_EXT_NORM \<and> n = 0" for n by (simp add: f_def bit_simps)
  have "drop_bit 9 (w0 AND mask 63) = off"
    by (rule bit_word_eqI) (auto simp: w0_def f bit_simps dest: o b)
  moreover have "push_bit 43 (w0 AND mask 9) OR drop_bit 21 w1 = blk"
    by (rule bit_word_eqI) (auto simp: w0_def w1_def f bit_simps dest: o b c)
  moreover have "w1 AND mask 21 = cnt"
    by (rule bit_word_eqI) (auto simp: w1_def bit_simps dest: c)
  moreover have "drop_bit 63 w0 \<noteq> 0 \<longleftrightarrow> st \<noteq> XFS_EXT_NORM"
    unfolding drop63_nonzero by (auto simp: w0_def f bit_simps dest: o b)
  moreover have "xfs_bmbt_disk_set_all r s = \<lparr>l0 = cpu_to_be64 w0, l1 = cpu_to_be64 w1\<rparr>"
    by (cases r) (simp add: xfs_bmbt_disk_set_all_def bmbt_field_simps s f_def w0_def w1_def)
  ultimately show ?thesis
    by (cases st) (simp_all add: xfs_bmbt_disk_get_all_def bmbt_field_simps s)
qed

lemma bmbt_to_from:
  "xfs_bmbt_disk_set_all r (xfs_bmbt_disk_get_all d) = d \<and> bmbt_irec_fits (xfs_bmbt_disk_get_all d)"
proof -
  define w0 where "w0 = be64_to_cpu (l0 d)"
  define w1 where "w1 = be64_to_cpu (l1 d)"
  have d: "d = \<lparr>l0 = cpu_to_be64 w0, l1 = cpu_to_be64 w1\<rparr>" by (cases d) (simp add: w0_def w1_def)
  define f where "f = (if drop_bit 63 w0 \<noteq> 0 then 1 else 0 :: u64)"
  have f: "bit f n \<longleftrightarrow> n = 0 \<and> bit w0 63" for n
    unfolding f_def drop63_nonzero by (auto simp: bit_simps)
  have "push_bit 63 f OR push_bit 9 (drop_bit 9 (w0 AND mask 63)) OR
      drop_bit 43 (push_bit 43 (w0 AND mask 9) OR drop_bit 21 w1) = w0" (is "?w = w0")
  proof (rule bit_word_eqI)
    fix n :: nat
    assume "n < LENGTH(64)"
    then consider "n < 9" | "9 \<le> n" "n < 63" | "n = 63" by fastforce
    then show "bit ?w n = bit w0 n"
      by cases (auto simp: f bit_simps)
  qed
  moreover have "push_bit 21 (push_bit 43 (w0 AND mask 9) OR drop_bit 21 w1) OR (w1 AND mask 21) = w1"
    by (rule bit_word_eqI) (auto simp: bit_simps)
  moreover have "bmbt_irec_fits (xfs_bmbt_disk_get_all d)"
    unfolding bmbt_irec_fits_bits
    by (auto simp: xfs_bmbt_disk_get_all_def bmbt_field_simps d bit_simps dest: bit_imp_le_length)
  ultimately show ?thesis
    by (cases r; cases "drop_bit 63 w0 = 0")
       (simp_all add: xfs_bmbt_disk_set_all_def xfs_bmbt_disk_get_all_def bmbt_field_simps d f_def)
qed

text \<open>The records are a bijective disk format for the extents that fit the field widths.\<close>

interpretation bmbt: disk_format "xfs_bmbt_disk_set_all r" xfs_bmbt_disk_get_all bmbt_irec_fits
  for r
  by unfold_locales (simp_all add: bmbt_from_to bmbt_to_from)

text \<open>
  Packing an extent that satisfies the asserted field widths and unpacking the record
  gives the extent back, whatever the record held before.
\<close>

theorem bmbt_set_get_roundtrip:
  assumes "bmbt_irec_fits s"
  shows "xfs_bmbt_disk_get_all (xfs_bmbt_disk_set_all r s) = s"
  using assms by (rule bmbt.from_to)

theorem bmbt_set_get_roundtrip_witness:
  "bmbt_irec_fits \<lparr>br_startoff = 5, br_startblock = 77, br_blockcount = 8, br_state = XFS_EXT_UNWRITTEN\<rparr> \<and>
   xfs_bmbt_disk_get_all (xfs_bmbt_disk_set_all \<lparr>l0 = 0, l1 = 0\<rparr>
      \<lparr>br_startoff = 5, br_startblock = 77, br_blockcount = 8, br_state = XFS_EXT_UNWRITTEN\<rparr>) =
   \<lparr>br_startoff = 5, br_startblock = 77, br_blockcount = 8, br_state = XFS_EXT_UNWRITTEN\<rparr>"
proof -
  have "bmbt_irec_fits \<lparr>br_startoff = 5, br_startblock = 77, br_blockcount = 8, br_state = XFS_EXT_UNWRITTEN\<rparr>"
    by (simp add: bmbt_irec_fits_def xfs_mask64hi_def mask_eq_exp_minus_1)
  then show ?thesis using bmbt_set_get_roundtrip by blast
qed

text \<open>
  Unpacking any record and packing the result gives the record back bit for bit, and the
  unpacked extent satisfies the asserted field widths.
\<close>

theorem bmbt_get_set_roundtrip:
  "xfs_bmbt_disk_set_all r (xfs_bmbt_disk_get_all d) = d \<and> bmbt_irec_fits (xfs_bmbt_disk_get_all d)"
  using bmbt.to_from bmbt.valid_from by blast

section \<open>Ordering\<close>

lemma get_startoff_all: "xfs_bmbt_disk_get_startoff r = br_startoff (xfs_bmbt_disk_get_all r)"
  by (simp add: xfs_bmbt_disk_get_startoff_def xfs_bmbt_disk_get_all_def bmbt_field_simps)

lemma get_blockcount_all: "xfs_bmbt_disk_get_blockcount r = br_blockcount (xfs_bmbt_disk_get_all r)"
  by (simp add: xfs_bmbt_disk_get_blockcount_def xfs_bmbt_disk_get_all_def bmbt_field_simps)

lemma startoff_bound: "unat (xfs_bmbt_disk_get_startoff r) < 2 ^ 54"
proof -
  have "unat (be64_to_cpu (l0 r) AND mask 63) < 2 ^ 63" by (rule unat_and_mask)
  then show ?thesis
    by (simp add: xfs_bmbt_disk_get_startoff_def bmbt_field_simps drop_bit_eq_div unat_div
        less_mult_imp_div_less)
qed

lemma blockcount_bound: "unat (xfs_bmbt_disk_get_blockcount r) < 2 ^ 21"
  by (simp only: xfs_bmbt_disk_get_blockcount_def bmbt_field_simps) (rule unat_and_mask)

lemma unat_rec_end:
  "unat (xfs_bmbt_disk_get_startoff r + xfs_bmbt_disk_get_blockcount r) =
   unat (xfs_bmbt_disk_get_startoff r) + unat (xfs_bmbt_disk_get_blockcount r)"
  using startoff_bound [of r] blockcount_bound [of r] by (intro unat_add_small) simp

text \<open>
  The record order test is exact (the end of the first extent cannot wrap), and for a
  nonempty first extent it puts the whole key range of the first record, low key to high
  key, before the low key of the second.
\<close>

theorem bmbt_recs_inorder_keys:
  assumes "xfs_bmbt_disk_get_blockcount r1 \<noteq> 0"
  shows "xfs_bmbt_recs_inorder r1 r2 \<longleftrightarrow>
     xfs_bmbt_keys_inorder (xfs_bmbt_init_high_key_from_rec r1) (xfs_bmbt_init_key_from_rec r2)"
    (is "?L \<longleftrightarrow> ?R")
proof -
  let ?e = "xfs_bmbt_disk_get_startoff r1 + xfs_bmbt_disk_get_blockcount r1"
  have "0 < unat (xfs_bmbt_disk_get_blockcount r1)" using assms by (simp add: unat_gt_0)
  then have "1 \<le> ?e" by (simp add: word_le_nat_alt unat_rec_end)
  then have "unat (?e - 1) = unat ?e - 1" "0 < unat ?e"
    by (simp_all add: unat_sub_le word_le_nat_alt)
  then show ?thesis
    by (auto simp: xfs_bmbt_recs_inorder_def xfs_bmbt_keys_inorder_def
        xfs_bmbt_init_high_key_from_rec_def xfs_bmbt_init_key_from_rec_def
        word_le_nat_alt word_less_nat_alt)
qed

theorem bmbt_recs_inorder_keys_witness:
  "xfs_bmbt_disk_get_blockcount \<lparr>l0 = 0, l1 = cpu_to_be64 8\<rparr> \<noteq> 0 \<and>
   (xfs_bmbt_recs_inorder \<lparr>l0 = 0, l1 = cpu_to_be64 8\<rparr> \<lparr>l0 = 0, l1 = 0\<rparr> \<longleftrightarrow>
     xfs_bmbt_keys_inorder (xfs_bmbt_init_high_key_from_rec \<lparr>l0 = 0, l1 = cpu_to_be64 8\<rparr>)
       (xfs_bmbt_init_key_from_rec \<lparr>l0 = 0, l1 = 0\<rparr>))"
proof -
  have "xfs_bmbt_disk_get_blockcount \<lparr>l0 = 0, l1 = cpu_to_be64 8\<rparr> \<noteq> 0"
    by (simp add: xfs_bmbt_disk_get_blockcount_def xfs_mask64lo_def)
  then show ?thesis using bmbt_recs_inorder_keys by blast
qed

section \<open>Delayed-allocation start blocks, continued\<close>

lemma bit_STARTBLOCKMASK: "bit STARTBLOCKMASK n \<longleftrightarrow> 17 \<le> n \<and> n < 52"
  unfolding STARTBLOCKMASK_def by (simp only: bit_mask_shift) auto

text \<open>
  A delayed-allocation start block made from an indirect-block reservation below
  \<open>2 ^ 17\<close> is recognised as such and gives the reservation back.
\<close>

theorem nullstartblock_roundtrip:
  assumes "unat k < 2 ^ 17"
  shows "isnullstartblock (nullstartblock k) \<and> startblockval (nullstartblock k) = ucast k"
proof -
  have k: "n < 17" if "bit k n" for n
    using assms that by (rule unat_bit_bound)
  have sk: "bit (scast k :: u64) n \<longleftrightarrow> bit k n" for n
    using k [of n] k [of 31] by (cases "n < 31") (auto simp: bit_simps min_def)
  have "nullstartblock k AND STARTBLOCKMASK = STARTBLOCKMASK"
    by (rule bit_word_eqI) (auto simp: nullstartblock_def bit_and_iff bit_or_iff)
  moreover have "startblockval (nullstartblock k) = ucast k"
    by (rule bit_word_eqI)
       (auto simp: startblockval_def nullstartblock_def bit_and_iff bit_or_iff bit_not_iff
         bit_ucast_iff sk bit_STARTBLOCKMASK dest: k)
  ultimately show ?thesis by (simp add: isnullstartblock_def)
qed

theorem nullstartblock_roundtrip_witness:
  "unat (100 :: u32) < 2 ^ 17 \<and> isnullstartblock (nullstartblock 100) \<and>
   startblockval (nullstartblock 100) = ucast (100 :: u32)"
proof -
  have "unat (100 :: u32) < 2 ^ 17" by simp
  then show ?thesis using nullstartblock_roundtrip by blast
qed

end
