(* ===== verification/List_Sort.thy ===== *)
theory List_Sort
  imports Prelude "HOL-Library.Multiset"
begin

text \<open>
  The merge sort of \<^verbatim>\<open>libfrog/list_sort.c\<close> and the comparison functions that the program passes
  to it (\<^verbatim>\<open>libxfs/defer_item.c\<close>, \<^verbatim>\<open>libxfs/trans.c\<close>).

  A linked list is the sequence of its nodes, a null pointer the empty list; the array
  \<^verbatim>\<open>part[]\<close> is a list of 21 such lists. The back links that the final merge restores are part of
  its result: each node with its predecessor (\<open>None\<close> is the list head), and the head's own back
  link. A null dereference or an access outside \<^verbatim>\<open>part[]\<close> is \<open>None\<close>.
\<close>

section \<open>Model\<close>

definition MAX_LIST_LENGTH_BITS :: nat where "MAX_LIST_LENGTH_BITS = 20"

fun merge :: "('a \<Rightarrow> 'a \<Rightarrow> int) \<Rightarrow> 'a list \<Rightarrow> 'a list \<Rightarrow> 'a list" where
  "merge cmp (x # a) (y # b) =
     (if cmp x y \<le> 0 then x # merge cmp a (y # b) else y # merge cmp (x # a) b)"
| "merge cmp a b = (if a \<noteq> [] then a else b)"

fun restore_links :: "'a option \<Rightarrow> 'a list \<Rightarrow> ('a \<times> 'a option) list" where
  "restore_links tail [] = []"
| "restore_links tail (x # xs) = (x, tail) # restore_links (Some x) xs"

fun merge_and_restore_back_links ::
    "('a \<Rightarrow> 'a \<Rightarrow> int) \<Rightarrow> 'a option \<Rightarrow> 'a list \<Rightarrow> 'a list \<Rightarrow> (('a \<times> 'a option) list \<times> 'a) option" where
  "merge_and_restore_back_links cmp tail (x # a) (y # b) =
     (if cmp x y \<le> 0
      then map_option (apfst (\<lambda>l. (x, tail) # l)) (merge_and_restore_back_links cmp (Some x) a (y # b))
      else map_option (apfst (\<lambda>l. (y, tail) # l)) (merge_and_restore_back_links cmp (Some y) (x # a) b))"
| "merge_and_restore_back_links cmp tail a b =
     (let rest = (if a \<noteq> [] then a else b)
      in if rest = [] then None else Some (restore_links tail rest, last rest))"

function carry :: "('a \<Rightarrow> 'a \<Rightarrow> int) \<Rightarrow> nat \<Rightarrow> 'a list \<Rightarrow> 'a list list \<Rightarrow> (nat \<times> 'a list \<times> 'a list list) option" where
  "carry cmp lev cur part =
     (if lev < length part then
        if part ! lev \<noteq> [] then carry cmp (Suc lev) (merge cmp (part ! lev) cur) (part[lev := []])
        else Some (lev, cur, part)
      else None)"
  by pat_completeness auto

termination by (relation "measure (\<lambda>(cmp, lev, cur, part). length part - lev)") auto

declare carry.simps [simp del]

definition sort_step :: "('a \<Rightarrow> 'a \<Rightarrow> int) \<Rightarrow> 'a \<Rightarrow> 'a list list \<times> nat \<Rightarrow> ('a list list \<times> nat) option" where
  "sort_step cmp cur st =
     (case st of (part, max_lev) \<Rightarrow>
        (case carry cmp 0 [cur] part of
           None \<Rightarrow> None
         | Some (lev, cur, part) \<Rightarrow>
             if lev > max_lev then
               let lev = (if lev \<ge> length part - 1 then lev - 1 else lev)
               in Some (part[lev := cur], lev)
             else Some (part[lev := cur], max_lev)))"

fun sort_loop :: "('a \<Rightarrow> 'a \<Rightarrow> int) \<Rightarrow> 'a list \<Rightarrow> 'a list list \<times> nat \<Rightarrow> ('a list list \<times> nat) option" where
  "sort_loop cmp [] st = Some st"
| "sort_loop cmp (cur # list) st =
     (case sort_step cmp cur st of None \<Rightarrow> None | Some st \<Rightarrow> sort_loop cmp list st)"

fun sort_collect :: "('a \<Rightarrow> 'a \<Rightarrow> int) \<Rightarrow> 'a list list \<Rightarrow> 'a list \<Rightarrow> 'a list" where
  "sort_collect cmp [] list = list"
| "sort_collect cmp (p # ps) list =
     sort_collect cmp ps (if p \<noteq> [] then merge cmp p list else list)"

text \<open>The result is the list of nodes with their back links and the back link of the head.\<close>

definition list_sort :: "('a \<Rightarrow> 'a \<Rightarrow> int) \<Rightarrow> 'a list \<Rightarrow> (('a \<times> 'a option) list \<times> 'a option) option" where
  "list_sort cmp xs =
     (if xs = [] then Some ([], None)
      else (case sort_loop cmp xs (replicate (MAX_LIST_LENGTH_BITS + 1) [], 0) of
              None \<Rightarrow> None
            | Some (part, max_lev) \<Rightarrow>
                (case merge_and_restore_back_links cmp None (part ! max_lev)
                        (sort_collect cmp (take max_lev part) []) of
                   None \<Rightarrow> None
                 | Some (links, prev) \<Rightarrow> Some (links, Some prev))))"

lemma merge_Nil_iff [simp]: "merge cmp a b = [] \<longleftrightarrow> a = [] \<and> b = []"
  by (induction cmp a b rule: merge.induct) auto

lemma back_links_merge:
  "a \<noteq> [] \<or> b \<noteq> [] \<Longrightarrow> merge_and_restore_back_links cmp tail a b =
     Some (restore_links tail (merge cmp a b), last (merge cmp a b))"
  by (induction cmp a b arbitrary: tail rule: merge.induct) (auto simp: Let_def)

section \<open>The contract of a comparison function\<close>

text \<open>On the elements of \<open>A\<close> the sign of \<open>cmp\<close> is a total preorder.\<close>

locale list_cmp =
  fixes cmp :: "'a \<Rightarrow> 'a \<Rightarrow> int" and A :: "'a set"
  assumes anti: "a \<in> A \<Longrightarrow> b \<in> A \<Longrightarrow> 0 < cmp a b \<longleftrightarrow> cmp b a < 0"
    and trans_le: "a \<in> A \<Longrightarrow> b \<in> A \<Longrightarrow> c \<in> A \<Longrightarrow> cmp a b \<le> 0 \<Longrightarrow> cmp b c \<le> 0 \<Longrightarrow> cmp a c \<le> 0"
begin

definition cmp_sorted :: "'a list \<Rightarrow> bool" where
  "cmp_sorted xs \<longleftrightarrow> sorted_wrt (\<lambda>x y. cmp x y \<le> 0) xs"

text \<open>Same elements, and elements that compare equal in the same order.\<close>

definition stable_perm :: "'a list \<Rightarrow> 'a list \<Rightarrow> bool" where
  "stable_perm xs ys \<longleftrightarrow>
     mset xs = mset ys \<and> (\<forall>z \<in> A. filter (\<lambda>y. cmp z y = 0) xs = filter (\<lambda>y. cmp z y = 0) ys)"

lemma stable_perm_refl [simp]: "stable_perm xs xs"
  by (simp add: stable_perm_def)

lemma stable_perm_trans: "stable_perm xs ys \<Longrightarrow> stable_perm ys zs \<Longrightarrow> stable_perm xs zs"
  by (simp add: stable_perm_def)

lemma stable_perm_append: "stable_perm a c \<Longrightarrow> stable_perm b d \<Longrightarrow> stable_perm (a @ b) (c @ d)"
  by (simp add: stable_perm_def)

lemma stable_perm_set: "stable_perm xs ys \<Longrightarrow> set xs = set ys"
  unfolding stable_perm_def by (metis set_mset_mset)

lemma lt_le_trans:
  assumes "a \<in> A" "b \<in> A" "c \<in> A" and "\<not> cmp a b \<le> 0" and "cmp a c \<le> 0"
  shows "cmp b c < 0"
proof -
  have "cmp b a < 0" using anti [of a b] assms by simp
  then have le: "cmp b c \<le> 0" using trans_le [of b a c] assms by simp
  have "cmp b c \<noteq> 0"
  proof
    assume "cmp b c = 0"
    then have "cmp c b \<le> 0" using anti [of c b] assms by (metis less_irrefl not_le)
    then show False using trans_le [of a c b] assms by simp
  qed
  with le show ?thesis by simp
qed

lemma not_eqv_of_lt:
  assumes "z \<in> A" "y \<in> A" "c \<in> A" and "cmp y c < 0" and "cmp z y = 0"
  shows "cmp z c \<noteq> 0"
proof
  assume "cmp z c = 0"
  then have "cmp c z \<le> 0" using anti [of c z] assms by (metis less_irrefl not_le)
  then have "cmp c y \<le> 0" using trans_le [of c z y] assms by simp
  with anti [of c y] assms show False by simp
qed

lemma merge_spec:
  assumes "set a \<union> set b \<subseteq> A" and "cmp_sorted a" and "cmp_sorted b"
  shows "stable_perm (merge cmp a b) (a @ b) \<and> cmp_sorted (merge cmp a b)"
  using assms
proof (induction "length a + length b" arbitrary: a b rule: less_induct)
  case less
  show ?case
  proof (cases "a = [] \<or> b = []")
    case True
    with less.prems show ?thesis by (cases a; cases b) (auto simp: cmp_sorted_def)
  next
    case False
    then obtain x a' y b' where ab: "a = x # a'" "b = y # b'" by (meson list.exhaust)
    have in_A: "x \<in> A" "y \<in> A" "set a' \<subseteq> A" "set b' \<subseteq> A" using less.prems(1) ab by auto
    have srt: "cmp_sorted a'" "cmp_sorted b'" "\<And>c. c \<in> set a' \<Longrightarrow> cmp x c \<le> 0" "\<And>c. c \<in> set b' \<Longrightarrow> cmp y c \<le> 0"
      using less.prems(2,3) ab by (auto simp: cmp_sorted_def)
    show ?thesis
    proof (cases "cmp x y \<le> 0")
      case True
      have IH: "stable_perm (merge cmp a' b) (a' @ b)" "cmp_sorted (merge cmp a' b)"
        using less.hyps [of a' b] less.prems ab srt by auto
      have "cmp x c \<le> 0" if "c \<in> set (a' @ b)" for c
        using that srt(3,4) True in_A trans_le [of x y c] ab by auto
      with IH True ab stable_perm_set [OF IH(1)] show ?thesis
        by (auto simp: cmp_sorted_def stable_perm_def)
    next
      case False
      have IH: "stable_perm (merge cmp a b') (a @ b')" "cmp_sorted (merge cmp a b')"
        using less.hyps [of a b'] less.prems ab srt by auto
      have lt: "cmp y c < 0" if "c \<in> set a" for c
        using that ab False srt(3) in_A lt_le_trans [of x y c] anti [of x y] by auto
      have "cmp y c \<le> 0" if "c \<in> set (a @ b')" for c using that lt srt(4) less_imp_le by auto
      then have "cmp_sorted (merge cmp a b)"
        using IH False ab stable_perm_set [OF IH(1)] by (auto simp: cmp_sorted_def)
      moreover have none: "filter (\<lambda>c. cmp z c = 0) a = []" if "z \<in> A" "cmp z y = 0" for z
        using that lt in_A less.prems(1) not_eqv_of_lt [of z y] by (fastforce simp: filter_empty_conv)
      have m: "merge cmp a (y # b') = y # merge cmp a b'" using False ab by simp
      have "filter (\<lambda>c. cmp z c = 0) (merge cmp a b) = filter (\<lambda>c. cmp z c = 0) (a @ b)" if "z \<in> A" for z
        using IH(1) none that unfolding ab(2) m by (simp add: stable_perm_def)
      moreover have "mset (merge cmp a b) = mset (a @ b)" using IH(1) unfolding ab(2) m by (simp add: stable_perm_def)
      ultimately show ?thesis by (simp add: stable_perm_def)
    qed
  qed
qed

text \<open>
  The array of partial lists: the elements seen so far, oldest first, are spread over the
  slots from the highest to the lowest.
\<close>

definition parts_ok :: "'a list list \<Rightarrow> bool" where
  "parts_ok part \<longleftrightarrow> length part = MAX_LIST_LENGTH_BITS + 1 \<and> (\<forall>p \<in> set part. set p \<subseteq> A \<and> cmp_sorted p)"

lemma parts_ok_update: "parts_ok part \<Longrightarrow> set p \<subseteq> A \<Longrightarrow> cmp_sorted p \<Longrightarrow> parts_ok (part[l := p])"
  using set_update_subset_insert [of part l p] by (auto simp: parts_ok_def)

lemma concat_rev_update:
  "l < length part \<Longrightarrow>
     concat (rev (part[l := p])) = concat (rev (drop (Suc l) part)) @ p @ concat (rev (take l part))"
  by (simp add: upd_conv_take_nth_drop)

lemma concat_rev_split:
  "l < length part \<Longrightarrow>
     concat (rev part) = concat (rev (drop (Suc l) part)) @ part ! l @ concat (rev (take l part))"
  using concat_rev_update [of l part "part ! l"] by simp

lemma concat_take_Nil: "\<forall>k < l. part ! k = [] \<Longrightarrow> l \<le> length part \<Longrightarrow> concat (rev (take l part)) = []"
  by (auto simp: in_set_conv_nth)

lemma concat_drop_Nil: "\<forall>k. l \<le> k \<and> k < length part \<longrightarrow> part ! k = [] \<Longrightarrow> concat (rev (drop l part)) = []"
  by (auto simp: in_set_conv_nth)

definition carried :: "nat \<Rightarrow> 'a list \<Rightarrow> 'a list list \<Rightarrow> nat \<Rightarrow> 'a list \<Rightarrow> 'a list list \<Rightarrow> bool" where
  "carried lev cur part lev' cur' part' \<longleftrightarrow>
     lev \<le> lev' \<and> lev' \<le> MAX_LIST_LENGTH_BITS \<and> parts_ok part' \<and> (\<forall>k \<le> lev'. part' ! k = []) \<and>
     (\<forall>k > lev'. part' ! k = part ! k) \<and> (\<forall>k. lev \<le> k \<and> k < lev' \<longrightarrow> part ! k \<noteq> []) \<and>
     set cur' \<subseteq> A \<and> cmp_sorted cur' \<and> cur' \<noteq> [] \<and>
     stable_perm (concat (rev part') @ cur') (concat (rev part) @ cur)"

lemma carried_step:
  assumes "carried (Suc lev) cur2 (part[lev := []]) lev' cur' part'" and "part ! lev \<noteq> []" and "lev < length part"
    and "stable_perm (concat (rev (part[lev := []])) @ cur2) (concat (rev part) @ cur)"
  shows "carried lev cur part lev' cur' part'"
proof -
  have lev: "Suc lev \<le> lev'" using assms(1) by (simp add: carried_def)
  have "part ! k \<noteq> []" if "lev \<le> k" "k < lev'" for k
    using assms(1,2) that by (cases "k = lev") (auto simp: carried_def)
  moreover have "part' ! k = part ! k" if "lev' < k" for k
    using assms(1) that lev by (auto simp: carried_def)
  moreover have "stable_perm (concat (rev part') @ cur') (concat (rev part) @ cur)"
    using assms(1,4) by (auto simp: carried_def intro: stable_perm_trans)
  ultimately show ?thesis using assms(1) lev by (simp add: carried_def)
qed

lemma carry_spec:
  assumes "parts_ok part" and "part ! MAX_LIST_LENGTH_BITS = []" and "lev \<le> MAX_LIST_LENGTH_BITS"
    and "\<forall>k < lev. part ! k = []" and "set cur \<subseteq> A" and "cmp_sorted cur" and "cur \<noteq> []"
  shows "\<exists>lev' cur' part'. carry cmp lev cur part = Some (lev', cur', part') \<and> carried lev cur part lev' cur' part'"
  using assms
proof (induction "MAX_LIST_LENGTH_BITS - lev" arbitrary: lev cur part rule: less_induct)
  case less
  have len: "lev < length part" using less.prems(1,3) by (simp add: parts_ok_def)
  show ?case
  proof (cases "part ! lev = []")
    case True
    with len have "carry cmp lev cur part = Some (lev, cur, part)" by (simp add: carry.simps)
    moreover have "\<forall>k \<le> lev. part ! k = []" using True less.prems(4) le_neq_implies_less by blast
    ultimately show ?thesis
      using less.prems by (intro exI [of _ lev] exI [of _ cur] exI [of _ part]) (simp add: carried_def)
  next
    case False
    with less.prems(2,3) have lt: "lev < MAX_LIST_LENGTH_BITS" by (metis le_neq_implies_less)
    let ?cur = "merge cmp (part ! lev) cur" and ?part = "part[lev := []]"
    have p: "set (part ! lev) \<subseteq> A" "cmp_sorted (part ! lev)" using less.prems(1) len by (auto simp: parts_ok_def)
    note m = merge_spec [OF Un_least [OF p(1) less.prems(5)] p(2) less.prems(6)]
    have m_set: "set ?cur = set (part ! lev) \<union> set cur" using stable_perm_set [of ?cur "part ! lev @ cur"] m by simp
    have "carry cmp lev cur part = carry cmp (Suc lev) ?cur ?part"
      using len False by (simp add: carry.simps [of cmp lev])
    moreover have "\<exists>lev' cur' part'. carry cmp (Suc lev) ?cur ?part = Some (lev', cur', part') \<and>
       carried (Suc lev) ?cur ?part lev' cur' part'"
    proof (rule less.hyps)
      show "set ?cur \<subseteq> A" "?cur \<noteq> []" using m_set p(1) less.prems(5,7) by auto
      show "parts_ok ?part" using less.prems(1) by (intro parts_ok_update) (simp_all add: cmp_sorted_def)
      show "\<forall>k < Suc lev. ?part ! k = []" using less.prems(4) len by (auto simp: nth_list_update less_Suc_eq)
    qed (use lt m less.prems(2) in \<open>auto simp: nth_list_update\<close>)
    moreover have "stable_perm (concat (rev ?part) @ ?cur) (concat (rev part) @ cur)"
    proof -
      have "concat (rev (take lev part)) = []" using less.prems(4) len by (intro concat_take_Nil) auto
      then have "concat (rev part) = concat (rev (drop (Suc lev) part)) @ part ! lev"
        "concat (rev ?part) = concat (rev (drop (Suc lev) part))"
        using concat_rev_split [OF len] concat_rev_update [OF len, of "[]"] by simp_all
      with m show ?thesis by (auto intro: stable_perm_append)
    qed
    ultimately show ?thesis using carried_step [OF _ False len] by metis
  qed
qed

text \<open>The state of the main loop after the elements \<open>seen\<close>.\<close>

definition sort_inv :: "'a list \<Rightarrow> 'a list list \<times> nat \<Rightarrow> bool" where
  "sort_inv seen st \<longleftrightarrow>
     (case st of (part, max_lev) \<Rightarrow>
        parts_ok part \<and> max_lev < MAX_LIST_LENGTH_BITS \<and> (\<forall>k > max_lev. k \<le> MAX_LIST_LENGTH_BITS \<longrightarrow> part ! k = []) \<and>
        (if seen = [] then max_lev = 0 else part ! max_lev \<noteq> []) \<and> stable_perm (concat (rev part)) seen)"

lemma sort_step_spec:
  assumes inv: "sort_inv seen (part, max_lev)" and "x \<in> A"
  shows "\<exists>st. sort_step cmp x (part, max_lev) = Some st \<and> sort_inv (seen @ [x]) st"
proof -
  have p: "parts_ok part" "part ! MAX_LIST_LENGTH_BITS = []" using inv by (auto simp: sort_inv_def)
  from carry_spec [OF p, of 0 "[x]"] assms(2) obtain lev cur part1 where
    c: "carry cmp 0 [x] part = Some (lev, cur, part1)" "carried 0 [x] part lev cur part1"
    by (auto simp: cmp_sorted_def)
  define lev1 where "lev1 = (if lev > max_lev \<and> lev \<ge> length part1 - 1 then lev - 1 else lev)"
  have len: "length part1 = Suc MAX_LIST_LENGTH_BITS" using c(2) by (simp add: carried_def parts_ok_def)
  have step: "sort_step cmp x (part, max_lev) = Some (part1[lev1 := cur], max max_lev lev1)"
    using c(1) inv c(2) len by (auto simp: sort_step_def lev1_def Let_def sort_inv_def carried_def)
  have l1: "lev1 \<le> lev" "lev1 < MAX_LIST_LENGTH_BITS" "lev1 = lev \<or> max_lev \<le> lev1"
    using inv c(2) len by (auto simp: lev1_def sort_inv_def carried_def)
  then have l1': "lev1 < length part1" using len by simp
  have empty: "\<And>k. k \<le> lev \<Longrightarrow> part1 ! k = []" using c(2) by (simp add: carried_def)
  have perm: "stable_perm (concat (rev (part1[lev1 := cur]))) (seen @ [x])"
  proof -
    have "concat (rev (take lev1 part1)) = []" using empty l1 len by (intro concat_take_Nil) auto
    then have "concat (rev (part1[lev1 := cur])) = concat (rev part1) @ cur"
      using concat_rev_update [OF l1', of cur] concat_rev_split [OF l1'] empty [OF l1(1)]
      by (simp only: append_Nil append_Nil2 append_assoc)
    moreover have "stable_perm (concat (rev part) @ [x]) (seen @ [x])"
      using inv by (auto simp: sort_inv_def intro: stable_perm_append)
    ultimately show ?thesis using c(2) by (auto simp: carried_def intro: stable_perm_trans)
  qed
  have high: "part1[lev1 := cur] ! k = []" if "max max_lev lev1 < k" "k \<le> MAX_LIST_LENGTH_BITS" for k
    using that empty [of k] inv c(2) by (cases "k \<le> lev") (auto simp: carried_def sort_inv_def)
  have top: "part1[lev1 := cur] ! max max_lev lev1 \<noteq> []"
  proof (cases "max_lev \<le> lev1")
    case True
    then show ?thesis using l1' c(2) by (simp add: max_def carried_def)
  next
    case False
    with l1(3) inv c(2) show ?thesis by (auto simp: max_def carried_def sort_inv_def split: if_splits)
  qed
  have "parts_ok (part1[lev1 := cur])" using c(2) by (intro parts_ok_update) (auto simp: carried_def)
  with perm high top l1(2) inv step show ?thesis by (auto simp: sort_inv_def)
qed

lemma sort_loop_spec:
  "sort_inv seen st \<Longrightarrow> set xs \<subseteq> A \<Longrightarrow> \<exists>st'. sort_loop cmp xs st = Some st' \<and> sort_inv (seen @ xs) st'"
proof (induction xs arbitrary: seen st)
  case (Cons x xs)
  obtain part max_lev where st: "st = (part, max_lev)" by (cases st)
  with sort_step_spec [of seen part max_lev x] Cons.prems obtain st1 where
    "sort_step cmp x st = Some st1" "sort_inv (seen @ [x]) st1" by auto
  with Cons.IH [of "seen @ [x]" st1] Cons.prems show ?case by auto
qed auto

lemma sort_collect_spec:
  "(\<forall>p \<in> set ps. set p \<subseteq> A \<and> cmp_sorted p) \<Longrightarrow> set list \<subseteq> A \<Longrightarrow> cmp_sorted list \<Longrightarrow>
     stable_perm (sort_collect cmp ps list) (concat (rev ps) @ list) \<and> cmp_sorted (sort_collect cmp ps list)"
proof (induction ps arbitrary: list)
  case (Cons p ps)
  let ?l = "if p \<noteq> [] then merge cmp p list else list"
  have m: "stable_perm ?l (p @ list) \<and> cmp_sorted ?l" using merge_spec [of p list] Cons.prems by auto
  then have "set ?l = set p \<union> set list" using stable_perm_set [of ?l "p @ list"] by simp
  with Cons.prems have "set ?l \<subseteq> A" by auto
  with Cons.IH [of ?l] Cons.prems m have "stable_perm (sort_collect cmp ps ?l) (concat (rev ps) @ ?l)"
    "cmp_sorted (sort_collect cmp ps ?l)" by auto
  moreover have "stable_perm (concat (rev ps) @ ?l) (concat (rev ps) @ p @ list)"
    using m by (intro stable_perm_append) auto
  ultimately show ?case by (auto intro: stable_perm_trans)
qed simp

lemma list_sort_spec:
  assumes "set xs \<subseteq> A"
  shows "\<exists>ys. list_sort cmp xs = Some (restore_links None ys, if ys = [] then None else Some (last ys)) \<and>
     cmp_sorted ys \<and> stable_perm ys xs"
proof (cases "xs = []")
  case True
  then show ?thesis by (auto simp: list_sort_def cmp_sorted_def)
next
  case False
  let ?st = "(replicate (MAX_LIST_LENGTH_BITS + 1) [], 0)"
  have "sort_inv [] ?st" by (auto simp: sort_inv_def parts_ok_def cmp_sorted_def MAX_LIST_LENGTH_BITS_def nth_Cons')
  from sort_loop_spec [OF this assms] obtain part max_lev where
    loop: "sort_loop cmp xs ?st = Some (part, max_lev)" "sort_inv xs (part, max_lev)" by auto
  then have top: "part ! max_lev \<noteq> []" and len: "max_lev < length part" and ok: "parts_ok part"
    and perm: "stable_perm (concat (rev part)) xs"
    using False by (auto simp: sort_inv_def parts_ok_def)
  let ?l = "sort_collect cmp (take max_lev part) []"
  have "\<forall>p \<in> set (take max_lev part). set p \<subseteq> A \<and> cmp_sorted p"
    using ok by (auto simp: parts_ok_def dest: in_set_takeD)
  from sort_collect_spec [OF this, of "[]"]
  have l: "stable_perm ?l (concat (rev (take max_lev part)))" "cmp_sorted ?l" by (simp_all add: cmp_sorted_def)
  have t: "set (part ! max_lev) \<subseteq> A" "cmp_sorted (part ! max_lev)" using ok len by (auto simp: parts_ok_def)
  have "set ?l \<subseteq> A" using stable_perm_set [OF l(1)] ok by (auto simp: parts_ok_def dest: in_set_takeD)
  note m = merge_spec [OF Un_least [OF t(1) this] t(2) l(2)]
  have "concat (rev (drop (Suc max_lev) part)) = []"
    using loop(2) by (intro concat_drop_Nil) (auto simp: sort_inv_def parts_ok_def)
  then have "concat (rev part) = part ! max_lev @ concat (rev (take max_lev part))"
    using concat_rev_split [OF len] by (simp only: append_Nil)
  with perm have "stable_perm (part ! max_lev @ ?l) xs"
    using l(1) by (metis stable_perm_append stable_perm_refl stable_perm_trans)
  moreover have "list_sort cmp xs = Some (restore_links None (merge cmp (part ! max_lev) ?l), Some (last (merge cmp (part ! max_lev) ?l)))"
    using False loop(1) top by (simp add: list_sort_def back_links_merge)
  moreover have "merge cmp (part ! max_lev) ?l \<noteq> []"
    using m top stable_perm_set by fastforce
  ultimately show ?thesis using m by (intro exI [of _ "merge cmp (part ! max_lev) ?l"]) (auto intro: stable_perm_trans)
qed

end

end
