(* ===== verification/Sort_Clients.thy ===== *)
theory Sort_Clients
  imports List_Sort
begin

text \<open>
  The comparison functions passed to \<^verbatim>\<open>list_sort\<close>: the deferred work items of
  \<^verbatim>\<open>libxfs/defer_item.c\<close>, which return the difference of two unsigned numbers as an \<^verbatim>\<open>int\<close>, and the
  precommit order of \<^verbatim>\<open>libxfs/trans.c\<close>. Each contract of \<open>list_cmp\<close> holds on a range of keys: an
  interpretation per function says on which. \<open>priv\<close>, the first argument, is unused throughout.
\<close>

section \<open>Model\<close>

record xfs_extent_free_item =
  xefi_gno :: u32
  xefi_startblock :: u64
  xefi_blockcount :: u32

record xfs_rmap_intent =
  ri_gno :: u32
  ri_owner :: u64

record xfs_refcount_intent =
  ci_gno :: u32
  ci_startblock :: u64

record xfs_bmap_intent =
  bi_owner_ino :: u64

text \<open>\<open>li_sort\<close> is the value of \<^verbatim>\<open>iop_sort\<close> for the item, \<open>None\<close> when the operation is absent.\<close>

record xfs_log_item =
  li_id :: nat
  li_sort :: "u64 option"
  li_dirty :: bool
  li_has_precommit :: bool

definition xfs_extent_free_diff_items :: "xfs_extent_free_item \<Rightarrow> xfs_extent_free_item \<Rightarrow> int" where
  "xfs_extent_free_diff_items ra rb = sint (xefi_gno ra - xefi_gno rb)"

definition xfs_rmap_update_diff_items :: "xfs_rmap_intent \<Rightarrow> xfs_rmap_intent \<Rightarrow> int" where
  "xfs_rmap_update_diff_items ra rb = sint (ri_gno ra - ri_gno rb)"

definition xfs_refcount_update_diff_items :: "xfs_refcount_intent \<Rightarrow> xfs_refcount_intent \<Rightarrow> int" where
  "xfs_refcount_update_diff_items ra rb = sint (ci_gno ra - ci_gno rb)"

text \<open>The 64-bit difference is truncated to the \<^verbatim>\<open>int\<close> that is returned.\<close>

definition xfs_bmap_update_diff_items :: "xfs_bmap_intent \<Rightarrow> xfs_bmap_intent \<Rightarrow> int" where
  "xfs_bmap_update_diff_items ba bb = sint (ucast (bi_owner_ino ba - bi_owner_ino bb) :: u32)"

definition xfs_trans_precommit_sort :: "xfs_log_item \<Rightarrow> xfs_log_item \<Rightarrow> int" where
  "xfs_trans_precommit_sort lia lib =
     (case (li_sort lia, li_sort lib) of
        (None, None) \<Rightarrow> 0
      | (None, _) \<Rightarrow> 1
      | (_, None) \<Rightarrow> - 1
      | (Some a, Some b) \<Rightarrow>
          let diff = sint (a - b)
          in if diff < 0 then - 1 else if diff > 0 then 1 else 0)"

text \<open>The nodes of a sorted list; an empty result stands for a fault, which does not occur.\<close>

definition sorted_items :: "('a \<Rightarrow> 'a \<Rightarrow> int) \<Rightarrow> 'a list \<Rightarrow> 'a list" where
  "sorted_items cmp items = (case list_sort cmp items of None \<Rightarrow> [] | Some (links, _) \<Rightarrow> map fst links)"

definition xfs_extent_free_create_intent :: "xfs_extent_free_item list \<Rightarrow> bool \<Rightarrow> xfs_extent_free_item list" where
  "xfs_extent_free_create_intent items srt =
     (if srt then sorted_items xfs_extent_free_diff_items items else items)"

definition xfs_rmap_update_create_intent :: "xfs_rmap_intent list \<Rightarrow> bool \<Rightarrow> xfs_rmap_intent list" where
  "xfs_rmap_update_create_intent items srt =
     (if srt then sorted_items xfs_rmap_update_diff_items items else items)"

definition xfs_refcount_update_create_intent :: "xfs_refcount_intent list \<Rightarrow> bool \<Rightarrow> xfs_refcount_intent list" where
  "xfs_refcount_update_create_intent items srt =
     (if srt then sorted_items xfs_refcount_update_diff_items items else items)"

definition xfs_bmap_update_create_intent :: "xfs_bmap_intent list \<Rightarrow> bool \<Rightarrow> xfs_bmap_intent list" where
  "xfs_bmap_update_create_intent items srt =
     (if srt then sorted_items xfs_bmap_update_diff_items items else items)"

text \<open>
  The precommit run. \<open>precommit\<close> is the item's \<^verbatim>\<open>iop_precommit\<close>, an error or nothing, with the
  state it changes; the walk stops at the first error. An operation may take its own item off
  the list, which the safe iteration allows for and which does not change the walk. The call of
  \<^verbatim>\<open>xfs_force_shutdown\<close> after an error is an empty macro of \<^verbatim>\<open>libxfs_priv.h\<close>.
\<close>

fun precommit_loop :: "(xfs_log_item \<Rightarrow> 's \<Rightarrow> errno option \<times> 's) \<Rightarrow> xfs_log_item list \<Rightarrow> 's \<Rightarrow> errno option \<times> 's" where
  "precommit_loop precommit [] s = (None, s)"
| "precommit_loop precommit (lip # rest) s =
     (if \<not> li_dirty lip then precommit_loop precommit rest s
      else if li_has_precommit lip then
        (case precommit lip s of
           (Some e, s) \<Rightarrow> (Some e, s)
         | (None, s) \<Rightarrow> precommit_loop precommit rest s)
      else precommit_loop precommit rest s)"

definition xfs_trans_run_precommits ::
    "(xfs_log_item \<Rightarrow> 's \<Rightarrow> errno option \<times> 's) \<Rightarrow> xfs_log_item list \<Rightarrow> 's \<Rightarrow> errno option \<times> 's" where
  "xfs_trans_run_precommits precommit t_items s =
     precommit_loop precommit (sorted_items xfs_trans_precommit_sort t_items) s"

section \<open>The contracts\<close>

lemma sint_diff_small:
  fixes a b :: "'a::len word"
  assumes "unat a < 2 ^ (LENGTH('a) - 1)" and "unat b < 2 ^ (LENGTH('a) - 1)"
  shows "sint (a - b) = int (unat a) - int (unat b)"
proof -
  obtain m n where mn: "unat a = m" "unat b = n" by simp
  then have "a - b = of_int (int m - int n)" by (simp flip: mn)
  moreover have "int m < 2 ^ (LENGTH('a) - 1)" "int n < 2 ^ (LENGTH('a) - 1)"
    using assms mn by (metis of_nat_less_iff of_nat_numeral of_nat_power)+
  then have "sint (of_int (int m - int n) :: 'a word) = int m - int n"
    unfolding sint_sbintrunc' by (intro signed_take_bit_int_eq_self) linarith+
  ultimately show ?thesis using mn by simp
qed

lemma ucast_diff_64_32: "(ucast (x - y :: u64) :: u32) = ucast x - ucast y"
proof -
  have "(a - b) mod 4294967296 = (a mod 18446744073709551616 - b mod 18446744073709551616) mod 4294967296" for a b :: int
    by (rule mod_diff_cong) (simp_all add: mod_mod_cancel)
  then show ?thesis by transfer (simp add: take_bit_eq_mod mod_diff_eq mod_mod_cancel)
qed

lemma map_restore_links [simp]: "map fst (restore_links tail xs) = xs"
  by (induction xs arbitrary: tail) auto

interpretation extent_free: list_cmp xfs_extent_free_diff_items "{i. unat (xefi_gno i) < 2 ^ 31}"
  by unfold_locales (auto simp: xfs_extent_free_diff_items_def sint_diff_small)

interpretation rmap_update: list_cmp xfs_rmap_update_diff_items "{i. unat (ri_gno i) < 2 ^ 31}"
  by unfold_locales (auto simp: xfs_rmap_update_diff_items_def sint_diff_small)

interpretation refcount_update: list_cmp xfs_refcount_update_diff_items "{i. unat (ci_gno i) < 2 ^ 31}"
  by unfold_locales (auto simp: xfs_refcount_update_diff_items_def sint_diff_small)

interpretation bmap_update: list_cmp xfs_bmap_update_diff_items "{i. unat (bi_owner_ino i) < 2 ^ 31}"
proof -
  have "xfs_bmap_update_diff_items a b = int (unat (bi_owner_ino a)) - int (unat (bi_owner_ino b))"
    if "unat (bi_owner_ino a) < 2 ^ 31" "unat (bi_owner_ino b) < 2 ^ 31" for a b
  proof -
    let ?a = "ucast (bi_owner_ino a) :: u32" and ?b = "ucast (bi_owner_ino b) :: u32"
    have "unat ?a = unat (bi_owner_ino a)" "unat ?b = unat (bi_owner_ino b)"
      using that by (simp_all add: unat_ucast_64_32)
    moreover have "ucast (bi_owner_ino a - bi_owner_ino b) = ?a - ?b" by (rule ucast_diff_64_32)
    ultimately show ?thesis using sint_diff_small [of ?a ?b] that by (simp add: xfs_bmap_update_diff_items_def)
  qed
  then show "list_cmp xfs_bmap_update_diff_items {i. unat (bi_owner_ino i) < 2 ^ 31}"
    by unfold_locales auto
qed

interpretation precommit: list_cmp xfs_trans_precommit_sort "{i. \<forall>k. li_sort i = Some k \<longrightarrow> unat k < 2 ^ 63}"
  by unfold_locales
     (auto simp: xfs_trans_precommit_sort_def Let_def sint_diff_small split: option.splits if_splits)

section \<open>Sorting and stopping\<close>

text \<open>The order in which the items are to be taken.\<close>

definition precommit_before :: "xfs_log_item \<Rightarrow> xfs_log_item \<Rightarrow> bool" where
  "precommit_before i j =
     (case (li_sort i, li_sort j) of (Some a, Some b) \<Rightarrow> a \<le> b | (None, Some _) \<Rightarrow> False | _ \<Rightarrow> True)"

lemma precommit_cmp:
  assumes "i \<in> {i. \<forall>k. li_sort i = Some k \<longrightarrow> unat k < 2 ^ 63}" "j \<in> {i. \<forall>k. li_sort i = Some k \<longrightarrow> unat k < 2 ^ 63}"
  shows "xfs_trans_precommit_sort i j \<le> 0 \<Longrightarrow> precommit_before i j" "xfs_trans_precommit_sort i j = 0 \<longleftrightarrow> li_sort j = li_sort i"
  using assms
  by (auto simp: xfs_trans_precommit_sort_def precommit_before_def Let_def sint_diff_small word_le_def
      split: option.splits if_splits dest: word_uint_eqI)

text \<open>
  A list of calls that ends at the first error, said without a loop: \<open>after\<close> is the state after a
  number of calls, and the outcome is that of all calls, none of which fails, or that of the
  calls up to the first one that fails.
\<close>

definition after :: "('i \<Rightarrow> 's \<Rightarrow> errno option \<times> 's) \<Rightarrow> 'i list \<Rightarrow> 's \<Rightarrow> 's" where
  "after f calls s = fold (\<lambda>i s. snd (f i s)) calls s"

definition until_error :: "('i \<Rightarrow> 's \<Rightarrow> errno option \<times> 's) \<Rightarrow> 'i list \<Rightarrow> 's \<Rightarrow> errno option \<times> 's \<Rightarrow> bool" where
  "until_error f calls s out \<longleftrightarrow>
     out = (None, after f calls s) \<and> (\<forall>k < length calls. fst (f (calls ! k) (after f (take k calls) s)) = None) \<or>
     (\<exists>k e. k < length calls \<and> out = (Some e, after f (take (Suc k) calls) s) \<and>
       fst (f (calls ! k) (after f (take k calls) s)) = Some e \<and>
       (\<forall>j < k. fst (f (calls ! j) (after f (take j calls) s)) = None))"

lemma after_Cons [simp]: "after f (i # calls) s = after f calls (snd (f i s))" "after f [] s = s"
  by (simp_all add: after_def)

lemma until_error_Nil: "until_error f [] s out \<longleftrightarrow> out = (None, s)"
  by (simp add: until_error_def)

lemma until_error_stop: "f i s = (Some e, s') \<Longrightarrow> until_error f (i # calls) s (Some e, s')"
  unfolding until_error_def by (rule disjI2, rule exI [of _ 0]) simp

lemma until_error_go:
  assumes "f i s = (None, s')" and "until_error f calls s' out"
  shows "until_error f (i # calls) s out"
  using assms(2) unfolding until_error_def [of f calls]
proof (elim disjE exE conjE)
  assume "out = (None, after f calls s')" "\<forall>k < length calls. fst (f (calls ! k) (after f (take k calls) s')) = None"
  then show ?thesis unfolding until_error_def by (intro disjI1) (auto simp: assms(1) less_Suc_eq_0_disj)
next
  fix k e
  assume "k < length calls" "out = (Some e, after f (take (Suc k) calls) s')"
    "fst (f (calls ! k) (after f (take k calls) s')) = Some e"
    "\<forall>j < k. fst (f (calls ! j) (after f (take j calls) s')) = None"
  then show ?thesis unfolding until_error_def
    by (intro disjI2 exI [of _ "Suc k"] exI [of _ e]) (auto simp: assms(1) less_Suc_eq_0_disj)
qed

lemma precommit_loop_until_error:
  "until_error f (filter (\<lambda>i. li_dirty i \<and> li_has_precommit i) items) s (precommit_loop f items s)"
proof (induction items arbitrary: s)
  case (Cons i items)
  then show ?case
    by (cases "f i s"; cases "fst (f i s)") (auto intro: until_error_stop until_error_go)
qed (simp add: until_error_Nil)

definition precommit_example :: "xfs_log_item list" where
  "precommit_example =
     [\<lparr>li_id = 1, li_sort = Some 900, li_dirty = True, li_has_precommit = True\<rparr>,
      \<lparr>li_id = 2, li_sort = None, li_dirty = True, li_has_precommit = False\<rparr>,
      \<lparr>li_id = 3, li_sort = Some 128, li_dirty = True, li_has_precommit = True\<rparr>,
      \<lparr>li_id = 4, li_sort = Some 64, li_dirty = True, li_has_precommit = True\<rparr>,
      \<lparr>li_id = 5, li_sort = Some 96, li_dirty = False, li_has_precommit = True\<rparr>]"

section \<open>The sign of a truncated difference\<close>

lemma high_half: "2 ^ 31 \<le> k \<Longrightarrow> k < 2 ^ 32 \<Longrightarrow> k div 2 ^ 31 = (1 :: int)"
  by (simp add: div_pos_geq)

lemma sint32_sign: "sint (w :: u32) < 0 \<longleftrightarrow> 2 ^ 31 \<le> uint w"
proof -
  have "uint w < 2 ^ 32" using unsigned_less [of w, where 'a = int] by simp
  then have "bit (uint w) 31 \<longleftrightarrow> 2 ^ 31 \<le> uint w"
    by (cases "uint w < 2 ^ 31") (auto simp: bit_iff_odd high_half [simplified])
  then show ?thesis by (simp add: sint_uint signed_take_bit_negative_iff)
qed

lemma uint_ucast_diff: "uint (ucast (x - y :: u64) :: u32) = (uint x - uint y) mod 2 ^ 32"
proof -
  have "uint (x - y) = (uint x - uint y) mod 2 ^ 64" by (simp add: uint_word_arith_bintrs take_bit_eq_mod)
  then have "uint (ucast (x - y) :: u32) = (uint x - uint y) mod 2 ^ 64 mod 2 ^ 32"
    by (simp only: unsigned_ucast_eq take_bit_eq_mod) simp
  then show ?thesis by (simp add: mod_mod_cancel)
qed

lemma bmap_diff_sign:
  "xfs_bmap_update_diff_items a b = 0 \<longleftrightarrow> unat (bi_owner_ino a) mod 2 ^ 32 = unat (bi_owner_ino b) mod 2 ^ 32"
  "xfs_bmap_update_diff_items a b < 0 \<longleftrightarrow> 2 ^ 31 \<le> (int (unat (bi_owner_ino a)) - int (unat (bi_owner_ino b))) mod 2 ^ 32"
proof -
  let ?a = "bi_owner_ino a" and ?b = "bi_owner_ino b" and ?d = "ucast (bi_owner_ino a - bi_owner_ino b) :: u32"
  have "?d = 0 \<longleftrightarrow> (ucast ?a :: u32) = ucast ?b" by (simp add: ucast_diff_64_32)
  also have "\<dots> \<longleftrightarrow> unat ?a mod 2 ^ 32 = unat ?b mod 2 ^ 32" by (simp only: word_unat_eq_iff unat_ucast_64_32)
  finally show "xfs_bmap_update_diff_items a b = 0 \<longleftrightarrow> unat ?a mod 2 ^ 32 = unat ?b mod 2 ^ 32"
    by (simp add: xfs_bmap_update_diff_items_def signed_eq_0_iff)
  have "uint ?d = (uint ?a - uint ?b) mod 2 ^ 32" by (rule uint_ucast_diff)
  then show "xfs_bmap_update_diff_items a b < 0 \<longleftrightarrow> 2 ^ 31 \<le> (int (unat ?a) - int (unat ?b)) mod 2 ^ 32"
    using sint32_sign [of ?d] by (simp add: xfs_bmap_update_diff_items_def)
qed

section \<open>Properties\<close>

text \<open>
  C15. For every comparison function that is a total preorder on the elements (the contract
  documented at \<^verbatim>\<open>list_sort\<close>), \<^verbatim>\<open>list_sort\<close> returns for lists of any length, longer than
  \<open>2 ^ 20\<close> included, a sorted permutation of its input in which elements that compare equal keep
  their order; every node's back link is its predecessor and the head's is the last node.
\<close>

theorem list_sort_correct:
  assumes "list_cmp cmp A" and "set xs \<subseteq> A"
  shows "\<exists>ys. list_sort cmp xs = Some (restore_links None ys, if ys = [] then None else Some (last ys)) \<and>
    sorted_wrt (\<lambda>x y. cmp x y \<le> 0) ys \<and> mset ys = mset xs \<and>
    (\<forall>z \<in> A. filter (\<lambda>y. cmp z y = 0) ys = filter (\<lambda>y. cmp z y = 0) xs)"
  using list_cmp.list_sort_spec [OF assms] list_cmp.cmp_sorted_def [OF assms(1)] list_cmp.stable_perm_def [OF assms(1)]
  by metis

theorem list_sort_correct_witness:
  "\<exists>ys. list_sort xfs_extent_free_diff_items [\<lparr>xefi_gno = 3, xefi_startblock = 7, xefi_blockcount = 1\<rparr>,
       \<lparr>xefi_gno = 1, xefi_startblock = 9, xefi_blockcount = 2\<rparr>] =
     Some (restore_links None ys, if ys = [] then None else Some (last ys)) \<and> length ys = 2"
proof -
  let ?xs = "[\<lparr>xefi_gno = 3, xefi_startblock = 7, xefi_blockcount = 1\<rparr>,
       \<lparr>xefi_gno = 1, xefi_startblock = 9, xefi_blockcount = 2\<rparr>] :: xfs_extent_free_item list"
  obtain ys where "list_sort xfs_extent_free_diff_items ?xs =
      Some (restore_links None ys, if ys = [] then None else Some (last ys))" "mset ys = mset ?xs"
    using list_sort_correct [OF extent_free.list_cmp_axioms, of ?xs] by auto
  moreover from this(2) have "length ys = length ?xs" by (rule mset_eq_length)
  then have "length ys = 2" by simp
  ultimately show ?thesis by blast
qed

text \<open>
  C16. The precommit run, for sort keys below \<open>2 ^ 63\<close>. It takes the items of the transaction in
  ascending order of their keys, the items without a key last and items of equal rank as they
  were in the transaction. Of these the dirty items that have a precommit operation, and no
  others, are called in turn, each on the state its predecessor left; an error ends the run
  with that error and the state its operation left, and otherwise all of them are called. A
  key of \<open>2 ^ 63\<close> or more would turn the sign of the 64-bit difference.
\<close>

theorem precommits_in_order:
  assumes "\<forall>i \<in> set items. \<forall>k. li_sort i = Some k \<longrightarrow> unat k < 2 ^ 63"
  shows "\<exists>order. mset order = mset items \<and> sorted_wrt precommit_before order \<and>
    (\<forall>k. filter (\<lambda>i. li_sort i = k) order = filter (\<lambda>i. li_sort i = k) items) \<and>
    until_error f (filter (\<lambda>i. li_dirty i \<and> li_has_precommit i) order) s (xfs_trans_run_precommits f items s)"
proof -
  let ?A = "{i. \<forall>k. li_sort i = Some k \<longrightarrow> unat k < 2 ^ 63}"
  have A: "set items \<subseteq> ?A" using assms by blast
  from precommit.list_sort_spec [OF A] obtain ys where
    ys: "list_sort xfs_trans_precommit_sort items = Some (restore_links None ys, if ys = [] then None else Some (last ys))"
      "precommit.cmp_sorted ys" "precommit.stable_perm ys items" by blast
  have m: "mset ys = mset items" using ys(3) unfolding precommit.stable_perm_def by (rule conjunct1)
  then have set: "set ys = set items" by (metis set_mset_mset)
  have "sorted_wrt precommit_before ys"
    using ys(2) unfolding precommit.cmp_sorted_def
    by (rule sorted_wrt_mono_rel [rotated]) (use A set precommit_cmp(1) in blast)
  moreover have "filter (\<lambda>i. li_sort i = k) ys = filter (\<lambda>i. li_sort i = k) items" for k
  proof (cases "\<exists>z \<in> set items. li_sort z = k")
    case True
    then obtain z where z: "z \<in> set items" "li_sort z = k" by blast
    have "filter (\<lambda>y. li_sort y = k) xs = filter (\<lambda>y. xfs_trans_precommit_sort z y = 0) xs" if "set xs = set items" for xs
      using that A z by (intro filter_cong refl) (subst precommit_cmp(2), auto)
    moreover have "filter (\<lambda>y. xfs_trans_precommit_sort z y = 0) ys = filter (\<lambda>y. xfs_trans_precommit_sort z y = 0) items"
      using ys(3) A z(1) unfolding precommit.stable_perm_def by blast
    ultimately show ?thesis using set by metis
  qed (use set in \<open>auto simp: filter_empty_conv\<close>)
  moreover have "xfs_trans_run_precommits f items s = precommit_loop f ys s"
    using ys(1) by (simp add: xfs_trans_run_precommits_def sorted_items_def)
  ultimately show ?thesis using m precommit_loop_until_error [of f ys s] by (intro exI [of _ ys]) simp
qed

theorem precommits_in_order_witness:
  "\<exists>order. mset order = mset precommit_example \<and> sorted_wrt precommit_before order \<and>
     until_error (\<lambda>i s. (if li_id i = 3 then Some EFSCORRUPTED else None, s @ [li_id i]))
       (filter (\<lambda>i. li_dirty i \<and> li_has_precommit i) order) []
       (xfs_trans_run_precommits (\<lambda>i s. (if li_id i = 3 then Some EFSCORRUPTED else None, s @ [li_id i])) precommit_example [])"
proof -
  have "\<forall>i \<in> set precommit_example. \<forall>k. li_sort i = Some k \<longrightarrow> unat k < 2 ^ 63"
    by (simp add: precommit_example_def)
  from precommits_in_order [OF this, of "\<lambda>i s. (if li_id i = 3 then Some EFSCORRUPTED else None, s @ [li_id i])" "[]"]
  show ?thesis by blast
qed

text \<open>
  C20. \<^verbatim>\<open>xfs_bmap_update_diff_items\<close> is not an order by inode number, because the 64-bit difference is
  cut to the \<^verbatim>\<open>int\<close> that is returned. For any two intents it returns zero exactly when the inode
  numbers agree modulo \<open>2 ^ 32\<close>, and puts the first before the second exactly when their
  difference modulo \<open>2 ^ 32\<close> is at least \<open>2 ^ 31\<close>, whichever inode number is the greater.
\<close>

theorem bmap_diff_truncates:
  "(xfs_bmap_update_diff_items a b = 0 \<longleftrightarrow> unat (bi_owner_ino a) mod 2 ^ 32 = unat (bi_owner_ino b) mod 2 ^ 32) \<and>
   (xfs_bmap_update_diff_items a b < 0 \<longleftrightarrow>
      2 ^ 31 \<le> (int (unat (bi_owner_ino a)) - int (unat (bi_owner_ino b))) mod 2 ^ 32)"
  using bmap_diff_sign by simp

end
