(* ===== verification/Addr.thy ===== *)
theory Addr
  imports Rt_Model
begin

text \<open>
  Block and inode addresses: the packing macros of \<^verbatim>\<open>libxfs/xfs_format.h\<close>, the group geometry of
  \<^verbatim>\<open>libxfs/xfs_ag.c\<close>, \<^verbatim>\<open>xfs_group.h\<close> and \<^verbatim>\<open>xfs_rtgroup.c\<close>, and the verifiers of \<^verbatim>\<open>libxfs/xfs_types.c\<close> that
  every pointer read from disk goes through.
\<close>

section \<open>Model\<close>

record fs_mount =
  m_rt :: rt_mount
  m_has_quota :: bool
  m_has_realtime :: bool
  sb_agblocks :: u32
  sb_agcount :: u32
  sb_dblocks :: u64
  sb_agblklog :: nat
  sb_inopblog :: nat
  agino_log :: nat
  m_blkbb_log :: nat
  m_sectbb_log :: nat
  cluster_align :: u32
  sb_logstart :: u64
  sb_rbmino :: u64
  sb_rsumino :: u64
  sb_uquotino :: u64
  sb_gquotino :: u64
  sb_pquotino :: u64
  sb_rgcount :: u32
  sb_rblocks :: u64
  rg_blklog :: nat

subsection \<open>Packing\<close>

definition XFS_AGB_TO_FSB :: "fs_mount \<Rightarrow> u32 \<Rightarrow> u32 \<Rightarrow> u64" where
  "XFS_AGB_TO_FSB m agno agbno = push_bit (sb_agblklog m) (ucast agno) OR ucast agbno"

definition XFS_FSB_TO_AGNO :: "fs_mount \<Rightarrow> u64 \<Rightarrow> u32" where
  "XFS_FSB_TO_AGNO m fsbno = ucast (drop_bit (sb_agblklog m) fsbno)"

definition XFS_FSB_TO_AGBNO :: "fs_mount \<Rightarrow> u64 \<Rightarrow> u32" where
  "XFS_FSB_TO_AGBNO m fsbno = ucast (fsbno AND ucast (xfs_mask32lo (sb_agblklog m)))"

definition XFS_INO_MASK :: "nat \<Rightarrow> u32" where
  "XFS_INO_MASK k = ucast (push_bit k 1 - 1 :: u64)"

definition XFS_INO_TO_AGNO :: "fs_mount \<Rightarrow> u64 \<Rightarrow> u32" where
  "XFS_INO_TO_AGNO m i = ucast (drop_bit (agino_log m) i)"

definition XFS_INO_TO_AGINO :: "fs_mount \<Rightarrow> u64 \<Rightarrow> u32" where
  "XFS_INO_TO_AGINO m i = ucast i AND XFS_INO_MASK (agino_log m)"

definition XFS_AGINO_TO_INO :: "fs_mount \<Rightarrow> u32 \<Rightarrow> u32 \<Rightarrow> u64" where
  "XFS_AGINO_TO_INO m a i = push_bit (agino_log m) (ucast a) OR ucast i"

definition XFS_AGB_TO_AGINO :: "fs_mount \<Rightarrow> u32 \<Rightarrow> u32" where
  "XFS_AGB_TO_AGINO m b = push_bit (sb_inopblog m) b"

definition XFS_AGFL_BLOCK :: "fs_mount \<Rightarrow> u32" where
  "XFS_AGFL_BLOCK m = ucast (drop_bit (m_blkbb_log m) (push_bit (m_sectbb_log m) 3 :: u64))"

definition round_up :: "u32 \<Rightarrow> u32 \<Rightarrow> u32" where
  "round_up x y = ((x - 1) OR (y - 1)) + 1"

definition round_down :: "u32 \<Rightarrow> u32 \<Rightarrow> u32" where
  "round_down x y = x AND NOT (y - 1)"

subsection \<open>Group geometry\<close>

text \<open>
  The assertions of the two helpers, that the group number is below the number of groups and that
  only a file system with realtime groups has more than one, are left out; the properties state
  what they need of the group number.
\<close>

definition xfs_ag_block_count_of :: "fs_mount \<Rightarrow> u32 \<Rightarrow> u32 \<Rightarrow> u64 \<Rightarrow> u32" where
  "xfs_ag_block_count_of m agno agcount dblocks =
     (if agno < agcount - 1 then sb_agblocks m
      else ucast (dblocks - ucast (agno * sb_agblocks m)))"

definition xfs_ag_block_count :: "fs_mount \<Rightarrow> u32 \<Rightarrow> u32" where
  "xfs_ag_block_count m agno = xfs_ag_block_count_of m agno (sb_agcount m) (sb_dblocks m)"

definition xfs_agino_range_of :: "fs_mount \<Rightarrow> u32 \<Rightarrow> u32 \<times> u32" where
  "xfs_agino_range_of m eoag =
     (let bno = round_up (XFS_AGFL_BLOCK m + 1) (cluster_align m);
          first = XFS_AGB_TO_AGINO m bno;
          bno = round_down eoag (cluster_align m)
      in (first, XFS_AGB_TO_AGINO m bno - 1))"

definition xfs_agino_range :: "fs_mount \<Rightarrow> u32 \<Rightarrow> u32 \<times> u32" where
  "xfs_agino_range m agno = xfs_agino_range_of m (xfs_ag_block_count m agno)"

record xfs_group =
  xg_gno :: u32
  xg_block_count :: u32
  xg_min_gbno :: u32

definition xfs_verify_gbno :: "xfs_group \<Rightarrow> u32 \<Rightarrow> bool" where
  "xfs_verify_gbno xg gbno =
     (if gbno \<ge> xg_block_count xg then False else if gbno < xg_min_gbno xg then False else True)"

definition xfs_verify_gbext :: "xfs_group \<Rightarrow> u32 \<Rightarrow> u32 \<Rightarrow> bool" where
  "xfs_verify_gbext xg gbno glen =
     (if \<not> xfs_verify_gbno xg gbno then False
      else if glen = 0 \<or> unat gbno + unat (glen - 1) \<ge> 2 ^ 32 then False
      else xfs_verify_gbno xg (gbno + (glen - 1)))"

definition xfs_has_rtsb :: "fs_mount \<Rightarrow> bool" where
  "xfs_has_rtsb m \<longleftrightarrow> m_has_rtgroups (m_rt m) \<and> m_has_realtime m \<and> \<not> m_has_zoned (m_rt m)"

definition xfs_rtgroup_min_block :: "fs_mount \<Rightarrow> u32 \<Rightarrow> u32" where
  "xfs_rtgroup_min_block m rgno = (if xfs_has_rtsb m \<and> rgno = 0 then sb_rextsize (m_rt m) else 0)"

definition xfs_rtgroup_extents_of :: "fs_mount \<Rightarrow> u32 \<Rightarrow> u32 \<Rightarrow> u64 \<Rightarrow> u64" where
  "xfs_rtgroup_extents_of m rgno rgcount rextents =
     (if rgno = rgcount - 1 then rextents - ucast rgno * ucast (sb_rgextents (m_rt m))
      else ucast (sb_rgextents (m_rt m)))"

definition xfs_rtgroup_extents :: "fs_mount \<Rightarrow> u32 \<Rightarrow> u64" where
  "xfs_rtgroup_extents m rgno = xfs_rtgroup_extents_of m rgno (sb_rgcount m) (sb_rextents (m_rt m))"

definition xfs_rtgroup_calc_geometry :: "fs_mount \<Rightarrow> u32 \<Rightarrow> u32 \<Rightarrow> u64 \<Rightarrow> u64 \<times> xfs_group" where
  "xfs_rtgroup_calc_geometry m rgno rgcount rextents =
     (let rtg_extents = xfs_rtgroup_extents_of m rgno rgcount rextents
      in (rtg_extents, \<lparr>xg_gno = rgno, xg_block_count = ucast (rtg_extents * ucast (sb_rextsize (m_rt m))),
                        xg_min_gbno = xfs_rtgroup_min_block m rgno\<rparr>))"

definition xfs_rtb_to_rgno :: "fs_mount \<Rightarrow> u64 \<Rightarrow> u32" where
  "xfs_rtb_to_rgno m rtbno = (if rg_blklog m = 0 then 0 else ucast (drop_bit (rg_blklog m) rtbno))"

subsection \<open>Verifiers\<close>

definition xfs_verify_agno_agbno :: "fs_mount \<Rightarrow> u32 \<Rightarrow> u32 \<Rightarrow> bool" where
  "xfs_verify_agno_agbno m agno agbno =
     (let eoag = xfs_ag_block_count m agno
      in if agbno \<ge> eoag then False else if agbno \<le> XFS_AGFL_BLOCK m then False else True)"

definition xfs_verify_fsbno :: "fs_mount \<Rightarrow> u64 \<Rightarrow> bool" where
  "xfs_verify_fsbno m fsbno =
     (let agno = XFS_FSB_TO_AGNO m fsbno
      in if agno \<ge> sb_agcount m then False
         else xfs_verify_agno_agbno m agno (XFS_FSB_TO_AGBNO m fsbno))"

definition xfs_verify_fsbext :: "fs_mount \<Rightarrow> u64 \<Rightarrow> u64 \<Rightarrow> bool" where
  "xfs_verify_fsbext m fsbno len =
     (if fsbno + len \<le> fsbno then False
      else if \<not> xfs_verify_fsbno m fsbno then False
      else if \<not> xfs_verify_fsbno m (fsbno + len - 1) then False
      else XFS_FSB_TO_AGNO m fsbno = XFS_FSB_TO_AGNO m (fsbno + len - 1))"

definition xfs_verify_agno_agino :: "fs_mount \<Rightarrow> u32 \<Rightarrow> u32 \<Rightarrow> bool" where
  "xfs_verify_agno_agino m agno agino =
     (case xfs_agino_range m agno of (lo, hi) \<Rightarrow> agino \<ge> lo \<and> agino \<le> hi)"

definition xfs_verify_ino :: "fs_mount \<Rightarrow> u64 \<Rightarrow> bool" where
  "xfs_verify_ino m ino =
     (let agno = XFS_INO_TO_AGNO m ino;
          agino = XFS_INO_TO_AGINO m ino
      in if agno \<ge> sb_agcount m then False
         else if XFS_AGINO_TO_INO m agno agino \<noteq> ino then False
         else xfs_verify_agno_agino m agno agino)"

definition xfs_is_quota_inode :: "fs_mount \<Rightarrow> u64 \<Rightarrow> bool" where
  "xfs_is_quota_inode m ino \<longleftrightarrow> ino = sb_uquotino m \<or> ino = sb_gquotino m \<or> ino = sb_pquotino m"

definition xfs_is_sb_inum :: "fs_mount \<Rightarrow> u64 \<Rightarrow> bool" where
  "xfs_is_sb_inum m ino \<longleftrightarrow>
     ino = sb_rbmino m \<or> ino = sb_rsumino m \<or> (m_has_quota m \<and> xfs_is_quota_inode m ino)"

definition xfs_verify_dir_ino :: "fs_mount \<Rightarrow> u64 \<Rightarrow> bool" where
  "xfs_verify_dir_ino m ino = (if xfs_is_sb_inum m ino then False else xfs_verify_ino m ino)"

definition xfs_verify_rtbno :: "fs_mount \<Rightarrow> u64 \<Rightarrow> bool" where
  "xfs_verify_rtbno m rtbno =
     (if m_has_rtgroups (m_rt m) then
        let rgno = xfs_rtb_to_rgno m rtbno;
            rtx = xfs_rtb_to_rtx (m_rt m) rtbno
        in if rgno \<ge> sb_rgcount m then False
           else if rtx \<ge> xfs_rtgroup_extents m rgno then False
           else if xfs_has_rtsb m \<and> rgno = 0 \<and> rtx = 0 then False
           else True
      else rtbno < sb_rblocks m)"

definition xfs_verify_rtbext :: "fs_mount \<Rightarrow> u64 \<Rightarrow> u64 \<Rightarrow> bool" where
  "xfs_verify_rtbext m rtbno len =
     (if rtbno + len \<le> rtbno then False
      else if \<not> xfs_verify_rtbno m rtbno then False
      else if \<not> xfs_verify_rtbno m (rtbno + len - 1) then False
      else if m_has_rtgroups (m_rt m) \<and> xfs_rtb_to_rgno m rtbno \<noteq> xfs_rtb_to_rgno m (rtbno + len - 1) then False
      else True)"

definition XFS_INODES_PER_CHUNK :: u64 where "XFS_INODES_PER_CHUNK = 64"

definition xfs_icount_range :: "fs_mount \<Rightarrow> u64 \<times> u64" where
  "xfs_icount_range m =
     (XFS_INODES_PER_CHUNK,
      fold (\<lambda>agno nr_inos. case xfs_agino_range m (of_nat agno) of (lo, hi) \<Rightarrow> nr_inos + ucast (hi - lo + 1))
        [0..<unat (sb_agcount m)] 0)"

definition xfs_verify_icount :: "fs_mount \<Rightarrow> u64 \<Rightarrow> bool" where
  "xfs_verify_icount m icount = (case xfs_icount_range m of (lo, hi) \<Rightarrow> icount \<ge> lo \<and> icount \<le> hi)"

definition xfs_verify_dablk :: "u64 \<Rightarrow> bool" where
  "xfs_verify_dablk dabno \<longleftrightarrow> dabno \<le> ucast (- 1 :: u32)"

text \<open>\<^verbatim>\<open>XFS_MAX_FILEOFF\<close> is the last start offset of a record plus the longest record.\<close>

definition XFS_MAX_FILEOFF :: u64 where "XFS_MAX_FILEOFF = (2 ^ 54 - 1) + (2 ^ 21 - 1)"

definition xfs_verify_fileoff :: "u64 \<Rightarrow> bool" where
  "xfs_verify_fileoff off \<longleftrightarrow> off \<le> XFS_MAX_FILEOFF"

definition xfs_verify_fileext :: "u64 \<Rightarrow> u64 \<Rightarrow> bool" where
  "xfs_verify_fileext off len =
     (if off + len \<le> off then False
      else if \<not> xfs_verify_fileoff off then False
      else xfs_verify_fileoff (off + len - 1))"

section \<open>Decoding\<close>

lemma unat_drop_64: "unat (drop_bit k (w :: u64)) = unat w div 2 ^ k"
  by (subst unat_drop_bit_eq) (simp only: drop_bit_eq_div)

lemma agno_value: "unat (XFS_FSB_TO_AGNO m f) = unat f div 2 ^ sb_agblklog m mod 2 ^ 32"
  by (simp only: XFS_FSB_TO_AGNO_def unat_ucast_64_32 unat_drop_64)

lemma agbno_value:
  assumes "sb_agblklog m \<le> 31"
  shows "unat (XFS_FSB_TO_AGBNO m f) = unat f mod 2 ^ sb_agblklog m"
proof -
  let ?l = "sb_agblklog m"
  have "ucast (xfs_mask32lo ?l) = (mask ?l :: u64)"
    using assms unfolding xfs_mask32lo_def shifted_ones_eq by (intro bit_word_eqI) (auto simp: bit_simps)
  then have "f AND ucast (xfs_mask32lo ?l) = take_bit ?l f" by (simp only: take_bit_eq_mask)
  moreover have "unat (take_bit ?l f) = unat f mod 2 ^ ?l"
    by (simp only: unsigned_take_bit_eq take_bit_eq_mod [where 'a = nat])
  moreover have "unat f mod 2 ^ ?l < 2 ^ 32"
  proof -
    have "unat f mod 2 ^ ?l < 2 ^ ?l" by simp
    also have "\<dots> \<le> 2 ^ 32" using assms by (intro power_increasing) simp_all
    finally show ?thesis .
  qed
  ultimately show ?thesis by (simp only: XFS_FSB_TO_AGBNO_def unat_ucast_64_32) simp
qed

lemma unat_p2: "n < 64 \<Longrightarrow> unat ((2 :: u64) ^ n) = 2 ^ n"
proof -
  assume "n < 64"
  then have "(2 :: nat) ^ n < 2 ^ 64" by (intro power_strict_increasing) simp_all
  from unat_of_nat_64 [OF this] show ?thesis by simp
qed

section \<open>Extents\<close>

text \<open>Every block of a range between two blocks of one group is in that group, at an offset between theirs.\<close>

lemma between_same_quotient:
  fixes a x e d :: nat
  assumes "a \<le> x" "x \<le> e" "a div d = e div d" "0 < d"
  shows "x div d = a div d" and "a mod d \<le> x mod d" and "x mod d \<le> e mod d"
proof -
  have "a div d \<le> x div d" "x div d \<le> e div d" using div_le_mono [OF assms(1)] div_le_mono [OF assms(2)] by simp_all
  then show q: "x div d = a div d" using assms(3) by simp
  have "a = d * (a div d) + a mod d" "x = d * (a div d) + x mod d" "e = d * (a div d) + e mod d"
    using q assms(3) by (metis mult_div_mod_eq)+
  then show "a mod d \<le> x mod d" "x mod d \<le> e mod d" using assms(1,2) by linarith+
qed

lemma verify_fsbno_value:
  assumes "sb_agblklog m \<le> 31" and "unat f < 2 ^ (32 + sb_agblklog m)"
  shows "xfs_verify_fsbno m f \<longleftrightarrow>
     unat f div 2 ^ sb_agblklog m < unat (sb_agcount m) \<and>
     unat (XFS_AGFL_BLOCK m) < unat f mod 2 ^ sb_agblklog m \<and>
     unat f mod 2 ^ sb_agblklog m < unat (xfs_ag_block_count m (of_nat (unat f div 2 ^ sb_agblklog m)))"
proof -
  have "unat f < 2 ^ sb_agblklog m * 2 ^ 32" using assms(2) by (simp add: power_add mult.commute)
  then have "unat f div 2 ^ sb_agblklog m < 2 ^ 32" by (simp add: less_mult_imp_div_less mult.commute)
  then have agno: "unat (XFS_FSB_TO_AGNO m f) = unat f div 2 ^ sb_agblklog m" by (simp add: agno_value)
  then have "XFS_FSB_TO_AGNO m f = of_nat (unat f div 2 ^ sb_agblklog m)" by (simp flip: agno)
  with agno show ?thesis
    by (auto simp: xfs_verify_fsbno_def xfs_verify_agno_agbno_def Let_def word_le_nat_alt agbno_value [OF assms(1)])
qed

lemma verify_fsbext_blocks:
  assumes l: "sb_agblklog m \<le> 31" and rng: "unat f + unat len < 2 ^ (32 + sb_agblklog m)"
  shows "xfs_verify_fsbext m f len \<longleftrightarrow>
     0 < len \<and> (\<forall>b. f \<le> b \<and> b < f + len \<longrightarrow> xfs_verify_fsbno m b \<and> XFS_FSB_TO_AGNO m b = XFS_FSB_TO_AGNO m f)"
proof -
  let ?d = "(2 :: nat) ^ sb_agblklog m"
  have "(2 :: nat) ^ (32 + sb_agblklog m) \<le> 2 ^ 63" using l by (intro power_increasing) simp_all
  with rng have sum: "unat (f + len) = unat f + unat len" by (intro unat_add_small) simp
  show ?thesis
  proof (cases "len = 0")
    case False
    then have pos: "0 < unat len" by (simp add: unat_gt_0)
    have e: "unat (f + len - 1) = unat f + unat len - 1"
      using pos sum by (subst unat_sub_le) (simp_all add: word_le_nat_alt)
    have wrap: "\<not> f + len \<le> f" using sum pos by (simp add: word_le_nat_alt)
    have small: "unat b < 2 ^ (32 + sb_agblklog m)" if "b < f + len" for b
      using that rng sum by (simp add: word_less_nat_alt)
    have agno: "unat (XFS_FSB_TO_AGNO m b) = unat b div ?d" if "b < f + len" for b
    proof -
      have "unat b < ?d * 2 ^ 32" using small [OF that] by (simp add: power_add mult.commute)
      then have "unat b div ?d < 2 ^ 32" by (simp add: less_mult_imp_div_less mult.commute)
      then show ?thesis by (simp add: agno_value)
    qed
    have ends: "f < f + len" "f + len - 1 < f + len" "f \<le> f + len - 1"
      using pos sum e by (simp_all add: word_less_nat_alt word_le_nat_alt)
    have inner: "xfs_verify_fsbno m b \<and> XFS_FSB_TO_AGNO m b = XFS_FSB_TO_AGNO m f"
      if v: "xfs_verify_fsbno m f" "xfs_verify_fsbno m (f + len - 1)"
        "XFS_FSB_TO_AGNO m f = XFS_FSB_TO_AGNO m (f + len - 1)" and b: "f \<le> b" "b < f + len" for b
    proof -
      have "unat f \<le> unat b" "unat b \<le> unat (f + len - 1)" "unat f div ?d = unat (f + len - 1) div ?d"
        using b sum e agno [OF ends(1)] agno [OF ends(2)] v(3) by (simp_all add: word_le_nat_alt word_less_nat_alt)
      note q = between_same_quotient [OF this, simplified]
      have "unat b mod ?d < unat (xfs_ag_block_count m (of_nat (unat f div ?d)))"
        using q(3) v(2) \<open>unat f div ?d = _\<close> unfolding verify_fsbno_value [OF l small [OF ends(2)]] by simp
      with q v(1) agno [OF b(2)] agno [OF ends(1)] show ?thesis
        by (simp add: verify_fsbno_value [OF l small [OF b(2)]] verify_fsbno_value [OF l small [OF ends(1)]]
            u32_eq_iff_unat)
    qed
    have "0 < len" using False by (simp add: word_gt_0)
    then show ?thesis using wrap inner ends unfolding xfs_verify_fsbext_def by (metis order_refl)
  qed (simp add: xfs_verify_fsbext_def)
qed

section \<open>Group sizes\<close>

lemma ag_block_count_last:
  assumes "unat agno * unat (sb_agblocks m) < unat (dblocks :: u64)"
    and "unat dblocks \<le> (unat agno + 1) * unat (sb_agblocks m)"
  shows "unat (ucast (dblocks - ucast (agno * sb_agblocks m)) :: u32) = unat dblocks - unat agno * unat (sb_agblocks m)"
proof -
  let ?p = "unat agno * unat (sb_agblocks m)"
  have lt: "unat dblocks - ?p < 2 ^ 32"
  proof -
    have "unat dblocks - ?p \<le> unat (sb_agblocks m)" using assms(2) by (simp add: algebra_simps)
    then show ?thesis using u32_unat_bound [of "sb_agblocks m"] by simp
  qed
  have prod: "unat (agno * sb_agblocks m) = ?p mod 2 ^ 32" by (simp add: unat_word_ariths)
  have le: "unat (agno * sb_agblocks m) \<le> unat dblocks"
    using prod assms(1) mod_less_eq_dividend [of ?p "2 ^ 32"] by linarith
  then have "unat (dblocks - ucast (agno * sb_agblocks m)) = unat dblocks - ?p mod 2 ^ 32"
    using prod by (subst unat_sub_le) (simp_all add: word_le_nat_alt)
  moreover have "unat dblocks - ?p mod 2 ^ 32 = (unat dblocks - ?p) + 2 ^ 32 * (?p div 2 ^ 32)"
    using assms(1) mod_mult_div_eq [of ?p "2 ^ 32"] by linarith
  ultimately show ?thesis using lt by (simp add: unat_ucast_64_32)
qed

lemma ag_block_counts:
  assumes "0 < unat (sb_agcount m)"
    and "(unat (sb_agcount m) - 1) * unat (sb_agblocks m) < unat (sb_dblocks m)"
    and "unat (sb_dblocks m) \<le> unat (sb_agcount m) * unat (sb_agblocks m)" and "i < unat (sb_agcount m)"
  shows "unat (xfs_ag_block_count m (of_nat i)) =
     (if i < unat (sb_agcount m) - 1 then unat (sb_agblocks m) else unat (sb_dblocks m) - i * unat (sb_agblocks m))"
proof -
  have c1: "unat (sb_agcount m - 1) = unat (sb_agcount m) - 1"
    using assms(1) by (subst unat_sub_le) (simp_all add: word_le_nat_alt)
  have i: "unat (of_nat i :: u32) = i" using assms(4) u32_unat_bound [of "sb_agcount m"] by (intro unat_of_nat_32) simp
  show ?thesis
  proof (cases "i < unat (sb_agcount m) - 1")
    case True
    then show ?thesis using i c1 by (simp add: xfs_ag_block_count_def xfs_ag_block_count_of_def word_less_nat_alt)
  next
    case False
    then have "i = unat (sb_agcount m) - 1" using assms(4) by simp
    then have "unat (of_nat i :: u32) * unat (sb_agblocks m) < unat (sb_dblocks m)"
      "unat (sb_dblocks m) \<le> (unat (of_nat i :: u32) + 1) * unat (sb_agblocks m)"
      using assms(1-3) i by simp_all
    from ag_block_count_last [OF this] False i c1 show ?thesis
      by (simp add: xfs_ag_block_count_def xfs_ag_block_count_of_def word_less_nat_alt)
  qed
qed

section \<open>Inode numbers\<close>

lemma agino_value:
  assumes "agino_log m \<le> 32"
  shows "unat (XFS_INO_TO_AGINO m i) = unat i mod 2 ^ agino_log m"
proof -
  let ?l = "agino_log m"
  have "XFS_INO_MASK ?l = mask ?l"
    using assms unfolding XFS_INO_MASK_def shifted_ones_eq by (intro bit_word_eqI) (auto simp: bit_simps)
  then have "XFS_INO_TO_AGINO m i = take_bit ?l (ucast i)" by (simp only: XFS_INO_TO_AGINO_def take_bit_eq_mask)
  then have "unat (XFS_INO_TO_AGINO m i) = unat i mod 2 ^ 32 mod 2 ^ ?l"
    by (simp only: unsigned_take_bit_eq take_bit_eq_mod [where 'a = nat] unat_ucast_64_32)
  also have "\<dots> = unat i mod 2 ^ ?l" using le_imp_power_dvd [OF assms] by (rule mod_mod_cancel)
  finally show ?thesis .
qed

lemma pack_ino_value:
  assumes "agino_log m \<le> 32" and "unat agino < 2 ^ agino_log m"
  shows "unat (XFS_AGINO_TO_INO m agno agino) = unat agno * 2 ^ agino_log m + unat agino"
proof -
  let ?l = "agino_log m"
  have dis: "\<not> bit (push_bit ?l (ucast agno) :: u64) n \<or> \<not> bit (ucast agino :: u64) n" for n
    using unat_bit_bound [OF assms(2), of n] by (auto simp: bit_push_bit_iff bit_simps)
  have fit: "unat agno * 2 ^ ?l + unat agino < 2 ^ 64"
  proof -
    have "unat agno * 2 ^ ?l + unat agino < (unat agno + 1) * 2 ^ ?l" using assms(2) by simp
    also have "\<dots> \<le> 2 ^ 32 * 2 ^ 32" using assms(1) u32_unat_bound [of agno] by (intro mult_le_mono power_increasing) simp_all
    finally show ?thesis by simp
  qed
  have push: "unat (push_bit ?l (ucast agno) :: u64) = unat agno * 2 ^ ?l"
  proof -
    have "unat (push_bit ?l (ucast agno) :: u64) = unat agno * 2 ^ ?l mod 2 ^ 64"
      by (simp only: unsigned_push_bit_eq push_bit_eq_mult [where 'a = nat] take_bit_eq_mod [where 'a = nat]) simp
    with fit show ?thesis by simp
  qed
  have "XFS_AGINO_TO_INO m agno agino = push_bit ?l (ucast agno) + ucast agino"
    unfolding XFS_AGINO_TO_INO_def using dis by (rule disjunctive_add [symmetric])
  with fit push show ?thesis by (simp add: unat_add_small)
qed

section \<open>A concrete file system\<close>

text \<open>Four groups of 1000 blocks, the last of 700; the headers of a group end in block 0.\<close>

definition fs_example :: fs_mount where
  "fs_example = \<lparr>m_rt = \<lparr>m_has_rtgroups = False, m_has_zoned = False, m_rtx_per_rbmblock = 0,
       m_blkbit_log = 15, m_blockwsize = 1024, m_blockmask = 4095, m_rsumblocks = 0, m_rtxblklog = 0,
       m_rtxblkmask = 0, m_rtg_blkmask = - 1, sb_rbmblocks = 0, sb_blocklog = 12, sb_blocksize = 4096,
       sb_rextsize = 1, sb_rextents = 0, sb_rgextents = 0, sb_frextents = 0\<rparr>,
     m_has_quota = False, m_has_realtime = False, sb_agblocks = 1000, sb_agcount = 4, sb_dblocks = 3700,
     sb_agblklog = 10, sb_inopblog = 3, agino_log = 13, m_blkbb_log = 3, m_sectbb_log = 0, cluster_align = 4,
     sb_logstart = 0, sb_rbmino = 129, sb_rsumino = 130, sb_uquotino = 0, sb_gquotino = 0, sb_pquotino = 0,
     sb_rgcount = 0, sb_rblocks = 0, rg_blklog = 0\<rparr>"

section \<open>Properties\<close>

text \<open>
  C18. \<^verbatim>\<open>xfs_verify_fsbext\<close> accepts a nonempty extent exactly when every one of its blocks is a
  valid block of one and the same allocation group, for extents whose start and length add up to
  less than \<open>2 ^ (32 + agblklog)\<close>, the width of a packed number; only the two ends are tested by the
  code, and beyond that bound the group number wraps.
\<close>

theorem verify_fsbext_exact:
  assumes "sb_agblklog m \<le> 31" and "unat f + unat len < 2 ^ (32 + sb_agblklog m)"
  shows "xfs_verify_fsbext m f len \<longleftrightarrow>
    0 < len \<and> (\<forall>b. f \<le> b \<and> b < f + len \<longrightarrow> xfs_verify_fsbno m b \<and> XFS_FSB_TO_AGNO m b = XFS_FSB_TO_AGNO m f)"
  by (rule verify_fsbext_blocks [OF assms])

theorem verify_fsbext_exact_witness:
  "xfs_verify_fsbext fs_example 2000 20 \<and> xfs_verify_fsbno fs_example 2010 \<and>
   XFS_FSB_TO_AGNO fs_example 2010 = XFS_FSB_TO_AGNO fs_example 2000"
proof -
  have v: "xfs_verify_fsbext fs_example 2000 20" by code_simp
  have h: "sb_agblklog fs_example \<le> 31" "unat (2000 :: u64) + unat (20 :: u64) < 2 ^ (32 + sb_agblklog fs_example)"
    by (simp_all add: fs_example_def)
  have b: "(2000 :: u64) \<le> 2010 \<and> (2010 :: u64) < 2000 + 20" by simp
  from verify_fsbext_exact [OF h] v have
    "\<forall>b. 2000 \<le> b \<and> b < 2000 + 20 \<longrightarrow> xfs_verify_fsbno fs_example b \<and>
       XFS_FSB_TO_AGNO fs_example b = XFS_FSB_TO_AGNO fs_example 2000" by blast
  with b v show ?thesis by blast
qed

text \<open>
  \<^verbatim>\<open>xfs_verify_gbext\<close> accepts a range of a group exactly when it is nonempty and every block of
  it is valid; ranges that run past the 32-bit block numbers are rejected.
\<close>

theorem verify_gbext_exact:
  "xfs_verify_gbext xg gbno glen \<longleftrightarrow>
     0 < unat glen \<and> (\<forall>k < unat glen. unat gbno + k < 2 ^ 32 \<and> xfs_verify_gbno xg (of_nat (unat gbno + k)))"
proof (cases "glen = 0")
  case False
  then have pos: "0 < unat glen" by (simp add: unat_gt_0)
  have g1: "unat (glen - 1) = unat glen - 1" using pos by (subst unat_sub_le) (simp_all add: word_le_nat_alt)
  have val: "xfs_verify_gbno xg (of_nat n) \<longleftrightarrow> unat (xg_min_gbno xg) \<le> n \<and> n < unat (xg_block_count xg)"
    if "n < 2 ^ 32" for n
    using unat_of_nat_32 [OF that] by (auto simp: xfs_verify_gbno_def word_le_nat_alt word_less_nat_alt)
  have fst: "xfs_verify_gbno xg gbno \<longleftrightarrow> unat (xg_min_gbno xg) \<le> unat gbno \<and> unat gbno < unat (xg_block_count xg)"
    using val [of "unat gbno"] u32_unat_bound [of gbno] by simp
  have lst: "xfs_verify_gbno xg (gbno + (glen - 1)) \<longleftrightarrow>
      unat (xg_min_gbno xg) \<le> unat gbno + (unat glen - 1) \<and> unat gbno + (unat glen - 1) < unat (xg_block_count xg)"
    if "unat gbno + (unat glen - 1) < 2 ^ 32"
  proof -
    have "gbno + (glen - 1) = of_nat (unat gbno + (unat glen - 1))" by (simp only: of_nat_add flip: g1) simp
    then show ?thesis using val [OF that] by simp
  qed
  show ?thesis
  proof
    assume v: "xfs_verify_gbext xg gbno glen"
    then have le: "unat gbno + (unat glen - 1) < 2 ^ 32" and f: "xfs_verify_gbno xg gbno"
      and l: "xfs_verify_gbno xg (gbno + (glen - 1))"
      by (auto simp: xfs_verify_gbext_def g1 split: if_splits)
    have "unat gbno + k < 2 ^ 32 \<and> xfs_verify_gbno xg (of_nat (unat gbno + k))" if "k < unat glen" for k
    proof -
      have "unat gbno + k \<le> unat gbno + (unat glen - 1)" using that by simp
      then show ?thesis using le f l val [of "unat gbno + k"] unfolding fst lst [OF le] by linarith
    qed
    with pos show "0 < unat glen \<and> (\<forall>k < unat glen. unat gbno + k < 2 ^ 32 \<and> xfs_verify_gbno xg (of_nat (unat gbno + k)))"
      by blast
  next
    assume a: "0 < unat glen \<and> (\<forall>k < unat glen. unat gbno + k < 2 ^ 32 \<and> xfs_verify_gbno xg (of_nat (unat gbno + k)))"
    then have f: "xfs_verify_gbno xg (of_nat (unat gbno + 0))"
      and l: "unat gbno + (unat glen - 1) < 2 ^ 32" "xfs_verify_gbno xg (of_nat (unat gbno + (unat glen - 1)))"
      using pos diff_less [of 1 "unat glen"] by (metis zero_less_one)+
    then show "xfs_verify_gbext xg gbno glen"
      using False g1 lst val [OF l(1)] by (simp add: xfs_verify_gbext_def)
  qed
qed (simp add: xfs_verify_gbext_def)

theorem verify_gbext_exact_witness:
  "xfs_verify_gbext \<lparr>xg_gno = 0, xg_block_count = 100, xg_min_gbno = 4\<rparr> 90 10 \<and>
   xfs_verify_gbno \<lparr>xg_gno = 0, xg_block_count = 100, xg_min_gbno = 4\<rparr> (of_nat (unat (90 :: u32) + 7))"
proof -
  have "xfs_verify_gbext \<lparr>xg_gno = 0, xg_block_count = 100, xg_min_gbno = 4\<rparr> 90 10"
    by (simp add: xfs_verify_gbext_def xfs_verify_gbno_def)
  moreover have "7 < unat (10 :: u32)" by simp
  ultimately show ?thesis
    using verify_gbext_exact [of "\<lparr>xg_gno = 0, xg_block_count = 100, xg_min_gbno = 4\<rparr>" 90 10] by blast
qed

text \<open>
  C19. The sizes of the allocation groups add up to the size of the data device, although the code
  forms the start of the last group as a product of two 32-bit values that wraps for devices of
  more than $2^{32}$ blocks. No group is empty, and every group but the last has the full size.
\<close>

theorem ag_sizes_cover_device:
  assumes "0 < unat (sb_agcount m)"
    and "(unat (sb_agcount m) - 1) * unat (sb_agblocks m) < unat (sb_dblocks m)"
    and "unat (sb_dblocks m) \<le> unat (sb_agcount m) * unat (sb_agblocks m)"
  shows "(\<Sum>i < unat (sb_agcount m). unat (xfs_ag_block_count m (of_nat i))) = unat (sb_dblocks m) \<and>
    (\<forall>i < unat (sb_agcount m). 0 < unat (xfs_ag_block_count m (of_nat i)) \<and>
           unat (xfs_ag_block_count m (of_nat i)) \<le> unat (sb_agblocks m))"
proof (intro conjI allI impI)
  obtain n where n: "unat (sb_agcount m) = Suc n" using assms(1) by (cases "unat (sb_agcount m)") auto
  note c = ag_block_counts [OF assms]
  have "(\<Sum>i < n. unat (xfs_ag_block_count m (of_nat i))) = (\<Sum>i < n. unat (sb_agblocks m))"
    by (rule sum.cong) (simp_all add: c n)
  then show "(\<Sum>i < unat (sb_agcount m). unat (xfs_ag_block_count m (of_nat i))) = unat (sb_dblocks m)"
    using assms(2) by (simp add: n c)
next
  fix i assume i: "i < unat (sb_agcount m)"
  have "0 < unat (sb_agblocks m)" using assms by (cases "unat (sb_agblocks m)") auto
  moreover have "i = unat (sb_agcount m) - 1" if "\<not> i < unat (sb_agcount m) - 1" using i that by simp
  moreover have "unat (sb_agcount m) * unat (sb_agblocks m) =
      (unat (sb_agcount m) - 1) * unat (sb_agblocks m) + unat (sb_agblocks m)"
    using assms(1) by (simp add: algebra_simps)
  ultimately show "0 < unat (xfs_ag_block_count m (of_nat i))" "unat (xfs_ag_block_count m (of_nat i)) \<le> unat (sb_agblocks m)"
    using ag_block_counts [OF assms i] assms(2,3) by (auto split: if_splits)
qed

theorem ag_sizes_cover_device_witness:
  "(\<Sum>i < 4. unat (xfs_ag_block_count fs_example (of_nat i))) = 3700"
  using ag_sizes_cover_device [of fs_example] by (simp add: fs_example_def)

text \<open>
  \<^verbatim>\<open>xfs_verify_ino\<close> accepts exactly the numbers that are the packing of a group of the file
  system and of an inode of the range that \<^verbatim>\<open>xfs_agino_range\<close> gives for that group, whatever
  64-bit number is read from disk.
\<close>

theorem verify_ino_exact:
  assumes "agino_log m \<le> 32"
  shows "xfs_verify_ino m ino \<longleftrightarrow>
    (\<exists>agno agino. ino = XFS_AGINO_TO_INO m agno agino \<and> unat agino < 2 ^ agino_log m \<and> agno < sb_agcount m \<and>
       fst (xfs_agino_range m agno) \<le> agino \<and> agino \<le> snd (xfs_agino_range m agno))"
proof
  assume "xfs_verify_ino m ino"
  then show "\<exists>agno agino. ino = XFS_AGINO_TO_INO m agno agino \<and> unat agino < 2 ^ agino_log m \<and> agno < sb_agcount m \<and>
       fst (xfs_agino_range m agno) \<le> agino \<and> agino \<le> snd (xfs_agino_range m agno)"
    using agino_value [OF assms, of ino]
    by (intro exI [of _ "XFS_INO_TO_AGNO m ino"] exI [of _ "XFS_INO_TO_AGINO m ino"])
      (auto simp: xfs_verify_ino_def xfs_verify_agno_agino_def Let_def not_le split: if_splits prod.splits)
next
  assume "\<exists>agno agino. ino = XFS_AGINO_TO_INO m agno agino \<and> unat agino < 2 ^ agino_log m \<and> agno < sb_agcount m \<and>
       fst (xfs_agino_range m agno) \<le> agino \<and> agino \<le> snd (xfs_agino_range m agno)"
  then obtain agno agino where p: "ino = XFS_AGINO_TO_INO m agno agino" "unat agino < 2 ^ agino_log m"
    "agno < sb_agcount m" "fst (xfs_agino_range m agno) \<le> agino" "agino \<le> snd (xfs_agino_range m agno)" by blast
  have v: "unat ino = unat agno * 2 ^ agino_log m + unat agino" unfolding p(1) by (rule pack_ino_value [OF assms p(2)])
  have "unat (XFS_INO_TO_AGNO m ino) = unat ino div 2 ^ agino_log m mod 2 ^ 32"
    by (simp only: XFS_INO_TO_AGNO_def unat_ucast_64_32 unat_drop_64)
  then have "XFS_INO_TO_AGNO m ino = agno" using v p(2) u32_unat_bound [of agno] by (simp add: u32_eq_iff_unat)
  moreover have "XFS_INO_TO_AGINO m ino = agino"
    using v p(2) by (simp add: u32_eq_iff_unat agino_value [OF assms])
  ultimately show "xfs_verify_ino m ino" using p
    by (auto simp: xfs_verify_ino_def xfs_verify_agno_agino_def Let_def split: prod.splits)
qed

theorem verify_ino_exact_witness:
  "\<exists>agno agino. 128 = XFS_AGINO_TO_INO fs_example agno agino \<and> unat agino < 2 ^ 13 \<and> agno < 4 \<and>
     fst (xfs_agino_range fs_example agno) \<le> agino \<and> agino \<le> snd (xfs_agino_range fs_example agno)"
proof -
  have f: "sb_agcount fs_example = 4" "agino_log fs_example = 13" by (simp_all add: fs_example_def)
  have "xfs_verify_ino fs_example 128" by code_simp
  then show ?thesis using verify_ino_exact [of fs_example 128] unfolding f by simp
qed

text \<open>
  C21. Block numbers alias: \<^verbatim>\<open>xfs_verify_fsbno\<close> cuts the group number to 32 bits before it compares it,
  so a number whose bits above the packed group number are set is accepted whenever the number
  without them is.
\<close>

theorem verify_fsbno_aliases:
  assumes "sb_agblklog m \<le> 31" and "xfs_verify_fsbno m f" and "unat f + 2 ^ (32 + sb_agblklog m) < 2 ^ 64"
  shows "xfs_verify_fsbno m (f + 2 ^ (32 + sb_agblklog m))"
proof -
  let ?l = "sb_agblklog m"
  let ?g = "f + 2 ^ (32 + ?l)"
  have "unat ((2 :: u64) ^ (32 + ?l)) = 2 ^ (32 + ?l)" using assms(1) by (simp add: unat_p2)
  then have g: "unat ?g = unat f + 2 ^ ?l * 2 ^ 32" using assms(3) by (simp add: unat_add_small power_add)
  then have "unat ?g div 2 ^ ?l mod 2 ^ 32 = unat f div 2 ^ ?l mod 2 ^ 32" by simp
  then have "XFS_FSB_TO_AGNO m ?g = XFS_FSB_TO_AGNO m f" by (simp only: u32_eq_iff_unat agno_value)
  moreover have "XFS_FSB_TO_AGBNO m ?g = XFS_FSB_TO_AGBNO m f"
    by (simp only: u32_eq_iff_unat agbno_value [OF assms(1)] g) simp
  ultimately show ?thesis using assms(2) by (simp only: xfs_verify_fsbno_def)
qed

theorem verify_fsbno_aliases_witness:
  "xfs_verify_fsbno fs_example 2000 \<and> xfs_verify_fsbno fs_example (2000 + 2 ^ 42)"
proof -
  have "xfs_verify_fsbno fs_example 2000" by code_simp
  then show ?thesis using verify_fsbno_aliases [of fs_example 2000] by (simp add: fs_example_def)
qed

end
