(* ===== verification/Avl64.thy ===== *)
theory Avl64
  imports Prelude
begin

text \<open>
  The threaded AVL tree of disjoint ranges of \<^verbatim>\<open>libfrog/avl64.c\<close>. A node is its address; the
  two functions of \<^verbatim>\<open>avl64ops_t\<close> read the range of the node at an address. The pointers
  \<^verbatim>\<open>avl_back\<close>, \<^verbatim>\<open>avl_forw\<close> and the field \<^verbatim>\<open>avl_balance\<close> are the tree; the chain of
  \<^verbatim>\<open>avl_parent\<close> pointers from a node to the root is a list of the parents, each with the side
  the child hangs on and the other child; \<^verbatim>\<open>avl_nextino\<close> is a separate field of every address.
  A dereference of a null pointer is \<^const>\<open>None\<close>. The \<^verbatim>\<open>avl_parent\<close> fields themselves are not modelled: the
  parents are those of the descent, so the assignments to the fields, and whether they agree with
  the tree, are outside the model, as are the assertions. \<^verbatim>\<open>avl64_insert_immediate\<close>, whose new node
  is left without its parent, is not modelled for that reason.
\<close>

section \<open>Model\<close>

datatype avl_balance = AVL_BALANCE | AVL_BACK | AVL_FORW

datatype avl_dir = AVL_PRECEED | AVL_SUCCEED

datatype avl64node = Null | Node avl64node nat avl_balance avl64node

datatype avl_parent = Back_of nat avl_balance avl64node | Forw_of avl64node nat avl_balance

type_synonym avl_path = "avl_parent list"

record avl64ops =
  avl_start :: "nat \<Rightarrow> u64"
  avl_end :: "nat \<Rightarrow> u64"

record avl64tree_desc =
  avl_root :: avl64node
  avl_firstino :: "nat option"
  avl_nextino :: "nat \<Rightarrow> nat option"

fun plug :: "avl_parent \<Rightarrow> avl64node \<Rightarrow> avl64node" where
  "plug (Back_of a b r) t = Node t a b r"
| "plug (Forw_of l a b) t = Node l a b t"

fun attach :: "avl64node \<Rightarrow> avl_path \<Rightarrow> avl64node" where
  "attach t [] = t"
| "attach t (c # p) = attach (plug c t) p"

fun parent_addr :: "avl_parent \<Rightarrow> nat" where
  "parent_addr (Back_of a b r) = a"
| "parent_addr (Forw_of l a b) = a"

fun node_addr :: "avl64node \<Rightarrow> nat option" where
  "node_addr Null = None"
| "node_addr (Node l a b r) = Some a"

text \<open>A pointer to a node of the tree: the subtree below it and its parents.\<close>

fun locate :: "nat \<Rightarrow> avl64node \<Rightarrow> avl_path \<Rightarrow> (avl64node \<times> avl_path) option" where
  "locate n Null p = None"
| "locate n (Node l a b r) p =
     (if a = n then Some (Node l a b r, p)
      else case locate n l (Back_of a b r # p) of
        Some q \<Rightarrow> Some q
      | None \<Rightarrow> locate n r (Forw_of l a b # p))"

subsection \<open>Rebalancing\<close>

text \<open>
  One round of the loop of \<^verbatim>\<open>retreat\<close>: the new subtree at the place of \<open>np\<close>, and whether the
  loop goes on at the parent.
\<close>

fun retreat_node :: "avl_balance \<Rightarrow> avl64node \<Rightarrow> (avl64node \<times> bool) option" where
  "retreat_node direction Null = None"
| "retreat_node direction (Node l np b r) =
     (if b = AVL_BALANCE then Some (Node l np direction r, False)
      else if direction \<noteq> b then Some (Node l np AVL_BALANCE r, True)
      else if b = AVL_BACK then
        (case l of
           Null \<Rightarrow> None
         | Node cl child bal cr \<Rightarrow>
             if bal \<noteq> AVL_FORW then
               (if bal = AVL_BALANCE then Some (Node cl child AVL_FORW (Node cr np AVL_BACK r), False)
                else Some (Node cl child AVL_BALANCE (Node cr np AVL_BALANCE r), True))
             else
               (case cr of
                  Null \<Rightarrow> None
                | Node tb tmp tbal tf \<Rightarrow>
                    Some (Node (Node cl child (if tbal = AVL_FORW then AVL_BACK else AVL_BALANCE) tb) tmp AVL_BALANCE
                               (Node tf np (if tbal = AVL_BACK then AVL_FORW else AVL_BALANCE) r), True)))
      else
        (case r of
           Null \<Rightarrow> None
         | Node cl child bal cr \<Rightarrow>
             if bal \<noteq> AVL_BACK then
               (if bal = AVL_BALANCE then Some (Node (Node l np AVL_FORW cl) child AVL_BACK cr, False)
                else Some (Node (Node l np AVL_BALANCE cl) child AVL_BALANCE cr, True))
             else
               (case cl of
                  Null \<Rightarrow> None
                | Node tb tmp tbal tf \<Rightarrow>
                    Some (Node (Node l np (if tbal = AVL_FORW then AVL_BACK else AVL_BALANCE) tb) tmp AVL_BALANCE
                               (Node tf child (if tbal = AVL_BACK then AVL_FORW else AVL_BALANCE) cr), True))))"

fun retreat :: "avl_balance \<Rightarrow> avl64node \<Rightarrow> avl_path \<Rightarrow> avl64node option" where
  "retreat direction np [] =
     (case retreat_node direction np of None \<Rightarrow> None | Some (t, _) \<Rightarrow> Some t)"
| "retreat direction np (c # p) =
     (case retreat_node direction np of
        None \<Rightarrow> None
      | Some (t, up) \<Rightarrow>
          if up then
            retreat (case c of Forw_of l a b \<Rightarrow> AVL_BACK | Back_of a b r \<Rightarrow> AVL_FORW) (plug c t) p
          else Some (attach t (c # p)))"

text \<open>One round of the loop of \<^verbatim>\<open>avl64_balance\<close>.\<close>

fun balance_node :: "avl_balance \<Rightarrow> avl64node \<Rightarrow> (avl64node \<times> bool) option" where
  "balance_node growth Null = None"
| "balance_node growth (Node l np b r) =
     (if b = AVL_BALANCE then Some (Node l np growth r, True)
      else if growth \<noteq> b then Some (Node l np AVL_BALANCE r, False)
      else if growth = AVL_BACK then
        (case l of
           Null \<Rightarrow> None
         | Node cl child bal cr \<Rightarrow>
             if bal = AVL_BACK then Some (Node cl child AVL_BALANCE (Node cr np AVL_BALANCE r), False)
             else
               (case cr of
                  Null \<Rightarrow> None
                | Node tb tmp tbal tf \<Rightarrow>
                    Some (Node (Node cl child (if tbal = AVL_FORW then AVL_BACK else AVL_BALANCE) tb) tmp AVL_BALANCE
                               (Node tf np (if tbal = AVL_BACK then AVL_FORW else AVL_BALANCE) r), False)))
      else
        (case r of
           Null \<Rightarrow> None
         | Node cl child bal cr \<Rightarrow>
             if bal = AVL_FORW then Some (Node (Node l np AVL_BALANCE cl) child AVL_BALANCE cr, False)
             else
               (case cl of
                  Null \<Rightarrow> None
                | Node tb tmp tbal tf \<Rightarrow>
                    Some (Node (Node l np (if tbal = AVL_FORW then AVL_BACK else AVL_BALANCE) tb) tmp AVL_BALANCE
                               (Node tf child (if tbal = AVL_BACK then AVL_FORW else AVL_BALANCE) cr), False))))"

fun avl64_balance :: "avl_balance \<Rightarrow> avl64node \<Rightarrow> avl_path \<Rightarrow> avl64node option" where
  "avl64_balance growth np [] =
     (case balance_node growth np of None \<Rightarrow> None | Some (t, _) \<Rightarrow> Some t)"
| "avl64_balance growth np (c # p) =
     (case balance_node growth np of
        None \<Rightarrow> None
      | Some (t, up) \<Rightarrow>
          if up then
            avl64_balance (case c of Forw_of l a b \<Rightarrow> AVL_FORW | Back_of a b r \<Rightarrow> AVL_BACK) (plug c t) p
          else Some (attach t (c # p)))"

subsection \<open>Insertion\<close>

fun avl64_insert_find_growth ::
  "avl64ops \<Rightarrow> u64 \<Rightarrow> u64 \<Rightarrow> avl64node \<Rightarrow> avl_path \<Rightarrow> (avl64node \<times> avl_path \<times> avl_balance) option" where
  "avl64_insert_find_growth ops start stop Null p = None"
| "avl64_insert_find_growth ops start stop (Node l np b r) p =
     (if avl_start ops np \<ge> stop then
        (if l \<noteq> Null then avl64_insert_find_growth ops start stop l (Back_of np b r # p)
         else Some (Node l np b r, p, AVL_BACK))
      else if avl_end ops np \<le> start then
        (if r \<noteq> Null then avl64_insert_find_growth ops start stop r (Forw_of l np b # p)
         else Some (Node l np b r, p, AVL_FORW))
      else None)"

text \<open>The links of the new node and of its neighbours: the tree at the parent and \<^verbatim>\<open>avl_nextino\<close>.\<close>

fun avl64_insert_grow ::
  "avl64ops \<Rightarrow> avl64node \<Rightarrow> avl_path \<Rightarrow> nat \<Rightarrow> avl_balance \<Rightarrow> (nat \<Rightarrow> nat option) \<Rightarrow>
   avl64node \<times> (nat \<Rightarrow> nat option)" where
  "avl64_insert_grow ops Null p newnode growth nxt = (Null, nxt)"
| "avl64_insert_grow ops (Node l parent b r) p newnode growth nxt =
     (if growth = AVL_BACK then
        let nxt = nxt(newnode := Some parent)
        in (Node (Node Null newnode AVL_BALANCE Null) parent b r,
            case find (\<lambda>a. avl_end ops a \<le> avl_start ops newnode) (parent # map parent_addr p) of
              None \<Rightarrow> nxt
            | Some nnext \<Rightarrow> nxt(nnext := Some newnode))
      else
        let nxt = nxt(newnode := nxt parent)
        in (Node l parent b (Node Null newnode AVL_BALANCE Null), nxt(parent := Some newnode)))"

text \<open>
  The result says whether the node was inserted: \<^verbatim>\<open>avl64_insert\<close> returns the node, or null when
  the range is taken.
\<close>

definition avl64_insert :: "avl64ops \<Rightarrow> avl64tree_desc \<Rightarrow> nat \<Rightarrow> (bool \<times> avl64tree_desc) option" where
  "avl64_insert ops tree newnode =
     (let tree = tree\<lparr>avl_nextino := (avl_nextino tree)(newnode := None)\<rparr>
      in if avl_root tree = Null then
           Some (True, tree\<lparr>avl_root := Node Null newnode AVL_BALANCE Null, avl_firstino := Some newnode\<rparr>)
         else
           case avl64_insert_find_growth ops (avl_start ops newnode) (avl_end ops newnode) (avl_root tree) [] of
             None \<Rightarrow> Some (False, tree)
           | Some (np, p, growth) \<Rightarrow>
               (case avl64_insert_grow ops np p newnode growth (avl_nextino tree) of (np', nxt) \<Rightarrow>
                  (case avl64_balance growth np' p of
                     None \<Rightarrow> None
                   | Some root \<Rightarrow>
                       Some (True, tree\<lparr>avl_root := root, avl_nextino := nxt,
                         avl_firstino :=
                           (if growth = AVL_BACK \<and> avl_firstino tree = node_addr np
                            then Some newnode else avl_firstino tree)\<rparr>))))"

subsection \<open>Deletion\<close>

text \<open>The last node of the line of \<^verbatim>\<open>avl_forw\<close> pointers below a node, with its parents.\<close>

fun forw_line :: "avl64node \<Rightarrow> avl_path \<Rightarrow> avl64node \<times> avl_path" where
  "forw_line (Node l a b r) p = (if r = Null then (Node l a b r, p) else forw_line r (Forw_of l a b # p))"
| "forw_line Null p = (Null, p)"

definition delete_prev :: "avl64ops \<Rightarrow> avl64node \<Rightarrow> nat \<Rightarrow> avl_path \<Rightarrow> nat option" where
  "delete_prev ops bk np p =
     (if bk \<noteq> Null then node_addr (fst (forw_line bk []))
      else find (\<lambda>a. avl_end ops a \<le> avl_end ops np) (map parent_addr p))"

text \<open>Both children are present: a node of the left subtree takes the place of the deleted one.\<close>

fun delete_both :: "avl64node \<Rightarrow> avl_balance \<Rightarrow> avl64node \<Rightarrow> avl_path \<Rightarrow> avl64node option" where
  "delete_both Null b forw p = None"
| "delete_both (Node bl bk bb br) b forw p =
     (if br = Null then retreat AVL_FORW (Node bl bk b forw) p
      else
        case forw_line br [Forw_of bl bk bb] of
          (Node fl f fb fr, Forw_of l a b' # q) \<Rightarrow>
            retreat AVL_BACK (Node l a b' fl) (q @ Back_of f b forw # p)
        | _ \<Rightarrow> None)"

fun delete_attach :: "avl64node \<Rightarrow> avl_path \<Rightarrow> avl64node option" where
  "delete_attach forw [] = Some forw"
| "delete_attach forw (Forw_of l a b # p) = retreat AVL_BACK (Node l a b forw) p"
| "delete_attach forw (Back_of a b r # p) = retreat AVL_FORW (Node forw a b r) p"

definition avl64_delete :: "avl64ops \<Rightarrow> avl64tree_desc \<Rightarrow> nat \<Rightarrow> avl64tree_desc option" where
  "avl64_delete ops tree np =
     (case locate np (avl_root tree) [] of
        Some (Node bk _ b forw, p) \<Rightarrow>
          (let tree =
             (case delete_prev ops bk np p of
                Some nnext \<Rightarrow> tree\<lparr>avl_nextino := (avl_nextino tree)(nnext := avl_nextino tree np)\<rparr>
              | None \<Rightarrow> tree\<lparr>avl_firstino := avl_nextino tree np\<rparr>)
           in case (if forw = Null then delete_attach bk p
                    else if bk = Null then delete_attach forw p
                    else delete_both bk b forw p) of
                None \<Rightarrow> None
              | Some root \<Rightarrow> Some (tree\<lparr>avl_root := root\<rparr>))
      | _ \<Rightarrow> None)"

subsection \<open>Searches\<close>

fun avl64_findrange :: "avl64ops \<Rightarrow> u64 \<Rightarrow> avl64node \<Rightarrow> nat option" where
  "avl64_findrange ops v Null = None"
| "avl64_findrange ops v (Node l np b r) =
     (if v < avl_start ops np then avl64_findrange ops v l
      else if v \<ge> avl_end ops np then avl64_findrange ops v r
      else Some np)"

fun avl64_find :: "avl64ops \<Rightarrow> u64 \<Rightarrow> avl64node \<Rightarrow> nat option" where
  "avl64_find ops v Null = None"
| "avl64_find ops v (Node l np b r) =
     (let nvalue = avl_start ops np
      in if v < nvalue then avl64_find ops v l else if v = nvalue then Some np else avl64_find ops v r)"

fun avl64_findadjacent ::
  "avl64ops \<Rightarrow> (nat \<Rightarrow> nat option) \<Rightarrow> u64 \<Rightarrow> avl_dir \<Rightarrow> avl64node \<Rightarrow> avl_path \<Rightarrow> nat option" where
  "avl64_findadjacent ops nxt v dir Null p = None"
| "avl64_findadjacent ops nxt v dir (Node l np b r) p =
     (if v < avl_start ops np then
        (if l \<noteq> Null then avl64_findadjacent ops nxt v dir l (Back_of np b r # p)
         else case dir of
           AVL_SUCCEED \<Rightarrow> Some np
         | AVL_PRECEED \<Rightarrow> find (\<lambda>a. avl_end ops a \<le> v) (map parent_addr p))
      else if v \<ge> avl_end ops np then
        (if r \<noteq> Null then avl64_findadjacent ops nxt v dir r (Forw_of l np b # p)
         else case dir of AVL_SUCCEED \<Rightarrow> nxt np | AVL_PRECEED \<Rightarrow> Some np)
      else Some np)"

definition avl64_findranges :: "avl64ops \<Rightarrow> avl64tree_desc \<Rightarrow> u64 \<Rightarrow> u64 \<Rightarrow> nat option \<times> nat option" where
  "avl64_findranges ops tree start stop =
     (case avl64_findadjacent ops (avl_nextino tree) start AVL_SUCCEED (avl_root tree) [] of
        None \<Rightarrow> (None, None)
      | Some np \<Rightarrow>
          if stop \<le> avl_start ops np then (None, None)
          else if stop \<le> avl_end ops np \<or>
            (case avl_nextino tree np of None \<Rightarrow> True | Some n \<Rightarrow> stop \<le> avl_start ops n)
          then (Some np, Some np)
          else (Some np, avl64_findadjacent ops (avl_nextino tree) (stop - 1) AVL_PRECEED (avl_root tree) []))"

fun avl64_firstino :: "avl64node \<Rightarrow> nat option" where
  "avl64_firstino Null = None"
| "avl64_firstino (Node l np b r) = (if l = Null then Some np else avl64_firstino l)"

fun avl64_lastino :: "avl64node \<Rightarrow> nat option" where
  "avl64_lastino Null = None"
| "avl64_lastino (Node l np b r) = (if r = Null then Some np else avl64_lastino r)"

definition avl64_init_tree :: avl64tree_desc where
  "avl64_init_tree = \<lparr>avl_root = Null, avl_firstino = None, avl_nextino = (\<lambda>_. None)\<rparr>"

end
