(* ===== verification/Avl_Correct.thy ===== *)
theory Avl_Correct
  imports Avl64
begin

text \<open>
  Correctness of the AVL tree: balance factors, the order of the ranges and the threading are
  kept by insertion and deletion, which act on the in-order list of addresses as insertion and
  removal, and the searches find what the list says. The interface \<open>range_index\<close> is what the
  clients use.
\<close>

section \<open>The invariant\<close>

fun inorder :: "avl64node \<Rightarrow> nat list" where
  "inorder Null = []"
| "inorder (Node l a b r) = inorder l @ a # inorder r"

fun ht :: "avl64node \<Rightarrow> nat" where
  "ht Null = 0"
| "ht (Node l a b r) = Suc (max (ht l) (ht r))"

definition bal_fits :: "avl_balance \<Rightarrow> nat \<Rightarrow> nat \<Rightarrow> bool" where
  "bal_fits b hl hr \<longleftrightarrow>
     (case b of AVL_BALANCE \<Rightarrow> hl = hr | AVL_BACK \<Rightarrow> hl = Suc hr | AVL_FORW \<Rightarrow> hr = Suc hl)"

fun bal_ok :: "avl64node \<Rightarrow> bool" where
  "bal_ok Null \<longleftrightarrow> True"
| "bal_ok (Node l a b r) \<longleftrightarrow> bal_ok l \<and> bal_ok r \<and> bal_fits b (ht l) (ht r)"

fun hd_opt :: "'a list \<Rightarrow> 'a option" where
  "hd_opt [] = None"
| "hd_opt (x # xs) = Some x"

definition last_opt :: "'a list \<Rightarrow> 'a option" where
  "last_opt xs = (if xs = [] then None else Some (last xs))"

fun chain :: "(nat \<Rightarrow> nat option) \<Rightarrow> nat list \<Rightarrow> bool" where
  "chain f [] \<longleftrightarrow> True"
| "chain f (x # xs) \<longleftrightarrow> f x = hd_opt xs \<and> chain f xs"

definition ranges_ok :: "avl64ops \<Rightarrow> nat list \<Rightarrow> bool" where
  "ranges_ok ops xs \<longleftrightarrow>
     sorted_wrt (\<lambda>a b. avl_end ops a \<le> avl_start ops b) xs \<and> (\<forall>a \<in> set xs. avl_start ops a < avl_end ops a)"

definition entries :: "avl64tree_desc \<Rightarrow> nat list" where
  "entries tree = inorder (avl_root tree)"

definition avl_inv :: "avl64ops \<Rightarrow> avl64tree_desc \<Rightarrow> bool" where
  "avl_inv ops tree \<longleftrightarrow> bal_ok (avl_root tree) \<and> ranges_ok ops (entries tree) \<and>
     chain (avl_nextino tree) (entries tree) \<and> avl_firstino tree = hd_opt (entries tree)"

section \<open>Parents\<close>

fun before :: "avl_path \<Rightarrow> nat list" where
  "before [] = []"
| "before (Back_of a b r # p) = before p"
| "before (Forw_of l a b # p) = before p @ inorder l @ [a]"

fun after :: "avl_path \<Rightarrow> nat list" where
  "after [] = []"
| "after (Back_of a b r # p) = a # inorder r @ after p"
| "after (Forw_of l a b # p) = after p"

lemma inorder_attach: "inorder (attach t p) = before p @ inorder t @ after p"
proof (induction p arbitrary: t)
  case (Cons c p)
  then show ?case by (cases c) simp_all
qed simp

fun path_ok :: "nat \<Rightarrow> avl_path \<Rightarrow> bool" where
  "path_ok h [] \<longleftrightarrow> True"
| "path_ok h (Back_of a b r # p) \<longleftrightarrow> bal_ok r \<and> bal_fits b h (ht r) \<and> path_ok (Suc (max h (ht r))) p"
| "path_ok h (Forw_of l a b # p) \<longleftrightarrow> bal_ok l \<and> bal_fits b (ht l) h \<and> path_ok (Suc (max (ht l) h)) p"

lemma bal_ok_attach: "bal_ok (attach t p) \<longleftrightarrow> bal_ok t \<and> path_ok (ht t) p"
proof (induction p arbitrary: t)
  case (Cons c p)
  then show ?case by (cases c) auto
qed simp

lemma locate_None: "locate n t p = None \<Longrightarrow> n \<notin> set (inorder t)"
  by (induction n t p rule: locate.induct) (simp_all split: if_splits option.splits)

lemma locate_Some:
  "locate n t p = Some (u, q) \<Longrightarrow> node_addr u = Some n \<and> attach u q = attach t p"
  by (induction n t p rule: locate.induct) (auto split: if_splits option.splits)

lemma locate_found:
  assumes "n \<in> set (inorder t)"
  obtains l b r q where "locate n t [] = Some (Node l n b r, q)" and "attach (Node l n b r) q = t"
proof -
  from assms locate_None obtain u q where "locate n t [] = Some (u, q)"
    by (cases "locate n t []") fastforce+
  with locate_Some [OF this] that show thesis by (cases u) auto
qed

section \<open>Rebalancing after an insertion\<close>

lemmas bal_splits = if_splits avl64node.splits avl_balance.splits

text \<open>The subtree on the side \<open>growth\<close> of the node has grown by one; the balance field is the old one.\<close>

fun grown :: "avl_balance \<Rightarrow> avl64node \<Rightarrow> nat \<Rightarrow> bool" where
  "grown growth Null h \<longleftrightarrow> False"
| "grown growth (Node l a b r) h \<longleftrightarrow> bal_ok l \<and> bal_ok r \<and>
     (case growth of
        AVL_BACK \<Rightarrow> (\<exists>k. ht l = Suc k \<and> bal_fits b k (ht r) \<and> h = Suc (max k (ht r))) \<and>
          (\<forall>x c y. l = Node x c AVL_BALANCE y \<longrightarrow> ht l = 1)
      | AVL_FORW \<Rightarrow> (\<exists>k. ht r = Suc k \<and> bal_fits b (ht l) k \<and> h = Suc (max (ht l) k)) \<and>
          (\<forall>x c y. r = Node x c AVL_BALANCE y \<longrightarrow> ht r = 1)
      | AVL_BALANCE \<Rightarrow> False)"

lemma bal_fits_simps [simp]:
  "bal_fits AVL_BALANCE i j \<longleftrightarrow> i = j" "bal_fits AVL_BACK i j \<longleftrightarrow> i = Suc j" "bal_fits AVL_FORW i j \<longleftrightarrow> j = Suc i"
  by (simp_all add: bal_fits_def)

lemma ht_SucE:
  assumes "ht t = Suc n"
  obtains l a b r where "t = Node l a b r" and "max (ht l) (ht r) = n"
  using assms that by (cases t) auto

definition balanced_to :: "avl64node \<Rightarrow> nat \<Rightarrow> (avl64node \<times> bool) option \<Rightarrow> bool" where
  "balanced_to np h res \<longleftrightarrow> (case res of None \<Rightarrow> False | Some (t, up) \<Rightarrow>
     bal_ok t \<and> inorder t = inorder np \<and>
     (if up then ht t = Suc h \<and> (\<forall>x c y. t \<noteq> Node x c AVL_BALANCE y) else ht t = h))"

lemma balance_node_ok:
  assumes "grown growth np h"
  shows "balanced_to np h (balance_node growth np)"
proof -
  obtain l a b r where np: "np = Node l a b r" using assms by (cases np) auto
  consider "b = AVL_BALANCE \<or> growth \<noteq> b" | "b = AVL_BACK" "growth = AVL_BACK" | "b = AVL_FORW" "growth = AVL_FORW"
    using assms np by (cases b) auto
  then show ?thesis
  proof cases
    case 1
    with assms np show ?thesis
      by (cases growth; cases b) (auto simp: balanced_to_def)
  next
    case 2
    then have "ht l = Suc (Suc (ht r))" and f: "bal_ok l" "bal_ok r" "h = Suc (Suc (ht r))"
      "\<And>x c y. l \<noteq> Node x c AVL_BALANCE y" using assms np by auto
    then obtain cl c cb cr where l: "l = Node cl c cb cr" "max (ht cl) (ht cr) = Suc (ht r)" by (metis ht_SucE)
    show ?thesis
    proof (cases cb)
      case AVL_FORW
      with l f have "ht cr = Suc (ht r)" "ht cl = ht r" by auto
      then obtain tb t tbal tf where "cr = Node tb t tbal tf" "max (ht tb) (ht tf) = ht r" by (metis ht_SucE)
      with 2 np l f AVL_FORW \<open>ht cl = ht r\<close> show ?thesis by (cases tbal) (simp_all add: balanced_to_def)
    qed (use 2 np l f in \<open>simp_all add: balanced_to_def\<close>)
  next
    case 3
    then have "ht r = Suc (Suc (ht l))" and f: "bal_ok l" "bal_ok r" "h = Suc (Suc (ht l))"
      "\<And>x c y. r \<noteq> Node x c AVL_BALANCE y" using assms np by auto
    then obtain cl c cb cr where r: "r = Node cl c cb cr" "max (ht cl) (ht cr) = Suc (ht l)" by (metis ht_SucE)
    show ?thesis
    proof (cases cb)
      case AVL_BACK
      with r f have "ht cl = Suc (ht l)" "ht cr = ht l" by auto
      then obtain tb t tbal tf where "cl = Node tb t tbal tf" "max (ht tb) (ht tf) = ht l" by (metis ht_SucE)
      with 3 np r f AVL_BACK \<open>ht cr = ht l\<close> show ?thesis by (cases tbal) (simp_all add: balanced_to_def)
    qed (use 3 np r f in \<open>simp_all add: balanced_to_def\<close>)
  qed
qed

lemma avl64_balance_ok:
  assumes "grown growth np h" and "path_ok h p"
  shows "\<exists>root. avl64_balance growth np p = Some root \<and> bal_ok root \<and> inorder root = before p @ inorder np @ after p"
  using assms
proof (induction p arbitrary: growth np h)
  case Nil
  from balance_node_ok [OF Nil(1)] show ?case by (auto simp: balanced_to_def split: option.splits)
next
  case (Cons c p)
  from balance_node_ok [OF Cons.prems(1)] obtain t up where t: "balance_node growth np = Some (t, up)" "bal_ok t"
    "inorder t = inorder np" "if up then ht t = Suc h \<and> (\<forall>x c y. t \<noteq> Node x c AVL_BALANCE y) else ht t = h"
    by (auto simp: balanced_to_def split: option.splits)
  show ?case
  proof (cases up)
    case True
    define side where "side = (case c of Forw_of l a b \<Rightarrow> AVL_FORW | Back_of a b r \<Rightarrow> AVL_BACK)"
    from t(2,4) Cons.prems(2) True obtain h' where "grown side (plug c t) h'" "path_ok h' p"
      unfolding side_def by (cases c) auto
    from Cons.IH [OF this] t(1,3) True show ?thesis unfolding side_def by (cases c) auto
  next
    case False
    with t Cons.prems(2) have "bal_ok (attach t (c # p))" unfolding bal_ok_attach by simp
    with t(1,3) False show ?thesis using inorder_attach [of t "c # p"] by simp
  qed
qed

section \<open>Rebalancing after a deletion\<close>

text \<open>The subtree opposite to \<open>direction\<close> has lost one level; the balance field is the old one.\<close>

fun shrunk :: "avl_balance \<Rightarrow> avl64node \<Rightarrow> nat \<Rightarrow> bool" where
  "shrunk direction Null h \<longleftrightarrow> False"
| "shrunk direction (Node l a b r) h \<longleftrightarrow> bal_ok l \<and> bal_ok r \<and>
     (case direction of
        AVL_BACK \<Rightarrow> bal_fits b (ht l) (Suc (ht r)) \<and> h = Suc (max (ht l) (Suc (ht r)))
      | AVL_FORW \<Rightarrow> bal_fits b (Suc (ht l)) (ht r) \<and> h = Suc (max (Suc (ht l)) (ht r))
      | AVL_BALANCE \<Rightarrow> False)"

definition retreated_to :: "avl64node \<Rightarrow> nat \<Rightarrow> (avl64node \<times> bool) option \<Rightarrow> bool" where
  "retreated_to np h res \<longleftrightarrow> (case res of None \<Rightarrow> False | Some (t, up) \<Rightarrow>
     bal_ok t \<and> inorder t = inorder np \<and> (if up then h = Suc (ht t) else h = ht t))"

lemma retreat_node_ok:
  assumes "shrunk direction np h"
  shows "retreated_to np h (retreat_node direction np)"
proof -
  obtain l a b r where np: "np = Node l a b r" using assms by (cases np) auto
  consider "b = AVL_BALANCE \<or> direction \<noteq> b" | "b = AVL_BACK" "direction = AVL_BACK"
    | "b = AVL_FORW" "direction = AVL_FORW"
    using assms np by (cases b) auto
  then show ?thesis
  proof cases
    case 1
    with assms np show ?thesis
      by (cases direction; cases b) (auto simp: retreated_to_def)
  next
    case 2
    then have "ht l = Suc (Suc (ht r))" and f: "bal_ok l" "bal_ok r" "h = Suc (Suc (Suc (ht r)))"
      using assms np by auto
    then obtain cl c cb cr where l: "l = Node cl c cb cr" "max (ht cl) (ht cr) = Suc (ht r)" by (metis ht_SucE)
    show ?thesis
    proof (cases cb)
      case AVL_FORW
      with l f have "ht cr = Suc (ht r)" "ht cl = ht r" by auto
      then obtain tb t tbal tf where "cr = Node tb t tbal tf" "max (ht tb) (ht tf) = ht r" by (metis ht_SucE)
      with 2 np l f AVL_FORW \<open>ht cl = ht r\<close> show ?thesis by (cases tbal) (simp_all add: retreated_to_def)
    qed (use 2 np l f in \<open>simp_all add: retreated_to_def\<close>)
  next
    case 3
    then have "ht r = Suc (Suc (ht l))" and f: "bal_ok l" "bal_ok r" "h = Suc (Suc (Suc (ht l)))"
      using assms np by auto
    then obtain cl c cb cr where r: "r = Node cl c cb cr" "max (ht cl) (ht cr) = Suc (ht l)" by (metis ht_SucE)
    show ?thesis
    proof (cases cb)
      case AVL_BACK
      with r f have "ht cl = Suc (ht l)" "ht cr = ht l" by auto
      then obtain tb t tbal tf where "cl = Node tb t tbal tf" "max (ht tb) (ht tf) = ht l" by (metis ht_SucE)
      with 3 np r f AVL_BACK \<open>ht cr = ht l\<close> show ?thesis by (cases tbal) (simp_all add: retreated_to_def)
    qed (use 3 np r f in \<open>simp_all add: retreated_to_def\<close>)
  qed
qed

lemma retreat_ok:
  assumes "shrunk direction np h" and "path_ok h p"
  shows "\<exists>root. retreat direction np p = Some root \<and> bal_ok root \<and> inorder root = before p @ inorder np @ after p"
  using assms
proof (induction p arbitrary: direction np h)
  case Nil
  from retreat_node_ok [OF Nil(1)] show ?case by (auto simp: retreated_to_def split: option.splits)
next
  case (Cons c p)
  from retreat_node_ok [OF Cons.prems(1)] obtain t up where t: "retreat_node direction np = Some (t, up)" "bal_ok t"
    "inorder t = inorder np" "if up then h = Suc (ht t) else h = ht t"
    by (auto simp: retreated_to_def split: option.splits)
  show ?case
  proof (cases up)
    case True
    define side where "side = (case c of Forw_of l a b \<Rightarrow> AVL_BACK | Back_of a b r \<Rightarrow> AVL_FORW)"
    from t(2,4) Cons.prems(2) True obtain h' where "shrunk side (plug c t) h'" "path_ok h' p"
      unfolding side_def by (cases c) auto
    from Cons.IH [OF this] t(1,3) True show ?thesis unfolding side_def by (cases c) auto
  next
    case False
    with t Cons.prems(2) have "bal_ok (attach t (c # p))" unfolding bal_ok_attach by simp
    with t(1,3) False show ?thesis using inorder_attach [of t "c # p"] by simp
  qed
qed

section \<open>Threads\<close>

lemma chain_fresh: "x \<notin> set xs \<Longrightarrow> chain (f(x := v)) xs = chain f xs"
  by (induction xs) auto

lemma chain_append: "chain f (xs @ ys) \<Longrightarrow> chain f ys"
  by (induction xs) auto

lemma chain_last: "chain f (xs @ ys) \<Longrightarrow> xs \<noteq> [] \<Longrightarrow> f (last xs) = hd_opt ys"
  by (induction xs) auto

lemma chain_link:
  assumes "chain f (xs @ ys)" and "chain f zs" and "distinct xs" and "set xs \<inter> set zs = {}"
  shows "chain (if xs = [] then f else f(last xs := hd_opt zs)) (xs @ zs)"
  using assms
proof (induction xs)
  case (Cons x xs)
  show ?case
  proof (cases xs)
    case Nil
    with Cons.prems show ?thesis using chain_fresh [of x zs f "hd_opt zs"] by (simp add: fun_upd_def)
  next
    case (Cons y us)
    have "last xs \<noteq> x" using Cons.prems(3) Cons by auto
    with Cons.IH Cons.prems Cons show ?thesis by auto
  qed
qed simp

text \<open>The nearest ancestor that passes a test met by everything to the left and nothing to the right.\<close>

lemma nearest_before:
  assumes "\<forall>a \<in> set (before p). P a" and "\<forall>a \<in> set (after p). \<not> P a"
  shows "find P (map parent_addr p) = last_opt (before p)"
  using assms
proof (induction p)
  case (Cons c p)
  then show ?case by (cases c) (simp_all add: last_opt_def)
qed (simp add: last_opt_def)

lemma ranges_ok_append:
  "ranges_ok ops (xs @ ys) \<longleftrightarrow> ranges_ok ops xs \<and> ranges_ok ops ys \<and>
     (\<forall>a \<in> set xs. \<forall>b \<in> set ys. avl_end ops a \<le> avl_start ops b)"
  by (auto simp: ranges_ok_def sorted_wrt_append)

lemma ranges_ok_Cons:
  "ranges_ok ops (a # xs) \<longleftrightarrow>
     avl_start ops a < avl_end ops a \<and> ranges_ok ops xs \<and> (\<forall>b \<in> set xs. avl_end ops a \<le> avl_start ops b)"
  by (auto simp: ranges_ok_def)

lemma ranges_ok_distinct: "ranges_ok ops xs \<Longrightarrow> distinct xs"
proof (induction xs)
  case (Cons a xs)
  then have "a \<notin> set xs" by (auto simp: ranges_ok_Cons dest!: bspec)
  with Cons show ?case by (simp add: ranges_ok_Cons)
qed simp

section \<open>Insertion\<close>

text \<open>
  The place of a new range: what is before it ends before the range starts, what is after it
  starts after the range ends.
\<close>

definition left_of :: "avl64ops \<Rightarrow> u64 \<Rightarrow> nat list \<Rightarrow> bool" where
  "left_of ops start xs \<longleftrightarrow> (\<forall>a \<in> set xs. avl_end ops a \<le> start)"

definition right_of :: "avl64ops \<Rightarrow> u64 \<Rightarrow> nat list \<Rightarrow> bool" where
  "right_of ops stop xs \<longleftrightarrow> (\<forall>a \<in> set xs. stop \<le> avl_start ops a)"

lemma find_growth_place:
  assumes "ranges_ok ops (before p @ inorder t @ after p)" and "left_of ops start (before p)"
    and "right_of ops stop (after p)" and "t \<noteq> Null"
  shows "case avl64_insert_find_growth ops start stop t p of
      None \<Rightarrow> \<exists>a \<in> set (inorder t). avl_start ops a < stop \<and> start < avl_end ops a
    | Some (np, q, growth) \<Rightarrow> attach np q = attach t p \<and>
        ((\<exists>a b r. growth = AVL_BACK \<and> np = Node Null a b r \<and> left_of ops start (before q) \<and>
            right_of ops stop (a # inorder r @ after q)) \<or>
         (\<exists>l a b. growth = AVL_FORW \<and> np = Node l a b Null \<and> left_of ops start (before q @ inorder l @ [a]) \<and>
            right_of ops stop (after q)))"
  using assms
proof (induction t arbitrary: p)
  case (Node l a b r)
  have ord: "\<forall>x \<in> set (inorder l). avl_end ops x \<le> avl_start ops a \<and> avl_start ops x < avl_end ops x"
    "\<forall>x \<in> set (inorder r). avl_end ops a \<le> avl_start ops x \<and> avl_start ops x < avl_end ops x"
    "avl_start ops a < avl_end ops a"
    using Node.prems(1) by (auto simp: ranges_ok_def sorted_wrt_append)
  consider "stop \<le> avl_start ops a" | "\<not> stop \<le> avl_start ops a" "avl_end ops a \<le> start"
    | "\<not> stop \<le> avl_start ops a" "\<not> avl_end ops a \<le> start" by blast
  then show ?case
  proof cases
    case 1
    have right: "right_of ops stop (a # inorder r @ after p)"
      using 1 ord Node.prems(3) by (auto simp: right_of_def intro: order_trans less_imp_le)
    show ?thesis
    proof (cases "l = Null")
      case False
      with Node.IH(1) [of "Back_of a b r # p"] Node.prems right show ?thesis
        using 1 by (fastforce split: option.splits)
    qed (use 1 right Node.prems in simp)
  next
    case 2
    have left: "left_of ops start (before p @ inorder l @ [a])"
      using 2 ord Node.prems(2) by (auto simp: left_of_def intro: order_trans less_imp_le)
    show ?thesis
    proof (cases "r = Null")
      case False
      with Node.IH(2) [of "Forw_of l a b # p"] Node.prems left show ?thesis
        using 2 by (fastforce split: option.splits)
    qed (use 2 left Node.prems in simp)
  qed (auto simp: not_le)
qed simp

definition place :: "avl64ops \<Rightarrow> nat \<Rightarrow> nat list \<Rightarrow> nat list" where
  "place ops n xs = filter (\<lambda>a. avl_end ops a \<le> avl_start ops n) xs @ n #
     filter (\<lambda>a. \<not> avl_end ops a \<le> avl_start ops n) xs"

definition overlaps :: "avl64ops \<Rightarrow> nat \<Rightarrow> nat list \<Rightarrow> bool" where
  "overlaps ops n xs \<longleftrightarrow> (\<exists>a \<in> set xs. avl_start ops a < avl_end ops n \<and> avl_start ops n < avl_end ops a)"

lemma place_between:
  assumes "ranges_ok ops (xs @ ys)" and "left_of ops (avl_start ops n) xs" and "right_of ops (avl_end ops n) ys"
    and "avl_start ops n < avl_end ops n"
  shows "place ops n (xs @ ys) = xs @ n # ys" and "ranges_ok ops (xs @ n # ys)" and "\<not> overlaps ops n (xs @ ys)"
proof -
  have l: "avl_end ops a \<le> avl_start ops n" if "a \<in> set xs" for a using assms(2) that by (simp add: left_of_def)
  have r: "\<not> avl_end ops a \<le> avl_start ops n" "avl_end ops n \<le> avl_start ops a" if "a \<in> set ys" for a
  proof -
    show "avl_end ops n \<le> avl_start ops a" using assms(3) that by (simp add: right_of_def)
    moreover have "avl_start ops a < avl_end ops a" using assms(1) that by (simp add: ranges_ok_def)
    ultimately show "\<not> avl_end ops a \<le> avl_start ops n" using assms(4) by simp
  qed
  have "filter (\<lambda>a. avl_end ops a \<le> avl_start ops n) xs = xs" "filter (\<lambda>a. \<not> avl_end ops a \<le> avl_start ops n) xs = []"
    "filter (\<lambda>a. avl_end ops a \<le> avl_start ops n) ys = []" "filter (\<lambda>a. \<not> avl_end ops a \<le> avl_start ops n) ys = ys"
    using l r by (auto simp: filter_empty_conv intro!: filter_True)
  then show "place ops n (xs @ ys) = xs @ n # ys" by (simp add: place_def)
  show "ranges_ok ops (xs @ n # ys)" using assms l r by (auto simp: ranges_ok_append ranges_ok_Cons)
  show "\<not> overlaps ops n (xs @ ys)" using l r by (fastforce simp: overlaps_def)
qed

text \<open>The links that the insertion sets keep the thread.\<close>

lemma chain_insert:
  assumes "chain f (xs @ ys)" and "distinct (xs @ ys)" and "n \<notin> set (xs @ ys)"
  shows "chain (if xs = [] then f(n := hd_opt ys) else f(n := hd_opt ys, last xs := Some n)) (xs @ n # ys)"
proof -
  let ?g = "f(n := hd_opt ys)"
  have "chain ?g (xs @ ys)" "chain ?g (n # ys)"
    using assms chain_fresh [of n "xs @ ys" f] chain_fresh [of n ys f] chain_append by auto
  from chain_link [OF this] assms(2,3) show ?thesis by auto
qed

definition inserted :: "avl64ops \<Rightarrow> avl64tree_desc \<Rightarrow> nat \<Rightarrow> bool \<times> avl64tree_desc \<Rightarrow> bool" where
  "inserted ops tree n res \<longleftrightarrow> avl_inv ops (snd res) \<and>
     (if overlaps ops n (entries tree) then \<not> fst res \<and> entries (snd res) = entries tree
      else fst res \<and> entries (snd res) = place ops n (entries tree))"

definition grow_done ::
  "avl64ops \<Rightarrow> avl64tree_desc \<Rightarrow> nat \<Rightarrow> avl64node \<Rightarrow> avl_path \<Rightarrow> avl_balance \<Rightarrow> avl64node \<times> (nat \<Rightarrow> nat option) \<Rightarrow> bool" where
  "grow_done ops tree n np p growth res \<longleftrightarrow> grown growth (fst res) (ht np) \<and>
     before p @ inorder (fst res) @ after p = place ops n (entries tree) \<and>
     chain (snd res) (place ops n (entries tree)) \<and> ranges_ok ops (place ops n (entries tree)) \<and>
     \<not> overlaps ops n (entries tree) \<and>
     hd_opt (place ops n (entries tree)) =
       (if growth = AVL_BACK \<and> avl_firstino tree = node_addr np then Some n else avl_firstino tree)"

lemma hd_opt_append: "hd_opt (xs @ ys) = (if xs = [] then hd_opt ys else hd_opt xs)"
  by (cases xs) simp_all

lemma insert_grow_back:
  assumes inv: "avl_inv ops tree" "n \<notin> set (entries tree)" "avl_start ops n < avl_end ops n"
    and np: "attach (Node Null a b r) p = avl_root tree"
    and l: "left_of ops (avl_start ops n) (before p)" and r: "right_of ops (avl_end ops n) (a # inorder r @ after p)"
  shows "grow_done ops tree n (Node Null a b r) p AVL_BACK
    (avl64_insert_grow ops (Node Null a b r) p n AVL_BACK (avl_nextino tree))"
proof -
  have ent: "entries tree = before p @ a # inorder r @ after p"
    using np inorder_attach [of "Node Null a b r" p] by (simp add: entries_def)
  have bal: "bal_ok (Node Null a b r)" using inv(1) np by (metis avl_inv_def bal_ok_attach)
  note i = inv(1) [unfolded avl_inv_def ent]
  have dist: "distinct (before p @ a # inorder r @ after p)" using i ranges_ok_distinct by blast
  note pl = place_between [OF _ l r inv(3)]
  have n: "\<not> avl_end ops x \<le> avl_start ops n" if "x \<in> set (a # inorder r @ after p)" for x
  proof -
    have "avl_end ops n \<le> avl_start ops x" using r that by (auto simp: right_of_def)
    also have "avl_start ops x < avl_end ops x" using i that by (auto simp: ranges_ok_def)
    finally show ?thesis using inv(3) by simp
  qed
  then have "find (\<lambda>x. avl_end ops x \<le> avl_start ops n) (a # map parent_addr p) = last_opt (before p)"
    using l by (simp add: nearest_before left_of_def)
  moreover have "chain (if before p = [] then (avl_nextino tree)(n := Some a)
      else (avl_nextino tree)(n := Some a, last (before p) := Some n)) (before p @ n # a # inorder r @ after p)"
    using chain_insert [OF _ dist, of "avl_nextino tree" n, unfolded hd_opt.simps] i inv(2) unfolding ent by blast
  ultimately have ch: "chain (snd (avl64_insert_grow ops (Node Null a b r) p n AVL_BACK (avl_nextino tree)))
      (before p @ n # a # inorder r @ after p)"
    by (cases "before p = []") (simp_all add: Let_def last_opt_def del: find.simps chain.simps)
  have "hd_opt (before p @ n # a # inorder r @ after p) =
      (if avl_firstino tree = Some a then Some n else avl_firstino tree)"
    using i dist by (cases "before p") auto
  moreover have "grown AVL_BACK (Node (Node Null n AVL_BALANCE Null) a b r) (ht (Node Null a b r))" using bal by simp
  ultimately show ?thesis using pl i ch unfolding grow_done_def ent by (simp add: Let_def)
qed

lemma insert_grow_forw:
  assumes inv: "avl_inv ops tree" "n \<notin> set (entries tree)" "avl_start ops n < avl_end ops n"
    and np: "attach (Node l a b Null) p = avl_root tree"
    and l: "left_of ops (avl_start ops n) (before p @ inorder l @ [a])" and r: "right_of ops (avl_end ops n) (after p)"
  shows "grow_done ops tree n (Node l a b Null) p AVL_FORW
    (avl64_insert_grow ops (Node l a b Null) p n AVL_FORW (avl_nextino tree))"
proof -
  let ?xs = "before p @ inorder l @ [a]"
  have ent: "entries tree = ?xs @ after p"
    using np inorder_attach [of "Node l a b Null" p] by (simp add: entries_def)
  have bal: "bal_ok (Node l a b Null)" using inv(1) np by (metis avl_inv_def bal_ok_attach)
  note i = inv(1) [unfolded avl_inv_def ent]
  have dist: "distinct (?xs @ after p)" using i ranges_ok_distinct by blast
  note pl = place_between [OF _ l r inv(3)]
  have "avl_nextino tree a = hd_opt (after p)" using chain_last [of "avl_nextino tree" ?xs "after p"] i by simp
  then have "chain ((avl_nextino tree)(n := avl_nextino tree a, a := Some n)) (?xs @ n # after p)"
    using chain_insert [of "avl_nextino tree" ?xs "after p" n] i dist inv(2) ent by simp
  moreover have "hd_opt (?xs @ n # after p) = avl_firstino tree"
    using i by (simp add: hd_opt_append split: if_splits)
  moreover have "grown AVL_FORW (Node l a b (Node Null n AVL_BALANCE Null)) (ht (Node l a b Null))" using bal by simp
  ultimately show ?thesis using pl i unfolding grow_done_def ent by (simp add: Let_def)
qed

lemma avl64_insert_ok:
  assumes inv: "avl_inv ops tree" and fresh: "n \<notin> set (entries tree)" and pos: "avl_start ops n < avl_end ops n"
  shows "\<exists>res. avl64_insert ops tree n = Some res \<and> inserted ops tree n res"
proof -
  define t0 where "t0 = tree\<lparr>avl_nextino := (avl_nextino tree)(n := None)\<rparr>"
  have t0: "avl_root t0 = avl_root tree" "avl_firstino t0 = avl_firstino tree" "entries t0 = entries tree"
    by (simp_all add: t0_def entries_def)
  have inv0: "avl_inv ops t0" using inv fresh by (simp add: avl_inv_def t0_def entries_def chain_fresh)
  show ?thesis
  proof (cases "avl_root tree = Null")
    case True
    with pos show ?thesis
      by (simp add: avl64_insert_def inserted_def avl_inv_def entries_def overlaps_def place_def ranges_ok_def)
  next
    case False
    have ord: "ranges_ok ops (before [] @ inorder (avl_root tree) @ after [])" "left_of ops s (before [])"
      "right_of ops s (after [])" for s
      using inv by (simp_all add: avl_inv_def entries_def left_of_def right_of_def)
    note place = find_growth_place [OF ord(1) ord(2) [of "avl_start ops n"] ord(3) [of "avl_end ops n"] False]
    show ?thesis
    proof (cases "avl64_insert_find_growth ops (avl_start ops n) (avl_end ops n) (avl_root tree) []")
      case None
      with place have "overlaps ops n (entries tree)" by (simp add: overlaps_def entries_def)
      with None False inv0 t0 show ?thesis
        unfolding avl64_insert_def Let_def t0_def [symmetric] inserted_def by simp
    next
      case (Some g)
      obtain np p growth where g: "g = (np, p, growth)" by (cases g)
      obtain np' nxt where grow: "avl64_insert_grow ops np p n growth (avl_nextino t0) = (np', nxt)" by fastforce
      have att: "attach np p = avl_root t0" using place Some g t0 by simp
      have "grow_done ops t0 n np p growth (np', nxt)"
      proof -
        from place Some g consider
          (B) a b r where "growth = AVL_BACK" "np = Node Null a b r" "left_of ops (avl_start ops n) (before p)"
            "right_of ops (avl_end ops n) (a # inorder r @ after p)"
        | (F) l a b where "growth = AVL_FORW" "np = Node l a b Null"
            "left_of ops (avl_start ops n) (before p @ inorder l @ [a])" "right_of ops (avl_end ops n) (after p)"
          by auto
        then show ?thesis
        proof cases
          case B
          from insert_grow_back [OF inv0 _ pos att [unfolded B(2)] B(3,4)] fresh t0(3) grow B(1,2) show ?thesis by metis
        next
          case F
          from insert_grow_forw [OF inv0 _ pos att [unfolded F(2)] F(3,4)] fresh t0(3) grow F(1,2) show ?thesis by metis
        qed
      qed
      note gd = this [unfolded grow_done_def fst_conv snd_conv]
      have "path_ok (ht np) p" using inv0 att by (metis avl_inv_def bal_ok_attach)
      with avl64_balance_ok gd obtain root where "avl64_balance growth np' p = Some root" "bal_ok root"
        "inorder root = before p @ inorder np' @ after p" by blast
      with gd grow Some g False t0 show ?thesis
        unfolding avl64_insert_def Let_def t0_def [symmetric] inserted_def
        by (simp add: avl_inv_def entries_def)
    qed
  qed
qed

section \<open>Deletion\<close>

fun up_ht :: "nat \<Rightarrow> avl_path \<Rightarrow> nat" where
  "up_ht h [] = h"
| "up_ht h (Back_of a b r # p) = up_ht (Suc (max h (ht r))) p"
| "up_ht h (Forw_of l a b # p) = up_ht (Suc (max (ht l) h)) p"

lemma ht_attach: "ht (attach t p) = up_ht (ht t) p"
proof (induction p arbitrary: t)
  case (Cons c p)
  then show ?case by (cases c) simp_all
qed simp

lemma path_ok_append: "path_ok h (p @ q) \<longleftrightarrow> path_ok h p \<and> path_ok (up_ht h p) q"
proof (induction p arbitrary: h)
  case (Cons c p)
  then show ?case by (cases c) simp_all
qed simp

lemma before_after_append: "before (p @ q) = before q @ before p" "after (p @ q) = after p @ after q"
proof (induction p)
  case (Cons c p)
  { case 1 with Cons show ?case by (cases c) simp_all }
  { case 2 with Cons show ?case by (cases c) simp_all }
qed simp_all

lemma delete_attach_ok:
  assumes "bal_ok t" and "path_ok (Suc (ht t)) p"
  shows "\<exists>root. delete_attach t p = Some root \<and> bal_ok root \<and> inorder root = before p @ inorder t @ after p"
proof (cases p)
  case (Cons c q)
  show ?thesis
  proof (cases c)
    case (Back_of a b r)
    with assms Cons retreat_ok [of AVL_FORW "Node t a b r" "Suc (max (Suc (ht t)) (ht r))" q] show ?thesis by simp
  next
    case (Forw_of l a b)
    with assms Cons retreat_ok [of AVL_BACK "Node l a b t" "Suc (max (ht l) (Suc (ht t)))" q] show ?thesis by simp
  qed
qed (use assms in simp)

lemma forw_line_last: "t \<noteq> Null \<Longrightarrow> node_addr (fst (forw_line t p)) = Some (last (inorder t))"
proof (induction t arbitrary: p)
  case (Node l a b r)
  then show ?case by (cases "r = Null") (auto simp: neq_Nil_conv elim: inorder.elims)
qed simp

lemma forw_line_shape:
  assumes "t \<noteq> Null"
  shows "\<exists>l a b l' a' b' q. forw_line t (Forw_of x y z # p) = (Node l a b Null, Forw_of l' a' b' # q) \<and>
    attach (Node l a b Null) (Forw_of l' a' b' # q) = attach t (Forw_of x y z # p) \<and> after q = after p"
  using assms
proof (induction t arbitrary: x y z p)
  case (Node l a b r)
  show ?case
  proof (cases "r = Null")
    case False
    from Node.IH(2) [OF this, of l a b "Forw_of x y z # p"] False show ?thesis by simp
  qed simp
qed simp

lemma delete_both_ok:
  assumes "bal_ok (Node bk n b forw)" and "path_ok (ht (Node bk n b forw)) p" and "bk \<noteq> Null"
  shows "\<exists>root. delete_both bk b forw p = Some root \<and> bal_ok root \<and>
    inorder root = before p @ (inorder bk @ inorder forw) @ after p"
proof -
  obtain bl a bb br where bk: "bk = Node bl a bb br" using assms(3) by (cases bk) auto
  show ?thesis
  proof (cases "br = Null")
    case True
    with assms bk have "shrunk AVL_FORW (Node bl a b forw) (Suc (max (ht bk) (ht forw)))" by simp
    from retreat_ok [OF this] assms(2) True bk show ?thesis by simp
  next
    case False
    from forw_line_shape [OF this] obtain fl f fb l' a' b' q where
      sh: "forw_line br [Forw_of bl a bb] = (Node fl f fb Null, Forw_of l' a' b' # q)"
        "attach (Node fl f fb Null) (Forw_of l' a' b' # q) = bk" "after q = []"
      unfolding bk by fastforce
    have "bal_ok (Node fl f fb Null)" and pth: "path_ok (Suc (ht fl)) (Forw_of l' a' b' # q)"
      using assms(1) sh(2) bal_ok_attach [of "Node fl f fb Null" "Forw_of l' a' b' # q"] by auto
    then have shr: "shrunk AVL_BACK (Node l' a' b' fl) (Suc (max (ht l') (Suc (ht fl))))"
      and q: "path_ok (Suc (max (ht l') (Suc (ht fl)))) q" by auto
    have "up_ht (Suc (max (ht l') (Suc (ht fl)))) q = ht bk"
      using ht_attach [of "Node fl f fb Null" "Forw_of l' a' b' # q"] sh(2) by simp
    with q assms(1,2) have "path_ok (Suc (max (ht l') (Suc (ht fl)))) (q @ Back_of f b forw # p)"
      by (simp add: path_ok_append)
    from retreat_ok [OF shr this] obtain root where
      r: "retreat AVL_BACK (Node l' a' b' fl) (q @ Back_of f b forw # p) = Some root" "bal_ok root"
        "inorder root = before (q @ Back_of f b forw # p) @ inorder (Node l' a' b' fl) @ after (q @ Back_of f b forw # p)"
      by blast
    have "inorder bk = before q @ inorder l' @ a' # inorder fl @ [f]"
      using inorder_attach [of "Node fl f fb Null" "Forw_of l' a' b' # q"] sh(2,3) by simp
    with r sh False bk show ?thesis by (simp add: before_after_append)
  qed
qed

lemma delete_prev_ok:
  assumes "ranges_ok ops (before p @ inorder bk @ n # ys @ after p)"
  shows "delete_prev ops bk n p = last_opt (before p @ inorder bk)"
proof (cases "bk = Null")
  case True
  have "\<forall>a \<in> set (before p). avl_end ops a \<le> avl_end ops n"
    using assms by (auto simp: ranges_ok_append ranges_ok_Cons intro: order_trans less_imp_le)
  moreover have "\<forall>a \<in> set (after p). \<not> avl_end ops a \<le> avl_end ops n"
  proof
    fix a assume "a \<in> set (after p)"
    then have "avl_end ops n \<le> avl_start ops a" "avl_start ops a < avl_end ops a"
      using assms by (auto simp: ranges_ok_def sorted_wrt_append)
    then show "\<not> avl_end ops a \<le> avl_end ops n" by simp
  qed
  ultimately show ?thesis using True by (simp add: delete_prev_def nearest_before)
next
  case False
  then have "inorder bk \<noteq> []" by (cases bk) auto
  with False show ?thesis by (simp add: delete_prev_def forw_line_last last_opt_def)
qed

lemma avl64_delete_ok:
  assumes inv: "avl_inv ops tree" and mem: "n \<in> set (entries tree)"
  shows "\<exists>tree'. avl64_delete ops tree n = Some tree' \<and> avl_inv ops tree' \<and> entries tree' = remove1 n (entries tree)"
proof -
  obtain bk b forw p where loc: "locate n (avl_root tree) [] = Some (Node bk n b forw, p)"
    and att: "attach (Node bk n b forw) p = avl_root tree"
    using locate_found mem unfolding entries_def by metis
  let ?xs = "before p @ inorder bk" and ?ys = "inorder forw @ after p"
  have ent: "entries tree = ?xs @ n # ?ys"
    using inorder_attach [of "Node bk n b forw" p] att by (simp add: entries_def)
  note i = inv [unfolded avl_inv_def ent]
  have dist: "distinct (?xs @ n # ?ys)" using i ranges_ok_distinct by blast
  then have rem: "remove1 n (entries tree) = ?xs @ ?ys" unfolding ent by (simp add: remove1_append)
  have bal: "bal_ok (Node bk n b forw)" "path_ok (ht (Node bk n b forw)) p"
    using i att by (metis bal_ok_attach)+
  obtain root where root: "(if forw = Null then delete_attach bk p else if bk = Null then delete_attach forw p
      else delete_both bk b forw p) = Some root" "bal_ok root" "inorder root = ?xs @ ?ys"
  proof -
    consider "forw = Null" | "forw \<noteq> Null" "bk = Null" | "forw \<noteq> Null" "bk \<noteq> Null" by blast
    then show thesis
    proof cases
      case 1
      with bal delete_attach_ok [of bk p] that show thesis by auto
    next
      case 2
      with bal delete_attach_ok [of forw p] that show thesis by auto
    next
      case 3
      with delete_both_ok [OF bal] that show thesis by auto
    qed
  qed
  have prev: "delete_prev ops bk n p = last_opt ?xs"
    using delete_prev_ok [of ops p bk n "inorder forw"] i by simp
  have fn: "avl_nextino tree n = hd_opt ?ys" and ch: "chain (avl_nextino tree) ?ys"
    using chain_append [of "avl_nextino tree" ?xs "n # ?ys"] i by simp_all
  have "chain (avl_nextino tree) (?xs @ n # ?ys)" "distinct ?xs" "set ?xs \<inter> set ?ys = {}" using i dist by auto
  then have link: "chain (if ?xs = [] then avl_nextino tree else (avl_nextino tree)(last ?xs := hd_opt ?ys)) (?xs @ ?ys)"
    by (intro chain_link [OF _ ch])
  have "ranges_ok ops (?xs @ ?ys)" using i by (auto simp: ranges_ok_append ranges_ok_Cons)
  moreover define t1 where "t1 = (case last_opt ?xs of
      Some nnext \<Rightarrow> tree\<lparr>avl_nextino := (avl_nextino tree)(nnext := avl_nextino tree n)\<rparr>
    | None \<Rightarrow> tree\<lparr>avl_firstino := avl_nextino tree n\<rparr>)"
  moreover have "avl64_delete ops tree n = Some (t1\<lparr>avl_root := root\<rparr>)"
    unfolding avl64_delete_def loc option.case prod.case avl64node.case prev root(1) Let_def t1_def ..
  moreover have "avl_nextino t1 = (if ?xs = [] then avl_nextino tree else (avl_nextino tree)(last ?xs := hd_opt ?ys))"
    "avl_firstino t1 = hd_opt (?xs @ ?ys)"
    using i unfolding t1_def by (simp_all add: last_opt_def fn hd_opt_append)
  ultimately show ?thesis using root(2,3) link unfolding rem by (simp add: avl_inv_def entries_def)
qed

section \<open>Searches\<close>

lemmas range_order = order_trans less_trans le_less_trans less_le_trans less_imp_le

lemma filter_split:
  assumes "\<forall>a \<in> set xs. \<not> P a" and "\<forall>a \<in> set zs. P a"
  shows "filter P (xs @ ys @ zs) = filter P ys @ zs" and "filter (\<lambda>a. \<not> P a) (xs @ ys @ zs) = xs @ filter (\<lambda>a. \<not> P a) ys"
  using assms by (simp_all add: filter_empty_conv filter_id_conv)

lemma findadjacent_succeed:
  assumes "ranges_ok ops (before p @ inorder t @ after p)" and "chain nxt (before p @ inorder t @ after p)"
    and "\<forall>a \<in> set (before p). avl_end ops a \<le> v" and "\<forall>a \<in> set (after p). v < avl_start ops a" and "t \<noteq> Null"
  shows "avl64_findadjacent ops nxt v AVL_SUCCEED t p = hd_opt (filter (\<lambda>a. v < avl_end ops a) (inorder t @ after p))"
  using assms
proof (induction t arbitrary: p)
  case (Node l a b r)
  have ord: "\<forall>x \<in> set (inorder l). avl_end ops x \<le> avl_start ops a" "avl_start ops a < avl_end ops a"
    "\<forall>x \<in> set (inorder r @ after p). avl_end ops a \<le> avl_start ops x \<and> avl_start ops x < avl_end ops x"
    using Node.prems(1) by (auto simp: ranges_ok_def sorted_wrt_append)
  consider "v < avl_start ops a" | "\<not> v < avl_start ops a" "avl_end ops a \<le> v"
    | "\<not> v < avl_start ops a" "\<not> avl_end ops a \<le> v" by blast
  then show ?case
  proof cases
    case 1
    then have "\<forall>x \<in> set (after (Back_of a b r # p)). v < avl_start ops x" using ord Node.prems(4) by (auto intro: range_order)
    with Node.IH(1) [of "Back_of a b r # p"] Node.prems 1 ord(2) show ?thesis by (cases "l = Null") auto
  next
    case 2
    then have out: "\<forall>x \<in> set (inorder l @ [a]). avl_end ops x \<le> v" using ord by (auto intro: range_order)
    show ?thesis
    proof (cases "r = Null")
      case True
      have "filter (\<lambda>x. v < avl_end ops x) (after p) = after p" using Node.prems(4) ord(3)
        by (auto simp: filter_id_conv intro: range_order)
      with 2 True out chain_last [of nxt "before p @ inorder l @ [a]" "after p"] Node.prems(2) show ?thesis
        by (auto simp: filter_empty_conv not_less dest: leD)
    next
      case False
      have "\<forall>x \<in> set (before (Forw_of l a b # p)). avl_end ops x \<le> v" using Node.prems(3) out by (auto intro: range_order)
      with Node.IH(2) [of "Forw_of l a b # p"] Node.prems 2 False out show ?thesis by (auto simp: filter_empty_conv not_less dest: leD)
    qed
  next
    case 3
    then have "\<forall>x \<in> set (inorder l). avl_end ops x \<le> v" using ord by (auto intro: range_order)
    with 3 show ?thesis by (auto simp: filter_empty_conv not_less dest: leD)
  qed
qed simp

lemma findadjacent_preceed:
  assumes "ranges_ok ops (before p @ inorder t @ after p)"
    and "\<forall>a \<in> set (before p). avl_end ops a \<le> v" and "\<forall>a \<in> set (after p). v < avl_start ops a" and "t \<noteq> Null"
  shows "avl64_findadjacent ops nxt v AVL_PRECEED t p = last_opt (filter (\<lambda>a. avl_start ops a \<le> v) (before p @ inorder t))"
  using assms
proof (induction t arbitrary: p)
  case (Node l a b r)
  have ord: "\<forall>x \<in> set (before p @ inorder l). avl_start ops x < avl_end ops x \<and> avl_end ops x \<le> avl_start ops a"
    "avl_start ops a < avl_end ops a" "\<forall>x \<in> set (inorder r). avl_end ops a \<le> avl_start ops x"
    "\<forall>x \<in> set (after p). avl_start ops x < avl_end ops x"
    using Node.prems(1) by (auto simp: ranges_ok_def sorted_wrt_append)
  consider "v < avl_start ops a" | "\<not> v < avl_start ops a" "avl_end ops a \<le> v"
    | "\<not> v < avl_start ops a" "\<not> avl_end ops a \<le> v" by blast
  then show ?case
  proof cases
    case 1
    then have out: "\<forall>x \<in> set (a # inorder r). v < avl_start ops x" using ord by (auto intro: range_order)
    show ?thesis
    proof (cases "l = Null")
      case True
      have "filter (\<lambda>x. avl_start ops x \<le> v) (before p) = before p" using Node.prems(2) ord(1)
        by (auto simp: filter_id_conv intro: range_order)
      moreover have "\<forall>x \<in> set (after p). v < avl_end ops x" using Node.prems(3) ord(4) by (auto intro: range_order)
      ultimately show ?thesis using 1 True out Node.prems(2)
        by (auto simp: nearest_before filter_empty_conv not_le dest: leD)
    next
      case False
      have "\<forall>x \<in> set (after (Back_of a b r # p)). v < avl_start ops x" using Node.prems(3) out by (auto intro: range_order)
      with Node.IH(1) [of "Back_of a b r # p"] Node.prems 1 False out show ?thesis by (auto simp: filter_empty_conv not_le dest: leD)
    qed
  next
    case 2
    have av: "avl_start ops a \<le> v" using 2 by simp
    have le: "\<forall>x \<in> set (before p @ inorder l @ [a]). avl_end ops x \<le> v \<and> avl_start ops x \<le> v"
    proof
      fix x assume "x \<in> set (before p @ inorder l @ [a])"
      then have "x = a \<or> avl_start ops x < avl_end ops x \<and> avl_end ops x \<le> avl_start ops a" using ord(1) by auto
      with 2(2) av show "avl_end ops x \<le> v \<and> avl_start ops x \<le> v"
        by (metis order_trans less_imp_le)
    qed
    with Node.IH(2) [of "Forw_of l a b # p"] Node.prems 2 show ?thesis by (cases "r = Null") (auto simp: last_opt_def)
  next
    case 3
    then have "\<forall>x \<in> set (inorder r). v < avl_start ops x" using ord by (auto intro: range_order)
    with 3 show ?thesis by (auto simp: filter_empty_conv not_le last_opt_def dest: leD)
  qed
qed simp

lemma avl_findadjacent:
  assumes "avl_inv ops tree"
  shows "avl64_findadjacent ops (avl_nextino tree) v AVL_SUCCEED (avl_root tree) [] =
      hd_opt (filter (\<lambda>a. v < avl_end ops a) (entries tree))"
    and "avl64_findadjacent ops (avl_nextino tree) v AVL_PRECEED (avl_root tree) [] =
      last_opt (filter (\<lambda>a. avl_start ops a \<le> v) (entries tree))"
  using assms findadjacent_succeed [of ops "[]" "avl_root tree" "avl_nextino tree" v]
    findadjacent_preceed [of ops "[]" "avl_root tree" v "avl_nextino tree"]
  by (cases "avl_root tree = Null"; simp add: avl_inv_def entries_def last_opt_def)+

text \<open>The nodes that meet a range.\<close>

definition hits :: "avl64ops \<Rightarrow> u64 \<Rightarrow> u64 \<Rightarrow> nat list \<Rightarrow> nat list" where
  "hits ops start stop xs = filter (\<lambda>a. start < avl_end ops a \<and> avl_start ops a < stop) xs"

lemma ranges_split:
  assumes "ranges_ok ops xs"
  obtains ys zs where "xs = ys @ zs" and "\<forall>a \<in> set ys. avl_end ops a \<le> v" and "\<forall>a \<in> set zs. v < avl_end ops a"
    and "filter (\<lambda>a. v < avl_end ops a) xs = zs"
  using assms
proof (induction xs arbitrary: thesis)
  case (Cons x xs)
  have ok: "ranges_ok ops xs" using Cons.prems(2) by (simp add: ranges_ok_Cons)
  show ?case
  proof (cases "v < avl_end ops x")
    case True
    have "\<forall>a \<in> set (x # xs). v < avl_end ops a"
    proof
      fix a assume "a \<in> set (x # xs)"
      then have "a = x \<or> avl_end ops x \<le> avl_start ops a \<and> avl_start ops a < avl_end ops a"
        using Cons.prems(2) by (auto simp: ranges_ok_def)
      with True show "v < avl_end ops a" by (metis less_trans less_le_trans)
    qed
    with Cons.prems(1) [of "[]" "x # xs"] show ?thesis by (auto simp: filter_id_conv)
  next
    case False
    obtain ys zs where "xs = ys @ zs" "\<forall>a \<in> set ys. avl_end ops a \<le> v" "\<forall>a \<in> set zs. v < avl_end ops a"
      "filter (\<lambda>a. v < avl_end ops a) xs = zs" using Cons.IH [OF _ ok] by blast
    with Cons.prems(1) [of "x # ys" zs] False show ?thesis by (auto simp: not_less)
  qed
qed simp

lemma hits_after:
  assumes "ranges_ok ops (a # zs)" and "\<forall>b \<in> set zs. stop \<le> avl_start ops b \<or> avl_end ops a \<ge> stop"
  shows "filter (\<lambda>b. avl_start ops b < stop) zs = []"
  using assms by (auto simp: filter_empty_conv ranges_ok_Cons not_less intro: order_trans)

lemma avl64_findranges_ok:
  assumes inv: "avl_inv ops tree" and lt: "start < stop"
  shows "avl64_findranges ops tree start stop =
    (hd_opt (hits ops start stop (entries tree)), last_opt (hits ops start stop (entries tree)))"
proof -
  have ok: "ranges_ok ops (entries tree)" and ch: "chain (avl_nextino tree) (entries tree)"
    using inv by (simp_all add: avl_inv_def)
  obtain ys zs where xs: "entries tree = ys @ zs" and ys: "\<forall>a \<in> set ys. avl_end ops a \<le> start"
    and zs: "\<forall>a \<in> set zs. start < avl_end ops a" and f: "filter (\<lambda>a. start < avl_end ops a) (entries tree) = zs"
    using ranges_split [OF ok] by blast
  have h: "hits ops start stop (entries tree) = filter (\<lambda>a. avl_start ops a < stop) zs"
    unfolding f [symmetric] hits_def by (simp add: conj_commute)
  have "unat (stop - 1) = unat stop - 1" using lt by (subst unat_sub_le) (simp_all add: word_le_nat_alt word_less_nat_alt)
  then have le: "avl_start ops a \<le> stop - 1 \<longleftrightarrow> avl_start ops a < stop" for a
    using lt by (auto simp: word_le_nat_alt word_less_nat_alt)
  show ?thesis
  proof (cases zs)
    case Nil
    then show ?thesis by (simp add: avl64_findranges_def avl_findadjacent [OF inv] f h last_opt_def)
  next
    case (Cons a us)
    have ok': "ranges_ok ops (a # us)" using ok xs Cons by (simp add: ranges_ok_append)
    have nx: "avl_nextino tree a = hd_opt us" using chain_append [of _ ys zs] ch xs Cons by simp
    have above: "stop \<le> avl_start ops b" if "b \<in> set us" "stop \<le> avl_end ops a \<or> stop \<le> avl_start ops (hd us)" for b
    proof -
      have "avl_end ops a \<le> avl_start ops b" "b = hd us \<or> avl_start ops (hd us) \<le> avl_start ops b"
        using ok' that(1) by (cases us; auto simp: ranges_ok_Cons intro: order_trans less_imp_le)+
      with that(2) show ?thesis by (metis order_trans)
    qed
    consider "stop \<le> avl_start ops a" | "avl_start ops a < stop" "us = [] \<or> stop \<le> avl_end ops a \<or> stop \<le> avl_start ops (hd us)"
      | u vs where "avl_start ops a < stop" "us = u # vs" "\<not> stop \<le> avl_end ops a" "\<not> stop \<le> avl_start ops u"
      by (metis list.exhaust list.sel(1) not_le)
    then show ?thesis
    proof cases
      case 1
      then have "\<forall>b \<in> set us. \<not> avl_start ops b < stop"
        using above ok' by (auto simp: not_less ranges_ok_Cons intro: order_trans less_imp_le)
      with 1 show ?thesis
        by (simp add: avl64_findranges_def avl_findadjacent [OF inv] f h Cons last_opt_def filter_empty_conv)
    next
      case 2
      then have "\<forall>b \<in> set us. \<not> avl_start ops b < stop" using above by (auto simp: not_less)
      then have "filter (\<lambda>a. avl_start ops a < stop) us = []" by (simp add: filter_empty_conv)
      with 2 show ?thesis
        by (cases us) (auto simp: avl64_findranges_def avl_findadjacent [OF inv] f h Cons last_opt_def nx)
    next
      case 3
      have "avl64_findadjacent ops (avl_nextino tree) (stop - 1) AVL_PRECEED (avl_root tree) [] =
          last_opt (filter (\<lambda>a. avl_start ops a < stop) zs)"
        using 3 Cons unfolding avl_findadjacent(2) [OF inv] le xs by (simp add: last_opt_def)
      moreover have "avl64_findadjacent ops (avl_nextino tree) start AVL_SUCCEED (avl_root tree) [] = Some a"
        using Cons unfolding avl_findadjacent(1) [OF inv] f by simp
      ultimately show ?thesis using 3 nx unfolding avl64_findranges_def h by (simp add: Cons)
    qed
  qed
qed

lemma avl64_findranges_none:
  assumes "avl_inv ops tree" and "\<forall>a \<in> set (entries tree). avl_end ops a \<le> start"
  shows "avl64_findranges ops tree start stop = (None, None)"
proof -
  have "filter (\<lambda>a. start < avl_end ops a) (entries tree) = []" using assms(2) by (auto simp: filter_empty_conv not_less)
  then show ?thesis by (simp add: avl64_findranges_def avl_findadjacent [OF assms(1)])
qed

lemma avl64_findrange_ok:
  assumes "ranges_ok ops (inorder t)"
  shows "avl64_findrange ops v t = find (\<lambda>a. avl_start ops a \<le> v \<and> v < avl_end ops a) (inorder t)"
  using assms
proof (induction t)
  case (Node l a b r)
  have ok: "ranges_ok ops (inorder l)" "ranges_ok ops (inorder r)" using Node.prems
    by (simp_all add: ranges_ok_append ranges_ok_Cons)
  have l: "find (\<lambda>a. avl_start ops a \<le> v \<and> v < avl_end ops a) (inorder l) = None" if "avl_start ops a \<le> v"
    using Node.prems that by (fastforce simp: find_None_iff ranges_ok_append not_less intro: order_trans)
  have r: "find (\<lambda>a. avl_start ops a \<le> v \<and> v < avl_end ops a) (inorder r) = None" if "v < avl_end ops a"
    using Node.prems that by (fastforce simp: find_None_iff ranges_ok_append ranges_ok_Cons dest: less_le_trans)
  have app: "find P (xs @ ys) = (case find P xs of None \<Rightarrow> find P ys | Some x \<Rightarrow> Some x)" for P and xs ys :: "nat list"
    by (induction xs) auto
  have "avl_start ops a < avl_end ops a" using Node.prems by (simp add: ranges_ok_def)
  then have "v < avl_start ops a \<Longrightarrow> v < avl_end ops a" by (blast intro: less_trans)
  with Node.IH ok l r show ?case by (auto simp: app not_less split: option.splits)
qed simp

lemma avl64_find_ok:
  assumes "ranges_ok ops (inorder t)"
  shows "avl64_find ops v t = find (\<lambda>a. avl_start ops a = v) (inorder t)"
  using assms
proof (induction t)
  case (Node l a b r)
  have ok: "ranges_ok ops (inorder l)" "ranges_ok ops (inorder r)" using Node.prems
    by (simp_all add: ranges_ok_append ranges_ok_Cons)
  have ord: "\<forall>x \<in> set (inorder l). avl_start ops x < avl_start ops a" "\<forall>x \<in> set (inorder r). avl_start ops a < avl_start ops x"
    using Node.prems by (auto simp: ranges_ok_def sorted_wrt_append intro: less_le_trans)
  have app: "find P (xs @ ys) = (case find P xs of None \<Rightarrow> find P ys | Some x \<Rightarrow> Some x)" for P and xs ys :: "nat list"
    by (induction xs) auto
  have "find (\<lambda>x. avl_start ops x = v) (inorder l) = None" if "avl_start ops a \<le> v"
    using ord(1) that by (auto simp: find_None_iff)
  moreover have "find (\<lambda>x. avl_start ops x = v) (inorder r) = None" if "v \<le> avl_start ops a"
    using ord(2) that by (auto simp: find_None_iff)
  ultimately show ?case using Node.IH ok by (auto simp: app Let_def not_less split: option.splits)
qed simp

section \<open>The interface\<close>

definition covered :: "avl64ops \<Rightarrow> nat list \<Rightarrow> u64 set" where
  "covered ops xs = (\<Union>a \<in> set xs. {avl_start ops a ..< avl_end ops a})"

locale range_index =
  fixes inv :: "avl64ops \<Rightarrow> 't \<Rightarrow> bool" and ents :: "'t \<Rightarrow> nat list"
    and insert_op :: "avl64ops \<Rightarrow> 't \<Rightarrow> nat \<Rightarrow> (bool \<times> 't) option"
    and delete_op :: "avl64ops \<Rightarrow> 't \<Rightarrow> nat \<Rightarrow> 't option"
    and search_op :: "avl64ops \<Rightarrow> 't \<Rightarrow> u64 \<Rightarrow> u64 \<Rightarrow> nat option \<times> nat option"
    and first_op :: "'t \<Rightarrow> nat option" and next_op :: "'t \<Rightarrow> nat \<Rightarrow> nat option"
  assumes ents_ok: "inv ops t \<Longrightarrow> ranges_ok ops (ents t)"
    and insert_law: "inv ops t \<Longrightarrow> n \<notin> set (ents t) \<Longrightarrow> avl_start ops n < avl_end ops n \<Longrightarrow>
      \<exists>d t'. insert_op ops t n = Some (d, t') \<and> inv ops t' \<and>
        (if overlaps ops n (ents t) then \<not> d \<and> ents t' = ents t else d \<and> ents t' = place ops n (ents t))"
    and delete_law: "inv ops t \<Longrightarrow> n \<in> set (ents t) \<Longrightarrow>
      \<exists>t'. delete_op ops t n = Some t' \<and> inv ops t' \<and> ents t' = remove1 n (ents t)"
    and search_law: "inv ops t \<Longrightarrow> start < stop \<Longrightarrow>
      search_op ops t start stop = (hd_opt (hits ops start stop (ents t)), last_opt (hits ops start stop (ents t)))"
    and thread_law: "inv ops t \<Longrightarrow> chain (next_op t) (ents t) \<and> first_op t = hd_opt (ents t)"
    and frame_law: "inv ops t \<Longrightarrow> ranges_ok ops' (ents t) \<Longrightarrow> inv ops' t"
begin

lemma ents_distinct: "inv ops t \<Longrightarrow> distinct (ents t)"
  using ents_ok ranges_ok_distinct by blast

lemma set_place: "set (place ops n xs) = insert n (set xs)"
  by (auto simp: place_def)

lemma insert_covers:
  assumes "inv ops t" and "n \<notin> set (ents t)" and "avl_start ops n < avl_end ops n" and "\<not> overlaps ops n (ents t)"
  shows "\<exists>t'. insert_op ops t n = Some (True, t') \<and> inv ops t' \<and> set (ents t') = insert n (set (ents t)) \<and>
    covered ops (ents t') = covered ops (ents t) \<union> {avl_start ops n ..< avl_end ops n}"
  using insert_law [OF assms(1-3)] assms(4) by (auto simp: covered_def set_place)

lemma search_none:
  assumes "inv ops t" and "start < stop" and "{start ..< stop} \<inter> covered ops (ents t) = {}"
  shows "search_op ops t start stop = (None, None)"
proof -
  have "\<not> (start < avl_end ops a \<and> avl_start ops a < stop)" if "a \<in> set (ents t)" for a
  proof
    assume h: "start < avl_end ops a \<and> avl_start ops a < stop"
    have "avl_start ops a < avl_end ops a" using ents_ok [OF assms(1)] that by (simp add: ranges_ok_def)
    with h assms(2) have "max start (avl_start ops a) \<in> {start ..< stop}"
      "max start (avl_start ops a) \<in> {avl_start ops a ..< avl_end ops a}" by (auto simp: max_def)
    with assms(3) that show False unfolding covered_def by blast
  qed
  then have "hits ops start stop (ents t) = []" by (simp add: hits_def filter_empty_conv)
  with search_law [OF assms(1,2)] show ?thesis by (simp add: last_opt_def)
qed

lemma search_found:
  assumes "inv ops t" and "start < stop" and "{start ..< stop} \<inter> covered ops (ents t) \<noteq> {}"
  shows "fst (search_op ops t start stop) \<noteq> None" and "snd (search_op ops t start stop) \<noteq> None"
proof -
  from assms(3) obtain a v where "a \<in> set (ents t)" "start \<le> v" "v < stop" "avl_start ops a \<le> v" "v < avl_end ops a"
    by (auto simp: covered_def)
  then have "a \<in> set (hits ops start stop (ents t))" by (auto simp: hits_def)
  then have "hits ops start stop (ents t) \<noteq> []" by auto
  with search_law [OF assms(1,2)] show "fst (search_op ops t start stop) \<noteq> None" "snd (search_op ops t start stop) \<noteq> None"
    by (cases "hits ops start stop (ents t)"; simp add: last_opt_def)+
qed

end

interpretation avl: range_index avl_inv entries avl64_insert avl64_delete avl64_findranges avl_firstino avl_nextino
proof
  fix ops ops' tree n start stop
  show "avl_inv ops tree \<Longrightarrow> ranges_ok ops (entries tree)" by (simp add: avl_inv_def)
  show "avl_inv ops tree \<Longrightarrow> chain (avl_nextino tree) (entries tree) \<and> avl_firstino tree = hd_opt (entries tree)"
    by (simp add: avl_inv_def)
  show "avl_inv ops tree \<Longrightarrow> ranges_ok ops' (entries tree) \<Longrightarrow> avl_inv ops' tree" by (simp add: avl_inv_def)
  show "avl_inv ops tree \<Longrightarrow> n \<in> set (entries tree) \<Longrightarrow>
      \<exists>t'. avl64_delete ops tree n = Some t' \<and> avl_inv ops t' \<and> entries t' = remove1 n (entries tree)"
    by (rule avl64_delete_ok)
  show "avl_inv ops tree \<Longrightarrow> start < stop \<Longrightarrow> avl64_findranges ops tree start stop =
      (hd_opt (hits ops start stop (entries tree)), last_opt (hits ops start stop (entries tree)))"
    by (rule avl64_findranges_ok)
  assume "avl_inv ops tree" "n \<notin> set (entries tree)" "avl_start ops n < avl_end ops n"
  from avl64_insert_ok [OF this] show "\<exists>d t'. avl64_insert ops tree n = Some (d, t') \<and> avl_inv ops t' \<and>
        (if overlaps ops n (entries tree) then \<not> d \<and> entries t' = entries tree
         else d \<and> entries t' = place ops n (entries tree))"
    unfolding inserted_def by (metis prod.collapse)
qed

section \<open>Depth\<close>

lemma ht_bound: "bal_ok t \<Longrightarrow> 2 ^ (ht t div 2) \<le> length (inorder t) + 1"
proof (induction t)
  case (Node l a b r)
  define h where "h = min (ht l) (ht r)"
  have h: "ht (Node l a b r) \<le> Suc (Suc h)" "h \<le> ht l" "h \<le> ht r"
    using Node.prems by (cases b; simp add: h_def)+
  have "(2 :: nat) ^ (ht (Node l a b r) div 2) \<le> 2 ^ (Suc (Suc h) div 2)"
    using h(1) by (intro power_increasing div_le_mono) simp_all
  also have "\<dots> = 2 ^ (h div 2) + 2 ^ (h div 2)" by simp
  also have "\<dots> \<le> 2 ^ (ht l div 2) + 2 ^ (ht r div 2)"
    using h(2,3) by (intro add_mono power_increasing div_le_mono) simp_all
  also have "\<dots> \<le> (length (inorder l) + 1) + (length (inorder r) + 1)" using Node by (intro add_mono) simp_all
  finally show ?case by simp
qed simp

section \<open>A concrete tree\<close>

text \<open>Node \<open>a\<close> is the range from 10a to 10a+5; the tree holds the nodes 1, 2 and 4.\<close>

definition ops_example :: avl64ops where
  "ops_example = \<lparr>avl_start = (\<lambda>a. of_nat (10 * a)), avl_end = (\<lambda>a. of_nat (10 * a + 5))\<rparr>"

definition avl_example :: avl64tree_desc where
  "avl_example = \<lparr>avl_root = Node (Node Null 1 AVL_BALANCE Null) 2 AVL_BALANCE (Node Null 4 AVL_BALANCE Null),
     avl_firstino = Some 1, avl_nextino = (\<lambda>_. None)(1 := Some 2, 2 := Some 4)\<rparr>"

lemma avl_example_inv: "avl_inv ops_example avl_example" "entries avl_example = [1, 2, 4]"
  by (simp_all add: avl_inv_def avl_example_def ops_example_def entries_def ranges_ok_def)

lemma ops_example_at: "avl_start ops_example a = of_nat (10 * a)" "avl_end ops_example a = of_nat (10 * a + 5)"
  by (simp_all add: ops_example_def)

section \<open>Properties\<close>

text \<open>
  C7. \<^verbatim>\<open>avl64_insert\<close> never dereferences a null pointer, keeps the tree balanced, ordered and
  threaded, and inserts the new range at its place exactly when it meets no range of the tree;
  otherwise it reports the clash and the ranges stay as they are. (The \<^verbatim>\<open>avl_parent\<close> fields are not modelled.)
\<close>

theorem avl64_insert_correct:
  assumes "avl_inv ops tree" and "n \<notin> set (entries tree)" and "avl_start ops n < avl_end ops n"
  shows "\<exists>ok tree'. avl64_insert ops tree n = Some (ok, tree') \<and> avl_inv ops tree' \<and>
    ok = (\<forall>a \<in> set (entries tree). avl_end ops a \<le> avl_start ops n \<or> avl_end ops n \<le> avl_start ops a) \<and>
    entries tree' =
      (if ok then filter (\<lambda>a. avl_end ops a \<le> avl_start ops n) (entries tree) @ n #
                  filter (\<lambda>a. \<not> avl_end ops a \<le> avl_start ops n) (entries tree)
       else entries tree)"
proof -
  have "overlaps ops n (entries tree) \<longleftrightarrow>
      \<not> (\<forall>a \<in> set (entries tree). avl_end ops a \<le> avl_start ops n \<or> avl_end ops n \<le> avl_start ops a)"
    by (auto simp: overlaps_def not_le)
  with avl.insert_law [OF assms] show ?thesis by (fastforce simp: place_def split: if_splits)
qed

theorem avl64_insert_correct_witness:
  "\<exists>tree'. avl64_insert ops_example avl_example 3 = Some (True, tree') \<and> avl_inv ops_example tree' \<and>
     entries tree' = [1, 2, 3, 4]"
  using avl64_insert_correct [of ops_example avl_example 3] avl_example_inv by (auto simp: ops_example_at)

text \<open>
  C8. \<^verbatim>\<open>avl64_delete\<close> of a node of the tree never dereferences a null pointer, removes exactly that
  node and keeps the tree balanced, ordered and threaded. (The \<^verbatim>\<open>avl_parent\<close> fields are not modelled.)
\<close>

theorem avl64_delete_correct:
  assumes "avl_inv ops tree" and "n \<in> set (entries tree)"
  shows "\<exists>tree'. avl64_delete ops tree n = Some tree' \<and> avl_inv ops tree' \<and> entries tree' = remove1 n (entries tree)"
  by (rule avl.delete_law [OF assms])

theorem avl64_delete_correct_witness:
  "\<exists>tree'. avl64_delete ops_example avl_example 2 = Some tree' \<and> avl_inv ops_example tree' \<and> entries tree' = [1, 4]"
  using avl64_delete_correct [of ops_example avl_example 2] avl_example_inv by simp

text \<open>
  \<^verbatim>\<open>avl64_findranges\<close> returns the first and the last node, in order, of those whose range
  meets the given one, and two null pointers when there is none.
\<close>

theorem avl64_findranges_correct:
  assumes "avl_inv ops tree" and "start < stop"
    and "xs = filter (\<lambda>a. start < avl_end ops a \<and> avl_start ops a < stop) (entries tree)"
  shows "avl64_findranges ops tree start stop = (if xs = [] then (None, None) else (Some (hd xs), Some (last xs)))"
  using avl.search_law [OF assms(1,2)] unfolding hits_def assms(3) [symmetric] by (cases xs) (simp_all add: last_opt_def)

theorem avl64_findranges_correct_witness:
  "avl64_findranges ops_example avl_example 15 41 = (Some 2, Some 4)"
  using avl64_findranges_correct [of ops_example avl_example 15 41 "[2, 4]"] avl_example_inv
  by (simp add: ops_example_at)

text \<open>
  \<^verbatim>\<open>avl64_findrange\<close> and \<^verbatim>\<open>avl64_find\<close> return the node that contains a value, and the node that
  starts at it, whenever there is one.
\<close>

theorem avl64_lookup_correct:
  assumes "avl_inv ops tree"
  shows "avl64_findrange ops v (avl_root tree) = find (\<lambda>a. avl_start ops a \<le> v \<and> v < avl_end ops a) (entries tree) \<and>
    avl64_find ops v (avl_root tree) = find (\<lambda>a. avl_start ops a = v) (entries tree)"
  using assms avl64_findrange_ok avl64_find_ok by (simp add: avl_inv_def entries_def)

theorem avl64_lookup_correct_witness:
  "avl64_findrange ops_example 23 (avl_root avl_example) = Some 2 \<and> avl64_find ops_example 40 (avl_root avl_example) = Some 4"
  using avl64_lookup_correct [of ops_example avl_example 23] avl64_lookup_correct [of ops_example avl_example 40]
    avl_example_inv by (auto simp: ops_example_at)

text \<open>
  The depth of a tree that satisfies the invariant is at most twice the logarithm of the
  number of its nodes, so every search and every rebalancing loop takes that many rounds at most.
\<close>

theorem avl_depth_logarithmic:
  assumes "avl_inv ops tree"
  shows "2 ^ (ht (avl_root tree) div 2) \<le> length (entries tree) + 1"
  using assms ht_bound by (simp add: avl_inv_def entries_def)

theorem avl_depth_logarithmic_witness:
  "2 ^ (ht (avl_root avl_example) div 2) \<le> length (entries avl_example) + 1"
  using avl_depth_logarithmic [of ops_example avl_example] avl_example_inv by simp

end
