(* ===== verification/Bitmap.thy ===== *)
theory Bitmap
  imports Avl_Correct
begin

text \<open>
  The space-efficient bitmap of \<^verbatim>\<open>libfrog/bitmap.c\<close>: set ranges of 64-bit keys, kept as extents
  in the AVL tree. The extent records live at addresses of a store that the operations update in
  place; \<^verbatim>\<open>malloc\<close> hands out fresh addresses and fails where \<open>malloc_fails\<close> says so. The mutex
  counts the locks minus the unlocks, so that 0 is unlocked and 1 locked. The result \<^const>\<open>None\<close> is
  a null or dangling pointer dereference, or a loop that does not end; an error is the errno
  that the function returns negated.
\<close>

section \<open>Model\<close>

record bitmap_node =
  btn_start :: u64
  btn_length :: u64

record bitmap =
  bt_lock :: int
  bt_tree :: avl64tree_desc
  bt_node :: "nat \<Rightarrow> bitmap_node option"
  bt_brk :: nat
  malloc_fails :: "nat \<Rightarrow> bool"

fun extent_start :: "bitmap_node option \<Rightarrow> u64" where
  "extent_start (Some btn) = btn_start btn"
| "extent_start None = 0"

fun extent_end :: "bitmap_node option \<Rightarrow> u64" where
  "extent_end (Some btn) = btn_start btn + btn_length btn"
| "extent_end None = 0"

definition bitmap_ops :: "(nat \<Rightarrow> bitmap_node option) \<Rightarrow> avl64ops" where
  "bitmap_ops nodes = \<lparr>avl_start = (\<lambda>a. extent_start (nodes a)), avl_end = (\<lambda>a. extent_end (nodes a))\<rparr>"

abbreviation bm_ops :: "bitmap \<Rightarrow> avl64ops" where
  "bm_ops bmap \<equiv> bitmap_ops (bt_node bmap)"

text \<open>The outcomes of the three calls of \<^verbatim>\<open>bitmap_alloc\<close> that may fail are its arguments.\<close>

definition bitmap_alloc :: "bool \<Rightarrow> bool \<Rightarrow> errno option \<Rightarrow> (nat \<Rightarrow> bool) \<Rightarrow> bitmap result" where
  "bitmap_alloc calloc_ok malloc_ok mutex_ret fails =
     (if \<not> calloc_ok then Inl ENOMEM
      else if \<not> malloc_ok then Inl ENOMEM
      else case mutex_ret of
        Some e \<Rightarrow> Inl e
      | None \<Rightarrow> Inr \<lparr>bt_lock = 0, bt_tree = avl64_init_tree, bt_node = (\<lambda>_. None), bt_brk = 0, malloc_fails = fails\<rparr>)"

definition bitmap_node_init :: "u64 \<Rightarrow> u64 \<Rightarrow> bitmap \<Rightarrow> nat option \<times> bitmap" where
  "bitmap_node_init start len bmap =
     (let a = bt_brk bmap
      in if malloc_fails bmap a then (None, bmap\<lparr>bt_brk := Suc a\<rparr>)
         else (Some a, bmap\<lparr>bt_brk := Suc a, bt_node := (bt_node bmap)(a := Some \<lparr>btn_start = start, btn_length = len\<rparr>)\<rparr>))"

definition free_node :: "nat \<Rightarrow> bitmap \<Rightarrow> bitmap" where
  "free_node a bmap = bmap\<lparr>bt_node := (bt_node bmap)(a := None)\<rparr>"

definition tree_insert :: "nat \<Rightarrow> bitmap \<Rightarrow> (bool \<times> bitmap) option" where
  "tree_insert a bmap =
     (case avl64_insert (bm_ops bmap) (bt_tree bmap) a of
        None \<Rightarrow> None
      | Some (ok, tree) \<Rightarrow> Some (ok, bmap\<lparr>bt_tree := tree\<rparr>))"

definition tree_delete :: "nat \<Rightarrow> bitmap \<Rightarrow> bitmap option" where
  "tree_delete a bmap =
     (case avl64_delete (bm_ops bmap) (bt_tree bmap) a of
        None \<Rightarrow> None
      | Some tree \<Rightarrow> Some (bmap\<lparr>bt_tree := tree\<rparr>))"

definition bitmap_insert :: "bitmap \<Rightarrow> u64 \<Rightarrow> u64 \<Rightarrow> (errno option \<times> bitmap) option" where
  "bitmap_insert bmap start len =
     (case bitmap_node_init start len bmap of
        (None, bmap) \<Rightarrow> Some (Some ENOMEM, bmap)
      | (Some ext, bmap) \<Rightarrow>
          (case tree_insert ext bmap of
             None \<Rightarrow> None
           | Some (ok, bmap) \<Rightarrow>
               Some (if ok then (None, bmap) else (Some EEXIST, free_node ext bmap))))"

text \<open>
  The loops walk \<^verbatim>\<open>avl_nextino\<close> from the first node to the node after the last one; the fuel is the
  number of addresses ever handed out. The result of the first loop is the merged range, or
  \<^const>\<open>None\<close> where it found the new range inside an extent.
\<close>

fun set_loop :: "nat \<Rightarrow> nat option \<Rightarrow> nat option \<Rightarrow> u64 \<Rightarrow> u64 \<Rightarrow> u64 \<Rightarrow> u64 \<Rightarrow> bitmap \<Rightarrow>
    ((u64 \<times> u64) option \<times> bitmap) option" where
  "set_loop 0 pos l start len new_start new_length bmap = None"
| "set_loop (Suc fuel) pos l start len new_start new_length bmap =
     (if pos = l then Some (Some (new_start, new_length), bmap)
      else case pos of
        None \<Rightarrow> None
      | Some a \<Rightarrow>
          (let n = avl_nextino (bt_tree bmap) a
           in case bt_node bmap a of
                None \<Rightarrow> None
              | Some ext \<Rightarrow>
                  if btn_start ext \<le> start \<and> btn_start ext + btn_length ext \<ge> start + len then Some (None, bmap)
                  else if btn_start ext + btn_length ext \<ge> start \<or> btn_start ext \<le> start + len then
                    (let (new_start, new_length) =
                       (if btn_start ext < start then (btn_start ext, new_length + btn_length ext)
                        else (new_start, new_length));
                       new_length =
                         (if btn_start ext + btn_length ext > new_start + new_length
                          then btn_start ext + btn_length ext - new_start else new_length)
                     in case tree_delete a bmap of
                          None \<Rightarrow> None
                        | Some bmap \<Rightarrow> set_loop fuel n l start len new_start new_length (free_node a bmap))
                  else set_loop fuel n l start len new_start new_length bmap))"

text \<open>\<^verbatim>\<open>__bitmap_set\<close> and \<^verbatim>\<open>bitmap_set\<close>.\<close>

definition bitmap_set_locked :: "bitmap \<Rightarrow> u64 \<Rightarrow> u64 \<Rightarrow> (errno option \<times> bitmap) option" where
  "bitmap_set_locked bmap start len =
     (case avl64_findranges (bm_ops bmap) (bt_tree bmap) (start - 1) (start + len + 1) of
        (Some firstn, Some lastn) \<Rightarrow>
          (case set_loop (Suc (bt_brk bmap)) (Some firstn) (avl_nextino (bt_tree bmap) lastn) start len start len bmap of
             None \<Rightarrow> None
           | Some (None, bmap) \<Rightarrow> Some (None, bmap)
           | Some (Some (new_start, new_length), bmap) \<Rightarrow> bitmap_insert bmap new_start new_length)
      | (None, None) \<Rightarrow> bitmap_insert bmap start len
      | _ \<Rightarrow> None)"

definition bitmap_set :: "bitmap \<Rightarrow> u64 \<Rightarrow> u64 \<Rightarrow> (errno option \<times> bitmap) option" where
  "bitmap_set bmap start len =
     (case bitmap_set_locked (bmap\<lparr>bt_lock := bt_lock bmap + 1\<rparr>) start len of
        None \<Rightarrow> None
      | Some (res, bmap) \<Rightarrow> Some (res, bmap\<lparr>bt_lock := bt_lock bmap - 1\<rparr>))"

definition clear_extent :: "nat \<Rightarrow> bitmap_node \<Rightarrow> u64 \<Rightarrow> u64 \<Rightarrow> bitmap \<Rightarrow> (errno option \<times> bitmap) option" where
  "clear_extent a ext start len bmap =
     (let below = btn_start ext < start;
          above = btn_start ext + btn_length ext > start + len
      in if \<not> below \<and> \<not> above then
           (case tree_delete a bmap of None \<Rightarrow> None | Some bmap \<Rightarrow> Some (None, free_node a bmap))
         else if below \<and> \<not> above then
           Some (None, bmap\<lparr>bt_node := (bt_node bmap)(a := Some (ext\<lparr>btn_length := start - btn_start ext\<rparr>))\<rparr>)
         else if \<not> below \<and> above then
           Some (None, bmap\<lparr>bt_node := (bt_node bmap)(a := Some (ext\<lparr>
             btn_length := btn_start ext + btn_length ext - (start + len), btn_start := start + len\<rparr>))\<rparr>)
         else
           (let ext = ext\<lparr>btn_length := start - btn_start ext\<rparr>;
                bmap = bmap\<lparr>bt_node := (bt_node bmap)(a := Some ext)\<rparr>;
                new_start = start + len;
                new_length = btn_start ext + btn_length ext - new_start
            in case bitmap_node_init new_start new_length bmap of
                 (None, bmap) \<Rightarrow> Some (Some ENOMEM, bmap)
               | (Some n, bmap) \<Rightarrow>
                   (case tree_insert n bmap of
                      None \<Rightarrow> None
                    | Some (ok, bmap) \<Rightarrow> Some (if ok then None else Some EEXIST, bmap))))"

fun clear_loop :: "nat \<Rightarrow> nat option \<Rightarrow> nat option \<Rightarrow> u64 \<Rightarrow> u64 \<Rightarrow> bitmap \<Rightarrow> (errno option \<times> bitmap) option" where
  "clear_loop 0 pos l start len bmap = None"
| "clear_loop (Suc fuel) pos l start len bmap =
     (if pos = l then Some (None, bmap)
      else case pos of
        None \<Rightarrow> None
      | Some a \<Rightarrow>
          (let n = avl_nextino (bt_tree bmap) a
           in case bt_node bmap a of
                None \<Rightarrow> None
              | Some ext \<Rightarrow>
                  (case clear_extent a ext start len bmap of
                     None \<Rightarrow> None
                   | Some (Some e, bmap) \<Rightarrow> Some (Some e, bmap)
                   | Some (None, bmap) \<Rightarrow> clear_loop fuel n l start len bmap)))"

text \<open>\<^verbatim>\<open>__bitmap_clear\<close>: it drops the lock of its caller where no extent meets the range.\<close>

definition bitmap_clear_locked :: "bitmap \<Rightarrow> u64 \<Rightarrow> u64 \<Rightarrow> (errno option \<times> bitmap) option" where
  "bitmap_clear_locked bmap start len =
     (case avl64_findranges (bm_ops bmap) (bt_tree bmap) start (start + len) of
        (None, None) \<Rightarrow> Some (None, bmap\<lparr>bt_lock := bt_lock bmap - 1\<rparr>)
      | (Some firstn, Some lastn) \<Rightarrow>
          clear_loop (Suc (bt_brk bmap)) (Some firstn) (avl_nextino (bt_tree bmap) lastn) start len bmap
      | _ \<Rightarrow> None)"

definition bitmap_clear :: "bitmap \<Rightarrow> u64 \<Rightarrow> u64 \<Rightarrow> (errno option \<times> bitmap) option" where
  "bitmap_clear bmap start len =
     (case bitmap_clear_locked (bmap\<lparr>bt_lock := bt_lock bmap + 1\<rparr>) start len of
        None \<Rightarrow> None
      | Some (res, bmap) \<Rightarrow> Some (res, bmap\<lparr>bt_lock := bt_lock bmap - 1\<rparr>))"

text \<open>The callback of the iterators takes an extent and its own state; a nonzero result stops them.\<close>

fun iterate_loop :: "nat \<Rightarrow> (u64 \<Rightarrow> u64 \<Rightarrow> 'p \<Rightarrow> int \<times> 'p) \<Rightarrow> nat option \<Rightarrow> nat option \<Rightarrow> bitmap \<Rightarrow> 'p \<Rightarrow> (int \<times> 'p) option" where
  "iterate_loop 0 fn pos l bmap arg = None"
| "iterate_loop (Suc fuel) fn pos l bmap arg =
     (if pos = l then Some (0, arg)
      else case pos of
        None \<Rightarrow> None
      | Some a \<Rightarrow>
          (case bt_node bmap a of
             None \<Rightarrow> None
           | Some ext \<Rightarrow>
               (case fn (btn_start ext) (btn_length ext) arg of
                  (error, arg) \<Rightarrow>
                    if error \<noteq> 0 then Some (error, arg)
                    else iterate_loop fuel fn (avl_nextino (bt_tree bmap) a) l bmap arg)))"

definition bitmap_iterate :: "bitmap \<Rightarrow> (u64 \<Rightarrow> u64 \<Rightarrow> 'p \<Rightarrow> int \<times> 'p) \<Rightarrow> 'p \<Rightarrow> (int \<times> 'p) option" where
  "bitmap_iterate bmap fn arg = iterate_loop (Suc (bt_brk bmap)) fn (avl_firstino (bt_tree bmap)) None bmap arg"

definition bitmap_iterate_range ::
  "bitmap \<Rightarrow> u64 \<Rightarrow> u64 \<Rightarrow> (u64 \<Rightarrow> u64 \<Rightarrow> 'p \<Rightarrow> int \<times> 'p) \<Rightarrow> 'p \<Rightarrow> (int \<times> 'p) option" where
  "bitmap_iterate_range bmap start len fn arg =
     (case avl64_findranges (bm_ops bmap) (bt_tree bmap) start (start + len) of
        (None, None) \<Rightarrow> Some (0, arg)
      | (Some firstn, Some lastn) \<Rightarrow>
          iterate_loop (Suc (bt_brk bmap)) fn (Some firstn) (avl_nextino (bt_tree bmap) lastn) bmap arg
      | _ \<Rightarrow> None)"

definition bitmap_test :: "bitmap \<Rightarrow> u64 \<Rightarrow> u64 \<Rightarrow> bool" where
  "bitmap_test bmap start len =
     (case avl64_findranges (bm_ops bmap) (bt_tree bmap) start (start + len) of
        (firstn, lastn) \<Rightarrow> firstn \<noteq> None \<and> lastn \<noteq> None)"

definition bitmap_empty :: "bitmap \<Rightarrow> bool" where
  "bitmap_empty bmap \<longleftrightarrow> avl_firstino (bt_tree bmap) = None"

end
