(* ===== verification/Bitmap_Correct.thy ===== *)
theory Bitmap_Correct
  imports Bitmap
begin

text \<open>
  What the operations of the bitmap do to the set of bits: \<^verbatim>\<open>bitmap_set\<close> adds its range where no
  extent reaches into it from the left, \<^verbatim>\<open>bitmap_clear\<close> removes it where no extent reaches beyond
  both of its ends, the tests and iterators see exactly the extents. Where those conditions fail
  the code is wrong, as concrete runs show.
\<close>

section \<open>The invariant\<close>

definition exts :: "bitmap \<Rightarrow> nat list" where
  "exts bmap = entries (bt_tree bmap)"

definition gaps :: "avl64ops \<Rightarrow> nat set \<Rightarrow> bool" where
  "gaps ops X \<longleftrightarrow>
     (\<forall>a \<in> X. \<forall>b \<in> X. a \<noteq> b \<longrightarrow> avl_end ops a < avl_start ops b \<or> avl_end ops b < avl_start ops a)"

definition bm_inv :: "bitmap \<Rightarrow> bool" where
  "bm_inv bmap \<longleftrightarrow> avl_inv (bm_ops bmap) (bt_tree bmap) \<and> (\<forall>a \<in> set (exts bmap). bt_node bmap a \<noteq> None) \<and>
     (\<forall>a \<ge> bt_brk bmap. bt_node bmap a = None) \<and> gaps (bm_ops bmap) (set (exts bmap))"

definition bits :: "bitmap \<Rightarrow> u64 set" where
  "bits bmap = covered (bm_ops bmap) (exts bmap)"

lemma ops_at [simp]:
  "avl_start (bitmap_ops nodes) a = extent_start (nodes a)" "avl_end (bitmap_ops nodes) a = extent_end (nodes a)"
  by (simp_all add: bitmap_ops_def)

lemma exts_simps [simp]:
  "exts (bmap\<lparr>bt_node := f\<rparr>) = exts bmap" "exts (bmap\<lparr>bt_brk := k\<rparr>) = exts bmap" "exts (bmap\<lparr>bt_lock := i\<rparr>) = exts bmap"
  "exts (bmap\<lparr>bt_tree := tree\<rparr>) = entries tree"
  by (simp_all add: exts_def)

text \<open>A node that is not in the tree does not matter.\<close>

lemma ops_cong:
  assumes "\<forall>a \<in> set xs. f a = g a"
  shows "ranges_ok (bitmap_ops f) xs = ranges_ok (bitmap_ops g) xs"
    and "covered (bitmap_ops f) xs = covered (bitmap_ops g) xs"
    and "gaps (bitmap_ops f) (set xs) = gaps (bitmap_ops g) (set xs)"
proof -
  have "sorted_wrt (\<lambda>a b. extent_end (f a) \<le> extent_start (f b)) xs = sorted_wrt (\<lambda>a b. extent_end (g a) \<le> extent_start (g b)) xs"
    using assms by (induction xs) auto
  with assms show "ranges_ok (bitmap_ops f) xs = ranges_ok (bitmap_ops g) xs" by (simp add: ranges_ok_def)
qed (use assms in \<open>simp_all add: covered_def gaps_def\<close>)

lemma avl_inv_cong:
  assumes "avl_inv (bitmap_ops f) tree" and "\<forall>a \<in> set (entries tree). f a = g a"
  shows "avl_inv (bitmap_ops g) tree"
  using avl.frame_law [OF assms(1)] avl.ents_ok [OF assms(1)] ops_cong(1) [OF assms(2)] by simp

lemma bm_inv_lock [simp]: "bm_inv (bmap\<lparr>bt_lock := i\<rparr>) = bm_inv bmap" "bits (bmap\<lparr>bt_lock := i\<rparr>) = bits bmap"
  by (simp_all add: bm_inv_def bits_def)

lemma bm_inv_node:
  assumes "bm_inv bmap" and "a \<in> set (exts bmap)"
  obtains ext where "bt_node bmap a = Some ext" and "btn_start ext < btn_start ext + btn_length ext" and "a < bt_brk bmap"
proof -
  obtain ext where e: "bt_node bmap a = Some ext" using assms by (auto simp: bm_inv_def)
  moreover have "avl_start (bm_ops bmap) a < avl_end (bm_ops bmap) a"
    using assms avl.ents_ok by (fastforce simp: bm_inv_def exts_def ranges_ok_def)
  moreover have "a < bt_brk bmap" using assms e by (metis bm_inv_def not_le option.distinct(1))
  ultimately show thesis using that by simp
qed

lemma exts_length:
  assumes "bm_inv bmap"
  shows "length (exts bmap) \<le> bt_brk bmap"
proof -
  have "distinct (exts bmap)" using assms avl.ents_distinct by (auto simp: bm_inv_def exts_def)
  moreover have "set (exts bmap) \<subseteq> {..< bt_brk bmap}" using assms bm_inv_node by blast
  ultimately show ?thesis by (metis card_lessThan card_mono distinct_card finite_lessThan)
qed

section \<open>Inserting an extent\<close>

lemma bitmap_insert_ok:
  assumes inv: "bm_inv bmap" and pos: "start < start + len" and room: "\<not> malloc_fails bmap (bt_brk bmap)"
    and apart: "\<forall>b \<in> set (exts bmap). avl_end (bm_ops bmap) b < start \<or> start + len < avl_start (bm_ops bmap) b"
  shows "\<exists>bmap'. bitmap_insert bmap start len = Some (None, bmap') \<and> bm_inv bmap' \<and>
    bits bmap' = bits bmap \<union> {start ..< start + len} \<and> bt_lock bmap' = bt_lock bmap"
proof -
  let ?a = "bt_brk bmap"
  let ?f = "(bt_node bmap)(?a := Some \<lparr>btn_start = start, btn_length = len\<rparr>)"
  let ?b = "bmap\<lparr>bt_brk := Suc ?a, bt_node := ?f\<rparr>"
  note i = inv [unfolded bm_inv_def]
  have fresh: "?a \<notin> set (exts bmap)" using i by auto
  then have same: "\<forall>b \<in> set (exts bmap). bt_node bmap b = ?f b" by auto
  have tinv: "avl_inv (bitmap_ops ?f) (bt_tree bmap)" using avl_inv_cong i same by (metis exts_def)
  have "\<not> overlaps (bitmap_ops ?f) ?a (entries (bt_tree bmap))"
    using apart same by (fastforce simp: overlaps_def exts_def)
  with avl.insert_covers [OF tinv, of ?a] fresh pos obtain tree where
    t: "avl64_insert (bitmap_ops ?f) (bt_tree bmap) ?a = Some (True, tree)" "avl_inv (bitmap_ops ?f) tree"
      "set (entries tree) = insert ?a (set (exts bmap))"
      "covered (bitmap_ops ?f) (entries tree) = covered (bitmap_ops ?f) (exts bmap) \<union> {start ..< start + len}"
    by (auto simp: exts_def)
  let ?r = "?b\<lparr>bt_tree := tree\<rparr>"
  have "bitmap_insert bmap start len = Some (None, ?r)"
    using room t(1) by (simp add: bitmap_insert_def bitmap_node_init_def tree_insert_def Let_def)
  moreover have "gaps (bitmap_ops ?f) (insert ?a (set (exts bmap)))"
    using i ops_cong(3) [OF same] apart same by (auto simp: gaps_def)
  then have "bm_inv ?r" using i t(2,3) fresh by (simp add: bm_inv_def)
  moreover have "bits ?r = bits bmap \<union> {start ..< start + len}"
    using t(4) ops_cong(2) [of _ "bt_node bmap" ?f, OF same] by (simp add: bits_def)
  ultimately show ?thesis by fastforce
qed

section \<open>Setting a range\<close>

lemma delete_ext_ok:
  assumes inv: "bm_inv bmap" and ex: "exts bmap = xs @ a # ys"
  obtains bmap' where "tree_delete a bmap = Some bmap'" and "bm_inv (free_node a bmap')"
    and "exts (free_node a bmap') = xs @ ys" and "bt_node (free_node a bmap') = (bt_node bmap)(a := None)"
    and "bt_lock bmap' = bt_lock bmap" and "bt_brk bmap' = bt_brk bmap" and "malloc_fails bmap' = malloc_fails bmap"
proof -
  note i = inv [unfolded bm_inv_def]
  have dist: "distinct (xs @ a # ys)" using i avl.ents_distinct ex by (metis exts_def)
  obtain tree where t: "avl64_delete (bm_ops bmap) (bt_tree bmap) a = Some tree" "avl_inv (bm_ops bmap) tree"
    "entries tree = remove1 a (exts bmap)"
    using avl.delete_law [of "bm_ops bmap" "bt_tree bmap" a] i ex by (auto simp: exts_def)
  have e: "entries tree = xs @ ys" using t(3) ex dist by (simp add: remove1_append)
  let ?f = "(bt_node bmap)(a := None)"
  have same: "\<forall>b \<in> set (xs @ ys). bt_node bmap b = ?f b" using dist by auto
  have "avl_inv (bitmap_ops ?f) tree" using avl_inv_cong [OF t(2)] same e by metis
  moreover have "gaps (bm_ops bmap) (set (xs @ ys))" using i ex by (auto simp: gaps_def)
  then have "gaps (bitmap_ops ?f) (set (xs @ ys))" using ops_cong(3) [of "xs @ ys" "bt_node bmap" ?f, OF same] by simp
  ultimately have "bm_inv (free_node a (bmap\<lparr>bt_tree := tree\<rparr>))"
    using i e ex same dist by (auto simp: bm_inv_def free_node_def exts_def)
  with t(1) e show thesis by (intro that [of "bmap\<lparr>bt_tree := tree\<rparr>"]) (simp_all add: tree_delete_def free_node_def exts_def)
qed

lemma touching_union:
  fixes a b c d :: u64
  assumes "a \<le> b" "c \<le> d" "c \<le> b" "a \<le> d"
  shows "{min a c ..< max b d} = {a ..< b} \<union> {c ..< d}"
  using assms by (auto simp: min_def max_def word_less_nat_alt word_le_nat_alt)

lemma apart_from_union:
  fixes x y a b c d :: u64
  assumes "x < y" "y < a \<or> b < x" "y < c \<or> d < x" "a \<le> d" "c \<le> b"
  shows "y < min a c \<or> max b d < x"
  using assms by (auto simp: min_def max_def word_less_nat_alt word_le_nat_alt)

text \<open>The loop over the extents that touch the new range and do not contain it.\<close>

lemma set_loop_ok:
  assumes "bm_inv bmap" and "exts bmap = pre @ hs @ post" and "length hs < fuel"
    and "\<forall>h \<in> set hs. start \<le> avl_end (bm_ops bmap) h \<and> avl_start (bm_ops bmap) h \<le> start + len \<and>
      (avl_start (bm_ops bmap) h < start \<longrightarrow> avl_end (bm_ops bmap) h = start \<and> new_start = start) \<and>
      \<not> (avl_start (bm_ops bmap) h \<le> start \<and> start + len \<le> avl_end (bm_ops bmap) h)"
    and "new_start \<le> start" and "start \<le> start + len" and "start + len \<le> new_start + new_length"
    and "\<forall>b \<in> set (pre @ post). avl_end (bm_ops bmap) b < new_start \<or> new_start + new_length < avl_start (bm_ops bmap) b"
  shows "\<exists>ns nl bmap'. set_loop fuel (hd_opt (hs @ post)) (hd_opt post) start len new_start new_length bmap =
      Some (Some (ns, nl), bmap') \<and> bm_inv bmap' \<and> exts bmap' = pre @ post \<and> ns \<le> start \<and> start + len \<le> ns + nl \<and>
      {ns ..< ns + nl} = {new_start ..< new_start + new_length} \<union> covered (bm_ops bmap) hs \<and>
      (\<forall>b \<in> set (pre @ post). bt_node bmap' b = bt_node bmap b \<and>
         (avl_end (bm_ops bmap) b < ns \<or> ns + nl < avl_start (bm_ops bmap) b)) \<and>
      bt_lock bmap' = bt_lock bmap \<and> bt_brk bmap' = bt_brk bmap \<and> malloc_fails bmap' = malloc_fails bmap"
  using assms
proof (induction hs arbitrary: bmap fuel new_start new_length)
  case Nil
  then obtain k where "fuel = Suc k" by (cases fuel) auto
  with Nil show ?case by (simp add: covered_def)
next
  case (Cons h hs)
  obtain k where k: "fuel = Suc k" "length hs < k" using Cons.prems(3) by (cases fuel) auto
  have mem: "h \<in> set (exts bmap)" using Cons.prems(2) by simp
  obtain ext where ext: "bt_node bmap h = Some ext" "btn_start ext < btn_start ext + btn_length ext"
    using bm_inv_node [OF Cons.prems(1) mem] by blast
  let ?S = "btn_start ext" and ?E = "btn_start ext + btn_length ext"
  have h: "start \<le> ?E" "?S \<le> start + len" "?S < start \<longrightarrow> ?E = start \<and> new_start = start"
    "\<not> (?S \<le> start \<and> start + len \<le> ?E)" using Cons.prems(4) ext(1) by auto
  let ?ns = "min new_start ?S" and ?e = "new_start + new_length"
  define nl0 where "nl0 = (if ?S < start then new_length + btn_length ext else new_length)"
  define nl where "nl = (if ?E > ?ns + nl0 then ?E - ?ns else nl0)"
  have ns: "?ns = (if ?S < start then ?S else new_start)" using Cons.prems(5) h(3)
    by (auto simp: min_def word_less_nat_alt word_le_nat_alt)
  have "?ns + nl0 = ?e" unfolding ns nl0_def using h(3) by (auto simp: algebra_simps)
  then have nle: "?ns + nl = max ?e ?E" by (auto simp: nl_def max_def not_less intro: antisym)
  obtain b1 where del: "tree_delete h bmap = Some b1" "bm_inv (free_node h b1)" "exts (free_node h b1) = pre @ hs @ post"
    "bt_node (free_node h b1) = (bt_node bmap)(h := None)" "bt_lock b1 = bt_lock bmap" "bt_brk b1 = bt_brk bmap"
    "malloc_fails b1 = malloc_fails bmap"
    using delete_ext_ok [OF Cons.prems(1), of pre h "hs @ post"] Cons.prems(2) by auto
  let ?b2 = "free_node h b1"
  have ok: "ranges_ok (bm_ops bmap) (pre @ h # hs @ post)"
    using avl.ents_ok Cons.prems(1,2) by (metis Cons_eq_append_conv append_Cons bm_inv_def exts_def)
  then have dist: "distinct (pre @ h # hs @ post)" by (rule ranges_ok_distinct)
  then have other: "bt_node ?b2 b = bt_node bmap b" if "b \<in> set (pre @ hs @ post)" for b using that del(4) by auto
  have chn: "chain (avl_nextino (bt_tree bmap)) (h # hs @ post)"
    using avl.thread_law Cons.prems(1,2) chain_append by (metis append_Cons bm_inv_def exts_def)
  have "Some h \<noteq> hd_opt post" using dist by (cases post) auto
  then have step: "set_loop fuel (hd_opt ((h # hs) @ post)) (hd_opt post) start len new_start new_length bmap =
      set_loop k (hd_opt (hs @ post)) (hd_opt post) start len ?ns nl ?b2"
    using k(1) ext(1) h(1,4) del(1) chn unfolding ns nl_def nl0_def by (auto simp: Let_def)
  have le: "new_start \<le> ?E" "?S \<le> ?e" "new_start \<le> ?e" "?S \<le> ?E"
    using h(1,2) Cons.prems(5,6,7) ext(2) by (auto intro: order_trans)
  have apart: "avl_end (bm_ops ?b2) b < ?ns \<or> ?ns + nl < avl_start (bm_ops ?b2) b" if b: "b \<in> set (pre @ post)" for b
  proof -
    have "avl_start (bm_ops bmap) b < avl_end (bm_ops bmap) b" using ok b by (auto simp: ranges_ok_def)
    moreover have "avl_end (bm_ops bmap) b < ?S \<or> ?E < avl_start (bm_ops bmap) b"
      using Cons.prems(1,2) b dist ext(1) by (auto simp: bm_inv_def gaps_def)
    ultimately show ?thesis using Cons.prems(8) b le other unfolding nle
      by (intro apart_from_union) auto
  qed
  have sg: "\<forall>g \<in> set hs. start \<le> avl_start (bm_ops bmap) g"
    using ok ext(1) h(1) by (auto simp: ranges_ok_append ranges_ok_Cons intro: order_trans)
  have c0: "\<forall>g \<in> set hs. start \<le> avl_end (bm_ops ?b2) g \<and> avl_start (bm_ops ?b2) g \<le> start + len \<and>
      (avl_start (bm_ops ?b2) g < start \<longrightarrow> avl_end (bm_ops ?b2) g = start \<and> ?ns = start) \<and>
      \<not> (avl_start (bm_ops ?b2) g \<le> start \<and> start + len \<le> avl_end (bm_ops ?b2) g)"
  proof
    fix g assume g: "g \<in> set hs"
    then have "bt_node ?b2 g = bt_node bmap g" "\<not> avl_start (bm_ops bmap) g < start" using other sg by (auto simp: not_less)
    with Cons.prems(4) g show "start \<le> avl_end (bm_ops ?b2) g \<and> avl_start (bm_ops ?b2) g \<le> start + len \<and>
      (avl_start (bm_ops ?b2) g < start \<longrightarrow> avl_end (bm_ops ?b2) g = start \<and> ?ns = start) \<and>
      \<not> (avl_start (bm_ops ?b2) g \<le> start \<and> start + len \<le> avl_end (bm_ops ?b2) g)" by simp
  qed
  have c1: "?ns \<le> start" using Cons.prems(5) by (simp add: min_le_iff_disj)
  have c2: "start + len \<le> ?ns + nl" unfolding nle using Cons.prems(7) by (simp add: le_max_iff_disj)
  have c3: "\<forall>b \<in> set (pre @ post). avl_end (bm_ops ?b2) b < ?ns \<or> ?ns + nl < avl_start (bm_ops ?b2) b"
    using apart by blast
  from Cons.IH [OF del(2,3) k(2) c0 c1 Cons.prems(6) c2 c3]
  obtain ns' nl' bmap' where r: "set_loop k (hd_opt (hs @ post)) (hd_opt post) start len ?ns nl ?b2 = Some (Some (ns', nl'), bmap')"
    "bm_inv bmap'" "exts bmap' = pre @ post" "ns' \<le> start" "start + len \<le> ns' + nl'"
    "{ns' ..< ns' + nl'} = {?ns ..< ?ns + nl} \<union> covered (bm_ops ?b2) hs"
    "\<forall>b \<in> set (pre @ post). bt_node bmap' b = bt_node ?b2 b \<and>
         (avl_end (bm_ops ?b2) b < ns' \<or> ns' + nl' < avl_start (bm_ops ?b2) b)"
    "bt_lock bmap' = bt_lock ?b2" "bt_brk bmap' = bt_brk ?b2" "malloc_fails bmap' = malloc_fails ?b2"
    by blast
  have "covered (bm_ops ?b2) hs = covered (bm_ops bmap) hs" by (rule ops_cong(2)) (use other in auto)
  then have un: "{ns' ..< ns' + nl'} = {new_start ..< ?e} \<union> covered (bm_ops bmap) (h # hs)"
    using r(6) touching_union [OF le(3,4,2,1)] ext(1) unfolding nle by (simp add: covered_def Un_assoc)
  have rest: "\<forall>b \<in> set (pre @ post). bt_node bmap' b = bt_node bmap b \<and>
      (avl_end (bm_ops bmap) b < ns' \<or> ns' + nl' < avl_start (bm_ops bmap) b)"
  proof
    fix b assume b: "b \<in> set (pre @ post)"
    then have "bt_node ?b2 b = bt_node bmap b" by (intro other) auto
    with bspec [OF r(7) b] show "bt_node bmap' b = bt_node bmap b \<and>
      (avl_end (bm_ops bmap) b < ns' \<or> ns' + nl' < avl_start (bm_ops bmap) b)" by simp
  qed
  have "bt_lock ?b2 = bt_lock bmap" "bt_brk ?b2 = bt_brk bmap" "malloc_fails ?b2 = malloc_fails bmap"
    using del(5-7) by (simp_all add: free_node_def)
  with step r(1-5,8-10) un rest show ?case by metis
qed

text \<open>The nodes that meet a range are consecutive.\<close>

lemma starts_split:
  assumes "ranges_ok ops xs"
  shows "xs = filter (\<lambda>a. avl_start ops a < v) xs @ filter (\<lambda>a. v \<le> avl_start ops a) xs"
  using assms
proof (induction xs)
  case (Cons a xs)
  then have ok: "ranges_ok ops xs" by (simp add: ranges_ok_Cons)
  show ?case
  proof (cases "avl_start ops a < v")
    case False
    have "v \<le> avl_start ops b" if "b \<in> set xs" for b
    proof -
      have "avl_start ops a < avl_end ops a" "avl_end ops a \<le> avl_start ops b" using Cons.prems that by (auto simp: ranges_ok_Cons)
      with False show ?thesis by (auto simp: word_less_nat_alt word_le_nat_alt)
    qed
    with False show ?thesis by (auto simp: filter_empty_conv filter_id_conv not_less)
  qed (use Cons.IH [OF ok] in \<open>auto simp: not_le\<close>)
qed simp

lemma hits_split:
  assumes "ranges_ok ops xs"
  obtains pre post where "xs = pre @ hits ops start stop xs @ post"
    and "\<forall>a \<in> set pre. avl_end ops a \<le> start" and "\<forall>a \<in> set post. stop \<le> avl_start ops a"
proof -
  obtain ys zs where z: "xs = ys @ zs" "\<forall>a \<in> set ys. avl_end ops a \<le> start" "\<forall>a \<in> set zs. start < avl_end ops a"
    "filter (\<lambda>a. start < avl_end ops a) xs = zs" by (rule ranges_split [OF assms])
  have h: "hits ops start stop xs = filter (\<lambda>a. avl_start ops a < stop) zs"
    unfolding z(4) [symmetric] hits_def by simp
  have "ranges_ok ops zs" using assms z(1) by (simp add: ranges_ok_append)
  then have "xs = ys @ hits ops start stop xs @ filter (\<lambda>a. stop \<le> avl_start ops a) zs"
    unfolding h by (metis starts_split z(1))
  then show thesis by (rule that) (use z(2) in auto)
qed

lemma touch_word:
  fixes start len x :: u64
  assumes "0 < start" and "unat start + unat len + 1 < 2 ^ 64"
  shows "start - 1 < x \<longleftrightarrow> start \<le> x" and "x < start + len + 1 \<longleftrightarrow> x \<le> start + len"
    and "start - 1 < start + len + 1" and "start \<le> start + len"
proof -
  have pos: "0 < unat start" using assms(1) by (simp add: word_less_nat_alt)
  then have s: "unat (start - 1) = unat start - 1" "0 < unat start" by (simp_all add: unat_sub_le word_le_nat_alt)
  have sl: "unat (start + len) = unat start + unat len" using assms(2) by (intro unat_add_small) simp
  have e: "unat (start + len + 1) = unat start + unat len + 1"
    using assms(2) sl by (subst unat_add_small) simp_all
  show "start - 1 < x \<longleftrightarrow> start \<le> x" using s by (auto simp: word_less_nat_alt word_le_nat_alt)
  show "x < start + len + 1 \<longleftrightarrow> x \<le> start + len" using e sl by (auto simp: word_less_nat_alt word_le_nat_alt)
  show "start - 1 < start + len + 1" using e s by (auto simp: word_less_nat_alt)
  show "start \<le> start + len" using sl by (simp add: word_le_nat_alt)
qed

text \<open>What \<^verbatim>\<open>avl64_findranges\<close> and the thread say about the nodes that meet a range.\<close>

definition walk :: "bitmap \<Rightarrow> u64 \<Rightarrow> u64 \<Rightarrow> nat list \<Rightarrow> nat list \<Rightarrow> nat list \<Rightarrow> bool" where
  "walk bmap lo hi pre hs post \<longleftrightarrow> hs = hits (bm_ops bmap) lo hi (exts bmap) \<and> exts bmap = pre @ hs @ post \<and>
     (\<forall>a \<in> set pre. avl_end (bm_ops bmap) a \<le> lo) \<and> (\<forall>a \<in> set post. hi \<le> avl_start (bm_ops bmap) a) \<and>
     avl64_findranges (bm_ops bmap) (bt_tree bmap) lo hi = (hd_opt hs, last_opt hs) \<and>
     (hs \<noteq> [] \<longrightarrow> avl_nextino (bt_tree bmap) (last hs) = hd_opt post \<and> Some (hd hs) \<noteq> hd_opt post) \<and>
     length hs < Suc (bt_brk bmap) \<and> ranges_ok (bm_ops bmap) (pre @ hs @ post)"

lemma range_walk:
  assumes inv: "bm_inv bmap" and lt: "lo < hi"
  obtains pre hs post where "walk bmap lo hi pre hs post"
proof -
  let ?hs = "hits (bm_ops bmap) lo hi (exts bmap)"
  have tinv: "avl_inv (bm_ops bmap) (bt_tree bmap)" using inv by (simp add: bm_inv_def)
  have ok: "ranges_ok (bm_ops bmap) (exts bmap)" using tinv avl.ents_ok by (auto simp: exts_def)
  obtain pre post where sp: "exts bmap = pre @ ?hs @ post" "\<forall>a \<in> set pre. avl_end (bm_ops bmap) a \<le> lo"
    "\<forall>a \<in> set post. hi \<le> avl_start (bm_ops bmap) a" by (rule hits_split [OF ok])
  have "chain (avl_nextino (bt_tree bmap)) ((pre @ ?hs) @ post)"
    using avl.thread_law [OF tinv] sp(1) unfolding exts_def by (metis append_assoc)
  then have nx: "avl_nextino (bt_tree bmap) (last ?hs) = hd_opt post" if "?hs \<noteq> []"
    using chain_last that by (metis append_is_Nil_conv last_appendR)
  have dist: "distinct (pre @ ?hs @ post)" using ranges_ok_distinct [OF ok] sp(1) by metis
  have ne: "Some (hd ?hs) \<noteq> hd_opt post" if "?hs \<noteq> []" using dist that by (cases ?hs; cases post) auto
  have "length ?hs \<le> length (exts bmap)" unfolding hits_def by (rule length_filter_le)
  then have "length ?hs < Suc (bt_brk bmap)" using exts_length [OF inv] by simp
  moreover have "avl64_findranges (bm_ops bmap) (bt_tree bmap) lo hi = (hd_opt ?hs, last_opt ?hs)"
    using avl.search_law [OF tinv lt] unfolding exts_def .
  moreover have "ranges_ok (bm_ops bmap) (pre @ ?hs @ post)" using ok sp(1) by metis
  ultimately have "walk bmap lo hi pre ?hs post" unfolding walk_def using sp nx ne by blast
  then show thesis by (rule that)
qed

lemma walkD:
  assumes "walk bmap lo hi pre hs post"
  shows "exts bmap = pre @ hs @ post" "ranges_ok (bm_ops bmap) (pre @ hs @ post)"
    "\<forall>a \<in> set pre. avl_end (bm_ops bmap) a \<le> lo" "\<forall>a \<in> set post. hi \<le> avl_start (bm_ops bmap) a"
    "avl64_findranges (bm_ops bmap) (bt_tree bmap) lo hi = (hd_opt hs, last_opt hs)"
    "hs \<noteq> [] \<Longrightarrow> avl_nextino (bt_tree bmap) (last hs) = hd_opt post" "hs \<noteq> [] \<Longrightarrow> Some (hd hs) \<noteq> hd_opt post"
    "length hs < Suc (bt_brk bmap)"
    "\<And>a. a \<in> set hs \<longleftrightarrow> a \<in> set (exts bmap) \<and> lo < avl_end (bm_ops bmap) a \<and> avl_start (bm_ops bmap) a < hi"
proof -
  have "hs = hits (bm_ops bmap) lo hi (exts bmap)" using assms unfolding walk_def by blast
  then show "a \<in> set hs \<longleftrightarrow> a \<in> set (exts bmap) \<and> lo < avl_end (bm_ops bmap) a \<and> avl_start (bm_ops bmap) a < hi" for a
    by (simp only: hits_def set_filter mem_Collect_eq)
qed (use assms in \<open>unfold walk_def, blast+\<close>)

lemma set_contained:
  assumes inv: "bm_inv bmap" and w: "0 < start" "unat start + unat len + 1 < 2 ^ 64"
    and a: "a \<in> set (exts bmap)" "avl_start (bm_ops bmap) a \<le> start" "start + len \<le> avl_end (bm_ops bmap) a"
  shows "bitmap_set_locked bmap start len = Some (None, bmap)"
proof -
  obtain pre hs post where "walk bmap (start - 1) (start + len + 1) pre hs post"
    by (rule range_walk [OF inv touch_word(3) [OF w]])
  note wk = walkD [OF this]
  note mem = wk(9) [unfolded touch_word(1,2) [OF w]]
  have "start \<le> avl_end (bm_ops bmap) a" using a(3) touch_word(4) [OF w] by (rule order_trans [rotated])
  moreover have "avl_start (bm_ops bmap) a \<le> start + len" using a(2) touch_word(4) [OF w] by (rule order_trans)
  ultimately have ah: "a \<in> set hs" using a(1) mem by blast
  then obtain b bs where bs: "hs = b # bs" by (cases hs) auto
  have "b = a"
  proof (rule ccontr)
    assume "b \<noteq> a"
    have hit: "b \<in> set (exts bmap)" "start \<le> avl_end (bm_ops bmap) b" using mem [of b] bs by simp_all
    have "avl_end (bm_ops bmap) b \<le> avl_start (bm_ops bmap) a"
      using wk(2) ah bs \<open>b \<noteq> a\<close> by (auto simp: ranges_ok_append ranges_ok_Cons)
    moreover have "avl_end (bm_ops bmap) b < avl_start (bm_ops bmap) a \<or> avl_end (bm_ops bmap) a < avl_start (bm_ops bmap) b"
      using inv hit(1) a(1) \<open>b \<noteq> a\<close> unfolding bm_inv_def gaps_def by blast
    moreover have "avl_start (bm_ops bmap) a < avl_end (bm_ops bmap) a" "avl_start (bm_ops bmap) b < avl_end (bm_ops bmap) b"
      using wk(2) a(1) hit(1) unfolding wk(1) ranges_ok_def by blast+
    ultimately show False using hit(2) a(2) by (auto simp: word_less_nat_alt word_le_nat_alt)
  qed
  moreover obtain ext where "bt_node bmap a = Some ext" using bm_inv_node [OF inv a(1)] by blast
  ultimately show ?thesis using wk(5-7) bs a(2,3) by (simp add: bitmap_set_locked_def last_opt_def)
qed

lemma bitmap_set_locked_ok:
  assumes inv: "bm_inv bmap" and w: "0 < start" "0 < len" "unat start + unat len + 1 < 2 ^ 64"
    and left: "\<forall>a \<in> set (exts bmap). avl_start (bm_ops bmap) a < start \<and> start < avl_end (bm_ops bmap) a \<longrightarrow>
      start + len \<le> avl_end (bm_ops bmap) a"
    and room: "\<not> malloc_fails bmap (bt_brk bmap)"
  shows "\<exists>bmap'. bitmap_set_locked bmap start len = Some (None, bmap') \<and> bm_inv bmap' \<and>
    bits bmap' = bits bmap \<union> {start ..< start + len} \<and> bt_lock bmap' = bt_lock bmap"
proof (cases "\<exists>a \<in> set (exts bmap). avl_start (bm_ops bmap) a \<le> start \<and> start + len \<le> avl_end (bm_ops bmap) a")
  case True
  then obtain a where a: "a \<in> set (exts bmap)" "avl_start (bm_ops bmap) a \<le> start" "start + len \<le> avl_end (bm_ops bmap) a" by blast
  then have "{start ..< start + len} \<subseteq> bits bmap" unfolding bits_def covered_def by fastforce
  with set_contained [OF inv w(1,3) a] inv show ?thesis by auto
next
  case False
  note tw = touch_word [OF w(1,3)]
  obtain pre hs post where "walk bmap (start - 1) (start + len + 1) pre hs post" by (rule range_walk [OF inv tw(3)])
  note wk = walkD [OF this]
  note mem = wk(9) [unfolded tw(1,2)]
  have pos: "start < start + len" using tw(4) w(2) by (metis add.right_neutral add_left_cancel order_less_le)
  have apart: "\<forall>b \<in> set (pre @ post). avl_end (bm_ops bmap) b < start \<or> start + len < avl_start (bm_ops bmap) b"
  proof
    fix b assume "b \<in> set (pre @ post)"
    then consider "b \<in> set pre" | "b \<in> set post" by auto
    then show "avl_end (bm_ops bmap) b < start \<or> start + len < avl_start (bm_ops bmap) b"
      using wk(3,4) tw(1) [of "avl_end (bm_ops bmap) b"] tw(2) [of "avl_start (bm_ops bmap) b"]
      by cases (metis not_le)+
  qed
  have cond: "\<forall>h \<in> set hs. start \<le> avl_end (bm_ops bmap) h \<and> avl_start (bm_ops bmap) h \<le> start + len \<and>
      (avl_start (bm_ops bmap) h < start \<longrightarrow> avl_end (bm_ops bmap) h = start \<and> start = start) \<and>
      \<not> (avl_start (bm_ops bmap) h \<le> start \<and> start + len \<le> avl_end (bm_ops bmap) h)"
    using mem left False by (metis order_less_le)
  from set_loop_ok [OF inv wk(1) wk(8) cond order_refl tw(4) order_refl apart]
  obtain ns nl b1 where r: "set_loop (Suc (bt_brk bmap)) (hd_opt (hs @ post)) (hd_opt post) start len start len bmap = Some (Some (ns, nl), b1)"
    "bm_inv b1" "exts b1 = pre @ post" "ns \<le> start" "start + len \<le> ns + nl"
    "{ns ..< ns + nl} = {start ..< start + len} \<union> covered (bm_ops bmap) hs"
    "\<forall>b \<in> set (pre @ post). bt_node b1 b = bt_node bmap b \<and>
         (avl_end (bm_ops bmap) b < ns \<or> ns + nl < avl_start (bm_ops bmap) b)"
    "bt_lock b1 = bt_lock bmap" "bt_brk b1 = bt_brk bmap" "malloc_fails b1 = malloc_fails bmap" by blast
  have eq: "bitmap_set_locked bmap start len = bitmap_insert b1 ns nl"
  proof (cases hs)
    case Nil
    with r(1) wk(5) show ?thesis by (simp add: bitmap_set_locked_def last_opt_def)
  next
    case (Cons h bs)
    with r(1) wk(5,6) show ?thesis by (simp add: bitmap_set_locked_def last_opt_def del: set_loop.simps)
  qed
  have "ns < ns + nl" using r(4,5) pos by (auto simp: word_less_nat_alt word_le_nat_alt)
  moreover have "\<forall>b \<in> set (exts b1). avl_end (bm_ops b1) b < ns \<or> ns + nl < avl_start (bm_ops b1) b"
    using r(3,7) by (auto simp: ops_at)
  ultimately obtain b2 where b2: "bitmap_insert b1 ns nl = Some (None, b2)" "bm_inv b2" "bits b2 = bits b1 \<union> {ns ..< ns + nl}"
    "bt_lock b2 = bt_lock b1" using bitmap_insert_ok [OF r(2)] room r(9,10) by metis
  have "covered (bm_ops b1) (pre @ post) = covered (bm_ops bmap) (pre @ post)" by (rule ops_cong(2)) (use r(7) in blast)
  then have "bits b1 \<union> covered (bm_ops bmap) hs = bits bmap"
    unfolding bits_def r(3) wk(1) by (auto simp: covered_def)
  then have "bits b2 = bits bmap \<union> {start ..< start + len}" using b2(3) r(6) by blast
  with eq b2 r(8) show ?thesis by metis
qed

lemma singleton_list: "set xs = {a} \<Longrightarrow> distinct xs \<Longrightarrow> xs = [a]"
  by (cases xs; cases "tl xs") auto

text \<open>An extent that reaches into the new range from the left and ends inside it, the only one in sight.\<close>

lemma bitmap_set_locked_over:
  assumes inv: "bm_inv bmap" and a: "a \<in> set (exts bmap)" "avl_start (bm_ops bmap) a < start" "start < avl_end (bm_ops bmap) a"
      "avl_end (bm_ops bmap) a < start + len"
    and w: "unat (avl_end (bm_ops bmap) a) + unat len + 1 < 2 ^ 64"
    and others: "\<forall>b \<in> set (exts bmap). b \<noteq> a \<longrightarrow>
      avl_end (bm_ops bmap) b < avl_start (bm_ops bmap) a \<or> avl_end (bm_ops bmap) a + len < avl_start (bm_ops bmap) b"
    and room: "\<not> malloc_fails bmap (bt_brk bmap)"
  shows "\<exists>bmap'. bitmap_set_locked bmap start len = Some (None, bmap') \<and> bm_inv bmap' \<and>
    bits bmap' = bits bmap \<union> {start ..< avl_end (bm_ops bmap) a + len} \<and> bt_lock bmap' = bt_lock bmap"
proof -
  obtain ext where ext: "bt_node bmap a = Some ext" "btn_start ext < btn_start ext + btn_length ext" "a < bt_brk bmap"
    using bm_inv_node [OF inv a(1)] by blast
  let ?S = "btn_start ext" and ?E = "btn_start ext + btn_length ext"
  have e: "?S < start" "start < ?E" "?E < start + len" "unat ?E + unat len + 1 < 2 ^ 64" using a w ext(1) by simp_all
  have oth: "avl_end (bm_ops bmap) b < ?S \<or> ?E + len < avl_start (bm_ops bmap) b" if "b \<in> set (exts bmap)" "b \<noteq> a" for b
    using others that ext(1) by simp
  have uE: "unat (?E + len) = unat ?E + unat len" using e(4) by (intro unat_add_small) simp
  have us: "unat (start + len) = unat start + unat len" using e(2,4) by (intro unat_add_small) (simp add: word_less_nat_alt)
  have s0: "0 < start" using e(1) by (simp add: word_less_nat_alt)
  have sl: "unat start + unat len + 1 < 2 ^ 64" using e(2,4) by (simp add: word_less_nat_alt)
  note tw = touch_word [OF s0 sl]
  have le: "?E < ?E + len" "start + len < ?E + len" "?S < ?E + len" using e uE us by (simp_all add: word_less_nat_alt)
  obtain pre hs post where "walk bmap (start - 1) (start + len + 1) pre hs post" by (rule range_walk [OF inv tw(3)])
  note wk = walkD [OF this]
  note mem = wk(9) [unfolded tw(1,2)]
  have "set hs = {a}"
  proof (rule set_eqI)
    fix b
    have "b \<notin> set hs" if "b \<noteq> a"
    proof
      assume "b \<in> set hs"
      then have "b \<in> set (exts bmap)" "start \<le> avl_end (bm_ops bmap) b" "avl_start (bm_ops bmap) b \<le> start + len"
        using mem by blast+
      with oth [OF this(1) that] e le show False by (simp add: word_less_nat_alt word_le_nat_alt)
    qed
    moreover have "a \<in> set hs" using mem [of a] a(1) ext(1) e uE us by (simp add: word_less_nat_alt word_le_nat_alt)
    ultimately show "b \<in> set hs \<longleftrightarrow> b \<in> {a}" by blast
  qed
  moreover have dist: "distinct (pre @ hs @ post)" by (rule ranges_ok_distinct [OF wk(2)])
  ultimately have hs: "hs = [a]" using singleton_list [of hs a] by simp
  have ex: "exts bmap = pre @ a # post" using wk(1) hs by simp
  obtain b1 where d: "tree_delete a bmap = Some b1" "bm_inv (free_node a b1)" "exts (free_node a b1) = pre @ post"
    "bt_node (free_node a b1) = (bt_node bmap)(a := None)" "bt_lock b1 = bt_lock bmap" "bt_brk b1 = bt_brk bmap"
    "malloc_fails b1 = malloc_fails bmap" by (rule delete_ext_ok [OF inv ex])
  let ?b = "free_node a b1"
  obtain k where k: "bt_brk bmap = Suc k" using ext(3) by (cases "bt_brk bmap") auto
  have cmp: "\<not> start + len \<le> ?E" "start \<le> ?E" "\<not> ?E + len < ?E" using e(2,3) le(1) by (simp_all add: not_le less_imp_le)
  have sum: "?S + (len + btn_length ext) = ?E + len" by simp
  have "set_loop (Suc (bt_brk bmap)) (Some a) (hd_opt post) start len start len bmap = Some (Some (?S, len + btn_length ext), ?b)"
    using wk(6,7) hs ext(1) e(1) d(1) cmp unfolding k by (simp add: Let_def sum)
  then have eq: "bitmap_set_locked bmap start len = bitmap_insert ?b ?S (len + btn_length ext)"
    using wk(5,6) hs by (simp add: bitmap_set_locked_def last_opt_def del: set_loop.simps)
  have keep: "\<forall>b \<in> set (pre @ post). bt_node ?b b = bt_node bmap b" using d(4) dist hs by auto
  have "\<forall>b \<in> set (exts ?b). avl_end (bm_ops ?b) b < ?S \<or> ?S + (len + btn_length ext) < avl_start (bm_ops ?b) b"
    using oth keep dist hs unfolding d(3) sum ex by auto
  moreover have "?S < ?S + (len + btn_length ext)" unfolding sum by (rule le(3))
  moreover have "\<not> malloc_fails ?b (bt_brk ?b)" using room d(6,7) by (simp add: free_node_def)
  ultimately obtain b2 where b2: "bitmap_insert ?b ?S (len + btn_length ext) = Some (None, b2)" "bm_inv b2"
    "bits b2 = bits ?b \<union> {?S ..< ?E + len}" "bt_lock b2 = bt_lock ?b" using bitmap_insert_ok [OF d(2)] sum by metis
  have "bits bmap = bits ?b \<union> {?S ..< ?E}"
    using ops_cong(2) [OF keep] ext(1) unfolding bits_def d(3) ex by (auto simp: covered_def)
  moreover have "{?S ..< ?E + len} = {?S ..< ?E} \<union> {start ..< ?E + len}"
    using e le by (auto simp: word_less_nat_alt word_le_nat_alt)
  ultimately have "bits b2 = bits bmap \<union> {start ..< ?E + len}" using b2(3) by blast
  with eq b2 d(5) ext(1) show ?thesis by (simp add: free_node_def)
qed

section \<open>Clearing a range\<close>

lemma gaps_disjoint:
  assumes "gaps ops X" and "a \<in> X" and "b \<in> X" and "a \<noteq> b"
  shows "{avl_start ops a ..< avl_end ops a} \<inter> {avl_start ops b ..< avl_end ops b} = {}"
proof -
  have "avl_end ops a < avl_start ops b \<or> avl_end ops b < avl_start ops a" using assms unfolding gaps_def by blast
  then show ?thesis by (auto simp: word_less_nat_alt word_le_nat_alt min_def max_def split: if_splits)
qed

lemma covered_other:
  assumes "gaps ops (set xs)" and "a \<in> set xs"
  shows "covered ops xs - {avl_start ops a ..< avl_end ops a} = covered ops (filter (\<lambda>b. b \<noteq> a) xs)"
    and "{avl_start ops a ..< avl_end ops a} \<subseteq> covered ops xs"
proof -
  have "v \<notin> {avl_start ops a ..< avl_end ops a}" if "b \<in> set xs" "b \<noteq> a" "v \<in> {avl_start ops b ..< avl_end ops b}" for b v
    using gaps_disjoint [OF assms(1) that(1) assms(2) that(2)] that(3) by blast
  then show "covered ops xs - {avl_start ops a ..< avl_end ops a} = covered ops (filter (\<lambda>b. b \<noteq> a) xs)"
    unfolding covered_def by (simp only: set_filter) blast
  show "{avl_start ops a ..< avl_end ops a} \<subseteq> covered ops xs" using assms(2) unfolding covered_def by blast
qed

text \<open>An extent that is made shorter in place.\<close>

lemma shrink_ext_ok:
  assumes inv: "bm_inv bmap" and mem: "a \<in> set (exts bmap)" and ext: "bt_node bmap a = Some ext"
    and in_: "btn_start ext \<le> btn_start ext'" "btn_start ext' < btn_start ext' + btn_length ext'"
      "btn_start ext' + btn_length ext' \<le> btn_start ext + btn_length ext"
  shows "bm_inv (bmap\<lparr>bt_node := (bt_node bmap)(a := Some ext')\<rparr>)"
    and "bits (bmap\<lparr>bt_node := (bt_node bmap)(a := Some ext')\<rparr>) =
      bits bmap - ({btn_start ext ..< btn_start ext + btn_length ext} - {btn_start ext' ..< btn_start ext' + btn_length ext'})"
proof -
  let ?f = "(bt_node bmap)(a := Some ext')" and ?x = "exts bmap"
  note i = inv [unfolded bm_inv_def]
  have ok: "ranges_ok (bm_ops bmap) ?x" using i avl.ents_ok by (auto simp: exts_def)
  have st: "avl_start (bm_ops bmap) b \<le> avl_start (bitmap_ops ?f) b" "avl_end (bitmap_ops ?f) b \<le> avl_end (bm_ops bmap) b" for b
    using in_(1,3) ext by auto
  have "sorted_wrt (\<lambda>x y. avl_end (bitmap_ops ?f) x \<le> avl_start (bitmap_ops ?f) y) ?x"
    by (rule sorted_wrt_mono_rel [of _ "\<lambda>x y. avl_end (bm_ops bmap) x \<le> avl_start (bm_ops bmap) y"])
      (use ok st in \<open>metis ranges_ok_def order_trans\<close>)+
  moreover have "\<forall>b \<in> set ?x. avl_start (bitmap_ops ?f) b < avl_end (bitmap_ops ?f) b"
    using ok in_(2) by (auto simp: ranges_ok_def)
  ultimately have "avl_inv (bitmap_ops ?f) (bt_tree bmap)"
    using avl.frame_law i by (metis exts_def ranges_ok_def)
  moreover have g: "gaps (bitmap_ops ?f) (set ?x)"
    unfolding gaps_def
  proof (intro ballI impI)
    fix x y assume "x \<in> set ?x" "y \<in> set ?x" "x \<noteq> y"
    then have "avl_end (bm_ops bmap) x < avl_start (bm_ops bmap) y \<or> avl_end (bm_ops bmap) y < avl_start (bm_ops bmap) x"
      using i unfolding gaps_def by blast
    then show "avl_end (bitmap_ops ?f) x < avl_start (bitmap_ops ?f) y \<or> avl_end (bitmap_ops ?f) y < avl_start (bitmap_ops ?f) x"
      using st [of x] st [of y] by (meson le_less_trans less_le_trans)
  qed
  ultimately show "bm_inv (bmap\<lparr>bt_node := ?f\<rparr>)" using i mem by (auto simp: bm_inv_def)
  let ?o = "filter (\<lambda>b. b \<noteq> a) ?x"
  have "covered (bitmap_ops ?f) ?o = covered (bm_ops bmap) ?o" by (rule ops_cong(2)) auto
  then have "covered (bitmap_ops ?f) ?x - {btn_start ext' ..< btn_start ext' + btn_length ext'} =
      covered (bm_ops bmap) ?x - {btn_start ext ..< btn_start ext + btn_length ext}"
    using covered_other(1) [OF g mem] covered_other(1) [of "bm_ops bmap" ?x a] i mem ext by simp
  moreover have "{btn_start ext' ..< btn_start ext' + btn_length ext'} \<subseteq> covered (bitmap_ops ?f) ?x"
    "{btn_start ext ..< btn_start ext + btn_length ext} \<subseteq> covered (bm_ops bmap) ?x"
    using covered_other(2) [OF g mem] covered_other(2) [of "bm_ops bmap" ?x a] i mem ext by simp_all
  moreover have "{btn_start ext' ..< btn_start ext' + btn_length ext'} \<subseteq> {btn_start ext ..< btn_start ext + btn_length ext}"
    using in_(1,3) by (simp add: ivl_subset)
  moreover have "C' = C - (I - I')" if "C' - I' = C - I" "I' \<subseteq> C'" "I \<subseteq> C" "I' \<subseteq> I" for C C' I I' :: "u64 set"
    using that by blast
  ultimately have "covered (bitmap_ops ?f) ?x = covered (bm_ops bmap) ?x -
      ({btn_start ext ..< btn_start ext + btn_length ext} - {btn_start ext' ..< btn_start ext' + btn_length ext'})" by metis
  then show "bits (bmap\<lparr>bt_node := ?f\<rparr>) =
      bits bmap - ({btn_start ext ..< btn_start ext + btn_length ext} - {btn_start ext' ..< btn_start ext' + btn_length ext'})"
    by (simp add: bits_def)
qed

definition ext_cleared :: "u64 set \<Rightarrow> bitmap \<Rightarrow> nat \<Rightarrow> nat list \<Rightarrow> nat list \<Rightarrow> bitmap \<Rightarrow> bool" where
  "ext_cleared R bmap a pre post bmap' \<longleftrightarrow> bm_inv bmap' \<and> (exts bmap' = pre @ post \<or> exts bmap' = (pre @ [a]) @ post) \<and>
     bits bmap' = bits bmap - (R \<inter> covered (bm_ops bmap) [a]) \<and> (\<forall>b. b \<noteq> a \<longrightarrow> bt_node bmap' b = bt_node bmap b) \<and>
     bt_lock bmap' = bt_lock bmap \<and> bt_brk bmap' = bt_brk bmap"

lemma clear_extent_ok:
  assumes inv: "bm_inv bmap" and ex: "exts bmap = pre @ a # post" and ext: "bt_node bmap a = Some ext"
    and hit: "start < btn_start ext + btn_length ext" "btn_start ext < start + len"
    and one: "\<not> (btn_start ext < start \<and> start + len < btn_start ext + btn_length ext)"
  shows "\<exists>bmap'. clear_extent a ext start len bmap = Some (None, bmap') \<and>
    ext_cleared {start ..< start + len} bmap a pre post bmap'"
proof -
  let ?S = "btn_start ext" and ?E = "btn_start ext + btn_length ext" and ?R = "{start ..< start + len}"
  have mem: "a \<in> set (exts bmap)" using ex by simp
  have cov: "covered (bm_ops bmap) [a] = {?S ..< ?E}" using ext by (simp add: covered_def)
  note sh = shrink_ext_ok [OF inv mem ext]
  consider (del) "\<not> ?S < start" "\<not> start + len < ?E" | (cut) "?S < start" "\<not> start + len < ?E"
    | (move) "\<not> ?S < start" "start + len < ?E" using one by blast
  then show ?thesis
  proof cases
    case del
    obtain b1 where d: "tree_delete a bmap = Some b1" "bm_inv (free_node a b1)" "exts (free_node a b1) = pre @ post"
      "bt_node (free_node a b1) = (bt_node bmap)(a := None)" "bt_lock b1 = bt_lock bmap" "bt_brk b1 = bt_brk bmap"
      using delete_ext_ok [OF inv ex] by metis
    have dist: "distinct (pre @ a # post)" using inv avl.ents_distinct ex unfolding bm_inv_def exts_def by metis
    have "filter (\<lambda>b. b \<noteq> a) xs = xs" if "a \<notin> set xs" for xs using that by (induction xs) auto
    with dist have o: "filter (\<lambda>b. b \<noteq> a) (exts bmap) = pre @ post" unfolding ex by simp
    have "covered (bm_ops (free_node a b1)) (pre @ post) = covered (bm_ops bmap) (pre @ post)"
      by (rule ops_cong(2)) (use d(4) dist in auto)
    moreover have "gaps (bm_ops bmap) (set (exts bmap))" using inv by (simp add: bm_inv_def)
    note covered_other(1) [OF this mem]
    ultimately have "bits (free_node a b1) = bits bmap - {?S ..< ?E}"
      unfolding bits_def d(3) using o ext by simp
    moreover have "?R \<inter> {?S ..< ?E} = {?S ..< ?E}" using del by (auto simp: word_less_nat_alt word_le_nat_alt)
    moreover have "bt_lock (free_node a b1) = bt_lock bmap" "bt_brk (free_node a b1) = bt_brk bmap"
      using d(5,6) by (simp_all add: free_node_def)
    ultimately show ?thesis using del d cov by (simp add: clear_extent_def ext_cleared_def)
  next
    case cut
    have "{?S ..< ?E} - {?S ..< start} = ?R \<inter> {?S ..< ?E}" using cut by (auto simp: word_less_nat_alt word_le_nat_alt)
    with sh [of "ext\<lparr>btn_length := start - ?S\<rparr>"] cut hit cov ex show ?thesis
      by (simp add: clear_extent_def ext_cleared_def)
  next
    case move
    have "{?S ..< ?E} - {start + len ..< ?E} = ?R \<inter> {?S ..< ?E}" using move by (auto simp: word_less_nat_alt word_le_nat_alt)
    with sh [of "ext\<lparr>btn_length := ?E - (start + len), btn_start := start + len\<rparr>"] move hit cov ex show ?thesis
      by (simp add: clear_extent_def ext_cleared_def)
  qed
qed

lemma clear_loop_ok:
  assumes "bm_inv bmap" and "exts bmap = pre @ hs @ post" and "length hs < fuel"
    and "\<forall>h \<in> set hs. start < avl_end (bm_ops bmap) h \<and> avl_start (bm_ops bmap) h < start + len \<and>
      \<not> (avl_start (bm_ops bmap) h < start \<and> start + len < avl_end (bm_ops bmap) h)"
  shows "\<exists>bmap'. clear_loop fuel (hd_opt (hs @ post)) (hd_opt post) start len bmap = Some (None, bmap') \<and>
    bm_inv bmap' \<and> bits bmap' = bits bmap - ({start ..< start + len} \<inter> covered (bm_ops bmap) hs) \<and>
    bt_lock bmap' = bt_lock bmap"
  using assms
proof (induction hs arbitrary: bmap pre fuel)
  case Nil
  then obtain k where "fuel = Suc k" by (cases fuel) auto
  with Nil show ?case by (simp add: covered_def)
next
  case (Cons h hs)
  let ?R = "{start ..< start + len}"
  obtain k where k: "fuel = Suc k" "length hs < k" using Cons.prems(3) by (cases fuel) auto
  have mem: "h \<in> set (exts bmap)" using Cons.prems(2) by simp
  obtain ext where ext: "bt_node bmap h = Some ext" by (rule bm_inv_node [OF Cons.prems(1) mem])
  have ex: "exts bmap = pre @ h # hs @ post" using Cons.prems(2) by simp
  have hit: "start < btn_start ext + btn_length ext" "btn_start ext < start + len"
    "\<not> (btn_start ext < start \<and> start + len < btn_start ext + btn_length ext)" using Cons.prems(4) ext by auto
  from clear_extent_ok [OF Cons.prems(1) ex ext this] obtain b1 where
    c: "clear_extent h ext start len bmap = Some (None, b1)" and cl: "ext_cleared ?R bmap h pre (hs @ post) b1" by blast
  obtain pre' where pre': "exts b1 = pre' @ hs @ post" using cl by (auto simp: ext_cleared_def)
  have dist: "distinct (pre @ h # hs @ post)"
    using avl.ents_distinct Cons.prems(1) ex unfolding bm_inv_def exts_def by metis
  have same: "\<forall>g \<in> set hs. bt_node b1 g = bt_node bmap g" using cl dist by (auto simp: ext_cleared_def)
  have "chain (avl_nextino (bt_tree bmap)) (h # hs @ post)"
    using avl.thread_law Cons.prems(1) ex chain_append unfolding bm_inv_def exts_def by metis
  moreover have "Some h \<noteq> hd_opt post" using dist by (cases post) auto
  ultimately have step: "clear_loop fuel (hd_opt ((h # hs) @ post)) (hd_opt post) start len bmap =
      clear_loop k (hd_opt (hs @ post)) (hd_opt post) start len b1"
    using k(1) ext c by simp
  have inv1: "bm_inv b1" using cl by (simp add: ext_cleared_def)
  have "\<forall>g \<in> set hs. start < avl_end (bm_ops b1) g \<and> avl_start (bm_ops b1) g < start + len \<and>
      \<not> (avl_start (bm_ops b1) g < start \<and> start + len < avl_end (bm_ops b1) g)"
    using Cons.prems(4) same by simp
  from Cons.IH [OF inv1 pre' k(2) this] obtain b2 where
    r: "clear_loop k (hd_opt (hs @ post)) (hd_opt post) start len b1 = Some (None, b2)" "bm_inv b2"
      "bits b2 = bits b1 - (?R \<inter> covered (bm_ops b1) hs)" "bt_lock b2 = bt_lock b1" by blast
  have "covered (bm_ops b1) hs = covered (bm_ops bmap) hs" by (rule ops_cong(2) [OF same])
  then have "bits b2 = bits bmap - (?R \<inter> covered (bm_ops bmap) (h # hs))"
    using r(3) cl by (auto simp: ext_cleared_def covered_def)
  with step r cl show ?case by (simp add: ext_cleared_def)
qed

lemma walk_covered:
  assumes "walk bmap lo hi pre hs post" and "lo < hi"
  shows "{lo ..< hi} \<inter> bits bmap = {lo ..< hi} \<inter> covered (bm_ops bmap) hs"
proof -
  note wk = walkD [OF assms(1)]
  have "v \<notin> {lo ..< hi}" if "b \<in> set (pre @ post)" "v \<in> {avl_start (bm_ops bmap) b ..< avl_end (bm_ops bmap) b}" for b v
  proof -
    have "avl_end (bm_ops bmap) b \<le> lo \<or> hi \<le> avl_start (bm_ops bmap) b" using wk(3,4) that(1) by auto
    with that(2) show ?thesis unfolding atLeastLessThan_iff by (meson leD less_le_trans order_trans)
  qed
  then show ?thesis unfolding bits_def wk(1) covered_def by (simp only: set_append UN_Un) blast
qed

lemma bitmap_clear_locked_ok:
  assumes inv: "bm_inv bmap" and w: "start < start + len"
    and one: "\<forall>a \<in> set (exts bmap). \<not> (avl_start (bm_ops bmap) a < start \<and> start + len < avl_end (bm_ops bmap) a)"
  shows "\<exists>bmap'. bitmap_clear_locked bmap start len = Some (None, bmap') \<and> bm_inv bmap' \<and>
    bits bmap' = bits bmap - {start ..< start + len} \<and>
    bt_lock bmap' = bt_lock bmap - (if {start ..< start + len} \<inter> bits bmap = {} then 1 else 0)"
proof -
  obtain pre hs post where walk: "walk bmap start (start + len) pre hs post" by (rule range_walk [OF inv w])
  note wk = walkD [OF this]
  note cov = walk_covered [OF walk w]
  show ?thesis
  proof (cases hs)
    case Nil
    then have "{start ..< start + len} \<inter> bits bmap = {}" using cov by (simp add: covered_def)
    moreover then have "bits bmap - {start ..< start + len} = bits bmap" by blast
    ultimately show ?thesis using inv wk(5) Nil by (simp add: bitmap_clear_locked_def last_opt_def)
  next
    case (Cons h bs)
    have h: "h \<in> set (exts bmap)" "start < avl_end (bm_ops bmap) h" "avl_start (bm_ops bmap) h < start + len"
      using wk(9) [of h] Cons by simp_all
    have "avl_start (bm_ops bmap) h < avl_end (bm_ops bmap) h" using wk(2) Cons by (simp add: ranges_ok_append ranges_ok_Cons)
    with h w have "max start (avl_start (bm_ops bmap) h) \<in> {start ..< start + len}"
      "max start (avl_start (bm_ops bmap) h) \<in> {avl_start (bm_ops bmap) h ..< avl_end (bm_ops bmap) h}" by (auto simp: max_def)
    with h(1) have "{start ..< start + len} \<inter> bits bmap \<noteq> {}" unfolding bits_def covered_def by blast
    moreover have "\<forall>h \<in> set hs. start < avl_end (bm_ops bmap) h \<and> avl_start (bm_ops bmap) h < start + len \<and>
        \<not> (avl_start (bm_ops bmap) h < start \<and> start + len < avl_end (bm_ops bmap) h)"
      using wk(9) one by blast
    from clear_loop_ok [OF inv wk(1) wk(8) this] obtain b1 where
      "clear_loop (Suc (bt_brk bmap)) (hd_opt (hs @ post)) (hd_opt post) start len bmap = Some (None, b1)" "bm_inv b1"
      "bits b1 = bits bmap - ({start ..< start + len} \<inter> covered (bm_ops bmap) hs)" "bt_lock b1 = bt_lock bmap" by blast
    moreover then have "bits b1 = bits bmap - {start ..< start + len}" using cov by blast
    ultimately show ?thesis using wk(5,6) Cons
      by (simp add: bitmap_clear_locked_def last_opt_def del: clear_loop.simps)
  qed
qed

section \<open>Iterating\<close>

fun visit :: "(u64 \<Rightarrow> u64 \<Rightarrow> 'p \<Rightarrow> int \<times> 'p) \<Rightarrow> (u64 \<times> u64) list \<Rightarrow> 'p \<Rightarrow> int \<times> 'p" where
  "visit fn [] arg = (0, arg)"
| "visit fn ((s, n) # xs) arg = (case fn s n arg of (e, arg) \<Rightarrow> if e \<noteq> 0 then (e, arg) else visit fn xs arg)"

definition extent_list :: "bitmap \<Rightarrow> nat list \<Rightarrow> (u64 \<times> u64) list" where
  "extent_list bmap xs =
     map (\<lambda>a. (avl_start (bm_ops bmap) a, avl_end (bm_ops bmap) a - avl_start (bm_ops bmap) a)) xs"

lemma iterate_loop_ok:
  assumes "\<forall>a \<in> set hs. bt_node bmap a \<noteq> None" and "chain (avl_nextino (bt_tree bmap)) (hs @ post)"
    and "distinct (hs @ post)" and "length hs < fuel"
  shows "iterate_loop fuel fn (hd_opt (hs @ post)) (hd_opt post) bmap arg = Some (visit fn (extent_list bmap hs) arg)"
  using assms
proof (induction hs arbitrary: fuel arg)
  case Nil
  then obtain k where "fuel = Suc k" by (cases fuel) auto
  then show ?case by (simp add: extent_list_def)
next
  case (Cons h hs)
  obtain k where k: "fuel = Suc k" "length hs < k" using Cons.prems(4) by (cases fuel) auto
  obtain ext where ext: "bt_node bmap h = Some ext" using Cons.prems(1) by auto
  have "Some h \<noteq> hd_opt post" using Cons.prems(3) by (cases post) auto
  with Cons.IH [OF _ _ _ k(2)] Cons.prems k(1) ext show ?case
    by (simp add: extent_list_def split: prod.splits)
qed

section \<open>A concrete bitmap\<close>

text \<open>The bits from 10 to 19 and from 30 to 39.\<close>

definition bm_example :: bitmap where
  "bm_example = \<lparr>bt_lock = 0,
     bt_tree = \<lparr>avl_root = Node Null 0 AVL_FORW (Node Null 1 AVL_BALANCE Null), avl_firstino = Some 0,
       avl_nextino = (\<lambda>_. None)(0 := Some 1)\<rparr>,
     bt_node = (\<lambda>_. None)(0 := Some \<lparr>btn_start = 10, btn_length = 10\<rparr>, 1 := Some \<lparr>btn_start = 30, btn_length = 10\<rparr>),
     bt_brk = 2, malloc_fails = (\<lambda>_. False)\<rparr>"

lemma bm_example_exts: "exts bm_example = [0, 1]"
  by (simp add: bm_example_def exts_def entries_def)

lemma bm_example_inv: "bm_inv bm_example"
  by (simp add: bm_inv_def exts_def bm_example_def avl_inv_def entries_def ranges_ok_def gaps_def)

section \<open>Properties\<close>

text \<open>
  C22. \<^verbatim>\<open>bitmap_set\<close> sets exactly the bits of its range and merges it with the extents it touches,
  provided no extent reaches into the range from the left and ends inside it, the range does not
  start at key 0 or end at the last keys, and memory is available. The extents stay disjoint and
  not adjacent, the tree stays balanced and the lock is released.
\<close>

theorem bitmap_set_adds:
  assumes "bm_inv bmap" and "0 < start" and "0 < len" and "unat start + unat len + 1 < 2 ^ 64"
    and "\<forall>a \<in> set (exts bmap). avl_start (bm_ops bmap) a < start \<and> start < avl_end (bm_ops bmap) a \<longrightarrow>
      start + len \<le> avl_end (bm_ops bmap) a"
    and "\<not> malloc_fails bmap (bt_brk bmap)"
  shows "\<exists>bmap'. bitmap_set bmap start len = Some (None, bmap') \<and> bm_inv bmap' \<and>
    bits bmap' = bits bmap \<union> {start ..< start + len} \<and> bt_lock bmap' = bt_lock bmap"
proof -
  have "bm_inv (bmap\<lparr>bt_lock := bt_lock bmap + 1\<rparr>)" using assms(1) by simp
  from bitmap_set_locked_ok [OF this assms(2-4)] assms(5,6) obtain b1 where
    "bitmap_set_locked (bmap\<lparr>bt_lock := bt_lock bmap + 1\<rparr>) start len = Some (None, b1)" "bm_inv b1"
    "bits b1 = bits bmap \<union> {start ..< start + len}" "bt_lock b1 = bt_lock bmap + 1" by auto
  then show ?thesis by (simp add: bitmap_set_def)
qed

theorem bitmap_set_adds_witness:
  "\<exists>bmap'. bitmap_set bm_example 20 10 = Some (None, bmap') \<and> bm_inv bmap' \<and>
     bits bmap' = bits bm_example \<union> {20 ..< 30} \<and> bt_lock bmap' = 0"
proof -
  have "\<forall>a \<in> set (exts bm_example). avl_start (bm_ops bm_example) a < 20 \<and> 20 < avl_end (bm_ops bm_example) a \<longrightarrow>
      20 + 10 \<le> avl_end (bm_ops bm_example) a"
    unfolding bm_example_exts by (simp add: bm_example_def)
  moreover have "\<not> malloc_fails bm_example (bt_brk bm_example)" "bt_lock bm_example = 0" by (simp_all add: bm_example_def)
  ultimately show ?thesis using bitmap_set_adds [OF bm_example_inv, of 20 10] by simp
qed

text \<open>
  C23. \<^verbatim>\<open>bitmap_clear\<close> clears exactly the bits of its range, provided no extent reaches beyond both
  of its ends. Where no bit of the range is set it unlocks the mutex once more than it locked it.
\<close>

theorem bitmap_clear_removes:
  assumes "bm_inv bmap" and "start < start + len"
    and "\<forall>a \<in> set (exts bmap). \<not> (avl_start (bm_ops bmap) a < start \<and> start + len < avl_end (bm_ops bmap) a)"
  shows "\<exists>bmap'. bitmap_clear bmap start len = Some (None, bmap') \<and> bm_inv bmap' \<and>
    bits bmap' = bits bmap - {start ..< start + len} \<and>
    bt_lock bmap' = bt_lock bmap - (if {start ..< start + len} \<inter> bits bmap = {} then 1 else 0)"
proof -
  have "bm_inv (bmap\<lparr>bt_lock := bt_lock bmap + 1\<rparr>)" using assms(1) by simp
  from bitmap_clear_locked_ok [OF this assms(2)] assms(3) obtain b1 where
    "bitmap_clear_locked (bmap\<lparr>bt_lock := bt_lock bmap + 1\<rparr>) start len = Some (None, b1)" "bm_inv b1"
    "bits b1 = bits bmap - {start ..< start + len}"
    "bt_lock b1 = bt_lock bmap + 1 - (if {start ..< start + len} \<inter> bits bmap = {} then 1 else 0)" by auto
  then show ?thesis by (simp add: bitmap_clear_def)
qed

theorem bitmap_clear_removes_witness:
  "\<exists>bmap'. bitmap_clear bm_example 15 20 = Some (None, bmap') \<and> bm_inv bmap' \<and>
     bits bmap' = bits bm_example - {15 ..< 35}"
proof -
  have "\<forall>a \<in> set (exts bm_example). \<not> (avl_start (bm_ops bm_example) a < 15 \<and> 15 + 20 < avl_end (bm_ops bm_example) a)"
    unfolding bm_example_exts by (simp add: bm_example_def)
  then show ?thesis using bitmap_clear_removes [OF bm_example_inv, of 15 20] by auto
qed

text \<open>
  \<^verbatim>\<open>bitmap_test\<close> says whether any bit of the range is set, and \<^verbatim>\<open>bitmap_empty\<close> whether none is
  set at all.
\<close>

theorem bitmap_test_exact:
  assumes "bm_inv bmap" and "start < start + len"
  shows "bitmap_test bmap start len = ({start ..< start + len} \<inter> bits bmap \<noteq> {}) \<and> bitmap_empty bmap = (bits bmap = {})"
proof
  have tinv: "avl_inv (bm_ops bmap) (bt_tree bmap)" using assms(1) by (simp add: bm_inv_def)
  show "bitmap_test bmap start len = ({start ..< start + len} \<inter> bits bmap \<noteq> {})"
    using avl.search_none [OF tinv assms(2)] avl.search_found [OF tinv assms(2)]
    unfolding bitmap_test_def bits_def exts_def by (cases "avl64_findranges (bm_ops bmap) (bt_tree bmap) start (start + len)") auto
  have first: "avl_firstino (bt_tree bmap) = hd_opt (exts bmap)" using avl.thread_law [OF tinv] by (simp add: exts_def)
  show "bitmap_empty bmap = (bits bmap = {})"
  proof (cases "exts bmap")
    case (Cons a xs)
    then have "avl_start (bm_ops bmap) a < avl_end (bm_ops bmap) a"
      using avl.ents_ok [OF tinv] by (simp add: exts_def ranges_ok_Cons)
    then have "avl_start (bm_ops bmap) a \<in> bits bmap" using Cons by (simp add: bits_def covered_def)
    then show ?thesis using first Cons by (auto simp: bitmap_empty_def)
  qed (use first in \<open>simp add: bitmap_empty_def bits_def covered_def\<close>)
qed

theorem bitmap_test_exact_witness:
  "bitmap_test bm_example 15 20 = ({15 ..< 35} \<inter> bits bm_example \<noteq> {}) \<and> \<not> bitmap_empty bm_example \<and> bits bm_example \<noteq> {}"
proof -
  have "\<not> bitmap_empty bm_example" by (simp add: bitmap_empty_def bm_example_def)
  then show ?thesis using bitmap_test_exact [OF bm_example_inv, of 15 20] by simp
qed

text \<open>
  \<^verbatim>\<open>bitmap_iterate\<close> calls its function on the extents in ascending order, each once, until the
  function returns a nonzero value, and returns that value; \<^verbatim>\<open>bitmap_iterate_range\<close> does so on the
  extents that meet its range.
\<close>

theorem bitmap_iterate_extents:
  assumes "bm_inv bmap" and "start < start + len"
  shows "bitmap_iterate bmap fn arg = Some (visit fn (extent_list bmap (exts bmap)) arg) \<and>
    bitmap_iterate_range bmap start len fn arg =
      Some (visit fn (extent_list bmap (hits (bm_ops bmap) start (start + len) (exts bmap))) arg)"
proof
  have tinv: "avl_inv (bm_ops bmap) (bt_tree bmap)" and nodes: "\<forall>a \<in> set (exts bmap). bt_node bmap a \<noteq> None"
    using assms(1) by (simp_all add: bm_inv_def)
  note th = avl.thread_law [OF tinv, folded exts_def]
  have dist: "distinct (exts bmap)" using avl.ents_distinct [OF tinv] by (simp add: exts_def)
  show "bitmap_iterate bmap fn arg = Some (visit fn (extent_list bmap (exts bmap)) arg)"
    using iterate_loop_ok [of "exts bmap" bmap "[]" "Suc (bt_brk bmap)" fn arg] nodes th dist exts_length [OF assms(1)]
    by (simp add: bitmap_iterate_def)
  obtain pre hs post where w: "walk bmap start (start + len) pre hs post" by (rule range_walk [OF assms])
  note wk = walkD [OF w]
  have hs: "hs = hits (bm_ops bmap) start (start + len) (exts bmap)" using w unfolding walk_def by blast
  have ch: "chain (avl_nextino (bt_tree bmap)) (hs @ post)" using th wk(1) chain_append by metis
  have ds: "distinct (hs @ post)" and nd: "\<forall>a \<in> set hs. bt_node bmap a \<noteq> None" using dist nodes unfolding wk(1) by auto
  have it: "iterate_loop (Suc (bt_brk bmap)) fn (hd_opt (hs @ post)) (hd_opt post) bmap arg =
      Some (visit fn (extent_list bmap hs) arg)" by (rule iterate_loop_ok [OF nd ch ds wk(8)])
  show "bitmap_iterate_range bmap start len fn arg =
      Some (visit fn (extent_list bmap (hits (bm_ops bmap) start (start + len) (exts bmap))) arg)"
    unfolding hs [symmetric] using it wk(5,6)
    by (cases hs) (simp_all add: bitmap_iterate_range_def last_opt_def extent_list_def del: iterate_loop.simps)
qed

theorem bitmap_iterate_extents_witness:
  "bitmap_iterate bm_example (\<lambda>s n arg. (0, arg + n)) 0 = Some (0, 20)"
  using bitmap_iterate_extents [OF bm_example_inv, of 1 1 "\<lambda>s n arg. (0, arg + n)" 0]
  unfolding bm_example_exts by (simp add: extent_list_def bm_example_def)

text \<open>
  C24. Where an extent reaches into the range from the left and ends inside it, \<^verbatim>\<open>bitmap_set\<close> sets too many
  bits: the lengths of the two are added although they overlap. For every bitmap in which no
  other extent is in the way, the bits up to the end of the extent plus the length of the range are
  set, and those past the range were clear before: as many as the overlap is long.
\<close>

theorem bitmap_set_oversets:
  assumes "bm_inv bmap" and "a \<in> set (exts bmap)" and "avl_start (bm_ops bmap) a < start" and "start < avl_end (bm_ops bmap) a"
    and "avl_end (bm_ops bmap) a < start + len" and "unat (avl_end (bm_ops bmap) a) + unat len + 1 < 2 ^ 64"
    and "\<forall>b \<in> set (exts bmap). b \<noteq> a \<longrightarrow>
      avl_end (bm_ops bmap) b < avl_start (bm_ops bmap) a \<or> avl_end (bm_ops bmap) a + len < avl_start (bm_ops bmap) b"
    and "\<not> malloc_fails bmap (bt_brk bmap)"
  shows "\<exists>bmap'. bitmap_set bmap start len = Some (None, bmap') \<and> bm_inv bmap' \<and>
    bits bmap' = bits bmap \<union> {start ..< start + len} \<union> {start + len ..< avl_end (bm_ops bmap) a + len} \<and>
    start + len < avl_end (bm_ops bmap) a + len \<and>
    {start + len ..< avl_end (bm_ops bmap) a + len} \<inter> bits bmap = {}"
proof -
  let ?E = "avl_end (bm_ops bmap) a"
  have "bm_inv (bmap\<lparr>bt_lock := bt_lock bmap + 1\<rparr>)" using assms(1) by simp
  from bitmap_set_locked_over [OF this, of a start len] assms(2-) obtain b1 where
    b1: "bitmap_set_locked (bmap\<lparr>bt_lock := bt_lock bmap + 1\<rparr>) start len = Some (None, b1)" "bm_inv b1"
    "bits b1 = bits bmap \<union> {start ..< ?E + len}" by auto
  have u: "unat (?E + len) = unat ?E + unat len" "unat (start + len) = unat start + unat len"
    using assms(4,6) by (auto intro!: unat_add_small simp: word_less_nat_alt)
  then have lt: "start + len < ?E + len" "start \<le> start + len" "?E \<le> start + len" using assms(4,5) by (simp_all add: word_less_nat_alt word_le_nat_alt)
  then have "{start ..< ?E + len} = {start ..< start + len} \<union> {start + len ..< ?E + len}" by (simp add: ivl_disj_un(17))
  moreover have "x \<notin> bits bmap" if "start + len \<le> x" "x < ?E + len" for x
  proof
    assume "x \<in> bits bmap"
    then obtain b where b: "b \<in> set (exts bmap)" "avl_start (bm_ops bmap) b \<le> x" "x < avl_end (bm_ops bmap) b"
      by (auto simp: bits_def covered_def)
    show False
    proof (cases "b = a")
      case True
      then show False using b(3) that(1) lt(3) by (metis leD order_trans)
    next
      case False
      then have "avl_end (bm_ops bmap) b < avl_start (bm_ops bmap) a \<or> ?E + len < avl_start (bm_ops bmap) b" using assms(7) b(1) by blast
      then show False using b(2,3) that assms(3) lt(2) by (auto simp: word_less_nat_alt word_le_nat_alt)
    qed
  qed
  ultimately show ?thesis using b1 lt(1) by (auto simp: bitmap_set_def)
qed

theorem bitmap_set_oversets_witness:
  "\<exists>bmap'. bitmap_set bm_example 15 9 = Some (None, bmap') \<and>
     bits bmap' = bits bm_example \<union> {15 ..< 24} \<union> {24 ..< 29} \<and> {24 ..< 29} \<inter> bits bm_example = {}"
proof -
  have "bt_node bm_example 0 = Some \<lparr>btn_start = 10, btn_length = 10\<rparr>" "bt_node bm_example 1 = Some \<lparr>btn_start = 30, btn_length = 10\<rparr>"
    "\<not> malloc_fails bm_example (bt_brk bm_example)" by (simp_all add: bm_example_def)
  then show ?thesis using bitmap_set_oversets [OF bm_example_inv, of 0 15 9] bm_example_exts by (auto simp: insert_commute)
qed

text \<open>
  Clearing a range inside an extent loses what is after it: with the bits from 10 to 19 set, clearing
  15 to 16 keeps 10 to 14 and drops 17 to 19, because the length of the rest is computed from the
  extent already cut; the node inserted for it has the length of the cleared range negated.
\<close>

lemma bitmap_clear_inside_run:
  "map_option (\<lambda>(e, b). (e, extent_list b (exts b))) (bitmap_clear bm_example 15 2) =
     Some (None, [(10, 5), (17, - 2), (30, 10)])"
  by code_simp

end
