(* ===== verification/Crc32.thy ===== *)
theory Crc32
  imports Arch
begin

text \<open>
  The CRC-32C of all XFS metadata: the slicing-by-8 routine of \<^verbatim>\<open>libfrog/crc32.c\<close> and the table
  generator \<^verbatim>\<open>libfrog/gen_crc32table.c\<close>, built with \<^verbatim>\<open>CRC_LE_BITS\<close> 64 on a little-endian machine
  (\<^verbatim>\<open>libfrog/crc32defs.h\<close>). The reference is the bit-serial branch of the same routine
  (\<^verbatim>\<open>CRC_LE_BITS == 1\<close>). A buffer is its bytes and its address, of which only the alignment
  matters.
\<close>

section \<open>Model\<close>

definition CRC32C_POLY_LE :: u32 where "CRC32C_POLY_LE = 0x82F63B78"

definition crc_shift :: "u32 \<Rightarrow> u32 \<Rightarrow> u32" where
  "crc_shift polynomial crc = drop_bit 1 crc XOR (if crc AND 1 \<noteq> 0 then polynomial else 0)"

text \<open>The bit-serial branch of \<^verbatim>\<open>crc32_le_generic\<close>.\<close>

fun crc32_le_bitwise :: "u32 \<Rightarrow> u32 \<Rightarrow> u8 list \<Rightarrow> u32" where
  "crc32_le_bitwise polynomial crc [] = crc"
| "crc32_le_bitwise polynomial crc (x # p) =
     crc32_le_bitwise polynomial ((crc_shift polynomial ^^ 8) (crc XOR ucast x)) p"

text \<open>The table generator.\<close>

function crc_fill :: "nat \<Rightarrow> nat \<Rightarrow> u32 \<Rightarrow> u32 list \<Rightarrow> u32 list" where
  "crc_fill i j crc tab0 =
     (if j < 256 \<and> 0 < i then crc_fill i (j + 2 * i) crc (tab0[i + j := crc XOR tab0 ! j]) else tab0)"
  by pat_completeness auto

termination by (relation "measure (\<lambda>(i, j, crc, tab0). 256 - j)") auto

declare crc_fill.simps [simp del]

function crc_row0 :: "u32 \<Rightarrow> nat \<Rightarrow> u32 \<Rightarrow> u32 list \<Rightarrow> u32 list" where
  "crc_row0 polynomial i crc tab0 =
     (if 0 < i then
        let crc = crc_shift polynomial crc
        in crc_row0 polynomial (i div 2) crc (crc_fill i 0 crc tab0)
      else tab0)"
  by pat_completeness auto

termination by (relation "measure (\<lambda>(polynomial, i, crc, tab0). i)") auto

declare crc_row0.simps [simp del]

fun crc_rows :: "nat \<Rightarrow> nat \<Rightarrow> u32 \<Rightarrow> nat \<Rightarrow> u32 list list \<Rightarrow> u32 list list" where
  "crc_rows 0 i crc j tab = tab"
| "crc_rows (Suc n) i crc j tab =
     (let crc = tab ! 0 ! unat (crc AND 0xff) XOR drop_bit 8 crc
      in crc_rows n i crc (Suc j) (tab[j := (tab ! j)[i := crc]]))"

definition crc32init_le_generic :: "u32 \<Rightarrow> u32 list list \<Rightarrow> u32 list list" where
  "crc32init_le_generic polynomial tab =
     (let tab = tab[0 := (tab ! 0)[0 := 0]];
          tab = tab[0 := crc_row0 polynomial 128 1 (tab ! 0)]
      in fold (\<lambda>i tab. crc_rows 7 i (tab ! 0 ! i) 1 tab) [0..<256] tab)"

definition crc32ctable_le :: "u32 list list" where
  "crc32ctable_le = crc32init_le_generic CRC32C_POLY_LE (replicate 8 (replicate 256 0))"

text \<open>The routine: \<^verbatim>\<open>DO_CRC\<close>, \<^verbatim>\<open>DO_CRC4\<close>, \<^verbatim>\<open>DO_CRC8\<close> and the three loops of \<^verbatim>\<open>crc32_body\<close>.\<close>

definition do_crc :: "u32 list list \<Rightarrow> u32 \<Rightarrow> u8 \<Rightarrow> u32" where
  "do_crc tab crc x = tab ! 0 ! unat ((crc XOR ucast x) AND 255) XOR drop_bit 8 crc"

definition do_crc4 :: "u32 list list \<Rightarrow> u32 \<Rightarrow> u32" where
  "do_crc4 tab q =
     tab ! 3 ! unat (q AND 255) XOR tab ! 2 ! unat (drop_bit 8 q AND 255) XOR
     tab ! 1 ! unat (drop_bit 16 q AND 255) XOR tab ! 0 ! unat (drop_bit 24 q AND 255)"

definition do_crc8 :: "u32 list list \<Rightarrow> u32 \<Rightarrow> u32" where
  "do_crc8 tab q =
     tab ! 7 ! unat (q AND 255) XOR tab ! 6 ! unat (drop_bit 8 q AND 255) XOR
     tab ! 5 ! unat (drop_bit 16 q AND 255) XOR tab ! 4 ! unat (drop_bit 24 q AND 255)"

definition load_u32 :: "u8 list \<Rightarrow> nat \<Rightarrow> u32" where
  "load_u32 buf k =
     ucast (buf ! k) XOR push_bit 8 (ucast (buf ! (k + 1))) XOR
     push_bit 16 (ucast (buf ! (k + 2))) XOR push_bit 24 (ucast (buf ! (k + 3)))"

fun crc_align :: "u32 list list \<Rightarrow> nat \<Rightarrow> u32 \<Rightarrow> u8 list \<Rightarrow> u32 \<times> u8 list" where
  "crc_align tab addr crc [] = (crc, [])"
| "crc_align tab addr crc (x # buf) =
     (if addr mod 4 \<noteq> 0 then crc_align tab (addr + 1) (do_crc tab crc x) buf else (crc, x # buf))"

fun crc_blocks :: "u32 list list \<Rightarrow> nat \<Rightarrow> u32 \<Rightarrow> u8 list \<Rightarrow> u32 \<times> u8 list" where
  "crc_blocks tab 0 crc b = (crc, b)"
| "crc_blocks tab (Suc len) crc b =
     (let q = crc XOR load_u32 b 0;
          crc = do_crc8 tab q;
          q = load_u32 b 4
      in crc_blocks tab len (crc XOR do_crc4 tab q) (drop 8 b))"

definition crc32_body :: "u32 \<Rightarrow> nat \<Rightarrow> u8 list \<Rightarrow> u32 list list \<Rightarrow> u32" where
  "crc32_body crc addr buf tab =
     (let (crc, buf) = crc_align tab addr crc buf;
          (crc, p) = crc_blocks tab (length buf div 8) crc buf
      in foldl (do_crc tab) crc p)"

definition crc32_le_generic :: "u32 \<Rightarrow> nat \<Rightarrow> u8 list \<Rightarrow> u32 list list \<Rightarrow> u32" where
  "crc32_le_generic crc addr p tab = le32_to_cpu (crc32_body (cpu_to_le32 crc) addr p tab)"

definition crc32c_le :: "u32 \<Rightarrow> nat \<Rightarrow> u8 list \<Rightarrow> u32" where
  "crc32c_le crc addr p = crc32_le_generic crc addr p crc32ctable_le"

section \<open>The shift register is linear\<close>

abbreviation crc_steps :: "u32 \<Rightarrow> nat \<Rightarrow> u32 \<Rightarrow> u32" where
  "crc_steps P n \<equiv> crc_shift P ^^ n"

lemma crc_shift_bit: "crc_shift P crc = drop_bit 1 crc XOR (if bit crc 0 then P else 0)"
  using and_exp_eq_0_iff_not_bit [of crc 0] by (simp only: crc_shift_def power_0 if_not_P if_P) simp

lemma crc_shift_xor: "crc_shift P (a XOR b) = crc_shift P a XOR crc_shift P b"
  by (rule bit_word_eqI) (auto simp: crc_shift_bit bit_simps)

lemma crc_steps_xor: "crc_steps P n (a XOR b) = crc_steps P n a XOR crc_steps P n b"
  by (induction n) (simp_all add: crc_shift_xor)

lemma crc_steps_zero [simp]: "crc_steps P n 0 = 0"
  by (induction n) (simp_all add: crc_shift_def)

lemma crc_steps_add: "crc_steps P (m + n) w = crc_steps P m (crc_steps P n w)"
  by (simp add: funpow_add)

text \<open>Zero bits are shifted out without effect.\<close>

lemma crc_steps_low_zero:
  "(\<And>k. k < n \<Longrightarrow> \<not> bit w k) \<Longrightarrow> crc_steps P n w = drop_bit n w"
proof (induction n)
  case (Suc n)
  then have "crc_steps P n w = drop_bit n w" by simp
  moreover have "\<not> bit (drop_bit n w) 0" using Suc.prems [of n] by (simp add: bit_drop_bit_eq)
  then have "crc_shift P (drop_bit n w) = drop_bit (Suc n) w" by (simp add: crc_shift_bit)
  ultimately show ?case by simp
qed simp

lemma crc_steps_push:
  assumes "unat w < 2 ^ (32 - n)" and "n < 32"
  shows "crc_steps P n (push_bit n w) = w"
proof -
  have "drop_bit n (push_bit n w) = w"
    using unat_bit_bound [OF assms(1)] assms(2) by (intro bit_word_eqI) (auto simp: bit_simps, force)
  then show ?thesis by (subst crc_steps_low_zero) (auto simp: bit_simps)
qed

section \<open>The reference on whole words\<close>

lemma byte_lt: "unat (ucast (x :: u8) :: u32) < 256"
proof -
  have "unat x < 256" using unat_lt_2p [of x] by simp
  then have "take_bit 32 (unat x) < 256" by (rule le_less_trans [OF take_bit_nat_less_eq_self])
  then show ?thesis by (simp add: unsigned_ucast_eq)
qed

lemma crc_steps_byte:
  assumes "unat w < 256" and "k \<le> 24"
  shows "crc_steps P (n + k) (push_bit k w) = crc_steps P n w"
proof -
  have "(2 :: nat) ^ 8 \<le> 2 ^ (32 - k)" using assms(2) by (intro power_increasing) simp_all
  then have "unat w < 2 ^ (32 - k)" using assms(1) by simp
  then show ?thesis using assms(2) by (simp add: crc_steps_add crc_steps_push)
qed

lemma crc_byte_after:
  assumes "k \<le> 24"
  shows "crc_steps P 8 (crc_steps P k c XOR ucast (x :: u8)) = crc_steps P (8 + k) (c XOR push_bit k (ucast x))"
  using crc_steps_byte [OF byte_lt assms, where P = P and n = 8] by (simp add: crc_steps_xor crc_steps_add)

lemma bitwise_word:
  "crc32_le_bitwise P c [b0, b1, b2, b3] = crc_steps P 32 (c XOR load_u32 [b0, b1, b2, b3] 0)"
proof -
  let ?c1 = "c XOR ucast b0" and ?p1 = "push_bit 8 (ucast b1) :: u32" and ?p2 = "push_bit 16 (ucast b2) :: u32"
  have "crc32_le_bitwise P c [b0, b1, b2, b3] =
      crc_steps P 8 (crc_steps P 8 (crc_steps P 8 (crc_steps P 8 ?c1 XOR ucast b1) XOR ucast b2) XOR ucast b3)" by simp
  also have "crc_steps P 8 (crc_steps P 8 ?c1 XOR ucast b1) = crc_steps P 16 (?c1 XOR ?p1)"
    using crc_byte_after [of 8 P ?c1 b1] by simp
  also have "crc_steps P 8 (crc_steps P 16 (?c1 XOR ?p1) XOR ucast b2) = crc_steps P 24 ((?c1 XOR ?p1) XOR ?p2)"
    using crc_byte_after [of 16 P "?c1 XOR ?p1" b2] by simp
  also have "crc_steps P 8 (crc_steps P 24 ((?c1 XOR ?p1) XOR ?p2) XOR ucast b3) =
      crc_steps P 32 (((?c1 XOR ?p1) XOR ?p2) XOR push_bit 24 (ucast b3))"
    using crc_byte_after [of 24 P "(?c1 XOR ?p1) XOR ?p2" b3] by simp
  finally show ?thesis by (simp add: load_u32_def xor.assoc)
qed

section \<open>Table lookups\<close>

definition table_ok :: "u32 \<Rightarrow> u32 list list \<Rightarrow> bool" where
  "table_ok P tab \<longleftrightarrow> (\<forall>j < 8. \<forall>i < 256. tab ! j ! i = crc_steps P (8 * Suc j) (of_nat i))"

lemma byte_of_word: "unat (w AND 255 :: u32) < 256"
  using unat_and_mask [of w 8] by (simp add: mask_eq_exp_minus_1)

lemma table_lookup:
  assumes "table_ok P tab" and "j < 8"
  shows "tab ! j ! unat (w AND 255) = crc_steps P (8 * Suc j) (w AND 255)"
  using assms byte_of_word [of w] by (simp add: table_ok_def)

lemma mask_255: "(255 :: u32) = mask 8"
  by (simp add: mask_eq_exp_minus_1)

lemma do_crc_step:
  assumes "table_ok P tab"
  shows "do_crc tab crc x = crc_steps P 8 (crc XOR ucast x)"
proof -
  let ?w = "crc XOR ucast x" and ?m = "mask 8 :: u32"
  have x: "\<not> bit x k" if "8 \<le> k" for k using that by (auto dest: bit_imp_le_length)
  have split: "?w = (?w AND ?m) XOR (?w AND NOT ?m)" by (rule bit_word_eqI) (auto simp: bit_simps)
  have "crc_steps P 8 (?w AND NOT ?m) = drop_bit 8 (?w AND NOT ?m)"
    by (rule crc_steps_low_zero) (simp add: bit_simps)
  also have "\<dots> = drop_bit 8 crc" by (rule bit_word_eqI) (auto simp: bit_simps x dest: bit_imp_le_length)
  finally have "crc_steps P 8 ?w = crc_steps P 8 (?w AND ?m) XOR drop_bit 8 crc"
    by (subst split) (simp only: crc_steps_xor)
  then show ?thesis using table_lookup [OF assms, of 0 ?w] by (simp only: do_crc_def mask_255) simp
qed

text \<open>A word is the exclusive or of its bytes at their places.\<close>

lemma word_bytes:
  "(w :: u32) = (w AND 255) XOR (push_bit 8 (drop_bit 8 w AND 255) XOR
     (push_bit 16 (drop_bit 16 w AND 255) XOR push_bit 24 (drop_bit 24 w AND 255)))"
proof (rule bit_word_eqI)
  fix k assume "k < LENGTH(32)"
  then consider "k < 8" | "8 \<le> k" "k < 16" | "16 \<le> k" "k < 24" | "24 \<le> k" "k < 32" by fastforce
  then show "bit w k = bit ((w AND 255) XOR (push_bit 8 (drop_bit 8 w AND 255) XOR
     (push_bit 16 (drop_bit 16 w AND 255) XOR push_bit 24 (drop_bit 24 w AND 255)))) k"
    unfolding mask_255 by cases (auto simp: bit_simps)
qed

lemma steps_by_bytes:
  "crc_steps P (n + 24) w =
     crc_steps P (n + 24) (w AND 255) XOR (crc_steps P (n + 16) (drop_bit 8 w AND 255) XOR
     (crc_steps P (n + 8) (drop_bit 16 w AND 255) XOR crc_steps P n (drop_bit 24 w AND 255)))"
proof -
  have "crc_steps P (n + 24) (push_bit 8 (drop_bit 8 w AND 255)) = crc_steps P (n + 16) (drop_bit 8 w AND 255)"
    using crc_steps_byte [OF byte_of_word, where k = 8 and P = P and n = "n + 16" and w1 = "drop_bit 8 w"] by (simp add: add.commute)
  moreover have "crc_steps P (n + 24) (push_bit 16 (drop_bit 16 w AND 255)) = crc_steps P (n + 8) (drop_bit 16 w AND 255)"
    using crc_steps_byte [OF byte_of_word, where k = 16 and P = P and n = "n + 8" and w1 = "drop_bit 16 w"] by (simp add: add.commute)
  moreover have "crc_steps P (n + 24) (push_bit 24 (drop_bit 24 w AND 255)) = crc_steps P n (drop_bit 24 w AND 255)"
    using crc_steps_byte [OF byte_of_word, where k = 24 and P = P and n = n and w1 = "drop_bit 24 w"] by simp
  ultimately show ?thesis by (subst (1) word_bytes [of w]) (simp only: crc_steps_xor)
qed

lemma do_crc4_step: "table_ok P tab \<Longrightarrow> do_crc4 tab q = crc_steps P 32 q"
  using steps_by_bytes [of 8 P q] by (simp add: do_crc4_def table_lookup numeral_eq_Suc)

lemma do_crc8_step: "table_ok P tab \<Longrightarrow> do_crc8 tab q = crc_steps P 64 q"
  using steps_by_bytes [of 40 P q] by (simp add: do_crc8_def table_lookup)

section \<open>The routine equals the reference\<close>

lemma crc32_le_bitwise_append:
  "crc32_le_bitwise P c (xs @ ys) = crc32_le_bitwise P (crc32_le_bitwise P c xs) ys"
  by (induction xs arbitrary: c) simp_all

lemma bitwise_eight:
  assumes "8 \<le> length b"
  shows "crc32_le_bitwise P c b =
     crc32_le_bitwise P (crc_steps P 64 (c XOR load_u32 b 0) XOR crc_steps P 32 (load_u32 b 4)) (drop 8 b)"
proof -
  let ?x = "[b ! 0, b ! 1, b ! 2, b ! 3]" and ?y = "[b ! 4, b ! 5, b ! 6, b ! 7]"
  have "take 8 b = ?x @ ?y" using assms by (auto simp: list_eq_iff_nth_eq less_Suc_eq numeral_eq_Suc)
  then have "crc32_le_bitwise P c b = crc32_le_bitwise P c (?x @ ?y @ drop 8 b)"
    by (metis append_assoc append_take_drop_id)
  also have "\<dots> = crc32_le_bitwise P (crc32_le_bitwise P (crc32_le_bitwise P c ?x) ?y) (drop 8 b)"
    by (simp only: crc32_le_bitwise_append)
  also have "crc32_le_bitwise P (crc32_le_bitwise P c ?x) ?y =
      crc_steps P 32 (crc_steps P 32 (c XOR load_u32 b 0) XOR load_u32 b 4)"
    by (simp only: bitwise_word) (simp add: load_u32_def numeral_2_eq_2)
  also have "\<dots> = crc_steps P 64 (c XOR load_u32 b 0) XOR crc_steps P 32 (load_u32 b 4)"
    using crc_steps_add [where m = 32 and n = 32] by (simp add: crc_steps_xor)
  finally show ?thesis .
qed

lemma crc_blocks_bitwise:
  assumes "table_ok P tab"
  shows "8 * n \<le> length b \<Longrightarrow>
     (case crc_blocks tab n c b of (c', p) \<Rightarrow> crc32_le_bitwise P c' p) = crc32_le_bitwise P c b"
proof (induction n arbitrary: c b)
  case (Suc n)
  let ?c = "do_crc8 tab (c XOR load_u32 b 0) XOR do_crc4 tab (load_u32 b 4)"
  have "(case crc_blocks tab n ?c (drop 8 b) of (c', p) \<Rightarrow> crc32_le_bitwise P c' p) = crc32_le_bitwise P ?c (drop 8 b)"
    using Suc by simp
  moreover have "crc32_le_bitwise P ?c (drop 8 b) = crc32_le_bitwise P c b"
    using bitwise_eight [of b P c] Suc.prems by (simp add: do_crc4_step [OF assms] do_crc8_step [OF assms])
  ultimately show ?case by (simp add: Let_def)
qed simp

lemma crc_align_bitwise:
  assumes "table_ok P tab"
  shows "(case crc_align tab addr c b of (c', p) \<Rightarrow> crc32_le_bitwise P c' p) = crc32_le_bitwise P c b"
  by (induction b arbitrary: addr c) (simp_all add: do_crc_step [OF assms])

lemma foldl_do_crc: "table_ok P tab \<Longrightarrow> foldl (do_crc tab) c p = crc32_le_bitwise P c p"
  by (induction p arbitrary: c) (simp_all add: do_crc_step)

lemma crc32_body_bitwise:
  assumes "table_ok P tab"
  shows "crc32_body c addr buf tab = crc32_le_bitwise P c buf"
proof -
  obtain c1 b1 where a: "crc_align tab addr c buf = (c1, b1)" by fastforce
  obtain c2 p where b: "crc_blocks tab (length b1 div 8) c1 b1 = (c2, p)" by fastforce
  have "8 * (length b1 div 8) \<le> length b1" by simp
  from crc_blocks_bitwise [OF assms this, of c1] crc_align_bitwise [OF assms, of addr c buf] a b
  show ?thesis by (simp add: crc32_body_def foldl_do_crc [OF assms])
qed

section \<open>The generated table\<close>

text \<open>Row 0 after the step with stride \<open>i\<close>: the entries at the multiples of \<open>i\<close> are final.\<close>

definition row_ok :: "u32 \<Rightarrow> nat \<Rightarrow> u32 list \<Rightarrow> bool" where
  "row_ok P i t \<longleftrightarrow> length t = 256 \<and> (\<forall>q. i * q < 256 \<longrightarrow> t ! (i * q) = crc_steps P 8 (of_nat (i * q)))"

lemma fill_index:
  assumes "0 < (i :: nat)"
  shows "2 * i * q \<noteq> i + 2 * i * r" and "2 * i * q + i = i + 2 * i * r \<longleftrightarrow> q = r"
proof -
  show "2 * i * q \<noteq> i + 2 * i * r"
  proof (cases "q \<le> r")
    case True
    then have "2 * i * q \<le> 2 * i * r" by simp
    with assms show ?thesis by linarith
  next
    case False
    then have "2 * i * Suc r \<le> 2 * i * q" by (intro mult_le_mono2) simp
    with assms show ?thesis by simp
  qed
  show "2 * i * q + i = i + 2 * i * r \<longleftrightarrow> q = r" using assms by simp
qed

lemma crc_fill_spec:
  assumes "0 < i" and "length t = 256" and "2 * i * m = 256" and "q0 \<le> m"
  shows "length (crc_fill i (2 * i * q0) crc t) = 256 \<and>
     (\<forall>q < m. crc_fill i (2 * i * q0) crc t ! (2 * i * q) = t ! (2 * i * q) \<and>
        crc_fill i (2 * i * q0) crc t ! (2 * i * q + i) =
          (if q0 \<le> q then crc XOR t ! (2 * i * q) else t ! (2 * i * q + i)))"
  using assms
proof (induction "m - q0" arbitrary: q0 t)
  case 0
  then have "q0 = m" by simp
  with "0.prems"(1-3) show ?case by (simp add: crc_fill.simps)
next
  case (Suc n)
  then have lt: "q0 < m" by simp
  have j: "2 * i * q0 + 2 * i \<le> 256"
    using lt Suc.prems(3) by (metis Suc_leI mult_Suc_right mult_le_mono2 add.commute)
  let ?t = "t[i + 2 * i * q0 := crc XOR t ! (2 * i * q0)]"
  have eq: "crc_fill i (2 * i * q0) crc t = crc_fill i (2 * i * Suc q0) crc ?t"
    using j Suc.prems(1) by (subst crc_fill.simps) (simp add: algebra_simps)
  have IH: "length (crc_fill i (2 * i * Suc q0) crc ?t) = 256 \<and>
     (\<forall>q < m. crc_fill i (2 * i * Suc q0) crc ?t ! (2 * i * q) = ?t ! (2 * i * q) \<and>
        crc_fill i (2 * i * Suc q0) crc ?t ! (2 * i * q + i) =
          (if Suc q0 \<le> q then crc XOR ?t ! (2 * i * q) else ?t ! (2 * i * q + i)))"
    using Suc.hyps(2) Suc.prems lt by (intro Suc.hyps(1)) simp_all
  have even: "?t ! (2 * i * q) = t ! (2 * i * q)" for q
    using fill_index(1) [OF Suc.prems(1), of q q0] by simp
  have odd: "?t ! (2 * i * q + i) = (if q = q0 then crc XOR t ! (2 * i * q0) else t ! (2 * i * q + i))" for q
  proof (cases "q = q0")
    case True
    then show ?thesis using j Suc.prems(1,2) by (simp add: add.commute)
  next
    case False
    then have "i + 2 * i * q0 \<noteq> 2 * i * q + i" using fill_index(2) [OF Suc.prems(1), of q q0] by metis
    from nth_list_update_neq [OF this, of t "crc XOR t ! (2 * i * q0)"] False show ?thesis by simp
  qed
  from IH show ?case unfolding eq even odd by (auto simp: not_less_eq_eq le_less)
qed

lemma of_nat_high_low:
  "(of_nat (2 * 2 ^ k * r + 2 ^ k) :: u32) = of_nat (2 * 2 ^ k * r) XOR push_bit k 1"
proof -
  have hi: "(of_nat (2 * 2 ^ k * r) :: u32) = push_bit (Suc k) (of_nat r)" by (simp add: push_bit_eq_mult mult.commute)
  have dis: "\<not> bit (push_bit (Suc k) (of_nat r) :: u32) n \<or> \<not> bit (push_bit k (1 :: u32)) n" for n
    unfolding bit_push_bit_iff bit_1_iff by (cases "n = k") auto
  have "(of_nat (2 * 2 ^ k * r + 2 ^ k) :: u32) = push_bit (Suc k) (of_nat r) + push_bit k 1"
    unfolding of_nat_add hi by (simp add: push_bit_eq_mult)
  also have "\<dots> = push_bit (Suc k) (of_nat r) OR push_bit k 1" using dis by (rule disjunctive_add)
  also have "\<dots> = push_bit (Suc k) (of_nat r) XOR push_bit k 1"
    using dis by (intro bit_word_eqI) (auto simp only: bit_or_iff bit_xor_iff)
  finally show ?thesis by (simp only: hi)
qed

lemma row_ok_half:
  assumes "row_ok P (2 * 2 ^ k) t" and "k \<le> 7"
  shows "row_ok P (2 ^ k) (crc_fill (2 ^ k) 0 (crc_steps P (8 - k) 1) t)"
proof -
  let ?r = "crc_fill (2 ^ k) 0 (crc_steps P (8 - k) 1) t"
  have "(2 :: nat) * 2 ^ k * 2 ^ (7 - k) = 2 ^ Suc (k + (7 - k))" by (simp add: power_add)
  then have m: "(2 :: nat) * 2 ^ k * 2 ^ (7 - k) = 256" using assms(2) by simp
  have t: "length t = 256" using assms(1) by (simp add: row_ok_def)
  from crc_fill_spec [OF _ t m, of 0 "crc_steps P (8 - k) 1"] have r: "length ?r = 256"
    "\<And>q. q < 2 ^ (7 - k) \<Longrightarrow> ?r ! (2 * 2 ^ k * q) = t ! (2 * 2 ^ k * q)"
    "\<And>q. q < 2 ^ (7 - k) \<Longrightarrow> ?r ! (2 * 2 ^ k * q + 2 ^ k) = crc_steps P (8 - k) 1 XOR t ! (2 * 2 ^ k * q)" by simp_all
  have one: "crc_steps P (8 - k) 1 = crc_steps P 8 (push_bit k 1)"
    using crc_steps_byte [where w = 1 and k = k and P = P and n = "8 - k"] assms(2) by simp
  have ev: "t ! (2 * 2 ^ k * q) = crc_steps P 8 (of_nat (2 * 2 ^ k * q))" if "q < 2 ^ (7 - k)" for q
  proof -
    have "2 * 2 ^ k * q < 2 * 2 ^ k * 2 ^ (7 - k)" using that by simp
    then show ?thesis using assms(1) m unfolding row_ok_def by metis
  qed
  have "?r ! (2 ^ k * q) = crc_steps P 8 (of_nat (2 ^ k * q))" if q: "2 ^ k * q < 256" for q
  proof -
    have half: "q div 2 < 2 ^ (7 - k)"
    proof -
      have "2 * 2 ^ k * (q div 2) \<le> 2 ^ k * q" by simp
      then have "2 * 2 ^ k * (q div 2) < 2 * 2 ^ k * 2 ^ (7 - k)" using q m by linarith
      then show ?thesis by simp
    qed
    show ?thesis
    proof (cases "even q")
      case True
      then have "2 ^ k * q = 2 * 2 ^ k * (q div 2)" by simp
      then show ?thesis using r(2) [OF half] ev [OF half] by (simp only:)
    next
      case False
      then have "q = 2 * (q div 2) + 1" by simp
      then have "2 ^ k * q = 2 * 2 ^ k * (q div 2) + 2 ^ k" by (metis distrib_left mult.assoc mult.commute mult_1_right)
      then show ?thesis using r(3) [OF half] ev [OF half] one
        by (simp only: of_nat_high_low crc_steps_xor xor.commute)
    qed
  qed
  with r(1) show ?thesis by (simp add: row_ok_def)
qed

lemma crc_row0_spec:
  "k \<le> 7 \<Longrightarrow> row_ok P (2 * 2 ^ k) t \<Longrightarrow> row_ok P 1 (crc_row0 P (2 ^ k) (crc_steps P (7 - k) 1) t)"
proof (induction k arbitrary: t)
  case 0
  have "crc_shift P (crc_steps P 7 1) = crc_steps P 8 1" by (simp add: numeral_eq_Suc)
  with 0 row_ok_half [of P 0 t] show ?case
    by (subst crc_row0.simps) (simp add: crc_row0.simps [of P 0])
next
  case (Suc k)
  let ?t = "crc_fill (2 ^ Suc k) 0 (crc_steps P (7 - k) 1) t"
  have s: "crc_shift P (crc_steps P (7 - Suc k) 1) = crc_steps P (7 - k) 1"
  proof -
    have "7 - k = Suc (7 - Suc k)" using Suc.prems(1) by simp
    then show ?thesis by (simp only: funpow.simps comp_apply)
  qed
  have "row_ok P (2 ^ Suc k) ?t" using row_ok_half [OF Suc.prems(2,1)] by simp
  with Suc.IH [of ?t] Suc.prems(1) have "row_ok P 1 (crc_row0 P (2 ^ k) (crc_steps P (7 - k) 1) ?t)" by simp
  then show ?case by (subst crc_row0.simps) (simp only: Let_def s, simp)
qed

text \<open>A lookup in a final row 0 is eight steps.\<close>

lemma row0_lookup:
  assumes "row_ok P 1 t"
  shows "t ! unat (w AND 255) XOR drop_bit 8 w = crc_steps P 8 w"
proof -
  let ?m = "mask 8 :: u32"
  have split: "w = (w AND ?m) XOR (w AND NOT ?m)" by (rule bit_word_eqI) (auto simp: bit_simps)
  have "crc_steps P 8 (w AND NOT ?m) = drop_bit 8 (w AND NOT ?m)"
    by (rule crc_steps_low_zero) (simp add: bit_simps)
  also have "\<dots> = drop_bit 8 w" by (rule bit_word_eqI) (auto simp: bit_simps dest: bit_imp_le_length)
  finally have "crc_steps P 8 w = crc_steps P 8 (w AND ?m) XOR drop_bit 8 w"
    by (subst split) (simp only: crc_steps_xor)
  moreover have "t ! unat (w AND 255) = crc_steps P 8 (w AND 255)"
    using assms byte_of_word [of w] by (simp add: row_ok_def)
  ultimately show ?thesis by (simp only: mask_255)
qed

definition cols_ok :: "u32 \<Rightarrow> nat \<Rightarrow> u32 list list \<Rightarrow> bool" where
  "cols_ok P n tab \<longleftrightarrow> length tab = 8 \<and> (\<forall>j < 8. length (tab ! j) = 256) \<and> row_ok P 1 (tab ! 0) \<and>
     (\<forall>j < 8. \<forall>i < n. tab ! j ! i = crc_steps P (8 * Suc j) (of_nat i))"

lemma crc_rows_spec:
  assumes "length tab = 8" and "\<forall>j < 8. length (tab ! j) = 256" and "row_ok P 1 (tab ! 0)" and "i < 256"
    and "1 \<le> j" and "j + n \<le> 8" and "crc = crc_steps P (8 * j) (of_nat i)"
  shows "length (crc_rows n i crc j tab) = 8 \<and> crc_rows n i crc j tab ! 0 = tab ! 0 \<and>
     (\<forall>r < 8. length (crc_rows n i crc j tab ! r) = 256) \<and>
     (\<forall>r < 8. \<forall>c. crc_rows n i crc j tab ! r ! c =
        (if j \<le> r \<and> r < j + n \<and> c = i then crc_steps P (8 * Suc r) (of_nat i) else tab ! r ! c))"
  using assms
proof (induction n arbitrary: crc j tab)
  case (Suc n)
  let ?crc = "tab ! 0 ! unat (crc AND 0xff) XOR drop_bit 8 crc"
  let ?tab = "tab[j := (tab ! j)[i := ?crc]]"
  have crc: "?crc = crc_steps P (8 * Suc j) (of_nat i)"
    using row0_lookup [OF Suc.prems(3), of crc] crc_steps_add [where m = 8 and n = "8 * j" and P = P] Suc.prems(7) by simp
  have tab0: "?tab ! 0 = tab ! 0" using Suc.prems(5) by simp
  have "length (crc_rows n i ?crc (Suc j) ?tab) = 8 \<and> crc_rows n i ?crc (Suc j) ?tab ! 0 = ?tab ! 0 \<and>
     (\<forall>r < 8. length (crc_rows n i ?crc (Suc j) ?tab ! r) = 256) \<and>
     (\<forall>r < 8. \<forall>c. crc_rows n i ?crc (Suc j) ?tab ! r ! c =
        (if Suc j \<le> r \<and> r < Suc j + n \<and> c = i then crc_steps P (8 * Suc r) (of_nat i) else ?tab ! r ! c))"
    using Suc.prems crc tab0 by (intro Suc.IH) (simp_all add: nth_list_update)
  moreover have "?tab ! r ! c = (if r = j \<and> c = i then crc_steps P (8 * Suc j) (of_nat i) else tab ! r ! c)" if "r < 8" for r c
    using that Suc.prems(1,2,4,6) crc by (auto simp: nth_list_update)
  ultimately show ?case using tab0 by (auto simp: Let_def not_less_eq_eq le_less)
qed auto

lemma crc_column_step:
  assumes "cols_ok P n tab" and "n < 256"
  shows "cols_ok P (Suc n) (crc_rows 7 n (tab ! 0 ! n) 1 tab)"
proof -
  have t: "length tab = 8" "\<forall>j < 8. length (tab ! j) = 256" "row_ok P 1 (tab ! 0)" using assms(1) by (simp_all add: cols_ok_def)
  then have "tab ! 0 ! n = crc_steps P (8 * 1) (of_nat n)" using assms(2) by (simp add: row_ok_def)
  then have first: "tab ! 0 ! n = crc_steps P 8 (of_nat n)" by simp
  let ?r = "crc_rows 7 n (tab ! 0 ! n) 1 tab"
  have r: "length ?r = 8" "?r ! 0 = tab ! 0" "\<forall>j < 8. length (?r ! j) = 256"
    "\<And>j c. j < 8 \<Longrightarrow> ?r ! j ! c = (if 1 \<le> j \<and> j < 1 + 7 \<and> c = n then crc_steps P (8 * Suc j) (of_nat n) else tab ! j ! c)"
    using crc_rows_spec [OF t assms(2), of 1 7 "tab ! 0 ! n"] first by simp_all
  have "?r ! j ! i = crc_steps P (8 * Suc j) (of_nat i)" if "j < 8" "i < Suc n" for j i
  proof (cases "i = n")
    case True
    then show ?thesis using r(4) [OF that(1), of n] first that(1) by (cases "j = 0") simp_all
  next
    case False
    then show ?thesis using r(4) [OF that(1), of i] assms(1) that by (simp add: cols_ok_def)
  qed
  with r t(3) show ?thesis by (simp add: cols_ok_def)
qed

lemma crc_table_ok: "table_ok P (crc32init_le_generic P (replicate 8 (replicate 256 0)))"
proof -
  let ?t0 = "(replicate 256 0 :: u32 list)[0 := 0]"
  let ?tab = "(replicate 8 (replicate 256 0))[0 := crc_row0 P 128 1 ?t0]"
  have "row_ok P (2 * 2 ^ 7) ?t0" by (auto simp: row_ok_def)
  from crc_row0_spec [OF _ this] have r0: "row_ok P 1 (crc_row0 P 128 1 ?t0)" by simp
  then have "cols_ok P 0 ?tab" by (auto simp: cols_ok_def row_ok_def nth_list_update)
  then have "cols_ok P n (fold (\<lambda>i tab. crc_rows 7 i (tab ! 0 ! i) 1 tab) [0..<n] ?tab)" if "n \<le> 256" for n
    using that by (induction n) (simp_all add: crc_column_step del: One_nat_def)
  then have "cols_ok P 256 (crc32init_le_generic P (replicate 8 (replicate 256 0)))"
    by (simp add: crc32init_le_generic_def Let_def)
  then show ?thesis by (simp add: cols_ok_def table_ok_def)
qed

lemma crc32c_le_bitwise: "crc32c_le crc addr p = crc32_le_bitwise CRC32C_POLY_LE crc p"
  by (simp add: crc32c_le_def crc32_le_generic_def crc32ctable_le_def cpu_to_le32_def le32_to_cpu_def
      crc32_body_bitwise [OF crc_table_ok])

section \<open>Properties\<close>

text \<open>
  C17. The slicing-by-8 checksum over the generated tables equals the bit-serial CRC-32C, for
  every seed, every buffer length and every alignment of the buffer.
\<close>

theorem crc32c_le_is_bitwise: "crc32c_le crc addr p = crc32_le_bitwise CRC32C_POLY_LE crc p"
  by (rule crc32c_le_bitwise)

text \<open>
  The table generator fills row \<open>j\<close>, column \<open>i\<close> with the value that \<open>8 * (j + 1)\<close> steps of the
  shift register give on the byte \<open>i\<close>, for every polynomial.
\<close>

theorem crc32_table_entries:
  assumes "j < 8" and "i < 256"
  shows "crc32init_le_generic P (replicate 8 (replicate 256 0)) ! j ! i = (crc_shift P ^^ (8 * Suc j)) (of_nat i)"
  using crc_table_ok [of P] assms by (simp add: table_ok_def)

theorem crc32_table_entries_witness:
  "crc32ctable_le ! 2 ! 128 = (crc_shift CRC32C_POLY_LE ^^ 24) 128"
  using crc32_table_entries [of 2 128 CRC32C_POLY_LE] by (simp add: crc32ctable_le_def)

end
