(* ===== verification/Cksum.thy ===== *)
theory Cksum
  imports Crc32
begin

text \<open>
  Checksummed metadata, from \<^verbatim>\<open>libxfs/xfs_cksum.h\<close>: a buffer carries the complement of the CRC-32C of
  its bytes, taken with the checksum field as zero, in that field. A buffer is a list of bytes;
  its address only matters to the alignment loop of the checksum routine, and so does the address
  of the zero word on the stack of \<^verbatim>\<open>xfs_start_cksum_safe\<close>.
\<close>

section \<open>Model\<close>

text \<open>A 32-bit store through a pointer into the buffer, on a little-endian host.\<close>

definition native_bytes32 :: "u32 \<Rightarrow> u8 list" where
  "native_bytes32 w = map (\<lambda>i. ucast (drop_bit (8 * i) w)) [0..<4]"

definition store_u32 :: "u8 list \<Rightarrow> nat \<Rightarrow> u32 \<Rightarrow> u8 list" where
  "store_u32 buf k w = take k buf @ native_bytes32 w @ drop (k + 4) buf"

definition XFS_CRC_SEED :: u32 where "XFS_CRC_SEED = NOT 0"

definition xfs_start_cksum_safe :: "nat \<Rightarrow> nat \<Rightarrow> u8 list \<Rightarrow> nat \<Rightarrow> nat \<Rightarrow> u32" where
  "xfs_start_cksum_safe addr zero_addr buffer len cksum_offset =
     (let crc = crc32c_le XFS_CRC_SEED addr (take cksum_offset buffer);
          crc = crc32c_le crc zero_addr (native_bytes32 0)
      in crc32c_le crc (addr + cksum_offset + 4)
           (take (len - (cksum_offset + 4)) (drop (cksum_offset + 4) buffer)))"

definition xfs_start_cksum_update :: "nat \<Rightarrow> u8 list \<Rightarrow> nat \<Rightarrow> nat \<Rightarrow> u8 list \<times> u32" where
  "xfs_start_cksum_update addr buffer len cksum_offset =
     (let buffer = store_u32 buffer cksum_offset 0
      in (buffer, crc32c_le XFS_CRC_SEED addr (take len buffer)))"

definition xfs_end_cksum :: "u32 \<Rightarrow> u32" where
  "xfs_end_cksum crc = NOT (cpu_to_le32 crc)"

definition xfs_update_cksum :: "nat \<Rightarrow> u8 list \<Rightarrow> nat \<Rightarrow> nat \<Rightarrow> u8 list" where
  "xfs_update_cksum addr buffer len cksum_offset =
     (let (buffer, crc) = xfs_start_cksum_update addr buffer len cksum_offset
      in store_u32 buffer cksum_offset (xfs_end_cksum crc))"

definition xfs_verify_cksum :: "nat \<Rightarrow> nat \<Rightarrow> u8 list \<Rightarrow> nat \<Rightarrow> nat \<Rightarrow> bool" where
  "xfs_verify_cksum addr zero_addr buffer len cksum_offset \<longleftrightarrow>
     load_u32 buffer cksum_offset = xfs_end_cksum (xfs_start_cksum_safe addr zero_addr buffer len cksum_offset)"

section \<open>Stores and loads\<close>

lemma length_native_bytes32 [simp]: "length (native_bytes32 w) = 4"
  by (simp add: native_bytes32_def)

lemma length_store_u32: "k + 4 \<le> length buf \<Longrightarrow> length (store_u32 buf k w) = length buf"
  by (simp add: store_u32_def)

lemma store_u32_nth:
  assumes "k + 4 \<le> length buf" "i < length buf"
  shows "store_u32 buf k w ! i = (if k \<le> i \<and> i < k + 4 then native_bytes32 w ! (i - k) else buf ! i)"
  using assms by (auto simp: store_u32_def nth_append min_def)

lemma load_native: "load_u32 (native_bytes32 w) 0 = w"
proof (rule bit_word_eqI)
  fix n assume "n < LENGTH(32)"
  then consider "n < 8" | "8 \<le> n" "n < 16" | "16 \<le> n" "n < 24" | "24 \<le> n" "n < 32" by fastforce
  then show "bit (load_u32 (native_bytes32 w) 0) n = bit w n"
    unfolding load_u32_def native_bytes32_def by cases (auto simp: bit_simps upt_rec)
qed

lemma load_store_u32:
  assumes "k + 4 \<le> length buf"
  shows "load_u32 (store_u32 buf k w) k = w"
proof -
  have "load_u32 (store_u32 buf k w) k = load_u32 (native_bytes32 w) 0"
    using assms by (simp add: load_u32_def store_u32_nth numeral_2_eq_2)
  then show ?thesis by (simp only: load_native)
qed

lemma native_load:
  assumes "length b = 4"
  shows "native_bytes32 (load_u32 b 0) = b"
proof -
  obtain b0 b1 b2 b3 where b: "b = [b0, b1, b2, b3]" using assms by (auto simp: numeral_eq_Suc length_Suc_conv)
  have hi: "\<not> bit (x :: u8) (8 + n)" "\<not> bit x (16 + n)" "\<not> bit x (24 + n)" for x n
    by (auto dest: bit_imp_le_length)
  show ?thesis unfolding b load_u32_def native_bytes32_def
    by (auto simp: upt_rec bit_eq_iff bit_simps hi)
qed

lemma load_u32_inj:
  assumes "length a = 4" "length b = 4" "load_u32 a 0 = load_u32 b 0"
  shows "a = b"
  using assms native_load by metis

section \<open>The checksum of a buffer\<close>

text \<open>The bytes the checksum covers: those of the buffer, with zeros in place of the field.\<close>

definition covered :: "u8 list \<Rightarrow> nat \<Rightarrow> nat \<Rightarrow> u8 list" where
  "covered buf len off = take off buf @ native_bytes32 0 @ take (len - (off + 4)) (drop (off + 4) buf)"

lemmas crc_append = crc32_le_bitwise_append [symmetric]

lemma start_safe_covered:
  "xfs_start_cksum_safe addr z buf len off = crc32_le_bitwise CRC32C_POLY_LE XFS_CRC_SEED (covered buf len off)"
  by (simp add: xfs_start_cksum_safe_def covered_def Let_def crc32c_le_bitwise crc_append)

lemma covered_take: "off + 4 \<le> len \<Longrightarrow> off \<le> length buf \<Longrightarrow> take len (store_u32 buf off 0) = covered buf len off"
  by (auto simp: store_u32_def covered_def min_def)

lemma covered_store: "off \<le> length buf \<Longrightarrow> covered (store_u32 buf off w) len off = covered buf len off"
  by (simp add: store_u32_def covered_def)

lemma store_store: "off \<le> length buf \<Longrightarrow> store_u32 (store_u32 buf off v) off w = store_u32 buf off w"
  by (simp add: store_u32_def)

lemma update_cksum_store:
  assumes "off + 4 \<le> len" "len \<le> length buf"
  shows "xfs_update_cksum addr buf len off =
     store_u32 buf off (xfs_end_cksum (crc32_le_bitwise CRC32C_POLY_LE XFS_CRC_SEED (covered buf len off)))"
  using assms by (simp add: xfs_update_cksum_def xfs_start_cksum_update_def Let_def crc32c_le_bitwise covered_take store_store)

lemma verify_store:
  assumes "off + 4 \<le> len" "len \<le> length buf"
  shows "xfs_verify_cksum addr z (store_u32 buf off w) len off \<longleftrightarrow>
     w = xfs_end_cksum (crc32_le_bitwise CRC32C_POLY_LE XFS_CRC_SEED (covered buf len off))"
  using assms by (simp add: xfs_verify_cksum_def start_safe_covered covered_store load_store_u32)

section \<open>Errors that are always detected\<close>

text \<open>The polynomial has its high bit set, so the shift register never loses information.\<close>

lemma xor_cancel:
  "a XOR b = 0 \<longleftrightarrow> a = b" "a XOR c = b XOR c \<longleftrightarrow> a = b" "c XOR a = c XOR b \<longleftrightarrow> a = b" for a b c :: u32
  by (auto simp: bit_eq_iff bit_simps)

lemma crc_shift_zero:
  assumes "bit P 31" and "crc_shift P c = 0"
  shows "c = 0"
proof -
  have "bit (crc_shift P c) 31 \<longleftrightarrow> bit c 0" using assms(1) u32_bit_lt [of c 32] by (auto simp: crc_shift_bit bit_simps)
  then have z: "\<not> bit c 0" using assms(2) by simp
  then have d: "drop_bit 1 c = 0" using assms(2) by (simp add: crc_shift_bit)
  have "\<not> bit c n" for n
  proof (cases n)
    case (Suc k)
    then show ?thesis using arg_cong [OF d, of "\<lambda>w. bit w k"] by (simp add: bit_simps)
  qed (use z in simp)
  then show ?thesis by (simp add: word_zero_bits)
qed

lemma crc_steps_inj:
  assumes "bit P 31" and "crc_steps P n a = crc_steps P n b"
  shows "a = b"
proof -
  have "crc_steps P n c = 0 \<Longrightarrow> c = 0" for c
    by (induction n) (use crc_shift_zero [OF assms(1)] in auto)
  from this [of "a XOR b"] have "a XOR b = 0" using assms(2) by (simp add: crc_steps_xor)
  then show ?thesis by (simp only: xor_cancel)
qed

lemma bitwise_inj_state:
  assumes "bit P 31" and "crc32_le_bitwise P c p = crc32_le_bitwise P d p"
  shows "c = d"
  using assms(2)
proof (induction p arbitrary: c d)
  case (Cons x p)
  then have "crc_steps P 8 (c XOR ucast x) = crc_steps P 8 (d XOR ucast x)" by simp
  from crc_steps_inj [OF assms(1) this] show ?case by (simp only: xor_cancel)
qed simp

text \<open>Two byte strings that differ only within four consecutive bytes have different checksums.\<close>

lemma bitwise_burst:
  assumes P: "bit P 31" and len: "length u = 4" "length v = 4"
    and eq: "crc32_le_bitwise P c (xs @ u @ ys) = crc32_le_bitwise P c (xs @ v @ ys)"
  shows "u = v"
proof -
  let ?c = "crc32_le_bitwise P c xs"
  have word: "crc32_le_bitwise P ?c w = crc_steps P 32 (?c XOR load_u32 w 0)" if w: "length w = 4" for w
  proof -
    obtain b0 b1 b2 b3 where "w = [b0, b1, b2, b3]" using w by (auto simp: numeral_eq_Suc length_Suc_conv)
    then show ?thesis by (simp only: bitwise_word)
  qed
  have "crc32_le_bitwise P ?c u = crc32_le_bitwise P ?c v"
    using eq bitwise_inj_state [OF P] by (simp only: crc32_le_bitwise_append)
  then have "?c XOR load_u32 u 0 = ?c XOR load_u32 v 0"
    using crc_steps_inj [OF P] by (simp only: word len)
  then have "load_u32 u 0 = load_u32 v 0" by (simp only: xor_cancel)
  with load_u32_inj len show ?thesis by blast
qed

lemma end_cksum_inj: "xfs_end_cksum a = xfs_end_cksum b \<Longrightarrow> a = b"
  by (simp add: xfs_end_cksum_def cpu_to_le32_def)

abbreviation window :: "nat \<Rightarrow> u8 list \<Rightarrow> u8 list" where
  "window k buf \<equiv> take 4 (drop k buf)"

lemma store_window: "k + 4 \<le> length buf \<Longrightarrow> store_u32 buf k w = buf \<longleftrightarrow> native_bytes32 w = window k buf"
proof -
  assume k: "k + 4 \<le> length buf"
  have "buf = take k buf @ window k buf @ drop (k + 4) buf"
    by (metis append_take_drop_id drop_drop add.commute)
  then have "store_u32 buf k w = buf \<longleftrightarrow>
      take k buf @ native_bytes32 w @ drop (k + 4) buf = take k buf @ window k buf @ drop (k + 4) buf"
    unfolding store_u32_def by metis
  also have "\<dots> \<longleftrightarrow> native_bytes32 w = window k buf" using k by simp
  finally show ?thesis .
qed

lemma take_split4:
  assumes "j + 4 \<le> n"
  shows "take n xs = take j xs @ take 4 (drop j xs) @ take (n - (j + 4)) (drop (j + 4) xs)"
proof -
  obtain r where r: "n = j + (4 + r)" using assms le_Suc_ex by (metis add.assoc)
  have "take n xs = take j xs @ take 4 (drop j xs) @ take r (drop 4 (drop j xs))"
    unfolding r by (simp only: take_add)
  then show ?thesis by (simp add: r add.commute)
qed

lemma covered_before:
  assumes "k + 4 \<le> off" "off + 4 \<le> length buf"
  obtains ys where "covered buf len off = take k buf @ window k buf @ ys"
    and "covered (store_u32 buf k w) len off = take k buf @ native_bytes32 w @ ys"
proof
  let ?ys = "drop (k + 4) (take off buf) @ native_bytes32 0 @ take (len - (off + 4)) (drop (off + 4) buf)"
  have "take off buf = take k buf @ window k buf @ drop (k + 4) (take off buf)"
    unfolding drop_take by (rule take_split4 [OF assms(1)])
  then show "covered buf len off = take k buf @ window k buf @ ?ys" unfolding covered_def by (metis append_assoc)
  have "take off (store_u32 buf k w) = take k buf @ native_bytes32 w @ drop (k + 4) (take off buf)"
    using assms by (simp add: store_u32_def drop_take min_def)
  moreover have "drop (off + 4) (store_u32 buf k w) = drop (off + 4) buf"
    using assms by (simp add: store_u32_def)
  ultimately show "covered (store_u32 buf k w) len off = take k buf @ native_bytes32 w @ ?ys"
    by (simp add: covered_def)
qed

lemma covered_after:
  assumes "off + 4 \<le> k" "k + 4 \<le> len" "len \<le> length buf"
  obtains xs ys where "covered buf len off = xs @ window k buf @ ys"
    and "covered (store_u32 buf k w) len off = xs @ native_bytes32 w @ ys"
proof
  let ?t = "take (k - (off + 4)) (drop (off + 4) buf)" and ?d = "take (len - (k + 4)) (drop (k + 4) buf)"
  let ?xs = "take off buf @ native_bytes32 0 @ ?t"
  have "take (len - (off + 4)) (drop (off + 4) buf) = ?t @ window k buf @ ?d"
    using take_split4 [of "k - (off + 4)" "len - (off + 4)" "drop (off + 4) buf"] assms(1,2)
    by (simp add: add.commute [of 4])
  then show "covered buf len off = ?xs @ window k buf @ ?d" by (simp add: covered_def)
  have "drop (off + 4) (store_u32 buf k w) = ?t @ native_bytes32 w @ drop (k + 4) buf"
    using assms by (simp add: store_u32_def drop_take)
  moreover have "take off (store_u32 buf k w) = take off buf" using assms by (simp add: store_u32_def)
  ultimately show "covered (store_u32 buf k w) len off = ?xs @ native_bytes32 w @ ?d"
    using assms by (simp add: covered_def)
qed

lemma load_outside:
  assumes "k + 4 \<le> off \<or> off + 4 \<le> k" "off + 4 \<le> length buf" "k + 4 \<le> length buf"
  shows "load_u32 (store_u32 buf k w) off = load_u32 buf off"
  using assms by (auto simp: load_u32_def store_u32_nth)

lemma covered_burst:
  assumes w: "k + 4 \<le> off \<or> off + 4 \<le> k" and len: "off + 4 \<le> len" "k + 4 \<le> len" "len \<le> length buf"
    and eq: "crc32_le_bitwise CRC32C_POLY_LE c (covered (store_u32 buf k w) len off) =
      crc32_le_bitwise CRC32C_POLY_LE c (covered buf len off)"
  shows "native_bytes32 w = window k buf"
proof -
  obtain xs ys where "covered buf len off = xs @ window k buf @ ys"
      "covered (store_u32 buf k w) len off = xs @ native_bytes32 w @ ys"
    using w covered_before [of k off buf len w] covered_after [of off k len buf w] len by (metis le_trans)
  moreover have "bit CRC32C_POLY_LE 31" by (simp add: CRC32C_POLY_LE_def)
  moreover have "length (window k buf) = 4" using len by simp
  ultimately show ?thesis using eq bitwise_burst by (metis length_native_bytes32)
qed

section \<open>Checksummed structures\<close>

text \<open>
  A structure with a checksum field: its memory image, the offset of the field in the image, and
  the assignment to the field. What the routines that stamp and check such a structure rely on is
  that the assignment is a store into the image.
\<close>

locale checksummed =
  fixes image :: "'a \<Rightarrow> u8 list"
    and set_crc :: "u32 \<Rightarrow> 'a \<Rightarrow> 'a"
    and off :: nat
  assumes image_set_crc: "image (set_crc c x) = store_u32 (image x) off c"
begin

definition stamp :: "nat \<Rightarrow> nat \<Rightarrow> 'a \<Rightarrow> 'a" where
  "stamp addr len x = set_crc (xfs_end_cksum (snd (xfs_start_cksum_update addr (image x) len off))) x"

lemma image_stamp: "off \<le> length (image x) \<Longrightarrow> image (stamp addr len x) = xfs_update_cksum addr (image x) len off"
  by (simp add: stamp_def image_set_crc xfs_update_cksum_def xfs_start_cksum_update_def Let_def store_store)

lemma stamp_verifies:
  assumes "off + 4 \<le> len" "len \<le> length (image x)"
  shows "xfs_verify_cksum a z (image (stamp addr len x)) len off"
  using assms by (simp add: image_stamp update_cksum_store verify_store)

end

section \<open>Properties\<close>

text \<open>
  C25. Stamping a buffer and checking it: the check passes wherever the buffer lies in memory, and no
  byte outside the checksum field has changed.
\<close>

theorem cksum_update_verify:
  assumes "off + 4 \<le> len" and "len \<le> length buf"
  shows "xfs_verify_cksum a z (xfs_update_cksum addr buf len off) len off \<and>
     length (xfs_update_cksum addr buf len off) = length buf \<and>
     take off (xfs_update_cksum addr buf len off) = take off buf \<and>
     drop (off + 4) (xfs_update_cksum addr buf len off) = drop (off + 4) buf"
  using assms by (simp add: update_cksum_store verify_store length_store_u32) (simp add: store_u32_def)

theorem cksum_update_verify_witness:
  "xfs_verify_cksum 1 2 (xfs_update_cksum 3 [1, 2, 3, 4, 5, 6, 7] 7 2) 7 2 \<and>
   drop 6 (xfs_update_cksum 3 [1, 2, 3, 4, 5, 6, 7] 7 2) = [7]"
  using cksum_update_verify [of 2 7 "[1, 2, 3, 4, 5, 6, 7]" 1 2 3] by simp

text \<open>
  C26. Error detection: in a buffer whose checksum is right, overwriting any four consecutive bytes,
  before, after or exactly at the checksum field, is detected unless the bytes written are the old
  ones. So every corruption confined to a 32-bit window that does not straddle the field fails the
  check.
\<close>

theorem cksum_detects_burst:
  assumes "off + 4 \<le> len" and "k + 4 \<le> len" and "len \<le> length buf"
    and "k + 4 \<le> off \<or> off + 4 \<le> k \<or> k = off"
    and "xfs_verify_cksum addr z buf len off"
  shows "xfs_verify_cksum a' z' (store_u32 buf k w) len off \<longleftrightarrow> store_u32 buf k w = buf"
proof
  assume v: "xfs_verify_cksum a' z' (store_u32 buf k w) len off"
  let ?E = "\<lambda>b. xfs_end_cksum (crc32_le_bitwise CRC32C_POLY_LE XFS_CRC_SEED (covered b len off))"
  have v0: "load_u32 buf off = ?E buf" using assms(5) by (simp add: xfs_verify_cksum_def start_safe_covered)
  have "native_bytes32 w = window k buf"
  proof (cases "k = off")
    case True
    have "load_u32 (window off buf) 0 = load_u32 buf off"
      using assms(1,3) by (simp add: load_u32_def numeral_2_eq_2)
    moreover have "w = ?E buf" using v assms(1,3) by (simp only: True verify_store)
    ultimately show ?thesis using v0 native_load [of "window off buf"] assms(1,3) True by simp
  next
    case False
    then have w: "k + 4 \<le> off \<or> off + 4 \<le> k" using assms(4) by blast
    have "load_u32 buf off = ?E (store_u32 buf k w)"
      using v load_outside [OF w, of buf w] assms(1-3) by (simp add: xfs_verify_cksum_def start_safe_covered)
    then show ?thesis using v0 covered_burst [OF w assms(1-3)] end_cksum_inj by metis
  qed
  then show "store_u32 buf k w = buf" using store_window [of k buf w] assms(2,3) by simp
next
  assume "store_u32 buf k w = buf"
  then show "xfs_verify_cksum a' z' (store_u32 buf k w) len off"
    using assms(5) by (simp add: xfs_verify_cksum_def start_safe_covered)
qed

theorem cksum_detects_burst_witness:
  "\<not> xfs_verify_cksum 3 0 (store_u32 (xfs_update_cksum 0 [1, 2, 3, 4, 0, 0, 0, 0, 5, 6] 10 4) 0 0x04020301) 10 4"
proof -
  let ?b = "[1, 2, 3, 4, 0, 0, 0, 0, 5, 6] :: u8 list"
  let ?s = "xfs_update_cksum 0 ?b 10 4"
  have s: "?s = store_u32 ?b 4 (xfs_end_cksum (crc32_le_bitwise CRC32C_POLY_LE XFS_CRC_SEED (covered ?b 10 4)))"
    by (rule update_cksum_store) simp_all
  have "xfs_verify_cksum 0 0 ?s 10 4" unfolding s by (subst verify_store) simp_all
  moreover have len: "length ?s = 10" unfolding s by (simp add: length_store_u32)
  moreover have "?s ! 1 = 2" unfolding s by (simp add: store_u32_nth)
  then have "store_u32 ?s 0 0x04020301 ! 1 \<noteq> ?s ! 1" using len by (simp add: store_u32_nth native_bytes32_def upt_rec)
  then have "store_u32 ?s 0 0x04020301 \<noteq> ?s" by metis
  ultimately show ?thesis using cksum_detects_burst [of 4 10 0 ?s 0 0 3 0 "0x04020301"] by simp
qed

end
