(* ===== verification/Inode_Buf.thy ===== *)
theory Inode_Buf
  imports Cksum Addr
begin

text \<open>
  On-disk inodes, from \<^verbatim>\<open>libxfs/xfs_inode_buf.c\<close> and \<^verbatim>\<open>libxfs/xfs_format.h\<close>: timestamps, the conversion of
  the inode core in both directions, the checksum, and the verifiers. A field of \<open>xfs_dinode\<close> holds
  the bytes of the disk as the little-endian CPU loads them. Of a union, one arm is the field and the
  other arms are functions of it. The bytes of the forks follow the core in \<open>di_literal\<close>.
\<close>

section \<open>Model\<close>

record xfs_dinode =
  di_magic :: u16
  di_mode :: u16
  di_version :: u8
  di_format :: u8
  di_metatype :: u16
  di_uid :: u32
  di_gid :: u32
  di_nlink :: u32
  di_projid_lo :: u16
  di_projid_hi :: u16
  di_big_nextents :: u64
  di_atime :: u64
  di_mtime :: u64
  di_ctime :: u64
  di_size :: u64
  di_nblocks :: u64
  di_extsize :: u32
  di_nextents :: u32
  di_anextents :: u16
  di_forkoff :: u8
  di_aformat :: u8
  di_dmevmask :: u32
  di_dmstate :: u16
  di_flags :: u16
  di_gen :: u32
  di_next_unlinked :: u32
  di_crc :: u32
  di_changecount :: u64
  di_lsn :: u64
  di_flags2 :: u64
  di_cowextsize :: u32
  di_pad2 :: "u8 list"
  di_crtime :: u64
  di_ino :: u64
  di_uuid :: "u8 list"
  di_literal :: "u8 list"

text \<open>The other arms of the unions.\<close>

definition di_v3_pad :: "xfs_dinode \<Rightarrow> u64" where "di_v3_pad d = di_big_nextents d"
definition di_flushiter :: "xfs_dinode \<Rightarrow> u16" where "di_flushiter d = ucast (drop_bit 48 (di_big_nextents d))"
definition di_big_anextents :: "xfs_dinode \<Rightarrow> u32" where "di_big_anextents d = di_nextents d"
definition di_nrext64_pad :: "xfs_dinode \<Rightarrow> u16" where "di_nrext64_pad d = di_anextents d"
definition di_used_blocks :: "xfs_dinode \<Rightarrow> u32" where "di_used_blocks d = di_cowextsize d"

text \<open>The in-core inode: the fields that the conversions read and write, and the forks' headers.\<close>

record timespec64 =
  tv_sec :: u64
  tv_nsec :: u64

record xfs_ifork =
  if_format :: u8
  if_nextents :: u64

record xfs_inode =
  i_ino :: u64
  i_df :: xfs_ifork
  i_af :: xfs_ifork
  i_disk_size :: u64
  i_nblocks :: u64
  i_projid :: u32
  i_extsize :: u32
  i_cowextsize :: u32
  i_forkoff :: u8
  i_metatype :: u8
  i_diflags :: u16
  i_diflags2 :: u64
  i_crtime :: timespec64
  i_next_unlinked :: u32
  i_mode :: u32
  i_uid :: u32
  i_gid :: u32
  i_nlink :: u32
  i_generation :: u32
  i_version :: u64
  i_atime :: timespec64
  i_mtime :: timespec64
  i_ctime :: timespec64

definition i_flushiter :: "xfs_inode \<Rightarrow> u16" where "i_flushiter ip = ucast (i_cowextsize ip)"

record ino_mount =
  m_fs :: fs_mount
  m_has_v3inodes :: bool
  m_has_reflink :: bool
  m_has_rmapbt :: bool
  m_has_metadir :: bool
  m_has_parent :: bool
  m_has_bigtime :: bool
  m_has_large_extent_counts :: bool
  m_rtdev_targp :: bool
  m_dir_max_extents :: u64
  sb_inodesize :: u16
  sb_inopblock :: u16
  sb_meta_uuid :: "u8 list"

abbreviation irt :: "ino_mount \<Rightarrow> rt_mount" where "irt m \<equiv> m_rt (m_fs m)"

definition xfs_has_rtreflink :: "ino_mount \<Rightarrow> bool" where
  "xfs_has_rtreflink m \<longleftrightarrow> m_has_metadir m \<and> m_has_realtime (m_fs m) \<and> m_has_reflink m"

subsection \<open>Constants\<close>

definition XFS_DINODE_MAGIC :: u16 where "XFS_DINODE_MAGIC = 0x494e"
definition XFS_DINODE_FMT_DEV :: u32 where "XFS_DINODE_FMT_DEV = 0"
definition XFS_DINODE_FMT_LOCAL :: u32 where "XFS_DINODE_FMT_LOCAL = 1"
definition XFS_DINODE_FMT_EXTENTS :: u32 where "XFS_DINODE_FMT_EXTENTS = 2"
definition XFS_DINODE_FMT_BTREE :: u32 where "XFS_DINODE_FMT_BTREE = 3"
definition XFS_DINODE_FMT_META_BTREE :: u32 where "XFS_DINODE_FMT_META_BTREE = 5"
definition XFS_METAFILE_RTRMAP :: u16 where "XFS_METAFILE_RTRMAP = 7"
definition XFS_METAFILE_RTREFCOUNT :: u16 where "XFS_METAFILE_RTREFCOUNT = 8"
definition XFS_METAFILE_MAX :: u16 where "XFS_METAFILE_MAX = 9"
definition XFS_DIFLAG_REALTIME :: u16 where "XFS_DIFLAG_REALTIME = 2 ^ 0"
definition XFS_DIFLAG_EXTSIZE :: u16 where "XFS_DIFLAG_EXTSIZE = 2 ^ 11"
definition XFS_DIFLAG_EXTSZINHERIT :: u16 where "XFS_DIFLAG_EXTSZINHERIT = 2 ^ 12"

text \<open>Immutable, sync, noatime, nodump and nodefrag; directories also have nosymlinks.\<close>

definition XFS_METAFILE_DIFLAGS :: u16 where
  "XFS_METAFILE_DIFLAGS = 2 ^ 3 OR 2 ^ 5 OR 2 ^ 6 OR 2 ^ 7 OR 2 ^ 13"

definition XFS_METADIR_DIFLAGS :: u16 where "XFS_METADIR_DIFLAGS = XFS_METAFILE_DIFLAGS OR 2 ^ 10"
definition XFS_DIFLAG2_DAX :: u64 where "XFS_DIFLAG2_DAX = 2 ^ 0"
definition XFS_DIFLAG2_REFLINK :: u64 where "XFS_DIFLAG2_REFLINK = 2 ^ 1"
definition XFS_DIFLAG2_COWEXTSIZE :: u64 where "XFS_DIFLAG2_COWEXTSIZE = 2 ^ 2"
definition XFS_DIFLAG2_BIGTIME :: u64 where "XFS_DIFLAG2_BIGTIME = 2 ^ 3"
definition XFS_DIFLAG2_NREXT64 :: u64 where "XFS_DIFLAG2_NREXT64 = 2 ^ 4"
definition XFS_DIFLAG2_METADATA :: u64 where "XFS_DIFLAG2_METADATA = 2 ^ 5"

text \<open>File types of a mode, as \<^verbatim>\<open>sys/stat.h\<close> numbers them.\<close>

definition S_IFMT :: u16 where "S_IFMT = 0xF000"
definition S_IFSOCK :: u16 where "S_IFSOCK = 0xC000"
definition S_IFLNK :: u16 where "S_IFLNK = 0xA000"
definition S_IFREG :: u16 where "S_IFREG = 0x8000"
definition S_IFBLK :: u16 where "S_IFBLK = 0x6000"
definition S_IFDIR :: u16 where "S_IFDIR = 0x4000"
definition S_IFCHR :: u16 where "S_IFCHR = 0x2000"
definition S_IFIFO :: u16 where "S_IFIFO = 0x1000"
definition S_ISDIR :: "u16 \<Rightarrow> bool" where "S_ISDIR mode \<longleftrightarrow> mode AND S_IFMT = S_IFDIR"
definition S_ISREG :: "u16 \<Rightarrow> bool" where "S_ISREG mode \<longleftrightarrow> mode AND S_IFMT = S_IFREG"
definition S_ISLNK :: "u16 \<Rightarrow> bool" where "S_ISLNK mode \<longleftrightarrow> mode AND S_IFMT = S_IFLNK"

text \<open>\<^verbatim>\<open>XFS_DIR3_FT_*\<close>, 0 for an unknown type.\<close>

definition xfs_mode_to_ftype :: "u16 \<Rightarrow> u8" where
  "xfs_mode_to_ftype mode =
     (let t = mode AND S_IFMT
      in if t = S_IFREG then 1 else if t = S_IFDIR then 2 else if t = S_IFCHR then 3
         else if t = S_IFBLK then 4 else if t = S_IFIFO then 5 else if t = S_IFSOCK then 6
         else if t = S_IFLNK then 7 else 0)"

subsection \<open>Timestamps\<close>

definition NSEC_PER_SEC :: u64 where "NSEC_PER_SEC = 1000000000"
definition XFS_BIGTIME_EPOCH_OFFSET :: u64 where "XFS_BIGTIME_EPOCH_OFFSET = 2 ^ 31"

definition xfs_unix_to_bigtime :: "u64 \<Rightarrow> u64" where
  "xfs_unix_to_bigtime unix_seconds = unix_seconds + XFS_BIGTIME_EPOCH_OFFSET"

definition xfs_bigtime_to_unix :: "u64 \<Rightarrow> u64" where
  "xfs_bigtime_to_unix ondisk_seconds = ondisk_seconds - XFS_BIGTIME_EPOCH_OFFSET"

definition xfs_inode_encode_bigtime :: "timespec64 \<Rightarrow> u64" where
  "xfs_inode_encode_bigtime tv = xfs_unix_to_bigtime (tv_sec tv) * NSEC_PER_SEC + tv_nsec tv"

definition xfs_inode_decode_bigtime :: "u64 \<Rightarrow> timespec64" where
  "xfs_inode_decode_bigtime ts =
     \<lparr>tv_sec = xfs_bigtime_to_unix (ts div NSEC_PER_SEC), tv_nsec = ucast (ucast (ts mod NSEC_PER_SEC) :: u32)\<rparr>"

text \<open>
  \<^verbatim>\<open>struct xfs_legacy_timestamp\<close>: seconds in the first four bytes, nanoseconds in the last four, both
  signed.
\<close>

definition lts_t_sec :: "u64 \<Rightarrow> u32" where "lts_t_sec ts = ucast ts"
definition lts_t_nsec :: "u64 \<Rightarrow> u32" where "lts_t_nsec ts = ucast (drop_bit 32 ts)"
definition lts_make :: "u32 \<Rightarrow> u32 \<Rightarrow> u64" where "lts_make sec nsec = push_bit 32 (ucast nsec) OR ucast sec"

definition xfs_dinode_has_bigtime :: "xfs_dinode \<Rightarrow> bool" where
  "xfs_dinode_has_bigtime dip \<longleftrightarrow> di_version dip \<ge> 3 \<and> di_flags2 dip AND cpu_to_be64 XFS_DIFLAG2_BIGTIME \<noteq> 0"

definition xfs_dinode_has_large_extent_counts :: "xfs_dinode \<Rightarrow> bool" where
  "xfs_dinode_has_large_extent_counts dip \<longleftrightarrow>
     di_version dip \<ge> 3 \<and> di_flags2 dip AND cpu_to_be64 XFS_DIFLAG2_NREXT64 \<noteq> 0"

definition xfs_dinode_is_metadir :: "xfs_dinode \<Rightarrow> bool" where
  "xfs_dinode_is_metadir dip \<longleftrightarrow> di_version dip \<ge> 3 \<and> di_flags2 dip AND cpu_to_be64 XFS_DIFLAG2_METADATA \<noteq> 0"

definition xfs_inode_has_bigtime :: "xfs_inode \<Rightarrow> bool" where
  "xfs_inode_has_bigtime ip \<longleftrightarrow> i_diflags2 ip AND XFS_DIFLAG2_BIGTIME \<noteq> 0"

definition xfs_inode_has_large_extent_counts :: "xfs_inode \<Rightarrow> bool" where
  "xfs_inode_has_large_extent_counts ip \<longleftrightarrow> i_diflags2 ip AND XFS_DIFLAG2_NREXT64 \<noteq> 0"

definition xfs_is_metadir_inode :: "xfs_inode \<Rightarrow> bool" where
  "xfs_is_metadir_inode ip \<longleftrightarrow> i_diflags2 ip AND XFS_DIFLAG2_METADATA \<noteq> 0"

definition xfs_inode_from_disk_ts :: "xfs_dinode \<Rightarrow> u64 \<Rightarrow> timespec64" where
  "xfs_inode_from_disk_ts dip ts =
     (if xfs_dinode_has_bigtime dip then xfs_inode_decode_bigtime (be64_to_cpu ts)
      else \<lparr>tv_sec = scast (be32_to_cpu (lts_t_sec ts)), tv_nsec = scast (be32_to_cpu (lts_t_nsec ts))\<rparr>)"

definition xfs_inode_to_disk_ts :: "xfs_inode \<Rightarrow> timespec64 \<Rightarrow> u64" where
  "xfs_inode_to_disk_ts ip tv =
     (if xfs_inode_has_bigtime ip then cpu_to_be64 (xfs_inode_encode_bigtime tv)
      else lts_make (cpu_to_be32 (ucast (tv_sec tv))) (cpu_to_be32 (ucast (tv_nsec tv))))"

subsection \<open>Fork geometry and extent counts\<close>

datatype whichfork = XFS_DATA_FORK | XFS_ATTR_FORK

definition XFS_DINODE_CRC_OFF :: nat where "XFS_DINODE_CRC_OFF = 100"

definition XFS_DINODE_SIZE :: "ino_mount \<Rightarrow> u64" where
  "XFS_DINODE_SIZE m = (if m_has_v3inodes m then 176 else of_nat XFS_DINODE_CRC_OFF)"

definition XFS_LITINO :: "ino_mount \<Rightarrow> u64" where
  "XFS_LITINO m = ucast (sb_inodesize m) - XFS_DINODE_SIZE m"

definition XFS_DFORK_BOFF :: "xfs_dinode \<Rightarrow> u64" where
  "XFS_DFORK_BOFF dip = push_bit 3 (ucast (di_forkoff dip))"

definition XFS_DFORK_DSIZE :: "xfs_dinode \<Rightarrow> ino_mount \<Rightarrow> u64" where
  "XFS_DFORK_DSIZE dip m = (if di_forkoff dip \<noteq> 0 then XFS_DFORK_BOFF dip else XFS_LITINO m)"

definition XFS_DFORK_ASIZE :: "xfs_dinode \<Rightarrow> ino_mount \<Rightarrow> u64" where
  "XFS_DFORK_ASIZE dip m = (if di_forkoff dip \<noteq> 0 then XFS_LITINO m - XFS_DFORK_BOFF dip else 0)"

definition XFS_DFORK_SIZE :: "xfs_dinode \<Rightarrow> ino_mount \<Rightarrow> whichfork \<Rightarrow> u64" where
  "XFS_DFORK_SIZE dip m w = (if w = XFS_DATA_FORK then XFS_DFORK_DSIZE dip m else XFS_DFORK_ASIZE dip m)"

definition XFS_DFORK_MAXEXT :: "xfs_dinode \<Rightarrow> ino_mount \<Rightarrow> whichfork \<Rightarrow> u64" where
  "XFS_DFORK_MAXEXT dip m w = XFS_DFORK_SIZE dip m w div 16"

text \<open>The size of the core, which the forks follow.\<close>

definition xfs_dinode_size :: "u8 \<Rightarrow> u64" where
  "xfs_dinode_size version = (if version = 3 then 176 else of_nat XFS_DINODE_CRC_OFF)"

text \<open>\<^verbatim>\<open>di_aformat\<close> is signed, so it is extended with its sign to the 32-bit format.\<close>

definition XFS_DFORK_FORMAT :: "xfs_dinode \<Rightarrow> whichfork \<Rightarrow> u32" where
  "XFS_DFORK_FORMAT dip w = (if w = XFS_DATA_FORK then ucast (di_format dip) else scast (di_aformat dip))"

definition xfs_iext_max_nextents :: "bool \<Rightarrow> whichfork \<Rightarrow> u64" where
  "xfs_iext_max_nextents has_large_extent_counts w =
     (case w of
        XFS_DATA_FORK \<Rightarrow> if has_large_extent_counts then 2 ^ 48 - 1 else 2 ^ 31 - 1
      | XFS_ATTR_FORK \<Rightarrow> if has_large_extent_counts then 2 ^ 32 - 1 else 2 ^ 15 - 1)"

definition xfs_dfork_data_extents :: "xfs_dinode \<Rightarrow> u64" where
  "xfs_dfork_data_extents dip =
     (if xfs_dinode_has_large_extent_counts dip then be64_to_cpu (di_big_nextents dip)
      else ucast (be32_to_cpu (di_nextents dip)))"

definition xfs_dfork_attr_extents :: "xfs_dinode \<Rightarrow> u64" where
  "xfs_dfork_attr_extents dip =
     (if xfs_dinode_has_large_extent_counts dip then ucast (be32_to_cpu (di_big_anextents dip))
      else ucast (be16_to_cpu (di_anextents dip)))"

definition xfs_dfork_nextents :: "xfs_dinode \<Rightarrow> whichfork \<Rightarrow> u64" where
  "xfs_dfork_nextents dip w =
     (case w of XFS_DATA_FORK \<Rightarrow> xfs_dfork_data_extents dip | XFS_ATTR_FORK \<Rightarrow> xfs_dfork_attr_extents dip)"

subsection \<open>Verifiers\<close>

text \<open>
  A \<^verbatim>\<open>xfs_failaddr_t\<close> is null or the address of the check that failed, which the model gives as its
  line of \<^verbatim>\<open>xfs_inode_buf.c\<close>. A verifier is the list of its checks in order; the first that fails is
  the result.
\<close>

type_synonym xfs_failaddr_t = "nat option"

fun first_fail :: "xfs_failaddr_t list \<Rightarrow> xfs_failaddr_t" where
  "first_fail [] = None"
| "first_fail (None # cs) = first_fail cs"
| "first_fail (Some l # cs) = Some l"

definition fail_when :: "bool \<Rightarrow> nat \<Rightarrow> xfs_failaddr_t" where
  "fail_when b line = (if b then Some line else None)"

definition XFS_FSB_TO_B32 :: "ino_mount \<Rightarrow> u32 \<Rightarrow> u32" where
  "XFS_FSB_TO_B32 m fsbno = ucast (push_bit (sb_blocklog (irt m)) (ucast fsbno :: u64))"

definition XFS_MAX_BMBT_EXTLEN :: u32 where "XFS_MAX_BMBT_EXTLEN = 2 ^ 21 - 1"

definition xfs_inode_validate_extsize :: "ino_mount \<Rightarrow> u32 \<Rightarrow> u16 \<Rightarrow> u16 \<Rightarrow> xfs_failaddr_t" where
  "xfs_inode_validate_extsize m extsize mode flags =
     (let rt_flag = (flags AND XFS_DIFLAG_REALTIME \<noteq> 0);
          hint_flag = (flags AND XFS_DIFLAG_EXTSIZE \<noteq> 0);
          inherit_flag = (flags AND XFS_DIFLAG_EXTSZINHERIT \<noteq> 0);
          extsize_bytes = XFS_FSB_TO_B32 m extsize;
          blocksize_bytes = (if rt_flag then XFS_FSB_TO_B32 m (sb_rextsize (irt m)) else sb_blocksize (irt m))
      in first_fail
       [fail_when ((hint_flag \<or> inherit_flag) \<and> \<not> (S_ISDIR mode \<or> S_ISREG mode)) 870,
        fail_when (hint_flag \<and> \<not> S_ISREG mode) 873,
        fail_when (inherit_flag \<and> \<not> S_ISDIR mode) 876,
        fail_when ((hint_flag \<or> inherit_flag) \<and> extsize = 0) 879,
        fail_when (mode \<noteq> 0 \<and> \<not> (hint_flag \<or> inherit_flag) \<and> extsize \<noteq> 0) 883,
        fail_when (extsize_bytes mod blocksize_bytes \<noteq> 0) 886,
        fail_when (extsize > XFS_MAX_BMBT_EXTLEN) 889,
        fail_when (\<not> rt_flag \<and> extsize > sb_agblocks (m_fs m) div 2) 892])"

definition xfs_inode_validate_cowextsize ::
    "ino_mount \<Rightarrow> u32 \<Rightarrow> u16 \<Rightarrow> u16 \<Rightarrow> u64 \<Rightarrow> xfs_failaddr_t" where
  "xfs_inode_validate_cowextsize m cowextsize mode flags flags2 =
     (let rt_flag = (flags AND XFS_DIFLAG_REALTIME \<noteq> 0);
          hint_flag = (flags2 AND XFS_DIFLAG2_COWEXTSIZE \<noteq> 0);
          cowextsize_bytes = XFS_FSB_TO_B32 m cowextsize;
          blocksize_bytes = (if rt_flag then XFS_FSB_TO_B32 m (sb_rextsize (irt m)) else sb_blocksize (irt m))
      in first_fail
       [fail_when (hint_flag \<and> \<not> m_has_reflink m) 945,
        fail_when (hint_flag \<and> \<not> (S_ISDIR mode \<or> S_ISREG mode)) 948,
        fail_when (hint_flag \<and> cowextsize = 0) 951,
        fail_when (mode \<noteq> 0 \<and> \<not> hint_flag \<and> cowextsize \<noteq> 0) 955,
        fail_when (cowextsize_bytes mod blocksize_bytes \<noteq> 0) 958,
        fail_when (cowextsize > XFS_MAX_BMBT_EXTLEN) 961,
        fail_when (\<not> rt_flag \<and> cowextsize > sb_agblocks (m_fs m) div 2) 964])"

definition xfs_dinode_verify_fork :: "xfs_dinode \<Rightarrow> ino_mount \<Rightarrow> whichfork \<Rightarrow> xfs_failaddr_t" where
  "xfs_dinode_verify_fork dip m w =
     (let mode = be16_to_cpu (di_mode dip);
          fork_size = ucast (XFS_DFORK_SIZE dip m w) :: u32;
          fork_format = XFS_DFORK_FORMAT dip w;
          di_nextents = xfs_dfork_nextents dip w;
          size = be64_to_cpu (di_size dip)
      in first_fail
       [fail_when (w = XFS_DATA_FORK \<and> S_ISDIR mode \<and> di_size dip \<noteq> 0 \<and> size \<le> ucast fork_size \<and>
          fork_format \<noteq> XFS_DINODE_FMT_LOCAL) 398,
        fail_when (w = XFS_DATA_FORK \<and> S_ISLNK mode \<and> size \<le> ucast fork_size \<and>
          fork_format \<noteq> XFS_DINODE_FMT_EXTENTS \<and> fork_format \<noteq> XFS_DINODE_FMT_LOCAL) 411,
        fail_when (w = XFS_DATA_FORK \<and> size > ucast fork_size \<and> fork_format = XFS_DINODE_FMT_LOCAL) 421,
        (if fork_format = XFS_DINODE_FMT_LOCAL then
           first_fail [fail_when (S_ISREG mode \<and> w = XFS_DATA_FORK) 430, fail_when (di_nextents \<noteq> 0) 432]
         else if fork_format = XFS_DINODE_FMT_EXTENTS then
           fail_when (di_nextents > XFS_DFORK_MAXEXT dip m w) 436
         else if fork_format = XFS_DINODE_FMT_BTREE then
           fail_when (di_nextents > xfs_iext_max_nextents (xfs_dinode_has_large_extent_counts dip) w) 443
         else if fork_format = XFS_DINODE_FMT_META_BTREE then
           first_fail
            [fail_when (\<not> m_has_metadir m) 447,
             fail_when (di_flags2 dip AND cpu_to_be64 XFS_DIFLAG2_METADATA = 0) 449,
             (if be16_to_cpu (di_metatype dip) = XFS_METAFILE_RTRMAP then fail_when (\<not> m_has_rmapbt m) 458
              else if be16_to_cpu (di_metatype dip) = XFS_METAFILE_RTREFCOUNT then fail_when (\<not> m_has_reflink m) 463
              else Some 466)]
         else Some 470)])"

text \<open>\<^verbatim>\<open>roundup(sizeof(xfs_dev_t), 8) >> 3\<close> is 1.\<close>

definition xfs_dinode_verify_forkoff :: "xfs_dinode \<Rightarrow> ino_mount \<Rightarrow> xfs_failaddr_t" where
  "xfs_dinode_verify_forkoff dip m =
     (if di_forkoff dip = 0 then None
      else let fmt = ucast (di_format dip) :: u32;
               past_end = fail_when ((ucast (di_forkoff dip) :: u64) \<ge> drop_bit 3 (XFS_LITINO m)) 496
           in if fmt = XFS_DINODE_FMT_DEV then fail_when (di_forkoff dip \<noteq> 1) 486
              else if fmt = XFS_DINODE_FMT_META_BTREE then
                first_fail [fail_when (\<not> m_has_metadir m \<or> \<not> m_has_parent m) 490, past_end]
              else if fmt = XFS_DINODE_FMT_LOCAL \<or> fmt = XFS_DINODE_FMT_EXTENTS \<or> fmt = XFS_DINODE_FMT_BTREE
              then past_end
              else Some 499)"

definition xfs_dinode_verify_nrext64 :: "ino_mount \<Rightarrow> xfs_dinode \<Rightarrow> xfs_failaddr_t" where
  "xfs_dinode_verify_nrext64 m dip =
     (if xfs_dinode_has_large_extent_counts dip then
        first_fail [fail_when (\<not> m_has_large_extent_counts m) 511, fail_when (di_nrext64_pad dip \<noteq> 0) 513]
      else if di_version dip \<ge> 3 then fail_when (di_v3_pad dip \<noteq> 0) 516
      else None)"

definition xfs_dinode_verify_metadir ::
    "ino_mount \<Rightarrow> xfs_dinode \<Rightarrow> u16 \<Rightarrow> u16 \<Rightarrow> u64 \<Rightarrow> xfs_failaddr_t" where
  "xfs_dinode_verify_metadir m dip mode flags flags2 =
     first_fail
      [fail_when (\<not> m_has_metadir m) 535,
       fail_when (di_version dip < 3) 539,
       fail_when (be16_to_cpu (di_metatype dip) \<ge> XFS_METAFILE_MAX) 542,
       fail_when (flags2 AND XFS_DIFLAG2_NREXT64 \<noteq> 0 \<and> di_nrext64_pad dip \<noteq> 0) 546,
       fail_when (flags2 AND XFS_DIFLAG2_NREXT64 = 0 \<and> di_flushiter dip \<noteq> 0) 548,
       fail_when (\<not> S_ISDIR mode \<and> \<not> S_ISREG mode) 552,
       fail_when (mode AND 0x1ff \<noteq> 0) 556,
       fail_when (di_dmevmask dip \<noteq> 0 \<or> di_dmstate dip \<noteq> 0) 560,
       fail_when (di_uid dip \<noteq> 0 \<or> di_gid dip \<noteq> 0) 567,
       (if S_ISDIR mode then fail_when (flags AND XFS_METADIR_DIFLAGS \<noteq> XFS_METADIR_DIFLAGS) 572
        else fail_when (flags AND XFS_METAFILE_DIFLAGS \<noteq> XFS_METAFILE_DIFLAGS) 575),
       fail_when (flags2 AND XFS_DIFLAG2_DAX \<noteq> 0) 580]"

text \<open>The memory image of an inode: the fields in the order of the structure, then the forks.\<close>

definition native_bytes16 :: "u16 \<Rightarrow> u8 list" where
  "native_bytes16 w = [ucast w, ucast (drop_bit 8 w)]"

definition dinode_head :: "xfs_dinode \<Rightarrow> u8 list" where
  "dinode_head d =
     native_bytes16 (di_magic d) @ native_bytes16 (di_mode d) @ [di_version d, di_format d] @
     native_bytes16 (di_metatype d) @ native_bytes32 (di_uid d) @ native_bytes32 (di_gid d) @
     native_bytes32 (di_nlink d) @ native_bytes16 (di_projid_lo d) @ native_bytes16 (di_projid_hi d) @
     native_bytes64 (di_big_nextents d) @ native_bytes64 (di_atime d) @ native_bytes64 (di_mtime d) @
     native_bytes64 (di_ctime d) @ native_bytes64 (di_size d) @ native_bytes64 (di_nblocks d) @
     native_bytes32 (di_extsize d) @ native_bytes32 (di_nextents d) @ native_bytes16 (di_anextents d) @
     [di_forkoff d, di_aformat d] @ native_bytes32 (di_dmevmask d) @ native_bytes16 (di_dmstate d) @
     native_bytes16 (di_flags d) @ native_bytes32 (di_gen d) @ native_bytes32 (di_next_unlinked d)"

definition dinode_tail :: "xfs_dinode \<Rightarrow> u8 list" where
  "dinode_tail d =
     native_bytes64 (di_changecount d) @ native_bytes64 (di_lsn d) @ native_bytes64 (di_flags2 d) @
     native_bytes32 (di_cowextsize d) @ di_pad2 d @ native_bytes64 (di_crtime d) @
     native_bytes64 (di_ino d) @ di_uuid d @ di_literal d"

definition dinode_image :: "xfs_dinode \<Rightarrow> u8 list" where
  "dinode_image d = dinode_head d @ native_bytes32 (di_crc d) @ dinode_tail d"

definition xfs_dinode_verify :: "ino_mount \<Rightarrow> u64 \<Rightarrow> xfs_dinode \<Rightarrow> xfs_failaddr_t" where
  "xfs_dinode_verify m ino dip =
     (let di_sz = be64_to_cpu (di_size dip);
          mode = be16_to_cpu (di_mode dip);
          ftype = mode AND S_IFMT;
          nextents = xfs_dfork_data_extents dip;
          naextents = xfs_dfork_attr_extents dip;
          nblocks = be64_to_cpu (di_nblocks dip);
          flags = be16_to_cpu (di_flags dip);
          flags2 = be64_to_cpu (di_flags2 dip)
      in first_fail
       [fail_when (di_magic dip \<noteq> cpu_to_be16 XFS_DINODE_MAGIC) 601,
        (if di_version dip \<ge> 3 then first_fail
           [fail_when (\<not> m_has_v3inodes m) 606,
            fail_when (\<not> xfs_verify_cksum 0 0 (dinode_image dip) (unat (sb_inodesize m)) XFS_DINODE_CRC_OFF) 609,
            fail_when (be64_to_cpu (di_ino dip) \<noteq> ino) 611,
            fail_when (di_uuid dip \<noteq> sb_meta_uuid m) 613]
         else None),
        (if di_version dip = 2 then fail_when (di_metatype dip \<noteq> 0) 627
         else if di_version dip \<ge> 3 then fail_when (\<not> xfs_dinode_is_metadir dip \<and> di_metatype dip \<noteq> 0) 630
         else None),
        fail_when (di_sz AND 2 ^ 63 \<noteq> 0) 636,
        fail_when (mode \<noteq> 0 \<and> xfs_mode_to_ftype mode = 0) 640,
        (if (S_ISLNK mode \<or> S_ISDIR mode) \<and> di_sz = 0 then
           if di_version dip > 1 then fail_when (di_nlink dip \<noteq> 0) 649
           else fail_when (di_metatype dip \<noteq> 0) 653
         else None),
        xfs_dinode_verify_nrext64 m dip,
        fail_when (mode \<noteq> 0 \<and> nextents + naextents > nblocks) 667,
        fail_when (S_ISDIR mode \<and> nextents > m_dir_max_extents m) 670,
        fail_when (mode \<noteq> 0 \<and> XFS_DFORK_BOFF dip > ucast (sb_inodesize m)) 673,
        fail_when (mode \<noteq> 0 \<and> flags AND XFS_DIFLAG_REALTIME \<noteq> 0 \<and> \<not> m_rtdev_targp m) 678,
        xfs_dinode_verify_forkoff dip m,
        (if ftype = S_IFIFO \<or> ftype = S_IFCHR \<or> ftype = S_IFBLK \<or> ftype = S_IFSOCK then
           fail_when ((ucast (di_format dip) :: u32) \<noteq> XFS_DINODE_FMT_DEV) 692
         else if ftype = S_IFREG \<or> ftype = S_IFLNK \<or> ftype = S_IFDIR then
           xfs_dinode_verify_fork dip m XFS_DATA_FORK
         else if ftype = 0 then None
         else Some 705),
        (if di_forkoff dip \<noteq> 0 then xfs_dinode_verify_fork dip m XFS_ATTR_FORK
         else first_fail
           [fail_when (di_aformat dip \<noteq> 0 \<and> XFS_DFORK_FORMAT dip XFS_ATTR_FORK \<noteq> XFS_DINODE_FMT_EXTENTS) 724,
            fail_when (naextents \<noteq> 0) 727]),
        xfs_inode_validate_extsize m (be32_to_cpu (di_extsize dip)) mode flags,
        (if di_version dip < 3 then None
         else first_fail
           [fail_when (flags2 AND (XFS_DIFLAG2_REFLINK OR XFS_DIFLAG2_COWEXTSIZE) \<noteq> 0 \<and> \<not> m_has_reflink m) 745,
            fail_when (flags2 AND XFS_DIFLAG2_REFLINK \<noteq> 0 \<and> ftype \<noteq> S_IFREG) 749,
            fail_when (flags2 AND XFS_DIFLAG2_REFLINK \<noteq> 0 \<and> flags AND XFS_DIFLAG_REALTIME \<noteq> 0 \<and>
              \<not> xfs_has_rtreflink m) 754,
            (if m_has_zoned (irt m) \<and> di_metatype dip = cpu_to_be16 XFS_METAFILE_RTRMAP then
               fail_when (be32_to_cpu (di_used_blocks dip) > sb_rgextents (irt m)) 759
             else xfs_inode_validate_cowextsize m (be32_to_cpu (di_cowextsize dip)) mode flags flags2),
            fail_when (xfs_dinode_has_bigtime dip \<and> \<not> m_has_bigtime m) 772,
            (if flags2 AND XFS_DIFLAG2_METADATA \<noteq> 0 then xfs_dinode_verify_metadir m dip mode flags flags2 else None),
            fail_when (XFS_DFORK_FORMAT dip XFS_DATA_FORK \<noteq> XFS_DINODE_FMT_META_BTREE \<and>
              nextents + naextents = 0 \<and> nblocks \<noteq> 0) 783])])"

definition xfs_dinode_calc_crc :: "ino_mount \<Rightarrow> xfs_dinode \<Rightarrow> xfs_dinode" where
  "xfs_dinode_calc_crc m dip =
     (if di_version dip < 3 then dip
      else let (_, crc) = xfs_start_cksum_update 0 (dinode_image dip) (unat (sb_inodesize m)) XFS_DINODE_CRC_OFF
           in dip\<lparr>di_crc := xfs_end_cksum crc\<rparr>)"

subsection \<open>To and from disk\<close>

definition set_di_flushiter :: "u16 \<Rightarrow> xfs_dinode \<Rightarrow> xfs_dinode" where
  "set_di_flushiter v d = d\<lparr>di_big_nextents := take_bit 48 (di_big_nextents d) OR push_bit 48 (ucast v)\<rparr>"

definition zero_di_v2_pad :: "xfs_dinode \<Rightarrow> xfs_dinode" where
  "zero_di_v2_pad d = d\<lparr>di_big_nextents := push_bit 48 (drop_bit 48 (di_big_nextents d))\<rparr>"

definition set_i_flushiter :: "u16 \<Rightarrow> xfs_inode \<Rightarrow> xfs_inode" where
  "set_i_flushiter v ip = ip\<lparr>i_cowextsize := push_bit 16 (drop_bit 16 (i_cowextsize ip)) OR ucast v\<rparr>"

definition xfs_inode_to_disk_iext_counters :: "xfs_inode \<Rightarrow> xfs_dinode \<Rightarrow> xfs_dinode" where
  "xfs_inode_to_disk_iext_counters ip to =
     (if xfs_inode_has_large_extent_counts ip then
        to\<lparr>di_big_nextents := cpu_to_be64 (if_nextents (i_df ip)),
           di_nextents := cpu_to_be32 (ucast (if_nextents (i_af ip))),
           di_anextents := cpu_to_be16 0\<rparr>
      else
        to\<lparr>di_nextents := cpu_to_be32 (ucast (if_nextents (i_df ip))),
           di_anextents := cpu_to_be16 (ucast (if_nextents (i_af ip)))\<rparr>)"

definition xfs_inode_to_disk :: "ino_mount \<Rightarrow> xfs_inode \<Rightarrow> xfs_dinode \<Rightarrow> u64 \<Rightarrow> xfs_dinode" where
  "xfs_inode_to_disk m ip to lsn =
     (let to = to\<lparr>di_magic := cpu_to_be16 XFS_DINODE_MAGIC,
            di_metatype := (if xfs_is_metadir_inode ip then cpu_to_be16 (ucast (i_metatype ip)) else 0),
            di_format := if_format (i_df ip),
            di_uid := cpu_to_be32 (i_uid ip),
            di_gid := cpu_to_be32 (i_gid ip),
            di_projid_lo := cpu_to_be16 (ucast (i_projid ip AND 0xffff)),
            di_projid_hi := cpu_to_be16 (ucast (drop_bit 16 (i_projid ip))),
            di_atime := xfs_inode_to_disk_ts ip (i_atime ip),
            di_mtime := xfs_inode_to_disk_ts ip (i_mtime ip),
            di_ctime := xfs_inode_to_disk_ts ip (i_ctime ip),
            di_nlink := cpu_to_be32 (i_nlink ip),
            di_gen := cpu_to_be32 (i_generation ip),
            di_mode := cpu_to_be16 (ucast (i_mode ip)),
            di_size := cpu_to_be64 (i_disk_size ip),
            di_nblocks := cpu_to_be64 (i_nblocks ip),
            di_extsize := cpu_to_be32 (i_extsize ip),
            di_forkoff := i_forkoff ip,
            di_aformat := if_format (i_af ip),
            di_flags := cpu_to_be16 (i_diflags ip)\<rparr>;
          to = (if m_has_v3inodes m then
                  to\<lparr>di_version := 3,
                     di_changecount := cpu_to_be64 (i_version ip),
                     di_crtime := xfs_inode_to_disk_ts ip (i_crtime ip),
                     di_flags2 := cpu_to_be64 (i_diflags2 ip),
                     di_cowextsize := cpu_to_be32 (i_cowextsize ip),
                     di_ino := cpu_to_be64 (i_ino ip),
                     di_lsn := cpu_to_be64 lsn,
                     di_pad2 := replicate 12 0,
                     di_uuid := sb_meta_uuid m,
                     di_big_nextents := 0\<rparr>
                else zero_di_v2_pad (set_di_flushiter (cpu_to_be16 (i_flushiter ip)) (to\<lparr>di_version := 2\<rparr>)))
      in xfs_inode_to_disk_iext_counters ip to)"

text \<open>
  The inode core of \<^verbatim>\<open>xfs_inode_from_disk\<close>: everything up to the two calls that format the forks. The
  result is the error, or the inode as it is passed to \<^verbatim>\<open>xfs_iformat_data_fork\<close>; an unused inode, whose mode
  is zero, is returned after its generation and mode have been set. The flag \<^verbatim>\<open>XFS_IPRESERVE_DM_FIELDS\<close>, set for
  leftover data management fields, has no place in the state: \<^verbatim>\<open>xfs_iflags_set\<close> is an empty macro of \<^verbatim>\<open>libxfs_priv.h\<close>.
\<close>

definition xfs_inode_from_disk_core :: "ino_mount \<Rightarrow> xfs_inode \<Rightarrow> xfs_dinode \<Rightarrow> xfs_inode result" where
  "xfs_inode_from_disk_core m ip from =
     (if xfs_dinode_verify m (i_ino ip) from \<noteq> None then Inl EFSCORRUPTED
      else
        let ip = (if \<not> m_has_v3inodes m then set_i_flushiter (be16_to_cpu (di_flushiter from)) ip else ip);
            ip = ip\<lparr>i_generation := be32_to_cpu (di_gen from), i_mode := ucast (be16_to_cpu (di_mode from))\<rparr>
        in if i_mode ip = 0 then Inr ip
           else
             let ip = (if di_version from = 1 then
                         ip\<lparr>i_nlink := ucast (be16_to_cpu (di_metatype from)), i_projid := 0\<rparr>
                       else
                         let ip = ip\<lparr>i_nlink := be32_to_cpu (di_nlink from),
                                     i_projid := push_bit 16 (ucast (be16_to_cpu (di_projid_hi from))) OR
                                       ucast (be16_to_cpu (di_projid_lo from))\<rparr>
                         in if xfs_dinode_is_metadir from
                            then ip\<lparr>i_metatype := ucast (be16_to_cpu (di_metatype from))\<rparr> else ip);
                 ip = ip\<lparr>i_uid := be32_to_cpu (di_uid from),
                         i_gid := be32_to_cpu (di_gid from),
                         i_atime := xfs_inode_from_disk_ts from (di_atime from),
                         i_mtime := xfs_inode_from_disk_ts from (di_mtime from),
                         i_ctime := xfs_inode_from_disk_ts from (di_ctime from),
                         i_disk_size := be64_to_cpu (di_size from),
                         i_nblocks := be64_to_cpu (di_nblocks from),
                         i_extsize := be32_to_cpu (di_extsize from),
                         i_forkoff := di_forkoff from,
                         i_diflags := be16_to_cpu (di_flags from),
                         i_next_unlinked := be32_to_cpu (di_next_unlinked from)\<rparr>
             in Inr (if m_has_v3inodes m then
                       ip\<lparr>i_version := be64_to_cpu (di_changecount from),
                          i_crtime := xfs_inode_from_disk_ts from (di_crtime from),
                          i_diflags2 := be64_to_cpu (di_flags2 from),
                          i_cowextsize := be32_to_cpu (di_cowextsize from)\<rparr>
                     else ip))"

subsection \<open>Inode buffers\<close>

record xfs_perag =
  agino_min :: u32
  agino_max :: u32

text \<open>\<open>b_dinodes ! i\<close> is the inode at byte \<^verbatim>\<open>i << sb_inodelog\<close> of the buffer; \<open>b_error\<close> is none for 0.\<close>

record inode_buf =
  b_dinodes :: "xfs_dinode list"
  b_length :: u32
  b_pag :: xfs_perag
  b_done :: bool
  b_error :: "errno option"

definition NULLAGINO :: u32 where "NULLAGINO = - 1"

definition xfs_verify_agino :: "xfs_perag \<Rightarrow> u32 \<Rightarrow> bool" where
  "xfs_verify_agino pag agino = (if agino < agino_min pag then False else if agino > agino_max pag then False else True)"

definition xfs_verify_agino_or_null :: "xfs_perag \<Rightarrow> u32 \<Rightarrow> bool" where
  "xfs_verify_agino_or_null pag agino = (if agino = NULLAGINO then True else xfs_verify_agino pag agino)"

definition xfs_dinode_good_version :: "ino_mount \<Rightarrow> u8 \<Rightarrow> bool" where
  "xfs_dinode_good_version m version = (if m_has_v3inodes m then version = 3 else version = 1 \<or> version = 2)"

definition XFS_BB_TO_FSB :: "ino_mount \<Rightarrow> u32 \<Rightarrow> u32" where
  "XFS_BB_TO_FSB m bb = drop_bit (m_blkbb_log (m_fs m)) (bb + (push_bit (m_blkbb_log (m_fs m)) 1 - 1))"

definition di_ok :: "ino_mount \<Rightarrow> xfs_perag \<Rightarrow> xfs_dinode \<Rightarrow> bool" where
  "di_ok m pag dip \<longleftrightarrow>
     di_magic dip = cpu_to_be16 XFS_DINODE_MAGIC \<and> xfs_dinode_good_version m (di_version dip) \<and>
     xfs_verify_agino_or_null pag (be32_to_cpu (di_next_unlinked dip))"

text \<open>\<open>n\<close> inodes from the \<open>i\<close>-th on; an inode outside the buffer is \<open>None\<close>.\<close>

fun inode_buf_loop :: "ino_mount \<Rightarrow> bool \<Rightarrow> nat \<Rightarrow> nat \<Rightarrow> inode_buf \<Rightarrow> inode_buf option" where
  "inode_buf_loop m readahead i 0 bp = Some bp"
| "inode_buf_loop m readahead i (Suc n) bp =
     (if i \<ge> length (b_dinodes bp) then None
      else if \<not> di_ok m (b_pag bp) (b_dinodes bp ! i) then
        if readahead then Some (bp\<lparr>b_done := False, b_error := Some EIO\<rparr>)
        else Some (bp\<lparr>b_error := Some EFSCORRUPTED\<rparr>)
      else inode_buf_loop m readahead (Suc i) n bp)"

definition xfs_inode_buf_verify :: "ino_mount \<Rightarrow> inode_buf \<Rightarrow> bool \<Rightarrow> inode_buf option" where
  "xfs_inode_buf_verify m bp readahead =
     (let ni = XFS_BB_TO_FSB m (b_length bp) * ucast (sb_inopblock m)
      in inode_buf_loop m readahead 0 (unat ni) bp)"

definition xfs_inode_buf_read_verify :: "ino_mount \<Rightarrow> inode_buf \<Rightarrow> inode_buf option" where
  "xfs_inode_buf_read_verify m bp = xfs_inode_buf_verify m bp False"

definition xfs_inode_buf_readahead_verify :: "ino_mount \<Rightarrow> inode_buf \<Rightarrow> inode_buf option" where
  "xfs_inode_buf_readahead_verify m bp = xfs_inode_buf_verify m bp True"

definition xfs_inode_buf_write_verify :: "ino_mount \<Rightarrow> inode_buf \<Rightarrow> inode_buf option" where
  "xfs_inode_buf_write_verify m bp = xfs_inode_buf_verify m bp False"

end
