(* ===== verification/Inode_Correct.thy ===== *)
theory Inode_Correct
  imports Inode_Buf
begin

text \<open>
  Correctness of the inode conversions and verifiers: the two timestamp formats are bijections
  with their ranges of times, the inode core survives a write and a read, the checksum that is
  stamped is the one that is checked, and an inode that passes the verifier has forks that fit.
\<close>

section \<open>Timestamps\<close>

definition bigtime_ok :: "timespec64 \<Rightarrow> bool" where
  "bigtime_ok tv \<longleftrightarrow> - (2 ^ 31) \<le> sint (tv_sec tv) \<and> 0 \<le> sint (tv_nsec tv) \<and> sint (tv_nsec tv) < 10 ^ 9 \<and>
     (sint (tv_sec tv) + 2 ^ 31) * 10 ^ 9 + sint (tv_nsec tv) < 2 ^ 64"

definition legacy_ok :: "timespec64 \<Rightarrow> bool" where
  "legacy_ok tv \<longleftrightarrow> - (2 ^ 31) \<le> sint (tv_sec tv) \<and> sint (tv_sec tv) < 2 ^ 31 \<and>
     - (2 ^ 31) \<le> sint (tv_nsec tv) \<and> sint (tv_nsec tv) < 2 ^ 31"

definition encode_legacy :: "timespec64 \<Rightarrow> u64" where
  "encode_legacy tv = lts_make (cpu_to_be32 (ucast (tv_sec tv))) (cpu_to_be32 (ucast (tv_nsec tv)))"

definition decode_legacy :: "u64 \<Rightarrow> timespec64" where
  "decode_legacy ts = \<lparr>tv_sec = scast (be32_to_cpu (lts_t_sec ts)), tv_nsec = scast (be32_to_cpu (lts_t_nsec ts))\<rparr>"

lemma lts_parts: "lts_t_sec (lts_make s n) = s" "lts_t_nsec (lts_make s n) = n"
  by (auto simp: lts_t_sec_def lts_t_nsec_def lts_make_def bit_eq_iff bit_simps dest: u32_bit_lt)

lemma lts_whole: "lts_make (lts_t_sec ts) (lts_t_nsec ts) = ts"
  by (rule bit_word_eqI) (auto simp: lts_t_sec_def lts_t_nsec_def lts_make_def bit_simps not_less)

lemma sint_scast_32_64: "sint (scast (w :: u32) :: u64) = sint w"
  by (rule bit_eqI) (auto simp: bit_simps min_def)

lemma sint_ucast_64_32: "sint (ucast (w :: u64) :: u32) = signed_take_bit 31 (sint w)"
  by (rule bit_eqI) (auto simp: bit_simps min_def)

lemma scast_ucast_32:
  assumes "- (2 ^ 31) \<le> sint (w :: u64)" "sint w < 2 ^ 31"
  shows "scast (ucast w :: u32) = w"
proof -
  have "sint (scast (ucast w :: u32) :: u64) = sint w"
    unfolding sint_scast_32_64 sint_ucast_64_32 by (rule signed_take_bit_int_eq_self) (use assms in simp_all)
  then show ?thesis by (rule signed_word_eqI)
qed

lemma ucast_scast_32: "(ucast (scast (w :: u32) :: u64) :: u32) = w"
  by (auto simp: bit_eq_iff bit_simps)

interpretation legacy_ts: disk_format encode_legacy decode_legacy legacy_ok
proof
  fix tv assume "legacy_ok tv"
  then show "decode_legacy (encode_legacy tv) = tv"
    by (simp add: legacy_ok_def encode_legacy_def decode_legacy_def lts_parts scast_ucast_32)
next
  fix ts :: u64
  show "encode_legacy (decode_legacy ts) = ts"
    by (simp add: encode_legacy_def decode_legacy_def ucast_scast_32 lts_whole)
  show "legacy_ok (decode_legacy ts)"
    using sint_range_size [of "be32_to_cpu (lts_t_sec ts)"] sint_range_size [of "be32_to_cpu (lts_t_nsec ts)"]
    by (simp add: legacy_ok_def decode_legacy_def sint_scast_32_64 word_size)
qed

text \<open>A 64-bit count of nanoseconds splits into seconds and nanoseconds.\<close>

lemma bigtime_seconds:
  assumes "bigtime_ok tv"
  shows "uint (xfs_inode_encode_bigtime tv) = (sint (tv_sec tv) + 2 ^ 31) * 10 ^ 9 + sint (tv_nsec tv)"
proof -
  let ?v = "(sint (tv_sec tv) + 2 ^ 31) * 10 ^ 9 + sint (tv_nsec tv)"
  have "xfs_inode_encode_bigtime tv = word_of_int ?v"
    by (simp add: xfs_inode_encode_bigtime_def xfs_unix_to_bigtime_def XFS_BIGTIME_EPOCH_OFFSET_def NSEC_PER_SEC_def)
  moreover have "0 \<le> ?v" "?v < 2 ^ 64" using assms by (simp_all add: bigtime_ok_def)
  then have "?v mod 2 ^ LENGTH(64) = ?v" by (intro mod_pos_pos_trivial) simp_all
  ultimately show ?thesis by (simp only: uint_word_of_int)
qed

lemma nsec_value: "uint (ucast (ucast (ts mod NSEC_PER_SEC) :: u32) :: u64) = uint ts mod 10 ^ 9" for ts :: u64
proof -
  have "uint (ts mod NSEC_PER_SEC) = uint ts mod 10 ^ 9" by (simp add: NSEC_PER_SEC_def uint_mod)
  moreover have "uint ts mod 10 ^ 9 < 10 ^ 9" by simp
  ultimately show ?thesis by (simp add: unsigned_ucast_eq unsigned_take_bit_eq take_bit_int_eq_self)
qed

lemma decode_bigtime_int:
  "xfs_inode_decode_bigtime ts =
     \<lparr>tv_sec = word_of_int (uint ts div 10 ^ 9 - 2 ^ 31), tv_nsec = word_of_int (uint ts mod 10 ^ 9)\<rparr>"
proof -
  have "ts div NSEC_PER_SEC = word_of_int (uint ts div 10 ^ 9)"
    by (simp add: NSEC_PER_SEC_def word_div_def)
  then show ?thesis
    using nsec_value [of ts]
    by (simp add: xfs_inode_decode_bigtime_def xfs_bigtime_to_unix_def XFS_BIGTIME_EPOCH_OFFSET_def)
      (metis word_of_int_uint)
qed

lemma sint_word_of_int_64: "- (2 ^ 63) \<le> k \<Longrightarrow> k < 2 ^ 63 \<Longrightarrow> sint (word_of_int k :: u64) = k"
  by (simp add: sint_sbintrunc' signed_take_bit_int_eq_self)

lemma split_units:
  fixes a n k :: int
  assumes "0 \<le> n" "n < k"
  shows "(a * k + n) div k = a" and "(a * k + n) mod k = n"
  using assms by (simp_all add: div_add1_eq [of _ n])

interpretation bigtime_ts: disk_format xfs_inode_encode_bigtime xfs_inode_decode_bigtime bigtime_ok
proof
  fix tv assume tv: "bigtime_ok tv"
  have "uint (xfs_inode_encode_bigtime tv) div 10 ^ 9 = sint (tv_sec tv) + 2 ^ 31"
    "uint (xfs_inode_encode_bigtime tv) mod 10 ^ 9 = sint (tv_nsec tv)"
    using tv unfolding bigtime_seconds [OF tv] by (auto simp only: bigtime_ok_def split_units)
  then show "xfs_inode_decode_bigtime (xfs_inode_encode_bigtime tv) = tv"
    by (simp add: decode_bigtime_int)
next
  fix ts :: u64
  let ?s = "uint ts div 10 ^ 9 - 2 ^ 31" and ?n = "uint ts mod 10 ^ 9"
  have t: "uint ts < 2 ^ 64" using uint_lt2p [of ts] by simp
  have r: "- (2 ^ 31) \<le> ?s" "?s < 2 ^ 63" "0 \<le> ?n" "?n < 2 ^ 63" using t pos_imp_zdiv_nonneg_iff [of "10 ^ 9" "uint ts"] by auto
  have s: "sint (word_of_int ?s :: u64) = ?s" by (rule sint_word_of_int_64) (use r in simp_all)
  have n: "sint (word_of_int ?n :: u64) = ?n" by (rule sint_word_of_int_64) (use r in simp_all)
  have sum: "(?s + 2 ^ 31) * 10 ^ 9 + ?n = uint ts" by simp
  show ok: "bigtime_ok (xfs_inode_decode_bigtime ts)"
    unfolding bigtime_ok_def decode_bigtime_int timespec64.simps s n sum using r t by simp
  show "xfs_inode_encode_bigtime (xfs_inode_decode_bigtime ts) = ts"
    using bigtime_seconds [OF ok] unfolding decode_bigtime_int timespec64.simps s n sum by (simp only: word_uint_eq_iff)
qed

definition ts_ok :: "xfs_inode \<Rightarrow> timespec64 \<Rightarrow> bool" where
  "ts_ok ip tv \<longleftrightarrow> (if xfs_inode_has_bigtime ip then bigtime_ok tv else legacy_ok tv)"

lemma disk_ts_formats:
  "xfs_inode_to_disk_ts ip tv =
     (if xfs_inode_has_bigtime ip then cpu_to_be64 (xfs_inode_encode_bigtime tv) else encode_legacy tv)"
  "xfs_inode_from_disk_ts dip ts =
     (if xfs_dinode_has_bigtime dip then xfs_inode_decode_bigtime (be64_to_cpu ts) else decode_legacy ts)"
  by (simp_all add: xfs_inode_to_disk_ts_def encode_legacy_def xfs_inode_from_disk_ts_def decode_legacy_def)

lemma disk_ts_from_to:
  assumes "xfs_dinode_has_bigtime dip = xfs_inode_has_bigtime ip" and "ts_ok ip tv"
  shows "xfs_inode_from_disk_ts dip (xfs_inode_to_disk_ts ip tv) = tv"
  using assms bigtime_ts.from_to legacy_ts.from_to by (simp add: disk_ts_formats ts_ok_def)

lemma disk_ts_to_from:
  assumes "xfs_dinode_has_bigtime dip = xfs_inode_has_bigtime ip"
  shows "xfs_inode_to_disk_ts ip (xfs_inode_from_disk_ts dip ts) = ts"
  using assms bigtime_ts.to_from legacy_ts.to_from by (simp add: disk_ts_formats)

section \<open>The checksum of an inode\<close>

lemma length_native_bytes [simp]: "length (native_bytes16 v) = 2" "length (native_bytes64 w) = 8"
  by (simp_all add: native_bytes16_def native_bytes64_def)

lemma length_dinode_head [simp]: "length (dinode_head d) = XFS_DINODE_CRC_OFF"
  by (simp add: dinode_head_def XFS_DINODE_CRC_OFF_def)

lemma dinode_parts_crc [simp]: "dinode_head (d\<lparr>di_crc := c\<rparr>) = dinode_head d" "dinode_tail (d\<lparr>di_crc := c\<rparr>) = dinode_tail d"
  by (simp_all add: dinode_head_def dinode_tail_def)

interpretation dinode: checksummed dinode_image "\<lambda>c d. d\<lparr>di_crc := c\<rparr>" XFS_DINODE_CRC_OFF
  by unfold_locales (simp add: dinode_image_def store_u32_def)

lemma calc_crc_stamp:
  "xfs_dinode_calc_crc m d = (if di_version d < 3 then d else dinode.stamp 0 (unat (sb_inodesize m)) d)"
  by (simp add: xfs_dinode_calc_crc_def dinode.stamp_def split: prod.splits)

lemma calc_crc_update: "\<exists>c. xfs_dinode_calc_crc m d = d\<lparr>di_crc := c\<rparr>"
proof (cases "di_version d < 3")
  case True
  then have "xfs_dinode_calc_crc m d = d\<lparr>di_crc := di_crc d\<rparr>" by (simp add: xfs_dinode_calc_crc_def)
  then show ?thesis ..
qed (auto simp: calc_crc_stamp dinode.stamp_def)

text \<open>An inode of the size of the file system's inodes.\<close>

definition dinode_fits :: "ino_mount \<Rightarrow> xfs_dinode \<Rightarrow> bool" where
  "dinode_fits m d \<longleftrightarrow> 176 < unat (sb_inodesize m) \<and> length (dinode_image d) = unat (sb_inodesize m)"

lemma calc_crc_verifies:
  assumes "dinode_fits m d" and "\<not> di_version d < 3"
  shows "xfs_verify_cksum a z (dinode_image (xfs_dinode_calc_crc m d)) (unat (sb_inodesize m)) XFS_DINODE_CRC_OFF"
proof -
  have "XFS_DINODE_CRC_OFF + 4 \<le> unat (sb_inodesize m)" "unat (sb_inodesize m) \<le> length (dinode_image d)"
    using assms(1) by (auto simp: dinode_fits_def XFS_DINODE_CRC_OFF_def)
  from dinode.stamp_verifies [OF this] assms(2) show ?thesis by (simp add: calc_crc_stamp)
qed

section \<open>The inode core survives a write and a read\<close>

lemma swab64_and: "swab64 (a AND b) = swab64 a AND swab64 b"
  by (rule bit_word_eqI) (auto simp: bit_swab64 bit_simps)

lemma swab64_0 [simp]: "swab64 0 = 0"
  by (rule bit_word_eqI) (simp add: bit_swab64)

lemma be64_and_zero: "cpu_to_be64 a AND cpu_to_be64 b = 0 \<longleftrightarrow> a AND b = 0"
proof -
  have "cpu_to_be64 a AND cpu_to_be64 b = swab64 (a AND b)" by (simp add: cpu_to_be64_def swab64_and)
  then show ?thesis by (metis swab64_0 swab64_swab64)
qed

lemmas to_disk_defs = xfs_inode_to_disk_def Let_def xfs_inode_to_disk_iext_counters_def zero_di_v2_pad_def set_di_flushiter_def

lemma to_disk_core:
  "di_magic (xfs_inode_to_disk m ip to lsn) = cpu_to_be16 XFS_DINODE_MAGIC"
  "di_metatype (xfs_inode_to_disk m ip to lsn) = (if xfs_is_metadir_inode ip then cpu_to_be16 (ucast (i_metatype ip)) else 0)"
  "di_uid (xfs_inode_to_disk m ip to lsn) = cpu_to_be32 (i_uid ip)"
  "di_gid (xfs_inode_to_disk m ip to lsn) = cpu_to_be32 (i_gid ip)"
  "di_projid_lo (xfs_inode_to_disk m ip to lsn) = cpu_to_be16 (ucast (i_projid ip AND 0xffff))"
  "di_projid_hi (xfs_inode_to_disk m ip to lsn) = cpu_to_be16 (ucast (drop_bit 16 (i_projid ip)))"
  "di_atime (xfs_inode_to_disk m ip to lsn) = xfs_inode_to_disk_ts ip (i_atime ip)"
  "di_mtime (xfs_inode_to_disk m ip to lsn) = xfs_inode_to_disk_ts ip (i_mtime ip)"
  "di_ctime (xfs_inode_to_disk m ip to lsn) = xfs_inode_to_disk_ts ip (i_ctime ip)"
  "di_nlink (xfs_inode_to_disk m ip to lsn) = cpu_to_be32 (i_nlink ip)"
  "di_gen (xfs_inode_to_disk m ip to lsn) = cpu_to_be32 (i_generation ip)"
  "di_mode (xfs_inode_to_disk m ip to lsn) = cpu_to_be16 (ucast (i_mode ip))"
  "di_size (xfs_inode_to_disk m ip to lsn) = cpu_to_be64 (i_disk_size ip)"
  "di_nblocks (xfs_inode_to_disk m ip to lsn) = cpu_to_be64 (i_nblocks ip)"
  "di_extsize (xfs_inode_to_disk m ip to lsn) = cpu_to_be32 (i_extsize ip)"
  "di_forkoff (xfs_inode_to_disk m ip to lsn) = i_forkoff ip"
  "di_flags (xfs_inode_to_disk m ip to lsn) = cpu_to_be16 (i_diflags ip)"
  "di_next_unlinked (xfs_inode_to_disk m ip to lsn) = di_next_unlinked to"
  "di_version (xfs_inode_to_disk m ip to lsn) = (if m_has_v3inodes m then 3 else 2)"
  by (simp_all add: to_disk_defs)

lemma to_disk_v3:
  assumes "m_has_v3inodes m"
  shows "di_changecount (xfs_inode_to_disk m ip to lsn) = cpu_to_be64 (i_version ip)"
    and "di_crtime (xfs_inode_to_disk m ip to lsn) = xfs_inode_to_disk_ts ip (i_crtime ip)"
    and "di_flags2 (xfs_inode_to_disk m ip to lsn) = cpu_to_be64 (i_diflags2 ip)"
    and "di_cowextsize (xfs_inode_to_disk m ip to lsn) = cpu_to_be32 (i_cowextsize ip)"
    and "di_ino (xfs_inode_to_disk m ip to lsn) = cpu_to_be64 (i_ino ip)"
    and "di_uuid (xfs_inode_to_disk m ip to lsn) = sb_meta_uuid m"
  using assms by (simp_all add: to_disk_defs)

lemma to_disk_flushiter:
  assumes "\<not> m_has_v3inodes m" and "i_diflags2 ip = 0"
  shows "di_flushiter (xfs_inode_to_disk m ip to lsn) = cpu_to_be16 (i_flushiter ip)"
proof -
  have "di_big_nextents (xfs_inode_to_disk m ip to lsn) =
      push_bit 48 (drop_bit 48 (take_bit 48 (di_big_nextents to) OR push_bit 48 (ucast (cpu_to_be16 (i_flushiter ip)))))"
    using assms by (simp add: to_disk_defs xfs_inode_has_large_extent_counts_def)
  then show ?thesis unfolding di_flushiter_def by (auto simp: bit_eq_iff bit_simps dest: bit_imp_le_length)
qed

lemma projid_halves: "push_bit 16 (ucast (ucast (drop_bit 16 p) :: u16)) OR ucast (ucast (p AND 0xffff) :: u16) = (p :: u32)"
proof -
  have "(0xffff :: u32) = mask 16" by (simp add: mask_eq_exp_minus_1)
  then show ?thesis by (simp only:) (auto simp: bit_eq_iff bit_simps not_less)
qed

lemma flushiter_after: "i_flushiter (set_i_flushiter v ip) = v"
  by (auto simp: i_flushiter_def set_i_flushiter_def bit_eq_iff bit_simps dest: bit_imp_le_length)

text \<open>
  The part of an in-core inode that its on-disk form holds: the version-3 fields on a file system with
  version-3 inodes and the flush counter on others, and the metadata file type of metadata files.
\<close>

definition inode_core :: "ino_mount \<Rightarrow> xfs_inode \<Rightarrow> xfs_inode" where
  "inode_core m ip =
     (let no_fork = \<lparr>if_format = 0, if_nextents = 0\<rparr>;
          ip = ip\<lparr>i_df := no_fork, i_af := no_fork,
                 i_metatype := (if m_has_v3inodes m \<and> xfs_is_metadir_inode ip then i_metatype ip else 0)\<rparr>
      in if m_has_v3inodes m then ip
         else ip\<lparr>i_diflags2 := 0, i_version := 0, i_crtime := \<lparr>tv_sec = 0, tv_nsec = 0\<rparr>,
                 i_cowextsize := ucast (i_flushiter ip)\<rparr>)"

text \<open>What the in-core inode has to satisfy to be represented: a 16-bit mode and times in range.\<close>

definition inode_ok :: "ino_mount \<Rightarrow> xfs_inode \<Rightarrow> bool" where
  "inode_ok m ip \<longleftrightarrow>
     i_mode ip \<noteq> 0 \<and> i_mode ip < 2 ^ 16 \<and> ts_ok ip (i_atime ip) \<and> ts_ok ip (i_mtime ip) \<and> ts_ok ip (i_ctime ip) \<and>
     (if m_has_v3inodes m then ts_ok ip (i_crtime ip) else i_diflags2 ip = 0)"

lemma mode_low: "w < 2 ^ 16 \<Longrightarrow> ucast (ucast (w :: u32) :: u16) = w"
  by (simp add: word_unat_eq_iff unsigned_ucast_eq take_bit_eq_mod word_less_nat_alt unat_mod)

lemma to_disk_flags:
  assumes "m_has_v3inodes m \<or> i_diflags2 ip = 0" and d: "d = (xfs_inode_to_disk m ip to lsn)\<lparr>di_crc := c\<rparr>"
  shows "xfs_dinode_has_bigtime d = xfs_inode_has_bigtime ip" and "xfs_dinode_is_metadir d = xfs_is_metadir_inode ip"
  using assms(1) unfolding d xfs_dinode_has_bigtime_def xfs_inode_has_bigtime_def xfs_dinode_is_metadir_def xfs_is_metadir_inode_def
  by (cases "m_has_v3inodes m"; simp add: to_disk_core to_disk_v3 be64_and_zero)+

lemma from_disk_to_disk:
  assumes ok: "inode_ok m ip" and ino: "i_ino ip0 = i_ino ip"
    and unl: "be32_to_cpu (di_next_unlinked to) = i_next_unlinked ip"
    and d: "d = (xfs_inode_to_disk m ip to lsn)\<lparr>di_crc := c\<rparr>"
    and v: "xfs_dinode_verify m (i_ino ip) d = None"
  shows "\<exists>ip1. xfs_inode_from_disk_core m ip0 d = Inr ip1 \<and> inode_core m ip1 = inode_core m ip"
proof -
  have fl: "xfs_dinode_has_bigtime d = xfs_inode_has_bigtime ip" "xfs_dinode_is_metadir d = xfs_is_metadir_inode ip"
    using to_disk_flags [OF _ d] ok by (auto simp: inode_ok_def split: if_splits)
  have mode: "ucast (ucast (i_mode ip) :: u16) = i_mode ip" "i_mode ip \<noteq> 0"
    using ok mode_low by (auto simp: inode_ok_def)
  note ts = disk_ts_from_to [OF fl(1)]
  have core: "be32_to_cpu (di_gen d) = i_generation ip" "ucast (be16_to_cpu (di_mode d)) = i_mode ip" "di_version d \<noteq> 1"
    "be32_to_cpu (di_nlink d) = i_nlink ip" "be32_to_cpu (di_uid d) = i_uid ip" "be32_to_cpu (di_gid d) = i_gid ip"
    "push_bit 16 (ucast (be16_to_cpu (di_projid_hi d))) OR ucast (be16_to_cpu (di_projid_lo d)) = i_projid ip"
    "be64_to_cpu (di_size d) = i_disk_size ip" "be64_to_cpu (di_nblocks d) = i_nblocks ip"
    "be32_to_cpu (di_extsize d) = i_extsize ip" "di_forkoff d = i_forkoff ip" "be16_to_cpu (di_flags d) = i_diflags ip"
    "be32_to_cpu (di_next_unlinked d) = i_next_unlinked ip"
    unfolding d using unl mode by (simp_all add: to_disk_core projid_halves)
  have times: "xfs_inode_from_disk_ts d (di_atime d) = i_atime ip" "xfs_inode_from_disk_ts d (di_mtime d) = i_mtime ip"
    "xfs_inode_from_disk_ts d (di_ctime d) = i_ctime ip"
    using ok ts by (simp_all add: d to_disk_core inode_ok_def)
  show ?thesis
  proof (cases "m_has_v3inodes m")
    case True
    have "be64_to_cpu (di_changecount d) = i_version ip" "be64_to_cpu (di_flags2 d) = i_diflags2 ip"
      "be32_to_cpu (di_cowextsize d) = i_cowextsize ip" "xfs_inode_from_disk_ts d (di_crtime d) = i_crtime ip"
      using ok ts by (simp_all add: d to_disk_v3 [OF True] inode_ok_def True)
    moreover have "xfs_is_metadir_inode ip \<Longrightarrow> ucast (be16_to_cpu (di_metatype d)) = i_metatype ip"
      by (auto simp: d to_disk_core bit_eq_iff bit_simps dest: bit_imp_le_length)
    ultimately show ?thesis using core times v ino mode fl True
      by (simp add: xfs_inode_from_disk_core_def inode_core_def Let_def xfs_is_metadir_inode_def)
  next
    case False
    then have z: "i_diflags2 ip = 0" using ok by (simp add: inode_ok_def)
    then have "\<not> xfs_dinode_is_metadir d" using fl by (simp add: xfs_is_metadir_inode_def)
    moreover have "be16_to_cpu (di_flushiter d) = i_flushiter ip"
      using to_disk_flushiter [OF False z] by (simp add: d di_flushiter_def)
    moreover have "i_flushiter (ip0'\<lparr>i_cowextsize := i_cowextsize (set_i_flushiter w ip1)\<rparr>) = w" for ip0' ip1 w
      using flushiter_after [of w ip1] by (simp add: i_flushiter_def)
    ultimately show ?thesis using core times v ino mode False z flushiter_after
      by (simp add: xfs_inode_from_disk_core_def inode_core_def Let_def i_flushiter_def set_i_flushiter_def)
  qed
qed

section \<open>Extent size hints\<close>

lemma first_fail_None [simp]: "first_fail (c # cs) = None \<longleftrightarrow> c = None \<and> first_fail cs = None"
  by (cases c) simp_all

lemma fail_when_None [simp]: "fail_when b line = None \<longleftrightarrow> \<not> b"
  by (simp add: fail_when_def)

lemma fsb_to_b32:
  assumes "sb_blocklog (irt m) \<le> 16"
  shows "unat (XFS_FSB_TO_B32 m x) = unat x * 2 ^ sb_blocklog (irt m) mod 2 ^ 32"
proof -
  let ?l = "sb_blocklog (irt m)"
  have "(2 :: nat) ^ ?l \<le> 2 ^ 16" using assms by (intro power_increasing) simp_all
  then have "unat x * 2 ^ ?l < 2 ^ 32 * 2 ^ 16" using u32_unat_bound [of x] by (intro mult_less_le_imp_less) simp_all
  then have "unat x * 2 ^ ?l < 2 ^ 64" by simp
  then have "take_bit LENGTH(64) (push_bit ?l (unat x)) = unat x * 2 ^ ?l"
    by (simp add: push_bit_eq_mult take_bit_nat_eq_self)
  then have "unat (push_bit ?l (ucast x :: u64)) = unat x * 2 ^ ?l"
    by (simp only: unsigned_push_bit_eq unat_ucast_32_64)
  then show ?thesis by (simp only: XFS_FSB_TO_B32_def unat_ucast_64_32)
qed

text \<open>Geometry of a mounted file system: block sizes of at most 64 KiB, realtime extents of less than 4 GiB.\<close>

definition hint_geometry :: "ino_mount \<Rightarrow> bool" where
  "hint_geometry m \<longleftrightarrow> sb_blocklog (irt m) \<le> 16 \<and> unat (sb_blocksize (irt m)) = 2 ^ sb_blocklog (irt m) \<and>
     0 < unat (sb_rextsize (irt m)) \<and> unat (sb_rextsize (irt m)) * 2 ^ sb_blocklog (irt m) < 2 ^ 32"

text \<open>A hint in whole allocation units, not longer than an extent, and half a group at most.\<close>

definition hint_size_ok :: "ino_mount \<Rightarrow> bool \<Rightarrow> u32 \<Rightarrow> bool" where
  "hint_size_ok m rt x \<longleftrightarrow> unat x < 2 ^ 21 \<and>
     (if rt then unat (sb_rextsize (irt m)) dvd unat x else 2 * unat x \<le> unat (sb_agblocks (m_fs m)))"

lemma hint_bytes_aligned:
  assumes g: "hint_geometry m" and fits: "rt \<Longrightarrow> unat x * 2 ^ sb_blocklog (irt m) < 2 ^ 32"
  shows "XFS_FSB_TO_B32 m x mod (if rt then XFS_FSB_TO_B32 m (sb_rextsize (irt m)) else sb_blocksize (irt m)) = 0 \<longleftrightarrow>
     (rt \<longrightarrow> unat (sb_rextsize (irt m)) dvd unat x)"
proof -
  let ?l = "sb_blocklog (irt m)"
  have l: "?l \<le> 16" using g by (simp add: hint_geometry_def)
  have zero: "a mod b = 0 \<longleftrightarrow> unat b dvd unat a" for a b :: u32
    by (simp add: word_unat_eq_iff unat_mod dvd_eq_mod_eq_0)
  show ?thesis
  proof (cases rt)
    case True
    have "unat (XFS_FSB_TO_B32 m x) = unat x * 2 ^ ?l"
      "unat (XFS_FSB_TO_B32 m (sb_rextsize (irt m))) = unat (sb_rextsize (irt m)) * 2 ^ ?l"
      using g fits True by (simp_all add: fsb_to_b32 [OF l] hint_geometry_def)
    with True show ?thesis by (simp add: zero)
  next
    case False
    have "(2 :: nat) ^ ?l dvd 2 ^ 32" using l by (intro le_imp_power_dvd) simp
    then have "2 ^ ?l dvd unat x * 2 ^ ?l mod 2 ^ 32" by (simp add: dvd_mod_iff)
    with False g show ?thesis by (simp add: zero fsb_to_b32 [OF l] hint_geometry_def)
  qed
qed

lemma hint_checks:
  assumes "hint_geometry m" and "rt \<Longrightarrow> unat x * 2 ^ sb_blocklog (irt m) < 2 ^ 32"
  shows "XFS_FSB_TO_B32 m x mod (if rt then XFS_FSB_TO_B32 m (sb_rextsize (irt m)) else sb_blocksize (irt m)) = 0 \<and>
     \<not> XFS_MAX_BMBT_EXTLEN < x \<and> (rt \<or> \<not> sb_agblocks (m_fs m) div 2 < x) \<longleftrightarrow> hint_size_ok m rt x"
proof -
  have "\<not> XFS_MAX_BMBT_EXTLEN < x \<longleftrightarrow> unat x < 2 ^ 21"
    by (simp add: XFS_MAX_BMBT_EXTLEN_def word_less_nat_alt not_less) linarith
  moreover have "\<not> sb_agblocks (m_fs m) div 2 < x \<longleftrightarrow> 2 * unat x \<le> unat (sb_agblocks (m_fs m))"
    by (simp add: word_less_nat_alt not_less unat_div) linarith
  ultimately show ?thesis by (auto simp only: hint_bytes_aligned [OF assms] hint_size_ok_def if_True if_False split: if_splits)
qed

section \<open>Inode buffers\<close>

lemma inode_buf_loop_ok:
  assumes "i + n \<le> length (b_dinodes bp)"
  shows "inode_buf_loop m ra i n bp = Some
     (if \<forall>d \<in> set (take n (drop i (b_dinodes bp))). di_ok m (b_pag bp) d then bp
      else if ra then bp\<lparr>b_done := False, b_error := Some EIO\<rparr> else bp\<lparr>b_error := Some EFSCORRUPTED\<rparr>)"
  using assms
proof (induction n arbitrary: i)
  case (Suc n)
  then have "drop i (b_dinodes bp) = b_dinodes bp ! i # drop (Suc i) (b_dinodes bp)"
    by (simp add: Cons_nth_drop_Suc)
  with Suc show ?case by (simp del: drop_Suc)
qed simp

section \<open>Forks of a verified inode\<close>

lemma unat_ucast_up:
  assumes "LENGTH('a::len) \<le> LENGTH('b::len)"
  shows "unat (ucast (x :: 'a word) :: 'b word) = unat x"
proof -
  have "unat x < 2 ^ LENGTH('b)" using unat_lt_2p [of x] assms by (meson less_le_trans one_le_numeral power_increasing)
  then show ?thesis by (simp add: unsigned_ucast_eq take_bit_nat_eq_self)
qed

lemma litino_value:
  assumes "xfs_dinode_good_version m (di_version dip)" and "256 \<le> unat (sb_inodesize m)"
  shows "unat (XFS_LITINO m) = unat (sb_inodesize m) - unat (xfs_dinode_size (di_version dip))"
    and "unat (xfs_dinode_size (di_version dip)) \<le> 176"
proof -
  have sz: "XFS_DINODE_SIZE m = xfs_dinode_size (di_version dip)"
    using assms(1) by (auto simp: xfs_dinode_good_version_def XFS_DINODE_SIZE_def xfs_dinode_size_def split: if_splits)
  show le: "unat (xfs_dinode_size (di_version dip)) \<le> 176"
    by (simp add: xfs_dinode_size_def XFS_DINODE_CRC_OFF_def)
  have "unat (ucast (sb_inodesize m) :: u64) = unat (sb_inodesize m)" by (rule unat_ucast_up) simp
  then show "unat (XFS_LITINO m) = unat (sb_inodesize m) - unat (xfs_dinode_size (di_version dip))"
    using le assms(2) by (simp only: XFS_LITINO_def sz) (subst unat_sub_le; simp add: word_le_nat_alt)
qed

lemma boff_value: "unat (XFS_DFORK_BOFF dip) = 8 * unat (di_forkoff dip)"
proof -
  have f: "unat (di_forkoff dip) < 256" using unat_lt_2p [of "di_forkoff dip"] by simp
  have "unat (ucast (di_forkoff dip) :: u64) = unat (di_forkoff dip)" by (rule unat_ucast_up) simp
  then have "unat (XFS_DFORK_BOFF dip) = take_bit LENGTH(64) (push_bit 3 (unat (di_forkoff dip)))"
    by (simp only: XFS_DFORK_BOFF_def unsigned_push_bit_eq)
  with f show ?thesis by (simp add: push_bit_eq_mult take_bit_nat_eq_self)
qed

text \<open>The forks share the literal area, whatever the offset of the attribute fork that was accepted.\<close>

lemma fork_sizes:
  assumes "xfs_dinode_verify_forkoff dip m = None"
    and "xfs_dinode_good_version m (di_version dip)" and "256 \<le> unat (sb_inodesize m)"
  shows "unat (XFS_DFORK_DSIZE dip m) + unat (XFS_DFORK_ASIZE dip m) = unat (XFS_LITINO m)"
proof (cases "di_forkoff dip = 0")
  case False
  note lit = litino_value [OF assms(2,3)]
  have up: "unat (ucast (di_forkoff dip) :: u64) = unat (di_forkoff dip)" by (rule unat_ucast_up) simp
  have "8 * unat (di_forkoff dip) \<le> unat (XFS_LITINO m)"
  proof (cases "(ucast (di_format dip) :: u32) = XFS_DINODE_FMT_DEV")
    case True
    then have "di_forkoff dip = 1" using assms(1) False by (simp add: xfs_dinode_verify_forkoff_def Let_def)
    then show ?thesis using lit assms(3) by simp
  next
    case dev: False
    have "\<not> drop_bit 3 (XFS_LITINO m) \<le> ucast (di_forkoff dip)"
      using assms(1) False dev by (auto simp: xfs_dinode_verify_forkoff_def Let_def split: if_splits)
    then have "unat (di_forkoff dip) < unat (XFS_LITINO m) div 8"
      using up unat_drop_64 [of 3 "XFS_LITINO m"] by (simp add: word_le_nat_alt)
    then show ?thesis by linarith
  qed
  then have "XFS_DFORK_BOFF dip \<le> XFS_LITINO m" by (simp add: word_le_nat_alt boff_value)
  with False show ?thesis by (simp add: XFS_DFORK_DSIZE_def XFS_DFORK_ASIZE_def unat_sub_le word_le_nat_alt)
qed (simp add: XFS_DFORK_DSIZE_def XFS_DFORK_ASIZE_def)

lemma maxext_bound: "n \<le> XFS_DFORK_MAXEXT dip m w \<Longrightarrow> 16 * unat n \<le> unat (XFS_DFORK_SIZE dip m w)"
  by (simp add: XFS_DFORK_MAXEXT_def word_le_nat_alt unat_div)

lemmas fmt_defs = XFS_DINODE_FMT_DEV_def XFS_DINODE_FMT_LOCAL_def XFS_DINODE_FMT_EXTENTS_def XFS_DINODE_FMT_BTREE_def
  XFS_DINODE_FMT_META_BTREE_def

lemma verify_fork_extents:
  assumes "xfs_dinode_verify_fork dip m w = None" and "XFS_DFORK_FORMAT dip w = XFS_DINODE_FMT_EXTENTS"
  shows "16 * unat (xfs_dfork_nextents dip w) \<le> unat (XFS_DFORK_SIZE dip m w)"
proof -
  have "xfs_dfork_nextents dip w \<le> XFS_DFORK_MAXEXT dip m w"
    using assms by (simp add: xfs_dinode_verify_fork_def Let_def fmt_defs not_less)
  then show ?thesis by (rule maxext_bound)
qed

lemma verify_fork_local:
  assumes "xfs_dinode_verify_fork dip m XFS_DATA_FORK = None" and "XFS_DFORK_FORMAT dip XFS_DATA_FORK = XFS_DINODE_FMT_LOCAL"
  shows "unat (be64_to_cpu (di_size dip)) \<le> unat (XFS_DFORK_DSIZE dip m)"
proof -
  have "be64_to_cpu (di_size dip) \<le> ucast (ucast (XFS_DFORK_SIZE dip m XFS_DATA_FORK) :: u32)"
    using assms by (simp add: xfs_dinode_verify_fork_def Let_def fmt_defs not_less)
  then have "unat (be64_to_cpu (di_size dip)) \<le> unat (ucast (XFS_DFORK_DSIZE dip m) :: u32)"
    by (simp add: word_le_nat_alt XFS_DFORK_SIZE_def)
  also have "\<dots> \<le> unat (XFS_DFORK_DSIZE dip m)" by (simp only: unat_ucast_64_32 mod_less_eq_dividend)
  finally show ?thesis .
qed

lemma attr_extents_bound: "unat (xfs_dfork_attr_extents dip) < 2 ^ 32"
proof -
  have "unat (ucast (be16_to_cpu (di_anextents dip)) :: u64) = unat (be16_to_cpu (di_anextents dip))"
    by (rule unat_ucast_up) simp
  then show ?thesis using u32_unat_bound unat_lt_2p [of "be16_to_cpu (di_anextents dip)"]
    by (simp add: xfs_dfork_attr_extents_def)
qed

lemma verify_fork_count:
  assumes "xfs_dinode_verify_fork dip m XFS_DATA_FORK = None"
    and "XFS_DFORK_FORMAT dip XFS_DATA_FORK \<noteq> XFS_DINODE_FMT_META_BTREE"
  shows "unat (xfs_dfork_data_extents dip) < 2 ^ 62"
proof -
  let ?n = "xfs_dfork_data_extents dip"
  consider "?n = 0" | "?n \<le> XFS_DFORK_MAXEXT dip m XFS_DATA_FORK"
    | "?n \<le> xfs_iext_max_nextents (xfs_dinode_has_large_extent_counts dip) XFS_DATA_FORK"
    using assms by (auto simp: xfs_dinode_verify_fork_def Let_def xfs_dfork_nextents_def not_less split: if_splits)
  then show ?thesis
  proof cases
    case 2
    then have "unat ?n \<le> unat (XFS_DFORK_MAXEXT dip m XFS_DATA_FORK)" by (simp add: word_le_nat_alt)
    also have "\<dots> \<le> unat (XFS_DFORK_SIZE dip m XFS_DATA_FORK) div 16" by (simp add: XFS_DFORK_MAXEXT_def unat_div)
    finally show ?thesis using u64_unat_bound [of "XFS_DFORK_SIZE dip m XFS_DATA_FORK"] by simp
  next
    case 3
    then show ?thesis by (auto simp: xfs_iext_max_nextents_def word_le_nat_alt split: if_splits)
  qed simp
qed

section \<open>Which checks can fail\<close>

definition avoids :: "nat set \<Rightarrow> xfs_failaddr_t \<Rightarrow> bool" where
  "avoids S fa \<longleftrightarrow> (\<forall>l \<in> S. fa \<noteq> Some l)"

lemma avoids_first_fail: "avoids S c \<Longrightarrow> avoids S (first_fail cs) \<Longrightarrow> avoids S (first_fail (c # cs))"
  by (cases c) simp_all

lemma avoids_None: "avoids S None" "avoids S (first_fail [])"
  by (simp_all add: avoids_def)

lemma avoids_Some: "l \<notin> S \<Longrightarrow> avoids S (Some l)"
  by (auto simp: avoids_def)

lemma avoids_fail_when: "(b \<Longrightarrow> l \<notin> S) \<Longrightarrow> avoids S (fail_when b l)"
  by (auto simp: avoids_def fail_when_def)

lemma avoids_if: "(b \<Longrightarrow> avoids S x) \<Longrightarrow> (\<not> b \<Longrightarrow> avoids S y) \<Longrightarrow> avoids S (if b then x else y)"
  by simp

lemmas avoids_intros = avoids_first_fail avoids_None avoids_Some avoids_fail_when avoids_if

abbreviation integrity_checks :: "nat set" where "integrity_checks \<equiv> {601, 606, 609, 611, 613}"

lemma other_checks:
  "avoids integrity_checks (xfs_dinode_verify_nrext64 m dip)"
  "avoids integrity_checks (xfs_dinode_verify_forkoff dip m)"
  "avoids integrity_checks (xfs_dinode_verify_fork dip m w)"
  "avoids integrity_checks (xfs_inode_validate_extsize m x mode flags)"
  "avoids integrity_checks (xfs_inode_validate_cowextsize m x mode flags flags2)"
  "avoids integrity_checks (xfs_dinode_verify_metadir m dip mode flags flags2)"
  unfolding xfs_dinode_verify_nrext64_def xfs_dinode_verify_forkoff_def xfs_dinode_verify_fork_def
    xfs_inode_validate_extsize_def xfs_inode_validate_cowextsize_def xfs_dinode_verify_metadir_def Let_def
  by (intro avoids_intros; simp)+

lemma integrity_ok:
  assumes "di_magic dip = cpu_to_be16 XFS_DINODE_MAGIC" and "m_has_v3inodes m"
    and "xfs_verify_cksum 0 0 (dinode_image dip) (unat (sb_inodesize m)) XFS_DINODE_CRC_OFF"
    and "be64_to_cpu (di_ino dip) = ino" and "di_uuid dip = sb_meta_uuid m"
  shows "avoids integrity_checks (xfs_dinode_verify m ino dip)"
  unfolding xfs_dinode_verify_def Let_def by (intro avoids_intros other_checks; use assms in simp)

section \<open>A concrete inode\<close>

text \<open>A file system with version 2 inodes of 256 bytes, and a regular file with two extents on it.\<close>

definition ino_example :: ino_mount where
  "ino_example = \<lparr>m_fs = fs_example, m_has_v3inodes = False, m_has_reflink = False, m_has_rmapbt = False,
     m_has_metadir = False, m_has_parent = False, m_has_bigtime = False, m_has_large_extent_counts = False,
     m_rtdev_targp = False, m_dir_max_extents = 100, sb_inodesize = 256, sb_inopblock = 16,
     sb_meta_uuid = replicate 16 1\<rparr>"

definition inode_example :: xfs_inode where
  "inode_example = \<lparr>i_ino = 131, i_df = \<lparr>if_format = 2, if_nextents = 2\<rparr>, i_af = \<lparr>if_format = 2, if_nextents = 0\<rparr>,
     i_disk_size = 9000, i_nblocks = 3, i_projid = 0x12345678, i_extsize = 0, i_cowextsize = 7, i_forkoff = 0,
     i_metatype = 0, i_diflags = 0, i_diflags2 = 0, i_crtime = \<lparr>tv_sec = 0, tv_nsec = 0\<rparr>,
     i_next_unlinked = NULLAGINO, i_mode = 0x81a4, i_uid = 1000, i_gid = 100, i_nlink = 1, i_generation = 5,
     i_version = 0, i_atime = \<lparr>tv_sec = 1000, tv_nsec = 5\<rparr>, i_mtime = \<lparr>tv_sec = - 1, tv_nsec = 0\<rparr>,
     i_ctime = \<lparr>tv_sec = 3, tv_nsec = 4\<rparr>\<rparr>"

definition dinode_example :: xfs_dinode where
  "dinode_example = \<lparr>di_magic = 0, di_mode = 0, di_version = 0, di_format = 0, di_metatype = 0, di_uid = 0,
     di_gid = 0, di_nlink = 0, di_projid_lo = 0, di_projid_hi = 0, di_big_nextents = 0, di_atime = 0, di_mtime = 0,
     di_ctime = 0, di_size = 0, di_nblocks = 0, di_extsize = 0, di_nextents = 0, di_anextents = 0, di_forkoff = 0,
     di_aformat = 0, di_dmevmask = 0, di_dmstate = 0, di_flags = 0, di_gen = 0, di_next_unlinked = NULLAGINO,
     di_crc = 0, di_changecount = 0, di_lsn = 0, di_flags2 = 0, di_cowextsize = 0, di_pad2 = replicate 12 0,
     di_crtime = 0, di_ino = 0, di_uuid = replicate 16 0, di_literal = replicate 80 0\<rparr>"

abbreviation written_example :: xfs_dinode where
  "written_example \<equiv> xfs_dinode_calc_crc ino_example (xfs_inode_to_disk ino_example inode_example dinode_example 0)"

lemma written_example_ok: "xfs_dinode_verify ino_example 131 written_example = None"
  by code_simp

section \<open>Properties\<close>

text \<open>
  Timestamps, in both on-disk formats: a time in the range of the format survives encoding and
  decoding, and every 64-bit image decodes to a time that encodes to it. The ranges are signed
  32-bit seconds for the legacy format and 64 bits of nanoseconds since 1901 for the big one.
\<close>

theorem inode_ts_roundtrip:
  assumes "xfs_dinode_has_bigtime dip = xfs_inode_has_bigtime ip" and "ts_ok ip tv"
  shows "xfs_inode_from_disk_ts dip (xfs_inode_to_disk_ts ip tv) = tv \<and>
     xfs_inode_to_disk_ts ip (xfs_inode_from_disk_ts dip ts) = ts"
  using disk_ts_from_to [OF assms] disk_ts_to_from [OF assms(1)] by blast

theorem inode_ts_roundtrip_witness:
  "xfs_inode_from_disk_ts dinode_example (xfs_inode_to_disk_ts inode_example \<lparr>tv_sec = - 5, tv_nsec = 7\<rparr>) =
     \<lparr>tv_sec = - 5, tv_nsec = 7\<rparr>"
  using inode_ts_roundtrip [of dinode_example inode_example "\<lparr>tv_sec = - 5, tv_nsec = 7\<rparr>"]
  by (simp add: xfs_dinode_has_bigtime_def xfs_inode_has_bigtime_def dinode_example_def inode_example_def ts_ok_def legacy_ok_def)

text \<open>
  C27. The inode core survives \<^verbatim>\<open>xfs_inode_to_disk\<close>, \<^verbatim>\<open>xfs_dinode_calc_crc\<close> and \<^verbatim>\<open>xfs_inode_from_disk\<close>: if the written
  inode passes the verifier, reading it into any in-core inode of the same number gives back every
  field that the format holds. The link to the next unlinked inode is not written by
  \<^verbatim>\<open>xfs_inode_to_disk\<close> and has to be in the buffer already.
\<close>

theorem inode_core_roundtrip:
  assumes "inode_ok m ip" and "i_ino ip0 = i_ino ip" and "be32_to_cpu (di_next_unlinked to) = i_next_unlinked ip"
    and "xfs_dinode_verify m (i_ino ip) (xfs_dinode_calc_crc m (xfs_inode_to_disk m ip to lsn)) = None"
  shows "map_sum id (inode_core m) (xfs_inode_from_disk_core m ip0 (xfs_dinode_calc_crc m (xfs_inode_to_disk m ip to lsn))) =
     Inr (inode_core m ip)"
proof -
  obtain c where "xfs_dinode_calc_crc m (xfs_inode_to_disk m ip to lsn) = (xfs_inode_to_disk m ip to lsn)\<lparr>di_crc := c\<rparr>"
    using calc_crc_update by blast
  from from_disk_to_disk [OF assms(1-3) this assms(4)] show ?thesis by auto
qed

theorem inode_core_roundtrip_witness:
  "map_sum id (inode_core ino_example) (xfs_inode_from_disk_core ino_example
      (inode_example\<lparr>i_projid := 0, i_uid := 0, i_mode := 0\<rparr>) written_example) = Inr (inode_core ino_example inode_example)"
proof -
  have "inode_ok ino_example inode_example"
    by (simp add: inode_ok_def inode_example_def ino_example_def ts_ok_def legacy_ok_def xfs_inode_has_bigtime_def)
  moreover have "be32_to_cpu (di_next_unlinked dinode_example) = i_next_unlinked inode_example" by code_simp
  moreover have "i_ino inode_example = 131" "i_ino (inode_example\<lparr>i_projid := 0, i_uid := 0, i_mode := 0\<rparr>) = 131"
    by (simp_all add: inode_example_def)
  ultimately show ?thesis using written_example_ok
    by (intro inode_core_roundtrip) simp_all
qed

text \<open>
  C28. An inode that the library writes on a file system with version 3 inodes passes the integrity
  checks of \<^verbatim>\<open>xfs_dinode_verify\<close> when it is read: magic, checksum, inode number and UUID. The checksum is
  right for every content of the inode and of its forks.
\<close>

theorem written_inode_integrity:
  assumes "m_has_v3inodes m" and "dinode_fits m (xfs_inode_to_disk m ip to lsn)"
  shows "xfs_dinode_verify m (i_ino ip) (xfs_dinode_calc_crc m (xfs_inode_to_disk m ip to lsn))
     \<notin> {Some 601, Some 606, Some 609, Some 611, Some 613}"
proof -
  let ?t = "xfs_inode_to_disk m ip to lsn"
  obtain c where c: "xfs_dinode_calc_crc m ?t = ?t\<lparr>di_crc := c\<rparr>" using calc_crc_update by blast
  have ck: "xfs_verify_cksum 0 0 (dinode_image (?t\<lparr>di_crc := c\<rparr>)) (unat (sb_inodesize m)) XFS_DINODE_CRC_OFF"
    using calc_crc_verifies [OF assms(2), of 0 0] c assms(1) by (simp add: to_disk_core)
  have "avoids integrity_checks (xfs_dinode_verify m (i_ino ip) (?t\<lparr>di_crc := c\<rparr>))"
    using assms(1) ck by (intro integrity_ok) (simp_all add: to_disk_core to_disk_v3)
  then show ?thesis unfolding c by (auto simp: avoids_def)
qed

theorem written_inode_integrity_witness:
  "xfs_dinode_verify (ino_example\<lparr>m_has_v3inodes := True\<rparr>) 131
     (xfs_dinode_calc_crc (ino_example\<lparr>m_has_v3inodes := True\<rparr>)
       (xfs_inode_to_disk (ino_example\<lparr>m_has_v3inodes := True\<rparr>) inode_example dinode_example 0)) \<noteq> Some 609"
proof -
  let ?m = "ino_example\<lparr>m_has_v3inodes := True\<rparr>"
  have "dinode_fits ?m (xfs_inode_to_disk ?m inode_example dinode_example 0)"
    by (simp add: dinode_fits_def dinode_image_def dinode_tail_def XFS_DINODE_CRC_OFF_def to_disk_defs
        dinode_example_def ino_example_def)
  moreover have "i_ino inode_example = 131" by (simp add: inode_example_def)
  ultimately show ?thesis using written_inode_integrity [of ?m inode_example dinode_example 0] by simp
qed

text \<open>
  C12. What \<^verbatim>\<open>xfs_dinode_verify\<close> promises to the code that reads the forks of a used inode. If the version
  of the inode is the one of the file system, which the buffer verifier checks, and inodes
  have at least 256 bytes, the core, the data fork and the attribute fork add up to the inode. Of
  every accepted inode, the records of a fork in extent format lie inside the fork, and so does
  the data of a local data fork (the verifier does not look at the size of a local attribute
  fork). Unless the data fork is a device number or a metadata btree, whose counts are not
  bounded, the two extent counts do not wrap when they are added and are covered by the blocks
  of the inode.
\<close>

theorem verified_forks_fit:
  assumes "xfs_dinode_verify m ino dip = None" and "be16_to_cpu (di_mode dip) \<noteq> 0"
  shows "(xfs_dinode_good_version m (di_version dip) \<and> 256 \<le> unat (sb_inodesize m) \<longrightarrow>
       unat (xfs_dinode_size (di_version dip)) + unat (XFS_DFORK_DSIZE dip m) + unat (XFS_DFORK_ASIZE dip m) =
       unat (sb_inodesize m)) \<and>
     (XFS_DFORK_FORMAT dip XFS_DATA_FORK = XFS_DINODE_FMT_EXTENTS \<longrightarrow>
       16 * unat (xfs_dfork_data_extents dip) \<le> unat (XFS_DFORK_DSIZE dip m)) \<and>
     (XFS_DFORK_FORMAT dip XFS_ATTR_FORK = XFS_DINODE_FMT_EXTENTS \<longrightarrow>
       16 * unat (xfs_dfork_attr_extents dip) \<le> unat (XFS_DFORK_ASIZE dip m)) \<and>
     (XFS_DFORK_FORMAT dip XFS_DATA_FORK = XFS_DINODE_FMT_LOCAL \<longrightarrow>
       unat (be64_to_cpu (di_size dip)) \<le> unat (XFS_DFORK_DSIZE dip m)) \<and>
     (XFS_DFORK_FORMAT dip XFS_DATA_FORK \<notin> {XFS_DINODE_FMT_DEV, XFS_DINODE_FMT_META_BTREE} \<longrightarrow>
       unat (xfs_dfork_data_extents dip) + unat (xfs_dfork_attr_extents dip) \<le> unat (be64_to_cpu (di_nblocks dip)))"
proof -
  let ?D = "XFS_DFORK_FORMAT dip XFS_DATA_FORK" and ?n = "xfs_dfork_data_extents dip" and ?a = "xfs_dfork_attr_extents dip"
  have v: "xfs_dinode_verify_forkoff dip m = None" "\<not> ?n + ?a > be64_to_cpu (di_nblocks dip)"
    "di_forkoff dip \<noteq> 0 \<Longrightarrow> xfs_dinode_verify_fork dip m XFS_ATTR_FORK = None"
    "di_forkoff dip = 0 \<Longrightarrow> ?a = 0"
    "?D = XFS_DINODE_FMT_DEV \<or> xfs_dinode_verify_fork dip m XFS_DATA_FORK = None"
    using assms(1,2) unfolding xfs_dinode_verify_def Let_def
    by (auto simp: XFS_DFORK_FORMAT_def xfs_mode_to_ftype_def split: if_splits)
  have sizes: "unat (xfs_dinode_size (di_version dip)) + unat (XFS_DFORK_DSIZE dip m) + unat (XFS_DFORK_ASIZE dip m) = unat (sb_inodesize m)"
    if "xfs_dinode_good_version m (di_version dip)" "256 \<le> unat (sb_inodesize m)"
    using fork_sizes [OF v(1) that] litino_value [OF that] that(2) by auto
  have attr: "16 * unat ?a \<le> unat (XFS_DFORK_ASIZE dip m)" if "XFS_DFORK_FORMAT dip XFS_ATTR_FORK = XFS_DINODE_FMT_EXTENTS"
    using v(3,4) verify_fork_extents [OF _ that, of m] by (cases "di_forkoff dip = 0") (simp_all add: xfs_dfork_nextents_def XFS_DFORK_SIZE_def)
  have data: "16 * unat ?n \<le> unat (XFS_DFORK_DSIZE dip m)" if "?D = XFS_DINODE_FMT_EXTENTS"
    using v(5) verify_fork_extents [OF _ that, of m] that by (simp add: fmt_defs xfs_dfork_nextents_def XFS_DFORK_SIZE_def)
  have loc: "unat (be64_to_cpu (di_size dip)) \<le> unat (XFS_DFORK_DSIZE dip m)" if "?D = XFS_DINODE_FMT_LOCAL"
    using v(5) verify_fork_local [OF _ that] that by (simp add: fmt_defs)
  have sum: "unat ?n + unat ?a \<le> unat (be64_to_cpu (di_nblocks dip))"
    if "?D \<notin> {XFS_DINODE_FMT_DEV, XFS_DINODE_FMT_META_BTREE}"
  proof -
    have "unat (?n + ?a) = unat ?n + unat ?a"
      using v(5) that verify_fork_count [of dip m] attr_extents_bound [of dip] by (intro unat_add_small) auto
    with v(2) show ?thesis by (simp add: word_less_nat_alt)
  qed
  show ?thesis using sizes attr data loc sum by auto
qed

theorem verified_forks_fit_witness:
  "unat (xfs_dinode_size (di_version written_example)) + unat (XFS_DFORK_DSIZE written_example ino_example) +
     unat (XFS_DFORK_ASIZE written_example ino_example) = unat (sb_inodesize ino_example) \<and>
   16 * unat (xfs_dfork_data_extents written_example) \<le> unat (XFS_DFORK_DSIZE written_example ino_example) \<and>
   unat (xfs_dfork_data_extents written_example) = 2"
proof -
  have "be16_to_cpu (di_mode written_example) \<noteq> 0" "xfs_dinode_good_version ino_example (di_version written_example)"
    "XFS_DFORK_FORMAT written_example XFS_DATA_FORK = XFS_DINODE_FMT_EXTENTS" by code_simp+
  moreover have "256 \<le> unat (sb_inodesize ino_example)" by (simp add: ino_example_def)
  moreover have "unat (xfs_dfork_data_extents written_example) = 2" by code_simp
  ultimately show ?thesis using verified_forks_fit [OF written_example_ok] by blast
qed

text \<open>
  The extent size validators accept exactly the hints their comments describe: on the right
  kinds of files, nonzero when the flag is set and zero on a used inode without it, not longer than
  an extent, at most half a group, and for realtime files a whole number of realtime extents,
  as long as a realtime hint is less than 4 GiB.
\<close>

theorem hint_validators_exact:
  assumes "hint_geometry m"
    and "flags AND XFS_DIFLAG_REALTIME \<noteq> 0 \<Longrightarrow> unat x * 2 ^ sb_blocklog (irt m) < 2 ^ 32"
  shows "(xfs_inode_validate_extsize m x mode flags = None \<longleftrightarrow>
       (flags AND XFS_DIFLAG_EXTSIZE \<noteq> 0 \<longrightarrow> S_ISREG mode) \<and>
       (flags AND XFS_DIFLAG_EXTSZINHERIT \<noteq> 0 \<longrightarrow> S_ISDIR mode) \<and>
       (if flags AND XFS_DIFLAG_EXTSIZE \<noteq> 0 \<or> flags AND XFS_DIFLAG_EXTSZINHERIT \<noteq> 0 then x \<noteq> 0 else mode = 0 \<or> x = 0) \<and>
       hint_size_ok m (flags AND XFS_DIFLAG_REALTIME \<noteq> 0) x) \<and>
     (xfs_inode_validate_cowextsize m x mode flags flags2 = None \<longleftrightarrow>
       (if flags2 AND XFS_DIFLAG2_COWEXTSIZE \<noteq> 0 then m_has_reflink m \<and> (S_ISDIR mode \<or> S_ISREG mode) \<and> x \<noteq> 0
        else mode = 0 \<or> x = 0) \<and>
       hint_size_ok m (flags AND XFS_DIFLAG_REALTIME \<noteq> 0) x)"
proof -
  let ?rt = "flags AND XFS_DIFLAG_REALTIME \<noteq> 0"
  note h = hint_checks [of m ?rt x, OF assms]
  have "xfs_inode_validate_extsize m x mode flags = None \<longleftrightarrow>
       (flags AND XFS_DIFLAG_EXTSIZE \<noteq> 0 \<longrightarrow> S_ISREG mode) \<and> (flags AND XFS_DIFLAG_EXTSZINHERIT \<noteq> 0 \<longrightarrow> S_ISDIR mode) \<and>
       (if flags AND XFS_DIFLAG_EXTSIZE \<noteq> 0 \<or> flags AND XFS_DIFLAG_EXTSZINHERIT \<noteq> 0 then x \<noteq> 0 else mode = 0 \<or> x = 0) \<and>
       hint_size_ok m ?rt x"
    unfolding xfs_inode_validate_extsize_def Let_def first_fail_None fail_when_None first_fail.simps
    using h by argo
  moreover have "xfs_inode_validate_cowextsize m x mode flags flags2 = None \<longleftrightarrow>
       (if flags2 AND XFS_DIFLAG2_COWEXTSIZE \<noteq> 0 then m_has_reflink m \<and> (S_ISDIR mode \<or> S_ISREG mode) \<and> x \<noteq> 0
        else mode = 0 \<or> x = 0) \<and> hint_size_ok m ?rt x"
    unfolding xfs_inode_validate_cowextsize_def Let_def first_fail_None fail_when_None first_fail.simps
    using h by argo
  ultimately show ?thesis by blast
qed

theorem hint_validators_exact_witness:
  "xfs_inode_validate_extsize ino_example 16 0x8000 (2 ^ 11) = None \<and>
   hint_size_ok ino_example False 16"
proof -
  have "hint_geometry ino_example" by (simp add: hint_geometry_def ino_example_def fs_example_def)
  moreover have "(2 ^ 11 :: u16) AND XFS_DIFLAG_REALTIME = 0" "(2 ^ 11 :: u16) AND XFS_DIFLAG_EXTSIZE \<noteq> 0"
    "(2 ^ 11 :: u16) AND XFS_DIFLAG_EXTSZINHERIT = 0" "S_ISREG 0x8000" "(16 :: u32) \<noteq> 0"
    "xfs_inode_validate_extsize ino_example 16 0x8000 (2 ^ 11) = None" by code_simp+
  ultimately show ?thesis using hint_validators_exact [of ino_example "2 ^ 11" 16 "0x8000"] by simp
qed

text \<open>
  The bound on realtime hints is needed. Byte counts are kept in 32 bits, so on a file system with
  4 KiB blocks and realtime extents of 3 blocks, a hint of 1048578 blocks, which is a whole number
  of realtime extents and shorter than the longest extent, is rejected as misaligned.
\<close>

theorem extsize_bytes_wrap:
  "let m = ino_example\<lparr>m_fs := fs_example\<lparr>m_rt := (m_rt fs_example)\<lparr>sb_rextsize := 3\<rparr>\<rparr>\<rparr>
   in hint_geometry m \<and> hint_size_ok m True 1048578 \<and>
      xfs_inode_validate_extsize m 1048578 S_IFREG (XFS_DIFLAG_EXTSIZE OR XFS_DIFLAG_REALTIME) = Some 886"
proof -
  let ?m = "ino_example\<lparr>m_fs := fs_example\<lparr>m_rt := (m_rt fs_example)\<lparr>sb_rextsize := 3\<rparr>\<rparr>\<rparr>"
  have "hint_geometry ?m" "hint_size_ok ?m True 1048578"
    by (simp_all add: hint_geometry_def hint_size_ok_def ino_example_def fs_example_def)
  moreover have "xfs_inode_validate_extsize ?m 1048578 S_IFREG (XFS_DIFLAG_EXTSIZE OR XFS_DIFLAG_REALTIME) = Some 886"
    by code_simp
  ultimately show ?thesis by simp
qed

text \<open>
  \<^verbatim>\<open>xfs_inode_buf_verify\<close> on a buffer that holds the inodes its length promises: it never reads past the
  buffer, leaves it untouched exactly when every inode has a good magic, version and unlinked
  pointer, and otherwise reports corruption, or for readahead an I/O error with the contents marked
  as not read.
\<close>

theorem inode_buf_verify_exact:
  assumes "length (b_dinodes bp) = unat (XFS_BB_TO_FSB m (b_length bp) * ucast (sb_inopblock m))"
  shows "xfs_inode_buf_verify m bp readahead = Some
     (if list_all (di_ok m (b_pag bp)) (b_dinodes bp) then bp
      else if readahead then bp\<lparr>b_done := False, b_error := Some EIO\<rparr> else bp\<lparr>b_error := Some EFSCORRUPTED\<rparr>)"
  using inode_buf_loop_ok [of 0 "length (b_dinodes bp)" bp m readahead] assms
  by (simp add: xfs_inode_buf_verify_def Let_def list_all_iff)

theorem inode_buf_verify_exact_witness:
  "xfs_inode_buf_verify (ino_example\<lparr>sb_inopblock := 2\<rparr>)
     \<lparr>b_dinodes = [written_example, dinode_example], b_length = 8, b_pag = \<lparr>agino_min = 32, agino_max = 8000\<rparr>,
      b_done = True, b_error = None\<rparr> False =
   Some \<lparr>b_dinodes = [written_example, dinode_example], b_length = 8, b_pag = \<lparr>agino_min = 32, agino_max = 8000\<rparr>,
      b_done = True, b_error = Some EFSCORRUPTED\<rparr>"
proof -
  let ?m = "ino_example\<lparr>sb_inopblock := 2\<rparr>" and ?p = "\<lparr>agino_min = 32, agino_max = 8000\<rparr>"
  have "unat (XFS_BB_TO_FSB ?m 8 * ucast (sb_inopblock ?m)) = 2" by code_simp
  moreover have "\<not> di_ok ?m ?p dinode_example" by code_simp
  ultimately show ?thesis
    using inode_buf_verify_exact [of "\<lparr>b_dinodes = [written_example, dinode_example], b_length = 8, b_pag = ?p,
        b_done = True, b_error = None\<rparr>" ?m False] by simp
qed

end
