(* ===== verification/Iext_Rec.thy ===== *)
theory Iext_Rec
  imports Bmbt_Rec
begin

text \<open>
  The in-core extent records of \<^verbatim>\<open>libxfs/xfs_iext_tree.c\<close>. A record packs an extent into two
  native words: \<open>rec_lo\<close> holds the 54 bits of file offset under the low 10 bits of the start
  block, \<open>rec_hi\<close> the 21 bits of length, the unwritten flag and the high 42 bits of the start
  block. An all-zero high word marks an unused slot. The assertions of \<^verbatim>\<open>xfs_iext_set\<close> are a
  branch of the model: \<open>None\<close> is the abort of a failed assertion.
\<close>

record xfs_iext_rec =
  rec_lo :: u64
  rec_hi :: u64

definition xfs_iext_rec_is_empty :: "xfs_iext_rec \<Rightarrow> bool" where
  "xfs_iext_rec_is_empty r \<longleftrightarrow> rec_hi r = 0"

definition iext_rec_zero :: xfs_iext_rec where
  "iext_rec_zero = \<lparr>rec_lo = 0, rec_hi = 0\<rparr>"

text \<open>The three conditions that \<^verbatim>\<open>xfs_iext_set\<close> asserts.\<close>

definition iext_set_asserts :: "xfs_bmbt_irec \<Rightarrow> bool" where
  "iext_set_asserts irec \<longleftrightarrow>
     br_startoff irec AND NOT (xfs_mask64lo 54) = 0 \<and>
     br_blockcount irec AND NOT (xfs_mask64lo 21) = 0 \<and>
     br_startblock irec AND NOT (xfs_mask64lo 52) = 0"

text \<open>The flag \<^verbatim>\<open>1 << 21\<close> of the high word.\<close>

definition IEXT_UNWRITTEN_BIT :: u64 where
  "IEXT_UNWRITTEN_BIT = push_bit 21 1"

definition iext_pack :: "xfs_bmbt_irec \<Rightarrow> xfs_iext_rec" where
  "iext_pack irec =
     \<lparr>rec_lo = (br_startoff irec AND xfs_mask64lo 54) OR push_bit 54 (br_startblock irec),
      rec_hi = ((br_blockcount irec AND xfs_mask64lo 21) OR
                push_bit (22 - 10) (br_startblock irec AND NOT (xfs_mask64lo 10))) OR
               (if br_state irec = XFS_EXT_UNWRITTEN then IEXT_UNWRITTEN_BIT else 0)\<rparr>"

definition xfs_iext_set :: "xfs_bmbt_irec \<Rightarrow> xfs_iext_rec option" where
  "xfs_iext_set irec = (if iext_set_asserts irec then Some (iext_pack irec) else None)"

definition xfs_iext_get :: "xfs_iext_rec \<Rightarrow> xfs_bmbt_irec" where
  "xfs_iext_get r =
     \<lparr>br_startoff = rec_lo r AND xfs_mask64lo 54,
      br_startblock = drop_bit 54 (rec_lo r) OR drop_bit (22 - 10) (rec_hi r AND xfs_mask64hi 42),
      br_blockcount = rec_hi r AND xfs_mask64lo 21,
      br_state = (if rec_hi r AND IEXT_UNWRITTEN_BIT \<noteq> 0 then XFS_EXT_UNWRITTEN else XFS_EXT_NORM)\<rparr>"

text \<open>The order of a record and a file offset: -1 before it, 0 covering it, 1 after it.\<close>

definition xfs_iext_rec_cmp :: "xfs_iext_rec \<Rightarrow> u64 \<Rightarrow> int" where
  "xfs_iext_rec_cmp r offset =
     (let rec_offset = rec_lo r AND xfs_mask64lo 54;
          rec_len = ucast (rec_hi r AND xfs_mask64lo 21) :: u32
      in if rec_offset > offset then 1
         else if rec_offset + ucast rec_len \<le> offset then - 1
         else 0)"

section \<open>The packing is a bijective format\<close>

lemma iext_set_asserts_bits:
  "iext_set_asserts s \<longleftrightarrow>
     (\<forall>n. bit (br_startoff s) n \<longrightarrow> n < 54) \<and> (\<forall>n. bit (br_blockcount s) n \<longrightarrow> n < 21) \<and>
     (\<forall>n. bit (br_startblock s) n \<longrightarrow> n < 52)"
  unfolding iext_set_asserts_def xfs_masklo_mask word_zero_bits
  by (auto simp: bit_simps dest: u64_bit_lt)

lemma bit_unwritten_bit: "bit IEXT_UNWRITTEN_BIT n \<longleftrightarrow> n = 21"
  unfolding IEXT_UNWRITTEN_BIT_def bit_push_bit_iff bit_1_iff by auto

lemma and_bit21_nonzero: "w AND IEXT_UNWRITTEN_BIT \<noteq> 0 \<longleftrightarrow> bit w 21"
  unfolding word_zero_bits by (auto simp: bit_simps bit_unwritten_bit)

lemma iext_get_pack:
  assumes "iext_set_asserts s"
  shows "xfs_iext_get (iext_pack s) = s"
proof -
  obtain off blk cnt st where s: "s = \<lparr>br_startoff = off, br_startblock = blk, br_blockcount = cnt, br_state = st\<rparr>"
    by (cases s) simp
  from assms have o: "\<And>n. bit off n \<Longrightarrow> n < 54" and c: "\<And>n. bit cnt n \<Longrightarrow> n < 21"
    and b: "\<And>n. bit blk n \<Longrightarrow> n < 52"
    unfolding iext_set_asserts_bits s by auto
  define f where "f = (if st = XFS_EXT_UNWRITTEN then IEXT_UNWRITTEN_BIT else 0 :: u64)"
  define w0 where "w0 = (off AND mask 54) OR push_bit 54 blk"
  define w1 where "w1 = ((cnt AND mask 21) OR push_bit 12 (blk AND NOT (mask 10))) OR f"
  have f: "bit f n \<longleftrightarrow> st = XFS_EXT_UNWRITTEN \<and> n = 21" for n
    by (auto simp: f_def bit_unwritten_bit)
  have pack: "iext_pack s = \<lparr>rec_lo = w0, rec_hi = w1\<rparr>"
    by (simp add: iext_pack_def xfs_masklo_mask s w0_def w1_def f_def)
  have "w0 AND mask 54 = off"
    by (rule bit_word_eqI) (auto simp: w0_def bit_simps dest: o)
  moreover have "w1 AND mask 21 = cnt"
    by (rule bit_word_eqI) (auto simp: w1_def f bit_simps dest: c)
  moreover have "drop_bit 54 w0 OR drop_bit 12 (w1 AND push_bit (64 - 42) (- 1)) = blk"
  proof (rule bit_word_eqI)
    fix n :: nat
    assume "n < LENGTH(64)"
    then consider "n < 10" | "10 \<le> n" "n < 52" | "52 \<le> n" "n < 64" by fastforce
    then show "bit (drop_bit 54 w0 OR drop_bit 12 (w1 AND push_bit (64 - 42) (- 1))) n = bit blk n"
      by cases (auto simp: w0_def w1_def f bit_simps dest: b c)
  qed
  moreover have "w1 AND IEXT_UNWRITTEN_BIT \<noteq> 0 \<longleftrightarrow> st = XFS_EXT_UNWRITTEN"
    unfolding and_bit21_nonzero by (auto simp: w1_def f bit_simps)
  ultimately show ?thesis
    unfolding pack by (cases st) (simp_all add: xfs_iext_get_def xfs_masklo_mask xfs_mask64hi_def s)
qed

lemma iext_pack_get: "iext_pack (xfs_iext_get r) = r" "iext_set_asserts (xfs_iext_get r)"
proof -
  define w0 where "w0 = rec_lo r"
  define w1 where "w1 = rec_hi r"
  have r: "r = \<lparr>rec_lo = w0, rec_hi = w1\<rparr>" by (cases r) (simp add: w0_def w1_def)
  define blk where "blk = drop_bit 54 w0 OR drop_bit 12 (w1 AND push_bit (64 - 42) (- 1))"
  define f where "f = (if w1 AND IEXT_UNWRITTEN_BIT \<noteq> 0 then IEXT_UNWRITTEN_BIT else 0 :: u64)"
  have f: "bit f n \<longleftrightarrow> n = 21 \<and> bit w1 21" for n
    unfolding f_def and_bit21_nonzero by (auto simp: bit_unwritten_bit)
  have "(w0 AND mask 54 AND mask 54) OR push_bit 54 blk = w0"
    by (rule bit_word_eqI) (auto simp: blk_def bit_simps)
  moreover have "((w1 AND mask 21 AND mask 21) OR push_bit 12 (blk AND NOT (mask 10))) OR f = w1"
    (is "?w = w1")
  proof (rule bit_word_eqI)
    fix n :: nat
    assume "n < LENGTH(64)"
    then consider "n < 21" | "n = 21" | "22 \<le> n" "n < 64" by fastforce
    then show "bit ?w n = bit w1 n"
      by cases (auto simp: blk_def f bit_simps dest: bit_imp_le_length)
  qed
  moreover have get: "xfs_iext_get r = \<lparr>br_startoff = w0 AND mask 54, br_startblock = blk,
      br_blockcount = w1 AND mask 21,
      br_state = (if w1 AND IEXT_UNWRITTEN_BIT \<noteq> 0 then XFS_EXT_UNWRITTEN else XFS_EXT_NORM)\<rparr>"
    by (simp add: xfs_iext_get_def r blk_def xfs_masklo_mask xfs_mask64hi_def)
  ultimately show "iext_pack (xfs_iext_get r) = r"
    by (simp add: iext_pack_def get r xfs_masklo_mask f_def split: if_splits)
  show "iext_set_asserts (xfs_iext_get r)"
    unfolding iext_set_asserts_bits get
    by (auto simp: blk_def bit_simps dest: bit_imp_le_length)
qed

text \<open>The in-core records are a second bijective format for extents.\<close>

interpretation iext: disk_format iext_pack xfs_iext_get iext_set_asserts
  by unfold_locales (simp_all add: iext_get_pack iext_pack_get)

end
