(* ===== verification/Iext_Tree.thy ===== *)
theory Iext_Tree
  imports Iext_Rec "HOL-Library.Monad_Syntax"
begin

text \<open>
  The in-core extent btree of \<^verbatim>\<open>libxfs/xfs_iext_tree.c\<close>: leaves of up to 15 records linked in
  both directions under inner nodes of up to 16 keys and child pointers, or a bare record
  array while the tree is a single block. A block is reached by its address, 0 being the null
  pointer; the memory the fork owns is the map \<open>if_mem\<close> and \<open>if_brk\<close> the next address the
  allocator hands out. A failed assertion, an access through a null or freed pointer or as
  the wrong kind of block, an array index out of bounds and a double free are \<open>None\<close>; every
  operation returns an optional new state.
\<close>

section \<open>Blocks, forks and cursors\<close>

type_synonym addr = nat

abbreviation (input) KEYS_PER_NODE :: nat where "KEYS_PER_NODE \<equiv> 16"
abbreviation (input) RECS_PER_LEAF :: nat where "RECS_PER_LEAF \<equiv> 15"
abbreviation (input) NODE_SIZE :: int where "NODE_SIZE \<equiv> 256"

text \<open>The size of one record in bytes, \<^verbatim>\<open>sizeof(struct xfs_iext_rec)\<close>.\<close>

abbreviation (input) IEXT_REC_SIZE :: int where "IEXT_REC_SIZE \<equiv> 16"

definition XFS_IEXT_KEY_INVALID :: u64 where
  "XFS_IEXT_KEY_INVALID = push_bit 63 1"

record xfs_iext_node =
  n_keys :: "u64 list"
  n_ptrs :: "addr list"

record xfs_iext_leaf =
  l_recs :: "xfs_iext_rec list"
  l_prev :: addr
  l_next :: addr

text \<open>
  A block of memory: a leaf or a node of \<^verbatim>\<open>NODE_SIZE\<close> bytes, or the shorter allocation of a
  single-block tree, which has records only and no room for the leaf pointers.
\<close>

datatype iext_block = Leaf xfs_iext_leaf | Node xfs_iext_node | Recs "xfs_iext_rec list"

record xfs_ifork =
  if_bytes :: int
  if_seq :: u32
  if_height :: nat
  if_data :: addr
  if_mem :: "addr \<Rightarrow> iext_block option"
  if_brk :: addr

record xfs_iext_cursor =
  cur_leaf :: addr
  cur_pos :: int

section \<open>Memory and arrays\<close>

definition iext_assert :: "bool \<Rightarrow> unit option" where
  "iext_assert b = (if b then Some () else None)"

definition aget :: "'a list \<Rightarrow> nat \<Rightarrow> 'a option" where
  "aget xs i = (if i < length xs then Some (xs ! i) else None)"

definition aset :: "'a list \<Rightarrow> nat \<Rightarrow> 'a \<Rightarrow> 'a list option" where
  "aset xs i v = (if i < length xs then Some (xs[i := v]) else None)"

text \<open>\<^verbatim>\<open>for (i = n; i > pos; i--) a[i] = a[i - 1];\<close>\<close>

fun array_shift_up :: "'a list \<Rightarrow> nat \<Rightarrow> nat \<Rightarrow> 'a list option" where
  "array_shift_up xs i pos =
     (if i > pos then do {
        v \<leftarrow> aget xs (i - 1);
        xs \<leftarrow> aset xs i v;
        array_shift_up xs (i - 1) pos
      } else Some xs)"

text \<open>\<^verbatim>\<open>for (i = pos; i < n; i++) a[i] = a[i + 1];\<close>\<close>

function array_shift_down :: "'a list \<Rightarrow> nat \<Rightarrow> nat \<Rightarrow> 'a list option" where
  "array_shift_down xs i n =
     (if i < n then do {
        v \<leftarrow> aget xs (i + 1);
        xs \<leftarrow> aset xs i v;
        array_shift_down xs (i + 1) n
      } else Some xs)"
  by pat_completeness auto
termination by (relation "measure (\<lambda>(xs, i, n). n - i)") auto

text \<open>\<^verbatim>\<open>for (i = 0; i < n; i++) dst[d + i] = src[s + i];\<close> from the current \<open>i\<close> on.\<close>

function array_copy :: "'a list \<Rightarrow> nat \<Rightarrow> 'a list \<Rightarrow> nat \<Rightarrow> nat \<Rightarrow> nat \<Rightarrow> 'a list option" where
  "array_copy dst d src s n i =
     (if i < n then do {
        v \<leftarrow> aget src (s + i);
        dst \<leftarrow> aset dst (d + i) v;
        array_copy dst d src s n (i + 1)
      } else Some dst)"
  by pat_completeness auto
termination by (relation "measure (\<lambda>(dst, d, src, s, n, i). n - i)") auto

text \<open>\<^verbatim>\<open>for (; i < n; i++) a[i] = v;\<close>\<close>

function array_fill :: "'a list \<Rightarrow> nat \<Rightarrow> nat \<Rightarrow> 'a \<Rightarrow> 'a list option" where
  "array_fill xs i n v =
     (if i < n then do {
        xs \<leftarrow> aset xs i v;
        array_fill xs (i + 1) n v
      } else Some xs)"
  by pat_completeness auto
termination by (relation "measure (\<lambda>(xs, i, n, v). n - i)") auto

declare array_shift_up.simps [simp del] array_shift_down.simps [simp del]
  array_copy.simps [simp del] array_fill.simps [simp del]

definition get_leaf :: "xfs_ifork \<Rightarrow> addr \<Rightarrow> xfs_iext_leaf option" where
  "get_leaf ifp a = (case if_mem ifp a of Some (Leaf l) \<Rightarrow> Some l | _ \<Rightarrow> None)"

definition get_node :: "xfs_ifork \<Rightarrow> addr \<Rightarrow> xfs_iext_node option" where
  "get_node ifp a = (case if_mem ifp a of Some (Node n) \<Rightarrow> Some n | _ \<Rightarrow> None)"

definition put_block :: "xfs_ifork \<Rightarrow> addr \<Rightarrow> iext_block \<Rightarrow> xfs_ifork" where
  "put_block ifp a b = ifp\<lparr>if_mem := (if_mem ifp)(a \<mapsto> b)\<rparr>"

text \<open>The record array of a block, and storing it back.\<close>

definition get_recs :: "xfs_ifork \<Rightarrow> addr \<Rightarrow> xfs_iext_rec list option" where
  "get_recs ifp a =
     (case if_mem ifp a of
        Some (Leaf l) \<Rightarrow> Some (l_recs l)
      | Some (Recs rs) \<Rightarrow> Some rs
      | _ \<Rightarrow> None)"

definition put_recs :: "xfs_ifork \<Rightarrow> addr \<Rightarrow> xfs_iext_rec list \<Rightarrow> xfs_ifork option" where
  "put_recs ifp a rs =
     (case if_mem ifp a of
        Some (Leaf l) \<Rightarrow> Some (put_block ifp a (Leaf (l\<lparr>l_recs := rs\<rparr>)))
      | Some (Recs _) \<Rightarrow> Some (put_block ifp a (Recs rs))
      | _ \<Rightarrow> None)"

definition get_rec :: "xfs_ifork \<Rightarrow> addr \<Rightarrow> nat \<Rightarrow> xfs_iext_rec option" where
  "get_rec ifp a i = do { rs \<leftarrow> get_recs ifp a; aget rs i }"

definition set_leaf_prev :: "xfs_ifork \<Rightarrow> addr \<Rightarrow> addr \<Rightarrow> xfs_ifork option" where
  "set_leaf_prev ifp a p = do { l \<leftarrow> get_leaf ifp a; Some (put_block ifp a (Leaf (l\<lparr>l_prev := p\<rparr>))) }"

definition set_leaf_next :: "xfs_ifork \<Rightarrow> addr \<Rightarrow> addr \<Rightarrow> xfs_ifork option" where
  "set_leaf_next ifp a p = do { l \<leftarrow> get_leaf ifp a; Some (put_block ifp a (Leaf (l\<lparr>l_next := p\<rparr>))) }"

text \<open>\<^verbatim>\<open>kzalloc\<close> hands out an address that was never used; \<^verbatim>\<open>kfree\<close> of the null pointer is a no-op.\<close>

definition kzalloc :: "xfs_ifork \<Rightarrow> iext_block \<Rightarrow> addr \<times> xfs_ifork" where
  "kzalloc ifp b = (if_brk ifp, (put_block ifp (if_brk ifp) b)\<lparr>if_brk := Suc (if_brk ifp)\<rparr>)"

definition kfree :: "xfs_ifork \<Rightarrow> addr \<Rightarrow> xfs_ifork option" where
  "kfree ifp a =
     (if a = 0 then Some ifp
      else if if_mem ifp a = None then None
      else Some (ifp\<lparr>if_mem := (if_mem ifp)(a := None)\<rparr>))"

definition zero_node :: xfs_iext_node where
  "zero_node = \<lparr>n_keys = replicate KEYS_PER_NODE 0, n_ptrs = replicate KEYS_PER_NODE 0\<rparr>"

definition zero_leaf :: xfs_iext_leaf where
  "zero_leaf = \<lparr>l_recs = replicate RECS_PER_LEAF iext_rec_zero, l_prev = 0, l_next = 0\<rparr>"

section \<open>Sizes and validity\<close>

definition xfs_iext_count :: "xfs_ifork \<Rightarrow> nat" where
  "xfs_iext_count ifp = nat (if_bytes ifp div IEXT_REC_SIZE)"

definition xfs_iext_max_recs :: "xfs_ifork \<Rightarrow> nat" where
  "xfs_iext_max_recs ifp = (if if_height ifp = 1 then xfs_iext_count ifp else RECS_PER_LEAF)"

definition cur_rec :: "xfs_ifork \<Rightarrow> xfs_iext_cursor \<Rightarrow> xfs_iext_rec option" where
  "cur_rec ifp cur = (if cur_pos cur < 0 then None else get_rec ifp (cur_leaf cur) (nat (cur_pos cur)))"

definition xfs_iext_valid :: "xfs_ifork \<Rightarrow> xfs_iext_cursor \<Rightarrow> bool option" where
  "xfs_iext_valid ifp cur =
     (if cur_leaf cur = 0 then Some False
      else if cur_pos cur < 0 \<or> cur_pos cur \<ge> int (xfs_iext_max_recs ifp) then Some False
      else do { r \<leftarrow> cur_rec ifp cur; Some (\<not> xfs_iext_rec_is_empty r) })"

section \<open>Moving a cursor\<close>

fun first_leaf_loop :: "xfs_ifork \<Rightarrow> nat \<Rightarrow> addr \<Rightarrow> addr option" where
  "first_leaf_loop ifp 0 a = Some a"
| "first_leaf_loop ifp (Suc h) a = do {
     node \<leftarrow> get_node ifp a;
     c \<leftarrow> aget (n_ptrs node) 0;
     iext_assert (c \<noteq> 0);
     first_leaf_loop ifp h c
   }"

definition xfs_iext_find_first_leaf :: "xfs_ifork \<Rightarrow> addr option" where
  "xfs_iext_find_first_leaf ifp =
     (if if_height ifp = 0 then Some 0 else first_leaf_loop ifp (if_height ifp - 1) (if_data ifp))"

text \<open>\<^verbatim>\<open>for (i = 1; i < KEYS_PER_NODE; i++) if (!node->ptrs[i]) break;\<close> from the current \<open>i\<close> on.\<close>

function null_ptr_loop :: "xfs_iext_node \<Rightarrow> nat \<Rightarrow> nat option" where
  "null_ptr_loop node i =
     (if i < KEYS_PER_NODE then do {
        p \<leftarrow> aget (n_ptrs node) i;
        if p = 0 then Some i else null_ptr_loop node (i + 1)
      } else Some i)"
  by pat_completeness auto
termination by (relation "measure (\<lambda>(node, i). KEYS_PER_NODE - i)") auto

fun last_leaf_loop :: "xfs_ifork \<Rightarrow> nat \<Rightarrow> addr \<Rightarrow> addr option" where
  "last_leaf_loop ifp 0 a = Some a"
| "last_leaf_loop ifp (Suc h) a = do {
     node \<leftarrow> get_node ifp a;
     i \<leftarrow> null_ptr_loop node 1;
     c \<leftarrow> aget (n_ptrs node) (i - 1);
     iext_assert (c \<noteq> 0);
     last_leaf_loop ifp h c
   }"

definition xfs_iext_find_last_leaf :: "xfs_ifork \<Rightarrow> addr option" where
  "xfs_iext_find_last_leaf ifp =
     (if if_height ifp = 0 then Some 0 else last_leaf_loop ifp (if_height ifp - 1) (if_data ifp))"

definition xfs_iext_first :: "xfs_ifork \<Rightarrow> xfs_iext_cursor option" where
  "xfs_iext_first ifp = do {
     a \<leftarrow> xfs_iext_find_first_leaf ifp;
     Some \<lparr>cur_leaf = a, cur_pos = 0\<rparr>
   }"

text \<open>The number of used records of a leaf from \<open>i\<close> on: the loop of \<^verbatim>\<open>xfs_iext_leaf_nr_entries\<close>.\<close>

function leaf_nr_loop :: "xfs_ifork \<Rightarrow> addr \<Rightarrow> nat \<Rightarrow> nat option" where
  "leaf_nr_loop ifp a i =
     (if i < xfs_iext_max_recs ifp then do {
        r \<leftarrow> get_rec ifp a i;
        if xfs_iext_rec_is_empty r then Some i else leaf_nr_loop ifp a (i + 1)
      } else Some i)"
  by pat_completeness auto
termination by (relation "measure (\<lambda>(ifp, a, i). xfs_iext_max_recs ifp - i)") auto

definition xfs_iext_last :: "xfs_ifork \<Rightarrow> xfs_iext_cursor option" where
  "xfs_iext_last ifp = do {
     a \<leftarrow> xfs_iext_find_last_leaf ifp;
     if a = 0 then Some \<lparr>cur_leaf = 0, cur_pos = 0\<rparr>
     else do {
       i \<leftarrow> leaf_nr_loop ifp a 1;
       Some \<lparr>cur_leaf = a, cur_pos = int i - 1\<rparr>
     }
   }"

definition xfs_iext_next :: "xfs_ifork \<Rightarrow> xfs_iext_cursor \<Rightarrow> xfs_iext_cursor option" where
  "xfs_iext_next ifp cur =
     (if cur_leaf cur = 0 then do {
        iext_assert (cur_pos cur \<le> 0 \<or> cur_pos cur \<ge> int RECS_PER_LEAF);
        xfs_iext_first ifp
      } else do {
        iext_assert (cur_pos cur \<ge> 0);
        iext_assert (cur_pos cur < int (xfs_iext_max_recs ifp));
        let cur = cur\<lparr>cur_pos := cur_pos cur + 1\<rparr>;
        v \<leftarrow> (if if_height ifp > 1 then xfs_iext_valid ifp cur else Some True);
        if v then Some cur
        else do {
          l \<leftarrow> get_leaf ifp (cur_leaf cur);
          Some (if l_next l \<noteq> 0 then \<lparr>cur_leaf = l_next l, cur_pos = 0\<rparr> else cur)
        }
      })"

text \<open>The \<^verbatim>\<open>do ... while (cur->pos > 0)\<close> loop of \<^verbatim>\<open>xfs_iext_prev\<close>; the flag says that it returned.\<close>

function prev_scan :: "xfs_ifork \<Rightarrow> xfs_iext_cursor \<Rightarrow> (bool \<times> xfs_iext_cursor) option" where
  "prev_scan ifp cur =
     (let cur = cur\<lparr>cur_pos := cur_pos cur - 1\<rparr> in do {
        v \<leftarrow> xfs_iext_valid ifp cur;
        if v then Some (True, cur)
        else if cur_pos cur > 0 then prev_scan ifp cur
        else Some (False, cur)
      })"
  by pat_completeness auto
termination by (relation "measure (\<lambda>(ifp, cur). nat (cur_pos cur))") auto

declare null_ptr_loop.simps [simp del] leaf_nr_loop.simps [simp del] prev_scan.simps [simp del]

text \<open>The \<^verbatim>\<open>recurse\<close> label; walking back over leaves might not end on a damaged chain.\<close>

partial_function (option) prev_recurse :: "xfs_ifork \<Rightarrow> xfs_iext_cursor \<Rightarrow> xfs_iext_cursor option" where
  "prev_recurse ifp cur = do {
     (found, cur) \<leftarrow> prev_scan ifp cur;
     if found then Some cur
     else if if_height ifp > 1 then do {
       l \<leftarrow> get_leaf ifp (cur_leaf cur);
       if l_prev l \<noteq> 0
       then prev_recurse ifp \<lparr>cur_leaf = l_prev l, cur_pos = int RECS_PER_LEAF\<rparr>
       else Some cur
     }
     else Some cur
   }"

definition xfs_iext_prev :: "xfs_ifork \<Rightarrow> xfs_iext_cursor \<Rightarrow> xfs_iext_cursor option" where
  "xfs_iext_prev ifp cur =
     (if cur_leaf cur = 0 then do {
        iext_assert (cur_pos cur \<le> 0 \<or> cur_pos cur \<ge> int RECS_PER_LEAF);
        xfs_iext_last ifp
      } else do {
        iext_assert (cur_pos cur \<ge> 0);
        iext_assert (cur_pos cur \<le> int RECS_PER_LEAF);
        prev_recurse ifp cur
      })"

definition xfs_iext_get_extent :: "xfs_ifork \<Rightarrow> xfs_iext_cursor \<Rightarrow> (xfs_bmbt_irec option) option" where
  "xfs_iext_get_extent ifp cur = do {
     v \<leftarrow> xfs_iext_valid ifp cur;
     if v then do { r \<leftarrow> cur_rec ifp cur; Some (Some (xfs_iext_get r)) }
     else Some None
   }"

definition xfs_iext_next_extent :: "xfs_ifork \<Rightarrow> xfs_iext_cursor \<Rightarrow> (xfs_iext_cursor \<times> xfs_bmbt_irec option) option" where
  "xfs_iext_next_extent ifp cur = do {
     cur \<leftarrow> xfs_iext_next ifp cur;
     g \<leftarrow> xfs_iext_get_extent ifp cur;
     Some (cur, g)
   }"

definition xfs_iext_prev_extent :: "xfs_ifork \<Rightarrow> xfs_iext_cursor \<Rightarrow> (xfs_iext_cursor \<times> xfs_bmbt_irec option) option" where
  "xfs_iext_prev_extent ifp cur = do {
     cur \<leftarrow> xfs_iext_prev ifp cur;
     g \<leftarrow> xfs_iext_get_extent ifp cur;
     Some (cur, g)
   }"

definition xfs_iext_peek_next_extent :: "xfs_ifork \<Rightarrow> xfs_iext_cursor \<Rightarrow> (xfs_bmbt_irec option) option" where
  "xfs_iext_peek_next_extent ifp cur = do {
     ncur \<leftarrow> xfs_iext_next ifp cur;
     xfs_iext_get_extent ifp ncur
   }"

definition xfs_iext_peek_prev_extent :: "xfs_ifork \<Rightarrow> xfs_iext_cursor \<Rightarrow> (xfs_bmbt_irec option) option" where
  "xfs_iext_peek_prev_extent ifp cur = do {
     ncur \<leftarrow> xfs_iext_prev ifp cur;
     xfs_iext_get_extent ifp ncur
   }"

section \<open>Searching\<close>

definition xfs_iext_key_cmp :: "xfs_iext_node \<Rightarrow> nat \<Rightarrow> u64 \<Rightarrow> int option" where
  "xfs_iext_key_cmp node n offset = do {
     k \<leftarrow> aget (n_keys node) n;
     Some (if k > offset then 1 else if k < offset then - 1 else 0)
   }"

text \<open>
  \<^verbatim>\<open>for (; i < KEYS_PER_NODE; i++) if (xfs_iext_key_cmp(node, i, offset) > 0) break;\<close>, the loop
  of the three searches in a node.
\<close>

function key_cmp_loop :: "xfs_iext_node \<Rightarrow> u64 \<Rightarrow> nat \<Rightarrow> nat option" where
  "key_cmp_loop node offset i =
     (if i < KEYS_PER_NODE then do {
        c \<leftarrow> xfs_iext_key_cmp node i offset;
        if c > 0 then Some i else key_cmp_loop node offset (i + 1)
      } else Some i)"
  by pat_completeness auto
termination by (relation "measure (\<lambda>(node, offset, i). KEYS_PER_NODE - i)") auto

text \<open>The descent of \<^verbatim>\<open>xfs_iext_find_level\<close> over the given number of levels.\<close>

fun find_level_loop :: "xfs_ifork \<Rightarrow> u64 \<Rightarrow> nat \<Rightarrow> addr \<Rightarrow> addr option" where
  "find_level_loop ifp offset 0 a = Some a"
| "find_level_loop ifp offset (Suc h) a = do {
     node \<leftarrow> get_node ifp a;
     i \<leftarrow> key_cmp_loop node offset 1;
     c \<leftarrow> aget (n_ptrs node) (i - 1);
     if c = 0 then Some 0 else find_level_loop ifp offset h c
   }"

definition xfs_iext_find_level :: "xfs_ifork \<Rightarrow> u64 \<Rightarrow> nat \<Rightarrow> addr option" where
  "xfs_iext_find_level ifp offset level =
     (if if_height ifp = 0 then Some 0
      else find_level_loop ifp offset (if_height ifp - level) (if_data ifp))"

definition xfs_iext_node_pos :: "xfs_iext_node \<Rightarrow> u64 \<Rightarrow> nat option" where
  "xfs_iext_node_pos node offset = do { i \<leftarrow> key_cmp_loop node offset 1; Some (i - 1) }"

definition xfs_iext_node_insert_pos :: "xfs_iext_node \<Rightarrow> u64 \<Rightarrow> nat option" where
  "xfs_iext_node_insert_pos node offset = key_cmp_loop node offset 0"

function xfs_iext_node_nr_entries :: "xfs_iext_node \<Rightarrow> nat \<Rightarrow> nat option" where
  "xfs_iext_node_nr_entries node i =
     (if i < KEYS_PER_NODE then do {
        k \<leftarrow> aget (n_keys node) i;
        if k = XFS_IEXT_KEY_INVALID then Some i else xfs_iext_node_nr_entries node (i + 1)
      } else Some i)"
  by pat_completeness auto
termination by (relation "measure (\<lambda>(node, i). KEYS_PER_NODE - i)") auto

declare key_cmp_loop.simps [simp del] xfs_iext_node_nr_entries.simps [simp del]

definition xfs_iext_leaf_nr_entries :: "xfs_ifork \<Rightarrow> addr \<Rightarrow> int \<Rightarrow> nat option" where
  "xfs_iext_leaf_nr_entries ifp a start = (if start < 0 then None else leaf_nr_loop ifp a (nat start))"

definition xfs_iext_leaf_key :: "xfs_ifork \<Rightarrow> addr \<Rightarrow> nat \<Rightarrow> u64 option" where
  "xfs_iext_leaf_key ifp a n = do { r \<leftarrow> get_rec ifp a n; Some (rec_lo r AND xfs_mask64lo 54) }"

text \<open>The record loop of \<^verbatim>\<open>xfs_iext_lookup_extent\<close>; the flag is the jump to \<^verbatim>\<open>found\<close>.\<close>

function lookup_loop :: "xfs_ifork \<Rightarrow> addr \<Rightarrow> u64 \<Rightarrow> nat \<Rightarrow> (bool \<times> nat) option" where
  "lookup_loop ifp a offset i =
     (if i < xfs_iext_max_recs ifp then do {
        r \<leftarrow> get_rec ifp a i;
        if xfs_iext_rec_is_empty r then Some (False, i)
        else if xfs_iext_rec_cmp r offset \<ge> 0 then Some (True, i)
        else lookup_loop ifp a offset (i + 1)
      } else Some (False, i))"
  by pat_completeness auto
termination by (relation "measure (\<lambda>(ifp, a, offset, i). xfs_iext_max_recs ifp - i)") auto

declare lookup_loop.simps [simp del]

definition xfs_iext_lookup_extent :: "xfs_ifork \<Rightarrow> u64 \<Rightarrow> (xfs_iext_cursor \<times> xfs_bmbt_irec option) option" where
  "xfs_iext_lookup_extent ifp offset = do {
     a \<leftarrow> xfs_iext_find_level ifp offset 1;
     if a = 0 then Some (\<lparr>cur_leaf = 0, cur_pos = 0\<rparr>, None)
     else do {
       (found, i) \<leftarrow> lookup_loop ifp a offset 0;
       let cur = \<lparr>cur_leaf = a, cur_pos = int i\<rparr>;
       if found then do { r \<leftarrow> cur_rec ifp cur; Some (cur, Some (xfs_iext_get r)) }
       else if if_height ifp = 1 then Some (cur, None)
       else do {
         l \<leftarrow> get_leaf ifp a;
         if l_next l = 0 then Some (cur, None)
         else do {
           let cur = \<lparr>cur_leaf = l_next l, cur_pos = 0\<rparr>;
           v \<leftarrow> xfs_iext_valid ifp cur;
           if v then do { r \<leftarrow> cur_rec ifp cur; Some (cur, Some (xfs_iext_get r)) }
           else Some (cur, None)
         }
       }
     }
   }"

text \<open>The result also holds the value left in \<^verbatim>\<open>*end\<close>.\<close>

definition xfs_iext_lookup_extent_before ::
    "xfs_ifork \<Rightarrow> u64 \<Rightarrow> (u64 \<times> xfs_iext_cursor \<times> xfs_bmbt_irec option) option" where
  "xfs_iext_lookup_extent_before ifp endp = do {
     (cur, got) \<leftarrow> xfs_iext_lookup_extent ifp (endp - 1);
     if (case got of Some g \<Rightarrow> br_startoff g \<le> endp - 1 | None \<Rightarrow> False) then Some (endp, cur, got)
     else do {
       (cur, got) \<leftarrow> xfs_iext_prev_extent ifp cur;
       case got of
         None \<Rightarrow> Some (endp, cur, None)
       | Some g \<Rightarrow> Some (br_startoff g + br_blockcount g, cur, Some g)
     }
   }"

section \<open>Growing the tree\<close>

definition xfs_iext_grow :: "xfs_ifork \<Rightarrow> xfs_ifork option" where
  "xfs_iext_grow ifp = do {
     let (node, ifp) = kzalloc ifp (Node zero_node);
     k \<leftarrow> (if if_height ifp = 1 then xfs_iext_leaf_key ifp (if_data ifp) 0
           else do {
             prev \<leftarrow> get_node ifp (if_data ifp);
             iext_assert (if_height ifp > 1);
             aget (n_keys prev) 0
           });
     ks \<leftarrow> aset (n_keys zero_node) 0 k;
     ps \<leftarrow> aset (n_ptrs zero_node) 0 (if_data ifp);
     ks \<leftarrow> array_fill ks 1 KEYS_PER_NODE XFS_IEXT_KEY_INVALID;
     let ifp = put_block ifp node (Node \<lparr>n_keys = ks, n_ptrs = ps\<rparr>);
     Some (ifp\<lparr>if_data := node, if_height := if_height ifp + 1\<rparr>)
   }"

text \<open>The key loop of \<^verbatim>\<open>xfs_iext_update_node\<close>: the keys and the index it stops at.\<close>

function update_keys_loop :: "u64 list \<Rightarrow> u64 \<Rightarrow> u64 \<Rightarrow> nat \<Rightarrow> (u64 list \<times> nat) option" where
  "update_keys_loop ks old_offset new_offset i =
     (if i < KEYS_PER_NODE then do {
        k \<leftarrow> aget ks i;
        if i > 0 \<and> k > old_offset then Some (ks, i)
        else do {
          ks \<leftarrow> (if k = old_offset then aset ks i new_offset else Some ks);
          update_keys_loop ks old_offset new_offset (i + 1)
        }
      } else Some (ks, i))"
  by pat_completeness auto
termination by (relation "measure (\<lambda>(ks, old_offset, new_offset, i). KEYS_PER_NODE - i)") auto

declare update_keys_loop.simps [simp del]

fun update_node_loop :: "xfs_ifork \<Rightarrow> u64 \<Rightarrow> u64 \<Rightarrow> nat \<Rightarrow> addr \<Rightarrow> (xfs_ifork \<times> addr) option" where
  "update_node_loop ifp old_offset new_offset 0 a = Some (ifp, a)"
| "update_node_loop ifp old_offset new_offset (Suc h) a = do {
     node \<leftarrow> get_node ifp a;
     (ks, i) \<leftarrow> update_keys_loop (n_keys node) old_offset new_offset 0;
     let ifp = put_block ifp a (Node (node\<lparr>n_keys := ks\<rparr>));
     c \<leftarrow> aget (n_ptrs node) (i - 1);
     iext_assert (c \<noteq> 0);
     update_node_loop ifp old_offset new_offset h c
   }"

definition xfs_iext_update_node :: "xfs_ifork \<Rightarrow> u64 \<Rightarrow> u64 \<Rightarrow> nat \<Rightarrow> addr \<Rightarrow> xfs_ifork option" where
  "xfs_iext_update_node ifp old_offset new_offset level ptr = do {
     (ifp, node) \<leftarrow> update_node_loop ifp old_offset new_offset (if_height ifp - level) (if_data ifp);
     iext_assert (node = ptr);
     Some ifp
   }"

text \<open>The result is the state, the new node, the node to insert into, the position and the count.\<close>

definition xfs_iext_split_node :: "xfs_ifork \<Rightarrow> addr \<Rightarrow> nat \<Rightarrow> (xfs_ifork \<times> addr \<times> addr \<times> nat \<times> nat) option" where
  "xfs_iext_split_node ifp node pos = do {
     let (new, ifp) = kzalloc ifp (Node zero_node);
     let nr_move = KEYS_PER_NODE div 2;
     let nr_keep = nr_move + (KEYS_PER_NODE mod 2);
     if pos = KEYS_PER_NODE then do {
       ks \<leftarrow> array_fill (n_keys zero_node) 0 KEYS_PER_NODE XFS_IEXT_KEY_INVALID;
       Some (put_block ifp new (Node (zero_node\<lparr>n_keys := ks\<rparr>)), new, new, 0, 0)
     }
     else do {
       n \<leftarrow> get_node ifp node;
       ks \<leftarrow> array_copy (n_keys zero_node) 0 (n_keys n) nr_keep nr_move 0;
       ps \<leftarrow> array_copy (n_ptrs zero_node) 0 (n_ptrs n) nr_keep nr_move 0;
       oks \<leftarrow> array_fill (n_keys n) nr_keep (nr_keep + nr_move) XFS_IEXT_KEY_INVALID;
       ops \<leftarrow> array_fill (n_ptrs n) nr_keep (nr_keep + nr_move) 0;
       ks \<leftarrow> array_fill ks nr_move KEYS_PER_NODE XFS_IEXT_KEY_INVALID;
       let ifp = put_block ifp node (Node \<lparr>n_keys = oks, n_ptrs = ops\<rparr>);
       let ifp = put_block ifp new (Node \<lparr>n_keys = ks, n_ptrs = ps\<rparr>);
       Some (if pos \<ge> nr_keep then (ifp, new, new, pos - nr_keep, nr_move)
             else (ifp, new, node, pos, nr_keep))
     }
   }"

text \<open>Making room at a position and storing the new key and pointer there, in \<^verbatim>\<open>xfs_iext_insert_node\<close>.\<close>

definition node_store_entry :: "xfs_ifork \<Rightarrow> addr \<Rightarrow> nat \<Rightarrow> nat \<Rightarrow> u64 \<Rightarrow> addr \<Rightarrow> xfs_ifork option" where
  "node_store_entry ifp node nr_entries pos offset ptr = do {
     n \<leftarrow> get_node ifp node;
     ks \<leftarrow> array_shift_up (n_keys n) nr_entries pos;
     ps \<leftarrow> array_shift_up (n_ptrs n) nr_entries pos;
     ks \<leftarrow> aset ks pos offset;
     ps \<leftarrow> aset ps pos ptr;
     Some (put_block ifp node (Node \<lparr>n_keys = ks, n_ptrs = ps\<rparr>))
   }"

partial_function (option) xfs_iext_insert_node :: "xfs_ifork \<Rightarrow> u64 \<Rightarrow> addr \<Rightarrow> nat \<Rightarrow> xfs_ifork option" where
  "xfs_iext_insert_node ifp offset ptr level = do {
     ifp \<leftarrow> (if if_height ifp < level then xfs_iext_grow ifp else Some ifp);
     node \<leftarrow> xfs_iext_find_level ifp offset level;
     n \<leftarrow> get_node ifp node;
     pos \<leftarrow> xfs_iext_node_insert_pos n offset;
     nr_entries \<leftarrow> xfs_iext_node_nr_entries n pos;
     c \<leftarrow> (if pos \<ge> nr_entries then Some 1 else xfs_iext_key_cmp n pos offset);
     iext_assert (c \<noteq> 0);
     iext_assert (nr_entries \<le> KEYS_PER_NODE);
     (ifp, new, node, pos, nr_entries) \<leftarrow>
       (if nr_entries = KEYS_PER_NODE then xfs_iext_split_node ifp node pos
        else Some (ifp, 0, node, pos, nr_entries));
     ifp \<leftarrow> (if node \<noteq> new \<and> pos = 0 \<and> nr_entries > 0 then do {
               n \<leftarrow> get_node ifp node;
               k \<leftarrow> aget (n_keys n) 0;
               xfs_iext_update_node ifp k offset level node
             } else Some ifp);
     ifp \<leftarrow> node_store_entry ifp node nr_entries pos offset ptr;
     if new \<noteq> 0 then do {
       n \<leftarrow> get_node ifp new;
       k \<leftarrow> aget (n_keys n) 0;
       xfs_iext_insert_node ifp k new (level + 1)
     }
     else Some ifp
   }"

text \<open>The label \<^verbatim>\<open>done\<close> of \<^verbatim>\<open>xfs_iext_split_leaf\<close>: the new leaf goes after the split one.\<close>

definition link_new_leaf :: "xfs_ifork \<Rightarrow> addr \<Rightarrow> addr \<Rightarrow> xfs_ifork option" where
  "link_new_leaf ifp leaf new = do {
     l \<leftarrow> get_leaf ifp leaf;
     ifp \<leftarrow> (if l_next l \<noteq> 0 then set_leaf_prev ifp (l_next l) new else Some ifp);
     l \<leftarrow> get_leaf ifp leaf;
     ifp \<leftarrow> set_leaf_next ifp new (l_next l);
     ifp \<leftarrow> set_leaf_prev ifp new leaf;
     set_leaf_next ifp leaf new
   }"

text \<open>Moving records of a full leaf to the new one and finding the slot; with the new count.\<close>

definition split_leaf_move :: "xfs_ifork \<Rightarrow> xfs_iext_cursor \<Rightarrow> addr \<Rightarrow> (xfs_ifork \<times> xfs_iext_cursor \<times> nat) option" where
  "split_leaf_move ifp cur new =
     (let nr_move = RECS_PER_LEAF div 2;
          nr_keep = nr_move + (RECS_PER_LEAF mod 2)
      in if cur_pos cur = int RECS_PER_LEAF then Some (ifp, \<lparr>cur_leaf = new, cur_pos = 0\<rparr>, 0)
         else do {
           rs \<leftarrow> get_recs ifp (cur_leaf cur);
           nrs \<leftarrow> array_copy (l_recs zero_leaf) 0 rs nr_keep nr_move 0;
           rs \<leftarrow> array_fill rs nr_keep (nr_keep + nr_move) iext_rec_zero;
           ifp \<leftarrow> put_recs ifp (cur_leaf cur) rs;
           ifp \<leftarrow> put_recs ifp new nrs;
           Some (if cur_pos cur \<ge> int nr_keep
                 then (ifp, \<lparr>cur_leaf = new, cur_pos = cur_pos cur - int nr_keep\<rparr>, nr_move)
                 else (ifp, cur, nr_keep))
         })"

text \<open>The result is the state, the cursor, the new leaf and the count.\<close>

definition xfs_iext_split_leaf :: "xfs_ifork \<Rightarrow> xfs_iext_cursor \<Rightarrow> (xfs_ifork \<times> xfs_iext_cursor \<times> addr \<times> nat) option" where
  "xfs_iext_split_leaf ifp cur = do {
     let leaf = cur_leaf cur;
     let (new, ifp) = kzalloc ifp (Leaf zero_leaf);
     (ifp, cur, nr_entries) \<leftarrow> split_leaf_move ifp cur new;
     ifp \<leftarrow> link_new_leaf ifp leaf new;
     Some (ifp, cur, new, nr_entries)
   }"

definition xfs_iext_alloc_root :: "xfs_ifork \<Rightarrow> (xfs_ifork \<times> xfs_iext_cursor) option" where
  "xfs_iext_alloc_root ifp = do {
     iext_assert (if_bytes ifp = 0);
     let (a, ifp) = kzalloc ifp (Recs [iext_rec_zero]);
     Some (ifp\<lparr>if_data := a, if_height := 1\<rparr>, \<lparr>cur_leaf = a, cur_pos = 0\<rparr>)
   }"

text \<open>
  \<^verbatim>\<open>krealloc\<close> moves the first \<open>if_bytes\<close> bytes to a fresh block and frees the old one; the rest
  is zeroed. A block of \<^verbatim>\<open>NODE_SIZE\<close> bytes has room for the leaf pointers.
\<close>

definition xfs_iext_realloc_root :: "xfs_ifork \<Rightarrow> xfs_iext_cursor \<Rightarrow> (xfs_ifork \<times> xfs_iext_cursor) option" where
  "xfs_iext_realloc_root ifp cur = do {
     let new_size = if_bytes ifp + IEXT_REC_SIZE;
     let new_size = (if new_size div IEXT_REC_SIZE = int RECS_PER_LEAF then NODE_SIZE else new_size);
     rs \<leftarrow> get_recs ifp (if_data ifp);
     iext_assert (xfs_iext_count ifp \<le> length rs);
     let kept = take (xfs_iext_count ifp) rs;
     ifp \<leftarrow> kfree ifp (if_data ifp);
     let (new, ifp) =
       kzalloc ifp
         (if new_size = NODE_SIZE
          then Leaf \<lparr>l_recs = kept @ replicate (RECS_PER_LEAF - xfs_iext_count ifp) iext_rec_zero,
                     l_prev = 0, l_next = 0\<rparr>
          else Recs (kept @ replicate (nat (new_size div IEXT_REC_SIZE) - xfs_iext_count ifp) iext_rec_zero));
     Some (ifp\<lparr>if_data := new\<rparr>, cur\<lparr>cur_leaf := new\<rparr>)
   }"

definition xfs_iext_inc_seq :: "xfs_ifork \<Rightarrow> xfs_ifork" where
  "xfs_iext_inc_seq ifp = ifp\<lparr>if_seq := if_seq ifp + 1\<rparr>"

text \<open>Making room at the cursor and storing the record there.\<close>

definition leaf_store_rec :: "xfs_ifork \<Rightarrow> xfs_iext_cursor \<Rightarrow> nat \<Rightarrow> xfs_bmbt_irec \<Rightarrow> xfs_ifork option" where
  "leaf_store_rec ifp cur nr_entries irec = do {
     rs \<leftarrow> get_recs ifp (cur_leaf cur);
     rs \<leftarrow> array_shift_up rs nr_entries (nat (cur_pos cur));
     r \<leftarrow> xfs_iext_set irec;
     rs \<leftarrow> aset rs (nat (cur_pos cur)) r;
     put_recs ifp (cur_leaf cur) rs
   }"

text \<open>\<^verbatim>\<open>xfs_iext_insert_raw\<close> once the root block has been prepared.\<close>

definition insert_at_cursor :: "xfs_ifork \<Rightarrow> xfs_iext_cursor \<Rightarrow> xfs_bmbt_irec \<Rightarrow> (xfs_ifork \<times> xfs_iext_cursor) option" where
  "insert_at_cursor ifp cur irec = do {
     let offset = br_startoff irec;
     nr_entries \<leftarrow> xfs_iext_leaf_nr_entries ifp (cur_leaf cur) (cur_pos cur);
     iext_assert (nr_entries \<le> RECS_PER_LEAF);
     c \<leftarrow> (if cur_pos cur \<ge> int nr_entries then Some 1
           else do { r \<leftarrow> cur_rec ifp cur; Some (xfs_iext_rec_cmp r offset) });
     iext_assert (c \<noteq> 0);
     (ifp, cur, new, nr_entries) \<leftarrow>
       (if nr_entries = RECS_PER_LEAF then xfs_iext_split_leaf ifp cur
        else Some (ifp, cur, 0, nr_entries));
     ifp \<leftarrow> (if cur_leaf cur \<noteq> new \<and> cur_pos cur = 0 \<and> nr_entries > 0 then do {
               k \<leftarrow> xfs_iext_leaf_key ifp (cur_leaf cur) 0;
               xfs_iext_update_node ifp k offset 1 (cur_leaf cur)
             } else Some ifp);
     ifp \<leftarrow> leaf_store_rec ifp cur nr_entries irec;
     let ifp = ifp\<lparr>if_bytes := if_bytes ifp + IEXT_REC_SIZE\<rparr>;
     ifp \<leftarrow> (if new \<noteq> 0 then do {
               k \<leftarrow> xfs_iext_leaf_key ifp new 0;
               xfs_iext_insert_node ifp k new 2
             } else Some ifp);
     Some (ifp, cur)
   }"

definition xfs_iext_insert_raw :: "xfs_ifork \<Rightarrow> xfs_iext_cursor \<Rightarrow> xfs_bmbt_irec \<Rightarrow> (xfs_ifork \<times> xfs_iext_cursor) option" where
  "xfs_iext_insert_raw ifp cur irec = do {
     let ifp = xfs_iext_inc_seq ifp;
     (ifp, cur) \<leftarrow> (if if_height ifp = 0 then xfs_iext_alloc_root ifp
                  else if if_height ifp = 1 then xfs_iext_realloc_root ifp cur
                  else Some (ifp, cur));
     insert_at_cursor ifp cur irec
   }"

definition xfs_iext_update_extent :: "xfs_ifork \<Rightarrow> xfs_iext_cursor \<Rightarrow> xfs_bmbt_irec \<Rightarrow> xfs_ifork option" where
  "xfs_iext_update_extent ifp cur new = do {
     let ifp = xfs_iext_inc_seq ifp;
     ifp \<leftarrow> (if cur_pos cur = 0 then do {
               r \<leftarrow> cur_rec ifp cur;
               let old = xfs_iext_get r;
               if br_startoff new \<noteq> br_startoff old
               then xfs_iext_update_node ifp (br_startoff old) (br_startoff new) 1 (cur_leaf cur)
               else Some ifp
             } else Some ifp);
     iext_assert (cur_pos cur \<ge> 0);
     rs \<leftarrow> get_recs ifp (cur_leaf cur);
     r \<leftarrow> xfs_iext_set new;
     rs \<leftarrow> aset rs (nat (cur_pos cur)) r;
     put_recs ifp (cur_leaf cur) rs
   }"

section \<open>Shrinking the tree\<close>

text \<open>
  The result is the state, the node to remove or 0, and its position in the parent.
\<close>

definition xfs_iext_rebalance_node ::
    "xfs_ifork \<Rightarrow> addr \<Rightarrow> nat \<Rightarrow> addr \<Rightarrow> nat \<Rightarrow> (xfs_ifork \<times> addr \<times> nat) option" where
  "xfs_iext_rebalance_node ifp parent pos node nr_entries =
     (if nr_entries = 0 then Some (ifp, node, pos)
      else do {
        par \<leftarrow> get_node ifp parent;
        n \<leftarrow> get_node ifp node;
        merged \<leftarrow>
          (if pos > 0 then do {
             prev \<leftarrow> aget (n_ptrs par) (pos - 1);
             p \<leftarrow> get_node ifp prev;
             nr_prev \<leftarrow> xfs_iext_node_nr_entries p 0;
             if nr_prev + nr_entries \<le> KEYS_PER_NODE then do {
               ks \<leftarrow> array_copy (n_keys p) nr_prev (n_keys n) 0 nr_entries 0;
               ps \<leftarrow> array_copy (n_ptrs p) nr_prev (n_ptrs n) 0 nr_entries 0;
               Some (Some (put_block ifp prev (Node \<lparr>n_keys = ks, n_ptrs = ps\<rparr>), node, pos))
             } else Some None
           } else Some None);
        case merged of
          Some r \<Rightarrow> Some r
        | None \<Rightarrow> do {
            nr_par \<leftarrow> xfs_iext_node_nr_entries par pos;
            if pos + 1 < nr_par then do {
              next \<leftarrow> aget (n_ptrs par) (pos + 1);
              x \<leftarrow> get_node ifp next;
              nr_next \<leftarrow> xfs_iext_node_nr_entries x 0;
              if nr_entries + nr_next \<le> KEYS_PER_NODE then do {
                ks \<leftarrow> array_copy (n_keys n) nr_entries (n_keys x) 0 nr_next 0;
                ps \<leftarrow> array_copy (n_ptrs n) nr_entries (n_ptrs x) 0 nr_next 0;
                Some (put_block ifp node (Node \<lparr>n_keys = ks, n_ptrs = ps\<rparr>), next, pos + 1)
              } else Some (ifp, 0, pos)
            } else Some (ifp, 0, pos)
          }
      })"

text \<open>
  Freeing the victim and taking its entry out of its node, with the key update above; the
  result holds the number of entries left and the key by which the node is found.
\<close>

definition remove_node_entry ::
    "xfs_ifork \<Rightarrow> addr \<Rightarrow> nat \<Rightarrow> addr \<Rightarrow> nat \<Rightarrow> (xfs_ifork \<times> nat \<times> u64) option" where
  "remove_node_entry ifp node pos victim level = do {
     n \<leftarrow> get_node ifp node;
     p \<leftarrow> aget (n_ptrs n) pos;
     iext_assert (p \<noteq> 0);
     iext_assert (p = victim);
     ifp \<leftarrow> kfree ifp victim;
     n \<leftarrow> get_node ifp node;
     nr \<leftarrow> xfs_iext_node_nr_entries n pos;
     iext_assert (nr > 0);
     let nr_entries = nr - 1;
     offset \<leftarrow> aget (n_keys n) 0;
     ks \<leftarrow> array_shift_down (n_keys n) pos nr_entries;
     ps \<leftarrow> array_shift_down (n_ptrs n) pos nr_entries;
     ks \<leftarrow> aset ks nr_entries XFS_IEXT_KEY_INVALID;
     ps \<leftarrow> aset ps nr_entries 0;
     let ifp = put_block ifp node (Node \<lparr>n_keys = ks, n_ptrs = ps\<rparr>);
     if pos = 0 \<and> nr_entries > 0 then do {
       k \<leftarrow> aget ks 0;
       ifp \<leftarrow> xfs_iext_update_node ifp offset k level node;
       Some (ifp, nr_entries, k)
     }
     else Some (ifp, nr_entries, offset)
   }"

text \<open>The loop of \<^verbatim>\<open>xfs_iext_remove_node\<close>, from its label \<^verbatim>\<open>again\<close>.\<close>

partial_function (option) remove_node_again ::
    "xfs_ifork \<Rightarrow> addr \<Rightarrow> nat \<Rightarrow> addr \<Rightarrow> nat \<Rightarrow> xfs_ifork option" where
  "remove_node_again ifp node pos victim level = do {
     (ifp, nr_entries, offset) \<leftarrow> remove_node_entry ifp node pos victim level;
     if nr_entries \<ge> KEYS_PER_NODE div 2 then Some ifp
     else if level < if_height ifp then do {
       parent \<leftarrow> xfs_iext_find_level ifp offset (level + 1);
       par \<leftarrow> get_node ifp parent;
       pos \<leftarrow> xfs_iext_node_pos par offset;
       iext_assert (pos \<noteq> KEYS_PER_NODE);
       c \<leftarrow> aget (n_ptrs par) pos;
       iext_assert (c = node);
       (ifp, victim, pos) \<leftarrow> xfs_iext_rebalance_node ifp parent pos node nr_entries;
       if victim \<noteq> 0 then remove_node_again ifp parent pos victim (level + 1) else Some ifp
     }
     else if nr_entries = 1 then do {
       iext_assert (node = if_data ifp);
       n \<leftarrow> get_node ifp node;
       c \<leftarrow> aget (n_ptrs n) 0;
       kfree (ifp\<lparr>if_data := c, if_height := if_height ifp - 1\<rparr>) node
     }
     else Some ifp
   }"

definition xfs_iext_remove_node :: "xfs_ifork \<Rightarrow> u64 \<Rightarrow> addr \<Rightarrow> xfs_ifork option" where
  "xfs_iext_remove_node ifp offset victim = do {
     iext_assert (2 \<le> if_height ifp);
     node \<leftarrow> xfs_iext_find_level ifp offset 2;
     n \<leftarrow> get_node ifp node;
     pos \<leftarrow> xfs_iext_node_pos n offset;
     remove_node_again ifp node pos victim 2
   }"

text \<open>The label \<^verbatim>\<open>remove_node\<close> of \<^verbatim>\<open>xfs_iext_rebalance_leaf\<close>.\<close>

definition rebalance_remove_node :: "xfs_ifork \<Rightarrow> u64 \<Rightarrow> addr \<Rightarrow> xfs_ifork option" where
  "rebalance_remove_node ifp offset leaf = do {
     l \<leftarrow> get_leaf ifp leaf;
     ifp \<leftarrow> (if l_prev l \<noteq> 0 then set_leaf_next ifp (l_prev l) (l_next l) else Some ifp);
     ifp \<leftarrow> (if l_next l \<noteq> 0 then set_leaf_prev ifp (l_next l) (l_prev l) else Some ifp);
     xfs_iext_remove_node ifp offset leaf
   }"

definition xfs_iext_rebalance_leaf ::
    "xfs_ifork \<Rightarrow> xfs_iext_cursor \<Rightarrow> addr \<Rightarrow> u64 \<Rightarrow> nat \<Rightarrow> (xfs_ifork \<times> xfs_iext_cursor) option" where
  "xfs_iext_rebalance_leaf ifp cur leaf offset nr_entries =
     (if nr_entries = 0 then do { ifp \<leftarrow> rebalance_remove_node ifp offset leaf; Some (ifp, cur) }
      else do {
        l \<leftarrow> get_leaf ifp leaf;
        nr_prev \<leftarrow> (if l_prev l \<noteq> 0 then xfs_iext_leaf_nr_entries ifp (l_prev l) 0 else Some 0);
        if l_prev l \<noteq> 0 \<and> nr_prev + nr_entries \<le> RECS_PER_LEAF then do {
          prs \<leftarrow> get_recs ifp (l_prev l);
          prs \<leftarrow> array_copy prs nr_prev (l_recs l) 0 nr_entries 0;
          ifp \<leftarrow> put_recs ifp (l_prev l) prs;
          let cur = (if cur_leaf cur = leaf
                     then \<lparr>cur_leaf = l_prev l, cur_pos = cur_pos cur + int nr_prev\<rparr> else cur);
          ifp \<leftarrow> rebalance_remove_node ifp offset leaf;
          Some (ifp, cur)
        }
        else do {
          nr_next \<leftarrow> (if l_next l \<noteq> 0 then xfs_iext_leaf_nr_entries ifp (l_next l) 0 else Some 0);
          if l_next l \<noteq> 0 \<and> nr_entries + nr_next \<le> RECS_PER_LEAF then do {
            nrs \<leftarrow> get_recs ifp (l_next l);
            rs \<leftarrow> array_copy (l_recs l) nr_entries nrs 0 nr_next 0;
            ifp \<leftarrow> put_recs ifp leaf rs;
            let cur = (if cur_leaf cur = l_next l
                       then \<lparr>cur_leaf = leaf, cur_pos = cur_pos cur + int nr_entries\<rparr> else cur);
            offset \<leftarrow> xfs_iext_leaf_key ifp (l_next l) 0;
            ifp \<leftarrow> rebalance_remove_node ifp offset (l_next l);
            Some (ifp, cur)
          }
          else Some (ifp, cur)
        }
      })"

definition xfs_iext_free_last_leaf :: "xfs_ifork \<Rightarrow> xfs_ifork option" where
  "xfs_iext_free_last_leaf ifp = do {
     let ifp = ifp\<lparr>if_height := if_height ifp - 1\<rparr>;
     ifp \<leftarrow> kfree ifp (if_data ifp);
     Some (ifp\<lparr>if_data := 0\<rparr>)
   }"

text \<open>
  After the record is gone: the new first key goes up the tree, or the cursor moves to the
  next leaf. The result is the state, the cursor and the key by which the leaf is found.
\<close>

definition remove_move_cursor ::
    "xfs_ifork \<Rightarrow> xfs_iext_cursor \<Rightarrow> addr \<Rightarrow> u64 \<Rightarrow> nat \<Rightarrow> (xfs_ifork \<times> xfs_iext_cursor \<times> u64) option" where
  "remove_move_cursor ifp cur leaf offset nr_entries =
     (if cur_pos cur = 0 \<and> nr_entries > 0 then do {
        k \<leftarrow> xfs_iext_leaf_key ifp leaf 0;
        ifp \<leftarrow> xfs_iext_update_node ifp offset k 1 leaf;
        Some (ifp, cur, k)
      }
      else if cur_pos cur = int nr_entries then do {
        nx \<leftarrow> (if if_height ifp > 1 then do { l \<leftarrow> get_leaf ifp leaf; Some (l_next l) } else Some 0);
        Some (ifp, \<lparr>cur_leaf = nx, cur_pos = 0\<rparr>, offset)
      }
      else Some (ifp, cur, offset))"

text \<open>Treating a leaf that has become less than half full.\<close>

definition remove_rebalance ::
    "xfs_ifork \<Rightarrow> xfs_iext_cursor \<Rightarrow> addr \<Rightarrow> u64 \<Rightarrow> nat \<Rightarrow> (xfs_ifork \<times> xfs_iext_cursor) option" where
  "remove_rebalance ifp cur leaf offset nr_entries =
     (if nr_entries \<ge> RECS_PER_LEAF div 2 then Some (ifp, cur)
      else if if_height ifp > 1 then xfs_iext_rebalance_leaf ifp cur leaf offset nr_entries
      else if nr_entries = 0 then do { ifp \<leftarrow> xfs_iext_free_last_leaf ifp; Some (ifp, cur) }
      else Some (ifp, cur))"

definition xfs_iext_remove :: "xfs_ifork \<Rightarrow> xfs_iext_cursor \<Rightarrow> (xfs_ifork \<times> xfs_iext_cursor) option" where
  "xfs_iext_remove ifp cur = do {
     let leaf = cur_leaf cur;
     offset \<leftarrow> xfs_iext_leaf_key ifp leaf 0;
     iext_assert (if_height ifp > 0);
     iext_assert (if_data ifp \<noteq> 0);
     v \<leftarrow> xfs_iext_valid ifp cur;
     iext_assert v;
     let ifp = xfs_iext_inc_seq ifp;
     nr \<leftarrow> xfs_iext_leaf_nr_entries ifp leaf (cur_pos cur);
     iext_assert (nr > 0);
     let nr_entries = nr - 1;
     rs \<leftarrow> get_recs ifp leaf;
     rs \<leftarrow> array_shift_down rs (nat (cur_pos cur)) nr_entries;
     rs \<leftarrow> aset rs nr_entries iext_rec_zero;
     ifp \<leftarrow> put_recs ifp leaf rs;
     let ifp = ifp\<lparr>if_bytes := if_bytes ifp - IEXT_REC_SIZE\<rparr>;
     (ifp, cur, offset) \<leftarrow> remove_move_cursor ifp cur leaf offset nr_entries;
     remove_rebalance ifp cur leaf offset nr_entries
   }"

section \<open>Freeing the tree\<close>

text \<open>\<^verbatim>\<open>xfs_iext_destroy_node\<close> and its loop over the children from index \<open>i\<close>.\<close>

function destroy_node :: "xfs_ifork \<Rightarrow> addr \<Rightarrow> nat \<Rightarrow> xfs_ifork option"
  and destroy_children :: "xfs_ifork \<Rightarrow> addr \<Rightarrow> nat \<Rightarrow> nat \<Rightarrow> xfs_ifork option" where
  "destroy_node ifp node level = do {
     ifp \<leftarrow> (if level > 1 then destroy_children ifp node level 0 else Some ifp);
     kfree ifp node
   }"
| "destroy_children ifp node level i =
     (if level > 1 \<and> i < KEYS_PER_NODE then do {
        n \<leftarrow> get_node ifp node;
        k \<leftarrow> aget (n_keys n) i;
        if k = XFS_IEXT_KEY_INVALID then Some ifp
        else do {
          c \<leftarrow> aget (n_ptrs n) i;
          ifp \<leftarrow> destroy_node ifp c (level - 1);
          destroy_children ifp node level (i + 1)
        }
      }
      else Some ifp)"
  by pat_completeness auto
termination
  by (relation "measures
        [\<lambda>x. case x of Inl (ifp, node, level) \<Rightarrow> level | Inr (ifp, node, level, i) \<Rightarrow> level,
         \<lambda>x. case x of Inl (ifp, node, level) \<Rightarrow> KEYS_PER_NODE + 1 | Inr (ifp, node, level, i) \<Rightarrow> KEYS_PER_NODE - i]")
     auto

declare prev_recurse.simps [code] xfs_iext_insert_node.simps [code] remove_node_again.simps [code]

declare destroy_node.simps [simp del] destroy_children.simps [simp del]

definition xfs_iext_destroy :: "xfs_ifork \<Rightarrow> xfs_ifork option" where
  "xfs_iext_destroy ifp = do {
     ifp \<leftarrow> destroy_node ifp (if_data ifp) (if_height ifp);
     Some (ifp\<lparr>if_bytes := 0, if_height := 0, if_data := 0\<rparr>)
   }"

end
