(* ===== verification/Iext_Level.thy ===== *)
theory Iext_Level
  imports Iext_Tree
begin

text \<open>
  The levels of the in-core extent tree above its leaves. A level is the list of its nodes
  from left to right, each with its address and its live entries; the entries of a level, one
  node after the other, are the first keys and addresses of the level below. The searches, the
  key updates and the insertion of a new block are shown to work on this flat view.
\<close>

section \<open>Arrays\<close>

text \<open>An array of \<open>n\<close> slots holding \<open>xs\<close>, the rest of it filled with \<open>d\<close>.\<close>

definition pad :: "nat \<Rightarrow> 'a \<Rightarrow> 'a list \<Rightarrow> 'a list" where
  "pad n d xs = xs @ replicate (n - length xs) d"

lemma length_pad [simp]: "length xs \<le> n \<Longrightarrow> length (pad n d xs) = n"
  by (simp add: pad_def)

lemma nth_pad: "i < n \<Longrightarrow> pad n d xs ! i = (if i < length xs then xs ! i else d)"
  by (simp add: pad_def nth_append)

lemma aget_pad: "i < n \<Longrightarrow> length xs \<le> n \<Longrightarrow> aget (pad n d xs) i = Some (if i < length xs then xs ! i else d)"
  by (simp add: aget_def nth_pad)

lemma aset_eq: "aset (xs @ y # ys) (length xs) v = Some (xs @ v # ys)"
  by (simp add: aset_def)

lemma list_update_append_cons: "(xs @ y # ys)[length xs := v] = xs @ v # ys"
  by simp

lemma array_copy_eq:
  "d + n \<le> length dst \<Longrightarrow> s + n \<le> length src \<Longrightarrow> i \<le> n \<Longrightarrow>
   array_copy dst d src s n i = Some (take (d + i) dst @ take (n - i) (drop (s + i) src) @ drop (d + n) dst)"
proof (induction dst d src s n i rule: array_copy.induct)
  case (1 dst d src s n i)
  show ?case
  proof (cases "i < n")
    case True
    have step: "array_copy dst d src s n i = array_copy (dst[d + i := src ! (s + i)]) d src s n (i + 1)"
      using True 1(2-4) by (subst array_copy.simps) (simp add: aget_def aset_def)
    have "array_copy (dst[d + i := src ! (s + i)]) d src s n (i + 1) =
        Some (take (d + (i + 1)) (dst[d + i := src ! (s + i)]) @ take (n - (i + 1)) (drop (s + (i + 1)) src)
              @ drop (d + n) (dst[d + i := src ! (s + i)]))"
      using True 1(2-4) by (intro "1.IH") (auto simp: aget_def aset_def)
    also have "take (d + (i + 1)) (dst[d + i := src ! (s + i)]) = take (d + i) dst @ [src ! (s + i)]"
      using True 1(2-4) by (simp add: take_Suc_conv_app_nth)
    also have "take (n - i) (drop (s + i) src) = src ! (s + i) # take (n - (i + 1)) (drop (s + (i + 1)) src)"
      using True 1(2-4) by (simp add: Cons_nth_drop_Suc [symmetric] take_Cons' )
    ultimately show ?thesis using step True by simp
  next
    case False
    then show ?thesis using 1(2-4) by (subst array_copy.simps) simp
  qed
qed

lemma array_fill_eq:
  "n \<le> length xs \<Longrightarrow> i \<le> n \<Longrightarrow> array_fill xs i n v = Some (take i xs @ replicate (n - i) v @ drop n xs)"
proof (induction xs i n v rule: array_fill.induct)
  case (1 xs i n v)
  show ?case
  proof (cases "i < n")
    case True
    have "array_fill xs i n v = array_fill (xs[i := v]) (i + 1) n v"
      using True 1(2,3) by (subst array_fill.simps) (simp add: aset_def)
    also have "\<dots> = Some (take (i + 1) (xs[i := v]) @ replicate (n - (i + 1)) v @ drop n (xs[i := v]))"
      using True 1(2,3) by (intro "1.IH") (auto simp: aset_def)
    also have "take (i + 1) (xs[i := v]) = take i xs @ [v]"
      using True 1(2,3) by (simp add: take_Suc_conv_app_nth)
    finally show ?thesis using True by (simp add: replicate_Suc [symmetric] Suc_diff_Suc del: replicate_Suc)
  next
    case False
    then show ?thesis using 1(2,3) by (subst array_fill.simps) simp
  qed
qed

lemma array_shift_up_eq:
  "i = length A + length B \<Longrightarrow>
   array_shift_up (A @ B @ x # C) i (length A) = Some (A @ hd (B @ [x]) # B @ C)"
proof (induction B arbitrary: i x C rule: rev_induct)
  case Nil
  then show ?case by (subst array_shift_up.simps) simp
next
  case (snoc b B)
  have "array_shift_up (A @ (B @ [b]) @ x # C) i (length A) =
        array_shift_up (A @ B @ b # (b # C)) (length A + length B) (length A)"
    using snoc.prems
    by (subst array_shift_up.simps)
       (simp add: aget_def aset_def nth_append list_update_append)
  also have "\<dots> = Some (A @ hd (B @ [b]) # B @ b # C)" by (rule snoc.IH) simp
  finally show ?case by (cases B) simp_all
qed

lemma array_shift_down_eq:
  "i = length A \<Longrightarrow> n = length A + length B \<Longrightarrow>
   array_shift_down (A @ x # B @ C) i n = Some (A @ B @ last (x # B) # C)"
proof (induction B arbitrary: A x i)
  case Nil
  then show ?case by (subst array_shift_down.simps) simp
next
  case (Cons b B)
  have "array_shift_down (A @ x # (b # B) @ C) i n = array_shift_down ((A @ [b]) @ b # B @ C) (i + 1) n"
    using Cons.prems by (subst array_shift_down.simps) (simp add: aget_def aset_def nth_append)
  also have "\<dots> = Some ((A @ [b]) @ B @ last (b # B) # C)" using Cons.prems by (intro Cons.IH) auto
  finally show ?case by simp
qed

text \<open>Inserting into, removing from and appending to a padded array.\<close>

lemma shift_up_pad:
  assumes "length A + length B < n"
  obtains ys where "array_shift_up (pad n d (A @ B)) (length A + length B) (length A) = Some ys"
    "\<And>v. aset ys (length A) v = Some (pad n d (A @ v # B))"
proof
  let ?m = "n - Suc (length A + length B)"
  have m: "n - (length A + length B) = Suc ?m" using assms by simp
  show "array_shift_up (pad n d (A @ B)) (length A + length B) (length A) =
      Some (A @ hd (B @ [d]) # B @ replicate ?m d)"
    using array_shift_up_eq [of _ A B d "replicate ?m d"] m by (simp add: pad_def)
  show "aset (A @ hd (B @ [d]) # B @ replicate ?m d) (length A) v = Some (pad n d (A @ v # B))" for v
    by (simp add: aset_def pad_def)
qed

lemma shift_down_pad:
  assumes "length A + length B < n"
  obtains ys where "array_shift_down (pad n d (A @ x # B)) (length A) (length A + length B) = Some ys"
    "aset ys (length A + length B) d = Some (pad n d (A @ B))"
proof
  let ?m = "n - Suc (length A + length B)"
  have m: "n - (length A + length B) = Suc ?m" using assms by simp
  show "array_shift_down (pad n d (A @ x # B)) (length A) (length A + length B) =
      Some (A @ B @ last (x # B) # replicate ?m d)"
    using array_shift_down_eq [of _ A _ B x "replicate ?m d"] by (simp add: pad_def)
  show "aset (A @ B @ last (x # B) # replicate ?m d) (length A + length B) d = Some (pad n d (A @ B))"
    using aset_eq [of "A @ B"] m by (simp add: pad_def)
qed

lemma copy_pad:
  assumes "length A + length B \<le> n" "length B \<le> m"
  shows "array_copy (pad n d A) (length A) (pad m e B) 0 (length B) 0 = Some (pad n d (A @ B))"
  using assms by (subst array_copy_eq) (auto simp: pad_def)

section \<open>Nodes\<close>

type_synonym ent = "u64 \<times> addr"
type_synonym unode = "addr \<times> ent list"
type_synonym mem = "addr \<Rightarrow> iext_block option"

text \<open>The memory image of a node with the given entries.\<close>

definition node_of :: "ent list \<Rightarrow> xfs_iext_node" where
  "node_of es =
     \<lparr>n_keys = pad KEYS_PER_NODE XFS_IEXT_KEY_INVALID (map fst es),
      n_ptrs = pad KEYS_PER_NODE 0 (map snd es)\<rparr>"

lemma node_of_ptr [simp]:
  "length E < 16 \<Longrightarrow> length (E @ (k, p) # F) \<le> 16 \<Longrightarrow> aget (n_ptrs (node_of (E @ (k, p) # F))) (length E) = Some p"
  by (simp add: node_of_def aget_pad nth_append)

lemma node_of_key:
  "length E < 16 \<Longrightarrow> length (E @ (k, p) # F) \<le> 16 \<Longrightarrow> aget (n_keys (node_of (E @ (k, p) # F))) (length E) = Some k"
  by (simp add: node_of_def aget_pad nth_append)

lemma node_of_first [simp]:
  "es \<noteq> [] \<Longrightarrow> length es \<le> 16 \<Longrightarrow> aget (n_keys (node_of es)) 0 = Some (fst (hd es))"
  by (cases es) (simp_all add: node_of_def aget_pad)

lemma key_cmp_loop_eq:
  assumes "i \<le> length E" "length (E @ F) \<le> 16" "offset < XFS_IEXT_KEY_INVALID"
    and "\<And>j. i \<le> j \<Longrightarrow> j < length E \<Longrightarrow> fst (E ! j) \<le> offset" "F \<noteq> [] \<Longrightarrow> offset < fst (hd F)"
  shows "key_cmp_loop (node_of (E @ F)) offset i = Some (length E)"
  using assms(1,4)
proof (induction "length E - i" arbitrary: i)
  case 0
  then have i: "i = length E" by simp
  show ?case
  proof (cases "i < 16")
    case True
    have "aget (n_keys (node_of (E @ F))) i = Some (if F = [] then XFS_IEXT_KEY_INVALID else fst (hd F))"
      using True assms(2) i by (cases F) (simp_all add: node_of_def aget_pad nth_append)
    then show ?thesis
      using True i assms(3,5) by (subst key_cmp_loop.simps) (simp add: xfs_iext_key_cmp_def)
  next
    case False
    then show ?thesis using i assms(2) by (subst key_cmp_loop.simps) simp
  qed
next
  case (Suc m)
  then have i: "i < length E" by simp
  have "aget (n_keys (node_of (E @ F))) i = Some (fst (E ! i))"
    using i assms(2) by (simp add: node_of_def aget_pad nth_append)
  moreover have "fst (E ! i) \<le> offset" using Suc.prems i by simp
  moreover have "key_cmp_loop (node_of (E @ F)) offset (i + 1) = Some (length E)"
    using Suc.hyps(2) Suc.prems i by (intro Suc.hyps(1)) auto
  ultimately show ?case
    using i assms(2) by (subst key_cmp_loop.simps) (auto simp: xfs_iext_key_cmp_def)
qed

lemma node_nr_entries_eq:
  assumes "i \<le> length es" "length es \<le> 16" "\<And>e. e \<in> set es \<Longrightarrow> fst e < XFS_IEXT_KEY_INVALID"
  shows "xfs_iext_node_nr_entries (node_of es) i = Some (length es)"
  using assms(1)
proof (induction "length es - i" arbitrary: i)
  case 0
  then show ?case
    using assms(2) by (subst xfs_iext_node_nr_entries.simps) (auto simp: node_of_def aget_pad)
next
  case (Suc m)
  then have i: "i < length es" by simp
  then have "fst (es ! i) \<noteq> XFS_IEXT_KEY_INVALID" using assms(3) [of "es ! i"] by auto
  moreover have "xfs_iext_node_nr_entries (node_of es) (i + 1) = Some (length es)"
    using Suc.hyps(2) i by (intro Suc.hyps(1)) auto
  ultimately show ?case
    using i assms(2) by (subst xfs_iext_node_nr_entries.simps) (simp add: node_of_def aget_pad)
qed


section \<open>Levels\<close>

text \<open>The entry that stands for a node in the level above it.\<close>

definition ukey :: "unode \<Rightarrow> ent" where
  "ukey u = (fst (hd (snd u)), fst u)"

text \<open>Entries in key order, with proper keys and addresses.\<close>

definition ents_ok :: "ent list \<Rightarrow> bool" where
  "ents_ok es \<longleftrightarrow> sorted_wrt (<) (map fst es) \<and> (\<forall>e \<in> set es. fst e < XFS_IEXT_KEY_INVALID \<and> snd e \<noteq> 0)"

definition unode_ok :: "mem \<Rightarrow> unode \<Rightarrow> bool" where
  "unode_ok m u \<longleftrightarrow>
     fst u \<noteq> 0 \<and> snd u \<noteq> [] \<and> length (snd u) \<le> KEYS_PER_NODE \<and> m (fst u) = Some (Node (node_of (snd u)))"

text \<open>The levels over the blocks with entries \<open>ents\<close>, lowest first, up to the root.\<close>

primrec uppers :: "mem \<Rightarrow> addr \<Rightarrow> ent list \<Rightarrow> unode list list \<Rightarrow> bool" where
  "uppers m root ents [] \<longleftrightarrow> (\<exists>k. ents = [(k, root)])"
| "uppers m root ents (u # us) \<longleftrightarrow>
     concat (map snd u) = ents \<and> (\<forall>x \<in> set u. unode_ok m x) \<and> uppers m root (map ukey u) us"

definition uaddrs :: "unode list list \<Rightarrow> addr list" where
  "uaddrs us = concat (map (map fst) us)"

lemma uaddrs_simps [simp]: "uaddrs [] = []" "uaddrs (u # us) = map fst u @ uaddrs us"
  by (simp_all add: uaddrs_def)

lemma uppers_frame:
  "uppers m root ents us \<Longrightarrow> (\<And>a. a \<in> set (uaddrs us) \<Longrightarrow> m' a = m a) \<Longrightarrow> uppers m' root ents us"
  by (induction us arbitrary: ents) (auto simp: unode_ok_def)

lemma unodes_split:
  assumes "concat (map snd u) = X @ x # Y"
  obtains A a E F C where "u = A @ (a, E @ x # F) # C" "X = concat (map snd A) @ E" "Y = F @ concat (map snd C)"
proof -
  have "\<exists>A a E F C. u = A @ (a, E @ x # F) # C \<and> X = concat (map snd A) @ E \<and> Y = F @ concat (map snd C)"
    using assms
  proof (induction u arbitrary: X)
    case Nil
    then show ?case by simp
  next
    case (Cons n u)
    obtain a es where n: "n = (a, es)" by (cases n)
    from Cons.prems n have eq: "es @ concat (map snd u) = X @ x # Y" by simp
    then consider us where "X = es @ us" "concat (map snd u) = us @ x # Y"
      | us where "es = X @ x # us" "us @ concat (map snd u) = Y"
      by (auto simp: append_eq_append_conv2 append_eq_Cons_conv)
    then show ?case
    proof cases
      case 1
      from Cons.IH [OF 1(2)] obtain A b E F C where
        "u = A @ (b, E @ x # F) # C" "us = concat (map snd A) @ E" "Y = F @ concat (map snd C)" by blast
      then have "n # u = (n # A) @ (b, E @ x # F) # C \<and> X = concat (map snd (n # A)) @ E
          \<and> Y = F @ concat (map snd C)" using 1(1) n by simp
      then show ?thesis by blast
    next
      case 2
      then have "n # u = [] @ (a, X @ x # us) # u \<and> X = concat (map snd []) @ X \<and> Y = us @ concat (map snd u)"
        using n by simp
      then show ?thesis by blast
    qed
  qed
  then show ?thesis using that by blast
qed

lemma ents_ok_append:
  "ents_ok (xs @ ys) \<longleftrightarrow> ents_ok xs \<and> ents_ok ys \<and> (\<forall>x \<in> set xs. \<forall>y \<in> set ys. fst x < fst y)"
  by (auto simp: ents_ok_def sorted_wrt_append)

lemma ents_ok_Cons:
  "ents_ok (x # ys) \<longleftrightarrow> fst x < XFS_IEXT_KEY_INVALID \<and> snd x \<noteq> 0 \<and> ents_ok ys \<and> (\<forall>y \<in> set ys. fst x < fst y)"
  by (auto simp: ents_ok_def)

lemma ents_ok_Nil [simp]: "ents_ok []"
  by (simp add: ents_ok_def)

lemmas ents_ok_simps = ents_ok_append ents_ok_Cons

lemma ukey_in: "unode_ok m u \<Longrightarrow> \<exists>e \<in> set (snd u). fst e = fst (ukey u)"
  by (cases u; cases "snd u") (auto simp: unode_ok_def ukey_def)

lemma ukeys_ok:
  "ents_ok (concat (map snd u)) \<Longrightarrow> \<forall>x \<in> set u. unode_ok m x \<Longrightarrow> ents_ok (map ukey u)"
proof (induction u)
  case Nil
  then show ?case by simp
next
  case (Cons x u)
  from Cons.prems obtain e where e: "e \<in> set (snd x)" "fst e = fst (ukey x)" using ukey_in by fastforce
  have "fst (ukey x) < fst (ukey y)" if y: "y \<in> set u" for y
  proof -
    from y Cons.prems obtain f where f: "f \<in> set (snd y)" "fst f = fst (ukey y)" using ukey_in by fastforce
    from y f have "f \<in> set (concat (map snd u))" by auto
    with e(1) Cons.prems(1) have "fst e < fst f" by (auto simp: ents_ok_append)
    then show ?thesis by (simp only: e(2) f(2))
  qed
  moreover have "fst (ukey x) < XFS_IEXT_KEY_INVALID"
  proof -
    have "fst e < XFS_IEXT_KEY_INVALID" using e(1) Cons.prems(1) by (simp add: ents_ok_def)
    then show ?thesis by (simp only: e(2))
  qed
  moreover have "snd (ukey x) \<noteq> 0" using Cons.prems(2) by (simp add: unode_ok_def ukey_def)
  ultimately show ?case using Cons by (auto simp: ents_ok_simps)
qed

section \<open>Searching\<close>

text \<open>The entry with key \<open>k\<close> between \<open>X\<close> and \<open>Y\<close> is the one a search for the offset selects.\<close>

definition seek :: "u64 \<Rightarrow> ent list \<Rightarrow> u64 \<Rightarrow> ent list \<Rightarrow> bool" where
  "seek offset X k Y \<longleftrightarrow> (X \<noteq> [] \<longrightarrow> k \<le> offset) \<and> (\<forall>e \<in> set Y. offset < fst e)"

lemma seek_exists:
  assumes "ents_ok es" "es \<noteq> []"
  obtains X k p Y where "es = X @ (k, p) # Y" "seek offset X k Y"
proof -
  have "\<exists>X k p Y. es = X @ (k, p) # Y \<and> seek offset X k Y"
    using assms
  proof (induction es)
    case Nil
    then show ?case by simp
  next
    case (Cons e es)
    obtain k p where e: "e = (k, p)" by (cases e)
    show ?case
    proof (cases "es = [] \<or> offset < fst (hd es)")
      case True
      have "\<forall>y \<in> set es. offset < fst y"
        using True Cons.prems by (cases es) (auto simp: ents_ok_Cons)
      then have "e # es = [] @ (k, p) # es \<and> seek offset [] k es" using e by (simp add: seek_def)
      then show ?thesis by blast
    next
      case False
      then obtain X j q Y where s: "es = X @ (j, q) # Y" "seek offset X j Y"
        using Cons by (auto simp: ents_ok_Cons)
      have "j \<le> offset" using False s by (cases X) (auto simp: seek_def)
      then have "e # es = (e # X) @ (j, q) # Y \<and> seek offset (e # X) j Y"
        using s by (simp add: seek_def)
      then show ?thesis by blast
    qed
  qed
  then show ?thesis using that by blast
qed

lemma seek_up:
  assumes "concat (map snd u) = X @ (k, p) # Y" "\<forall>x \<in> set u. unode_ok m x"
    and "ents_ok (X @ (k, p) # Y)" "seek offset X k Y"
  obtains A a E F C where "u = A @ (a, E @ (k, p) # F) # C" "X = concat (map snd A) @ E"
    "Y = F @ concat (map snd C)" "seek offset E k F"
    "seek offset (map ukey A) (fst (hd (E @ (k, p) # F))) (map ukey C)"
proof -
  from unodes_split [OF assms(1)] obtain A a E F C where
    u: "u = A @ (a, E @ (k, p) # F) # C" and X: "X = concat (map snd A) @ E"
    and Y: "Y = F @ concat (map snd C)" .
  have "seek offset E k F" using assms(4) X Y by (auto simp: seek_def)
  moreover have "fst (hd (E @ (k, p) # F)) \<le> offset" if "A \<noteq> []"
  proof -
    from that assms(2) u have "concat (map snd A) \<noteq> []" by (cases A) (auto simp: unode_ok_def)
    then have "k \<le> offset" using X assms(4) by (simp add: seek_def)
    then show ?thesis using assms(3) X by (cases E) (auto simp: ents_ok_simps)
  qed
  moreover have "offset < fst (ukey c)" if c: "c \<in> set C" for c
  proof -
    from c assms(2) u obtain e where e: "e \<in> set (snd c)" "fst e = fst (ukey c)"
      using ukey_in [of m c] by auto
    then have "e \<in> set Y" using c Y by auto
    then show ?thesis using e assms(4) by (auto simp: seek_def)
  qed
  ultimately have "seek offset (map ukey A) (fst (hd (E @ (k, p) # F))) (map ukey C)"
    by (auto simp: seek_def)
  then show ?thesis using u X Y \<open>seek offset E k F\<close> that by blast
qed

lemma seek_le: "ents_ok (E @ (k, p) # F) \<Longrightarrow> seek offset E k F \<Longrightarrow> e \<in> set E \<Longrightarrow> fst e \<le> offset"
  by (fastforce simp: seek_def ents_ok_simps)

lemma node_search:
  assumes "ents_ok (E @ (k, p) # F)" "seek offset E k F" "length (E @ (k, p) # F) \<le> 16"
    "offset < XFS_IEXT_KEY_INVALID"
  shows "key_cmp_loop (node_of (E @ (k, p) # F)) offset 1 = Some (length E + 1)"
proof -
  have "key_cmp_loop (node_of ((E @ [(k, p)]) @ F)) offset 1 = Some (length (E @ [(k, p)]))"
  proof (rule key_cmp_loop_eq)
    show "fst ((E @ [(k, p)]) ! j) \<le> offset" if "1 \<le> j" "j < length (E @ [(k, p)])" for j
    proof (cases "j < length E")
      case True
      then show ?thesis using seek_le [OF assms(1,2), of "E ! j"] by (simp add: nth_append)
    next
      case False
      with that have "j = length E" "E \<noteq> []" by auto
      then show ?thesis using assms(2) by (simp add: seek_def)
    qed
    show "offset < fst (hd F)" if "F \<noteq> []" using that assms(2) by (simp add: seek_def)
  qed (use assms in auto)
  then show ?thesis by simp
qed

lemma get_node_eq: "if_mem ifp a = Some (Node n) \<Longrightarrow> get_node ifp a = Some n"
  by (simp add: get_node_def)

lemma find_level_loop_add:
  "find_level_loop ifp offset n a = Some b \<Longrightarrow> b \<noteq> 0 \<Longrightarrow>
   find_level_loop ifp offset (n + l) a = find_level_loop ifp offset l b"
proof (induction n arbitrary: a)
  case (Suc n)
  then show ?case by (auto simp: Option.bind_eq_Some_conv split: if_splits)
qed simp

lemma find_uppers:
  "uppers (if_mem ifp) root ents us \<Longrightarrow> ents_ok ents \<Longrightarrow> ents = X @ (k, p) # Y \<Longrightarrow> seek offset X k Y \<Longrightarrow>
   offset < XFS_IEXT_KEY_INVALID \<Longrightarrow> find_level_loop ifp offset (length us) root = Some p"
proof (induction us arbitrary: ents X k p Y)
  case Nil
  then show ?case by (auto simp: append_eq_Cons_conv)
next
  case (Cons u us)
  from Cons.prems(1) have u: "concat (map snd u) = ents" "\<forall>x \<in> set u. unode_ok (if_mem ifp) x"
    and up: "uppers (if_mem ifp) root (map ukey u) us" by auto
  obtain A a E F C where s: "u = A @ (a, E @ (k, p) # F) # C" "X = concat (map snd A) @ E"
    "Y = F @ concat (map snd C)" "seek offset E k F"
    "seek offset (map ukey A) (fst (hd (E @ (k, p) # F))) (map ukey C)"
    by (rule seek_up [of u X k p Y "if_mem ifp" offset]) (use u Cons.prems in auto)
  have "find_level_loop ifp offset (length us) root = Some a"
    by (rule Cons.IH [OF up ukeys_ok, of "if_mem ifp" _ "fst (hd (E @ (k, p) # F))"])
       (use u s Cons.prems in \<open>auto simp: ukey_def\<close>)
  moreover have ok: "unode_ok (if_mem ifp) (a, E @ (k, p) # F)" using u(2) s(1) by simp
  moreover have "key_cmp_loop (node_of (E @ (k, p) # F)) offset 1 = Some (length E + 1)"
    using node_search s Cons.prems ok by (auto simp: ents_ok_simps unode_ok_def)
  moreover have "p \<noteq> 0" using Cons.prems by (auto simp: ents_ok_simps)
  ultimately show ?case
    using find_level_loop_add [of ifp offset "length us" root a 1]
    by (auto simp: unode_ok_def get_node_eq)
qed

section \<open>Changing the first key of a block\<close>

lemma update_keys_loop_eq:
  assumes "i \<le> length E" "length (E @ k # F) \<le> 16" "\<And>x. x \<in> set E \<Longrightarrow> x < old" "k \<le> old"
    "\<And>x. x \<in> set F \<Longrightarrow> old < x" "old < XFS_IEXT_KEY_INVALID"
  shows "update_keys_loop (pad 16 XFS_IEXT_KEY_INVALID (E @ k # F)) old new i =
    Some (pad 16 XFS_IEXT_KEY_INVALID (E @ (if k = old then new else k) # F), length E + 1)"
  using assms(1)
proof (induction "length E - i" arbitrary: i)
  case 0
  let ?k = "if k = old then new else k"
  have i: "i = length E" using 0 by simp
  have pad: "aget (pad 16 XFS_IEXT_KEY_INVALID (E @ k # F)) i = Some k"
    using i assms(2) by (simp add: aget_pad nth_append)
  have set: "(if k = old then aset (pad 16 XFS_IEXT_KEY_INVALID (E @ k # F)) i new
      else Some (pad 16 XFS_IEXT_KEY_INVALID (E @ k # F))) = Some (pad 16 XFS_IEXT_KEY_INVALID (E @ ?k # F))"
    using i assms(2) by (simp add: aset_def pad_def)
  have "update_keys_loop (pad 16 XFS_IEXT_KEY_INVALID (E @ ?k # F)) old new (i + 1) =
      Some (pad 16 XFS_IEXT_KEY_INVALID (E @ ?k # F), i + 1)"
  proof (cases "i + 1 < 16")
    case True
    have "aget (pad 16 XFS_IEXT_KEY_INVALID (E @ ?k # F)) (i + 1) =
        Some (if F = [] then XFS_IEXT_KEY_INVALID else hd F)"
      using True i assms(2) by (cases F) (auto simp: aget_pad nth_append)
    moreover have "old < (if F = [] then XFS_IEXT_KEY_INVALID else hd F)" using assms(5,6) by simp
    ultimately show ?thesis using True by (subst update_keys_loop.simps) simp
  next
    case False
    then show ?thesis by (subst update_keys_loop.simps) simp
  qed
  with pad set assms(2,4) i show ?case
    by (subst update_keys_loop.simps) (cases "k = old"; simp add: linorder_not_less [symmetric])
next
  case (Suc m)
  then have i: "i < length E" by simp
  then have lt: "E ! i < old" using assms(3) by simp
  have "aget (pad 16 XFS_IEXT_KEY_INVALID (E @ k # F)) i = Some (E ! i)"
    using i assms(2) by (simp add: aget_pad nth_append)
  moreover have "update_keys_loop (pad 16 XFS_IEXT_KEY_INVALID (E @ k # F)) old new (i + 1) =
    Some (pad 16 XFS_IEXT_KEY_INVALID (E @ (if k = old then new else k) # F), length E + 1)"
    using Suc.hyps(2) i by (intro Suc.hyps(1)) auto
  ultimately show ?case using i lt assms(2) by (subst update_keys_loop.simps) auto
qed

lemma update_node_loop_add:
  "update_node_loop ifp old new (n + l) a =
     do { (ifp, b) \<leftarrow> update_node_loop ifp old new n a; update_node_loop ifp old new l b }"
  by (induction n arbitrary: ifp a) (auto simp: Let_def intro!: Option.bind_cong split: prod.splits)

lemma put_block_simps [simp]:
  "if_mem (put_block ifp a b) = (if_mem ifp)(a \<mapsto> b)" "if_brk (put_block ifp a b) = if_brk ifp"
  "if_bytes (put_block ifp a b) = if_bytes ifp" "if_seq (put_block ifp a b) = if_seq ifp"
  "if_height (put_block ifp a b) = if_height ifp" "if_data (put_block ifp a b) = if_data ifp"
  by (simp_all add: put_block_def)

text \<open>Two forks that differ at most in the memory at the given addresses.\<close>

definition mem_change :: "addr set \<Rightarrow> xfs_ifork \<Rightarrow> xfs_ifork \<Rightarrow> bool" where
  "mem_change S ifp ifp' \<longleftrightarrow>
     if_bytes ifp' = if_bytes ifp \<and> if_seq ifp' = if_seq ifp \<and> if_height ifp' = if_height ifp \<and>
     if_data ifp' = if_data ifp \<and> if_brk ifp' = if_brk ifp \<and> (\<forall>a. a \<notin> S \<longrightarrow> if_mem ifp' a = if_mem ifp a)"

lemma update_node_loop_step:
  assumes "unode_ok (if_mem ifp) (a, E @ (k, p) # F)" "ents_ok (E @ (k, p) # F)" "k \<le> old"
    "\<And>e. e \<in> set F \<Longrightarrow> old < fst e" "old < XFS_IEXT_KEY_INVALID"
  shows "update_node_loop ifp old new 1 a =
     Some (put_block ifp a (Node (node_of (E @ (if k = old then new else k, p) # F))), p)"
proof -
  have len: "length (E @ (k, p) # F) \<le> 16" and m: "get_node ifp a = Some (node_of (E @ (k, p) # F))"
    using assms(1) by (auto simp: unode_ok_def get_node_eq)
  have "update_keys_loop (pad 16 XFS_IEXT_KEY_INVALID (map fst E @ k # map fst F)) old new 0 =
    Some (pad 16 XFS_IEXT_KEY_INVALID (map fst E @ (if k = old then new else k) # map fst F), length (map fst E) + 1)"
    by (rule update_keys_loop_eq) (use len assms in \<open>fastforce simp: ents_ok_simps\<close>)+
  moreover have "aget (n_ptrs (node_of (E @ (k, p) # F))) (length E) = Some p" using len by simp
  moreover have "p \<noteq> 0" using assms(2) by (simp add: ents_ok_simps)
  ultimately show ?thesis using m by (simp add: node_of_def iext_assert_def)
qed

lemma update_uppers:
  "uppers (if_mem ifp) root ents us \<Longrightarrow> ents_ok ents \<Longrightarrow> ents = X @ (k, p) # Y \<Longrightarrow> k \<le> old \<Longrightarrow>
   (\<And>e. e \<in> set Y \<Longrightarrow> old < fst e) \<Longrightarrow> old < XFS_IEXT_KEY_INVALID \<Longrightarrow> distinct (uaddrs us) \<Longrightarrow>
   \<exists>ifp' us'. update_node_loop ifp old new (length us) root = Some (ifp', p) \<and>
     mem_change (set (uaddrs us)) ifp ifp' \<and>
     uppers (if_mem ifp') root (X @ (if k = old then new else k, p) # Y) us' \<and>
     map (map fst) us' = map (map fst) us"
proof (induction us arbitrary: ents X k p Y)
  case Nil
  then have "X = [] \<and> Y = [] \<and> p = root" by (auto simp: append_eq_Cons_conv)
  then show ?case by (auto simp: mem_change_def)
next
  case (Cons u us)
  from Cons.prems(1) have u: "concat (map snd u) = ents" "\<forall>x \<in> set u. unode_ok (if_mem ifp) x"
    and up: "uppers (if_mem ifp) root (map ukey u) us" by auto
  have "seek old X k Y" using Cons.prems(4,5) by (simp add: seek_def)
  then obtain A a E F C where s: "u = A @ (a, E @ (k, p) # F) # C" "X = concat (map snd A) @ E"
    "Y = F @ concat (map snd C)"
    and up_seek: "seek old (map ukey A) (fst (hd (E @ (k, p) # F))) (map ukey C)"
    using seek_up [of u X k p Y "if_mem ifp" old] u Cons.prems by metis
  let ?k = "if k = old then new else k"
  let ?h = "fst (hd (E @ (k, p) # F))"
  have okE: "ents_ok (E @ (k, p) # F)" using Cons.prems(2,3) s by (simp add: ents_ok_simps)
  have ok: "unode_ok (if_mem ifp) (a, E @ (k, p) # F)" using u(2) s(1) by simp
  have hle: "?h \<le> old" using okE Cons.prems(4) by (cases E) (auto simp: ents_ok_simps)
  have "\<exists>ifp' us'. update_node_loop ifp old new (length us) root = Some (ifp', a) \<and>
     mem_change (set (uaddrs us)) ifp ifp' \<and>
     uppers (if_mem ifp') root (map ukey A @ (if ?h = old then new else ?h, a) # map ukey C) us' \<and>
     map (map fst) us' = map (map fst) us"
  proof (rule Cons.IH [OF up ukeys_ok])
    show "map ukey u = map ukey A @ (?h, a) # map ukey C" using s(1) by (simp add: ukey_def)
    show "old < fst e" if "e \<in> set (map ukey C)" for e using that up_seek by (auto simp: seek_def)
  qed (use u s Cons.prems hle in auto)
  then obtain ifp1 us' where r: "update_node_loop ifp old new (length us) root = Some (ifp1, a)"
    and ch: "mem_change (set (uaddrs us)) ifp ifp1"
    and up': "uppers (if_mem ifp1) root (map ukey A @ (if ?h = old then new else ?h, a) # map ukey C) us'"
    and same: "map (map fst) us' = map (map fst) us" by blast
  let ?u = "A @ (a, E @ (?k, p) # F) # C"
  let ?ifp = "put_block ifp1 a (Node (node_of (E @ (?k, p) # F)))"
  have off: "a \<notin> set (uaddrs us)" "\<And>x. x \<in> set A \<union> set C \<Longrightarrow> fst x \<notin> set (uaddrs us) \<and> fst x \<noteq> a"
    using Cons.prems(7) s(1) by (auto simp: image_iff)
  have ok1: "unode_ok (if_mem ifp1) (a, E @ (k, p) # F)"
    using ok ch off(1) by (simp add: unode_ok_def mem_change_def)
  have same': "uaddrs us' = uaddrs us" using same by (simp add: uaddrs_def)
  have len: "length (u # us) = length us + 1" by simp
  have "update_node_loop ifp old new (length (u # us)) root = Some (?ifp, p)"
    using update_node_loop_step [OF ok1 okE Cons.prems(4) _ Cons.prems(6), of new] Cons.prems(5) s(3) r
    by (simp only: len update_node_loop_add) simp
  moreover have "mem_change (set (uaddrs (u # us))) ifp ?ifp"
    using ch s(1) by (auto simp: mem_change_def)
  moreover have "uppers (if_mem ?ifp) root (X @ (?k, p) # Y) (?u # us')"
  proof -
    have key: "fst (hd (E @ (?k, p) # F)) = (if ?h = old then new else ?h)"
    proof (cases E)
      case Nil
      then show ?thesis by simp
    next
      case (Cons e E')
      then have "fst e < k" using okE by (simp add: ents_ok_simps)
      then show ?thesis using Cons \<open>k \<le> old\<close> by auto
    qed
    have "\<forall>x \<in> set ?u. unode_ok (if_mem ?ifp) x"
      using u(2) s(1) off ch ok by (auto simp: unode_ok_def mem_change_def)
    moreover have "uppers (if_mem ?ifp) root (map ukey ?u) us'"
      using up' by (rule uppers_frame [THEN back_subst [of "\<lambda>x. uppers _ _ x _"]])
        (use same' off key in \<open>auto simp: ukey_def\<close>)
    ultimately show ?thesis using s by simp
  qed
  moreover have "map (map fst) (?u # us') = map (map fst) (u # us)" using same s(1) by simp
  ultimately show ?case by blast
qed

section \<open>Inserting a block\<close>

lemma node_store_entry_eq:
  assumes "if_mem ifp a = Some (Node (node_of (A @ B)))" "length A + length B < 16"
    "n = length A + length B" "i = length A"
  shows "node_store_entry ifp a n i off ptr = Some (put_block ifp a (Node (node_of (A @ (off, ptr) # B))))"
proof -
  have len: "length (map fst A) + length (map fst B) < 16" "length (map snd A) + length (map snd B) < 16"
    using assms(2) by simp_all
  obtain ks where ks: "array_shift_up (pad 16 XFS_IEXT_KEY_INVALID (map fst A @ map fst B)) n i = Some ks"
    "\<And>v. aset ks i v = Some (pad 16 XFS_IEXT_KEY_INVALID (map fst A @ v # map fst B))"
    using shift_up_pad [OF len(1)] assms(3,4) by (metis length_map)
  obtain ps where ps: "array_shift_up (pad 16 0 (map snd A @ map snd B)) n i = Some ps"
    "\<And>v. aset ps i v = Some (pad 16 0 (map snd A @ v # map snd B))"
    using shift_up_pad [OF len(2)] assms(3,4) by (metis length_map)
  show ?thesis
    using assms(1) ks ps by (simp add: node_store_entry_def get_node_eq node_of_def)
qed

text \<open>Two forks with the same fields other than the memory.\<close>

definition same_fork :: "xfs_ifork \<Rightarrow> xfs_ifork \<Rightarrow> bool" where
  "same_fork ifp ifp' \<longleftrightarrow>
     if_bytes ifp' = if_bytes ifp \<and> if_seq ifp' = if_seq ifp \<and> if_height ifp' = if_height ifp \<and>
     if_data ifp' = if_data ifp"

lemma node_of_Nil: "node_of [] = \<lparr>n_keys = replicate 16 XFS_IEXT_KEY_INVALID, n_ptrs = replicate 16 0\<rparr>"
  by (simp add: node_of_def pad_def)

lemma split_node_append:
  obtains ifp' where "xfs_iext_split_node ifp a 16 = Some (ifp', if_brk ifp, if_brk ifp, 0, 0)"
    "same_fork ifp ifp'" "if_brk ifp' = Suc (if_brk ifp)"
    "if_mem ifp' = (if_mem ifp)(if_brk ifp \<mapsto> Node (node_of []))"
proof
  have z: "length (n_keys zero_node) = 16" by (simp add: zero_node_def)
  let ?ifp = "put_block (snd (kzalloc ifp (Node zero_node))) (if_brk ifp) (Node (node_of []))"
  show "xfs_iext_split_node ifp a 16 = Some (?ifp, if_brk ifp, if_brk ifp, 0, 0)"
    by (simp add: xfs_iext_split_node_def kzalloc_def array_fill_eq z node_of_Nil) (simp add: zero_node_def)
qed (auto simp: same_fork_def kzalloc_def)

lemma split_node_half:
  assumes "if_mem ifp a = Some (Node (node_of es))" "length es = 16" "pos < 16" "a \<noteq> if_brk ifp"
  obtains ifp' where
    "xfs_iext_split_node ifp a pos =
       Some (if pos \<ge> 8 then (ifp', if_brk ifp, if_brk ifp, pos - 8, 8) else (ifp', if_brk ifp, a, pos, 8))"
    "same_fork ifp ifp'" "if_brk ifp' = Suc (if_brk ifp)"
    "if_mem ifp' = (if_mem ifp)(a \<mapsto> Node (node_of (take 8 es)), if_brk ifp \<mapsto> Node (node_of (drop 8 es)))"
proof
  let ?ifp = "put_block (put_block (snd (kzalloc ifp (Node zero_node))) a (Node (node_of (take 8 es))))
     (if_brk ifp) (Node (node_of (drop 8 es)))"
  have g: "get_node (snd (kzalloc ifp (Node zero_node))) a = Some (node_of es)"
    using assms by (simp add: get_node_def kzalloc_def)
  have es: "n_keys (node_of es) = map fst es" "n_ptrs (node_of es) = map snd es"
    using assms(2) by (simp_all add: node_of_def pad_def)
  have z: "n_keys zero_node = replicate 16 0" "n_ptrs zero_node = replicate 16 0"
    by (simp_all add: zero_node_def)
  show "xfs_iext_split_node ifp a pos =
       Some (if pos \<ge> 8 then (?ifp, if_brk ifp, if_brk ifp, pos - 8, 8) else (?ifp, if_brk ifp, a, pos, 8))"
    using assms(2,3) g
    by (simp add: xfs_iext_split_node_def array_copy_eq array_fill_eq es z split_beta)
       (simp add: kzalloc_def node_of_def pad_def take_map drop_map)
qed (use assms(4) in \<open>auto simp: same_fork_def kzalloc_def fun_upd_twist\<close>)

lemma ents_ok_mid: "ents_ok (A @ B @ C) \<Longrightarrow> ents_ok B"
  by (simp add: ents_ok_append)

lemma uppers_head:
  assumes "uppers m root ents (u # us)" "ents_ok ents" "ents = X @ (k, p) # Y"
  obtains A a E F C where "u = A @ (a, E @ (k, p) # F) # C" "X = concat (map snd A) @ E"
    "Y = F @ concat (map snd C)" "unode_ok m (a, E @ (k, p) # F)" "ents_ok (E @ (k, p) # F)"
proof -
  from assms have "concat (map snd u) = X @ (k, p) # Y" by simp
  from unodes_split [OF this] obtain A a E F C where
    s: "u = A @ (a, E @ (k, p) # F) # C" "X = concat (map snd A) @ E" "Y = F @ concat (map snd C)" .
  with assms show ?thesis by (intro that [OF s]) (auto simp: ents_ok_simps)
qed

text \<open>The search for the parent of the block next to which a new block goes.\<close>

lemma find_parent:
  assumes "uppers (if_mem ifp) (if_data ifp) ents (u # us)" "ents_ok ents"
    and "u = A @ (a, E @ (k, p) # F) # C" "if_height ifp = length (u # us) + b" "k \<le> off"
    "\<forall>e \<in> set (F @ concat (map snd C)). off < fst e" "off < XFS_IEXT_KEY_INVALID"
  shows "xfs_iext_find_level ifp off (b + 1) = Some a"
proof -
  have eq: "ents = (concat (map snd A) @ E) @ (k, p) # F @ concat (map snd C)" using assms(1,3) by auto
  have ok: "\<forall>x \<in> set u. unode_ok (if_mem ifp) x" using assms(1) by simp
  have hle: "fst (hd (E @ (k, p) # F)) \<le> off"
    using assms(2,5) eq by (cases E) (auto simp: ents_ok_simps)
  have "off < fst (ukey c)" if c: "c \<in> set C" for c
  proof -
    from c ok assms(3) obtain e where e: "e \<in> set (snd c)" "fst e = fst (ukey c)"
      using ukey_in [of "if_mem ifp" c] by auto
    have "off < fst e" using assms(6) c e(1) by auto
    then show ?thesis by (simp only: e(2))
  qed
  then have "seek off (map ukey A) (fst (hd (E @ (k, p) # F))) (map ukey C)"
    using hle by (auto simp: seek_def)
  moreover have "ents_ok (map ukey u)" using ukeys_ok [of u "if_mem ifp"] assms(1,2) by auto
  ultimately have "find_level_loop ifp off (length us) (if_data ifp) = Some a"
    by (intro find_uppers [of ifp "if_data ifp" "map ukey u" us "map ukey A" "fst (hd (E @ (k, p) # F))" a "map ukey C"])
       (use assms(1,3,7) in \<open>auto simp: ukey_def\<close>)
  then show ?thesis using assms(4) by (simp add: xfs_iext_find_level_def)
qed

lemma insert_position:
  assumes "ents_ok (E @ (k, p) # F)" "k < off" "\<And>e. e \<in> set F \<Longrightarrow> off < fst e"
    "off < XFS_IEXT_KEY_INVALID" "length (E @ (k, p) # F) \<le> 16"
  shows "xfs_iext_node_insert_pos (node_of (E @ (k, p) # F)) off = Some (length E + 1)"
proof -
  have "key_cmp_loop (node_of ((E @ [(k, p)]) @ F)) off 0 = Some (length (E @ [(k, p)]))"
  proof (rule key_cmp_loop_eq)
    show "fst ((E @ [(k, p)]) ! j) \<le> off" if "j < length (E @ [(k, p)])" for j
    proof -
      have "(E @ [(k, p)]) ! j \<in> set (E @ [(k, p)])" using that by (rule nth_mem)
      then show ?thesis using assms(1,2) by (fastforce simp: ents_ok_simps)
    qed
  qed (use assms in auto)
  then show ?thesis by (simp add: xfs_iext_node_insert_pos_def)
qed

text \<open>What the loop of \<^verbatim>\<open>xfs_iext_insert_node\<close> computes before it changes anything.\<close>

lemma insert_node_prefix:
  assumes "uppers (if_mem ifp) (if_data ifp) ents (u # us)" "ents_ok ents"
    and "u = A @ (a, E @ (k, p) # F) # C" "if_height ifp = length (u # us) + b" "k < off"
    "\<forall>e \<in> set (F @ concat (map snd C)). off < fst e" "off < XFS_IEXT_KEY_INVALID"
  shows "xfs_iext_find_level ifp off (b + 1) = Some a"
    "get_node ifp a = Some (node_of (E @ (k, p) # F))"
    "xfs_iext_node_insert_pos (node_of (E @ (k, p) # F)) off = Some (length E + 1)"
    "xfs_iext_node_nr_entries (node_of (E @ (k, p) # F)) (length E + 1) = Some (length (E @ (k, p) # F))"
    "\<exists>c. (if F = [] then Some 1
          else xfs_iext_key_cmp (node_of (E @ (k, p) # F)) (Suc (length E)) off) = Some c \<and> c \<noteq> 0"
proof -
  have ok: "unode_ok (if_mem ifp) (a, E @ (k, p) # F)" using assms(1,3) by simp
  have "ents_ok (concat (map snd A) @ (E @ (k, p) # F) @ concat (map snd C))" using assms(1-3) by auto
  then have es: "ents_ok (E @ (k, p) # F)" by (rule ents_ok_mid)
  have len: "length (E @ (k, p) # F) \<le> 16" using ok by (simp add: unode_ok_def)
  show "xfs_iext_find_level ifp off (b + 1) = Some a"
    by (rule find_parent [OF assms(1-4)]) (use assms in auto)
  show "get_node ifp a = Some (node_of (E @ (k, p) # F))" using ok by (simp add: unode_ok_def get_node_eq)
  show "xfs_iext_node_insert_pos (node_of (E @ (k, p) # F)) off = Some (length E + 1)"
    by (rule insert_position [OF es assms(5)]) (use assms len in auto)
  show "xfs_iext_node_nr_entries (node_of (E @ (k, p) # F)) (length E + 1) = Some (length (E @ (k, p) # F))"
    by (rule node_nr_entries_eq) (use len es in \<open>auto simp: ents_ok_def\<close>)
  show "\<exists>c. (if F = [] then Some 1
          else xfs_iext_key_cmp (node_of (E @ (k, p) # F)) (Suc (length E)) off) = Some c \<and> c \<noteq> 0"
  proof (cases F)
    case Nil
    then show ?thesis by simp
  next
    case (Cons f F')
    have "aget (n_keys (node_of (E @ (k, p) # F))) (length E + 1) = Some (fst f)"
      using node_of_key [of "E @ [(k, p)]" "fst f" "snd f" F'] len Cons by simp
    moreover have "off < fst f" using assms(6) Cons by simp
    ultimately show ?thesis using Cons by (auto simp: xfs_iext_key_cmp_def)
  qed
qed

lemma insert_node_room:
  assumes "uppers (if_mem ifp) (if_data ifp) ents (u # us)" "ents_ok ents"
    and "u = A @ (a, E @ (k, p) # F) # C" "if_height ifp = length (u # us) + b" "k < off"
    "\<forall>e \<in> set (F @ concat (map snd C)). off < fst e" "off < XFS_IEXT_KEY_INVALID"
    and room: "length (E @ (k, p) # F) < 16"
  shows "xfs_iext_insert_node ifp off ptr (b + 1) =
    Some (put_block ifp a (Node (node_of (E @ (k, p) # (off, ptr) # F))))"
proof -
  note pre = insert_node_prefix [OF assms(1-7)]
  have "node_store_entry ifp a (length (E @ (k, p) # F)) (length E + 1) off ptr =
      Some (put_block ifp a (Node (node_of ((E @ [(k, p)]) @ (off, ptr) # F))))"
    by (rule node_store_entry_eq) (use assms(1,3) room in \<open>auto simp: unode_ok_def\<close>)
  moreover obtain c where "(if F = [] then Some 1
          else xfs_iext_key_cmp (node_of (E @ (k, p) # F)) (Suc (length E)) off) = Some c" "c \<noteq> 0"
    using pre(5) by blast
  ultimately show ?thesis
    using pre(1-4) room assms(4)
    by (subst xfs_iext_insert_node.simps) (simp add: iext_assert_def split del: if_split)
qed

lemma take_drop_prefix: "n \<le> length xs \<Longrightarrow> take n (xs @ ys) = take n xs \<and> drop n (xs @ ys) = drop n xs @ ys"
  by simp

lemma take_drop_suffix:
  "length xs \<le> n \<Longrightarrow> take n (xs @ ys) = xs @ take (n - length xs) ys \<and> drop n (xs @ ys) = drop (n - length xs) ys"
  by simp

lemma insert_node_split:
  assumes "uppers (if_mem ifp) (if_data ifp) ents (u # us)" "ents_ok ents"
    and "u = A @ (a, E @ (k, p) # F) # C" "if_height ifp = length (u # us) + b" "k < off"
    "\<forall>e \<in> set (F @ concat (map snd C)). off < fst e" "off < XFS_IEXT_KEY_INVALID"
    and full: "length (E @ (k, p) # F) = 16"
    and split: "xfs_iext_split_node ifp a (length E + 1) = Some (ifp1, new, node, pos, nr)" "new \<noteq> 0"
      "node = new \<or> pos \<noteq> 0"
    and store: "node_store_entry ifp1 node nr pos off ptr = Some ifp2"
      "get_node ifp2 new = Some (node_of es2)" "es2 \<noteq> []" "length es2 \<le> 16"
  shows "xfs_iext_insert_node ifp off ptr (b + 1) = xfs_iext_insert_node ifp2 (fst (hd es2)) new (b + 2)"
proof -
  note pre = insert_node_prefix [OF assms(1-7)]
  obtain c where "(if F = [] then Some 1
          else xfs_iext_key_cmp (node_of (E @ (k, p) # F)) (Suc (length E)) off) = Some c" "c \<noteq> 0"
    using pre(5) by blast
  moreover have "15 \<le> length E \<longleftrightarrow> F = []" using full by (cases F) auto
  ultimately show ?thesis
    using pre(1-4) full assms(4) split store
    by (subst xfs_iext_insert_node.simps) (auto simp: iext_assert_def split del: if_split)
qed

lemma insert_node_full:
  assumes "uppers (if_mem ifp) (if_data ifp) ents (u # us)" "ents_ok ents"
    and "u = A @ (a, E @ (k, p) # F) # C" "if_height ifp = length (u # us) + b" "k < off"
    "\<forall>e \<in> set (F @ concat (map snd C)). off < fst e" "off < XFS_IEXT_KEY_INVALID"
    and full: "length (E @ (k, p) # F) = 16" and new: "if_brk ifp \<noteq> 0" "a \<noteq> if_brk ifp"
  obtains ifp2 es1 es2 where
    "xfs_iext_insert_node ifp off ptr (b + 1) = xfs_iext_insert_node ifp2 (fst (hd es2)) (if_brk ifp) (b + 2)"
    "same_fork ifp ifp2" "if_brk ifp2 = Suc (if_brk ifp)"
    "if_mem ifp2 = (if_mem ifp)(a \<mapsto> Node (node_of es1), if_brk ifp \<mapsto> Node (node_of es2))"
    "es1 @ es2 = E @ (k, p) # (off, ptr) # F" "es1 \<noteq> []" "es2 \<noteq> []" "length es1 \<le> 16" "length es2 \<le> 16"
    "hd es1 = hd (E @ (k, p) # F)"
proof -
  let ?new = "if_brk ifp"
  let ?es = "E @ (k, p) # F"
  have a: "if_mem ifp a = Some (Node (node_of ?es))" using assms(1,3) by (simp add: unode_ok_def)
  note reduce = insert_node_split [OF assms(1-8)]
  consider (append) "length E + 1 = 16" | (high) "8 \<le> length E + 1" "length E + 1 < 16" | (low) "length E + 1 < 8"
    using full by force
  then show thesis
  proof cases
    case append
    then have F: "F = []" using full by simp
    obtain ifp1 where s: "xfs_iext_split_node ifp a (length E + 1) = Some (ifp1, ?new, ?new, 0, 0)"
      "same_fork ifp ifp1" "if_brk ifp1 = Suc ?new"
      "if_mem ifp1 = (if_mem ifp)(?new \<mapsto> Node (node_of []))"
      using split_node_append append by metis
    let ?ifp2 = "put_block ifp1 ?new (Node (node_of [(off, ptr)]))"
    have st: "node_store_entry ifp1 ?new 0 0 off ptr = Some ?ifp2"
      using node_store_entry_eq [of ifp1 ?new "[]" "[]"] s by simp
    show thesis
    proof (rule that [of ?ifp2 "[(off, ptr)]" ?es])
      show "xfs_iext_insert_node ifp off ptr (b + 1) =
          xfs_iext_insert_node ?ifp2 (fst (hd [(off, ptr)])) ?new (b + 2)"
        by (rule reduce [OF s(1) new(1) _ st]) (simp_all add: get_node_def)
      show "if_mem ?ifp2 = (if_mem ifp)(a \<mapsto> Node (node_of ?es), ?new \<mapsto> Node (node_of [(off, ptr)]))"
        using s(4) a by (auto simp: fun_eq_iff)
    qed (use s full F in \<open>auto simp: same_fork_def\<close>)
  next
    case high
    obtain ifp1 where s: "xfs_iext_split_node ifp a (length E + 1) = Some (ifp1, ?new, ?new, length E + 1 - 8, 8)"
      "same_fork ifp ifp1" "if_brk ifp1 = Suc ?new"
      "if_mem ifp1 = (if_mem ifp)(a \<mapsto> Node (node_of (take 8 ?es)), ?new \<mapsto> Node (node_of (drop 8 ?es)))"
      by (rule split_node_half [OF a full _ new(2), of "length E + 1"]) (use high in auto)
    let ?l = "E @ [(k, p)]"
    have es: "?es = ?l @ F" by simp
    have "take 8 ?es = take 8 ?l \<and> drop 8 ?es = drop 8 ?l @ F"
      unfolding es by (rule take_drop_prefix) (use high in simp)
    then have half: "take 8 ?es = take 8 ?l" "drop 8 ?es = drop 8 ?l @ F" by blast+
    let ?ifp2 = "put_block ifp1 ?new (Node (node_of (drop 8 ?l @ (off, ptr) # F)))"
    have st: "node_store_entry ifp1 ?new 8 (length E + 1 - 8) off ptr = Some ?ifp2"
      by (rule node_store_entry_eq) (use s(4) half high full in auto)
    show thesis
    proof (rule that [of ?ifp2 "drop 8 ?l @ (off, ptr) # F" "take 8 ?l"])
      show "xfs_iext_insert_node ifp off ptr (b + 1) =
          xfs_iext_insert_node ?ifp2 (fst (hd (drop 8 ?l @ (off, ptr) # F))) ?new (b + 2)"
        by (rule reduce [OF s(1) new(1) _ st]) (use high full in \<open>simp_all add: get_node_def\<close>)
      show "if_mem ?ifp2 = (if_mem ifp)(a \<mapsto> Node (node_of (take 8 ?l)),
          ?new \<mapsto> Node (node_of (drop 8 ?l @ (off, ptr) # F)))"
        using s(4) half by simp
      show "take 8 ?l @ drop 8 ?l @ (off, ptr) # F = E @ (k, p) # (off, ptr) # F"
        using append_take_drop_id [of 8 ?l] by (metis append.assoc append_Cons append_Nil)
      show "hd (take 8 ?l) = hd ?es" by (cases E) simp_all
    qed (use s high full in \<open>auto simp: same_fork_def\<close>)
  next
    case low
    obtain ifp1 where s: "xfs_iext_split_node ifp a (length E + 1) = Some (ifp1, ?new, a, length E + 1, 8)"
      "same_fork ifp ifp1" "if_brk ifp1 = Suc ?new"
      "if_mem ifp1 = (if_mem ifp)(a \<mapsto> Node (node_of (take 8 ?es)), ?new \<mapsto> Node (node_of (drop 8 ?es)))"
      by (rule split_node_half [OF a full _ new(2), of "length E + 1"]) (use low in auto)
    let ?l = "E @ [(k, p)]"
    let ?n = "8 - (length E + 1)"
    have es: "?es = ?l @ F" by simp
    have "take 8 ?es = ?l @ take (8 - length ?l) F \<and> drop 8 ?es = drop (8 - length ?l) F"
      unfolding es by (rule take_drop_suffix) (use low in simp)
    then have half: "take 8 ?es = ?l @ take ?n F" "drop 8 ?es = drop ?n F" by simp_all
    let ?ifp2 = "put_block ifp1 a (Node (node_of (?l @ (off, ptr) # take ?n F)))"
    have st: "node_store_entry ifp1 a 8 (length E + 1) off ptr = Some ?ifp2"
      by (rule node_store_entry_eq) (use s(4) half low full new(2) in auto)
    have ne: "drop ?n F \<noteq> []" using low full by simp
    show thesis
    proof (rule that [of ?ifp2 "drop ?n F" "?l @ (off, ptr) # take ?n F"])
      show "xfs_iext_insert_node ifp off ptr (b + 1) =
          xfs_iext_insert_node ?ifp2 (fst (hd (drop ?n F))) ?new (b + 2)"
        by (rule reduce [OF s(1) new(1) _ st]) (use ne low full s(4) half new(2) in \<open>simp_all add: get_node_def\<close>)
      show "if_mem ?ifp2 = (if_mem ifp)(a \<mapsto> Node (node_of (?l @ (off, ptr) # take ?n F)),
          ?new \<mapsto> Node (node_of (drop ?n F)))"
        using s(4) half new(2) by (auto simp: fun_eq_iff)
      show "hd (?l @ (off, ptr) # take ?n F) = hd ?es" by (cases E) simp_all
    qed (use s low full ne in \<open>auto simp: same_fork_def\<close>)
  qed
qed

text \<open>The first key of the root block, which a new root takes over.\<close>

definition root_key :: "xfs_ifork \<Rightarrow> u64 option" where
  "root_key ifp =
     (if if_height ifp = 1 then xfs_iext_leaf_key ifp (if_data ifp) 0
      else do { n \<leftarrow> get_node ifp (if_data ifp); aget (n_keys n) 0 })"

lemma get_alloc:
  "a \<noteq> if_brk ifp \<Longrightarrow> get_node (snd (kzalloc ifp b)) a = get_node ifp a"
  "a \<noteq> if_brk ifp \<Longrightarrow> get_leaf (snd (kzalloc ifp b)) a = get_leaf ifp a"
  "a \<noteq> if_brk ifp \<Longrightarrow> get_recs (snd (kzalloc ifp b)) a = get_recs ifp a"
  "a \<noteq> if_brk ifp \<Longrightarrow> get_rec (snd (kzalloc ifp b)) a i = get_rec ifp a i"
  "a \<noteq> if_brk ifp \<Longrightarrow> xfs_iext_leaf_key (snd (kzalloc ifp b)) a i = xfs_iext_leaf_key ifp a i"
  by (simp_all add: kzalloc_def get_node_def get_leaf_def get_recs_def get_rec_def xfs_iext_leaf_key_def)

lemma kzalloc_simps [simp]:
  "fst (kzalloc ifp b) = if_brk ifp" "if_height (snd (kzalloc ifp b)) = if_height ifp"
  "if_data (snd (kzalloc ifp b)) = if_data ifp" "if_bytes (snd (kzalloc ifp b)) = if_bytes ifp"
  "if_seq (snd (kzalloc ifp b)) = if_seq ifp" "if_brk (snd (kzalloc ifp b)) = Suc (if_brk ifp)"
  "if_mem (snd (kzalloc ifp b)) = (if_mem ifp)(if_brk ifp \<mapsto> b)"
  by (simp_all add: kzalloc_def)

lemma grow_eq:
  assumes "root_key ifp = Some k" "if_height ifp \<ge> 1" "if_data ifp \<noteq> if_brk ifp"
  obtains ifp' where "xfs_iext_grow ifp = Some ifp'"
    "if_mem ifp' = (if_mem ifp)(if_brk ifp \<mapsto> Node (node_of [(k, if_data ifp)]))"
    "if_brk ifp' = Suc (if_brk ifp)" "if_data ifp' = if_brk ifp" "if_height ifp' = Suc (if_height ifp)"
    "if_bytes ifp' = if_bytes ifp" "if_seq ifp' = if_seq ifp"
proof
  let ?ifp = "snd (kzalloc ifp (Node zero_node))"
  let ?ifp' = "(put_block ?ifp (if_brk ifp) (Node (node_of [(k, if_data ifp)])))
     \<lparr>if_data := if_brk ifp, if_height := if_height ifp + 1\<rparr>"
  have "(if if_height ?ifp = 1 then xfs_iext_leaf_key ?ifp (if_data ?ifp) 0
         else do {
           prev \<leftarrow> get_node ?ifp (if_data ?ifp);
           iext_assert (if_height ?ifp > 1);
           aget (n_keys prev) 0
         }) = Some k"
    using assms by (simp add: root_key_def get_alloc iext_assert_def split: if_splits)
  moreover have "n_keys zero_node = 0 # replicate 15 0" "n_ptrs zero_node = 0 # replicate 15 0"
    by (simp_all add: zero_node_def numeral_eq_Suc)
  ultimately show "xfs_iext_grow ifp = Some ?ifp'"
    using assms(2,3)
    by (cases "if_height ifp = 1")
       (auto simp: xfs_iext_grow_def split_beta aset_def array_fill_eq node_of_def pad_def)
qed simp_all

lemma insert_node_grow:
  assumes "if_height ifp < level" "xfs_iext_grow ifp = Some ifp'" "if_height ifp' = level"
  shows "xfs_iext_insert_node ifp off ptr level = xfs_iext_insert_node ifp' off ptr level"
  using assms by (subst (1 2) xfs_iext_insert_node.simps) simp

text \<open>Changes of memory outside of which only freshly allocated blocks differ.\<close>

definition alloc_frame :: "addr set \<Rightarrow> xfs_ifork \<Rightarrow> xfs_ifork \<Rightarrow> bool" where
  "alloc_frame S ifp ifp' \<longleftrightarrow>
     if_bytes ifp' = if_bytes ifp \<and> if_seq ifp' = if_seq ifp \<and> if_brk ifp \<le> if_brk ifp' \<and>
     (\<forall>a. a \<notin> S \<longrightarrow> a \<notin> {if_brk ifp..<if_brk ifp'} \<longrightarrow> if_mem ifp' a = if_mem ifp a)"

definition insert_node_result ::
    "xfs_ifork \<Rightarrow> unode list list \<Rightarrow> ent list \<Rightarrow> nat \<Rightarrow> xfs_ifork \<Rightarrow> unode list list \<Rightarrow> bool" where
  "insert_node_result ifp us ents b ifp' us' \<longleftrightarrow>
     uppers (if_mem ifp') (if_data ifp') ents us' \<and> if_height ifp' = length us' + b \<and>
     distinct (uaddrs us') \<and> set (uaddrs us') = set (uaddrs us) \<union> {if_brk ifp..<if_brk ifp'} \<and>
     alloc_frame (set (uaddrs us)) ifp ifp'"

lemma insert_node_room_result:
  assumes up: "uppers (if_mem ifp) (if_data ifp) (X @ (k, p) # Y) (u # us)"
    and ok: "ents_ok (X @ (k, p) # (off, ptr) # Y)"
    and s: "u = A @ (a, E @ (k, p) # F) # C" "X = concat (map snd A) @ E" "Y = F @ concat (map snd C)"
    and h: "if_height ifp = length (u # us) + b" and d: "distinct (uaddrs (u # us))"
    and room: "length (E @ (k, p) # F) < 16"
  shows "\<exists>ifp' us'. xfs_iext_insert_node ifp off ptr (b + 1) = Some ifp' \<and> if_brk ifp' = if_brk ifp \<and>
     insert_node_result ifp (u # us) (X @ (k, p) # (off, ptr) # Y) b ifp' us'"
proof (intro exI conjI)
  let ?es = "E @ (k, p) # (off, ptr) # F"
  let ?u = "A @ (a, ?es) # C"
  let ?ifp = "put_block ifp a (Node (node_of ?es))"
  show "xfs_iext_insert_node ifp off ptr (b + 1) = Some ?ifp"
    by (rule insert_node_room [OF up _ s(1) h]) (use ok s room in \<open>auto simp: ents_ok_simps\<close>)
  have off: "a \<notin> set (uaddrs us)" "\<And>x. x \<in> set A \<union> set C \<Longrightarrow> fst x \<noteq> a"
    using d s(1) by (auto simp: image_iff)
  have hd: "hd ?es = hd (E @ (k, p) # F)" by (cases E) simp_all
  have "\<forall>x \<in> set ?u. unode_ok (if_mem ?ifp) x"
    using up s(1) off room by (auto simp: unode_ok_def)
  moreover have "uppers (if_mem ?ifp) (if_data ?ifp) (map ukey ?u) us"
    using up s(1) hd off(1) by (auto simp: ukey_def intro: uppers_frame)
  ultimately show "insert_node_result ifp (u # us) (X @ (k, p) # (off, ptr) # Y) b ?ifp (?u # us)"
    using s h d by (auto simp: insert_node_result_def alloc_frame_def)
  show "if_brk ?ifp = if_brk ifp" by simp
qed

lemma distinct_insert_after:
  assumes "distinct (U @ a # V @ W)" "\<forall>x \<in> set (U @ a # V @ W). x < n"
    "set W' = set W \<union> {Suc n..<m}" "distinct W'"
  shows "distinct (U @ a # n # V @ W')"
proof -
  have n: "n \<notin> set (U @ a # V @ W)" using assms(2) by blast
  have "x \<notin> set W'" if "x \<in> set (U @ a # V)" for x
  proof -
    from that assms(2) have "x < n" by auto
    moreover from that assms(1) have "x \<notin> set W" by auto
    ultimately show ?thesis using assms(3) by simp
  qed
  then have "set (U @ a # V) \<inter> set W' = {}" by blast
  moreover have "n \<notin> set W'" using n assms(3) by simp
  moreover have "distinct (U @ a # V)" using assms(1) by auto
  ultimately show ?thesis using n assms(4) by auto
qed

lemma insert_node_ok:
  "uppers (if_mem ifp) (if_data ifp) (X @ (k, p) # Y) us \<Longrightarrow> ents_ok (X @ (k, p) # (off, ptr) # Y) \<Longrightarrow>
   if_height ifp = length us + b \<Longrightarrow> 1 \<le> b \<Longrightarrow> distinct (uaddrs us) \<Longrightarrow>
   \<forall>a \<in> set (uaddrs us). a < if_brk ifp \<Longrightarrow> 0 < if_brk ifp \<Longrightarrow> p < if_brk ifp \<Longrightarrow>
   (us = [] \<Longrightarrow> root_key ifp = Some k) \<Longrightarrow>
   \<exists>ifp' us'. xfs_iext_insert_node ifp off ptr (b + 1) = Some ifp' \<and>
     insert_node_result ifp us (X @ (k, p) # (off, ptr) # Y) b ifp' us'"
proof (induction us arbitrary: ifp X k p Y off ptr b)
  case Nil
  then have e: "X = []" "Y = []" "if_data ifp = p" by (auto simp: append_eq_Cons_conv)
  obtain ifp1 where g: "xfs_iext_grow ifp = Some ifp1"
    "if_mem ifp1 = (if_mem ifp)(if_brk ifp \<mapsto> Node (node_of [(k, if_data ifp)]))"
    "if_brk ifp1 = Suc (if_brk ifp)" "if_data ifp1 = if_brk ifp" "if_height ifp1 = Suc (if_height ifp)"
    "if_bytes ifp1 = if_bytes ifp" "if_seq ifp1 = if_seq ifp"
    by (rule grow_eq [of ifp k]) (use Nil e in auto)
  let ?u = "[(if_brk ifp, [(k, p)])]"
  have "\<exists>ifp' us'. xfs_iext_insert_node ifp1 off ptr (b + 1) = Some ifp' \<and> if_brk ifp' = if_brk ifp1 \<and>
     insert_node_result ifp1 [?u] ([] @ (k, p) # (off, ptr) # []) b ifp' us'"
    by (rule insert_node_room_result [where A = "[]" and C = "[]" and E = "[]" and F = "[]"])
       (use Nil e g in \<open>auto simp: unode_ok_def ukey_def\<close>)
  then obtain ifp' us' where r: "xfs_iext_insert_node ifp1 off ptr (b + 1) = Some ifp'"
    "if_brk ifp' = if_brk ifp1" "insert_node_result ifp1 [?u] [(k, p), (off, ptr)] b ifp' us'" by auto
  have "xfs_iext_insert_node ifp off ptr (b + 1) = Some ifp'"
    using insert_node_grow [of ifp "b + 1" ifp1 off ptr] g Nil(3) r(1) by simp
  moreover have "insert_node_result ifp [] (X @ (k, p) # (off, ptr) # Y) b ifp' us'"
    using r(2,3) g e by (auto simp: insert_node_result_def alloc_frame_def)
  ultimately show ?case by blast
next
  case (Cons u us)
  let ?new = "if_brk ifp"
  have ents: "ents_ok (X @ (k, p) # Y)" using Cons.prems(2) by (auto simp: ents_ok_simps)
  obtain A a E F C where s: "u = A @ (a, E @ (k, p) # F) # C" "X = concat (map snd A) @ E"
    "Y = F @ concat (map snd C)" and ok: "unode_ok (if_mem ifp) (a, E @ (k, p) # F)"
    using uppers_head [OF Cons.prems(1) ents refl] by metis
  show ?case
  proof (cases "length (E @ (k, p) # F) < 16")
    case True
    then show ?thesis
      using insert_node_room_result [OF Cons.prems(1,2) s Cons.prems(3,5)] by blast
  next
    case False
    then have full: "length (E @ (k, p) # F) = 16" using ok by (simp add: unode_ok_def)
    have a: "a < ?new" "a \<notin> set (uaddrs us)" "\<And>x. x \<in> set A \<union> set C \<Longrightarrow> fst x \<noteq> a"
      "\<And>x. x \<in> set A \<union> set C \<Longrightarrow> fst x < ?new" "\<And>x. x \<in> set A \<union> set C \<Longrightarrow> fst x \<notin> set (uaddrs us)"
      "\<forall>a \<in> set (uaddrs us). a < ?new"
      using Cons.prems(5,6) s(1) by (auto simp: image_iff)
    have gt: "k < off" "\<forall>e \<in> set (F @ concat (map snd C)). off < fst e" "off < XFS_IEXT_KEY_INVALID"
      using Cons.prems(2) s(3) by (auto simp: ents_ok_simps)
    obtain ifp2 es1 es2 where r:
      "xfs_iext_insert_node ifp off ptr (b + 1) = xfs_iext_insert_node ifp2 (fst (hd es2)) ?new (b + 2)"
      "same_fork ifp ifp2" "if_brk ifp2 = Suc ?new"
      "if_mem ifp2 = (if_mem ifp)(a \<mapsto> Node (node_of es1), ?new \<mapsto> Node (node_of es2))"
      and es: "es1 @ es2 = E @ (k, p) # (off, ptr) # F" "es1 \<noteq> []" "es2 \<noteq> []" "length es1 \<le> 16" "length es2 \<le> 16"
        "hd es1 = hd (E @ (k, p) # F)"
      by (rule insert_node_full [OF Cons.prems(1) ents s(1) Cons.prems(3) gt full, of ptr])
         (use Cons.prems(7) a(1) in auto)
    let ?u = "A @ (a, es1) # (?new, es2) # C"
    have cat: "concat (map snd ?u) = X @ (k, p) # (off, ptr) # Y" using es(1) s by simp
    have "fst x \<noteq> ?new" if "x \<in> set A \<union> set C" for x using a(4) [OF that] by simp
    then have nodes: "\<forall>x \<in> set ?u. unode_ok (if_mem ifp2) x"
      using Cons.prems(1,7) s(1) a es r(4) ok by (auto simp: unode_ok_def)
    have keys: "ents_ok (map ukey ?u)" by (rule ukeys_ok [of _ "if_mem ifp2"]) (use cat nodes Cons.prems(2) in auto)
    have uk: "map ukey u = map ukey A @ (fst (hd es1), a) # map ukey C" using s(1) es(6) by (simp add: ukey_def)
    have up: "uppers (if_mem ifp2) (if_data ifp2) (map ukey A @ (fst (hd es1), a) # map ukey C) us"
    proof (rule uppers_frame [of "if_mem ifp"])
      show "uppers (if_mem ifp) (if_data ifp2) (map ukey A @ (fst (hd es1), a) # map ukey C) us"
        using Cons.prems(1) r(2) uk by (simp add: same_fork_def)
    qed (use a r(4) in auto)
    have "\<exists>ifp' us'. xfs_iext_insert_node ifp2 (fst (hd es2)) ?new (b + 1 + 1) = Some ifp' \<and>
       insert_node_result ifp2 us (map ukey A @ (fst (hd es1), a) # (fst (hd es2), ?new) # map ukey C) (b + 1) ifp' us'"
    proof (rule Cons.IH [OF up])
      show "ents_ok (map ukey A @ (fst (hd es1), a) # (fst (hd es2), ?new) # map ukey C)"
        using keys by (simp add: ukey_def)
      show "root_key ifp2 = Some (fst (hd es1))" if us: "us = []"
      proof -
        from up us have "if_data ifp2 = a" by (auto simp: append_eq_Cons_conv)
        moreover have "if_height ifp2 \<noteq> 1" using r(2) Cons.prems(3,4) by (simp add: same_fork_def)
        ultimately show ?thesis using r(4) a(1) es by (simp add: root_key_def get_node_def)
      qed
    qed (use Cons.prems a r(2,3) in \<open>auto simp: same_fork_def less_Suc_eq\<close>)
    then obtain ifp' us' where r': "xfs_iext_insert_node ifp2 (fst (hd es2)) ?new (b + 2) = Some ifp'"
      "insert_node_result ifp2 us (map ukey A @ (fst (hd es1), a) # (fst (hd es2), ?new) # map ukey C) (b + 1) ifp' us'"
      by auto
    have "insert_node_result ifp (u # us) (X @ (k, p) # (off, ptr) # Y) b ifp' (?u # us')"
    proof -
      have fr: "if_mem ifp' x = if_mem ifp2 x" if "x \<notin> set (uaddrs us)" "x \<le> ?new" for x
        using r'(2) r(3) that by (simp add: insert_node_result_def alloc_frame_def)
      have "\<forall>x \<in> set ?u. unode_ok (if_mem ifp') x"
      proof
        fix x assume x: "x \<in> set ?u"
        then have "fst x \<notin> set (uaddrs us)" "fst x \<le> ?new"
          using a(1,2,6) a(4,5) [of x] by (auto dest: less_imp_le)
        then show "unode_ok (if_mem ifp') x" using nodes x fr by (auto simp: unode_ok_def)
      qed
      moreover have "distinct (uaddrs (?u # us'))"
        using distinct_insert_after [of "map fst A" a "map fst C" "uaddrs us" ?new "uaddrs us'" "if_brk ifp'"]
          r'(2) Cons.prems(5,6) s(1) r(3) by (simp add: insert_node_result_def)
      ultimately show ?thesis
        using r'(2) r s cat by (auto simp: insert_node_result_def alloc_frame_def same_fork_def ukey_def)
    qed
    then show ?thesis using r(1) r'(1) by auto
  qed
qed

end
