(* ===== verification/Iext_Shrink.thy ===== *)
theory Iext_Shrink
  imports Iext_Level
begin

text \<open>
  Removing a block from the levels above it: the entry of the block is taken out of its node,
  the node is merged with a neighbour or dropped when it got small, and a root with a single
  child is replaced by the child.
\<close>

section \<open>Taking an entry out of a node\<close>

lemma kfree_eq: "if_mem ifp a \<noteq> None \<Longrightarrow> a \<noteq> 0 \<Longrightarrow> kfree ifp a = Some (ifp\<lparr>if_mem := (if_mem ifp)(a := None)\<rparr>)"
  by (simp add: kfree_def)

lemma node_eta: "\<lparr>n_keys = n_keys n, n_ptrs = n_ptrs n\<rparr> = n" for n :: xfs_iext_node
  by simp

lemma node_of_remove:
  assumes "length E + length F < 16"
  obtains ks ps where
    "array_shift_down (n_keys (node_of (E @ (k, p) # F))) (length E) (length E + length F) = Some ks"
    "array_shift_down (n_ptrs (node_of (E @ (k, p) # F))) (length E) (length E + length F) = Some ps"
    "aset ks (length E + length F) XFS_IEXT_KEY_INVALID = Some (n_keys (node_of (E @ F)))"
    "aset ps (length E + length F) 0 = Some (n_ptrs (node_of (E @ F)))"
proof -
  have len: "length (map fst E) + length (map fst F) < 16" "length (map snd E) + length (map snd F) < 16"
    using assms by simp_all
  show ?thesis
    by (rule shift_down_pad [OF len(1), of XFS_IEXT_KEY_INVALID k];
        rule shift_down_pad [OF len(2), of 0 p])
       (auto simp: node_of_def intro: that)
qed

text \<open>The level above a node of which the first key may have changed.\<close>

lemma remove_node_entry_ok:
  assumes up: "uppers (if_mem ifp) (if_data ifp) ents (u # us)" "ents_ok ents"
    and s: "u = A @ (a, E @ (k, p) # F) # C" and h: "if_height ifp = length (u # us) + b"
    and d: "distinct (uaddrs (u # us))" and p: "p \<notin> set (uaddrs (u # us))" "if_mem ifp p \<noteq> None"
  obtains ifp' us' off where
    "remove_node_entry ifp a (length E) p (b + 1) = Some (ifp', length (E @ F), off)"
    "uppers (if_mem ifp') (if_data ifp') (map ukey A @ (off, a) # map ukey C) us'"
    "map (map fst) us' = map (map fst) us"
    "E @ F \<noteq> [] \<Longrightarrow> off = fst (hd (E @ F))" "E @ F = [] \<Longrightarrow> off = k"
    "same_fork ifp ifp'" "if_brk ifp' = if_brk ifp"
    "if_mem ifp' a = Some (Node (node_of (E @ F)))" "if_mem ifp' p = None"
    "\<And>x. x \<notin> set (uaddrs us) \<Longrightarrow> x \<noteq> a \<Longrightarrow> x \<noteq> p \<Longrightarrow> if_mem ifp' x = if_mem ifp x"
proof -
  let ?es = "E @ (k, p) # F"
  have es_ok: "ents_ok ?es"
    using ents_ok_mid [of "concat (map snd A)" ?es "concat (map snd C)"] up s by auto
  have ok: "unode_ok (if_mem ifp) (a, ?es)" using up s by simp
  have len: "length E + length F < 16" "length ?es \<le> 16" using ok by (auto simp: unode_ok_def)
  have p0: "p \<noteq> 0" using es_ok by (simp add: ents_ok_simps)
  have ap: "a \<noteq> p" "a \<notin> set (uaddrs us)" using p d s by auto
  let ?ifp0 = "ifp\<lparr>if_mem := (if_mem ifp)(p := None)\<rparr>"
  let ?ifp1 = "put_block ?ifp0 a (Node (node_of (E @ F)))"
  obtain ks ps where sh:
    "array_shift_down (n_keys (node_of ?es)) (length E) (length E + length F) = Some ks"
    "array_shift_down (n_ptrs (node_of ?es)) (length E) (length E + length F) = Some ps"
    "aset ks (length E + length F) XFS_IEXT_KEY_INVALID = Some (n_keys (node_of (E @ F)))"
    "aset ps (length E + length F) 0 = Some (n_ptrs (node_of (E @ F)))"
    using node_of_remove [OF len(1)] by metis
  have nr: "xfs_iext_node_nr_entries (node_of ?es) (length E) = Some (length ?es)"
    by (rule node_nr_entries_eq) (use len es_ok in \<open>auto simp: ents_ok_def\<close>)
  have get: "get_node ifp a = Some (node_of ?es)" "get_node ?ifp0 a = Some (node_of ?es)"
    using ok ap by (auto simp: unode_ok_def get_node_def)
  have red: "remove_node_entry ifp a (length E) p (b + 1) =
    (if length E = 0 \<and> length (E @ F) > 0 then do {
       k' \<leftarrow> aget (n_keys (node_of (E @ F))) 0;
       ifp \<leftarrow> xfs_iext_update_node ?ifp1 (fst (hd ?es)) k' (b + 1) a;
       Some (ifp, length (E @ F), k')
     }
     else Some (?ifp1, length (E @ F), fst (hd ?es)))"
    using get nr sh len p p0
    by (simp add: remove_node_entry_def kfree_eq iext_assert_def node_eta)
  have up1: "uppers (if_mem ?ifp1) (if_data ifp) (map ukey A @ (fst (hd ?es), a) # map ukey C) us"
    using up(1) s p(1) ap by (auto simp: ukey_def intro: uppers_frame)
  have keys: "ents_ok (map ukey A @ (fst (hd ?es), a) # map ukey C)"
    using ukeys_ok [of u "if_mem ifp"] up s by (auto simp: ukey_def)
  show thesis
  proof (cases "E = [] \<and> F \<noteq> []")
    case True
    then have E: "E = []" "F \<noteq> []" by auto
    have "\<exists>ifp' us'. update_node_loop ?ifp1 k (fst (hd F)) (length us) (if_data ifp) = Some (ifp', a) \<and>
       mem_change (set (uaddrs us)) ?ifp1 ifp' \<and>
       uppers (if_mem ifp') (if_data ifp) (map ukey A @ (if k = k then fst (hd F) else k, a) # map ukey C) us' \<and>
       map (map fst) us' = map (map fst) us"
      by (rule update_uppers) (use up1 keys E d es_ok in \<open>auto simp: ents_ok_simps\<close>)
    then obtain ifp' us' where r: "update_node_loop ?ifp1 k (fst (hd F)) (length us) (if_data ifp) = Some (ifp', a)"
       "mem_change (set (uaddrs us)) ?ifp1 ifp'"
       "uppers (if_mem ifp') (if_data ifp) (map ukey A @ (fst (hd F), a) # map ukey C) us'"
       "map (map fst) us' = map (map fst) us" by auto
    have "xfs_iext_update_node ?ifp1 k (fst (hd F)) (b + 1) a = Some ifp'"
      using r(1) h by (simp add: xfs_iext_update_node_def iext_assert_def)
    then have "remove_node_entry ifp a (length E) p (b + 1) = Some (ifp', length (E @ F), fst (hd F))"
      using red E len by simp
    then show thesis
      by (rule that [where us' = us']) (use r E ap p in \<open>auto simp: mem_change_def same_fork_def\<close>)
  next
    case False
    then have "remove_node_entry ifp a (length E) p (b + 1) = Some (?ifp1, length (E @ F), fst (hd ?es))"
      using red by auto
    then show thesis
      by (rule that [where us' = us]) (use False up1 ap p in \<open>cases E; auto simp: same_fork_def\<close>)+
  qed
qed

section \<open>Merging neighbours\<close>

lemma copy_node:
  assumes "length es + length fs \<le> 16"
  shows "array_copy (n_keys (node_of es)) (length es) (n_keys (node_of fs)) 0 (length fs) 0 = Some (n_keys (node_of (es @ fs)))"
    "array_copy (n_ptrs (node_of es)) (length es) (n_ptrs (node_of fs)) 0 (length fs) 0 = Some (n_ptrs (node_of (es @ fs)))"
  using assms copy_pad [of "map fst es" "map fst fs" 16 16 XFS_IEXT_KEY_INVALID XFS_IEXT_KEY_INVALID]
    copy_pad [of "map snd es" "map snd fs" 16 16 0 0]
  by (simp_all add: node_of_def)

text \<open>A child of a node with its entries.\<close>

definition child_node :: "xfs_ifork \<Rightarrow> ent \<Rightarrow> ent list \<Rightarrow> bool" where
  "child_node ifp e qs \<longleftrightarrow>
     get_node ifp (snd e) = Some (node_of qs) \<and> length qs \<le> 16 \<and> (\<forall>x \<in> set qs. fst x < XFS_IEXT_KEY_INVALID)"

lemma child_nr: "child_node ifp e qs \<Longrightarrow> xfs_iext_node_nr_entries (node_of qs) 0 = Some (length qs)"
  by (auto simp: child_node_def intro: node_nr_entries_eq)

text \<open>There is no node before the current one to merge it into.\<close>

definition no_prev_merge :: "xfs_ifork \<Rightarrow> ent list \<Rightarrow> nat \<Rightarrow> bool" where
  "no_prev_merge ifp E n \<longleftrightarrow>
     E = [] \<or> (\<exists>E' e qs. E = E' @ [e] \<and> child_node ifp e qs \<and> 16 < length qs + n)"

definition no_next_merge :: "xfs_ifork \<Rightarrow> ent list \<Rightarrow> nat \<Rightarrow> bool" where
  "no_next_merge ifp F n \<longleftrightarrow>
     F = [] \<or> (\<exists>F' e qs. F = e # F' \<and> child_node ifp e qs \<and> 16 < n + length qs)"

lemma ptr_before: "length (E @ e # F) \<le> 16 \<Longrightarrow> aget (n_ptrs (node_of (E @ e # F))) (length E) = Some (snd e)"
  by (cases e) simp

lemma rebalance_empty: "xfs_iext_rebalance_node ifp parent pos node 0 = Some (ifp, node, pos)"
  by (simp add: xfs_iext_rebalance_node_def)

lemma rebalance_prev:
  assumes "get_node ifp parent = Some (node_of (E @ e # x # F))" "length (E @ e # x # F) \<le> 16"
    and "child_node ifp e qs" "get_node ifp a = Some (node_of es)" "es \<noteq> []" "length qs + length es \<le> 16"
  shows "xfs_iext_rebalance_node ifp parent (length E + 1) a (length es) =
    Some (put_block ifp (snd e) (Node (node_of (qs @ es))), a, length E + 1)"
  using assms child_nr [OF assms(3)] ptr_before [of E e "x # F"] copy_node [of qs es]
  by (simp add: xfs_iext_rebalance_node_def child_node_def node_eta)

lemma rebalance_no_prev:
  assumes par: "get_node ifp parent = Some (node_of (E @ x # F))" "length (E @ x # F) \<le> 16"
      "\<forall>y \<in> set (E @ x # F). fst y < XFS_IEXT_KEY_INVALID"
    and node: "get_node ifp a = Some (node_of es)" "es \<noteq> []" and np: "no_prev_merge ifp E (length es)"
  shows "xfs_iext_rebalance_node ifp parent (length E) a (length es) =
    (if F = [] then Some (ifp, 0, length E)
     else do {
       next \<leftarrow> aget (n_ptrs (node_of (E @ x # F))) (length E + 1);
       xn \<leftarrow> get_node ifp next;
       nr_next \<leftarrow> xfs_iext_node_nr_entries xn 0;
       if length es + nr_next \<le> 16 then do {
         ks \<leftarrow> array_copy (n_keys (node_of es)) (length es) (n_keys xn) 0 nr_next 0;
         ps \<leftarrow> array_copy (n_ptrs (node_of es)) (length es) (n_ptrs xn) 0 nr_next 0;
         Some (put_block ifp a (Node \<lparr>n_keys = ks, n_ptrs = ps\<rparr>), next, length E + 1)
       } else Some (ifp, 0, length E)
     })"
proof -
  have nr: "xfs_iext_node_nr_entries (node_of (E @ x # F)) (length E) = Some (length (E @ x # F))"
    by (rule node_nr_entries_eq) (use par in auto)
  have "(if length E > 0 then do {
           prev \<leftarrow> aget (n_ptrs (node_of (E @ x # F))) (length E - 1);
           p \<leftarrow> get_node ifp prev;
           nr_prev \<leftarrow> xfs_iext_node_nr_entries p 0;
           if nr_prev + length es \<le> 16 then do {
             ks \<leftarrow> array_copy (n_keys p) nr_prev (n_keys (node_of es)) 0 (length es) 0;
             ps \<leftarrow> array_copy (n_ptrs p) nr_prev (n_ptrs (node_of es)) 0 (length es) 0;
             Some (Some (put_block ifp prev (Node \<lparr>n_keys = ks, n_ptrs = ps\<rparr>), a, length E))
           } else Some None
         } else Some None) = Some None"
  proof (cases "E = []")
    case False
    with np obtain E' e qs where e: "E = E' @ [e]" "child_node ifp e qs" "16 < length qs + length es"
      by (auto simp: no_prev_merge_def)
    then show ?thesis
      using child_nr [OF e(2)] ptr_before [of E' e "x # F"] par(2) by (simp add: child_node_def)
  qed simp
  then show ?thesis using par(1) node nr by (simp add: xfs_iext_rebalance_node_def)
qed

lemma rebalance_next:
  assumes "get_node ifp parent = Some (node_of (E @ x # e # F))" "length (E @ x # e # F) \<le> 16"
      "\<forall>y \<in> set (E @ x # e # F). fst y < XFS_IEXT_KEY_INVALID"
    and "get_node ifp a = Some (node_of es)" "es \<noteq> []" "no_prev_merge ifp E (length es)"
    and nxt: "child_node ifp e qs" "length es + length qs \<le> 16"
  shows "xfs_iext_rebalance_node ifp parent (length E) a (length es) =
    Some (put_block ifp a (Node (node_of (es @ qs))), snd e, length E + 1)"
  using rebalance_no_prev [OF assms(1-6)] nxt child_nr [OF nxt(1)] copy_node [of es qs]
    ptr_before [of "E @ [x]" e F] assms(2)
  by (simp add: child_node_def node_eta)

lemma rebalance_none:
  assumes "get_node ifp parent = Some (node_of (E @ x # F))" "length (E @ x # F) \<le> 16"
      "\<forall>y \<in> set (E @ x # F). fst y < XFS_IEXT_KEY_INVALID"
    and "get_node ifp a = Some (node_of es)" "es \<noteq> []" "no_prev_merge ifp E (length es)"
    and nxt: "no_next_merge ifp F (length es)"
  shows "xfs_iext_rebalance_node ifp parent (length E) a (length es) = Some (ifp, 0, length E)"
proof (cases "F = []")
  case True
  then show ?thesis using rebalance_no_prev [OF assms(1-6)] by simp
next
  case False
  with nxt obtain F' e qs where e: "F = e # F'" "child_node ifp e qs" "16 < length es + length qs"
    by (auto simp: no_next_merge_def)
  then show ?thesis
    using rebalance_no_prev [OF assms(1-6)] child_nr [OF e(2)] ptr_before [of "E @ [x]" e F'] assms(2)
    by (simp add: child_node_def)
qed

section \<open>Removing a block\<close>

definition remove_node_result ::
    "xfs_ifork \<Rightarrow> unode list list \<Rightarrow> addr \<Rightarrow> ent list \<Rightarrow> nat \<Rightarrow> xfs_ifork \<Rightarrow> unode list list \<Rightarrow> bool" where
  "remove_node_result ifp us p ents b ifp' us' \<longleftrightarrow>
     uppers (if_mem ifp') (if_data ifp') ents us' \<and> if_height ifp' = length us' + b \<and>
     distinct (uaddrs us') \<and> set (uaddrs us') \<subseteq> set (uaddrs us) \<and>
     if_bytes ifp' = if_bytes ifp \<and> if_seq ifp' = if_seq ifp \<and> if_brk ifp' = if_brk ifp \<and>
     (\<forall>x. x \<notin> set (uaddrs us) \<longrightarrow> x \<noteq> p \<longrightarrow> if_mem ifp' x = if_mem ifp x) \<and> if_mem ifp' p = None \<and>
     (\<forall>x \<in> set (uaddrs us) - set (uaddrs us'). if_mem ifp' x = None)"

text \<open>The state between taking out an entry of node \<open>a\<close> and treating the node itself.\<close>

definition entry_removed ::
    "xfs_ifork \<Rightarrow> unode list \<Rightarrow> unode list list \<Rightarrow> addr \<Rightarrow> xfs_ifork \<Rightarrow> unode list list \<Rightarrow> bool" where
  "entry_removed ifp u us p ifp1 us1 \<longleftrightarrow>
     map (map fst) us1 = map (map fst) us \<and> same_fork ifp ifp1 \<and> if_brk ifp1 = if_brk ifp \<and>
     if_mem ifp1 p = None \<and>
     (\<forall>x. x \<notin> set (uaddrs (u # us)) \<longrightarrow> x \<noteq> p \<longrightarrow> if_mem ifp1 x = if_mem ifp x)"

lemma entry_removed_uaddrs: "entry_removed ifp u us p ifp1 us1 \<Longrightarrow> uaddrs us1 = uaddrs us"
  "entry_removed ifp u us p ifp1 us1 \<Longrightarrow> length us1 = length us"
  by (auto simp: entry_removed_def uaddrs_def dest: map_eq_imp_length_eq)

lemma remove_keep:
  assumes "entry_removed ifp u us p ifp1 us1" "uppers (if_mem ifp1) (if_data ifp1) (map ukey u') us1"
    and "\<forall>x \<in> set u'. unode_ok (if_mem ifp1) x" "map fst u' = map fst u"
    and "if_height ifp = length (u # us) + b" "distinct (uaddrs (u # us))"
  shows "remove_node_result ifp (u # us) p (concat (map snd u')) b ifp1 (u' # us1)"
  using assms entry_removed_uaddrs [OF assms(1)]
  by (auto simp: remove_node_result_def entry_removed_def same_fork_def)

lemma remove_lift:
  assumes er: "entry_removed ifp u us p ifp2 us1"
    and r: "remove_node_result ifp2 us1 v (map ukey u') (b + 1) ifp' us'"
    and u': "\<forall>x \<in> set u'. unode_ok (if_mem ifp2) x" "distinct (map fst u')" "v \<notin> set (map fst u')"
      "set (map fst u) = insert v (set (map fst u'))"
    and d: "distinct (uaddrs (u # us))" and p: "p \<notin> set (uaddrs (u # us))"
  shows "remove_node_result ifp (u # us) p (concat (map snd u')) b ifp' (u' # us')"
proof -
  have ua: "uaddrs us1 = uaddrs us" using entry_removed_uaddrs er by blast
  have dis: "set (map fst u) \<inter> set (uaddrs us) = {}" using d by auto
  have sub: "set (uaddrs us') \<subseteq> set (uaddrs us)" using r ua by (simp add: remove_node_result_def)
  have fr: "if_mem ifp' x = if_mem ifp2 x" if "x \<notin> set (uaddrs us)" "x \<noteq> v" for x
    using r ua that by (simp add: remove_node_result_def)
  have "\<forall>x \<in> set u'. unode_ok (if_mem ifp') x"
  proof
    fix x assume x: "x \<in> set u'"
    then have "fst x \<in> set (map fst u')" by simp
    then have "fst x \<notin> set (uaddrs us)" "fst x \<noteq> v" using u'(3,4) dis by blast+
    then show "unode_ok (if_mem ifp') x" using u'(1) x fr by (simp add: unode_ok_def)
  qed
  moreover have "distinct (uaddrs (u' # us'))"
    using r u'(2,4) sub dis by (auto simp: remove_node_result_def)
  moreover have "if_mem ifp' x = if_mem ifp x" if "x \<notin> set (uaddrs (u # us))" "x \<noteq> p" for x
  proof -
    have "x \<noteq> v" using that(1) u'(4) by auto
    then show ?thesis using fr [of x] that er by (simp add: entry_removed_def)
  qed
  moreover have "if_mem ifp' p = None"
  proof -
    have "p \<noteq> v" using p u'(4) by auto
    then show ?thesis using fr [of p] p er by (simp add: entry_removed_def)
  qed
  moreover have "if_mem ifp' x = None" if "x \<in> set (uaddrs (u # us)) - set (uaddrs (u' # us'))" for x
    using that r ua u'(4) by (auto simp: remove_node_result_def)
  ultimately show ?thesis
    using r er sub u'(4) by (auto simp: remove_node_result_def entry_removed_def same_fork_def)
qed

text \<open>Up to the rebalancing of the node that lost an entry.\<close>

lemma remove_again_step:
  assumes rm: "remove_node_entry ifp a pos p (b + 1) = Some (ifp1, n, off)" "n < 8"
    and up: "uppers (if_mem ifp1) (if_data ifp1) ents (w # ws)" "ents_ok ents"
    and w: "w = A @ (pa, E @ (off, a) # F) # C" and h: "if_height ifp1 = length (w # ws) + (b + 1)"
  shows "remove_node_again ifp a pos p (b + 1) = do {
      (ifp2, victim, pos) \<leftarrow> xfs_iext_rebalance_node ifp1 pa (length E) a n;
      if victim \<noteq> 0 then remove_node_again ifp2 pa pos victim (b + 1 + 1) else Some ifp2
    }"
proof -
  have ok: "unode_ok (if_mem ifp1) (pa, E @ (off, a) # F)" using up(1) w by simp
  have ents: "ents = concat (map snd A) @ (E @ (off, a) # F) @ concat (map snd C)" using up(1) w by auto
  then have es: "ents_ok (E @ (off, a) # F)" using up(2) ents_ok_mid by blast
  have lt: "off < XFS_IEXT_KEY_INVALID" using es by (simp add: ents_ok_simps)
  have gt: "\<forall>e \<in> set (F @ concat (map snd C)). off < fst e"
    using up(2) unfolding ents by (auto simp: ents_ok_simps)
  have find: "xfs_iext_find_level ifp1 off (b + 2) = Some pa"
    using find_parent [OF up w h order_refl gt lt] by simp
  have pos: "xfs_iext_node_pos (node_of (E @ (off, a) # F)) off = Some (length E)"
    using node_search [OF es, of off] gt ok lt
    by (auto simp: xfs_iext_node_pos_def seek_def unode_ok_def)
  have len: "length (E @ (off, a) # F) \<le> 16" using ok by (simp add: unode_ok_def)
  have "get_node ifp1 pa = Some (node_of (E @ (off, a) # F))" using ok by (simp add: unode_ok_def get_node_eq)
  moreover have "aget (n_ptrs (node_of (E @ (off, a) # F))) (length E) = Some a" using len by simp
  ultimately show ?thesis
    using rm find pos h len
    by (subst remove_node_again.simps) (simp add: iext_assert_def split_beta)
qed

lemma remove_again_root:
  assumes rm: "remove_node_entry ifp a pos p (b + 1) = Some (ifp1, n, off)"
    and a: "if_mem ifp1 a = Some (Node (node_of es))" "a \<noteq> 0" "n = length es" "n \<le> 16"
    and h: "if_height ifp1 = b + 1" "if_data ifp1 = a"
  shows "remove_node_again ifp a pos p (b + 1) =
    (if n = 1 then Some (ifp1\<lparr>if_data := snd (hd es), if_height := b, if_mem := (if_mem ifp1)(a := None)\<rparr>)
     else Some ifp1)"
proof (cases es)
  case Nil
  then show ?thesis using rm a h by (subst remove_node_again.simps) simp
next
  case (Cons e es')
  have "aget (n_ptrs (node_of es)) 0 = Some (snd e)" using ptr_before [of "[]" e es'] Cons a(3,4) by simp
  then show ?thesis
    using rm a h Cons by (subst remove_node_again.simps) (auto simp: get_node_eq iext_assert_def kfree_eq)
qed

lemma remove_again_big:
  "remove_node_entry ifp a pos p level = Some (ifp1, n, off) \<Longrightarrow> 8 \<le> n \<Longrightarrow>
   remove_node_again ifp a pos p level = Some ifp1"
  by (subst remove_node_again.simps) simp

lemma map_ukey_snoc:
  assumes "map ukey A = X @ E @ [e]"
  obtains A' x where "A = A' @ [x]" "e = ukey x" "map ukey A' = X @ E"
  using assms by (cases A rule: rev_cases) auto

text \<open>Replacing the entries of one node of a level.\<close>

lemma child_in_level:
  assumes "\<forall>x \<in> set u. unode_ok m x" "ents_ok (concat (map snd u))" "x \<in> set u" "if_mem ifp (fst x) = m (fst x)"
  shows "child_node ifp (ukey x) (snd x)"
proof -
  have "\<forall>e \<in> set (snd x). fst e < XFS_IEXT_KEY_INVALID"
    using assms(2,3) by (auto simp: ents_ok_def)
  then show ?thesis
    using assms by (auto simp: child_node_def ukey_def unode_ok_def get_node_eq)
qed


text \<open>
  What rebalancing a node does: nothing, or a neighbour or the node itself becomes the victim
  \<open>v\<close> to remove next and the entries of the level stay the same in the remaining nodes.
\<close>

definition merged_into ::
    "xfs_ifork \<Rightarrow> unode list \<Rightarrow> xfs_ifork \<Rightarrow> addr \<Rightarrow> ent list \<Rightarrow> unode list \<Rightarrow> bool" where
  "merged_into ifp1 lev ifp2 v ents' u' \<longleftrightarrow>
     v \<noteq> 0 \<and> map ukey u' = ents' \<and> concat (map snd u') = concat (map snd lev) \<and>
     distinct (map fst u') \<and> v \<notin> set (map fst u') \<and> set (map fst lev) = insert v (set (map fst u')) \<and>
     (\<forall>x \<in> set u'. unode_ok (if_mem ifp2) x) \<and> if_mem ifp2 v \<noteq> None \<and>
     mem_change (set (map fst lev)) ifp1 ifp2"

lemma merge_cases:
  assumes sib: "\<forall>x \<in> set A \<union> set C. unode_ok (if_mem ifp) x \<and> child_node ifp (ukey x) (snd x)"
    and ks: "map ukey A = X @ E" "map ukey C = F @ Y"
  obtains (empty) "es = []"
    | (prev) E' e x A' where "es \<noteq> []" "E = E' @ [e]" "A = A' @ [x]" "e = ukey x" "map ukey A' = X @ E'"
        "length (snd x) + length es \<le> 16"
    | (nxt) e F' x C' where "es \<noteq> []" "no_prev_merge ifp E (length es)" "F = e # F'" "C = x # C'" "e = ukey x"
        "map ukey C' = F' @ Y" "length es + length (snd x) \<le> 16"
    | (none) "es \<noteq> []" "no_prev_merge ifp E (length es)" "no_next_merge ifp F (length es)"
proof (cases "es = []")
  case False
  show thesis
  proof (cases "no_prev_merge ifp E (length es)")
    case no_prev: True
    show thesis
    proof (cases "no_next_merge ifp F (length es)")
      case no_next: False
      then obtain e F' where F: "F = e # F'" by (cases F) (auto simp: no_next_merge_def)
      with ks(2) obtain x C' where C: "C = x # C'" "e = ukey x" "map ukey C' = F' @ Y" by (cases C) auto
      have "child_node ifp e (snd x)" using sib C by auto
      then have "length es + length (snd x) \<le> 16"
        using no_next F by (auto simp: no_next_merge_def linorder_not_le [symmetric])
      then show thesis using nxt \<open>es \<noteq> []\<close> no_prev F C by blast
    qed (use none \<open>es \<noteq> []\<close> no_prev in blast)
  next
    case no_prev: False
    then obtain E' e where E: "E = E' @ [e]" by (cases E rule: rev_cases) (auto simp: no_prev_merge_def)
    from map_ukey_snoc [of A X E' e] ks(1) E obtain A' x where A: "A = A' @ [x]" "e = ukey x" "map ukey A' = X @ E'"
      by auto
    have "child_node ifp e (snd x)" using sib A by auto
    then have "length (snd x) + length es \<le> 16"
      using no_prev E by (auto simp: no_prev_merge_def linorder_not_le [symmetric])
    then show thesis using prev \<open>es \<noteq> []\<close> E A by blast
  qed
qed (rule empty)

lemma rebalance_outcome:
  assumes sib: "\<forall>x \<in> set A \<union> set C. unode_ok (if_mem ifp) x \<and> child_node ifp (ukey x) (snd x)"
    and a: "if_mem ifp a = Some (Node (node_of es))" "a \<noteq> 0" "length es \<le> 16" "es \<noteq> [] \<Longrightarrow> off = fst (hd es)"
    and d: "distinct (map fst (A @ (a, es) # C))"
    and par: "get_node ifp pa = Some (node_of (E @ (off, a) # F))" "length (E @ (off, a) # F) \<le> 16"
      "\<forall>y \<in> set (E @ (off, a) # F). fst y < XFS_IEXT_KEY_INVALID"
    and ks: "map ukey A = X @ E" "map ukey C = F @ Y"
  shows "(es \<noteq> [] \<and> xfs_iext_rebalance_node ifp pa (length E) a (length es) = Some (ifp, 0, length E)) \<or>
    (\<exists>ifp2 v kv E' F' u'. xfs_iext_rebalance_node ifp pa (length E) a (length es) = Some (ifp2, v, length E') \<and>
       E @ (off, a) # F = E' @ (kv, v) # F' \<and>
       merged_into ifp (A @ (a, es) # C) ifp2 v (X @ E' @ F' @ Y) u')"
    (is "?none \<or> ?merge")
proof -
  have g: "get_node ifp a = Some (node_of es)" using a(1) by (rule get_node_eq)
  show ?thesis
  proof (cases rule: merge_cases [OF sib ks, of es, case_names empty prev nxt none])
    case empty
    have "xfs_iext_rebalance_node ifp pa (length E) a (length es) = Some (ifp, a, length E)"
      using empty rebalance_empty by simp
    moreover have "merged_into ifp (A @ (a, es) # C) ifp a (X @ E @ F @ Y) (A @ C)"
      using empty a d ks sib by (auto simp: merged_into_def mem_change_def)
    ultimately show ?thesis by blast
  next
    case (prev E' e x A')
    let ?ifp2 = "put_block ifp (fst x) (Node (node_of (snd x @ es)))"
    have x: "child_node ifp (ukey x) (snd x)" "unode_ok (if_mem ifp) x" using sib prev(3) by auto
    have "xfs_iext_rebalance_node ifp pa (length E) a (length es) = Some (?ifp2, a, length E)"
      using rebalance_prev [of ifp pa E' e "(off, a)" F "snd x" a es] par prev g x by (simp add: ukey_def)
    moreover have "merged_into ifp (A @ (a, es) # C) ?ifp2 a (X @ E @ F @ Y)
        (A' @ (fst x, snd x @ es) # C)"
    proof -
      have "fst y \<noteq> fst x" if "y \<in> set A' \<union> set C" for y using that d prev(3) by (auto simp: image_iff)
      then have "\<forall>y \<in> set A' \<union> set C. unode_ok (if_mem ?ifp2) y" using sib prev(3) by (simp add: unode_ok_def)
      then show ?thesis using prev a d ks x by (auto simp: merged_into_def mem_change_def unode_ok_def ukey_def)
    qed
    ultimately show ?thesis by blast
  next
    case (nxt e F' x C')
    let ?ifp2 = "put_block ifp a (Node (node_of (es @ snd x)))"
    have x: "child_node ifp (ukey x) (snd x)" "unode_ok (if_mem ifp) x" using sib nxt(4) by auto
    have "xfs_iext_rebalance_node ifp pa (length E) a (length es) = Some (?ifp2, fst x, length (E @ [(off, a)]))"
      using rebalance_next [of ifp pa E "(off, a)" e F' a es "snd x"] par nxt g x by (simp add: ukey_def)
    moreover have "merged_into ifp (A @ (a, es) # C) ?ifp2 (fst x)
        (X @ (E @ [(off, a)]) @ F' @ Y) (A @ (a, es @ snd x) # C')"
    proof -
      have "fst y \<noteq> a" if "y \<in> set A \<union> set C" for y using that d by (auto simp: image_iff)
      then have "\<forall>y \<in> set A \<union> set C. unode_ok (if_mem ?ifp2) y" using sib by (simp add: unode_ok_def)
      then show ?thesis using nxt a d ks x by (auto simp: merged_into_def mem_change_def unode_ok_def ukey_def)
    qed
    moreover have "E @ (off, a) # F = (E @ [(off, a)]) @ (fst e, fst x) # F'" using nxt by (simp add: ukey_def)
    ultimately show ?thesis by blast
  next
    case none
    then show ?thesis using rebalance_none [OF par g] by blast
  qed
qed

lemma ents_ok_drop: "ents_ok (X @ e # Y) \<Longrightarrow> ents_ok (X @ Y)"
  by (auto simp: ents_ok_append ents_ok_Cons)

lemma remove_entry_state:
  assumes up: "uppers (if_mem ifp) (if_data ifp) ents (u # us)" "ents_ok ents"
    and s: "u = A @ (a, E @ (k, p) # F) # C" and h: "if_height ifp = length (u # us) + b"
    and d: "distinct (uaddrs (u # us))" and p: "p \<notin> set (uaddrs (u # us))" "if_mem ifp p \<noteq> None"
  obtains ifp1 us1 off where
    "remove_node_entry ifp a (length E) p (b + 1) = Some (ifp1, length (E @ F), off)"
    "entry_removed ifp u us p ifp1 us1"
    "uppers (if_mem ifp1) (if_data ifp1) (map ukey A @ (off, a) # map ukey C) us1"
    "ents_ok (map ukey A @ (off, a) # map ukey C)"
    "if_mem ifp1 a = Some (Node (node_of (E @ F)))" "E @ F \<noteq> [] \<longrightarrow> off = fst (hd (E @ F))"
    "\<forall>x \<in> set A \<union> set C. unode_ok (if_mem ifp1) x \<and> child_node ifp1 (ukey x) (snd x)"
proof -
  obtain ifp1 us1 off where
    rm: "remove_node_entry ifp a (length E) p (b + 1) = Some (ifp1, length (E @ F), off)"
    and up1: "uppers (if_mem ifp1) (if_data ifp1) (map ukey A @ (off, a) # map ukey C) us1"
    and same: "map (map fst) us1 = map (map fst) us"
    and off: "E @ F \<noteq> [] \<Longrightarrow> off = fst (hd (E @ F))" "E @ F = [] \<Longrightarrow> off = k"
    and same': "same_fork ifp ifp1" "if_brk ifp1 = if_brk ifp"
    and a1: "if_mem ifp1 a = Some (Node (node_of (E @ F)))" "if_mem ifp1 p = None"
    and fr: "\<And>x. x \<notin> set (uaddrs us) \<Longrightarrow> x \<noteq> a \<Longrightarrow> x \<noteq> p \<Longrightarrow> if_mem ifp1 x = if_mem ifp x"
    by (rule remove_node_entry_ok [OF assms]) blast
  have nodes: "\<forall>x \<in> set u. unode_ok (if_mem ifp) x" "concat (map snd u) = ents" using up(1) by auto
  have sib: "unode_ok (if_mem ifp1) x \<and> child_node ifp1 (ukey x) (snd x)" if x: "x \<in> set A \<union> set C" for x
  proof -
    have "fst x \<notin> set (uaddrs us)" "fst x \<noteq> a" "fst x \<noteq> p" using x d p(1) s by (auto simp: image_iff)
    then have m: "if_mem ifp1 (fst x) = if_mem ifp (fst x)" by (rule fr)
    have xu: "x \<in> set u" using x s by auto
    then have "child_node ifp1 (ukey x) (snd x)" using child_in_level nodes up(2) m by blast
    then show ?thesis using nodes(1) xu m by (simp add: unode_ok_def)
  qed
  have ok: "unode_ok (if_mem ifp) (a, E @ (k, p) # F)" using nodes(1) s by simp
  have "ents_ok (map ukey A @ (off, a) # map ukey C)"
  proof (cases "E @ F = []")
    case True
    then show ?thesis using ukeys_ok [of u "if_mem ifp"] nodes up(2) s off(2) by (auto simp: ukey_def)
  next
    case False
    let ?u = "A @ (a, E @ F) # C"
    have "ents_ok (concat (map snd ?u))"
      using ents_ok_drop [of "concat (map snd A) @ E" "(k, p)" "F @ concat (map snd C)"] nodes(2) up(2) s by auto
    moreover have "\<forall>x \<in> set ?u. unode_ok (if_mem ifp1) x"
      using sib ok a1(1) False by (auto simp: unode_ok_def)
    ultimately have "ents_ok (map ukey ?u)" by (rule ukeys_ok)
    then show ?thesis using off(1) False by (simp add: ukey_def)
  qed
  moreover have "entry_removed ifp u us p ifp1 us1"
    using same same' a1(2) fr s by (auto simp: entry_removed_def)
  ultimately show thesis using rm up1 a1(1) off(1) sib by (intro that) auto
qed

lemma remove_again_root_ok:
  assumes prems: "uppers (if_mem ifp) (if_data ifp) ents [u]" "ents_ok ents" "u = A @ (a, E @ (k, p) # F) # C"
   "if_height ifp = length [u] + b" "distinct (uaddrs [u])" "p \<notin> set (uaddrs [u])" "if_mem ifp p \<noteq> None"
   "concat (map snd A) @ E @ F @ concat (map snd C) \<noteq> []"
  shows "\<exists>ifp' us'. remove_node_again ifp a (length E) p (b + 1) = Some ifp' \<and>
     remove_node_result ifp [u] p (concat (map snd A) @ E @ F @ concat (map snd C)) b ifp' us'"
proof -
  from prems(1) obtain k' where "map ukey u = [(k', if_data ifp)]" by auto
  then have AC: "A = []" "C = []" "a = if_data ifp" using prems(3) by (auto simp: append_eq_Cons_conv ukey_def)
  obtain ifp1 us1 off where
    rm: "remove_node_entry ifp a (length E) p (b + 1) = Some (ifp1, length (E @ F), off)"
    and er: "entry_removed ifp u [] p ifp1 us1" and a1: "if_mem ifp1 a = Some (Node (node_of (E @ F)))"
    by (rule remove_entry_state [OF prems(1-7)]) blast
  have ok: "unode_ok (if_mem ifp) (a, E @ (k, p) # F)" using prems(1,3) by simp
  then have len: "length (E @ F) \<le> 16" "a \<noteq> 0" by (auto simp: unode_ok_def)
  have ne: "E @ F \<noteq> []" using prems(8) AC by auto
  have ap: "a \<noteq> p" using prems(3,6) by auto
  have root: "remove_node_again ifp a (length E) p (b + 1) =
    (if length (E @ F) = 1 then
       Some (ifp1\<lparr>if_data := snd (hd (E @ F)), if_height := b, if_mem := (if_mem ifp1)(a := None)\<rparr>)
     else Some ifp1)"
    by (rule remove_again_root [OF rm a1(1) len(2) refl len(1)])
       (use prems(4) AC er in \<open>auto simp: entry_removed_def same_fork_def\<close>)
  show ?thesis
  proof (cases "length (E @ F) = 1")
    case True
    then obtain c where c: "E @ F = [c]" by (metis length_0_conv length_Suc_conv One_nat_def)
    then have "remove_node_result ifp [u] p (concat (map snd A) @ E @ F @ concat (map snd C)) b
       (ifp1\<lparr>if_data := snd (hd (E @ F)), if_height := b, if_mem := (if_mem ifp1)(a := None)\<rparr>) []"
      using AC er ap prems(3)
      by (cases c) (auto simp: remove_node_result_def entry_removed_def same_fork_def)
    then show ?thesis using root True by auto
  next
    case False
    have "remove_node_result ifp [u] p (concat (map snd A) @ E @ F @ concat (map snd C)) b ifp1 [[(a, E @ F)]]"
      using AC er a1 ap prems(3,4) ne len
      by (auto simp: remove_node_result_def entry_removed_def same_fork_def unode_ok_def ukey_def)
    then show ?thesis using root False by auto
  qed
qed

lemma entry_removed_trans:
  assumes "entry_removed ifp u us p ifp1 us1" "mem_change (set (map fst u)) ifp1 ifp2" "p \<notin> set (map fst u)"
  shows "entry_removed ifp u us p ifp2 us1"
  using assms by (auto simp: entry_removed_def mem_change_def same_fork_def)

lemma remove_node_again_ok:
  "uppers (if_mem ifp) (if_data ifp) ents (u # us) \<Longrightarrow> ents_ok ents \<Longrightarrow> u = A @ (a, E @ (k, p) # F) # C \<Longrightarrow>
   if_height ifp = length (u # us) + b \<Longrightarrow> distinct (uaddrs (u # us)) \<Longrightarrow>
   p \<notin> set (uaddrs (u # us)) \<Longrightarrow> if_mem ifp p \<noteq> None \<Longrightarrow>
   concat (map snd A) @ E @ F @ concat (map snd C) \<noteq> [] \<Longrightarrow>
   \<exists>ifp' us'. remove_node_again ifp a (length E) p (b + 1) = Some ifp' \<and>
     remove_node_result ifp (u # us) p (concat (map snd A) @ E @ F @ concat (map snd C)) b ifp' us'"
proof (induction "length us" arbitrary: ifp ents u us A a E k p F C b)
  case 0
  then show ?case using remove_again_root_ok [of ifp ents u A a E k p F C b] by simp
next
  case (Suc n)
  note prems = Suc.prems
  let ?goal = "concat (map snd A) @ E @ F @ concat (map snd C)"
  let ?lev = "A @ (a, E @ F) # C"
  obtain ifp1 us1 off where
    rm: "remove_node_entry ifp a (length E) p (b + 1) = Some (ifp1, length (E @ F), off)"
    and er: "entry_removed ifp u us p ifp1 us1"
    and up1: "uppers (if_mem ifp1) (if_data ifp1) (map ukey A @ (off, a) # map ukey C) us1"
    and ents1: "ents_ok (map ukey A @ (off, a) # map ukey C)"
    and a1: "if_mem ifp1 a = Some (Node (node_of (E @ F)))" and off: "E @ F \<noteq> [] \<longrightarrow> off = fst (hd (E @ F))"
    and sib: "\<forall>x \<in> set A \<union> set C. unode_ok (if_mem ifp1) x \<and> child_node ifp1 (ukey x) (snd x)"
    by (rule remove_entry_state [OF prems(1-7)])
  have ok: "unode_ok (if_mem ifp) (a, E @ (k, p) # F)" using prems(1,3) by simp
  have len: "length (E @ F) \<le> 16" "a \<noteq> 0" using ok by (auto simp: unode_ok_def)
  have fst: "map fst ?lev = map fst u" using prems(3) by simp
  have keep: "remove_node_result ifp (u # us) p ?goal b ifp1 (?lev # us1)" if "E @ F \<noteq> []"
    using remove_keep [OF er _ _ fst prems(4,5)] that up1 off sib a1 len
    by (auto simp: unode_ok_def ukey_def)
  show ?case
  proof (cases "8 \<le> length (E @ F)")
    case True
    then have "E @ F \<noteq> []" by auto
    then show ?thesis using keep remove_again_big [OF rm True] by blast
  next
    case False
    obtain w ws where us1: "us1 = w # ws" "length ws = n"
      using Suc.hyps(2) entry_removed_uaddrs(2) [OF er] by (cases us1) auto
    have h1: "if_height ifp1 = length (w # ws) + (b + 1)"
      using er us1 Suc.hyps(2) prems(4) by (simp add: entry_removed_def same_fork_def)
    have ua: "uaddrs (w # ws) = uaddrs us" using entry_removed_uaddrs(1) [OF er] us1 by simp
    obtain A2 pa E2 F2 C2 where w: "w = A2 @ (pa, E2 @ (off, a) # F2) # C2"
      "map ukey A = concat (map snd A2) @ E2" "map ukey C = F2 @ concat (map snd C2)"
      "unode_ok (if_mem ifp1) (pa, E2 @ (off, a) # F2)" "ents_ok (E2 @ (off, a) # F2)"
      using uppers_head [of "if_mem ifp1" "if_data ifp1" _ w ws "map ukey A" off a "map ukey C"] up1 ents1 us1
      by metis
    have step: "remove_node_again ifp a (length E) p (b + 1) = do {
      (ifp2, victim, pos) \<leftarrow> xfs_iext_rebalance_node ifp1 pa (length E2) a (length (E @ F));
      if victim \<noteq> 0 then remove_node_again ifp2 pa pos victim (b + 1 + 1) else Some ifp2
    }"
      by (rule remove_again_step [OF rm _ _ ents1 w(1) h1]) (use False up1 us1 in auto)
    have "(E @ F \<noteq> [] \<and> xfs_iext_rebalance_node ifp1 pa (length E2) a (length (E @ F)) = Some (ifp1, 0, length E2)) \<or>
      (\<exists>ifp2 v kv E' F' u'. xfs_iext_rebalance_node ifp1 pa (length E2) a (length (E @ F)) = Some (ifp2, v, length E') \<and>
       E2 @ (off, a) # F2 = E' @ (kv, v) # F' \<and>
       merged_into ifp1 ?lev ifp2 v (concat (map snd A2) @ E' @ F' @ concat (map snd C2)) u')"
      by (rule rebalance_outcome [OF sib a1 len(2,1) off [rule_format] _ _ _ _ w(2,3)])
         (use prems(3,5) w(4,5) in \<open>auto simp: unode_ok_def get_node_eq ents_ok_def\<close>)
    then show ?thesis
    proof (elim disjE exE conjE)
      assume "E @ F \<noteq> []" "xfs_iext_rebalance_node ifp1 pa (length E2) a (length (E @ F)) = Some (ifp1, 0, length E2)"
      then show ?thesis using keep step by auto
    next
      fix ifp2 v kv E' F' u'
      assume rb: "xfs_iext_rebalance_node ifp1 pa (length E2) a (length (E @ F)) = Some (ifp2, v, length E')"
        and eq: "E2 @ (off, a) # F2 = E' @ (kv, v) # F'"
        and mi: "merged_into ifp1 ?lev ifp2 v (concat (map snd A2) @ E' @ F' @ concat (map snd C2)) u'"
      have dis: "set (map fst u) \<inter> set (uaddrs us) = {}" using prems(5) by auto
      have cat: "concat (map snd u') = ?goal"
        and mk: "map ukey u' = concat (map snd A2) @ E' @ F' @ concat (map snd C2)"
        using mi by (simp_all add: merged_into_def)
      have ne: "u' \<noteq> []" using cat prems(8) by (metis concat.simps(1) list.simps(8))
      note mi' = mi [unfolded merged_into_def fst]
      have ch: "mem_change (set (map fst u)) ifp1 ifp2" and vu: "v \<in> set (map fst u)" using mi' by blast+
      have "\<exists>ifp' us'. remove_node_again ifp2 pa (length E') v (b + 1 + 1) = Some ifp' \<and>
        remove_node_result ifp2 (w # ws) v (concat (map snd A2) @ E' @ F' @ concat (map snd C2)) (b + 1) ifp' us'"
      proof (rule Suc.hyps(1) [OF us1(2) [symmetric] _ ents1])
        show "uppers (if_mem ifp2) (if_data ifp2) (map ukey A @ (off, a) # map ukey C) (w # ws)"
        proof (rule uppers_frame)
          show "uppers (if_mem ifp1) (if_data ifp2) (map ukey A @ (off, a) # map ukey C) (w # ws)"
            using up1 us1 ch by (simp add: mem_change_def)
          show "if_mem ifp2 x = if_mem ifp1 x" if "x \<in> set (uaddrs (w # ws))" for x
          proof -
            have "x \<notin> set (map fst u)" using that dis unfolding ua by blast
            then show ?thesis using ch by (simp add: mem_change_def)
          qed
        qed
        show "w = A2 @ (pa, E' @ (kv, v) # F') # C2" using w(1) eq by simp
        show "concat (map snd A2) @ E' @ F' @ concat (map snd C2) \<noteq> []"
          using mk ne by (metis map_is_Nil_conv)
      qed (use h1 ch ua prems(5) vu dis mi in \<open>auto simp: mem_change_def merged_into_def\<close>)
      then obtain ifp' us' where r: "remove_node_again ifp2 pa (length E') v (b + 1 + 1) = Some ifp'"
        "remove_node_result ifp2 (w # ws) v (map ukey u') (b + 1) ifp' us'"
        using mi by (auto simp: merged_into_def)
      have "remove_node_result ifp (u # us) p (concat (map snd u')) b ifp' (u' # us')"
        by (rule remove_lift [OF entry_removed_trans [OF er ch] _ _ _ _ _ prems(5,6)])
           (use r(2) us1 mi' prems(6) in auto)
      then show ?thesis using step rb r(1) mi by (auto simp: merged_into_def)
    qed
  qed
qed

lemma remove_node_ok:
  assumes up: "uppers (if_mem ifp) (if_data ifp) (X @ (k, p) # Y) us" "ents_ok (X @ (k, p) # Y)" "X @ Y \<noteq> []"
    and h: "if_height ifp = length us + 1" and d: "distinct (uaddrs us)"
    and p: "p \<notin> set (uaddrs us)" "if_mem ifp p \<noteq> None"
  shows "\<exists>ifp' us'. xfs_iext_remove_node ifp k p = Some ifp' \<and> remove_node_result ifp us p (X @ Y) 1 ifp' us'"
proof -
  obtain u us0 where us: "us = u # us0" using up(1,3) by (cases us) (auto simp: append_eq_Cons_conv)
  obtain A a E F C where s: "u = A @ (a, E @ (k, p) # F) # C" "X = concat (map snd A) @ E"
    "Y = F @ concat (map snd C)" "unode_ok (if_mem ifp) (a, E @ (k, p) # F)" "ents_ok (E @ (k, p) # F)"
    using uppers_head [of "if_mem ifp" "if_data ifp" _ u us0 X k p Y] up us by metis
  have lt: "k < XFS_IEXT_KEY_INVALID" and gt: "\<forall>e \<in> set (F @ concat (map snd C)). k < fst e"
    using up(2) s(3) by (auto simp: ents_ok_simps)
  have "xfs_iext_find_level ifp k (1 + 1) = Some a"
    by (rule find_parent [OF _ up(2) s(1) _ order_refl gt lt]) (use up(1) us h in auto)
  then have find: "xfs_iext_find_level ifp k 2 = Some a" by (simp add: numeral_2_eq_2)
  have pos: "xfs_iext_node_pos (node_of (E @ (k, p) # F)) k = Some (length E)"
    using node_search [OF s(5), of k] gt s(4) lt
    by (auto simp: xfs_iext_node_pos_def seek_def unode_ok_def)
  have "\<exists>ifp' us'. remove_node_again ifp a (length E) p (1 + 1) = Some ifp' \<and>
     remove_node_result ifp (u # us0) p (concat (map snd A) @ E @ F @ concat (map snd C)) 1 ifp' us'"
    by (rule remove_node_again_ok [OF _ up(2) s(1)]) (use up us h d p s in auto)
  moreover have "xfs_iext_remove_node ifp k p = remove_node_again ifp a (length E) p 2"
    using find pos s(4) h us by (simp add: xfs_iext_remove_node_def iext_assert_def unode_ok_def get_node_eq)
  ultimately show ?thesis using us s(2,3) by (simp add: numeral_2_eq_2)
qed

end
