(* ===== verification/Iext_Rep.thy ===== *)
theory Iext_Rep
  imports Iext_Shrink
begin

text \<open>
  The list of extents an in-core extent tree stands for. Below the node levels lies the chain
  of leaves, linked in both directions, or the single record array of a one-block tree. The
  searches and the cursor moves are shown to be exact on this list.
\<close>

section \<open>Records in file order\<close>

definition rec_key :: "xfs_iext_rec \<Rightarrow> u64" where
  "rec_key r = br_startoff (xfs_iext_get r)"

definition ext_start :: "xfs_bmbt_irec \<Rightarrow> nat" where
  "ext_start e = unat (br_startoff e)"

definition ext_end :: "xfs_bmbt_irec \<Rightarrow> nat" where
  "ext_end e = unat (br_startoff e) + unat (br_blockcount e)"

text \<open>A file mapping: nonempty extents that satisfy the field widths, in order and disjoint.\<close>

definition exts_ok :: "xfs_bmbt_irec list \<Rightarrow> bool" where
  "exts_ok xs \<longleftrightarrow>
     (\<forall>e \<in> set xs. br_blockcount e \<noteq> 0 \<and> iext_set_asserts e) \<and>
     sorted_wrt (\<lambda>e f. ext_end e \<le> ext_start f) xs"

abbreviation rec_exts :: "xfs_iext_rec list \<Rightarrow> xfs_bmbt_irec list" where
  "rec_exts rs \<equiv> map xfs_iext_get rs"

lemma mask_zero_unat: "(w :: u64) AND NOT (mask n) = 0 \<Longrightarrow> unat w < 2 ^ n"
proof -
  assume "w AND NOT (mask n) = 0"
  then have "w = w AND mask n"
    unfolding word_zero_bits by (intro bit_word_eqI) (auto simp: bit_simps)
  then show ?thesis by (metis unat_and_mask)
qed

lemma ext_bounds:
  assumes "iext_set_asserts e"
  shows "ext_start e < 2 ^ 54" "unat (br_blockcount e) < 2 ^ 21"
  using assms mask_zero_unat [of "br_startoff e" 54] mask_zero_unat [of "br_blockcount e" 21]
  by (auto simp: iext_set_asserts_def xfs_masklo_mask ext_start_def)

lemma exts_ok_append:
  "exts_ok (xs @ ys) \<longleftrightarrow> exts_ok xs \<and> exts_ok ys \<and> (\<forall>x \<in> set xs. \<forall>y \<in> set ys. ext_end x \<le> ext_start y)"
  by (auto simp: exts_ok_def sorted_wrt_append)

lemma exts_ok_Cons:
  "exts_ok (x # xs) \<longleftrightarrow>
     br_blockcount x \<noteq> 0 \<and> iext_set_asserts x \<and> exts_ok xs \<and> (\<forall>y \<in> set xs. ext_end x \<le> ext_start y)"
  by (auto simp: exts_ok_def)

lemma exts_ok_Nil [simp]: "exts_ok []"
  by (simp add: exts_ok_def)

lemma ext_start_less_end: "br_blockcount e \<noteq> 0 \<Longrightarrow> ext_start e < ext_end e"
  by (simp add: ext_start_def ext_end_def unat_gt_0)

lemma rec_nonempty:
  assumes "br_blockcount (xfs_iext_get r) \<noteq> 0"
  shows "\<not> xfs_iext_rec_is_empty r"
  using assms by (auto simp: xfs_iext_rec_is_empty_def xfs_iext_get_def)

lemma rec_zero_empty [simp]: "xfs_iext_rec_is_empty iext_rec_zero"
  by (simp add: xfs_iext_rec_is_empty_def iext_rec_zero_def)

lemma rec_cmp_iff: "xfs_iext_rec_cmp r off \<ge> 0 \<longleftrightarrow> unat off < ext_end (xfs_iext_get r)"
proof -
  let ?e = "xfs_iext_get r"
  have b: "unat (br_startoff ?e) < 2 ^ 54" "unat (br_blockcount ?e) < 2 ^ 21"
    using ext_bounds [of ?e] iext_pack_get(2) by (simp_all add: ext_start_def)
  have cast: "ucast (ucast (br_blockcount ?e) :: u32) = (br_blockcount ?e)"
    using b(2) by (intro word_unat_eq_iff [THEN iffD2]) (simp add: unat_ucast_64_32_small)
  have "unat (br_startoff ?e + br_blockcount ?e) = ext_end ?e"
    using b by (simp add: ext_end_def unat_add_small)
  moreover have "br_startoff ?e = rec_lo r AND xfs_mask64lo 54" "br_blockcount ?e = rec_hi r AND xfs_mask64lo 21"
    by (simp_all add: xfs_iext_get_def)
  ultimately show ?thesis
    using cast unfolding xfs_iext_rec_cmp_def Let_def
    by (auto simp: word_less_nat_alt word_le_nat_alt ext_end_def)
qed

lemma rec_cmp_before: "unat off < ext_start (xfs_iext_get r) \<Longrightarrow> xfs_iext_rec_cmp r off = 1"
  by (simp add: xfs_iext_rec_cmp_def ext_start_def xfs_iext_get_def word_less_nat_alt)

section \<open>Leaves\<close>

type_synonym lnode = "addr \<times> xfs_iext_rec list"

definition leaf_of :: "xfs_iext_rec list \<Rightarrow> addr \<Rightarrow> addr \<Rightarrow> xfs_iext_leaf" where
  "leaf_of rs pv nx = \<lparr>l_recs = pad RECS_PER_LEAF iext_rec_zero rs, l_prev = pv, l_next = nx\<rparr>"

lemma leaf_of_simps [simp]:
  "l_recs (leaf_of rs pv nx) = pad 15 iext_rec_zero rs" "l_prev (leaf_of rs pv nx) = pv" "l_next (leaf_of rs pv nx) = nx"
  by (simp_all add: leaf_of_def)

definition leaf_ok :: "mem \<Rightarrow> addr \<Rightarrow> lnode \<Rightarrow> addr \<Rightarrow> bool" where
  "leaf_ok m pv x nx \<longleftrightarrow>
     fst x \<noteq> 0 \<and> snd x \<noteq> [] \<and> length (snd x) \<le> RECS_PER_LEAF \<and> m (fst x) = Some (Leaf (leaf_of (snd x) pv nx))"

definition faddr :: "addr \<Rightarrow> lnode list \<Rightarrow> addr" where
  "faddr nx L = (case L of [] \<Rightarrow> nx | x # _ \<Rightarrow> fst x)"

definition laddr :: "addr \<Rightarrow> lnode list \<Rightarrow> addr" where
  "laddr pv L = (if L = [] then pv else fst (last L))"

lemma faddr_simps [simp]: "faddr nx [] = nx" "faddr nx (x # L) = fst x"
  by (simp_all add: faddr_def)

lemma laddr_simps [simp]: "laddr pv [] = pv" "laddr pv (L @ [x]) = fst x" "laddr pv (x # L) = laddr (fst x) L"
  by (simp_all add: laddr_def)

lemma faddr_append: "faddr nx (L @ M) = faddr (faddr nx M) L"
  by (cases L) simp_all

text \<open>A doubly linked run of leaves between \<open>pv\<close> and \<open>nx\<close>.\<close>

primrec leaf_seg :: "mem \<Rightarrow> addr \<Rightarrow> lnode list \<Rightarrow> addr \<Rightarrow> bool" where
  "leaf_seg m pv [] nx \<longleftrightarrow> True"
| "leaf_seg m pv (x # L) nx \<longleftrightarrow> leaf_ok m pv x (faddr nx L) \<and> leaf_seg m (fst x) L nx"

lemma leaf_seg_append:
  "leaf_seg m pv (L @ M) nx \<longleftrightarrow> leaf_seg m pv L (faddr nx M) \<and> leaf_seg m (laddr pv L) M nx"
  by (induction L arbitrary: pv) (auto simp: faddr_append)

lemma leaf_seg_frame:
  "leaf_seg m pv L nx \<Longrightarrow> (\<And>a. a \<in> set (map fst L) \<Longrightarrow> m' a = m a) \<Longrightarrow> leaf_seg m' pv L nx"
  by (induction L arbitrary: pv) (auto simp: leaf_ok_def)

text \<open>The block of a one-block tree: a full leaf or an array of at least the records it holds.\<close>

definition root_ok :: "mem \<Rightarrow> lnode \<Rightarrow> bool" where
  "root_ok m x \<longleftrightarrow>
     fst x \<noteq> 0 \<and> snd x \<noteq> [] \<and> length (snd x) \<le> RECS_PER_LEAF \<and>
     (leaf_ok m 0 x 0 \<or> (\<exists>n \<ge> length (snd x). m (fst x) = Some (Recs (pad n iext_rec_zero (snd x)))))"

definition leaves_ok :: "mem \<Rightarrow> lnode list \<Rightarrow> unode list list \<Rightarrow> bool" where
  "leaves_ok m L us \<longleftrightarrow> (if us = [] then \<exists>x. L = [x] \<and> root_ok m x else leaf_seg m 0 L 0)"

definition lkey :: "lnode \<Rightarrow> ent" where
  "lkey x = (rec_key (hd (snd x)), fst x)"

lemma lkey_sels [simp]: "fst (lkey x) = rec_key (hd (snd x))" "snd (lkey x) = fst x"
  by (simp_all add: lkey_def)

definition lrecs :: "lnode list \<Rightarrow> xfs_iext_rec list" where
  "lrecs L = concat (map snd L)"

lemma lrecs_simps [simp]: "lrecs [] = []" "lrecs (x # L) = snd x @ lrecs L" "lrecs (L @ M) = lrecs L @ lrecs M"
  by (simp_all add: lrecs_def)

section \<open>The tree of a list of extents\<close>

definition iext_rep :: "xfs_ifork \<Rightarrow> lnode list \<Rightarrow> unode list list \<Rightarrow> bool" where
  "iext_rep ifp L us \<longleftrightarrow>
     0 < if_brk ifp \<and> if_bytes ifp = 16 * int (length (lrecs L)) \<and> exts_ok (rec_exts (lrecs L)) \<and>
     distinct (map fst L @ uaddrs us) \<and> (\<forall>a \<in> set (map fst L @ uaddrs us). a < if_brk ifp) \<and>
     (\<forall>a. if_mem ifp a \<noteq> None \<longleftrightarrow> a \<in> set (map fst L @ uaddrs us)) \<and>
     (if L = [] then us = [] \<and> if_height ifp = 0 \<and> if_data ifp = 0
      else if_height ifp = length us + 1 \<and> leaves_ok (if_mem ifp) L us \<and>
        uppers (if_mem ifp) (if_data ifp) (map lkey L) us)"

lemma leaf_seg_nodes: "leaf_seg m pv L nx \<Longrightarrow> x \<in> set L \<Longrightarrow> fst x \<noteq> 0 \<and> snd x \<noteq> [] \<and> length (snd x) \<le> 15"
  by (induction L arbitrary: pv) (auto simp: leaf_ok_def)

lemma leaves_nodes: "leaves_ok m L us \<Longrightarrow> x \<in> set L \<Longrightarrow> fst x \<noteq> 0 \<and> snd x \<noteq> [] \<and> length (snd x) \<le> 15"
  by (auto simp: leaves_ok_def root_ok_def dest: leaf_seg_nodes split: if_splits)

lemma rec_key_nat: "unat (rec_key r) = ext_start (xfs_iext_get r)"
  by (simp add: rec_key_def ext_start_def)

lemma key_invalid_nat: "unat XFS_IEXT_KEY_INVALID = 2 ^ 63"
  by (simp add: XFS_IEXT_KEY_INVALID_def)

lemma rec_key_valid: "rec_key r < XFS_IEXT_KEY_INVALID"
  using ext_bounds(1) [of "xfs_iext_get r"] iext_pack_get(2)
  by (simp add: word_less_nat_alt rec_key_nat key_invalid_nat)

lemma lkeys_ok:
  "(\<And>x. x \<in> set L \<Longrightarrow> fst x \<noteq> 0 \<and> snd x \<noteq> []) \<Longrightarrow> exts_ok (rec_exts (lrecs L)) \<Longrightarrow> ents_ok (map lkey L)"
proof (induction L)
  case (Cons x L)
  have hd: "hd (snd x) \<in> set (snd x)" using Cons.prems(1) by simp
  have "rec_key (hd (snd x)) < rec_key (hd (snd y))" if y: "y \<in> set L" for y
  proof -
    have "hd (snd y) \<in> set (snd y)" using y Cons.prems(1) [of y] by simp
    then have "hd (snd y) \<in> set (lrecs L)" using y by (auto simp: lrecs_def)
    with hd Cons.prems(2) have "ext_end (xfs_iext_get (hd (snd x))) \<le> ext_start (xfs_iext_get (hd (snd y)))"
      "br_blockcount (xfs_iext_get (hd (snd x))) \<noteq> 0"
      by (auto simp: exts_ok_append) (auto simp: exts_ok_def)
    then show ?thesis
      using ext_start_less_end [of "xfs_iext_get (hd (snd x))"] by (simp add: word_less_nat_alt rec_key_nat)
  qed
  moreover have "ents_ok (map lkey L)" using Cons by (auto simp: exts_ok_append)
  ultimately show ?case using Cons.prems(1) rec_key_valid by (auto simp: ents_ok_Cons)
qed simp

lemma rep_lkeys_ok: "iext_rep ifp L us \<Longrightarrow> ents_ok (map lkey L)"
  by (intro lkeys_ok) (auto simp: iext_rep_def dest: leaves_nodes split: if_splits)

lemma rep_count: "iext_rep ifp L us \<Longrightarrow> xfs_iext_count ifp = length (lrecs L)"
  by (simp add: iext_rep_def xfs_iext_count_def)

section \<open>Reading records\<close>

text \<open>A block that holds the records \<open>rs\<close>, as far as the code looks into it.\<close>

definition holds :: "xfs_ifork \<Rightarrow> addr \<Rightarrow> xfs_iext_rec list \<Rightarrow> bool" where
  "holds ifp a rs \<longleftrightarrow>
     length rs \<le> xfs_iext_max_recs ifp \<and> (\<forall>r \<in> set rs. \<not> xfs_iext_rec_is_empty r) \<and>
     (\<exists>n. get_recs ifp a = Some (pad n iext_rec_zero rs) \<and> length rs \<le> n \<and> xfs_iext_max_recs ifp \<le> n)"

lemma holds_get_rec:
  "holds ifp a rs \<Longrightarrow> i < xfs_iext_max_recs ifp \<Longrightarrow>
   get_rec ifp a i = Some (if i < length rs then rs ! i else iext_rec_zero)"
  by (auto simp: holds_def get_rec_def aget_pad)

lemma leaf_nr_loop_eq:
  assumes "holds ifp a rs" "i \<le> length rs"
  shows "leaf_nr_loop ifp a i = Some (length rs)"
  using assms(2)
proof (induction "length rs - i" arbitrary: i)
  case 0
  then show ?case
    using holds_get_rec [OF assms(1), of i] by (subst leaf_nr_loop.simps) auto
next
  case (Suc m)
  then have i: "i < length rs" by simp
  then have "\<not> xfs_iext_rec_is_empty (rs ! i)" "i < xfs_iext_max_recs ifp"
    using assms(1) by (auto simp: holds_def)
  moreover have "leaf_nr_loop ifp a (i + 1) = Some (length rs)"
    using Suc.hyps(2) i by (intro Suc.hyps(1)) auto
  ultimately show ?case
    using i holds_get_rec [OF assms(1), of i] by (subst leaf_nr_loop.simps) simp
qed

lemma lookup_loop_eq:
  assumes "holds ifp a (R @ S)" "\<forall>r \<in> set R. xfs_iext_rec_cmp r off < 0" "S \<noteq> [] \<longrightarrow> xfs_iext_rec_cmp (hd S) off \<ge> 0"
    and "i \<le> length R"
  shows "lookup_loop ifp a off i = Some (S \<noteq> [], length R)"
  using assms(4)
proof (induction "length R - i" arbitrary: i)
  case 0
  then have i: "i = length R" by simp
  show ?case
  proof (cases S)
    case Nil
    then show ?thesis
      using i holds_get_rec [OF assms(1), of i] by (subst lookup_loop.simps) auto
  next
    case (Cons r S')
    then have "\<not> xfs_iext_rec_is_empty r" "i < xfs_iext_max_recs ifp"
      using assms(1) i by (auto simp: holds_def)
    then show ?thesis
      using i Cons assms(3) holds_get_rec [OF assms(1), of i] by (subst lookup_loop.simps) (simp add: nth_append)
  qed
next
  case (Suc m)
  then have i: "i < length R" by simp
  then have "\<not> xfs_iext_rec_is_empty (R ! i)" "i < xfs_iext_max_recs ifp" "xfs_iext_rec_cmp (R ! i) off < 0"
    using assms(1,2) by (auto simp: holds_def)
  moreover have "lookup_loop ifp a off (i + 1) = Some (S \<noteq> [], length R)"
    using Suc.hyps(2) i by (intro Suc.hyps(1)) auto
  ultimately show ?case
    using i holds_get_rec [OF assms(1), of i] by (subst lookup_loop.simps) (simp add: nth_append)
qed

lemma exts_nonempty: "exts_ok (rec_exts rs) \<Longrightarrow> r \<in> set rs \<Longrightarrow> \<not> xfs_iext_rec_is_empty r"
  by (rule rec_nonempty) (simp add: exts_ok_def)

lemma leaf_seg_mid:
  "leaf_seg m pv (A @ x # C) nx \<Longrightarrow> leaf_ok m (laddr pv A) x (faddr nx C)"
  by (simp add: leaf_seg_append)

lemma rep_holds:
  assumes "iext_rep ifp L us" "L = A @ (a, rs) # C"
  shows "holds ifp a rs"
proof -
  have ne: "\<forall>r \<in> set rs. \<not> xfs_iext_rec_is_empty r"
    using assms exts_nonempty [of "lrecs L"] by (auto simp: iext_rep_def)
  show ?thesis
  proof (cases "us = []")
    case True
    then have x: "L = [(a, rs)]" and r: "root_ok (if_mem ifp) (a, rs)" and h: "if_height ifp = 1"
      using assms by (auto simp: iext_rep_def leaves_ok_def append_eq_Cons_conv)
    then have "xfs_iext_max_recs ifp = length rs" using rep_count [OF assms(1)] by (simp add: xfs_iext_max_recs_def)
    moreover obtain n where "get_recs ifp a = Some (pad n iext_rec_zero rs)" "length rs \<le> n"
      using r by (auto simp: root_ok_def leaf_ok_def get_recs_def)
    ultimately show ?thesis using ne by (auto simp: holds_def)
  next
    case False
    then have "leaf_seg (if_mem ifp) 0 L 0" "if_height ifp \<noteq> 1"
      using assms by (auto simp: iext_rep_def leaves_ok_def)
    then have "leaf_ok (if_mem ifp) (laddr 0 A) (a, rs) (faddr 0 C)" "xfs_iext_max_recs ifp = 15"
      using assms(2) leaf_seg_mid by (auto simp: xfs_iext_max_recs_def)
    then show ?thesis using ne by (auto simp: holds_def leaf_ok_def get_recs_def)
  qed
qed

lemma rep_leaf:
  assumes "iext_rep ifp L us" "L = A @ (a, rs) # C" "if_height ifp > 1"
  shows "get_leaf ifp a = Some (leaf_of rs (laddr 0 A) (faddr 0 C))"
proof -
  have "us \<noteq> []" using assms by (auto simp: iext_rep_def)
  then have "leaf_seg (if_mem ifp) 0 L 0" using assms by (auto simp: iext_rep_def leaves_ok_def)
  then show ?thesis using assms(2) leaf_seg_mid by (fastforce simp: leaf_ok_def get_leaf_def)
qed

lemma rep_nodes: "iext_rep ifp L us \<Longrightarrow> x \<in> set L \<Longrightarrow> fst x \<noteq> 0 \<and> snd x \<noteq> [] \<and> length (snd x) \<le> 15"
  by (auto simp: iext_rep_def dest: leaves_nodes split: if_splits)

lemma rep_height_pos: "iext_rep ifp L us \<Longrightarrow> L \<noteq> [] \<Longrightarrow> if_height ifp = length us + 1"
  by (simp add: iext_rep_def)

lemma rep_empty: "iext_rep ifp [] us \<Longrightarrow> us = [] \<and> if_height ifp = 0 \<and> if_data ifp = 0"
  by (simp add: iext_rep_def)

section \<open>Cursors\<close>

text \<open>The cursor points at record \<open>i\<close>, or past the last record.\<close>

definition cursor_on :: "lnode list \<Rightarrow> xfs_iext_cursor \<Rightarrow> nat \<Rightarrow> bool" where
  "cursor_on L cur i \<longleftrightarrow>
     (\<exists>A a rs C p. L = A @ (a, rs) # C \<and> p < length rs \<and> cur = \<lparr>cur_leaf = a, cur_pos = int p\<rparr> \<and>
        i = length (lrecs A) + p)"

definition cursor_end :: "lnode list \<Rightarrow> xfs_iext_cursor \<Rightarrow> bool" where
  "cursor_end L cur \<longleftrightarrow>
     (if L = [] then cur = \<lparr>cur_leaf = 0, cur_pos = 0\<rparr>
      else cur = \<lparr>cur_leaf = fst (last L), cur_pos = int (length (snd (last L)))\<rparr>)"

lemma cursor_on_rec:
  assumes "iext_rep ifp L us" "cursor_on L cur i"
  shows "i < length (lrecs L)" "cur_rec ifp cur = Some (lrecs L ! i)" "xfs_iext_valid ifp cur = Some True"
    "xfs_iext_get_extent ifp cur = Some (Some (xfs_iext_get (lrecs L ! i)))"
proof -
  obtain A a rs C p where c: "L = A @ (a, rs) # C" "p < length rs" "cur = \<lparr>cur_leaf = a, cur_pos = int p\<rparr>"
    "i = length (lrecs A) + p" using assms(2) by (auto simp: cursor_on_def)
  have h: "holds ifp a rs" by (rule rep_holds [OF assms(1) c(1)])
  have max: "p < xfs_iext_max_recs ifp" using h c(2) by (simp add: holds_def)
  have a0: "a \<noteq> 0" using rep_nodes [OF assms(1), of "(a, rs)"] c(1) by simp
  have nth: "lrecs L ! i = rs ! p" using c by (simp add: nth_append)
  show "i < length (lrecs L)" using c by simp
  show r: "cur_rec ifp cur = Some (lrecs L ! i)"
    using holds_get_rec [OF h max] c nth by (simp add: cur_rec_def)
  have "\<not> xfs_iext_rec_is_empty (rs ! p)" using h c(2) by (simp add: holds_def)
  then show v: "xfs_iext_valid ifp cur = Some True"
    using r max c a0 nth by (simp add: xfs_iext_valid_def)
  show "xfs_iext_get_extent ifp cur = Some (Some (xfs_iext_get (lrecs L ! i)))"
    using r v by (simp add: xfs_iext_get_extent_def)
qed

lemma leaf_end_invalid:
  assumes "iext_rep ifp L us" "L = A @ (a, rs) # C"
  shows "xfs_iext_valid ifp \<lparr>cur_leaf = a, cur_pos = int (length rs)\<rparr> = Some False"
  using rep_holds [OF assms] holds_get_rec [OF rep_holds [OF assms], of "length rs"]
  by (simp add: xfs_iext_valid_def cur_rec_def)

lemma cursor_end_invalid:
  assumes "iext_rep ifp L us" "cursor_end L cur"
  shows "xfs_iext_valid ifp cur = Some False" "xfs_iext_get_extent ifp cur = Some None"
proof -
  show v: "xfs_iext_valid ifp cur = Some False"
  proof (cases L rule: rev_cases)
    case Nil
    then show ?thesis using assms by (simp add: cursor_end_def xfs_iext_valid_def)
  next
    case (snoc A x)
    then show ?thesis
      using leaf_end_invalid [OF assms(1), of A "fst x" "snd x" "[]"] assms(2) by (simp add: cursor_end_def)
  qed
  then show "xfs_iext_get_extent ifp cur = Some None" by (simp add: xfs_iext_get_extent_def)
qed

section \<open>Searching for an offset\<close>

lemma rec_exts_end_before:
  "exts_ok (rec_exts (X @ Y)) \<Longrightarrow> x \<in> set X \<Longrightarrow> y \<in> set Y \<Longrightarrow>
   ext_end (xfs_iext_get x) \<le> ext_start (xfs_iext_get y)"
  by (auto simp: exts_ok_append)

lemma seek_leaf:
  assumes "iext_rep ifp L us" "L \<noteq> []"
  obtains A a rs C where "L = A @ (a, rs) # C" "seek off (map lkey A) (rec_key (hd rs)) (map lkey C)"
proof -
  obtain X k p Y where x: "map lkey L = X @ (k, p) # Y" "seek off X k Y"
    using seek_exists [OF rep_lkeys_ok [OF assms(1)]] assms(2) by (metis map_is_Nil_conv)
  then obtain A l C where "L = A @ l # C" "X = map lkey A" "(k, p) = lkey l" "Y = map lkey C"
    by (auto simp: map_eq_append_conv map_eq_Cons_conv)
  then show thesis using that x(2) by (cases l) (auto simp: lkey_def)
qed

lemma find_leaf:
  assumes "iext_rep ifp L us" "L = A @ (a, rs) # C" "seek off (map lkey A) (rec_key (hd rs)) (map lkey C)"
    "off < XFS_IEXT_KEY_INVALID"
  shows "xfs_iext_find_level ifp off 1 = Some a"
proof -
  have "find_level_loop ifp off (length us) (if_data ifp) = Some a"
    by (rule find_uppers [OF _ rep_lkeys_ok [OF assms(1)] _ assms(3,4)])
       (use assms(1,2) in \<open>auto simp: iext_rep_def lkey_def\<close>)
  then show ?thesis
    using rep_height_pos [OF assms(1)] assms(2) by (simp add: xfs_iext_find_level_def)
qed

text \<open>The number of records that end at or before the offset.\<close>

definition lookup_index :: "xfs_bmbt_irec list \<Rightarrow> u64 \<Rightarrow> nat" where
  "lookup_index xs off = length (takeWhile (\<lambda>e. ext_end e \<le> unat off) xs)"

lemma lookup_index_append:
  "\<forall>x \<in> set xs. ext_end x \<le> unat off \<Longrightarrow> lookup_index (xs @ ys) off = length xs + lookup_index ys off"
  by (simp add: lookup_index_def takeWhile_append2)

lemma lookup_index_rec_exts:
  "lookup_index (rec_exts rs) off = length (takeWhile (\<lambda>r. ext_end (xfs_iext_get r) \<le> unat off) rs)"
  by (simp add: lookup_index_def takeWhile_map comp_def)

lemma before_seek:
  assumes ok: "exts_ok (rec_exts (lrecs (A @ (a, rs) # C)))" and ne: "rs \<noteq> []" "\<forall>x \<in> set A. snd x \<noteq> []"
    and s: "seek off (map lkey A) (rec_key (hd rs)) (map lkey C)"
  shows "\<forall>x \<in> set (lrecs A). ext_end (xfs_iext_get x) \<le> unat off"
proof
  fix x assume x: "x \<in> set (lrecs A)"
  then have "A \<noteq> []" by auto
  then have "rec_key (hd rs) \<le> off" using s by (simp add: seek_def)
  then have "ext_start (xfs_iext_get (hd rs)) \<le> unat off" by (simp add: word_le_nat_alt rec_key_nat)
  moreover have "ext_end (xfs_iext_get x) \<le> ext_start (xfs_iext_get (hd rs))"
    by (rule rec_exts_end_before [of "lrecs A" "rs @ lrecs C"]) (use ok x ne in auto)
  ultimately show "ext_end (xfs_iext_get x) \<le> unat off" by simp
qed

lemma after_seek:
  assumes "C = y # C'" "snd y \<noteq> []" "seek off X k (map lkey C)"
  shows "\<not> ext_end (xfs_iext_get (hd (snd y))) \<le> unat off"
proof -
  have "off < rec_key (hd (snd y))" using assms by (simp add: seek_def)
  then have "unat off < ext_start (xfs_iext_get (hd (snd y)))" by (simp add: word_less_nat_alt rec_key_nat)
  then show ?thesis by (simp add: ext_end_def ext_start_def)
qed

lemma lookup_extent_ok:
  assumes rep: "iext_rep ifp L us" and off: "off < XFS_IEXT_KEY_INVALID"
  shows "\<exists>cur. xfs_iext_lookup_extent ifp off =
      Some (cur, if lookup_index (rec_exts (lrecs L)) off < length (lrecs L)
                 then Some (xfs_iext_get (lrecs L ! lookup_index (rec_exts (lrecs L)) off)) else None) \<and>
    (if lookup_index (rec_exts (lrecs L)) off < length (lrecs L)
     then cursor_on L cur (lookup_index (rec_exts (lrecs L)) off) else cursor_end L cur)"
    (is "\<exists>cur. _ = Some (cur, ?got) \<and> _")
proof (cases "L = []")
  case True
  then show ?thesis
    using rep_empty [of ifp us] rep by (simp add: xfs_iext_lookup_extent_def xfs_iext_find_level_def cursor_end_def)
next
  case False
  obtain A a rs C where L: "L = A @ (a, rs) # C" and s: "seek off (map lkey A) (rec_key (hd rs)) (map lkey C)"
    using seek_leaf [OF rep False] .
  have find: "xfs_iext_find_level ifp off 1 = Some a" by (rule find_leaf [OF rep L s off])
  have nodes: "a \<noteq> 0" "rs \<noteq> []" "\<forall>x \<in> set A. snd x \<noteq> []" using rep_nodes [OF rep] L by fastforce+
  have ok: "exts_ok (rec_exts (lrecs L))" using rep by (simp add: iext_rep_def)
  let ?P = "\<lambda>r. ext_end (xfs_iext_get r) \<le> unat off"
  let ?R = "takeWhile ?P rs" and ?S = "dropWhile ?P rs"
  have cmp: "?P r \<longleftrightarrow> xfs_iext_rec_cmp r off < 0" for r using rec_cmp_iff [of r off] by linarith
  have loop: "lookup_loop ifp a off 0 = Some (?S \<noteq> [], length ?R)"
  proof (rule lookup_loop_eq)
    show "holds ifp a (?R @ ?S)" using rep_holds [OF rep L] by simp
    show "\<forall>r \<in> set ?R. xfs_iext_rec_cmp r off < 0" using cmp set_takeWhileD by metis
    show "?S \<noteq> [] \<longrightarrow> xfs_iext_rec_cmp (hd ?S) off \<ge> 0"
      using hd_dropWhile [of ?P rs] cmp [of "hd ?S"] by (metis linorder_not_less)
  qed simp
  have idx: "lookup_index (rec_exts (lrecs L)) off = length (lrecs A) + lookup_index (rec_exts (rs @ lrecs C)) off"
    using lookup_index_append [of "rec_exts (lrecs A)" off] before_seek [OF _ nodes(2,3) s] ok L by simp
  show ?thesis
  proof (cases "?S = []")
    case found: False
    obtain r where "r \<in> set rs" "\<not> ?P r" using found by (auto simp: dropWhile_eq_Nil_conv)
    then have "takeWhile ?P (rs @ lrecs C) = ?R" by (rule takeWhile_append1)
    then have "lookup_index (rec_exts (rs @ lrecs C)) off = length ?R" by (simp only: lookup_index_rec_exts)
    moreover have lt: "length ?R < length rs"
      using found by (metis length_append length_greater_0_conv less_add_same_cancel1 takeWhile_dropWhile_id)
    ultimately have on: "cursor_on L \<lparr>cur_leaf = a, cur_pos = int (length ?R)\<rparr> (lookup_index (rec_exts (lrecs L)) off)"
      using L idx by (auto simp: cursor_on_def)
    then show ?thesis
      using find loop found nodes(1) cursor_on_rec [OF rep on]
      by (intro exI [of _ "\<lparr>cur_leaf = a, cur_pos = int (length ?R)\<rparr>"]) (simp add: xfs_iext_lookup_extent_def)
  next
    case True
    then have R: "?R = rs" "\<forall>r \<in> set rs. ?P r" by (auto simp: dropWhile_eq_Nil_conv takeWhile_eq_all_conv)
    then have idx2: "lookup_index (rec_exts (lrecs L)) off = length (lrecs A) + length rs + lookup_index (rec_exts (lrecs C)) off"
      using idx lookup_index_append [of "rec_exts rs" off "rec_exts (lrecs C)"] by simp
    show ?thesis
    proof (cases C)
      case Nil
      then have "cursor_end L \<lparr>cur_leaf = a, cur_pos = int (length rs)\<rparr>" using L by (simp add: cursor_end_def)
      moreover have "lookup_index (rec_exts (lrecs L)) off = length (lrecs L)"
        using idx2 Nil L by (simp add: lookup_index_def)
      ultimately show ?thesis
        using find loop R(1) nodes(1) Nil rep_leaf [OF rep L] rep_height_pos [OF rep] L
        by (intro exI [of _ "\<lparr>cur_leaf = a, cur_pos = int (length rs)\<rparr>"])
           (cases us; simp add: xfs_iext_lookup_extent_def)
    next
      case (Cons y C')
      have y: "fst y \<noteq> 0" "snd y \<noteq> []" using rep_nodes [OF rep] L Cons by auto
      have "us \<noteq> []" using rep L Cons by (auto simp: iext_rep_def leaves_ok_def)
      then have h: "if_height ifp > 1" using rep_height_pos [OF rep] L by (cases us) auto
      have L': "L = (A @ [(a, rs)]) @ (fst y, snd y) # C'" using L Cons by simp
      have "lookup_index (rec_exts (lrecs C)) off = 0"
        using after_seek [OF Cons y(2) s] Cons y(2) by (cases "snd y") (simp_all add: lookup_index_def)
      then have on: "cursor_on L \<lparr>cur_leaf = fst y, cur_pos = 0\<rparr> (lookup_index (rec_exts (lrecs L)) off)"
        unfolding cursor_on_def using L' y(2) idx2
        by (intro exI [of _ "A @ [(a, rs)]"] exI [of _ "fst y"] exI [of _ "snd y"] exI [of _ C'] exI [of _ 0]) simp
      then show ?thesis
        using find loop R(1) nodes(1) h y(1) Cons rep_leaf [OF rep L h] cursor_on_rec [OF rep on]
        by (intro exI [of _ "\<lparr>cur_leaf = fst y, cur_pos = 0\<rparr>"]) (simp add: xfs_iext_lookup_extent_def)
    qed
  qed
qed

section \<open>Moving cursors\<close>

lemma uppers_nonempty: "uppers m root ents us \<Longrightarrow> ents \<noteq> []"
proof (induction us arbitrary: ents)
  case (Cons u us)
  then have "u \<noteq> []" "\<forall>x \<in> set u. snd x \<noteq> []" by (auto simp: unode_ok_def)
  then show ?case using Cons.prems by (cases u) auto
qed auto

lemma rep_uppers: "iext_rep ifp L us \<Longrightarrow> L \<noteq> [] \<Longrightarrow> uppers (if_mem ifp) (if_data ifp) (map lkey L) us"
  by (simp add: iext_rep_def)

lemma cursor_onI:
  "L = A @ (a, rs) # C \<Longrightarrow> p < length rs \<Longrightarrow> cur = \<lparr>cur_leaf = a, cur_pos = int p\<rparr> \<Longrightarrow> i = length (lrecs A) + p \<Longrightarrow>
   cursor_on L cur i"
  by (auto simp: cursor_on_def)

lemma first_leaf_loop_add:
  "first_leaf_loop ifp n a = Some b \<Longrightarrow> first_leaf_loop ifp (n + l) a = first_leaf_loop ifp l b"
  by (induction n arbitrary: a) (auto simp: Option.bind_eq_Some_conv)

lemma last_leaf_loop_add:
  "last_leaf_loop ifp n a = Some b \<Longrightarrow> last_leaf_loop ifp (n + l) a = last_leaf_loop ifp l b"
  by (induction n arbitrary: a) (auto simp: Option.bind_eq_Some_conv)

lemma first_uppers:
  "uppers (if_mem ifp) root ents us \<Longrightarrow> ents_ok ents \<Longrightarrow> first_leaf_loop ifp (length us) root = Some (snd (hd ents))"
proof (induction us arbitrary: ents)
  case (Cons u us)
  then have u: "concat (map snd u) = ents" "\<forall>x \<in> set u. unode_ok (if_mem ifp) x"
    and up: "uppers (if_mem ifp) root (map ukey u) us" by auto
  have IH: "first_leaf_loop ifp (length us) root = Some (snd (hd (map ukey u)))"
    by (rule Cons.IH [OF up ukeys_ok]) (use u Cons.prems in auto)
  have "u \<noteq> []" using uppers_nonempty [OF up] by simp
  then obtain x u' where x: "u = x # u'" by (cases u) auto
  then obtain e es where e: "snd x = e # es" using u(2) by (cases "snd x") (auto simp: unode_ok_def)
  have "snd e \<noteq> 0" using Cons.prems(2) u(1) x e by (auto simp: ents_ok_Cons)
  moreover have "aget (n_ptrs (node_of (e # es))) 0 = Some (snd e)"
    using ptr_before [of "[]" e es] u(2) x e by (auto simp: unode_ok_def)
  ultimately show ?case
    using first_leaf_loop_add [OF IH, of 1] u x e
    by (auto simp: ukey_def unode_ok_def get_node_eq iext_assert_def)
qed auto

lemma null_ptr_loop_eq:
  assumes "i \<le> length es" "length es \<le> 16" "\<forall>e \<in> set es. snd e \<noteq> 0"
  shows "null_ptr_loop (node_of es) i = Some (length es)"
  using assms(1)
proof (induction "length es - i" arbitrary: i)
  case 0
  then show ?case using assms(2) by (subst null_ptr_loop.simps) (auto simp: node_of_def aget_pad)
next
  case (Suc m)
  then have i: "i < length es" by simp
  then have "snd (es ! i) \<noteq> 0" using assms(3) by auto
  moreover have "null_ptr_loop (node_of es) (i + 1) = Some (length es)"
    using Suc.hyps(2) i by (intro Suc.hyps(1)) auto
  ultimately show ?case
    using i assms(2) by (subst null_ptr_loop.simps) (simp add: node_of_def aget_pad)
qed

lemma last_uppers:
  "uppers (if_mem ifp) root ents us \<Longrightarrow> ents_ok ents \<Longrightarrow> last_leaf_loop ifp (length us) root = Some (snd (last ents))"
proof (induction us arbitrary: ents)
  case (Cons u us)
  then have u: "concat (map snd u) = ents" "\<forall>x \<in> set u. unode_ok (if_mem ifp) x"
    and up: "uppers (if_mem ifp) root (map ukey u) us" by auto
  have IH: "last_leaf_loop ifp (length us) root = Some (snd (last (map ukey u)))"
    by (rule Cons.IH [OF up ukeys_ok]) (use u Cons.prems in auto)
  have "u \<noteq> []" using uppers_nonempty [OF up] by simp
  then obtain x u' where x: "u = u' @ [x]" by (cases u rule: rev_cases) auto
  then obtain e es where e: "snd x = es @ [e]" using u(2) by (cases "snd x" rule: rev_cases) (auto simp: unode_ok_def)
  have len: "length (es @ [e]) \<le> 16" using u(2) x e by (auto simp: unode_ok_def)
  have nz: "\<forall>e \<in> set (es @ [e]). snd e \<noteq> 0" using Cons.prems(2) u(1) x e by (auto simp: ents_ok_def)
  have "null_ptr_loop (node_of (es @ [e])) 1 = Some (length (es @ [e]))"
    by (rule null_ptr_loop_eq) (use len nz in auto)
  moreover have "aget (n_ptrs (node_of (es @ [e]))) (length es) = Some (snd e)"
    using ptr_before [of es e "[]"] len by simp
  ultimately show ?case
    using last_leaf_loop_add [OF IH, of 1] u x e nz
    by (auto simp: ukey_def unode_ok_def get_node_eq iext_assert_def)
qed auto

lemma iext_first_ok:
  assumes "iext_rep ifp L us"
  shows "\<exists>cur. xfs_iext_first ifp = Some cur \<and> (if L = [] then cursor_end L cur else cursor_on L cur 0)"
proof (cases L)
  case Nil
  then show ?thesis
    using rep_empty [of ifp us] assms by (simp add: xfs_iext_first_def xfs_iext_find_first_leaf_def cursor_end_def)
next
  case (Cons x C)
  have "first_leaf_loop ifp (length us) (if_data ifp) = Some (snd (hd (map lkey L)))"
    using first_uppers rep_uppers [OF assms] rep_lkeys_ok [OF assms] Cons by blast
  moreover have "cursor_on L \<lparr>cur_leaf = fst x, cur_pos = 0\<rparr> 0"
    unfolding cursor_on_def using rep_nodes [OF assms, of x] Cons
    by (intro exI [of _ "[]"] exI [of _ "fst x"] exI [of _ "snd x"] exI [of _ C] exI [of _ 0]) simp
  ultimately show ?thesis
    using rep_height_pos [OF assms] Cons by (simp add: xfs_iext_first_def xfs_iext_find_first_leaf_def)
qed

lemma iext_last_ok:
  assumes "iext_rep ifp L us"
  shows "\<exists>cur. xfs_iext_last ifp = Some cur \<and>
    (if L = [] then cursor_end L cur else cursor_on L cur (length (lrecs L) - 1))"
proof (cases L rule: rev_cases)
  case Nil
  then show ?thesis
    using rep_empty [of ifp us] assms by (simp add: xfs_iext_last_def xfs_iext_find_last_leaf_def cursor_end_def)
next
  case (snoc A x)
  have "last_leaf_loop ifp (length us) (if_data ifp) = Some (snd (last (map lkey L)))"
    using last_uppers rep_uppers [OF assms] rep_lkeys_ok [OF assms] snoc by blast
  moreover have x: "fst x \<noteq> 0" "snd x \<noteq> []" using rep_nodes [OF assms, of x] snoc by auto
  moreover have "leaf_nr_loop ifp (fst x) 1 = Some (length (snd x))"
    by (rule leaf_nr_loop_eq [OF rep_holds [OF assms]]) (use snoc x in \<open>auto simp: Suc_le_eq\<close>)
  moreover have "cursor_on L \<lparr>cur_leaf = fst x, cur_pos = int (length (snd x)) - 1\<rparr> (length (lrecs L) - 1)"
    by (rule cursor_onI [of _ A "fst x" "snd x" "[]" "length (snd x) - 1"])
       (use snoc x in \<open>auto simp: Suc_le_eq of_nat_diff\<close>)
  ultimately show ?thesis
    using rep_height_pos [OF assms] snoc by (simp add: xfs_iext_last_def xfs_iext_find_last_leaf_def)
qed

lemma iext_next_ok:
  assumes rep: "iext_rep ifp L us" and on: "cursor_on L cur i"
  shows "\<exists>cur'. xfs_iext_next ifp cur = Some cur' \<and>
    (if i + 1 < length (lrecs L) then cursor_on L cur' (i + 1) else cursor_end L cur')"
proof -
  obtain A a rs C p where c: "L = A @ (a, rs) # C" "p < length rs" "cur = \<lparr>cur_leaf = a, cur_pos = int p\<rparr>"
    "i = length (lrecs A) + p" using on by (auto simp: cursor_on_def)
  have a0: "a \<noteq> 0" and h: "holds ifp a rs" using rep_nodes [OF rep, of "(a, rs)"] rep_holds [OF rep c(1)] c(1) by auto
  have max: "p < xfs_iext_max_recs ifp" using h c(2) by (simp add: holds_def)
  let ?n = "\<lparr>cur_leaf = a, cur_pos = int p + 1\<rparr>"
  show ?thesis
  proof (cases "p + 1 < length rs")
    case True
    then have n: "cursor_on L ?n (i + 1)"
      unfolding cursor_on_def using c by (intro exI [of _ A] exI [of _ a] exI [of _ rs] exI [of _ C] exI [of _ "p + 1"]) simp
    then show ?thesis
      using cursor_on_rec [OF rep n] a0 max c
      by (intro exI [of _ ?n]) (simp add: xfs_iext_next_def iext_assert_def Let_def)
  next
    case False
    then have p: "p + 1 = length rs" using c(2) by simp
    then have inv: "xfs_iext_valid ifp ?n = Some False" using leaf_end_invalid [OF rep c(1)] by (simp add: p [symmetric] add.commute)
    show ?thesis
    proof (cases C)
      case Nil
      then have "cursor_end L ?n" using c p by (auto simp: cursor_end_def)
      then show ?thesis
        using Nil c p a0 max inv rep_leaf [OF rep c(1)] rep_height_pos [OF rep]
        by (intro exI [of _ ?n]) (cases us; simp add: xfs_iext_next_def iext_assert_def Let_def)
    next
      case (Cons y C')
      have y: "fst y \<noteq> 0" "snd y \<noteq> []" using rep_nodes [OF rep] c(1) Cons by auto
      have "us \<noteq> []" using rep c(1) Cons by (auto simp: iext_rep_def leaves_ok_def)
      then have h: "if_height ifp > 1" using rep_height_pos [OF rep] c(1) by (cases us) auto
      have "cursor_on L \<lparr>cur_leaf = fst y, cur_pos = 0\<rparr> (i + 1)"
        unfolding cursor_on_def using c p Cons y(2)
        by (intro exI [of _ "A @ [(a, rs)]"] exI [of _ "fst y"] exI [of _ "snd y"] exI [of _ C'] exI [of _ 0]) simp
      then show ?thesis
        using Cons c p a0 max inv y h rep_leaf [OF rep c(1) h]
        by (intro exI [of _ "\<lparr>cur_leaf = fst y, cur_pos = 0\<rparr>"]) (simp add: xfs_iext_next_def iext_assert_def Let_def)
    qed
  qed
qed

text \<open>Scanning back inside a leaf from a position past its records, or from one of them.\<close>

lemma prev_scan_found:
  assumes rep: "iext_rep ifp L us" and L: "L = A @ (a, rs) # C"
  shows "0 < p \<Longrightarrow> rs \<noteq> [] \<Longrightarrow>
    prev_scan ifp \<lparr>cur_leaf = a, cur_pos = int p\<rparr> =
      Some (True, \<lparr>cur_leaf = a, cur_pos = int (min p (length rs)) - 1\<rparr>)"
proof (induction p)
  case (Suc p)
  let ?c = "\<lparr>cur_leaf = a, cur_pos = int p\<rparr>"
  have h: "holds ifp a rs" using rep_holds [OF rep L] .
  have a0: "a \<noteq> 0" using rep_nodes [OF rep, of "(a, rs)"] L by simp
  show ?case
  proof (cases "p < length rs")
    case True
    then have "cursor_on L ?c (length (lrecs A) + p)" using L by (intro cursor_onI) auto
    then have "xfs_iext_valid ifp ?c = Some True" using cursor_on_rec [OF rep] by blast
    then show ?thesis using True by (subst prev_scan.simps) (simp add: Let_def min_def)
  next
    case False
    then have p: "0 < p" using Suc.prems(2) by (cases rs) auto
    have "xfs_iext_valid ifp ?c = Some False"
      using False a0 holds_get_rec [OF h, of p] by (auto simp: xfs_iext_valid_def cur_rec_def)
    then show ?thesis
      using False p Suc.IH Suc.prems(2) by (subst prev_scan.simps) (simp add: Let_def min_def)
  qed
qed simp

lemma prev_scan_front:
  assumes "a \<noteq> 0"
  shows "prev_scan ifp \<lparr>cur_leaf = a, cur_pos = 0\<rparr> = Some (False, \<lparr>cur_leaf = a, cur_pos = - 1\<rparr>)"
  using assms by (subst prev_scan.simps) (simp add: Let_def xfs_iext_valid_def)

lemma prev_recurse_found:
  assumes "prev_scan ifp cur = Some (True, cur')"
  shows "prev_recurse ifp cur = Some cur'"
  using assms by (subst prev_recurse.simps) simp

lemma iext_prev_on:
  assumes rep: "iext_rep ifp L us" and on: "cursor_on L cur i" and i: "0 < i"
  shows "\<exists>cur'. xfs_iext_prev ifp cur = Some cur' \<and> cursor_on L cur' (i - 1)"
proof -
  obtain A a rs C p where c: "L = A @ (a, rs) # C" "p < length rs" "cur = \<lparr>cur_leaf = a, cur_pos = int p\<rparr>"
    "i = length (lrecs A) + p" using on by (auto simp: cursor_on_def)
  have a: "a \<noteq> 0" "length rs \<le> 15" using rep_nodes [OF rep, of "(a, rs)"] c(1) by auto
  have red: "xfs_iext_prev ifp cur = prev_recurse ifp cur"
    using a c(2,3) by (simp add: xfs_iext_prev_def iext_assert_def)
  show ?thesis
  proof (cases "p = 0")
    case False
    then have "prev_recurse ifp cur = Some \<lparr>cur_leaf = a, cur_pos = int p - 1\<rparr>"
      using prev_scan_found [OF rep c(1), of p] c(2,3) by (intro prev_recurse_found) (cases rs; simp add: min_def)
    moreover have "cursor_on L \<lparr>cur_leaf = a, cur_pos = int p - 1\<rparr> (i - 1)"
      by (rule cursor_onI [OF c(1), of "p - 1"]) (use c False in \<open>auto simp: of_nat_diff\<close>)
    ultimately show ?thesis using red by auto
  next
    case True
    then have "A \<noteq> []" using i c(4) by auto
    then obtain A' x where A: "A = A' @ [x]" by (cases A rule: rev_cases) auto
    have x: "fst x \<noteq> 0" "snd x \<noteq> []" "length (snd x) \<le> 15" using rep_nodes [OF rep, of x] c(1) A by auto
    have Lx: "L = A' @ (fst x, snd x) # (a, rs) # C" using c(1) A by simp
    have "us \<noteq> []" using rep c(1) A by (auto simp: iext_rep_def leaves_ok_def)
    then have h: "if_height ifp > 1" using rep_height_pos [OF rep] c(1) by (cases us) auto
    let ?x = "\<lparr>cur_leaf = fst x, cur_pos = int (length (snd x)) - 1\<rparr>"
    have "prev_scan ifp \<lparr>cur_leaf = fst x, cur_pos = int 15\<rparr> = Some (True, ?x)"
      using prev_scan_found [OF rep Lx, of 15] x by (simp add: min_def)
    then have "prev_recurse ifp cur = Some ?x"
      using True c(3) a(1) h x(1) A rep_leaf [OF rep c(1) h] prev_recurse_found
      by (subst prev_recurse.simps) (auto simp: prev_scan_front)
    moreover have "cursor_on L ?x (i - 1)"
      by (rule cursor_onI [OF Lx, of "length (snd x) - 1"]) (use True c(4) A x in \<open>auto simp: Suc_le_eq of_nat_diff\<close>)
    ultimately show ?thesis using red by auto
  qed
qed

lemma iext_prev_end:
  assumes rep: "iext_rep ifp L us" and e: "cursor_end L cur" and L: "L \<noteq> []"
  shows "\<exists>cur'. xfs_iext_prev ifp cur = Some cur' \<and> cursor_on L cur' (length (lrecs L) - 1)"
proof -
  obtain A x where A: "L = A @ [x]" using L by (cases L rule: rev_cases) auto
  then have Lx: "L = A @ (fst x, snd x) # []" by simp
  have x: "fst x \<noteq> 0" "snd x \<noteq> []" "length (snd x) \<le> 15" using rep_nodes [OF rep, of x] A by auto
  have cur: "cur = \<lparr>cur_leaf = fst x, cur_pos = int (length (snd x))\<rparr>" using e A by (simp add: cursor_end_def)
  let ?x = "\<lparr>cur_leaf = fst x, cur_pos = int (length (snd x)) - 1\<rparr>"
  have "prev_recurse ifp cur = Some ?x"
    using prev_recurse_found prev_scan_found [OF rep Lx, of "length (snd x)"] x cur by auto
  moreover have "xfs_iext_prev ifp cur = prev_recurse ifp cur"
    using x cur by (simp add: xfs_iext_prev_def iext_assert_def)
  moreover have "cursor_on L ?x (length (lrecs L) - 1)"
    by (rule cursor_onI [OF Lx, of "length (snd x) - 1"]) (use A x in \<open>auto simp: Suc_le_eq of_nat_diff\<close>)
  ultimately show ?thesis by auto
qed

text \<open>Stepping back from the first record leaves a cursor that points at nothing.\<close>

lemma iext_prev_first:
  assumes rep: "iext_rep ifp L us" and on: "cursor_on L cur 0"
  shows "\<exists>cur'. xfs_iext_prev ifp cur = Some cur' \<and> xfs_iext_get_extent ifp cur' = Some None"
proof -
  obtain A a rs C p where c: "L = A @ (a, rs) # C" "p < length rs" "cur = \<lparr>cur_leaf = a, cur_pos = int p\<rparr>"
    "length (lrecs A) + p = 0" using on by (auto simp: cursor_on_def)
  have a: "a \<noteq> 0" using rep_nodes [OF rep, of "(a, rs)"] c(1) by auto
  have "A = []"
  proof (rule ccontr)
    assume "A \<noteq> []"
    then obtain x A' where "A = x # A'" by (cases A) auto
    then show False using rep_nodes [OF rep, of x] c(1,4) by simp
  qed
  then have "prev_recurse ifp cur = Some \<lparr>cur_leaf = a, cur_pos = - 1\<rparr>"
    using c a rep_leaf [OF rep c(1)] by (subst prev_recurse.simps) (auto simp: prev_scan_front)
  then show ?thesis
    using a c by (auto simp: xfs_iext_prev_def iext_assert_def xfs_iext_get_extent_def xfs_iext_valid_def)
qed

end
