(* ===== verification/Iext_Insert.thy ===== *)
theory Iext_Insert
  imports Iext_Rep
begin

text \<open>
  Inserting an extent at a cursor: into a free slot of its leaf, or after splitting the leaf
  and entering the new leaf into the levels above. In every case the tree stands for the old
  list with the extent added at the position of the cursor.
\<close>

section \<open>Changing the first key of a leaf\<close>

lemma update_first_key:
  assumes up: "uppers (if_mem ifp) (if_data ifp) (X @ (k, a) # Y) us" "ents_ok (X @ (k, a) # Y)"
    and h: "if_height ifp = length us + 1" and d: "distinct (uaddrs us)"
  obtains ifp' us' where "xfs_iext_update_node ifp k new 1 a = Some ifp'" "mem_change (set (uaddrs us)) ifp ifp'"
    "uppers (if_mem ifp') (if_data ifp') (X @ (new, a) # Y) us'" "uaddrs us' = uaddrs us" "length us' = length us"
proof -
  have "\<exists>ifp' us'. update_node_loop ifp k new (length us) (if_data ifp) = Some (ifp', a) \<and>
     mem_change (set (uaddrs us)) ifp ifp' \<and>
     uppers (if_mem ifp') (if_data ifp) (X @ (if k = k then new else k, a) # Y) us' \<and>
     map (map fst) us' = map (map fst) us"
    by (rule update_uppers [OF up refl]) (use up(2) d in \<open>auto simp: ents_ok_simps\<close>)
  then obtain ifp' us' where r: "update_node_loop ifp k new (length us) (if_data ifp) = Some (ifp', a)"
    "mem_change (set (uaddrs us)) ifp ifp'" "uppers (if_mem ifp') (if_data ifp) (X @ (new, a) # Y) us'"
    "map (map fst) us' = map (map fst) us" by auto
  show thesis
  proof (rule that)
    show "xfs_iext_update_node ifp k new 1 a = Some ifp'"
      using r(1) h by (simp add: xfs_iext_update_node_def iext_assert_def)
    show "uaddrs us' = uaddrs us" using r(4) by (simp add: uaddrs_def)
    show "length us' = length us" using r(4) map_eq_imp_length_eq by blast
  qed (use r in \<open>auto simp: mem_change_def\<close>)
qed

section \<open>Storing into a record array\<close>

definition set_block_recs :: "iext_block \<Rightarrow> xfs_iext_rec list \<Rightarrow> iext_block" where
  "set_block_recs b rs =
     (case b of Leaf l \<Rightarrow> Leaf (l\<lparr>l_recs := rs\<rparr>) | Recs _ \<Rightarrow> Recs rs | Node n \<Rightarrow> Node n)"

definition block_recs :: "iext_block \<Rightarrow> xfs_iext_rec list option" where
  "block_recs b = (case b of Leaf l \<Rightarrow> Some (l_recs l) | Recs rs \<Rightarrow> Some rs | Node n \<Rightarrow> None)"

lemma get_recs_block: "get_recs ifp a = Some rs \<longleftrightarrow> (\<exists>b. if_mem ifp a = Some b \<and> block_recs b = Some rs)"
  by (auto simp: get_recs_def block_recs_def split: option.splits iext_block.splits)

lemma put_recs_eq:
  assumes "if_mem ifp a = Some b" "block_recs b = Some rs0"
  shows "put_recs ifp a rs = Some (put_block ifp a (set_block_recs b rs))"
  using assms by (auto simp: put_recs_def block_recs_def set_block_recs_def split: iext_block.splits)

lemma pad_same_length: "pad n d xs = pad m d xs \<Longrightarrow> length xs \<le> n \<Longrightarrow> length xs \<le> m \<Longrightarrow> n = m"
  by (metis length_pad)

lemma leaf_of_set: "set_block_recs (Leaf (leaf_of rs pv nx)) (pad 15 iext_rec_zero rs') = Leaf (leaf_of rs' pv nx)"
  by (simp add: set_block_recs_def leaf_of_def)

lemma leaf_ok_store:
  assumes "leaf_ok m pv (a, rs) nx" "m a = Some b" "block_recs b = Some (pad n iext_rec_zero rs)" "length rs \<le> n"
    "rs' \<noteq> []" "length rs' \<le> n"
  shows "leaf_ok (m(a \<mapsto> set_block_recs b (pad n iext_rec_zero rs'))) pv (a, rs') nx"
proof -
  have b: "b = Leaf (leaf_of rs pv nx)" and len: "length rs \<le> 15" using assms(1,2) by (auto simp: leaf_ok_def)
  then have "n = 15" using assms(3,4) pad_same_length [of 15 iext_rec_zero rs n] by (simp add: block_recs_def)
  then show ?thesis using assms(1,5,6) leaf_of_set b by (simp add: leaf_ok_def)
qed

text \<open>Replacing the records of one block of the leaf level.\<close>

lemma leaves_ok_store:
  assumes ok: "leaves_ok m (A @ (a, rs) # C) us" and d: "distinct (map fst (A @ (a, rs) # C))"
    and b: "m a = Some b" "block_recs b = Some (pad n iext_rec_zero rs)" "length rs \<le> n"
    and rs': "rs' \<noteq> []" "length rs' \<le> n" "length rs' \<le> 15"
  shows "leaves_ok (m(a \<mapsto> set_block_recs b (pad n iext_rec_zero rs'))) (A @ (a, rs') # C) us"
proof (cases "us = []")
  case True
  then have AC: "A = []" "C = []" and r: "root_ok m (a, rs)" using ok by (auto simp: leaves_ok_def append_eq_Cons_conv)
  show ?thesis
  proof (cases "leaf_ok m 0 (a, rs) 0")
    case leaf: True
    then have "leaf_ok (m(a \<mapsto> set_block_recs b (pad n iext_rec_zero rs'))) 0 (a, rs') 0"
      using leaf_ok_store b rs' by blast
    then show ?thesis using True AC r rs' by (simp add: leaves_ok_def root_ok_def)
  next
    case False
    then obtain k where "b = Recs (pad k iext_rec_zero rs)" "length rs \<le> k" using r b(1) by (auto simp: root_ok_def)
    then show ?thesis using True AC r rs' b by (auto simp: leaves_ok_def root_ok_def set_block_recs_def)
  qed
next
  case False
  let ?m = "m(a \<mapsto> set_block_recs b (pad n iext_rec_zero rs'))"
  have seg: "leaf_seg m 0 A a" "leaf_ok m (laddr 0 A) (a, rs) (faddr 0 C)" "leaf_seg m a C 0"
    using ok False by (auto simp: leaves_ok_def leaf_seg_append)
  have "leaf_seg ?m 0 A a" using seg(1) by (rule leaf_seg_frame) (use d in auto)
  moreover have "leaf_seg ?m a C 0" using seg(3) by (rule leaf_seg_frame) (use d in auto)
  moreover have "leaf_ok ?m (laddr 0 A) (a, rs') (faddr 0 C)" using leaf_ok_store [OF seg(2) b rs'(1,2)] .
  ultimately show ?thesis using False by (simp add: leaves_ok_def leaf_seg_append)
qed

text \<open>Making room for a record at a position of a block with a free slot.\<close>

lemma shift_store_recs:
  assumes "p \<le> length rs" "length rs < n"
  obtains ys where "array_shift_up (pad n iext_rec_zero rs) (length rs) p = Some ys"
    "aset ys p r = Some (pad n iext_rec_zero (take p rs @ r # drop p rs))"
proof -
  have len: "length (take p rs) + length (drop p rs) < n" using assms by simp
  show thesis
    by (rule shift_up_pad [OF len, of iext_rec_zero]) (use assms(1) that in auto)
qed

section \<open>The result of an insertion\<close>

definition inserted ::
    "xfs_ifork \<Rightarrow> lnode list \<Rightarrow> nat \<Rightarrow> xfs_bmbt_irec \<Rightarrow> xfs_ifork \<Rightarrow> xfs_iext_cursor \<Rightarrow> lnode list \<Rightarrow> unode list list \<Rightarrow> bool" where
  "inserted ifp L i e ifp' cur' L' us' \<longleftrightarrow>
     iext_rep ifp' L' us' \<and> lrecs L' = take i (lrecs L) @ iext_pack e # drop i (lrecs L) \<and>
     cursor_on L' cur' i \<and> if_seq ifp' = if_seq ifp"

lemma uppers_mem: "uppers m root ents us \<Longrightarrow> x \<in> set (uaddrs us) \<Longrightarrow> m x \<noteq> None"
  by (induction us arbitrary: ents) (auto simp: unode_ok_def)

lemma leaves_ok_frame:
  assumes "leaves_ok m L us" "\<And>x. x \<in> set (map fst L) \<Longrightarrow> m' x = m x" "us' = [] \<longleftrightarrow> us = []"
  shows "leaves_ok m' L us'"
proof (cases "us = []")
  case True
  then show ?thesis using assms by (auto simp: leaves_ok_def root_ok_def leaf_ok_def)
next
  case False
  then have "leaf_seg m 0 L 0" using assms(1) by (simp add: leaves_ok_def)
  then have "leaf_seg m' 0 L 0" by (rule leaf_seg_frame) (rule assms(2))
  then show ?thesis using False assms(3) by (simp add: leaves_ok_def)
qed

text \<open>The tree after the levels have been updated and the records of one leaf replaced.\<close>

lemma rep_store:
  assumes rep: "iext_rep ifp L us" and L: "L = A @ (a, rs) # C" and L': "L' = A @ (a, rs') # C"
    and ch: "mem_change (set (uaddrs us)) ifp ifp2" and ua: "uaddrs us2 = uaddrs us" "length us2 = length us"
    and up: "uppers (if_mem ifp2) (if_data ifp2) (map lkey L') us2"
    and b: "if_mem ifp a = Some b" "block_recs b = Some (pad n iext_rec_zero rs)" "length rs \<le> n"
    and rs': "rs' \<noteq> []" "length rs' \<le> n" "length rs' \<le> 15" and ok: "exts_ok (rec_exts (lrecs L'))"
    and ifp': "ifp' = (put_block ifp2 a (set_block_recs b (pad n iext_rec_zero rs')))\<lparr>if_bytes := 16 * int (length (lrecs L'))\<rparr>"
  shows "iext_rep ifp' L' us2"
proof -
  have d: "distinct (map fst L @ uaddrs us)" and lt: "\<forall>a \<in> set (map fst L @ uaddrs us). a < if_brk ifp"
    and dom: "\<forall>a. if_mem ifp a \<noteq> None \<longleftrightarrow> a \<in> set (map fst L @ uaddrs us)"
    and h: "if_height ifp = length us + 1" and lv: "leaves_ok (if_mem ifp) L us"
    using rep L by (auto simp: iext_rep_def)
  have fst: "map fst L' = map fst L" using L L' by simp
  have a: "a \<notin> set (uaddrs us)" using d L by auto
  have aL: "a \<in> set (map fst L)" using L by simp
  have us: "us2 = [] \<longleftrightarrow> us = []" using ua(2) by auto
  let ?m = "(if_mem ifp2)(a \<mapsto> set_block_recs b (pad n iext_rec_zero rs'))"
  have m: "if_mem ifp' = ?m" by (simp add: ifp')
  have dom2: "if_mem ifp2 x \<noteq> None \<longleftrightarrow> if_mem ifp x \<noteq> None" if "x \<notin> set (uaddrs us)" for x
    using ch that by (simp add: mem_change_def)
  have nodes: "if_mem ifp2 x \<noteq> None" if "x \<in> set (uaddrs us)" for x
    using uppers_mem [OF up] ua that by auto
  have "leaves_ok ((if_mem ifp)(a \<mapsto> set_block_recs b (pad n iext_rec_zero rs'))) L' us"
    unfolding L' by (rule leaves_ok_store) (use lv L d b rs' in auto)
  then have lv': "leaves_ok ?m L' us2"
  proof (rule leaves_ok_frame)
    show "?m x = ((if_mem ifp)(a \<mapsto> set_block_recs b (pad n iext_rec_zero rs'))) x" if "x \<in> set (map fst L')" for x
      using that fst d ch by (auto simp: mem_change_def)
  qed (simp add: us)
  have up': "uppers ?m (if_data ifp2) (map lkey L') us2" by (rule uppers_frame [OF up]) (use a ua in auto)
  have "?m x \<noteq> None \<longleftrightarrow> x \<in> set (map fst L' @ uaddrs us2)" for x
    using dom nodes dom2 fst ua aL by (cases "x \<in> set (uaddrs us)") (auto simp: fun_upd_apply)
  then show ?thesis
    using rep L lv' up' ua fst ok ch h d lt unfolding iext_rep_def m
    by (simp add: ifp' mem_change_def L')
qed

lemma leaf_nr_entries_eq:
  "holds ifp a rs \<Longrightarrow> p \<le> length rs \<Longrightarrow> xfs_iext_leaf_nr_entries ifp a (int p) = Some (length rs)"
  by (simp add: xfs_iext_leaf_nr_entries_def leaf_nr_loop_eq)

lemma holds_first_key:
  assumes "holds ifp a rs" "rs \<noteq> []"
  shows "xfs_iext_leaf_key ifp a 0 = Some (rec_key (hd rs))"
proof -
  have "0 < xfs_iext_max_recs ifp" using assms by (cases rs) (auto simp: holds_def)
  then show ?thesis
    using holds_get_rec [OF assms(1), of 0] assms(2)
    by (simp add: xfs_iext_leaf_key_def rec_key_def xfs_iext_get_def hd_conv_nth)
qed

lemma insert_lrecs:
  assumes "p \<le> length rs" "i = length (lrecs A) + p"
  shows "lrecs (A @ (a, take p rs @ r # drop p rs) # C) = take i (lrecs (A @ (a, rs) # C)) @ r # drop i (lrecs (A @ (a, rs) # C))"
  using assms by simp

lemma exts_ok_insert:
  assumes "exts_ok (take i xs @ e # drop i xs)"
  shows "iext_set_asserts e" "br_blockcount e \<noteq> 0" "xfs_iext_get (iext_pack e) = e" "xfs_iext_set e = Some (iext_pack e)"
  using assms by (auto simp: exts_ok_append exts_ok_Cons iext_get_pack xfs_iext_set_def)

lemma exts_ok_insert_before:
  assumes "exts_ok (take i xs @ e # drop i xs)" "i < length xs"
  shows "ext_start e < ext_start (xs ! i)"
proof -
  have "xs ! i \<in> set (drop i xs)" using assms(2) by (metis Cons_nth_drop_Suc list.set_intros(1))
  then have "ext_end e \<le> ext_start (xs ! i)" using assms(1) by (simp add: exts_ok_append exts_ok_Cons)
  then show ?thesis using ext_start_less_end [of e] exts_ok_insert(2) [OF assms(1)] by simp
qed

text \<open>The assertion that the record at the cursor does not cover the new extent.\<close>

lemma insert_cmp_ok:
  assumes rep: "iext_rep ifp L us" and L: "L = A @ (a, rs) # C" and p: "p \<le> length rs" "i = length (lrecs A) + p"
    and ok: "exts_ok (take i (rec_exts (lrecs L)) @ e # drop i (rec_exts (lrecs L)))"
  shows "\<exists>c. (if int p \<ge> int (length rs) then Some 1
     else do { r \<leftarrow> cur_rec ifp \<lparr>cur_leaf = a, cur_pos = int p\<rparr>; Some (xfs_iext_rec_cmp r (br_startoff e)) }) = Some c \<and> c \<noteq> 0"
proof (cases "p < length rs")
  case True
  then have on: "cursor_on L \<lparr>cur_leaf = a, cur_pos = int p\<rparr> i" using L p by (intro cursor_onI) auto
  have "ext_start e < ext_start (xfs_iext_get (lrecs L ! i))"
    using exts_ok_insert_before [OF ok] cursor_on_rec(1) [OF rep on] by simp
  then have "xfs_iext_rec_cmp (lrecs L ! i) (br_startoff e) = 1" by (intro rec_cmp_before) (simp add: ext_start_def)
  then show ?thesis using cursor_on_rec(2) [OF rep on] True by simp
qed (use p in simp)

lemma insert_room:
  assumes rep: "iext_rep ifp L us" and L: "L = A @ (a, rs) # C" and p: "p \<le> length rs" "i = length (lrecs A) + p"
    and room: "length rs < 15" "get_recs ifp a = Some (pad n iext_rec_zero rs)" "length rs < n"
    and ok: "exts_ok (take i (rec_exts (lrecs L)) @ e # drop i (rec_exts (lrecs L)))"
  shows "\<exists>ifp' cur' L' us'. insert_at_cursor ifp \<lparr>cur_leaf = a, cur_pos = int p\<rparr> e = Some (ifp', cur') \<and>
    inserted ifp L i e ifp' cur' L' us'"
proof -
  let ?cur = "\<lparr>cur_leaf = a, cur_pos = int p\<rparr>"
  let ?rs = "take p rs @ iext_pack e # drop p rs"
  let ?L = "A @ (a, ?rs) # C"
  note e = exts_ok_insert [OF ok]
  have rs: "rs \<noteq> []" "a \<noteq> 0" using rep_nodes [OF rep, of "(a, rs)"] L by auto
  have h: "holds ifp a rs" by (rule rep_holds [OF rep L])
  have up: "uppers (if_mem ifp) (if_data ifp) (map lkey A @ (rec_key (hd rs), a) # map lkey C) us"
    using rep_uppers [OF rep] L by (simp add: lkey_def)
  have keys: "ents_ok (map lkey A @ (rec_key (hd rs), a) # map lkey C)"
    using rep_lkeys_ok [OF rep] L by (simp add: lkey_def)
  have hgt: "if_height ifp = length us + 1" and d: "distinct (uaddrs us)" and bytes: "if_bytes ifp = 16 * int (length (lrecs L))"
    using rep L by (auto simp: iext_rep_def)
  have lr: "lrecs ?L = take i (lrecs L) @ iext_pack e # drop i (lrecs L)" unfolding L by (rule insert_lrecs [OF p])
  have exts: "exts_ok (rec_exts (lrecs ?L))" unfolding lr using ok e(3) by (simp add: take_map drop_map)
  obtain ifp2 us2 where u: "(if a \<noteq> 0 \<and> p = 0 \<and> length rs > 0
      then xfs_iext_update_node ifp (rec_key (hd rs)) (br_startoff e) 1 a else Some ifp) = Some ifp2"
    "mem_change (set (uaddrs us)) ifp ifp2" "uaddrs us2 = uaddrs us" "length us2 = length us"
    "uppers (if_mem ifp2) (if_data ifp2) (map lkey ?L) us2"
  proof (cases "p = 0")
    case True
    obtain ifp2 us2 where "xfs_iext_update_node ifp (rec_key (hd rs)) (br_startoff e) 1 a = Some ifp2"
      "mem_change (set (uaddrs us)) ifp ifp2"
      "uppers (if_mem ifp2) (if_data ifp2) (map lkey A @ (br_startoff e, a) # map lkey C) us2"
      "uaddrs us2 = uaddrs us" "length us2 = length us"
      by (rule update_first_key [OF up keys hgt d])
    then show thesis using True rs e(3) by (intro that) (auto simp: lkey_def rec_key_def)
  next
    case False
    then have "hd ?rs = hd rs" using rs by (cases rs; cases p) auto
    then show thesis using False up by (intro that [of ifp us]) (auto simp: mem_change_def lkey_def)
  qed
  obtain b where b: "if_mem ifp a = Some b" "block_recs b = Some (pad n iext_rec_zero rs)"
    using room(2) get_recs_block by blast
  have "a \<notin> set (uaddrs us)" using rep L by (auto simp: iext_rep_def)
  then have b2: "if_mem ifp2 a = Some b" using u(2) b(1) by (simp add: mem_change_def)
  then have g2: "get_recs ifp2 a = Some (pad n iext_rec_zero rs)" using b(2) get_recs_block by blast
  obtain ys where ys: "array_shift_up (pad n iext_rec_zero rs) (length rs) p = Some ys"
    "aset ys p (iext_pack e) = Some (pad n iext_rec_zero ?rs)"
    using shift_store_recs [OF p(1) room(3)] by blast
  let ?ifp = "(put_block ifp2 a (set_block_recs b (pad n iext_rec_zero ?rs)))\<lparr>if_bytes := 16 * int (length (lrecs ?L))\<rparr>"
  have bytes': "if_bytes ifp2 + 16 = 16 * int (length (lrecs ?L))"
    using u(2) bytes p unfolding L by (simp add: mem_change_def)
  obtain c where c: "(if int p \<ge> int (length rs) then Some 1
     else do { r \<leftarrow> cur_rec ifp ?cur; Some (xfs_iext_rec_cmp r (br_startoff e)) }) = Some c" "c \<noteq> 0"
    using insert_cmp_ok [OF rep L p ok] by blast
  have "insert_at_cursor ifp ?cur e = Some (?ifp, ?cur)"
    using leaf_nr_entries_eq [OF h p(1)] room(1) c u(1) holds_first_key [OF h rs(1)] rs g2 ys e(4) put_recs_eq [OF b2 b(2)] bytes'
    by (auto simp: insert_at_cursor_def leaf_store_rec_def iext_assert_def Let_def put_block_def split: if_splits)
  moreover have "iext_rep ?ifp ?L us2"
    by (rule rep_store [OF rep L refl u(2-5) b _ _ _ _ exts refl]) (use room p in auto)
  moreover have "cursor_on ?L ?cur i" by (rule cursor_onI [OF refl, of p]) (use p in auto)
  moreover have "if_seq ?ifp = if_seq ifp" using u(2) by (simp add: mem_change_def)
  ultimately show ?thesis using lr by (auto simp: inserted_def)
qed

section \<open>Splitting a leaf\<close>

lemma get_leaf_eq: "if_mem ifp a = Some (Leaf l) \<Longrightarrow> get_leaf ifp a = Some l"
  by (simp add: get_leaf_def)

lemma set_leaf_eq:
  "if_mem ifp a = Some (Leaf (leaf_of rs pv nx)) \<Longrightarrow> set_leaf_prev ifp a q = Some (put_block ifp a (Leaf (leaf_of rs q nx)))"
  "if_mem ifp a = Some (Leaf (leaf_of rs pv nx)) \<Longrightarrow> set_leaf_next ifp a q = Some (put_block ifp a (Leaf (leaf_of rs pv q)))"
  by (simp_all add: set_leaf_prev_def set_leaf_next_def get_leaf_eq leaf_of_def)

lemma leaf_seg_upd: "leaf_seg m pv L nx \<Longrightarrow> a \<notin> fst ` set L \<Longrightarrow> leaf_seg (m(a := b)) pv L nx"
  by (erule leaf_seg_frame) auto

text \<open>The memory around a leaf \<open>a\<close> that was split into itself and a new leaf.\<close>

definition split_mem ::
    "mem \<Rightarrow> lnode list \<Rightarrow> addr \<Rightarrow> xfs_iext_rec list \<Rightarrow> addr \<Rightarrow> xfs_iext_rec list \<Rightarrow> lnode list \<Rightarrow> bool" where
  "split_mem m A a rs1 new rs2 C \<longleftrightarrow>
     leaf_seg m 0 A a \<and> m a = Some (Leaf (leaf_of rs1 (laddr 0 A) new)) \<and>
     m new = Some (Leaf (leaf_of rs2 a (faddr 0 C))) \<and> leaf_seg m new C 0"

lemma link_new_leaf_ok:
  assumes m: "leaf_seg (if_mem ifp) 0 A a" "if_mem ifp a = Some (Leaf (leaf_of rs1 (laddr 0 A) (faddr 0 C)))"
      "if_mem ifp new = Some (Leaf (leaf_of rs2 pv nx))" "leaf_seg (if_mem ifp) a C 0"
    and d: "distinct (map fst (A @ (a, rs1) # C))" "new \<notin> set (map fst (A @ (a, rs1) # C))"
  obtains ifp' where "link_new_leaf ifp a new = Some ifp'" "mem_change (insert a (insert new (set (map fst C)))) ifp ifp'"
    "split_mem (if_mem ifp') A a rs1 new rs2 C"
proof -
  have an: "a \<noteq> new" "a \<notin> set (map fst A)" "a \<notin> set (map fst C)" "new \<notin> set (map fst A)" "new \<notin> set (map fst C)"
    using d by auto
  show thesis
  proof (cases C)
    case Nil
    let ?ifp = "put_block (put_block ifp new (Leaf (leaf_of rs2 a 0))) a (Leaf (leaf_of rs1 (laddr 0 A) new))"
    have "leaf_seg (if_mem ?ifp) 0 A a" using m(1) an by (simp add: leaf_seg_upd)
    moreover have "link_new_leaf ifp a new = Some ?ifp"
      using m(2,3) Nil an by (simp add: link_new_leaf_def get_leaf_eq set_leaf_eq put_block_def)
    ultimately show thesis
      using Nil an by (intro that [of ?ifp]) (auto simp: split_mem_def mem_change_def)
  next
    case (Cons y C')
    then have y: "leaf_ok (if_mem ifp) a y (faddr 0 C')" "leaf_seg (if_mem ifp) (fst y) C' 0" using m(4) by auto
    have yn: "fst y \<noteq> a" "fst y \<noteq> new" "fst y \<notin> set (map fst A)" "fst y \<notin> set (map fst C')" "fst y \<noteq> 0"
      using d y(1) Cons by (auto simp: leaf_ok_def)
    let ?ifp = "put_block (put_block (put_block ifp (fst y) (Leaf (leaf_of (snd y) new (faddr 0 C'))))
      new (Leaf (leaf_of rs2 a (fst y)))) a (Leaf (leaf_of rs1 (laddr 0 A) new))"
    have "leaf_seg (if_mem ?ifp) 0 A a" using m(1) an yn by (simp add: leaf_seg_upd)
    moreover have "leaf_seg (if_mem ?ifp) (fst y) C' 0"
      using y(2) an yn Cons by (simp add: leaf_seg_upd)
    moreover have "link_new_leaf ifp a new = Some ?ifp"
      using m(2,3) Cons an yn y(1)
      by (simp add: link_new_leaf_def get_leaf_eq set_leaf_eq leaf_ok_def put_block_def)
    ultimately show thesis
      using Cons an yn y(1) by (intro that [of ?ifp]) (auto simp: split_mem_def mem_change_def leaf_ok_def)
  qed
qed

text \<open>Where the cursor and the records go.\<close>

definition split_recs :: "xfs_iext_rec list \<Rightarrow> nat \<Rightarrow> xfs_iext_rec list \<times> xfs_iext_rec list" where
  "split_recs rs p = (if p = 15 then (rs, []) else (take 8 rs, drop 8 rs))"

definition split_cursor :: "addr \<Rightarrow> addr \<Rightarrow> nat \<Rightarrow> xfs_iext_cursor \<times> nat" where
  "split_cursor a new p =
     (if p = 15 then (\<lparr>cur_leaf = new, cur_pos = 0\<rparr>, 0)
      else if p \<ge> 8 then (\<lparr>cur_leaf = new, cur_pos = int (p - 8)\<rparr>, 7)
      else (\<lparr>cur_leaf = a, cur_pos = int p\<rparr>, 8))"

lemma split_leaf_ok:
  assumes seg: "leaf_seg (if_mem ifp) 0 (A @ (a, rs) # C) 0" and len: "length rs = 15" "p \<le> 15"
    and d: "distinct (map fst (A @ (a, rs) # C))" "if_brk ifp \<notin> set (map fst (A @ (a, rs) # C))"
  obtains ifp' where
    "xfs_iext_split_leaf ifp \<lparr>cur_leaf = a, cur_pos = int p\<rparr> =
       Some (ifp', fst (split_cursor a (if_brk ifp) p), if_brk ifp, snd (split_cursor a (if_brk ifp) p))"
    "same_fork ifp ifp'" "if_brk ifp' = Suc (if_brk ifp)"
    "split_mem (if_mem ifp') A a (fst (split_recs rs p)) (if_brk ifp) (snd (split_recs rs p)) C"
    "\<And>x. x \<notin> set (map fst (A @ (a, rs) # C)) \<Longrightarrow> x \<noteq> if_brk ifp \<Longrightarrow> if_mem ifp' x = if_mem ifp x"
proof -
  let ?new = "if_brk ifp"
  let ?rs1 = "fst (split_recs rs p)" and ?rs2 = "snd (split_recs rs p)"
  let ?ifp0 = "snd (kzalloc ifp (Leaf zero_leaf))"
  have s: "leaf_seg (if_mem ifp) 0 A a" "if_mem ifp a = Some (Leaf (leaf_of rs (laddr 0 A) (faddr 0 C)))"
    "leaf_seg (if_mem ifp) a C 0"
    using seg by (auto simp: leaf_seg_append leaf_ok_def)
  have an: "a \<noteq> ?new" "a \<notin> set (map fst A)" "a \<notin> set (map fst C)" "?new \<notin> set (map fst A)" "?new \<notin> set (map fst C)"
    using d by auto
  have z: "zero_leaf = leaf_of [] 0 0" by (simp add: zero_leaf_def leaf_of_def pad_def)
  have zr: "zero_leaf\<lparr>l_recs := pad 15 iext_rec_zero r\<rparr> = leaf_of r 0 0" for r
    by (simp add: zero_leaf_def leaf_of_def)
  let ?ifp1 = "if p = 15 then ?ifp0 else
    put_block (put_block ?ifp0 a (Leaf (leaf_of ?rs1 (laddr 0 A) (faddr 0 C)))) ?new (Leaf (leaf_of ?rs2 0 0))"
  have step: "split_leaf_move ?ifp0 \<lparr>cur_leaf = a, cur_pos = int p\<rparr> ?new = Some (?ifp1, split_cursor a ?new p)"
  proof (cases "p = 15")
    case False
    have a0: "if_mem ?ifp0 a = Some (Leaf (leaf_of rs (laddr 0 A) (faddr 0 C)))" using s(2) an(1) by simp
    have rs: "get_recs ?ifp0 a = Some rs" using a0 len(1) by (simp add: get_recs_def pad_def)
    have c: "array_copy (l_recs zero_leaf) 0 rs 8 7 0 = Some (pad 15 iext_rec_zero (drop 8 rs))"
      "array_fill rs 8 (8 + 7) iext_rec_zero = Some (pad 15 iext_rec_zero (take 8 rs))"
      using len(1) by (simp_all add: array_copy_eq array_fill_eq zero_leaf_def pad_def)
    have p1: "put_recs ?ifp0 a (pad 15 iext_rec_zero (take 8 rs)) =
        Some (put_block ?ifp0 a (Leaf (leaf_of (take 8 rs) (laddr 0 A) (faddr 0 C))))"
      using a0 by (simp add: put_recs_def leaf_of_def)
    have p2: "put_recs (put_block ?ifp0 a (Leaf (leaf_of (take 8 rs) (laddr 0 A) (faddr 0 C)))) ?new
        (pad 15 iext_rec_zero (drop 8 rs)) = Some ?ifp1"
      using an(1) zr False by (simp add: put_recs_def split_recs_def)
    show ?thesis
      using rs c p1 p2 False len(2) by (auto simp: split_leaf_move_def Let_def split_cursor_def of_nat_diff)
  qed (simp add: split_leaf_move_def split_cursor_def)
  have m1: "leaf_seg (if_mem ?ifp1) 0 A a" "leaf_seg (if_mem ?ifp1) a C 0"
    using s(1,3) an by (auto simp: leaf_seg_upd)
  have m2: "if_mem ?ifp1 a = Some (Leaf (leaf_of ?rs1 (laddr 0 A) (faddr 0 C)))"
    "if_mem ?ifp1 ?new = Some (Leaf (leaf_of ?rs2 0 0))"
    using an(1) s(2) z by (auto simp: split_recs_def)
  have dd: "distinct (map fst (A @ (a, ?rs1) # C))" "?new \<notin> set (map fst (A @ (a, ?rs1) # C))" using d by auto
  obtain ifp' where l: "link_new_leaf ?ifp1 a ?new = Some ifp'"
    "mem_change (insert a (insert ?new (set (map fst C)))) ?ifp1 ifp'"
    "split_mem (if_mem ifp') A a ?rs1 ?new ?rs2 C"
    by (rule link_new_leaf_ok [OF m1(1) m2 m1(2) dd])
  show thesis
  proof (rule that)
    show "xfs_iext_split_leaf ifp \<lparr>cur_leaf = a, cur_pos = int p\<rparr> =
       Some (ifp', fst (split_cursor a ?new p), ?new, snd (split_cursor a ?new p))"
      using step l(1) by (cases "split_cursor a ?new p") (simp add: xfs_iext_split_leaf_def split_beta del: if_split)
  qed (use l in \<open>auto simp: mem_change_def same_fork_def\<close>)
qed

lemma leaf_store_rec_eq:
  assumes "if_mem ifp t = Some (Leaf (leaf_of rs pv nx))" "q \<le> length rs" "length rs < 15" "xfs_iext_set e = Some r"
  shows "leaf_store_rec ifp \<lparr>cur_leaf = t, cur_pos = int q\<rparr> (length rs) e =
    Some (put_block ifp t (Leaf (leaf_of (take q rs @ r # drop q rs) pv nx)))"
proof -
  obtain ys where "array_shift_up (pad 15 iext_rec_zero rs) (length rs) q = Some ys"
    "aset ys q r = Some (pad 15 iext_rec_zero (take q rs @ r # drop q rs))"
    using shift_store_recs [OF assms(2,3)] by blast
  then show ?thesis
    using assms(1,4) by (simp add: leaf_store_rec_def get_recs_def put_recs_def leaf_of_def)
qed

text \<open>The levels and leaves after the split and the store, before the new leaf is entered.\<close>

definition split_stored ::
    "xfs_ifork \<Rightarrow> lnode list \<Rightarrow> addr \<Rightarrow> lnode list \<Rightarrow> unode list list \<Rightarrow> xfs_ifork \<Rightarrow>
     xfs_iext_rec list \<Rightarrow> xfs_iext_rec list \<Rightarrow> unode list list \<Rightarrow> bool" where
  "split_stored ifp1 A a C us ifp3 rs1 rs2 us3 \<longleftrightarrow>
     split_mem (if_mem ifp3) A a rs1 (if_brk ifp1 - 1) rs2 C \<and>
     uppers (if_mem ifp3) (if_data ifp3) (map lkey A @ (rec_key (hd rs1), a) # map lkey C) us3 \<and>
     uaddrs us3 = uaddrs us \<and> length us3 = length us \<and>
     mem_change (set (uaddrs us) \<union> {a, if_brk ifp1 - 1}) ifp1 ifp3"

lemma split_mem_frame:
  assumes "split_mem m A a rs1 new rs2 C" "\<And>x. x \<in> insert a (insert new (set (map fst (A @ C)))) \<Longrightarrow> m' x = m x"
  shows "split_mem m' A a rs1 new rs2 C"
proof -
  have "leaf_seg m' 0 A a" by (rule leaf_seg_frame [of m]) (use assms in \<open>auto simp: split_mem_def\<close>)
  moreover have "leaf_seg m' new C 0" by (rule leaf_seg_frame [of m]) (use assms in \<open>auto simp: split_mem_def\<close>)
  ultimately show ?thesis using assms by (auto simp: split_mem_def)
qed

lemma split_mem_store:
  assumes "split_mem m A a rs1 new rs2 C" "a \<notin> set (map fst (A @ C))" "new \<notin> set (map fst (A @ C))" "a \<noteq> new"
  shows "split_mem (m(a \<mapsto> Leaf (leaf_of r (laddr 0 A) new))) A a r new rs2 C"
    "split_mem (m(new \<mapsto> Leaf (leaf_of r a (faddr 0 C)))) A a rs1 new r C"
  using assms by (auto simp: split_mem_def leaf_seg_upd)

text \<open>The record goes into the new leaf.\<close>

lemma store_in_new:
  assumes sm: "split_mem (if_mem ifp1) A a rs1 new rs2 C" and q: "q \<le> length rs2" "length rs2 < 15"
    and d: "a \<notin> set (map fst (A @ C))" "new \<notin> set (map fst (A @ C))" "a \<noteq> new" "new = if_brk ifp1 - 1"
    and n: "new \<notin> set (uaddrs us)" and e: "xfs_iext_set e = Some r"
    and up: "uppers (if_mem ifp1) (if_data ifp1) (map lkey A @ (rec_key (hd rs1), a) # map lkey C) us"
  obtains ifp3 where "leaf_store_rec ifp1 \<lparr>cur_leaf = new, cur_pos = int q\<rparr> (length rs2) e = Some ifp3"
    "split_stored ifp1 A a C us ifp3 rs1 (take q rs2 @ r # drop q rs2) us"
proof
  let ?rs = "take q rs2 @ r # drop q rs2"
  let ?ifp = "put_block ifp1 new (Leaf (leaf_of ?rs a (faddr 0 C)))"
  show "leaf_store_rec ifp1 \<lparr>cur_leaf = new, cur_pos = int q\<rparr> (length rs2) e = Some ?ifp"
    by (rule leaf_store_rec_eq) (use sm q e in \<open>auto simp: split_mem_def\<close>)
  have "uppers (if_mem ?ifp) (if_data ?ifp) (map lkey A @ (rec_key (hd rs1), a) # map lkey C) us"
    using up n by (auto intro: uppers_frame)
  then show "split_stored ifp1 A a C us ?ifp rs1 ?rs us"
    using split_mem_store(2) [OF sm d(1-3)] d(4) by (auto simp: split_stored_def mem_change_def)
qed

text \<open>The record stays in the old leaf, of which it may become the first.\<close>

lemma store_in_old:
  assumes sm: "split_mem (if_mem ifp1) A a rs1 new rs2 C" and q: "q \<le> length rs1" "length rs1 < 15" "rs1 \<noteq> []"
    and d: "a \<notin> set (map fst (A @ C))" "new \<notin> set (map fst (A @ C))" "a \<noteq> new" "new = if_brk ifp1 - 1"
    and n: "insert a (insert new (set (map fst (A @ C)))) \<inter> set (uaddrs us) = {}"
    and e: "xfs_iext_set e = Some r" "rec_key r = br_startoff e"
    and up: "uppers (if_mem ifp1) (if_data ifp1) (map lkey A @ (rec_key (hd rs1), a) # map lkey C) us"
      "ents_ok (map lkey A @ (rec_key (hd rs1), a) # map lkey C)"
    and h: "if_height ifp1 = length us + 1" "distinct (uaddrs us)"
  obtains ifp2 ifp3 us3 where
    "(if a \<noteq> new \<and> int q = 0 \<and> length rs1 > 0 then do {
        k \<leftarrow> xfs_iext_leaf_key ifp1 a 0;
        xfs_iext_update_node ifp1 k (br_startoff e) 1 a
      } else Some ifp1) = Some ifp2"
    "leaf_store_rec ifp2 \<lparr>cur_leaf = a, cur_pos = int q\<rparr> (length rs1) e = Some ifp3"
    "split_stored ifp1 A a C us ifp3 (take q rs1 @ r # drop q rs1) rs2 us3"
proof -
  let ?rs = "take q rs1 @ r # drop q rs1"
  have key: "xfs_iext_leaf_key ifp1 a 0 = Some (rec_key (hd rs1))"
    using sm q by (auto simp: split_mem_def xfs_iext_leaf_key_def get_rec_def get_recs_def aget_pad rec_key_def
        xfs_iext_get_def hd_conv_nth)
  obtain ifp2 us2 where u: "(if a \<noteq> new \<and> int q = 0 \<and> length rs1 > 0 then do {
        k \<leftarrow> xfs_iext_leaf_key ifp1 a 0;
        xfs_iext_update_node ifp1 k (br_startoff e) 1 a
      } else Some ifp1) = Some ifp2"
    "mem_change (set (uaddrs us)) ifp1 ifp2" "uaddrs us2 = uaddrs us" "length us2 = length us"
    "uppers (if_mem ifp2) (if_data ifp2) (map lkey A @ (rec_key (hd ?rs), a) # map lkey C) us2"
  proof (cases "q = 0")
    case True
    obtain ifp2 us2 where "xfs_iext_update_node ifp1 (rec_key (hd rs1)) (br_startoff e) 1 a = Some ifp2"
      "mem_change (set (uaddrs us)) ifp1 ifp2"
      "uppers (if_mem ifp2) (if_data ifp2) (map lkey A @ (br_startoff e, a) # map lkey C) us2"
      "uaddrs us2 = uaddrs us" "length us2 = length us"
      by (rule update_first_key [OF up h])
    then show thesis using True q key d(3) e(2) by (intro that) auto
  next
    case False
    then have "hd ?rs = hd rs1" using q by (cases rs1; cases q) auto
    then show thesis using False up by (intro that [of ifp1 us]) (auto simp: mem_change_def)
  qed
  have sm2: "split_mem (if_mem ifp2) A a rs1 new rs2 C"
    by (rule split_mem_frame [OF sm]) (use u(2) n in \<open>auto simp: mem_change_def\<close>)
  let ?ifp = "put_block ifp2 a (Leaf (leaf_of ?rs (laddr 0 A) new))"
  have st: "leaf_store_rec ifp2 \<lparr>cur_leaf = a, cur_pos = int q\<rparr> (length rs1) e = Some ?ifp"
    by (rule leaf_store_rec_eq) (use sm2 q e in \<open>auto simp: split_mem_def\<close>)
  have "uppers (if_mem ?ifp) (if_data ?ifp) (map lkey A @ (rec_key (hd ?rs), a) # map lkey C) us2"
    using u(3,5) n by (auto intro: uppers_frame)
  then have "split_stored ifp1 A a C us ?ifp ?rs rs2 us2"
    using split_mem_store(1) [OF sm2 d(1-3)] d(4) u by (auto simp: split_stored_def mem_change_def)
  then show thesis using that u(1) st by blast
qed

text \<open>The two leaves after the insertion; the cursor is in one of them.\<close>

lemma split_sides:
  assumes "length rs = 15" "p \<le> 15"
  obtains (new) rs1 rs2 q where "split_recs rs p = (rs1, rs2)" "8 \<le> p" "q \<le> length rs2" "length rs2 < 15" "rs1 \<noteq> []"
      "split_cursor a n p = (\<lparr>cur_leaf = n, cur_pos = int q\<rparr>, length rs2)" "hd rs1 = hd rs" "length rs1 \<le> 15"
      "rs1 @ take q rs2 @ r # drop q rs2 = take p rs @ r # drop p rs" "length rs1 + q = p"
    | (old) rs1 rs2 where "split_recs rs p = (rs1, rs2)" "p \<le> length rs1" "length rs1 < 15" "rs1 \<noteq> []" "rs2 \<noteq> []"
      "split_cursor a n p = (\<lparr>cur_leaf = a, cur_pos = int p\<rparr>, length rs1)" "hd rs1 = hd rs" "length rs2 \<le> 15"
      "(take p rs1 @ r # drop p rs1) @ rs2 = take p rs @ r # drop p rs"
proof -
  have hd: "hd (take 8 rs) = hd rs" "take 8 rs \<noteq> []" using assms(1) by (cases rs; auto)+
  consider "p = 15" | "8 \<le> p" "p < 15" | "p < 8" using assms(2) by linarith
  then show thesis
  proof cases
    case 1
    then show thesis using assms hd by (intro new [of rs "[]" 0]) (auto simp: split_recs_def split_cursor_def)
  next
    case 2
    have "take 8 rs @ take (p - 8) (drop 8 rs) = take p rs"
      using 2 by (metis append_take_drop_id le_add_diff_inverse take_add)
    then have "take 8 rs @ take (p - 8) (drop 8 rs) @ r # drop (p - 8) (drop 8 rs) = take p rs @ r # drop p rs"
      using 2 by (metis append.assoc drop_drop le_add_diff_inverse2)
    then show thesis
      using 2 assms hd by (intro new [of "take 8 rs" "drop 8 rs" "p - 8"]) (auto simp: split_recs_def split_cursor_def)
  next
    case 3
    have "drop p rs = drop p (take 8 rs @ drop 8 rs)" by simp
    also have "\<dots> = drop p (take 8 rs) @ drop 8 rs" using 3 assms(1) by (simp only: drop_append) simp
    finally have "take p (take 8 rs) = take p rs" "drop p (take 8 rs) @ drop 8 rs = drop p rs"
      using 3 by (simp_all add: min_def)
    then show thesis
      using 3 assms hd by (intro old [of "take 8 rs" "drop 8 rs"]) (auto simp: split_recs_def split_cursor_def)
  qed
qed

lemma insert_full_prefix:
  assumes rep: "iext_rep ifp L us" and L: "L = A @ (a, rs) # C" and p: "p \<le> length rs" "i = length (lrecs A) + p"
    and full: "length rs = 15"
    and ok: "exts_ok (take i (rec_exts (lrecs L)) @ e # drop i (rec_exts (lrecs L)))"
    and sp: "xfs_iext_split_leaf ifp \<lparr>cur_leaf = a, cur_pos = int p\<rparr> = Some (ifp1, cur1, new, nr1)" "new \<noteq> 0"
    and u: "(if cur_leaf cur1 \<noteq> new \<and> cur_pos cur1 = 0 \<and> nr1 > 0 then do {
        k \<leftarrow> xfs_iext_leaf_key ifp1 (cur_leaf cur1) 0;
        xfs_iext_update_node ifp1 k (br_startoff e) 1 (cur_leaf cur1)
      } else Some ifp1) = Some ifp2" "leaf_store_rec ifp2 cur1 nr1 e = Some ifp3"
      "xfs_iext_leaf_key ifp3 new 0 = Some k"
  shows "insert_at_cursor ifp \<lparr>cur_leaf = a, cur_pos = int p\<rparr> e =
    do { ifp \<leftarrow> xfs_iext_insert_node (ifp3\<lparr>if_bytes := if_bytes ifp3 + 16\<rparr>) k new 2; Some (ifp, cur1) }"
proof -
  have h: "holds ifp a rs" by (rule rep_holds [OF rep L])
  obtain c where c: "(if int p \<ge> int (length rs) then Some 1
     else do { r \<leftarrow> cur_rec ifp \<lparr>cur_leaf = a, cur_pos = int p\<rparr>; Some (xfs_iext_rec_cmp r (br_startoff e)) }) = Some c" "c \<noteq> 0"
    using insert_cmp_ok [OF rep L p ok] by blast
  have "xfs_iext_leaf_key (ifp3\<lparr>if_bytes := if_bytes ifp3 + 16\<rparr>) new 0 = Some k"
    using u(3) by (simp add: xfs_iext_leaf_key_def get_rec_def get_recs_def)
  then show ?thesis
    using leaf_nr_entries_eq [OF h p(1)] full c sp u(1,2)
    by (simp add: insert_at_cursor_def iext_assert_def Let_def split del: if_split)
qed

lemma split_mem_seg:
  assumes "split_mem m A a rs1 new rs2 C" "a \<noteq> 0" "new \<noteq> 0" "rs1 \<noteq> []" "rs2 \<noteq> []" "length rs1 \<le> 15" "length rs2 \<le> 15"
  shows "leaf_seg m 0 (A @ (a, rs1) # (new, rs2) # C) 0"
  using assms by (simp add: split_mem_def leaf_seg_append leaf_ok_def)

lemma split_mem_key:
  assumes "split_mem (if_mem ifp) A a rs1 new rs2 C"
  shows "rs1 \<noteq> [] \<Longrightarrow> length rs1 \<le> 15 \<Longrightarrow> xfs_iext_leaf_key ifp a 0 = Some (rec_key (hd rs1))"
    "rs2 \<noteq> [] \<Longrightarrow> length rs2 \<le> 15 \<Longrightarrow> xfs_iext_leaf_key ifp new 0 = Some (rec_key (hd rs2))"
  using assms by (auto simp: split_mem_def xfs_iext_leaf_key_def get_rec_def get_recs_def aget_pad rec_key_def
      xfs_iext_get_def hd_conv_nth)

lemma iext_repI:
  assumes "0 < if_brk ifp" "if_bytes ifp = 16 * int (length (lrecs L))" "exts_ok (rec_exts (lrecs L))"
    "distinct (map fst L @ uaddrs us)" "\<forall>a \<in> set (map fst L @ uaddrs us). a < if_brk ifp"
    "\<And>a. if_mem ifp a \<noteq> None \<longleftrightarrow> a \<in> set (map fst L @ uaddrs us)"
    "L \<noteq> []" "us \<noteq> []" "if_height ifp = length us + 1" "leaf_seg (if_mem ifp) 0 L 0"
    "uppers (if_mem ifp) (if_data ifp) (map lkey L) us"
  shows "iext_rep ifp L us"
  using assms by (simp add: iext_rep_def leaves_ok_def)

text \<open>Entering the new leaf into the levels restores the tree.\<close>

lemma insert_new_leaf:
  assumes st: "split_stored ifp1 A a C us ifp3 rs1 rs2 us3" and new: "if_brk ifp1 = Suc new" "new \<noteq> 0" "a \<noteq> 0"
    and rs: "rs1 \<noteq> []" "rs2 \<noteq> []" "length rs1 \<le> 15" "length rs2 \<le> 15"
    and L': "L' = A @ (a, rs1) # (new, rs2) # C" "exts_ok (rec_exts (lrecs L'))" "if_bytes ifp1 + 16 = 16 * int (length (lrecs L'))"
    and d: "distinct (map fst L' @ uaddrs us)" "\<forall>x \<in> set (map fst L' @ uaddrs us). x \<le> new"
    and dom: "\<And>x. if_mem ifp1 x \<noteq> None \<longleftrightarrow> x \<in> set (map fst L' @ uaddrs us)"
    and h: "if_height ifp1 = length us + 1" and nodes: "\<forall>x \<in> set (A @ C). fst x \<noteq> 0 \<and> snd x \<noteq> []"
  obtains ifp' us' where
    "xfs_iext_insert_node (ifp3\<lparr>if_bytes := if_bytes ifp3 + 16\<rparr>) (rec_key (hd rs2)) new 2 = Some ifp'"
    "iext_rep ifp' L' us'" "if_seq ifp' = if_seq ifp1"
proof -
  let ?ifp = "ifp3\<lparr>if_bytes := if_bytes ifp3 + 16\<rparr>"
  have sm: "split_mem (if_mem ifp3) A a rs1 new rs2 C"
    and up: "uppers (if_mem ifp3) (if_data ifp3) (map lkey A @ (rec_key (hd rs1), a) # map lkey C) us3"
    and ua: "uaddrs us3 = uaddrs us" "length us3 = length us"
    and ch: "mem_change (set (uaddrs us) \<union> {a, new}) ifp1 ifp3"
    using st new by (auto simp: split_stored_def)
  have ents: "ents_ok (map lkey L')"
    by (rule lkeys_ok) (use L' rs new nodes in auto)
  have "\<exists>ifp' us'. xfs_iext_insert_node ?ifp (rec_key (hd rs2)) new (1 + 1) = Some ifp' \<and>
     insert_node_result ?ifp us3 (map lkey A @ (rec_key (hd rs1), a) # (rec_key (hd rs2), new) # map lkey C) 1 ifp' us'"
  proof (rule insert_node_ok)
    show "uppers (if_mem ?ifp) (if_data ?ifp) (map lkey A @ (rec_key (hd rs1), a) # map lkey C) us3" using up by simp
    show "ents_ok (map lkey A @ (rec_key (hd rs1), a) # (rec_key (hd rs2), new) # map lkey C)"
      using ents L'(1) by (simp add: lkey_def)
    show "root_key ?ifp = Some (rec_key (hd rs1))" if us: "us3 = []"
    proof -
      have "if_data ifp3 = a" using up us by (auto simp: append_eq_Cons_conv)
      moreover have "if_height ifp3 = 1" using h ch us ua by (simp add: mem_change_def)
      ultimately show ?thesis
        using split_mem_key(1) [OF sm rs(1,3)]
        by (simp add: root_key_def xfs_iext_leaf_key_def get_rec_def get_recs_def)
    qed
  qed (use h ch ua d new L' in \<open>auto simp: mem_change_def less_Suc_eq_le\<close>)
  then obtain ifp' us' where r: "xfs_iext_insert_node ?ifp (rec_key (hd rs2)) new 2 = Some ifp'"
    "insert_node_result ?ifp us3 (map lkey L') 1 ifp' us'"
    using L'(1) by (auto simp: numeral_2_eq_2 lkey_def)
  have res: "uppers (if_mem ifp') (if_data ifp') (map lkey L') us'" "if_height ifp' = length us' + 1" "distinct (uaddrs us')"
    "set (uaddrs us') = set (uaddrs us) \<union> {Suc new..<if_brk ifp'}" "if_bytes ifp' = if_bytes ifp3 + 16"
    "if_seq ifp' = if_seq ifp3" "Suc new \<le> if_brk ifp'"
    "\<And>x. x \<notin> set (uaddrs us) \<Longrightarrow> x \<notin> {Suc new..<if_brk ifp'} \<Longrightarrow> if_mem ifp' x = if_mem ifp3 x"
    using r(2) ua ch new by (auto simp: insert_node_result_def alloc_frame_def mem_change_def)
  have fr: "if_mem ifp' x = if_mem ifp3 x" if "x \<in> set (map fst L')" for x
  proof -
    have "x \<notin> set (uaddrs us)" "x \<le> new" using that d by auto
    then show ?thesis using res(8) [of x] by simp
  qed
  have "leaf_seg (if_mem ifp3) 0 L' 0" unfolding L'(1) by (rule split_mem_seg [OF sm]) (use new rs in auto)
  then have seg: "leaf_seg (if_mem ifp') 0 L' 0" by (rule leaf_seg_frame) (rule fr)
  have us': "us' \<noteq> []" using res(1) L'(1) by (auto simp: append_eq_Cons_conv)
  have dom': "if_mem ifp' x \<noteq> None \<longleftrightarrow> x \<in> set (map fst L' @ uaddrs us')" for x
  proof (cases "x \<in> set (uaddrs us')")
    case True
    then show ?thesis using uppers_mem [OF res(1)] by auto
  next
    case False
    then have "if_mem ifp' x = if_mem ifp3 x" "x \<notin> set (uaddrs us)" using res(4,8) by auto
    then show ?thesis
      using False dom [of x] ch sm L'(1) by (cases "x = a \<or> x = new") (auto simp: mem_change_def split_mem_def)
  qed
  have "x \<notin> set (uaddrs us')" if "x \<in> set (map fst L')" for x
  proof -
    have "x \<notin> set (uaddrs us)" "x \<le> new" using that d by auto
    then show ?thesis using res(4) by simp
  qed
  then have "set (map fst L') \<inter> set (uaddrs us') = {}" by blast
  moreover have "distinct (map fst L')" using d(1) by simp
  ultimately have dd: "distinct (map fst L' @ uaddrs us')" using res(3) by (simp only: distinct_append)
  have lt: "\<forall>x \<in> set (map fst L' @ uaddrs us'). x < if_brk ifp'"
  proof
    fix x assume "x \<in> set (map fst L' @ uaddrs us')"
    then consider "x \<in> set (map fst L' @ uaddrs us)" | "x < if_brk ifp'" using res(4) by auto
    then show "x < if_brk ifp'" using d(2) res(7) by cases (auto simp: less_Suc_eq_le dest: bspec)
  qed
  have "iext_rep ifp' L' us'"
  proof (rule iext_repI)
    show "if_bytes ifp' = 16 * int (length (lrecs L'))" using L'(3) res(5) ch by (simp add: mem_change_def)
  qed (use res(1,2,7) dd lt dom' L'(1,2) us' seg in simp_all)
  moreover have "if_seq ifp' = if_seq ifp1" using res(6) ch by (simp add: mem_change_def)
  ultimately show thesis using that r(1) by blast
qed

lemma split_recs_pair: "split_recs rs p = (rs1, rs2) \<Longrightarrow> rs1 @ rs2 = rs"
  by (auto simp: split_recs_def split: if_splits)

lemma leaf_seg_mem: "leaf_seg m pv L nx \<Longrightarrow> x \<in> set (map fst L) \<Longrightarrow> m x \<noteq> None"
  by (induction L arbitrary: pv) (auto simp: leaf_ok_def)

lemma insert_full:
  assumes rep: "iext_rep ifp L us" and L: "L = A @ (a, rs) # C" and p: "p \<le> length rs" "i = length (lrecs A) + p"
    and full: "length rs = 15" and seg: "leaf_seg (if_mem ifp) 0 L 0"
    and ok: "exts_ok (take i (rec_exts (lrecs L)) @ e # drop i (rec_exts (lrecs L)))"
  shows "\<exists>ifp' cur' L' us'. insert_at_cursor ifp \<lparr>cur_leaf = a, cur_pos = int p\<rparr> e = Some (ifp', cur') \<and>
    inserted ifp L i e ifp' cur' L' us'"
proof -
  let ?new = "if_brk ifp" and ?r = "iext_pack e"
  note e = exts_ok_insert [OF ok]
  have key: "rec_key ?r = br_startoff e" using e(3) by (simp add: rec_key_def)
  have d: "distinct (map fst L @ uaddrs us)" and lt: "\<forall>x \<in> set (map fst L @ uaddrs us). x < ?new"
    and dom: "\<And>x. if_mem ifp x \<noteq> None \<longleftrightarrow> x \<in> set (map fst L @ uaddrs us)" and new: "?new \<noteq> 0"
    and h: "if_height ifp = length us + 1" and up: "uppers (if_mem ifp) (if_data ifp) (map lkey L) us"
    and bytes: "if_bytes ifp = 16 * int (length (lrecs L))"
    using rep L by (auto simp: iext_rep_def)
  have nn: "?new \<notin> set (map fst L @ uaddrs us)" using lt by blast
  have nodes: "\<forall>x \<in> set L. fst x \<noteq> 0 \<and> snd x \<noteq> []" using rep_nodes [OF rep] by blast
  obtain ifp1 where s: "xfs_iext_split_leaf ifp \<lparr>cur_leaf = a, cur_pos = int p\<rparr> =
       Some (ifp1, fst (split_cursor a ?new p), ?new, snd (split_cursor a ?new p))"
    "same_fork ifp ifp1" "if_brk ifp1 = Suc ?new"
    "split_mem (if_mem ifp1) A a (fst (split_recs rs p)) ?new (snd (split_recs rs p)) C"
    "\<And>x. x \<notin> set (map fst L) \<Longrightarrow> x \<noteq> ?new \<Longrightarrow> if_mem ifp1 x = if_mem ifp x"
    by (rule split_leaf_ok [of ifp A a rs C p]) (use seg L full p d nn in auto)
  have hd1: "hd (fst (split_recs rs p)) = hd rs" using full by (cases rs) (auto simp: split_recs_def)
  have up1: "uppers (if_mem ifp1) (if_data ifp1) (map lkey A @ (rec_key (hd (fst (split_recs rs p))), a) # map lkey C) us"
  proof -
    have "uppers (if_mem ifp1) (if_data ifp) (map lkey L) us"
      by (rule uppers_frame [OF up]) (use s(5) d nn in auto)
    then show ?thesis using s(2) L hd1 by (simp add: same_fork_def lkey_def)
  qed
  have dom1: "if_mem ifp1 x \<noteq> None \<longleftrightarrow> x \<in> set (map fst (A @ (a, r1) # (?new, r2) # C) @ uaddrs us)" for x r1 r2
  proof (cases "x \<in> set (map fst L) \<or> x = ?new")
    case True
    have "if_mem ifp1 x \<noteq> None" if "x \<in> set (map fst A)"
      by (rule leaf_seg_mem [OF _ that, of _ 0 a]) (use s(4) in \<open>simp add: split_mem_def\<close>)
    moreover have "if_mem ifp1 x \<noteq> None" if "x \<in> set (map fst C)"
      by (rule leaf_seg_mem [OF _ that, of _ ?new 0]) (use s(4) in \<open>simp add: split_mem_def\<close>)
    ultimately show ?thesis using True s(4) L by (auto simp: split_mem_def)
  next
    case False
    then show ?thesis using s(5) dom [of x] L by auto
  qed
  have d2: "distinct (map fst (A @ (a, r1) # (?new, r2) # C) @ uaddrs us)" for r1 r2
    using d nn L by auto
  have le: "\<forall>x \<in> set (map fst (A @ (a, r1) # (?new, r2) # C) @ uaddrs us). x \<le> ?new" for r1 r2
    using lt L by (auto intro: less_imp_le)
  have a0: "a \<noteq> 0" using nodes L by auto
  have AC: "\<forall>x \<in> set (A @ C). fst x \<noteq> 0 \<and> snd x \<noteq> []" using nodes L by auto
  have fin: ?thesis
    if st: "split_stored ifp1 A a C us ifp3 rs1 rs2 us3" "rs1 \<noteq> []" "rs2 \<noteq> []" "length rs1 \<le> 15" "length rs2 \<le> 15"
      and u: "(if cur_leaf cur1 \<noteq> ?new \<and> cur_pos cur1 = 0 \<and> nr1 > 0 then do {
          k \<leftarrow> xfs_iext_leaf_key ifp1 (cur_leaf cur1) 0;
          xfs_iext_update_node ifp1 k (br_startoff e) 1 (cur_leaf cur1)
        } else Some ifp1) = Some ifp2" "leaf_store_rec ifp2 cur1 nr1 e = Some ifp3"
      and c: "split_cursor a ?new p = (cur1, nr1)" "cursor_on (A @ (a, rs1) # (?new, rs2) # C) cur1 i"
      and lr: "rs1 @ rs2 = take p rs @ ?r # drop p rs"
    for ifp2 ifp3 rs1 rs2 us3 cur1 nr1
  proof -
    let ?L = "A @ (a, rs1) # (?new, rs2) # C"
    have sm: "split_mem (if_mem ifp3) A a rs1 ?new rs2 C" using st(1) s(3) by (simp add: split_stored_def)
    have recs: "lrecs ?L = take i (lrecs L) @ ?r # drop i (lrecs L)"
      using lr p L by (simp flip: append_assoc add: append_assoc [symmetric])
    have exts: "exts_ok (rec_exts (lrecs ?L))" unfolding recs using ok e(3) by (simp add: take_map drop_map)
    have bt: "if_bytes ifp1 + 16 = 16 * int (length (lrecs ?L))"
      using recs bytes s(2) by (simp add: same_fork_def)
    obtain ifp' us' where r: "xfs_iext_insert_node (ifp3\<lparr>if_bytes := if_bytes ifp3 + 16\<rparr>) (rec_key (hd rs2)) ?new 2 = Some ifp'"
      "iext_rep ifp' ?L us'" "if_seq ifp' = if_seq ifp1"
      using insert_new_leaf [OF st(1) s(3) new a0 st(2-5) refl exts bt d2 le dom1 _ AC] h s(2)
      by (auto simp: same_fork_def)
    have "insert_at_cursor ifp \<lparr>cur_leaf = a, cur_pos = int p\<rparr> e = Some (ifp', cur1)"
      using insert_full_prefix [OF rep L p full ok _ new u split_mem_key(2) [OF sm st(3,5)]] s(1) c(1) r(1) by simp
    then show ?thesis using r(2,3) recs c(2) s(2) by (auto simp: inserted_def same_fork_def)
  qed
  have an: "a \<notin> set (map fst (A @ C))" "?new \<notin> set (map fst (A @ C))" "a \<noteq> ?new" "?new = if_brk ifp1 - 1"
    using d nn L s(3) by auto
  have p15: "p \<le> 15" using p(1) full by simp
  show ?thesis
  proof (rule split_sides [OF full p15, of a ?new ?r])
    fix rs1 rs2 q
    assume c: "split_recs rs p = (rs1, rs2)" "8 \<le> p" "q \<le> length rs2" "length rs2 < 15" "rs1 \<noteq> []"
      "split_cursor a ?new p = (\<lparr>cur_leaf = ?new, cur_pos = int q\<rparr>, length rs2)" "hd rs1 = hd rs" "length rs1 \<le> 15"
      "rs1 @ take q rs2 @ ?r # drop q rs2 = take p rs @ ?r # drop p rs" "length rs1 + q = p"
    obtain ifp3 where "leaf_store_rec ifp1 \<lparr>cur_leaf = ?new, cur_pos = int q\<rparr> (length rs2) e = Some ifp3"
      "split_stored ifp1 A a C us ifp3 rs1 (take q rs2 @ ?r # drop q rs2) us"
      by (rule store_in_new [OF _ c(3,4) an _ e(4)]) (use s(4) up1 c(1) nn in auto)
    then show ?thesis
      using c by (intro fin [of ifp3 rs1 "take q rs2 @ ?r # drop q rs2" us "\<lparr>cur_leaf = ?new, cur_pos = int q\<rparr>" "length rs2" ifp1])
        (auto intro!: cursor_onI [of _ "A @ [(a, rs1)]" ?new _ C q] simp: p(2))
  next
    fix rs1 rs2
    assume c: "split_recs rs p = (rs1, rs2)" "p \<le> length rs1" "length rs1 < 15" "rs1 \<noteq> []" "rs2 \<noteq> []"
      "split_cursor a ?new p = (\<lparr>cur_leaf = a, cur_pos = int p\<rparr>, length rs1)" "hd rs1 = hd rs" "length rs2 \<le> 15"
      "(take p rs1 @ ?r # drop p rs1) @ rs2 = take p rs @ ?r # drop p rs"
    have keys: "ents_ok (map lkey A @ (rec_key (hd rs1), a) # map lkey C)"
      using rep_lkeys_ok [OF rep] L c(7) by (simp add: lkey_def)
    obtain ifp2 ifp3 us3 where
      "(if a \<noteq> ?new \<and> int p = 0 \<and> length rs1 > 0 then do {
          k \<leftarrow> xfs_iext_leaf_key ifp1 a 0;
          xfs_iext_update_node ifp1 k (br_startoff e) 1 a
        } else Some ifp1) = Some ifp2"
      "leaf_store_rec ifp2 \<lparr>cur_leaf = a, cur_pos = int p\<rparr> (length rs1) e = Some ifp3"
      "split_stored ifp1 A a C us ifp3 (take p rs1 @ ?r # drop p rs1) rs2 us3"
      by (rule store_in_old [OF _ c(2-4) an _ e(4) key _ keys, of rs2 us])
         (use s(2,4) up1 c(1) nn h d L in \<open>auto simp: same_fork_def\<close>)
    then show ?thesis
      using c by (intro fin [of ifp3 "take p rs1 @ ?r # drop p rs1" rs2 us3 "\<lparr>cur_leaf = a, cur_pos = int p\<rparr>" "length rs1" ifp2])
        (auto intro!: cursor_onI [of _ A a _ "(?new, rs2) # C" p] simp: p(2))
  qed
qed

section \<open>The root block\<close>

text \<open>Reallocating the root makes room for a record or, when it is full, a leaf to split.\<close>

lemma realloc_root_ok:
  assumes rep: "iext_rep ifp [(a, rs)] []"
  obtains ifp1 where
    "xfs_iext_realloc_root ifp \<lparr>cur_leaf = a, cur_pos = p\<rparr> = Some (ifp1, \<lparr>cur_leaf = if_brk ifp, cur_pos = p\<rparr>)"
    "iext_rep ifp1 [(if_brk ifp, rs)] []" "if_seq ifp1 = if_seq ifp"
    "length rs < 15 \<longrightarrow> (\<exists>n. get_recs ifp1 (if_brk ifp) = Some (pad n iext_rec_zero rs) \<and> length rs < n)"
    "length rs = 15 \<longrightarrow> leaf_seg (if_mem ifp1) 0 [(if_brk ifp, rs)] 0"
proof -
  let ?b = "if length rs \<ge> 14 then Leaf (leaf_of rs 0 0) else Recs (pad (length rs + 1) iext_rec_zero rs)"
  let ?ifp0 = "ifp\<lparr>if_mem := (if_mem ifp)(a := None)\<rparr>"
  let ?ifp1 = "(snd (kzalloc ?ifp0 ?b))\<lparr>if_data := if_brk ifp\<rparr>"
  have r: "root_ok (if_mem ifp) (a, rs)" and h: "if_height ifp = 1" "if_data ifp = a" "0 < if_brk ifp" "a < if_brk ifp"
    and bytes: "if_bytes ifp = 16 * int (length rs)" and dom: "\<And>x. if_mem ifp x \<noteq> None \<longleftrightarrow> x = a"
    and ok: "exts_ok (rec_exts rs)"
    using rep by (auto simp: iext_rep_def leaves_ok_def lkey_def)
  have rs: "rs \<noteq> []" "length rs \<le> 15" "a \<noteq> 0" using r by (auto simp: root_ok_def)
  obtain n where g: "get_recs ifp a = Some (pad n iext_rec_zero rs)" "length rs \<le> n"
    using r by (auto simp: root_ok_def leaf_ok_def get_recs_def)
  have c: "xfs_iext_count ifp = length rs" using bytes by (simp add: xfs_iext_count_def)
  have k: "kfree ifp a = Some ?ifp0" using dom [of a] rs(3) by (simp add: kfree_def)
  have sz: "(let s = if_bytes ifp + 16 in if s div 16 = 15 then 256 else s) =
      (if length rs \<ge> 14 then 256 else 16 * int (length rs + 1))"
    using bytes rs(2) by (auto simp: Let_def)
  have step: "xfs_iext_realloc_root ifp \<lparr>cur_leaf = a, cur_pos = p\<rparr> = Some (?ifp1, \<lparr>cur_leaf = if_brk ifp, cur_pos = p\<rparr>)"
  proof (cases "length rs \<ge> 14")
    case True
    then have "length rs = 14 \<or> length rs = 15" using rs(2) by auto
    then show ?thesis
      using g c k h(2) bytes
      by (auto simp: xfs_iext_realloc_root_def iext_assert_def Let_def xfs_iext_count_def kzalloc_def leaf_of_def pad_def)
  next
    case False
    then show ?thesis
      using g c k h(2) bytes
      by (auto simp: xfs_iext_realloc_root_def iext_assert_def Let_def xfs_iext_count_def kzalloc_def pad_def nat_add_distrib)
  qed
  have m: "if_mem ?ifp1 = (\<lambda>x. if x = if_brk ifp then Some ?b else None)"
  proof
    fix x
    show "if_mem ?ifp1 x = (if x = if_brk ifp then Some ?b else None)"
      using dom [of x] by (cases "x = a") auto
  qed
  have rep1: "iext_rep ?ifp1 [(if_brk ifp, rs)] []"
    using bytes ok h rs unfolding iext_rep_def m leaves_ok_def root_ok_def leaf_ok_def
    by (auto simp: lkey_def intro: exI [of _ "Suc (length rs)"])
  show thesis
    by (rule that [OF step rep1]) (use rs h m in \<open>auto simp: get_recs_def leaf_ok_def intro: exI [of _ 15]\<close>)
qed

definition cursor_at :: "lnode list \<Rightarrow> xfs_iext_cursor \<Rightarrow> nat \<Rightarrow> bool" where
  "cursor_at L cur i \<longleftrightarrow>
     (if L = [] then i = 0
      else \<exists>A a rs C p. L = A @ (a, rs) # C \<and> p \<le> length rs \<and> cur = \<lparr>cur_leaf = a, cur_pos = int p\<rparr> \<and>
        i = length (lrecs A) + p)"

lemma cursor_atI:
  "L = A @ (a, rs) # C \<Longrightarrow> p \<le> length rs \<Longrightarrow> cur = \<lparr>cur_leaf = a, cur_pos = int p\<rparr> \<Longrightarrow> i = length (lrecs A) + p \<Longrightarrow>
   cursor_at L cur i"
  by (simp add: cursor_at_def) blast

lemma cursor_atE:
  assumes "cursor_at L cur i" "L \<noteq> []"
  obtains A a rs C p where "L = A @ (a, rs) # C" "p \<le> length rs" "cur = \<lparr>cur_leaf = a, cur_pos = int p\<rparr>"
    "i = length (lrecs A) + p"
  using assms by (simp only: cursor_at_def if_False) blast

lemma cursor_on_at: "cursor_on L cur i \<Longrightarrow> cursor_at L cur i"
  unfolding cursor_on_def cursor_at_def using less_imp_le by fastforce

lemma cursor_end_at: "cursor_end L cur \<Longrightarrow> cursor_at L cur (length (lrecs L))"
proof (cases L rule: rev_cases)
  case (snoc A x)
  assume "cursor_end L cur"
  then have "L = A @ (fst x, snd x) # []" "cur = \<lparr>cur_leaf = fst x, cur_pos = int (length (snd x))\<rparr>"
    "length (lrecs L) = length (lrecs A) + length (snd x)"
    using snoc by (auto simp: cursor_end_def)
  then show ?thesis by (intro cursor_atI) auto
qed (simp add: cursor_end_def cursor_at_def)

lemma insert_at_cursor_ok:
  assumes rep: "iext_rep ifp L us" and L: "L = A @ (a, rs) # C" and p: "p \<le> length rs" "i = length (lrecs A) + p"
    and room: "length rs < 15 \<longrightarrow> (\<exists>n. get_recs ifp a = Some (pad n iext_rec_zero rs) \<and> length rs < n)"
      "length rs = 15 \<longrightarrow> leaf_seg (if_mem ifp) 0 L 0"
    and ok: "exts_ok (take i (rec_exts (lrecs L)) @ e # drop i (rec_exts (lrecs L)))"
  shows "\<exists>ifp' cur' L' us'. insert_at_cursor ifp \<lparr>cur_leaf = a, cur_pos = int p\<rparr> e = Some (ifp', cur') \<and>
    inserted ifp L i e ifp' cur' L' us'"
proof (cases "length rs = 15")
  case True
  then show ?thesis using insert_full [OF rep L p True _ ok] room(2) by blast
next
  case False
  then have "length rs < 15" using rep_nodes [OF rep, of "(a, rs)"] L by simp
  then show ?thesis using insert_room [OF rep L p _ _ _ ok] room(1) by blast
qed

text \<open>The first extent of an empty fork.\<close>

lemma insert_first:
  assumes rep: "iext_rep ifp [] us" and ok: "exts_ok [e]"
  shows "\<exists>ifp' cur' L' us'. xfs_iext_insert_raw ifp cur e = Some (ifp', cur') \<and>
    inserted (xfs_iext_inc_seq ifp) [] 0 e ifp' cur' L' us'"
proof -
  let ?a = "if_brk ifp" and ?r = "iext_pack e"
  have i: "if_height ifp = 0" "if_bytes ifp = 0" "0 < ?a" "us = []" and m: "\<And>x. if_mem ifp x = None"
    using rep by (auto simp: iext_rep_def)
  have e: "xfs_iext_set e = Some ?r" "xfs_iext_get ?r = e" using exts_ok_insert(3,4) [of 0 "[]" e] ok by auto
  let ?root = "(snd (kzalloc (xfs_iext_inc_seq ifp) (Recs [iext_rec_zero])))\<lparr>if_data := ?a, if_height := 1\<rparr>"
  let ?ifp = "(put_block ?root ?a (Recs [?r]))\<lparr>if_bytes := 16\<rparr>"
  have root: "xfs_iext_alloc_root (xfs_iext_inc_seq ifp) = Some (?root, \<lparr>cur_leaf = ?a, cur_pos = 0\<rparr>)"
    using i by (simp add: xfs_iext_alloc_root_def xfs_iext_inc_seq_def iext_assert_def kzalloc_def)
  have "leaf_nr_loop ?root ?a 0 = Some 0"
    using i by (subst leaf_nr_loop.simps) (simp add: xfs_iext_max_recs_def xfs_iext_count_def xfs_iext_inc_seq_def)
  moreover have "leaf_store_rec ?root \<lparr>cur_leaf = ?a, cur_pos = 0\<rparr> 0 e = Some (put_block ?root ?a (Recs [?r]))"
    using e(1) by (simp add: leaf_store_rec_def get_recs_def array_shift_up.simps aset_def put_recs_def xfs_iext_inc_seq_def)
  ultimately have "insert_at_cursor ?root \<lparr>cur_leaf = ?a, cur_pos = 0\<rparr> e = Some (?ifp, \<lparr>cur_leaf = ?a, cur_pos = 0\<rparr>)"
    using i by (simp add: insert_at_cursor_def xfs_iext_leaf_nr_entries_def iext_assert_def Let_def xfs_iext_inc_seq_def)
  then have "xfs_iext_insert_raw ifp cur e = Some (?ifp, \<lparr>cur_leaf = ?a, cur_pos = 0\<rparr>)"
    using root i(1) by (simp add: xfs_iext_insert_raw_def xfs_iext_inc_seq_def)
  moreover have "iext_rep ?ifp [(?a, [?r])] []"
    using i m ok e(2) unfolding iext_rep_def leaves_ok_def root_ok_def
    by (auto simp: xfs_iext_inc_seq_def lkey_def pad_def)
  moreover have "cursor_on [(?a, [?r])] \<lparr>cur_leaf = ?a, cur_pos = 0\<rparr> 0" by (rule cursor_onI [of _ "[]"]) auto
  ultimately show ?thesis by (intro exI conjI) (auto simp: inserted_def xfs_iext_inc_seq_def)
qed

lemma rep_inc_seq: "iext_rep ifp L us \<Longrightarrow> iext_rep (xfs_iext_inc_seq ifp) L us"
  by (simp add: iext_rep_def xfs_iext_inc_seq_def)

lemma insert_raw_ok:
  assumes rep: "iext_rep ifp L us" and cur: "cursor_at L cur i"
    and ok: "exts_ok (take i (rec_exts (lrecs L)) @ e # drop i (rec_exts (lrecs L)))"
  shows "\<exists>ifp' cur' L' us'. xfs_iext_insert_raw ifp cur e = Some (ifp', cur') \<and>
    inserted (xfs_iext_inc_seq ifp) L i e ifp' cur' L' us'"
proof (cases "L = []")
  case True
  then show ?thesis using insert_first [of ifp us e cur] rep cur ok by (simp add: cursor_at_def)
next
  case False
  then obtain A a rs C p where L: "L = A @ (a, rs) # C" and c: "p \<le> length rs" "cur = \<lparr>cur_leaf = a, cur_pos = int p\<rparr>"
    "i = length (lrecs A) + p" using cur by (elim cursor_atE)
  let ?ifp = "xfs_iext_inc_seq ifp"
  have rep0: "iext_rep ?ifp L us" by (rule rep_inc_seq [OF rep])
  have h: "if_height ?ifp = length us + 1" using rep0 L by (simp add: iext_rep_def)
  show ?thesis
  proof (cases "us = []")
    case True
    then have AC: "A = []" "C = []" using rep0 L by (auto simp: iext_rep_def leaves_ok_def append_eq_Cons_conv)
    obtain ifp1 where r: "xfs_iext_realloc_root ?ifp cur = Some (ifp1, \<lparr>cur_leaf = if_brk ?ifp, cur_pos = int p\<rparr>)"
      "iext_rep ifp1 [(if_brk ?ifp, rs)] []" "if_seq ifp1 = if_seq ?ifp"
      "length rs < 15 \<longrightarrow> (\<exists>n. get_recs ifp1 (if_brk ?ifp) = Some (pad n iext_rec_zero rs) \<and> length rs < n)"
      "length rs = 15 \<longrightarrow> leaf_seg (if_mem ifp1) 0 [(if_brk ?ifp, rs)] 0"
      using realloc_root_ok [of ?ifp a rs "int p"] rep0 L AC True c(2) by auto
    have "\<exists>ifp' cur' L' us'. insert_at_cursor ifp1 \<lparr>cur_leaf = if_brk ?ifp, cur_pos = int p\<rparr> e = Some (ifp', cur') \<and>
      inserted ifp1 [(if_brk ?ifp, rs)] i e ifp' cur' L' us'"
      by (rule insert_at_cursor_ok [OF r(2), of "[]" _ rs "[]"]) (use r(4,5) c ok L AC in auto)
    then show ?thesis using r(1,3) h True L AC by (auto simp: xfs_iext_insert_raw_def Let_def inserted_def)
  next
    case False
    then have seg: "leaf_seg (if_mem ?ifp) 0 L 0" using rep0 L by (auto simp: iext_rep_def leaves_ok_def)
    have "get_recs ?ifp a = Some (pad 15 iext_rec_zero rs)"
      using leaf_seg_mid [OF seg [unfolded L]] by (simp add: leaf_ok_def get_recs_def)
    then have "\<exists>ifp' cur' L' us'. insert_at_cursor ?ifp cur e = Some (ifp', cur') \<and> inserted ?ifp L i e ifp' cur' L' us'"
      unfolding c(2) by (intro insert_at_cursor_ok [OF rep0 L c(1,3)]) (use seg ok in auto)
    then show ?thesis using h False by (auto simp: xfs_iext_insert_raw_def)
  qed
qed

section \<open>Updating an extent in place\<close>

lemma aset_pad: "p < length rs \<Longrightarrow> length rs \<le> n \<Longrightarrow> aset (pad n d rs) p r = Some (pad n d (rs[p := r]))"
  by (simp add: aset_def pad_def list_update_append)

lemma update_lrecs:
  "p < length rs \<Longrightarrow> i = length (lrecs A) + p \<Longrightarrow>
   lrecs (A @ (a, rs[p := r]) # C) = (lrecs (A @ (a, rs) # C))[i := r]"
  by (simp add: list_update_append)

lemma update_extent_ok:
  assumes rep: "iext_rep ifp L us" and on: "cursor_on L cur i" and ok: "exts_ok ((rec_exts (lrecs L))[i := e])"
  shows "\<exists>ifp' L' us'. xfs_iext_update_extent ifp cur e = Some ifp' \<and> iext_rep ifp' L' us' \<and>
    lrecs L' = (lrecs L)[i := iext_pack e] \<and> cursor_on L' cur i \<and> if_seq ifp' = if_seq ifp + 1"
proof -
  obtain A a rs C p where L: "L = A @ (a, rs) # C" and p: "p < length rs" and c: "cur = \<lparr>cur_leaf = a, cur_pos = int p\<rparr>"
    "i = length (lrecs A) + p" using on by (auto simp: cursor_on_def)
  let ?s = "xfs_iext_inc_seq ifp" and ?r = "iext_pack e"
  let ?rs = "rs[p := iext_pack e]"
  let ?L = "A @ (a, ?rs) # C"
  have rep0: "iext_rep ?s L us" by (rule rep_inc_seq [OF rep])
  have "e \<in> set ((rec_exts (lrecs L))[i := e])" using cursor_on_rec(1) [OF rep on] by (simp add: set_update_memI)
  then have e: "xfs_iext_set e = Some ?r" "xfs_iext_get ?r = e"
    using ok by (auto simp: exts_ok_def xfs_iext_set_def iext_get_pack)
  have lr: "lrecs ?L = (lrecs L)[i := ?r]" unfolding L by (rule update_lrecs [OF p c(2)])
  have exts: "exts_ok (rec_exts (lrecs ?L))" unfolding lr using ok e(2) by (simp add: map_update)
  obtain n where n: "get_recs ?s a = Some (pad n iext_rec_zero rs)" "length rs \<le> n"
    using rep_holds [OF rep0 L] by (auto simp: holds_def)
  then obtain b where b: "if_mem ?s a = Some b" "block_recs b = Some (pad n iext_rec_zero rs)"
    by (auto simp: get_recs_block)
  have up: "uppers (if_mem ?s) (if_data ?s) (map lkey A @ (rec_key (hd rs), a) # map lkey C) us"
    using rep_uppers [OF rep0] L by (simp add: lkey_def)
  have keys: "ents_ok (map lkey A @ (rec_key (hd rs), a) # map lkey C)"
    using rep_lkeys_ok [OF rep0] L by (simp add: lkey_def)
  have h: "if_height ?s = length us + 1" and d: "distinct (uaddrs us)" and au: "a \<notin> set (uaddrs us)"
    and bytes: "if_bytes ?s = 16 * int (length (lrecs L))"
    using rep0 L by (auto simp: iext_rep_def)
  have rd: "cur_rec ?s cur = Some (rs ! p)"
    using cursor_on_rec(2) [OF rep0 on] L c(2) p by (simp add: nth_append)
  have hd0: "rs ! 0 = hd rs" using p by (cases rs) auto
  obtain ifp2 us2 where u: "(if cur_pos cur = 0 then do {
               r \<leftarrow> cur_rec ?s cur;
               let old = xfs_iext_get r;
               if br_startoff e \<noteq> br_startoff old
               then xfs_iext_update_node ?s (br_startoff old) (br_startoff e) 1 (cur_leaf cur)
               else Some ?s
             } else Some ?s) = Some ifp2"
    "mem_change (set (uaddrs us)) ?s ifp2" "uaddrs us2 = uaddrs us" "length us2 = length us"
    "uppers (if_mem ifp2) (if_data ifp2) (map lkey ?L) us2"
  proof (cases "p = 0 \<and> br_startoff e \<noteq> rec_key (hd rs)")
    case True
    obtain ifp2 us2 where "xfs_iext_update_node ?s (rec_key (hd rs)) (br_startoff e) 1 a = Some ifp2"
      "mem_change (set (uaddrs us)) ?s ifp2"
      "uppers (if_mem ifp2) (if_data ifp2) (map lkey A @ (br_startoff e, a) # map lkey C) us2"
      "uaddrs us2 = uaddrs us" "length us2 = length us"
      by (rule update_first_key [OF up keys h d])
    moreover have "hd ?rs = ?r" using True p by (cases rs) auto
    ultimately show thesis using True rd c(1) e(2) hd0 by (intro that) (auto simp: lkey_def rec_key_def)
  next
    case False
    then have "rec_key (hd ?rs) = rec_key (hd rs)" using p e(2) by (cases rs; cases p) (auto simp: rec_key_def)
    then show thesis
      using False rd c(1) up hd0 by (intro that [of ?s us]) (auto simp: mem_change_def lkey_def rec_key_def)
  qed
  have m2: "if_mem ifp2 a = Some b" using u(2) au b(1) by (simp add: mem_change_def)
  let ?f = "put_block ifp2 a (set_block_recs b (pad n iext_rec_zero ?rs))"
  have "get_recs ifp2 a = Some (pad n iext_rec_zero rs)" using m2 b(2) by (auto simp: get_recs_block)
  moreover have "put_recs ifp2 a (pad n iext_rec_zero ?rs) = Some ?f" by (rule put_recs_eq [OF m2 b(2)])
  ultimately have "do {
      iext_assert (cur_pos cur \<ge> 0);
      rs \<leftarrow> get_recs ifp2 (cur_leaf cur);
      r \<leftarrow> xfs_iext_set e;
      rs \<leftarrow> aset rs (nat (cur_pos cur)) r;
      put_recs ifp2 (cur_leaf cur) rs
    } = Some ?f"
    using c(1) e(1) p n(2) by (simp add: aset_pad iext_assert_def)
  then have st: "xfs_iext_update_extent ifp cur e = Some ?f"
    unfolding xfs_iext_update_extent_def Let_def [of ?s] u(1) by simp
  have "?f = ?f\<lparr>if_bytes := 16 * int (length (lrecs ?L))\<rparr>"
    using u(2) bytes lr by (simp add: mem_change_def)
  then have "iext_rep ?f ?L us2"
    using p n(2) rep_nodes [OF rep, of "(a, rs)"] L
    by (intro rep_store [OF rep0 L refl u(2-5) b n(2) _ _ _ exts]) auto
  moreover have "cursor_on ?L cur i" using p c by (intro cursor_onI [of _ A a ?rs C p]) auto
  moreover have "if_seq ?f = if_seq ifp + 1" using u(2) by (simp add: mem_change_def xfs_iext_inc_seq_def)
  ultimately show ?thesis using st lr by blast
qed

end
