(* ===== verification/Iext_Remove.thy ===== *)
theory Iext_Remove
  imports Iext_Insert
begin

text \<open>
  Removing the extent under a cursor: the record is taken out of its leaf, the leaf is merged
  with a neighbour when both fit into one block, and a leaf that is no longer needed is taken
  out of the chain and out of the levels above. The last part shows that destroying the tree
  frees every block of it exactly once.
\<close>

section \<open>Taking a record out of its leaf\<close>

lemma shift_remove_recs:
  assumes "p < length rs" "length rs \<le> n"
  obtains ys where "array_shift_down (pad n iext_rec_zero rs) p (length rs - 1) = Some ys"
    "aset ys (length rs - 1) iext_rec_zero = Some (pad n iext_rec_zero (take p rs @ drop (Suc p) rs))"
proof -
  have len: "length (take p rs) + length (drop (Suc p) rs) < n" using assms by simp
  have rs: "take p rs @ rs ! p # drop (Suc p) rs = rs" using assms(1) by (simp add: id_take_nth_drop [symmetric])
  have eq: "length (take p rs) = p" "length (take p rs) + length (drop (Suc p) rs) = length rs - 1" using assms(1) by auto
  show thesis
    by (rule shift_down_pad [OF len, of iext_rec_zero "rs ! p"]) (use rs eq that in auto)
qed

text \<open>As \<open>rep_store\<close>, with the records replaced before the levels are updated.\<close>

lemma rep_store_after:
  assumes rep: "iext_rep ifp L us" and L: "L = A @ (a, rs) # C" and L': "L' = A @ (a, rs') # C"
    and ch: "mem_change (set (uaddrs us)) ifp1 ifp2" and ua: "uaddrs us2 = uaddrs us" "length us2 = length us"
    and up: "uppers (if_mem ifp2) (if_data ifp2) (map lkey L') us2"
    and b: "if_mem ifp a = Some b" "block_recs b = Some (pad n iext_rec_zero rs)" "length rs \<le> n"
    and rs': "rs' \<noteq> []" "length rs' \<le> n" "length rs' \<le> 15" and ok: "exts_ok (rec_exts (lrecs L'))"
    and ifp1: "ifp1 = (put_block ifp a (set_block_recs b (pad n iext_rec_zero rs')))\<lparr>if_bytes := 16 * int (length (lrecs L'))\<rparr>"
  shows "iext_rep ifp2 L' us2"
proof (rule rep_store [OF rep L L' _ ua _ b rs' ok])
  let ?f = "ifp2\<lparr>if_mem := (if_mem ifp2)(a \<mapsto> b), if_bytes := if_bytes ifp\<rparr>"
  have a: "a \<notin> set (uaddrs us)" using rep L by (auto simp: iext_rep_def)
  show "mem_change (set (uaddrs us)) ifp ?f" using ch b(1) by (auto simp: mem_change_def ifp1)
  show "uppers (if_mem ?f) (if_data ?f) (map lkey L') us2"
    using up a ua by (auto intro: uppers_frame)
  have "if_mem ifp2 a = Some (set_block_recs b (pad n iext_rec_zero rs'))" "if_bytes ifp2 = 16 * int (length (lrecs L'))"
    using ch a by (auto simp: mem_change_def ifp1)
  then show "ifp2 = (put_block ?f a (set_block_recs b (pad n iext_rec_zero rs')))\<lparr>if_bytes := 16 * int (length (lrecs L'))\<rparr>"
    by (simp add: put_block_def fun_upd_idem)
qed

section \<open>Unlinking a leaf\<close>

lemma unlink_prev:
  assumes "leaf_seg (if_mem ifp) 0 A a" "distinct (map fst A)"
  obtains ifp' where
    "(if laddr 0 A \<noteq> 0 then set_leaf_next ifp (laddr 0 A) nx else Some ifp) = Some ifp'"
    "mem_change (set (map fst A)) ifp ifp'" "leaf_seg (if_mem ifp') 0 A nx"
proof (cases A rule: rev_cases)
  case Nil
  then show thesis using that [of ifp] by (simp add: mem_change_def)
next
  case (snoc A' x)
  then have x: "leaf_seg (if_mem ifp) 0 A' (fst x)" "leaf_ok (if_mem ifp) (laddr 0 A') x a"
    using assms(1) by (auto simp: leaf_seg_append)
  let ?ifp = "put_block ifp (fst x) (Leaf (leaf_of (snd x) (laddr 0 A') nx))"
  have "fst x \<notin> fst ` set A'" using assms(2) snoc by simp
  then have "leaf_seg (if_mem ?ifp) 0 A nx"
    using x snoc by (simp add: leaf_seg_append leaf_seg_upd) (simp add: leaf_ok_def)
  moreover have "set_leaf_next ifp (fst x) nx = Some ?ifp" using x(2) by (intro set_leaf_eq) (simp add: leaf_ok_def)
  ultimately show thesis using that [of ?ifp] x(2) snoc by (auto simp: mem_change_def leaf_ok_def)
qed

lemma unlink_next:
  assumes "leaf_seg (if_mem ifp) a C 0" "distinct (map fst C)"
  obtains ifp' where
    "(if faddr 0 C \<noteq> 0 then set_leaf_prev ifp (faddr 0 C) pv else Some ifp) = Some ifp'"
    "mem_change (set (map fst C)) ifp ifp'" "leaf_seg (if_mem ifp') pv C 0"
proof (cases C)
  case Nil
  then show thesis using that [of ifp] by (simp add: mem_change_def)
next
  case (Cons x C')
  then have x: "leaf_ok (if_mem ifp) a x (faddr 0 C')" "leaf_seg (if_mem ifp) (fst x) C' 0"
    using assms(1) by auto
  let ?ifp = "put_block ifp (fst x) (Leaf (leaf_of (snd x) pv (faddr 0 C')))"
  have "fst x \<notin> fst ` set C'" using assms(2) Cons by simp
  then have "leaf_seg (if_mem ?ifp) pv C 0"
    using x Cons by (simp add: leaf_seg_upd) (simp add: leaf_ok_def)
  moreover have "set_leaf_prev ifp (fst x) pv = Some ?ifp" using x(1) by (intro set_leaf_eq) (simp add: leaf_ok_def)
  ultimately show thesis using that [of ?ifp] x(1) Cons by (auto simp: mem_change_def leaf_ok_def)
qed

lemma mem_change_trans: "mem_change S f g \<Longrightarrow> mem_change T g h \<Longrightarrow> mem_change (S \<union> T) f h"
  by (auto simp: mem_change_def)

lemma leaf_seg_change:
  assumes "leaf_seg (if_mem f) pv L nx" "mem_change S f g" "S \<inter> set (map fst L) = {}"
  shows "leaf_seg (if_mem g) pv L nx"
proof (rule leaf_seg_frame [OF assms(1)])
  fix x assume "x \<in> set (map fst L)"
  then have "x \<notin> S" using assms(3) by blast
  then show "if_mem g x = if_mem f x" using assms(2) by (simp add: mem_change_def)
qed

text \<open>
  The leaves \<open>A\<close> and \<open>C\<close> around a leaf \<open>a\<close> whose records are no longer wanted; its key is still in
  the levels above.
\<close>

definition leaf_gap :: "xfs_ifork \<Rightarrow> lnode list \<Rightarrow> u64 \<Rightarrow> addr \<Rightarrow> lnode list \<Rightarrow> unode list list \<Rightarrow> bool" where
  "leaf_gap ifp A k a C us \<longleftrightarrow>
     0 < if_brk ifp \<and> a \<noteq> 0 \<and> A @ C \<noteq> [] \<and>
     if_bytes ifp = 16 * int (length (lrecs (A @ C))) \<and> exts_ok (rec_exts (lrecs (A @ C))) \<and>
     distinct (map fst A @ a # map fst C @ uaddrs us) \<and>
     (\<forall>x \<in> set (map fst A @ a # map fst C @ uaddrs us). x < if_brk ifp) \<and>
     (\<forall>x. if_mem ifp x \<noteq> None \<longleftrightarrow> x \<in> set (map fst A @ a # map fst C @ uaddrs us)) \<and>
     if_height ifp = length us + 1 \<and>
     leaf_seg (if_mem ifp) 0 A a \<and> leaf_seg (if_mem ifp) a C 0 \<and>
     (\<exists>rs. if_mem ifp a = Some (Leaf (leaf_of rs (laddr 0 A) (faddr 0 C)))) \<and>
     ents_ok (map lkey A @ (k, a) # map lkey C) \<and>
     uppers (if_mem ifp) (if_data ifp) (map lkey A @ (k, a) # map lkey C) us"

lemma unlink_leaf:
  assumes gap: "leaf_gap ifp A k a C us"
  obtains ifp2 where
    "rebalance_remove_node ifp k a = xfs_iext_remove_node ifp2 k a"
    "mem_change (set (map fst (A @ C))) ifp ifp2"
    "leaf_seg (if_mem ifp2) 0 (A @ C) 0"
proof -
  obtain rs where a: "if_mem ifp a = Some (Leaf (leaf_of rs (laddr 0 A) (faddr 0 C)))"
    and d: "distinct (map fst A @ a # map fst C @ uaddrs us)"
    and seg: "leaf_seg (if_mem ifp) 0 A a" "leaf_seg (if_mem ifp) a C 0"
    using gap by (auto simp: leaf_gap_def)
  have dd: "distinct (map fst A)" "distinct (map fst C)" "set (map fst A) \<inter> set (map fst C) = {}" using d by auto
  obtain ifp1 where u: "(if laddr 0 A \<noteq> 0 then set_leaf_next ifp (laddr 0 A) (faddr 0 C) else Some ifp) = Some ifp1"
    "mem_change (set (map fst A)) ifp ifp1" "leaf_seg (if_mem ifp1) 0 A (faddr 0 C)"
    by (rule unlink_prev [OF seg(1) dd(1)])
  have C1: "leaf_seg (if_mem ifp1) a C 0"
    by (rule leaf_seg_change [OF seg(2) u(2) dd(3)])
  obtain ifp2 where v: "(if faddr 0 C \<noteq> 0 then set_leaf_prev ifp1 (faddr 0 C) (laddr 0 A) else Some ifp1) = Some ifp2"
    "mem_change (set (map fst C)) ifp1 ifp2" "leaf_seg (if_mem ifp2) (laddr 0 A) C 0"
    by (rule unlink_next [OF C1 dd(2)])
  have A2: "leaf_seg (if_mem ifp2) 0 A (faddr 0 C)"
    by (rule leaf_seg_change [OF u(3) v(2)]) (use dd(3) in blast)
  show thesis
  proof (rule that)
    show "rebalance_remove_node ifp k a = xfs_iext_remove_node ifp2 k a"
      unfolding rebalance_remove_node_def get_leaf_eq [OF a] leaf_of_simps option.sel bind.bind_lunit u(1) v(1) ..
    show "mem_change (set (map fst (A @ C))) ifp ifp2" using mem_change_trans [OF u(2) v(2)] by simp
    show "leaf_seg (if_mem ifp2) 0 (A @ C) 0" using A2 v(3) by (simp add: leaf_seg_append)
  qed
qed

text \<open>Dropping the leaf leaves the tree of the others.\<close>

lemma drop_leaf:
  assumes gap: "leaf_gap ifp A k a C us"
  obtains ifp' us' where "rebalance_remove_node ifp k a = Some ifp'" "iext_rep ifp' (A @ C) us'" "if_seq ifp' = if_seq ifp"
proof -
  let ?L = "A @ C"
  have d: "distinct (map fst A @ a # map fst C @ uaddrs us)"
    and lt: "\<forall>x \<in> set (map fst A @ a # map fst C @ uaddrs us). x < if_brk ifp"
    and dom: "\<And>x. if_mem ifp x \<noteq> None \<longleftrightarrow> x \<in> set (map fst A @ a # map fst C @ uaddrs us)"
    and h: "if_height ifp = length us + 1" and ents: "ents_ok (map lkey A @ (k, a) # map lkey C)"
    and up: "uppers (if_mem ifp) (if_data ifp) (map lkey A @ (k, a) # map lkey C) us" and ne: "?L \<noteq> []"
    and rest: "0 < if_brk ifp" "if_bytes ifp = 16 * int (length (lrecs ?L))" "exts_ok (rec_exts (lrecs ?L))"
    using gap unfolding leaf_gap_def by blast+
  have sep: "set (map fst ?L) \<inter> set (uaddrs us) = {}" "a \<notin> set (map fst ?L)" "a \<notin> set (uaddrs us)"
    "distinct (map fst ?L)" "distinct (uaddrs us)" using d by auto
  obtain ifp2 where s: "rebalance_remove_node ifp k a = xfs_iext_remove_node ifp2 k a"
    "mem_change (set (map fst ?L)) ifp ifp2" "leaf_seg (if_mem ifp2) 0 ?L 0"
    by (rule unlink_leaf [OF gap])
  have same: "if_mem ifp2 x = if_mem ifp x" if "x \<notin> set (map fst ?L)" for x
    using s(2) that by (simp add: mem_change_def)
  have f2: "if_data ifp2 = if_data ifp" "if_height ifp2 = if_height ifp" "if_bytes ifp2 = if_bytes ifp"
    "if_seq ifp2 = if_seq ifp" "if_brk ifp2 = if_brk ifp" using s(2) by (auto simp: mem_change_def)
  have up2: "uppers (if_mem ifp2) (if_data ifp2) (map lkey A @ (k, a) # map lkey C) us"
    unfolding f2 by (rule uppers_frame [OF up same]) (use sep(1) in blast)
  have "if_mem ifp2 a \<noteq> None" using same [OF sep(2)] dom [of a] by simp
  then obtain ifp' us' where r: "xfs_iext_remove_node ifp2 k a = Some ifp'"
    "remove_node_result ifp2 us a (map lkey ?L) 1 ifp' us'"
    using remove_node_ok [OF up2 ents _ _ sep(5,3)] ne h f2 by auto
  have q: "uppers (if_mem ifp') (if_data ifp') (map lkey ?L) us'" "if_height ifp' = length us' + 1" "distinct (uaddrs us')"
    "set (uaddrs us') \<subseteq> set (uaddrs us)" "if_bytes ifp' = if_bytes ifp" "if_seq ifp' = if_seq ifp" "if_brk ifp' = if_brk ifp"
    "\<And>x. x \<notin> set (uaddrs us) \<Longrightarrow> x \<noteq> a \<Longrightarrow> if_mem ifp' x = if_mem ifp2 x" "if_mem ifp' a = None"
    "\<And>x. x \<in> set (uaddrs us) \<Longrightarrow> x \<notin> set (uaddrs us') \<Longrightarrow> if_mem ifp' x = None"
    using r(2) f2 by (auto simp: remove_node_result_def)
  have seg: "leaf_seg (if_mem ifp') 0 ?L 0"
    by (rule leaf_seg_frame [OF s(3) q(8)]) (use sep(1,2) in blast)+
  have lv: "leaves_ok (if_mem ifp') ?L us'"
  proof (cases "us' = []")
    case True
    then obtain x where "?L = [x]" using q(1) by (auto simp del: map_append)
    then show ?thesis using True seg by (auto simp: leaves_ok_def root_ok_def) (auto simp: leaf_ok_def)
  qed (use seg in \<open>simp add: leaves_ok_def\<close>)
  have dom': "if_mem ifp' x \<noteq> None \<longleftrightarrow> x \<in> set (map fst ?L @ uaddrs us')" for x
  proof -
    consider "x \<in> set (uaddrs us')" | "x \<in> set (uaddrs us)" "x \<notin> set (uaddrs us')" | "x = a" | "x \<notin> set (uaddrs us)" "x \<noteq> a" by blast
    then show ?thesis
    proof cases
      case 1 then show ?thesis using uppers_mem [OF q(1)] by simp
    next
      case 2 then show ?thesis using q(10) sep(1) by auto
    next
      case 3 then show ?thesis using q(4,9) sep(2,3) by auto
    next
      case 4
      then have "if_mem ifp' x \<noteq> None \<longleftrightarrow> if_mem ifp2 x \<noteq> None" using q(8) by simp
      also have "\<dots> \<longleftrightarrow> x \<in> set (map fst ?L)"
      proof (cases "x \<in> set (map fst ?L)")
        case True then show ?thesis using leaf_seg_mem [OF s(3)] by simp
      next
        case False then show ?thesis using same dom [of x] 4 by simp
      qed
      finally show ?thesis using 4 q(4) by auto
    qed
  qed
  have "distinct (map fst ?L @ uaddrs us')" using sep(1,4) q(3,4) by (simp only: distinct_append) blast
  moreover have "\<forall>x \<in> set (map fst ?L @ uaddrs us'). x < if_brk ifp'" using lt q(4,7) by auto
  ultimately have "iext_rep ifp' ?L us'"
    unfolding iext_rep_def using rest ne q(1,2,5,7) lv dom' by simp
  then show thesis using that s(1) r(1) q(6) by simp
qed

section \<open>Cursors and runs of leaves\<close>

lemma cursor_on_Nil [simp]: "\<not> cursor_on [] cur i"
  by (simp add: cursor_on_def)

lemma cursor_on_Cons:
  "cursor_on ((a, rs) # C) cur i \<longleftrightarrow>
     (\<exists>p < length rs. cur = \<lparr>cur_leaf = a, cur_pos = int p\<rparr> \<and> i = p) \<or>
     (length rs \<le> i \<and> cursor_on C cur (i - length rs))"
proof
  assume "cursor_on ((a, rs) # C) cur i"
  then obtain A a' rs' C' p where c: "(a, rs) # C = A @ (a', rs') # C'" "p < length rs'"
    "cur = \<lparr>cur_leaf = a', cur_pos = int p\<rparr>" "i = length (lrecs A) + p" by (auto simp: cursor_on_def)
  show "(\<exists>p < length rs. cur = \<lparr>cur_leaf = a, cur_pos = int p\<rparr> \<and> i = p) \<or>
     (length rs \<le> i \<and> cursor_on C cur (i - length rs))"
  proof (cases A)
    case (Cons x A')
    then show ?thesis using c by (auto intro: cursor_onI)
  qed (use c in auto)
next
  assume "(\<exists>p < length rs. cur = \<lparr>cur_leaf = a, cur_pos = int p\<rparr> \<and> i = p) \<or>
     (length rs \<le> i \<and> cursor_on C cur (i - length rs))"
  then show "cursor_on ((a, rs) # C) cur i"
  proof
    assume "\<exists>p < length rs. cur = \<lparr>cur_leaf = a, cur_pos = int p\<rparr> \<and> i = p"
    then show ?thesis by (auto intro: cursor_onI [of _ "[]"])
  next
    assume r: "length rs \<le> i \<and> cursor_on C cur (i - length rs)"
    then obtain A a' rs' C' p where "C = A @ (a', rs') # C'" "p < length rs'"
      "cur = \<lparr>cur_leaf = a', cur_pos = int p\<rparr>" "i - length rs = length (lrecs A) + p" by (auto simp: cursor_on_def)
    then show ?thesis using r by (intro cursor_onI [of _ "(a, rs) # A" a' rs' C' p]) auto
  qed
qed

lemma cursor_on_append:
  "cursor_on (A @ C) cur i \<longleftrightarrow>
     cursor_on A cur i \<or> (length (lrecs A) \<le> i \<and> cursor_on C cur (i - length (lrecs A)))"
proof (induction A arbitrary: i)
  case (Cons x A)
  obtain a rs where x: "x = (a, rs)" by (cases x)
  have "length rs \<le> i \<and> length (lrecs A) \<le> i - length rs \<longleftrightarrow> length rs + length (lrecs A) \<le> i" by arith
  moreover have "i - length rs - length (lrecs A) = i - (length rs + length (lrecs A))" by simp
  ultimately show ?case
    unfolding append_Cons x cursor_on_Cons Cons.IH [of "i - length rs"] lrecs_simps length_append snd_conv by metis
qed simp

lemma cursor_on_leaf: "cursor_on L cur i \<Longrightarrow> cur_leaf cur \<in> set (map fst L)"
  by (auto simp: cursor_on_def)

text \<open>Where the cursor stands after a removal: at the next record, or nowhere.\<close>

definition cursor_next :: "lnode list \<Rightarrow> xfs_iext_cursor \<Rightarrow> nat \<Rightarrow> bool" where
  "cursor_next L cur i \<longleftrightarrow>
     (if i < length (lrecs L) then cursor_on L cur i else i = length (lrecs L) \<and> cur = \<lparr>cur_leaf = 0, cur_pos = 0\<rparr>)"

section \<open>Rebalancing a leaf\<close>

definition merge_cursor :: "addr \<Rightarrow> addr \<Rightarrow> nat \<Rightarrow> xfs_iext_cursor \<Rightarrow> xfs_iext_cursor" where
  "merge_cursor a b n cur =
     (if cur_leaf cur = b then \<lparr>cur_leaf = a, cur_pos = cur_pos cur + int n\<rparr> else cur)"

text \<open>Moving the records of a leaf \<open>b\<close> to the end of the leaf \<open>a\<close> before it.\<close>

lemma merge_cursor_ok:
  assumes d: "distinct (map fst (A @ (a, rs) # (b, qs) # C))" and nz: "b \<noteq> 0"
    and c: "cursor_next (A @ (a, rs) # (b, qs) # C) cur i"
  shows "cursor_next (A @ (a, rs @ qs) # C) (merge_cursor a b (length rs) cur) i"
proof (cases "i < length (lrecs (A @ (a, rs @ qs) # C))")
  case True
  then have on: "cursor_on (A @ (a, rs) # (b, qs) # C) cur i" using c by (simp add: cursor_next_def)
  let ?j = "i - length (lrecs A)"
  have nb: "b \<notin> set (map fst A)" "b \<notin> set (map fst C)" "a \<noteq> b" using d by auto
  consider "cursor_on A cur i"
    | p where "length (lrecs A) \<le> i" "p < length rs" "cur = \<lparr>cur_leaf = a, cur_pos = int p\<rparr>" "?j = p"
    | p where "length (lrecs A) \<le> i" "length rs \<le> ?j" "p < length qs" "cur = \<lparr>cur_leaf = b, cur_pos = int p\<rparr>" "?j - length rs = p"
    | "length (lrecs A) \<le> i" "length rs + length qs \<le> ?j" "cursor_on C cur (?j - length rs - length qs)"
    using on by (auto simp: cursor_on_append cursor_on_Cons)
  then have "cursor_on (A @ (a, rs @ qs) # C) (merge_cursor a b (length rs) cur) i"
  proof cases
    case 1
    then have "cur_leaf cur \<noteq> b" using cursor_on_leaf nb(1) by metis
    then show ?thesis using 1 by (simp add: cursor_on_append merge_cursor_def)
  next
    case (2 p)
    then show ?thesis using nb(3) by (simp add: cursor_on_append cursor_on_Cons merge_cursor_def)
  next
    case (3 p)
    then show ?thesis by (auto simp: cursor_on_append cursor_on_Cons merge_cursor_def intro!: exI [of _ "length rs + p"])
  next
    case 4
    then have "cur_leaf cur \<noteq> b" using cursor_on_leaf nb(2) by metis
    then show ?thesis using 4 by (simp add: cursor_on_append cursor_on_Cons merge_cursor_def add.assoc)
  qed
  then show ?thesis using True by (simp add: cursor_next_def)
next
  case False
  then show ?thesis using c nz by (simp add: cursor_next_def merge_cursor_def)
qed

text \<open>Two neighbouring leaves, the first one with room for the records of the second.\<close>

lemma merge_leaves:
  assumes rep: "iext_rep ifp L us" and L: "L = A @ (a, rs) # (b, qs) # C" and len: "length rs + length qs \<le> 15"
  shows "put_recs ifp a (pad 15 iext_rec_zero (rs @ qs)) =
      Some (put_block ifp a (Leaf (leaf_of (rs @ qs) (laddr 0 A) b)))"
    "array_copy (pad 15 iext_rec_zero rs) (length rs) (pad 15 iext_rec_zero qs) 0 (length qs) 0 =
      Some (pad 15 iext_rec_zero (rs @ qs))"
    "leaf_gap (put_block ifp a (Leaf (leaf_of (rs @ qs) (laddr 0 A) b))) (A @ [(a, rs @ qs)]) (rec_key (hd qs)) b C us"
    "xfs_iext_leaf_key (put_block ifp a (Leaf (leaf_of (rs @ qs) (laddr 0 A) b))) b 0 = Some (rec_key (hd qs))"
proof -
  let ?ifp = "put_block ifp a (Leaf (leaf_of (rs @ qs) (laddr 0 A) b))"
  have us: "us \<noteq> []" using rep L by (auto simp: iext_rep_def leaves_ok_def)
  have seg: "leaf_seg (if_mem ifp) 0 L 0" and up: "uppers (if_mem ifp) (if_data ifp) (map lkey L) us"
    and d: "distinct (map fst L @ uaddrs us)"
    using rep L us by (auto simp: iext_rep_def leaves_ok_def)
  have s: "leaf_seg (if_mem ifp) 0 A a" "leaf_ok (if_mem ifp) (laddr 0 A) (a, rs) b" "leaf_ok (if_mem ifp) a (b, qs) (faddr 0 C)"
    "leaf_seg (if_mem ifp) b C 0" using seg L by (auto simp: leaf_seg_append)
  have n: "rs \<noteq> []" "qs \<noteq> []" "a \<noteq> 0" "b \<noteq> 0" using s by (auto simp: leaf_ok_def)
  have na: "a \<notin> set (map fst A)" "a \<notin> set (map fst C)" "a \<noteq> b" "a \<notin> set (uaddrs us)" using d L by auto
  show "put_recs ifp a (pad 15 iext_rec_zero (rs @ qs)) = Some ?ifp"
    using s(2) by (simp add: leaf_ok_def put_recs_def leaf_of_def)
  show "array_copy (pad 15 iext_rec_zero rs) (length rs) (pad 15 iext_rec_zero qs) 0 (length qs) 0 =
      Some (pad 15 iext_rec_zero (rs @ qs))" by (rule copy_pad) (use len in auto)
  show "xfs_iext_leaf_key ?ifp b 0 = Some (rec_key (hd qs))"
    using s(3) na(3) n(2)
    by (auto simp: xfs_iext_leaf_key_def get_rec_def get_recs_def leaf_ok_def aget_pad rec_key_def xfs_iext_get_def hd_conv_nth)
  have keys: "map lkey (A @ [(a, rs @ qs)]) @ (rec_key (hd qs), b) # map lkey C = map lkey L"
    using L n(1) by (simp add: lkey_def)
  have mem: "if_mem ?ifp x \<noteq> None \<longleftrightarrow> x \<in> set (map fst L @ uaddrs us)" for x
    using rep L by (auto simp: iext_rep_def)
  have "uppers (if_mem ?ifp) (if_data ?ifp) (map lkey L) us" using up na(4) by (auto intro: uppers_frame)
  moreover have "leaf_seg (if_mem ?ifp) 0 (A @ [(a, rs @ qs)]) b"
    using s(1,2) na(1) len by (simp add: leaf_seg_append leaf_seg_upd) (simp add: leaf_ok_def)
  moreover have "leaf_seg (if_mem ?ifp) b C 0" using s(4) na(2) by (simp add: leaf_seg_upd)
  moreover have "if_mem ?ifp b = Some (Leaf (leaf_of qs (laddr 0 (A @ [(a, rs @ qs)])) (faddr 0 C)))"
    using s(3) na(3) by (simp add: leaf_ok_def)
  ultimately show "leaf_gap ?ifp (A @ [(a, rs @ qs)]) (rec_key (hd qs)) b C us"
    unfolding leaf_gap_def keys using rep L rep_lkeys_ok [OF rep] n(4) d mem by (auto simp: iext_rep_def)
qed

lemma rebalance_leaf_ok:
  assumes rep: "iext_rep ifp L us" and L: "L = A @ (a, rs) # C" and h: "if_height ifp > 1" and c: "cursor_next L cur i"
  shows "\<exists>ifp' cur' L' us'. xfs_iext_rebalance_leaf ifp cur a (rec_key (hd rs)) (length rs) = Some (ifp', cur') \<and>
    iext_rep ifp' L' us' \<and> lrecs L' = lrecs L \<and> cursor_next L' cur' i \<and> if_seq ifp' = if_seq ifp"
proof -
  have l: "get_leaf ifp a = Some (leaf_of rs (laddr 0 A) (faddr 0 C))" by (rule rep_leaf [OF rep L h])
  have us: "us \<noteq> []" using rep L h by (auto simp: iext_rep_def)
  have seg: "leaf_seg (if_mem ifp) 0 L 0" and d: "distinct (map fst L)" using rep L us by (auto simp: iext_rep_def leaves_ok_def)
  have rs: "rs \<noteq> []" "a \<noteq> 0" using rep_nodes [OF rep, of "(a, rs)"] L by auto
  have nr0: "xfs_iext_leaf_nr_entries ifp b 0 = Some (length qs)" if "L = B @ (b, qs) # D" for B b qs D
    using leaf_nr_entries_eq [OF rep_holds [OF rep that], of 0] by simp
  have recs: "get_recs ifp b = Some (pad 15 iext_rec_zero qs)" "b \<noteq> 0" if "L = B @ (b, qs) # D" for B b qs D
    using leaf_seg_mid [OF seg [unfolded that]] by (auto simp: leaf_ok_def get_recs_def)
  show ?thesis
  proof (cases "\<exists>A' b qs. A = A' @ [(b, qs)] \<and> length qs + length rs \<le> 15")
    case True
    then obtain A' b qs where A: "A = A' @ [(b, qs)]" and len: "length qs + length rs \<le> 15" by blast
    then have L2: "L = A' @ (b, qs) # (a, rs) # C" using L by simp
    note m = merge_leaves [OF rep L2 len]
    obtain ifp' us' where g: "rebalance_remove_node (put_block ifp b (Leaf (leaf_of (qs @ rs) (laddr 0 A') a))) (rec_key (hd rs)) a = Some ifp'"
      "iext_rep ifp' ((A' @ [(b, qs @ rs)]) @ C) us'" "if_seq ifp' = if_seq ifp"
      using drop_leaf [OF m(3)] by auto
    have "xfs_iext_rebalance_leaf ifp cur a (rec_key (hd rs)) (length rs) = Some (ifp', merge_cursor b a (length qs) cur)"
      using l rs recs [OF L2] nr0 [OF L2] len A m(1,2) g(1)
      by (simp add: xfs_iext_rebalance_leaf_def merge_cursor_def Let_def)
    moreover have "cursor_next (A' @ (b, qs @ rs) # C) (merge_cursor b a (length qs) cur) i"
      by (rule merge_cursor_ok [OF _ rs(2)]) (use d c L2 in auto)
    ultimately show ?thesis using g(2,3) L2 by (intro exI [of _ ifp'] exI [of _ "merge_cursor b a (length qs) cur"] exI conjI) auto
  next
    case noprev: False
    obtain np where np: "(if laddr 0 A \<noteq> 0 then xfs_iext_leaf_nr_entries ifp (laddr 0 A) 0 else Some 0) = Some np"
      "\<not> (laddr 0 A \<noteq> 0 \<and> np + length rs \<le> 15)"
    proof (cases A rule: rev_cases)
      case Nil
      then show thesis using that [of 0] by simp
    next
      case (snoc A' x)
      then have Lx: "L = A' @ (fst x, snd x) # (a, rs) # C" using L by simp
      have "\<not> length (snd x) + length rs \<le> 15" using noprev snoc by (metis prod.collapse)
      then show thesis using nr0 [OF Lx] recs(2) [OF Lx] snoc by (intro that [of "length (snd x)"]) auto
    qed
    show ?thesis
    proof (cases "\<exists>b qs C'. C = (b, qs) # C' \<and> length rs + length qs \<le> 15")
      case True
      then obtain b qs C' where C: "C = (b, qs) # C'" and len: "length rs + length qs \<le> 15" by blast
      then have L2: "L = A @ (a, rs) # (b, qs) # C'" "L = (A @ [(a, rs)]) @ (b, qs) # C'" using L by simp_all
      note m = merge_leaves [OF rep L2(1) len]
      obtain ifp' us' where g: "rebalance_remove_node (put_block ifp a (Leaf (leaf_of (rs @ qs) (laddr 0 A) b))) (rec_key (hd qs)) b = Some ifp'"
        "iext_rep ifp' ((A @ [(a, rs @ qs)]) @ C') us'" "if_seq ifp' = if_seq ifp"
        using drop_leaf [OF m(3)] by auto
      have "xfs_iext_rebalance_leaf ifp cur a (rec_key (hd rs)) (length rs) = Some (ifp', merge_cursor a b (length rs) cur)"
        using l rs recs [OF L2(2)] nr0 [OF L2(2)] len C m(1,2,4) g(1) np
        by (cases "laddr 0 A = 0") (simp_all add: xfs_iext_rebalance_leaf_def merge_cursor_def Let_def)
      moreover have "cursor_next (A @ (a, rs @ qs) # C') (merge_cursor a b (length rs) cur) i"
        by (rule merge_cursor_ok [OF _ recs(2) [OF L2(2)]]) (use d c L2 in auto)
      ultimately show ?thesis using g(2,3) L2 by (intro exI [of _ ifp'] exI [of _ "merge_cursor a b (length rs) cur"] exI conjI) auto
    next
      case nonext: False
      obtain nn where nn: "(if faddr 0 C \<noteq> 0 then xfs_iext_leaf_nr_entries ifp (faddr 0 C) 0 else Some 0) = Some nn"
        "\<not> (faddr 0 C \<noteq> 0 \<and> length rs + nn \<le> 15)"
      proof (cases C)
        case Nil
        then show thesis using that [of 0] by simp
      next
        case (Cons x C')
        then have Lx: "L = (A @ [(a, rs)]) @ (fst x, snd x) # C'" using L by simp
        have "\<not> length rs + length (snd x) \<le> 15" using nonext Cons by (metis prod.collapse)
        then show thesis using nr0 [OF Lx] recs(2) [OF Lx] Cons by (intro that [of "length (snd x)"]) auto
      qed
      have "xfs_iext_rebalance_leaf ifp cur a (rec_key (hd rs)) (length rs) = Some (ifp, cur)"
        using l rs np nn
        by (cases "laddr 0 A = 0"; cases "faddr 0 C = 0") (simp_all add: xfs_iext_rebalance_leaf_def)
      then show ?thesis using rep c by blast
    qed
  qed
qed

section \<open>Removing an extent\<close>

lemma remove_lrecs:
  "p < length rs \<Longrightarrow> i = length (lrecs A) + p \<Longrightarrow>
   lrecs (A @ (a, take p rs @ drop (Suc p) rs) # C) = take i (lrecs (A @ (a, rs) # C)) @ drop (Suc i) (lrecs (A @ (a, rs) # C))"
  by simp

lemma exts_ok_remove: "exts_ok xs \<Longrightarrow> exts_ok (take i xs @ drop (Suc i) xs)"
proof -
  assume ok: "exts_ok xs"
  have "exts_ok (take i xs @ drop i xs)" using ok by simp
  then show ?thesis
  proof (cases "i < length xs")
    case True
    then have "drop i xs = xs ! i # drop (Suc i) xs" by (simp add: Cons_nth_drop_Suc)
    then have "exts_ok (take i xs @ xs ! i # drop (Suc i) xs)" using ok by (metis append_take_drop_id)
    then show ?thesis by (simp add: exts_ok_append exts_ok_Cons)
  qed (use ok in simp)
qed

text \<open>The state once the record is taken out of the array.\<close>

definition rec_removed :: "xfs_ifork \<Rightarrow> addr \<Rightarrow> iext_block \<Rightarrow> nat \<Rightarrow> xfs_iext_rec list \<Rightarrow> xfs_ifork" where
  "rec_removed ifp a b n rs =
     (put_block ifp a (set_block_recs b (pad n iext_rec_zero rs)))\<lparr>if_bytes := if_bytes ifp - 16\<rparr>"

lemma root_nonzero: "uppers m root ents us \<Longrightarrow> ents_ok ents \<Longrightarrow> root \<noteq> 0"
proof (induction us arbitrary: ents)
  case (Cons u us)
  then show ?case using ukeys_ok [of u m] by auto
qed (auto simp: ents_ok_def)

lemma remove_take_out:
  assumes rep: "iext_rep ifp L us" and L: "L = A @ (a, rs) # C" and p: "p < length rs"
  obtains b n where "if_mem ifp a = Some b" "block_recs b = Some (pad n iext_rec_zero rs)" "length rs \<le> n"
    "xfs_iext_remove ifp \<lparr>cur_leaf = a, cur_pos = int p\<rparr> =
      do {
        (ifp, cur, offset) \<leftarrow>
          remove_move_cursor (rec_removed (xfs_iext_inc_seq ifp) a b n (take p rs @ drop (Suc p) rs))
            \<lparr>cur_leaf = a, cur_pos = int p\<rparr> a (rec_key (hd rs)) (length rs - 1);
        remove_rebalance ifp cur a offset (length rs - 1)
      }"
proof -
  let ?cur = "\<lparr>cur_leaf = a, cur_pos = int p\<rparr>" and ?s = "xfs_iext_inc_seq ifp"
  let ?rs = "take p rs @ drop (Suc p) rs"
  have on: "cursor_on L ?cur (length (lrecs A) + p)" using L p by (intro cursor_onI) auto
  have h: "holds ifp a rs" "holds ?s a rs" using rep_holds [OF rep L] rep_holds [OF rep_inc_seq [OF rep] L] by auto
  have ne: "rs \<noteq> []" using p by auto
  obtain n where n: "get_recs ?s a = Some (pad n iext_rec_zero rs)" "length rs \<le> n" using h(2) by (auto simp: holds_def)
  then obtain b where b: "if_mem ?s a = Some b" "block_recs b = Some (pad n iext_rec_zero rs)" by (auto simp: get_recs_block)
  obtain ys where ys: "array_shift_down (pad n iext_rec_zero rs) p (length rs - 1) = Some ys"
    "aset ys (length rs - 1) iext_rec_zero = Some (pad n iext_rec_zero ?rs)"
    by (rule shift_remove_recs [OF p n(2)])
  have up: "uppers (if_mem ifp) (if_data ifp) (map lkey L) us" and ht: "if_height ifp > 0"
    using rep L by (auto simp: iext_rep_def)
  have root: "if_data ifp \<noteq> 0"
    using root_nonzero [OF up rep_lkeys_ok [OF rep]] .
  show thesis
  proof (rule that)
    show "if_mem ifp a = Some b" using b(1) by (simp add: xfs_iext_inc_seq_def)
    show "xfs_iext_remove ifp ?cur =
      do {
        (ifp, cur, offset) \<leftarrow> remove_move_cursor (rec_removed ?s a b n ?rs) ?cur a (rec_key (hd rs)) (length rs - 1);
        remove_rebalance ifp cur a offset (length rs - 1)
      }"
      using holds_first_key [OF h(1) ne] cursor_on_rec(3) [OF rep on] ht root leaf_nr_entries_eq [OF h(2), of p] p ne
        n(1) ys put_recs_eq [OF b]
      by (simp add: xfs_iext_remove_def iext_assert_def Let_def rec_removed_def)
  qed (use b n in auto)
qed

text \<open>Updating the levels when the leaf keeps a record.\<close>

lemma remove_move_keep:
  assumes rep: "iext_rep ifp L us" and L: "L = A @ (a, rs) # C" and p: "p < length rs" "1 < length rs" "i = length (lrecs A) + p"
    and b: "if_mem ifp a = Some b" "block_recs b = Some (pad n iext_rec_zero rs)" "length rs \<le> n"
    and rs': "rs' = take p rs @ drop (Suc p) rs"
  obtains ifp2 cur2 us2 where
    "remove_move_cursor (rec_removed ifp a b n rs') \<lparr>cur_leaf = a, cur_pos = int p\<rparr> a (rec_key (hd rs)) (length rs - 1) =
      Some (ifp2, cur2, rec_key (hd rs'))"
    "iext_rep ifp2 (A @ (a, rs') # C) us2" "cursor_next (A @ (a, rs') # C) cur2 i" "if_seq ifp2 = if_seq ifp"
    "if_height ifp2 = if_height ifp"
proof -
  let ?f = "rec_removed ifp a b n rs'" and ?cur = "\<lparr>cur_leaf = a, cur_pos = int p\<rparr>"
  let ?L = "A @ (a, rs') # C"
  have len: "length rs' = length rs - 1" and ne: "rs' \<noteq> []" using p rs' by auto
  have n15: "length rs \<le> 15" and a0: "a \<noteq> 0" using rep_nodes [OF rep, of "(a, rs)"] L by auto
  have lr: "lrecs ?L = take i (lrecs L) @ drop (Suc i) (lrecs L)" unfolding rs' L by (rule remove_lrecs [OF p(1,3)])
  have exts: "exts_ok (rec_exts (lrecs ?L))"
    unfolding lr using exts_ok_remove [of "rec_exts (lrecs L)" i] rep by (simp add: iext_rep_def take_map drop_map)
  have h: "if_height ifp = length us + 1" and d: "distinct (uaddrs us)" and au: "a \<notin> set (uaddrs us)"
    and bytes: "if_bytes ifp = 16 * int (length (lrecs L))"
    using rep L by (auto simp: iext_rep_def)
  have f: "?f = (put_block ifp a (set_block_recs b (pad n iext_rec_zero rs')))\<lparr>if_bytes := 16 * int (length (lrecs ?L))\<rparr>"
    using bytes p L len by (simp add: rec_removed_def)
  have up: "uppers (if_mem ?f) (if_data ?f) (map lkey A @ (rec_key (hd rs), a) # map lkey C) us"
  proof -
    have "uppers (if_mem ?f) (if_data ifp) (map lkey L) us"
      using rep_uppers [OF rep] L au by (auto simp: rec_removed_def intro: uppers_frame)
    then show ?thesis using L by (simp add: rec_removed_def lkey_def)
  qed
  have keys: "ents_ok (map lkey A @ (rec_key (hd rs), a) # map lkey C)"
    using rep_lkeys_ok [OF rep] L by (simp add: lkey_def)
  have ff: "if_height ?f = if_height ifp" "if_seq ?f = if_seq ifp" by (simp_all add: rec_removed_def)
  have st: "iext_rep ifp2 ?L us2"
    if "mem_change (set (uaddrs us)) ?f ifp2" "uaddrs us2 = uaddrs us" "length us2 = length us"
      "uppers (if_mem ifp2) (if_data ifp2) (map lkey ?L) us2" for ifp2 us2
    by (rule rep_store_after [OF rep L refl that b ne _ _ exts f]) (use len b(3) n15 in auto)
  have tail: "lrecs ?L = lrecs A @ rs' @ lrecs C" by simp
  show thesis
  proof (cases "p = 0")
    case True
    obtain ifp2 us2 where u: "xfs_iext_update_node ?f (rec_key (hd rs)) (rec_key (hd rs')) 1 a = Some ifp2"
      "mem_change (set (uaddrs us)) ?f ifp2"
      "uppers (if_mem ifp2) (if_data ifp2) (map lkey A @ (rec_key (hd rs'), a) # map lkey C) us2"
      "uaddrs us2 = uaddrs us" "length us2 = length us"
      by (rule update_first_key [OF up keys]) (use h d ff in auto)
    have "get_recs ?f a = Some (pad n iext_rec_zero rs')"
      using b(2) by (auto simp: get_recs_def rec_removed_def set_block_recs_def block_recs_def split: iext_block.splits)
    then have "xfs_iext_leaf_key ?f a 0 = Some (rec_key (hd rs'))"
      using ne b(3) len by (cases rs') (auto simp: xfs_iext_leaf_key_def get_rec_def aget_pad rec_key_def xfs_iext_get_def)
    then have "remove_move_cursor ?f ?cur a (rec_key (hd rs)) (length rs - 1) = Some (ifp2, ?cur, rec_key (hd rs'))"
      using u(1) True p(2) by (simp add: remove_move_cursor_def)
    moreover have "cursor_next ?L ?cur i"
      using True p(3) ne tail by (auto simp: cursor_next_def intro: cursor_onI [of _ A a rs' C 0])
    moreover have "iext_rep ifp2 ?L us2" by (rule st [OF u(2,4,5)]) (use u(3) in \<open>simp add: lkey_def\<close>)
    moreover have "if_seq ifp2 = if_seq ifp" "if_height ifp2 = if_height ifp" using u(2) ff by (auto simp: mem_change_def)
    ultimately show thesis using that by blast
  next
    case False
    have hd: "hd rs' = hd rs" using False rs' p(1) by (cases rs; cases p) auto
    have rep2: "iext_rep ?f ?L us" by (rule st) (use up hd in \<open>auto simp: mem_change_def lkey_def\<close>)
    show thesis
    proof (cases "p = length rs - 1")
      case last: True
      have "(if if_height ?f > 1 then do { l \<leftarrow> get_leaf ?f a; Some (l_next l) } else Some 0) = Some (faddr 0 C)"
      proof (cases "if_height ?f > 1")
        case True
        then show ?thesis using rep_leaf [OF rep2 refl] by simp
      next
        case 1: False
        then have "us = []" using h ff by simp
        then show ?thesis using 1 rep L by (auto simp: iext_rep_def leaves_ok_def append_eq_Cons_conv)
      qed
      then have "remove_move_cursor ?f ?cur a (rec_key (hd rs)) (length rs - 1) =
          Some (?f, \<lparr>cur_leaf = faddr 0 C, cur_pos = 0\<rparr>, rec_key (hd rs'))"
        using False last hd by (simp add: remove_move_cursor_def)
      moreover have "cursor_next ?L \<lparr>cur_leaf = faddr 0 C, cur_pos = 0\<rparr> i"
      proof (cases C)
        case Nil
        then show ?thesis using last p(3) len by (simp add: cursor_next_def)
      next
        case (Cons x C')
        then have "snd x \<noteq> []" using rep_nodes [OF rep, of x] L by simp
        then have "cursor_on ?L \<lparr>cur_leaf = fst x, cur_pos = int 0\<rparr> i"
          using Cons last p(3) len by (intro cursor_onI [of _ "A @ [(a, rs')]" "fst x" "snd x" C' 0]) auto
        then show ?thesis using Cons last p(3) len \<open>snd x \<noteq> []\<close> by (simp add: cursor_next_def)
      qed
      ultimately show thesis using that rep2 ff by blast
    next
      case mid: False
      then have "remove_move_cursor ?f ?cur a (rec_key (hd rs)) (length rs - 1) = Some (?f, ?cur, rec_key (hd rs'))"
        using False hd p(1) by (auto simp: remove_move_cursor_def)
      moreover have "cursor_next ?L ?cur i"
        using mid p len tail by (auto simp: cursor_next_def intro!: cursor_onI [of _ A a rs' C p])
      ultimately show thesis using that rep2 ff by blast
    qed
  qed
qed

definition removed ::
    "xfs_ifork \<Rightarrow> lnode list \<Rightarrow> nat \<Rightarrow> xfs_ifork \<Rightarrow> xfs_iext_cursor \<Rightarrow> lnode list \<Rightarrow> unode list list \<Rightarrow> bool" where
  "removed ifp L i ifp' cur' L' us' \<longleftrightarrow>
     iext_rep ifp' L' us' \<and> lrecs L' = take i (lrecs L) @ drop (Suc i) (lrecs L) \<and>
     cursor_next L' cur' i \<and> if_seq ifp' = if_seq ifp"

text \<open>A leaf that keeps a record.\<close>

lemma remove_keep_leaf:
  assumes rep: "iext_rep ifp L us" and L: "L = A @ (a, rs) # C" and p: "p < length rs" "1 < length rs" "i = length (lrecs A) + p"
  shows "\<exists>ifp' cur' L' us'. xfs_iext_remove ifp \<lparr>cur_leaf = a, cur_pos = int p\<rparr> = Some (ifp', cur') \<and>
    removed (xfs_iext_inc_seq ifp) L i ifp' cur' L' us'"
proof -
  let ?s = "xfs_iext_inc_seq ifp"
  define rs' where "rs' = take p rs @ drop (Suc p) rs"
  let ?L = "A @ (a, rs') # C"
  have rep0: "iext_rep ?s L us" by (rule rep_inc_seq [OF rep])
  obtain b n where b: "if_mem ifp a = Some b" "block_recs b = Some (pad n iext_rec_zero rs)" "length rs \<le> n"
    and rm: "xfs_iext_remove ifp \<lparr>cur_leaf = a, cur_pos = int p\<rparr> =
      do {
        (ifp, cur, offset) \<leftarrow>
          remove_move_cursor (rec_removed ?s a b n rs') \<lparr>cur_leaf = a, cur_pos = int p\<rparr> a (rec_key (hd rs)) (length rs - 1);
        remove_rebalance ifp cur a offset (length rs - 1)
      }"
    unfolding rs'_def by (rule remove_take_out [OF rep L p(1)])
  have b0: "if_mem ?s a = Some b" using b(1) by (simp add: xfs_iext_inc_seq_def)
  obtain ifp2 cur2 us2 where m:
    "remove_move_cursor (rec_removed ?s a b n rs') \<lparr>cur_leaf = a, cur_pos = int p\<rparr> a (rec_key (hd rs)) (length rs - 1) =
      Some (ifp2, cur2, rec_key (hd rs'))"
    "iext_rep ifp2 ?L us2" "cursor_next ?L cur2 i" "if_seq ifp2 = if_seq ?s" "if_height ifp2 = if_height ?s"
    by (rule remove_move_keep [OF rep0 L p b0 b(2,3) rs'_def])
  have len: "length rs' = length rs - 1" using p rs'_def by auto
  have lr: "lrecs ?L = take i (lrecs L) @ drop (Suc i) (lrecs L)" unfolding rs'_def L by (rule remove_lrecs [OF p(1,3)])
  have "\<exists>ifp' cur' L' us'. remove_rebalance ifp2 cur2 a (rec_key (hd rs')) (length rs - 1) = Some (ifp', cur') \<and>
    iext_rep ifp' L' us' \<and> lrecs L' = lrecs ?L \<and> cursor_next L' cur' i \<and> if_seq ifp' = if_seq ?s"
  proof (cases "length rs - 1 \<ge> 7 \<or> \<not> if_height ifp2 > 1")
    case True
    then have "remove_rebalance ifp2 cur2 a (rec_key (hd rs')) (length rs - 1) = Some (ifp2, cur2)"
      using p(2) by (auto simp: remove_rebalance_def)
    then show ?thesis using m(2-4) by blast
  next
    case False
    then have "remove_rebalance ifp2 cur2 a (rec_key (hd rs')) (length rs - 1) =
        xfs_iext_rebalance_leaf ifp2 cur2 a (rec_key (hd rs')) (length rs')"
      using len by (simp add: remove_rebalance_def)
    then show ?thesis using rebalance_leaf_ok [OF m(2) refl _ m(3)] False m(4) by simp
  qed
  then obtain ifp' cur' L' us' where "remove_rebalance ifp2 cur2 a (rec_key (hd rs')) (length rs - 1) = Some (ifp', cur')"
    "iext_rep ifp' L' us'" "lrecs L' = lrecs ?L" "cursor_next L' cur' i" "if_seq ifp' = if_seq ?s" by blast
  then show ?thesis using rm m(1) lr by (auto simp: removed_def)
qed

text \<open>A leaf that loses its only record.\<close>

lemma remove_drop_leaf:
  assumes rep: "iext_rep ifp L us" and L: "L = A @ (a, [r]) # C" and us: "us \<noteq> []" and ne: "A @ C \<noteq> []"
  shows "\<exists>ifp' cur' L' us'. xfs_iext_remove ifp \<lparr>cur_leaf = a, cur_pos = 0\<rparr> = Some (ifp', cur') \<and>
    removed (xfs_iext_inc_seq ifp) L (length (lrecs A)) ifp' cur' L' us'"
proof -
  let ?s = "xfs_iext_inc_seq ifp"
  obtain b n where b: "if_mem ifp a = Some b" "block_recs b = Some (pad n iext_rec_zero [r])" "length [r] \<le> n"
    and rm: "xfs_iext_remove ifp \<lparr>cur_leaf = a, cur_pos = 0\<rparr> =
      do {
        (ifp, cur, offset) \<leftarrow> remove_move_cursor (rec_removed ?s a b n []) \<lparr>cur_leaf = a, cur_pos = 0\<rparr> a (rec_key r) 0;
        remove_rebalance ifp cur a offset 0
      }"
    using remove_take_out [OF rep L, of 0] by auto
  have seg: "leaf_seg (if_mem ifp) 0 L 0" and d: "distinct (map fst L @ uaddrs us)" and h: "if_height ifp = length us + 1"
    using rep L us by (auto simp: iext_rep_def leaves_ok_def)
  have s: "leaf_seg (if_mem ifp) 0 A a" "leaf_ok (if_mem ifp) (laddr 0 A) (a, [r]) (faddr 0 C)" "leaf_seg (if_mem ifp) a C 0"
    using seg L by (auto simp: leaf_seg_append)
  then have bl: "b = Leaf (leaf_of [r] (laddr 0 A) (faddr 0 C))" "a \<noteq> 0" using b(1) by (auto simp: leaf_ok_def)
  then have n: "n = 15" using b(2,3) pad_same_length [of 15 iext_rec_zero "[r]" n] by (simp add: block_recs_def)
  let ?f = "rec_removed ?s a b n []"
  have fm: "if_mem ?f = (if_mem ifp)(a \<mapsto> Leaf (leaf_of [] (laddr 0 A) (faddr 0 C)))"
    by (simp add: rec_removed_def bl n leaf_of_set xfs_iext_inc_seq_def)
  have ff: "if_height ?f = if_height ifp" "if_seq ?f = if_seq ?s" "if_brk ?f = if_brk ifp" "if_data ?f = if_data ifp"
    "if_bytes ?f = if_bytes ifp - 16" by (simp_all add: rec_removed_def xfs_iext_inc_seq_def)
  have na: "a \<notin> fst ` set A" "a \<notin> fst ` set C" "a \<notin> set (uaddrs us)" using d L by auto
  have keys: "map lkey A @ (rec_key r, a) # map lkey C = map lkey L" using L by (simp add: lkey_def)
  have lr: "lrecs (A @ C) = take (length (lrecs A)) (lrecs L) @ drop (Suc (length (lrecs A))) (lrecs L)" using L by simp
  have exts: "exts_ok (rec_exts (lrecs (A @ C)))"
    unfolding lr using exts_ok_remove [of "rec_exts (lrecs L)" "length (lrecs A)"] rep by (simp add: iext_rep_def take_map drop_map)
  have up: "uppers (if_mem ?f) (if_data ?f) (map lkey L) us"
    unfolding ff fm by (rule uppers_frame [OF rep_uppers [OF rep]]) (use L na in auto)
  have mem: "if_mem ?f x \<noteq> None \<longleftrightarrow> x \<in> set (map fst A @ a # map fst C @ uaddrs us)" for x
    unfolding fm using rep L by (auto simp: iext_rep_def)
  have "leaf_seg (if_mem ?f) 0 A a" "leaf_seg (if_mem ?f) a C 0" unfolding fm using s na by (auto intro: leaf_seg_upd)
  then have "leaf_gap ?f A (rec_key r) a C us"
    unfolding leaf_gap_def keys using rep L rep_lkeys_ok [OF rep] bl(2) ne exts up mem ff d fm by (auto simp: iext_rep_def)
  then obtain ifp' us' where g: "rebalance_remove_node ?f (rec_key r) a = Some ifp'" "iext_rep ifp' (A @ C) us'"
    "if_seq ifp' = if_seq ?f" by (rule drop_leaf)
  let ?cur = "\<lparr>cur_leaf = faddr 0 C, cur_pos = 0\<rparr>"
  have "get_leaf ?f a = Some (leaf_of [] (laddr 0 A) (faddr 0 C))" by (rule get_leaf_eq) (simp add: fm)
  then have "xfs_iext_remove ifp \<lparr>cur_leaf = a, cur_pos = 0\<rparr> = Some (ifp', ?cur)"
    using rm g(1) h ff(1) us
    by (simp add: remove_move_cursor_def remove_rebalance_def xfs_iext_rebalance_leaf_def)
  moreover have "cursor_next (A @ C) ?cur (length (lrecs A))"
  proof (cases C)
    case (Cons x C')
    then have x: "snd x \<noteq> []" using rep_nodes [OF rep, of x] L by simp
    then have "cursor_on (A @ C) \<lparr>cur_leaf = fst x, cur_pos = int 0\<rparr> (length (lrecs A))"
      using Cons by (intro cursor_onI [of _ A "fst x" "snd x" C' 0]) auto
    then show ?thesis using Cons x by (simp add: cursor_next_def)
  qed (simp add: cursor_next_def)
  ultimately show ?thesis using g(2,3) lr ff(2) by (auto simp: removed_def)
qed

text \<open>The last record of a one-block tree.\<close>

lemma remove_last:
  assumes rep: "iext_rep ifp [(a, [r])] []"
  shows "\<exists>ifp' cur' L' us'. xfs_iext_remove ifp \<lparr>cur_leaf = a, cur_pos = 0\<rparr> = Some (ifp', cur') \<and>
    removed (xfs_iext_inc_seq ifp) [(a, [r])] 0 ifp' cur' L' us'"
proof -
  let ?s = "xfs_iext_inc_seq ifp"
  obtain b n where b: "if_mem ifp a = Some b" "block_recs b = Some (pad n iext_rec_zero [r])" "length [r] \<le> n"
    and rm: "xfs_iext_remove ifp \<lparr>cur_leaf = a, cur_pos = 0\<rparr> =
      do {
        (ifp, cur, offset) \<leftarrow> remove_move_cursor (rec_removed ?s a b n []) \<lparr>cur_leaf = a, cur_pos = 0\<rparr> a (rec_key r) 0;
        remove_rebalance ifp cur a offset 0
      }"
    using remove_take_out [OF rep, of "[]" a "[r]" "[]" 0] by auto
  have f: "if_height ifp = 1" "if_data ifp = a" "0 < if_brk ifp" "if_bytes ifp = 16" and dom: "\<And>x. if_mem ifp x \<noteq> None \<longleftrightarrow> x = a"
    using rep by (auto simp: iext_rep_def lkey_def)
  have a0: "a \<noteq> 0" using rep_nodes [OF rep, of "(a, [r])"] by simp
  let ?g = "(rec_removed ?s a b n [])\<lparr>if_height := 0, if_mem := (\<lambda>x. None), if_data := 0\<rparr>"
  have "(if_mem ifp)(a := None) = (\<lambda>x. None)" using dom by (auto simp: fun_eq_iff) (metis not_Some_eq)
  then have "xfs_iext_free_last_leaf (rec_removed ?s a b n []) = Some ?g"
    using f a0 by (simp add: xfs_iext_free_last_leaf_def rec_removed_def xfs_iext_inc_seq_def kfree_def)
  then have rm1: "xfs_iext_remove ifp \<lparr>cur_leaf = a, cur_pos = 0\<rparr> = Some (?g, \<lparr>cur_leaf = 0, cur_pos = 0\<rparr>)"
    using rm f by (simp add: remove_move_cursor_def remove_rebalance_def rec_removed_def xfs_iext_inc_seq_def)
  have "iext_rep ?g [] []" using f by (simp add: iext_rep_def rec_removed_def xfs_iext_inc_seq_def)
  then have "removed ?s [(a, [r])] 0 ?g \<lparr>cur_leaf = 0, cur_pos = 0\<rparr> [] []"
    by (simp add: removed_def cursor_next_def rec_removed_def)
  then show ?thesis using rm1 by blast
qed

lemma iext_remove_ok:
  assumes rep: "iext_rep ifp L us" and on: "cursor_on L cur i" and two: "1 < length (lrecs L) \<or> if_height ifp = 1"
  shows "\<exists>ifp' cur' L' us'. xfs_iext_remove ifp cur = Some (ifp', cur') \<and>
    removed (xfs_iext_inc_seq ifp) L i ifp' cur' L' us'"
proof -
  obtain A a rs C p where L: "L = A @ (a, rs) # C" and p: "p < length rs" and c: "cur = \<lparr>cur_leaf = a, cur_pos = int p\<rparr>"
    "i = length (lrecs A) + p" using on by (auto simp: cursor_on_def)
  show ?thesis
  proof (cases "1 < length rs")
    case True
    then show ?thesis using remove_keep_leaf [OF rep L p True c(2)] c(1) by simp
  next
    case False
    then obtain r where r: "rs = [r]" "p = 0" using p by (cases rs) auto
    show ?thesis
    proof (cases "us = []")
      case True
      then have "A = []" "C = []" using rep L by (auto simp: iext_rep_def leaves_ok_def append_eq_Cons_conv)
      then show ?thesis using remove_last [of ifp a r] rep True L r c by simp
    next
      case False
      then have "A @ C \<noteq> []" using two L r rep by (auto simp: iext_rep_def)
      then show ?thesis using remove_drop_leaf [of ifp L us A a r C] rep L r c False by simp
    qed
  qed
qed

section \<open>Destroying the tree\<close>

text \<open>A subtree of the given height at \<open>a\<close> that occupies exactly the blocks \<open>S\<close>, none of them twice.\<close>

abbreviation disjoint_sets :: "addr set list \<Rightarrow> bool" where
  "disjoint_sets \<equiv> sorted_wrt (\<lambda>S T. S \<inter> T = {})"

primrec subtree :: "mem \<Rightarrow> nat \<Rightarrow> addr \<Rightarrow> addr set \<Rightarrow> bool" where
  "subtree m 0 a S \<longleftrightarrow> a \<noteq> 0 \<and> m a \<noteq> None \<and> S = {a}"
| "subtree m (Suc n) a S \<longleftrightarrow>
     (\<exists>es Ts. a \<noteq> 0 \<and> m a = Some (Node (node_of es)) \<and> length es \<le> KEYS_PER_NODE \<and>
        (\<forall>e \<in> set es. fst e < XFS_IEXT_KEY_INVALID) \<and>
        list_all2 (\<lambda>e T. subtree m n (snd e) T) es Ts \<and> disjoint_sets Ts \<and>
        a \<notin> \<Union> (set Ts) \<and> S = insert a (\<Union> (set Ts)))"

lemma subtree_SucE:
  assumes "subtree m (Suc n) a S"
  obtains es Ts where "a \<noteq> 0" "m a = Some (Node (node_of es))" "length es \<le> 16"
    "\<forall>e \<in> set es. fst e < XFS_IEXT_KEY_INVALID"
    "list_all2 (\<lambda>e T. subtree m n (snd e) T) es Ts" "disjoint_sets Ts" "a \<notin> \<Union> (set Ts)" "S = insert a (\<Union> (set Ts))"
  using assms by (simp only: subtree.simps) blast

lemma subtree_SucI:
  assumes "a \<noteq> 0" "m a = Some (Node (node_of es))" "length es \<le> 16" "\<forall>e \<in> set es. fst e < XFS_IEXT_KEY_INVALID"
    "list_all2 (\<lambda>e T. subtree m n (snd e) T) es Ts" "disjoint_sets Ts" "a \<notin> \<Union> (set Ts)"
  shows "subtree m (Suc n) a (insert a (\<Union> (set Ts)))"
  using assms by (simp only: subtree.simps) blast

declare subtree.simps(2) [simp del]

lemma subtree_frame: "subtree m n a S \<Longrightarrow> (\<And>x. x \<in> S \<Longrightarrow> m' x = m x) \<Longrightarrow> subtree m' n a S"
proof (induction n arbitrary: a S)
  case (Suc n)
  obtain es Ts where s: "a \<noteq> 0" "m a = Some (Node (node_of es))" "length es \<le> 16" "\<forall>e \<in> set es. fst e < XFS_IEXT_KEY_INVALID"
    "list_all2 (\<lambda>e T. subtree m n (snd e) T) es Ts" "disjoint_sets Ts" "a \<notin> \<Union> (set Ts)" "S = insert a (\<Union> (set Ts))"
    by (rule subtree_SucE [OF Suc.prems(1)])
  have "list_all2 (\<lambda>e T. subtree m' n (snd e) T) es Ts"
    using s(5)
  proof (rule list.rel_mono_strong)
    fix e T assume "T \<in> set Ts" "subtree m n (snd e) T"
    then show "subtree m' n (snd e) T" using Suc.prems(2) s(8) by (intro Suc.IH) auto
  qed
  moreover have "m' a = m a" using Suc.prems(2) s(8) by simp
  ultimately show ?case unfolding s(8) using s by (intro subtree_SucI) auto
qed simp

definition freed :: "xfs_ifork \<Rightarrow> addr set \<Rightarrow> xfs_ifork" where
  "freed ifp S = ifp\<lparr>if_mem := (\<lambda>x. if x \<in> S then None else if_mem ifp x)\<rparr>"

lemma freed_empty [simp]: "freed ifp {} = ifp"
  by (simp add: freed_def)

lemma freed_freed [simp]: "freed (freed ifp S) T = freed ifp (S \<union> T)"
  by (auto simp: freed_def fun_eq_iff)

lemma freed_mem [simp]: "if_mem (freed ifp S) x = (if x \<in> S then None else if_mem ifp x)"
  by (simp add: freed_def)

lemma kfree_freed: "a \<noteq> 0 \<Longrightarrow> if_mem ifp a \<noteq> None \<Longrightarrow> kfree ifp a = Some (freed ifp {a})"
  by (auto simp: kfree_def freed_def fun_eq_iff)

lemma destroy_children_ok:
  assumes IH: "\<And>ifp c T. subtree (if_mem ifp) n c T \<Longrightarrow> destroy_node ifp c (Suc n) = Some (freed ifp T)"
  shows "if_mem ifp a = Some (Node (node_of (E @ F))) \<Longrightarrow> length (E @ F) \<le> 16 \<Longrightarrow>
    \<forall>e \<in> set F. fst e < XFS_IEXT_KEY_INVALID \<Longrightarrow> list_all2 (\<lambda>e T. subtree (if_mem ifp) n (snd e) T) F Ts \<Longrightarrow>
    disjoint_sets Ts \<Longrightarrow> a \<notin> \<Union> (set Ts) \<Longrightarrow>
    destroy_children ifp a (Suc (Suc n)) (length E) = Some (freed ifp (\<Union> (set Ts)))"
proof (induction F arbitrary: E Ts ifp)
  case Nil
  then show ?case
    by (subst destroy_children.simps) (auto simp: get_node_eq node_of_def aget_pad)
next
  case (Cons e F)
  then obtain T Ts' where Ts: "Ts = T # Ts'" "subtree (if_mem ifp) n (snd e) T"
    "list_all2 (\<lambda>e T. subtree (if_mem ifp) n (snd e) T) F Ts'"
    by (auto simp: list_all2_Cons1)
  let ?f = "freed ifp T"
  have "destroy_children ?f a (Suc (Suc n)) (length (E @ [e])) = Some (freed ?f (\<Union> (set Ts')))"
  proof (rule Cons.IH)
    show "list_all2 (\<lambda>e T. subtree (if_mem ?f) n (snd e) T) F Ts'"
      using Ts(3)
    proof (rule list.rel_mono_strong)
      fix e' T' assume t: "T' \<in> set Ts'" "subtree (if_mem ifp) n (snd e') T'"
      then have "T \<inter> T' = {}" using Cons.prems(5) Ts(1) by simp
      then show "subtree (if_mem ?f) n (snd e') T'" by (intro subtree_frame [OF t(2)]) auto
    qed
  qed (use Cons.prems Ts(1) in auto)
  moreover have "get_node ifp a = Some (node_of (E @ e # F))" using Cons.prems(1) by (rule get_node_eq)
  moreover have "aget (n_keys (node_of (E @ e # F))) (length E) = Some (fst e)"
    using node_of_key [of E "fst e" "snd e" F] Cons.prems(2) by simp
  moreover have "fst e \<noteq> XFS_IEXT_KEY_INVALID" using Cons.prems(3) by auto
  ultimately show ?case
    using ptr_before [of E e F] Cons.prems(2) IH [OF Ts(2)] Ts(1)
    by (subst destroy_children.simps) simp
qed

lemma destroy_node_ok: "subtree (if_mem ifp) n a S \<Longrightarrow> destroy_node ifp a (Suc n) = Some (freed ifp S)"
proof (induction n arbitrary: ifp a S)
  case 0
  then show ?case by (subst destroy_node.simps) (simp add: kfree_freed)
next
  case (Suc n)
  obtain es Ts where s: "a \<noteq> 0" "if_mem ifp a = Some (Node (node_of es))" "length es \<le> 16" "\<forall>e \<in> set es. fst e < XFS_IEXT_KEY_INVALID"
    "list_all2 (\<lambda>e T. subtree (if_mem ifp) n (snd e) T) es Ts" "disjoint_sets Ts" "a \<notin> \<Union> (set Ts)" "S = insert a (\<Union> (set Ts))"
    by (rule subtree_SucE [OF Suc.prems(1)])
  have "destroy_children ifp a (Suc (Suc n)) (length []) = Some (freed ifp (\<Union> (set Ts)))"
    using destroy_children_ok [of n ifp a "[]" es Ts, OF Suc.IH] s by auto
  then show ?case using s by (subst destroy_node.simps) (simp add: kfree_freed Un_commute)
qed

text \<open>The levels over subtrees make up one subtree at the root.\<close>

lemma level_subtrees:
  "\<forall>x \<in> set u. unode_ok m x \<Longrightarrow> \<forall>e \<in> set (concat (map snd u)). fst e < XFS_IEXT_KEY_INVALID \<Longrightarrow>
   list_all2 (\<lambda>e T. subtree m n (snd e) T) (concat (map snd u)) Ts \<Longrightarrow> disjoint_sets Ts \<Longrightarrow>
   distinct (map fst u) \<Longrightarrow> set (map fst u) \<inter> \<Union> (set Ts) = {} \<Longrightarrow>
   \<exists>Us. list_all2 (\<lambda>e T. subtree m (Suc n) (snd e) T) (map ukey u) Us \<and> disjoint_sets Us \<and>
     \<Union> (set Us) = set (map fst u) \<union> \<Union> (set Ts)"
proof (induction u arbitrary: Ts)
  case (Cons x u)
  obtain T1 T2 where T: "Ts = T1 @ T2" "list_all2 (\<lambda>e T. subtree m n (snd e) T) (snd x) T1"
    "list_all2 (\<lambda>e T. subtree m n (snd e) T) (concat (map snd u)) T2"
    using Cons.prems(3) by (auto simp: list_all2_append1)
  have d: "disjoint_sets T1" "disjoint_sets T2" "\<Union> (set T1) \<inter> \<Union> (set T2) = {}"
    using Cons.prems(4) T(1) by (auto simp: sorted_wrt_append)
  have "set (map fst u) \<inter> \<Union> (set T2) = {}" using Cons.prems(6) T(1) by auto
  then obtain Us where U: "list_all2 (\<lambda>e T. subtree m (Suc n) (snd e) T) (map ukey u) Us" "disjoint_sets Us"
    "\<Union> (set Us) = set (map fst u) \<union> \<Union> (set T2)"
    using Cons.IH [OF _ _ T(3) d(2)] Cons.prems(1,2,5) by auto
  let ?S = "insert (fst x) (\<Union> (set T1))"
  have st: "subtree m (Suc n) (fst x) ?S"
    by (rule subtree_SucI [of _ _ "snd x"]) (use Cons.prems(1,2,6) T d(1) in \<open>auto simp: unode_ok_def\<close>)
  have "?S \<inter> \<Union> (set Us) = {}"
    using U(3) d(3) Cons.prems(5,6) T(1) by auto
  then have "disjoint_sets (?S # Us)" using U(2) by auto
  moreover have "snd (ukey x) = fst x" by (simp add: ukey_def)
  moreover have "\<Union> (set (?S # Us)) = set (map fst (x # u)) \<union> \<Union> (set Ts)" using U(3) T(1) by auto
  ultimately show ?case
    using U(1) st by (intro exI [of _ "?S # Us"]) (simp del: sorted_wrt.simps Union_insert)
qed simp

lemma uppers_subtree:
  "uppers m root ents us \<Longrightarrow> ents_ok ents \<Longrightarrow> list_all2 (\<lambda>e T. subtree m n (snd e) T) ents Ts \<Longrightarrow> disjoint_sets Ts \<Longrightarrow>
   distinct (uaddrs us) \<Longrightarrow> set (uaddrs us) \<inter> \<Union> (set Ts) = {} \<Longrightarrow>
   subtree m (n + length us) root (\<Union> (set Ts) \<union> set (uaddrs us))"
proof (induction us arbitrary: ents n Ts)
  case Nil
  then show ?case by (auto simp: list_all2_Cons1)
next
  case (Cons u us)
  then have u: "concat (map snd u) = ents" "\<forall>x \<in> set u. unode_ok m x" "uppers m root (map ukey u) us" by auto
  have sep: "set (map fst u) \<inter> \<Union> (set Ts) = {}" using Cons.prems(6) by auto
  obtain Us where U: "list_all2 (\<lambda>e T. subtree m (Suc n) (snd e) T) (map ukey u) Us" "disjoint_sets Us"
    "\<Union> (set Us) = set (map fst u) \<union> \<Union> (set Ts)"
    using level_subtrees [of u m n Ts] u(1,2) Cons.prems(2-6) sep by (auto simp: ents_ok_def)
  have "subtree m (Suc n + length us) root (\<Union> (set Us) \<union> set (uaddrs us))"
    by (rule Cons.IH [OF u(3) ukeys_ok U(1,2)]) (use u Cons.prems U(3) in auto)
  then show ?case using U(3) by (simp add: Un_ac)
qed

lemma leaf_subtrees:
  "\<forall>x \<in> set L. fst x \<noteq> 0 \<and> m (fst x) \<noteq> None \<Longrightarrow>
   list_all2 (\<lambda>e T. subtree m 0 (snd e) T) (map lkey L) (map (\<lambda>x. {fst x}) L)"
  by (induction L) auto

lemma disjoint_singletons: "distinct (map fst L) \<Longrightarrow> disjoint_sets (map (\<lambda>x. {fst x}) L)"
  by (induction L) auto

lemma iext_destroy_ok:
  assumes rep: "iext_rep ifp L us"
  shows "\<exists>ifp'. xfs_iext_destroy ifp = Some ifp' \<and> iext_rep ifp' [] [] \<and> (\<forall>a. if_mem ifp' a = None)"
proof (cases "L = []")
  case True
  then have e: "us = []" "if_height ifp = 0" "if_data ifp = 0" "0 < if_brk ifp" and m: "\<forall>a. if_mem ifp a = None"
    using rep by (auto simp: iext_rep_def)
  then have "xfs_iext_destroy ifp = Some (ifp\<lparr>if_bytes := 0, if_height := 0, if_data := 0\<rparr>)"
    by (simp add: xfs_iext_destroy_def destroy_node.simps kfree_def)
  then show ?thesis using e m by (auto simp: iext_rep_def)
next
  case False
  have d: "distinct (map fst L @ uaddrs us)" and dom: "\<forall>a. if_mem ifp a \<noteq> None \<longleftrightarrow> a \<in> set (map fst L @ uaddrs us)"
    and h: "if_height ifp = length us + 1" and brk: "0 < if_brk ifp"
    using rep False by (auto simp: iext_rep_def)
  have "subtree (if_mem ifp) (0 + length us) (if_data ifp) (\<Union> (set (map (\<lambda>x. {fst x}) L)) \<union> set (uaddrs us))"
    by (rule uppers_subtree [OF rep_uppers [OF rep False] rep_lkeys_ok [OF rep] leaf_subtrees disjoint_singletons])
       (use rep_nodes [OF rep] d dom in auto)
  moreover have "\<Union> (set (map (\<lambda>x. {fst x}) L)) \<union> set (uaddrs us) = set (map fst L @ uaddrs us)" by auto
  ultimately have "destroy_node ifp (if_data ifp) (if_height ifp) = Some (freed ifp (set (map fst L @ uaddrs us)))"
    using destroy_node_ok [of ifp "length us" "if_data ifp"] h by simp
  moreover have "if_mem (freed ifp (set (map fst L @ uaddrs us))) a = None" for a using dom by auto
  ultimately show ?thesis
    using brk by (auto simp: xfs_iext_destroy_def iext_rep_def freed_def)
qed

end
