(* ===== verification/Iext_List.thy ===== *)
theory Iext_List
  imports Iext_Remove
begin

text \<open>
  What the in-core extent tree promises to its clients: a list of extents in file order, with
  cursors as positions in it. The interface is a locale whose laws are discharged on the tree;
  what a client of the tree relies on is proved from the laws alone.
\<close>

section \<open>The interface\<close>

text \<open>
  \<open>rep s xs\<close>: the state stands for the extents \<open>xs\<close>; \<open>at s xs c i\<close>: in addition the cursor \<open>c\<close>
  is at position \<open>i\<close>, the length of the list being the position past the last extent.
\<close>

locale extent_list =
  fixes rep :: "'s \<Rightarrow> xfs_bmbt_irec list \<Rightarrow> bool"
    and at :: "'s \<Rightarrow> xfs_bmbt_irec list \<Rightarrow> 'c \<Rightarrow> nat \<Rightarrow> bool"
    and first :: "'s \<Rightarrow> 'c option"
    and get :: "'s \<Rightarrow> 'c \<Rightarrow> (xfs_bmbt_irec option) option"
    and step :: "'s \<Rightarrow> 'c \<Rightarrow> 'c option"
    and lookup :: "'s \<Rightarrow> u64 \<Rightarrow> ('c \<times> xfs_bmbt_irec option) option"
    and insert_at :: "'s \<Rightarrow> 'c \<Rightarrow> xfs_bmbt_irec \<Rightarrow> ('s \<times> 'c) option"
    and update_at :: "'s \<Rightarrow> 'c \<Rightarrow> xfs_bmbt_irec \<Rightarrow> 's option"
  assumes rep_exts_ok: "rep s xs \<Longrightarrow> exts_ok xs"
    and at_rep: "at s xs c i \<Longrightarrow> rep s xs"
    and first_at: "rep s xs \<Longrightarrow> \<exists>c. first s = Some c \<and> at s xs c 0"
    and get_at: "at s xs c i \<Longrightarrow> get s c = Some (if i < length xs then Some (xs ! i) else None)"
    and step_at: "at s xs c i \<Longrightarrow> i < length xs \<Longrightarrow> \<exists>c'. step s c = Some c' \<and> at s xs c' (i + 1)"
    and lookup_at: "rep s xs \<Longrightarrow> off < XFS_IEXT_KEY_INVALID \<Longrightarrow>
      \<exists>c. lookup s off = Some (c, if lookup_index xs off < length xs then Some (xs ! lookup_index xs off) else None) \<and>
        at s xs c (lookup_index xs off)"
    and insert_at: "at s xs c i \<Longrightarrow> exts_ok (take i xs @ e # drop i xs) \<Longrightarrow>
      \<exists>s' c'. insert_at s c e = Some (s', c') \<and> at s' (take i xs @ e # drop i xs) c' i"
    and update_at: "at s xs c i \<Longrightarrow> i < length xs \<Longrightarrow> exts_ok (xs[i := e]) \<Longrightarrow>
      \<exists>s'. update_at s c e = Some s' \<and> at s' (xs[i := e]) c i"

section \<open>Positions in a file mapping\<close>

lemma exts_ok_nth: "exts_ok xs \<Longrightarrow> i < j \<Longrightarrow> j < length xs \<Longrightarrow> ext_end (xs ! i) \<le> ext_start (xs ! j)"
  by (simp add: exts_ok_def sorted_wrt_iff_nth_less)

lemma exts_ok_elem: "exts_ok xs \<Longrightarrow> e \<in> set xs \<Longrightarrow> br_blockcount e \<noteq> 0 \<and> iext_set_asserts e"
  by (simp add: exts_ok_def)

lemma exts_ok_nth_less: "exts_ok xs \<Longrightarrow> i < length xs \<Longrightarrow> ext_start (xs ! i) < ext_end (xs ! i)"
  using exts_ok_elem [of xs "xs ! i"] ext_start_less_end by simp

text \<open>The position that a search returns: the extents before it end at or before the offset.\<close>

lemma lookup_index_eqI:
  assumes "i \<le> length xs" "\<And>j. j < i \<Longrightarrow> ext_end (xs ! j) \<le> unat off" "i < length xs \<longrightarrow> unat off < ext_end (xs ! i)"
  shows "lookup_index xs off = i"
proof -
  have "takeWhile (\<lambda>e. ext_end e \<le> unat off) xs = take i xs"
    by (rule takeWhile_eq_take_P_nth) (use assms in auto)
  then show ?thesis using assms(1) by (simp add: lookup_index_def)
qed

lemma lookup_index_le: "lookup_index xs off \<le> length xs"
  by (simp add: lookup_index_def length_takeWhile_le)

lemma lookup_index_before: "j < lookup_index xs off \<Longrightarrow> ext_end (xs ! j) \<le> unat off"
  unfolding lookup_index_def by (metis nth_mem set_takeWhileD takeWhile_nth)

lemma lookup_index_at: "lookup_index xs off < length xs \<Longrightarrow> unat off < ext_end (xs ! lookup_index xs off)"
  unfolding lookup_index_def using nth_length_takeWhile not_le by blast

text \<open>An offset inside an extent is found at that extent.\<close>

lemma lookup_index_inside:
  assumes "exts_ok xs" "i < length xs" "ext_start (xs ! i) \<le> unat off" "unat off < ext_end (xs ! i)"
  shows "lookup_index xs off = i"
proof (rule lookup_index_eqI)
  fix j assume "j < i"
  then show "ext_end (xs ! j) \<le> unat off" using exts_ok_nth [OF assms(1), of j i] assms(2,3) by simp
qed (use assms in auto)

text \<open>An extent that meets none of a mapping fits at the position of its first block.\<close>

definition ext_disjoint :: "xfs_bmbt_irec \<Rightarrow> xfs_bmbt_irec \<Rightarrow> bool" where
  "ext_disjoint e f \<longleftrightarrow> ext_end e \<le> ext_start f \<or> ext_end f \<le> ext_start e"

lemma exts_ok_insert_lookup:
  assumes ok: "exts_ok xs" and e: "br_blockcount e \<noteq> 0" "iext_set_asserts e" "\<forall>f \<in> set xs. ext_disjoint e f"
    and i: "i = lookup_index xs (br_startoff e)"
  shows "exts_ok (take i xs @ e # drop i xs)"
proof -
  have le: "ext_start e < ext_end e" by (rule ext_start_less_end [OF e(1)])
  have bef: "ext_end f \<le> ext_start e" if "f \<in> set (take i xs)" for f
    using that lookup_index_before [of _ xs "br_startoff e"] i by (auto simp: in_set_conv_nth ext_start_def)
  have aft: "ext_end e \<le> ext_start f" if f: "f \<in> set (drop i xs)" for f
  proof -
    obtain j where "j < length (drop i xs)" "f = drop i xs ! j" using f by (metis in_set_conv_nth)
    then have j: "i + j < length xs" "f = xs ! (i + j)" by auto
    have "ext_start e < ext_end (xs ! i)" using lookup_index_at [of xs "br_startoff e"] i j(1) by (simp add: ext_start_def)
    also have "\<dots> \<le> ext_end f"
    proof (cases j)
      case (Suc n)
      then show ?thesis
        using exts_ok_nth [OF ok, of i "i + j"] exts_ok_nth_less [OF ok j(1)] j by simp
    qed (use j in simp)
    finally show ?thesis using e(3) j by (auto simp: ext_disjoint_def)
  qed
  have "exts_ok (take i xs)" "exts_ok (drop i xs)" "\<forall>x \<in> set (take i xs). \<forall>y \<in> set (drop i xs). ext_end x \<le> ext_start y"
    using ok exts_ok_append [of "take i xs" "drop i xs"] by simp_all
  then show ?thesis using bef aft e by (auto simp: exts_ok_append exts_ok_Cons)
qed

section \<open>What clients rely on\<close>

context extent_list
begin

lemma at_first_end: "rep s xs \<Longrightarrow> xs = [] \<Longrightarrow> \<exists>c. first s = Some c \<and> get s c = Some None"
  using first_at get_at by fastforce

lemma lookup_covered:
  assumes "rep s xs" "i < length xs" "ext_start (xs ! i) \<le> unat off" "unat off < ext_end (xs ! i)" "off < XFS_IEXT_KEY_INVALID"
  shows "\<exists>c. lookup s off = Some (c, Some (xs ! i)) \<and> at s xs c i"
proof -
  have "lookup_index xs off = i" using lookup_index_inside [OF rep_exts_ok [OF assms(1)] assms(2-4)] .
  then show ?thesis using lookup_at [OF assms(1,5)] assms(2) by auto
qed

text \<open>Appending at the end of the list and moving past the new extent.\<close>

lemma append_at:
  assumes "at s xs c (length xs)" "exts_ok (xs @ [e])"
  shows "\<exists>s1 c1 c2. insert_at s c e = Some (s1, c1) \<and> step s1 c1 = Some c2 \<and> at s1 (xs @ [e]) c2 (length (xs @ [e]))"
proof -
  obtain s1 c1 where "insert_at s c e = Some (s1, c1)" "at s1 (xs @ [e]) c1 (length xs)"
    using insert_at [OF assms(1), of e] assms(2) by auto
  then show ?thesis using step_at [of s1 "xs @ [e]" c1 "length xs"] by auto
qed

text \<open>Adding an extent where the search for its first block ends.\<close>

lemma add_extent:
  assumes "rep s xs" "br_blockcount e \<noteq> 0" "iext_set_asserts e" "\<forall>f \<in> set xs. ext_disjoint e f"
  shows "\<exists>c got s' c'. lookup s (br_startoff e) = Some (c, got) \<and> insert_at s c e = Some (s', c') \<and>
     at s' (take (lookup_index xs (br_startoff e)) xs @ e # drop (lookup_index xs (br_startoff e)) xs) c'
       (lookup_index xs (br_startoff e))"
proof -
  let ?i = "lookup_index xs (br_startoff e)"
  have off: "br_startoff e < XFS_IEXT_KEY_INVALID"
    using ext_bounds(1) [OF assms(3)] by (simp add: word_less_nat_alt key_invalid_nat ext_start_def)
  obtain c got where c: "lookup s (br_startoff e) = Some (c, got)" "at s xs c ?i"
    using lookup_at [OF assms(1) off] by blast
  have "exts_ok (take ?i xs @ e # drop ?i xs)"
    by (rule exts_ok_insert_lookup [OF rep_exts_ok [OF assms(1)] assms(2-4) refl])
  then show ?thesis using insert_at [OF c(2)] c(1) by blast
qed

text \<open>Afterwards every offset of the extent is found in it, and the other extents are still found.\<close>

lemma add_lookup:
  assumes "at s' (take i xs @ e # drop i xs) c' i" "f \<in> set (e # xs)"
    "ext_start f \<le> unat off" "unat off < ext_end f" "off < XFS_IEXT_KEY_INVALID"
  shows "\<exists>c. lookup s' off = Some (c, Some f)"
proof -
  let ?ys = "take i xs @ e # drop i xs"
  have "set ?ys = set (e # xs)" by (metis append_take_drop_id insert_is_Un list.simps(15) set_append sup_left_commute)
  then obtain j where "j < length ?ys" "f = ?ys ! j" using assms(2) by (metis in_set_conv_nth)
  then show ?thesis using lookup_covered [OF at_rep [OF assms(1)]] assms(3-5) by blast
qed

end

section \<open>The tree provides the interface\<close>

definition iext_list :: "xfs_ifork \<Rightarrow> xfs_bmbt_irec list \<Rightarrow> bool" where
  "iext_list ifp xs \<longleftrightarrow> (\<exists>L us. iext_rep ifp L us \<and> rec_exts (lrecs L) = xs)"

definition iext_at :: "xfs_ifork \<Rightarrow> xfs_bmbt_irec list \<Rightarrow> xfs_iext_cursor \<Rightarrow> nat \<Rightarrow> bool" where
  "iext_at ifp xs cur i \<longleftrightarrow>
     (\<exists>L us. iext_rep ifp L us \<and> rec_exts (lrecs L) = xs \<and>
        (if i < length xs then cursor_on L cur i else i = length xs \<and> cursor_end L cur))"

lemma rep_Nil_lrecs: "iext_rep ifp L us \<Longrightarrow> lrecs L = [] \<longleftrightarrow> L = []"
  by (cases L) (auto dest: rep_nodes)

lemma list_first_at:
  assumes "iext_list ifp xs"
  shows "\<exists>c. xfs_iext_first ifp = Some c \<and> iext_at ifp xs c 0"
proof -
  obtain L us where L: "iext_rep ifp L us" "rec_exts (lrecs L) = xs" using assms by (auto simp: iext_list_def)
  then show ?thesis using iext_first_ok [OF L(1)] rep_Nil_lrecs [OF L(1)] by (auto simp: iext_at_def split: if_splits)
qed

lemma list_get_at:
  assumes "iext_at ifp xs c i"
  shows "xfs_iext_get_extent ifp c = Some (if i < length xs then Some (xs ! i) else None)"
  using assms by (auto simp: iext_at_def cursor_on_rec cursor_end_invalid)

lemma list_step_at:
  assumes "iext_at ifp xs c i" "i < length xs"
  shows "\<exists>c'. xfs_iext_next ifp c = Some c' \<and> iext_at ifp xs c' (i + 1)"
proof -
  obtain L us where L: "iext_rep ifp L us" "rec_exts (lrecs L) = xs" "cursor_on L c i" using assms by (auto simp: iext_at_def)
  have "length xs = length (lrecs L)" using L(2) by auto
  then show ?thesis using iext_next_ok [OF L(1,3)] L assms(2) unfolding iext_at_def by fastforce
qed

lemma list_lookup_at:
  assumes "iext_list ifp xs" "off < XFS_IEXT_KEY_INVALID"
  shows "\<exists>c. xfs_iext_lookup_extent ifp off =
        Some (c, if lookup_index xs off < length xs then Some (xs ! lookup_index xs off) else None) \<and>
      iext_at ifp xs c (lookup_index xs off)"
proof -
  obtain L us where L: "iext_rep ifp L us" "rec_exts (lrecs L) = xs" using assms by (auto simp: iext_list_def)
  obtain cur where c: "xfs_iext_lookup_extent ifp off =
      Some (cur, if lookup_index xs off < length xs then Some (xfs_iext_get (lrecs L ! lookup_index xs off)) else None)"
    "if lookup_index xs off < length xs then cursor_on L cur (lookup_index xs off) else cursor_end L cur"
    using lookup_extent_ok [OF L(1) assms(2)] L(2) by auto
  have "xfs_iext_get (lrecs L ! lookup_index xs off) = xs ! lookup_index xs off" if "lookup_index xs off < length xs"
    using that L(2) by auto
  then have "xfs_iext_lookup_extent ifp off =
      Some (cur, if lookup_index xs off < length xs then Some (xs ! lookup_index xs off) else None)" using c(1) by simp
  moreover have "iext_at ifp xs cur (lookup_index xs off)"
    unfolding iext_at_def using L c(2) lookup_index_le [of xs off] by (intro exI [of _ L] exI [of _ us]) auto
  ultimately show ?thesis by blast
qed

lemma iext_at_cursor:
  assumes "iext_at ifp xs c i"
  obtains L us where "iext_rep ifp L us" "rec_exts (lrecs L) = xs" "cursor_at L c i" "i \<le> length xs"
proof -
  obtain L us where L: "iext_rep ifp L us" "rec_exts (lrecs L) = xs"
    "if i < length xs then cursor_on L c i else i = length xs \<and> cursor_end L c" using assms by (auto simp: iext_at_def)
  then have "cursor_at L c i \<and> i \<le> length xs"
    using cursor_on_at cursor_end_at by (auto split: if_splits)
  then show thesis using that L by blast
qed

lemma list_insert_at:
  assumes "iext_at ifp xs c i" "exts_ok (take i xs @ e # drop i xs)"
  shows "\<exists>ifp' c'. xfs_iext_insert_raw ifp c e = Some (ifp', c') \<and> iext_at ifp' (take i xs @ e # drop i xs) c' i \<and>
    if_seq ifp' = if_seq ifp + 1"
proof -
  obtain L us where L: "iext_rep ifp L us" "rec_exts (lrecs L) = xs" "cursor_at L c i" "i \<le> length xs"
    by (rule iext_at_cursor [OF assms(1)])
  obtain ifp' c' L' us' where r: "xfs_iext_insert_raw ifp c e = Some (ifp', c')"
    "inserted (xfs_iext_inc_seq ifp) L i e ifp' c' L' us'"
    using insert_raw_ok [OF L(1,3), of e] assms(2) L(2) by auto
  have "xfs_iext_get (iext_pack e) = e" using exts_ok_insert(3) [OF assms(2)] .
  then have "rec_exts (lrecs L') = take i xs @ e # drop i xs" "iext_rep ifp' L' us'" "cursor_on L' c' i"
    "if_seq ifp' = if_seq ifp + 1"
    using r(2) L(2) by (auto simp: inserted_def take_map drop_map xfs_iext_inc_seq_def)
  then show ?thesis using r(1) L(4) unfolding iext_at_def by (intro exI conjI) auto
qed

lemma list_update_at:
  assumes "iext_at ifp xs c i" "i < length xs" "exts_ok (xs[i := e])"
  shows "\<exists>ifp'. xfs_iext_update_extent ifp c e = Some ifp' \<and> iext_at ifp' (xs[i := e]) c i \<and> if_seq ifp' = if_seq ifp + 1"
proof -
  obtain L us where L: "iext_rep ifp L us" "rec_exts (lrecs L) = xs" "cursor_on L c i" using assms by (auto simp: iext_at_def)
  obtain ifp' L' us' where r: "xfs_iext_update_extent ifp c e = Some ifp'" "iext_rep ifp' L' us'"
    "lrecs L' = (lrecs L)[i := iext_pack e]" "cursor_on L' c i" "if_seq ifp' = if_seq ifp + 1"
    using update_extent_ok [OF L(1,3), of e] assms(3) L(2) by auto
  have "e \<in> set (xs[i := e])" using assms(2) by (simp add: set_update_memI)
  then have "xfs_iext_get (iext_pack e) = e" using assms(3) by (auto simp: exts_ok_def iext_get_pack)
  then have "rec_exts (lrecs L') = xs[i := e]" using r(3) L(2) by (auto simp: map_update)
  then show ?thesis using r assms(2) unfolding iext_at_def by (intro exI conjI) auto
qed

interpretation iel: extent_list iext_list iext_at xfs_iext_first xfs_iext_get_extent xfs_iext_next
  xfs_iext_lookup_extent xfs_iext_insert_raw xfs_iext_update_extent
proof
  fix ifp xs cur i e
  show "exts_ok xs" if "iext_list ifp xs" using that by (auto simp: iext_list_def iext_rep_def)
  show "iext_list ifp xs" if "iext_at ifp xs cur i" using that by (auto simp: iext_at_def iext_list_def)
  show "\<exists>s' c'. xfs_iext_insert_raw ifp cur e = Some (s', c') \<and> iext_at s' (take i xs @ e # drop i xs) c' i"
    if "iext_at ifp xs cur i" "exts_ok (take i xs @ e # drop i xs)" using list_insert_at [OF that] by blast
  show "\<exists>s'. xfs_iext_update_extent ifp cur e = Some s' \<and> iext_at s' (xs[i := e]) cur i"
    if "iext_at ifp xs cur i" "i < length xs" "exts_ok (xs[i := e])" using list_update_at [OF that] by blast
qed (fact list_first_at list_get_at list_step_at list_lookup_at)+

text \<open>Removal; past the last extent the cursor is the null cursor.\<close>

definition iext_after :: "xfs_ifork \<Rightarrow> xfs_bmbt_irec list \<Rightarrow> xfs_iext_cursor \<Rightarrow> nat \<Rightarrow> bool" where
  "iext_after ifp xs cur i \<longleftrightarrow>
     (if i < length xs then iext_at ifp xs cur i
      else i = length xs \<and> iext_list ifp xs \<and> cur = \<lparr>cur_leaf = 0, cur_pos = 0\<rparr>)"

lemma list_remove_at:
  assumes "iext_at ifp xs c i" "i < length xs" "1 < length xs \<or> if_height ifp = 1"
  shows "\<exists>ifp' c'. xfs_iext_remove ifp c = Some (ifp', c') \<and> iext_after ifp' (take i xs @ drop (Suc i) xs) c' i \<and>
    if_seq ifp' = if_seq ifp + 1"
proof -
  obtain L us where L: "iext_rep ifp L us" "rec_exts (lrecs L) = xs" "cursor_on L c i" using assms by (auto simp: iext_at_def)
  obtain ifp' c' L' us' where r: "xfs_iext_remove ifp c = Some (ifp', c')" "removed (xfs_iext_inc_seq ifp) L i ifp' c' L' us'"
    using iext_remove_ok [OF L(1,3)] assms(3) L(2) by auto
  have eq: "rec_exts (lrecs L') = take i xs @ drop (Suc i) xs" "iext_rep ifp' L' us'" "cursor_next L' c' i"
    "if_seq ifp' = if_seq ifp + 1"
    using r(2) L(2) by (auto simp: removed_def take_map drop_map xfs_iext_inc_seq_def)
  have "length (lrecs L') = length (take i xs @ drop (Suc i) xs)" using eq(1) by (metis length_map)
  then have "iext_after ifp' (take i xs @ drop (Suc i) xs) c' i"
    using eq(1-3) unfolding iext_after_def iext_at_def iext_list_def cursor_next_def by auto
  then show ?thesis using r(1) eq(4) by blast
qed

lemma list_destroy:
  assumes "iext_list ifp xs"
  shows "\<exists>ifp'. xfs_iext_destroy ifp = Some ifp' \<and> iext_list ifp' [] \<and> (\<forall>a. if_mem ifp' a = None)"
  using assms iext_destroy_ok unfolding iext_list_def by fastforce

end
