(* ===== verification/Iext_Correct.thy ===== *)
theory Iext_Correct
  imports Iext_List
begin

text \<open>
  The properties of the in-core extent tree: each operation does on the tree what it means on
  the list of extents, the search backwards, and the case in which removing the last extent
  leaves a tree that the next insertion cannot use.
\<close>

section \<open>Searching backwards\<close>

lemma list_prev_at:
  assumes "iext_at ifp xs c i" "0 < i"
  shows "\<exists>c'. xfs_iext_prev ifp c = Some c' \<and> iext_at ifp xs c' (i - 1)"
proof -
  obtain L us where L: "iext_rep ifp L us" "rec_exts (lrecs L) = xs"
    "if i < length xs then cursor_on L c i else i = length xs \<and> cursor_end L c" using assms(1) by (auto simp: iext_at_def)
  have len: "length xs = length (lrecs L)" using L(2) by auto
  have "\<exists>c'. xfs_iext_prev ifp c = Some c' \<and> cursor_on L c' (i - 1) \<and> i - 1 < length xs"
  proof (cases "i < length xs")
    case True
    then have "cursor_on L c i" using L(3) by simp
    then show ?thesis using iext_prev_on [OF L(1) _ assms(2), of c] True by auto
  next
    case False
    then have "i = length xs" "cursor_end L c" "L \<noteq> []" using L assms(2) by auto
    then show ?thesis using iext_prev_end [OF L(1)] len assms(2) by auto
  qed
  then show ?thesis using L(1,2) unfolding iext_at_def by (metis (no_types, lifting))
qed

lemma list_prev_front:
  assumes "iext_at ifp xs c 0"
  shows "\<exists>c'. xfs_iext_prev ifp c = Some c' \<and> xfs_iext_get_extent ifp c' = Some None"
proof -
  obtain L us where L: "iext_rep ifp L us" "rec_exts (lrecs L) = xs"
    "if 0 < length xs then cursor_on L c 0 else cursor_end L c" using assms by (auto simp: iext_at_def)
  show ?thesis
  proof (cases "xs = []")
    case True
    then have Nil: "L = []" using rep_Nil_lrecs [OF L(1)] L(2) by auto
    then have "c = \<lparr>cur_leaf = 0, cur_pos = 0\<rparr>" using L(3) True by (simp add: cursor_end_def)
    moreover obtain c' where "xfs_iext_last ifp = Some c'" "cursor_end L c'" using iext_last_ok [OF L(1)] Nil by auto
    ultimately show ?thesis using cursor_end_invalid(2) [OF L(1)] by (auto simp: xfs_iext_prev_def iext_assert_def)
  next
    case False
    then show ?thesis using iext_prev_first [OF L(1)] L(3) by simp
  qed
qed

text \<open>The number of extents that start before the given end.\<close>

definition before_count :: "xfs_bmbt_irec list \<Rightarrow> u64 \<Rightarrow> nat" where
  "before_count xs endp = length (takeWhile (\<lambda>e. ext_start e < unat endp) xs)"

lemma before_count_eqI:
  assumes "n \<le> length xs" "\<And>j. j < n \<Longrightarrow> ext_start (xs ! j) < unat endp" "n < length xs \<longrightarrow> unat endp \<le> ext_start (xs ! n)"
  shows "before_count xs endp = n"
proof -
  have "takeWhile (\<lambda>e. ext_start e < unat endp) xs = take n xs"
    by (rule takeWhile_eq_take_P_nth) (use assms in auto)
  then show ?thesis using assms(1) by (simp add: before_count_def)
qed

lemma ext_end_word: "iext_set_asserts e \<Longrightarrow> unat (br_startoff e + br_blockcount e) = ext_end e"
  using ext_bounds [of e] by (simp add: ext_end_def ext_start_def unat_add_small)

lemma lookup_before_ok:
  assumes list: "iext_list ifp xs" and e: "endp \<noteq> 0" "endp - 1 < XFS_IEXT_KEY_INVALID"
  shows "\<exists>cur. if before_count xs endp = 0 then xfs_iext_lookup_extent_before ifp endp = Some (endp, cur, None)
    else xfs_iext_lookup_extent_before ifp endp =
        Some (of_nat (min (unat endp) (ext_end (xs ! (before_count xs endp - 1)))), cur, Some (xs ! (before_count xs endp - 1))) \<and>
      iext_at ifp xs cur (before_count xs endp - 1)"
proof -
  let ?i = "lookup_index xs (endp - 1)"
  have ok: "exts_ok xs" by (rule iel.rep_exts_ok [OF list])
  have u: "unat (endp - 1) = unat endp - 1" "0 < unat endp" using e(1) by (simp_all add: unat_minus_one unat_gt_0)
  obtain c where c: "xfs_iext_lookup_extent ifp (endp - 1) = Some (c, if ?i < length xs then Some (xs ! ?i) else None)"
    "iext_at ifp xs c ?i" using iel.lookup_at [OF list e(2)] by blast
  have bef: "ext_start (xs ! j) < unat endp" if "j < ?i" for j
    using lookup_index_before [OF that] exts_ok_nth_less [OF ok, of j] lookup_index_le [of xs "endp - 1"] that u by simp
  show ?thesis
  proof (cases "?i < length xs \<and> ext_start (xs ! ?i) \<le> unat (endp - 1)")
    case True
    have gt: "unat (endp - 1) < ext_end (xs ! ?i)" using True lookup_index_at by blast
    have n: "before_count xs endp = ?i + 1"
    proof (rule before_count_eqI)
      show "ext_start (xs ! j) < unat endp" if "j < ?i + 1" for j using that bef [of j] True u by (cases "j = ?i") auto
      show "?i + 1 < length xs \<longrightarrow> unat endp \<le> ext_start (xs ! (?i + 1))"
        using exts_ok_nth [OF ok, of ?i "?i + 1"] gt u by auto
    qed (use True in simp)
    have "br_startoff (xs ! ?i) \<le> endp - 1" using True by (simp add: word_le_nat_alt ext_start_def)
    then have "xfs_iext_lookup_extent_before ifp endp = Some (endp, c, Some (xs ! ?i))"
      using c(1) True by (simp add: xfs_iext_lookup_extent_before_def)
    moreover have "min (unat endp) (ext_end (xs ! ?i)) = unat endp" using gt u by simp
    ultimately show ?thesis using n c(2) by (intro exI [of _ c]) simp
  next
    case False
    have n: "before_count xs endp = ?i"
      by (rule before_count_eqI) (use lookup_index_le bef False u in auto)
    have "\<not> (case (if ?i < length xs then Some (xs ! ?i) else None) of Some g \<Rightarrow> br_startoff g \<le> endp - 1 | None \<Rightarrow> False)"
      using False by (auto simp: word_le_nat_alt ext_start_def)
    then have step: "xfs_iext_lookup_extent_before ifp endp = do {
        (cur, got) \<leftarrow> xfs_iext_prev_extent ifp c;
        case got of None \<Rightarrow> Some (endp, cur, None) | Some g \<Rightarrow> Some (br_startoff g + br_blockcount g, cur, Some g) }"
      using c(1) by (simp add: xfs_iext_lookup_extent_before_def del: if_split_asm)
    show ?thesis
    proof (cases "?i = 0")
      case True
      then obtain c' where "xfs_iext_prev ifp c = Some c'" "xfs_iext_get_extent ifp c' = Some None"
        using list_prev_front [of ifp xs c] c(2) by auto
      then show ?thesis using step n True by (intro exI [of _ c']) (simp add: xfs_iext_prev_extent_def)
    next
      case i: False
      then obtain c' where c': "xfs_iext_prev ifp c = Some c'" "iext_at ifp xs c' (?i - 1)" using list_prev_at [OF c(2)] by blast
      let ?g = "xs ! (?i - 1)"
      have lt: "?i - 1 < ?i" "?i - 1 < length xs" using i lookup_index_le [of xs "endp - 1"] by auto
      have g: "xfs_iext_get_extent ifp c' = Some (Some ?g)" using iel.get_at [OF c'(2)] lt(2) by simp
      have "ext_end ?g \<le> unat (endp - 1)" by (rule lookup_index_before [OF lt(1)])
      then have "min (unat endp) (ext_end ?g) = ext_end ?g" using u by simp
      moreover have "iext_set_asserts ?g" using exts_ok_elem [OF ok, of ?g] lt(2) by simp
      then have "br_startoff ?g + br_blockcount ?g = of_nat (ext_end ?g)"
        by (simp flip: ext_end_word)
      ultimately show ?thesis using step n i g c' by (intro exI [of _ c']) (simp add: xfs_iext_prev_extent_def)
    qed
  qed
qed

section \<open>The last extent of a tall tree\<close>

text \<open>With one entry below, every level is a single node of one entry.\<close>

lemma single_level:
  assumes "uppers m root [(k, p)] (u # us)"
  obtains a where "u = [(a, [(k, p)])]"
proof -
  have ne: "\<forall>x \<in> set u. snd x \<noteq> []" and cat: "concat (map snd u) = [(k, p)]" using assms by (auto simp: unode_ok_def)
  then obtain x u' where u: "u = x # u'" by (cases u) auto
  then have "snd x = [(k, p)]" "concat (map snd u') = []" using ne cat by (auto simp: append_eq_Cons_conv)
  then have "u' = []" using ne u by (cases u') auto
  then show thesis using that [of "fst x"] u \<open>snd x = [(k, p)]\<close> by (cases x) simp
qed

lemma single_entry_removed:
  assumes "uppers (if_mem ifp) (if_data ifp) [(k, p)] (u # us)" "ents_ok [(k, p)]" "u = [(a, [(k, p)])]"
    "if_height ifp = length (u # us) + b" "distinct (uaddrs (u # us))" "p \<notin> set (uaddrs (u # us))" "if_mem ifp p \<noteq> None"
  obtains ifp1 us1 off where "remove_node_entry ifp a 0 p (b + 1) = Some (ifp1, 0, off)" "entry_removed ifp u us p ifp1 us1"
    "uppers (if_mem ifp1) (if_data ifp1) [(off, a)] us1" "ents_ok [(off, a)]" "if_mem ifp1 a = Some (Node (node_of []))"
  by (rule remove_entry_state [of ifp "[(k, p)]" u us "[]" a "[]" k p "[]" "[]" b]) (use assms that in auto)

text \<open>Every node on the way up loses its only entry and is freed; the root stays, without entries.\<close>

lemma remove_again_all:
  assumes "uppers (if_mem ifp) (if_data ifp) [(k, p)] (u # us)" "ents_ok [(k, p)]" "u = [(a, [(k, p)])]"
    "if_height ifp = length (u # us) + b" "distinct (uaddrs (u # us))" "p \<notin> set (uaddrs (u # us))" "if_mem ifp p \<noteq> None"
  shows "\<exists>ifp'. remove_node_again ifp a 0 p (b + 1) = Some ifp' \<and> same_fork ifp ifp' \<and>
    if_mem ifp' (if_data ifp') = Some (Node (node_of [])) \<and> (\<forall>x. x \<notin> set (uaddrs (u # us)) \<longrightarrow> x \<noteq> p \<longrightarrow> if_mem ifp' x = if_mem ifp x)"
  using assms
proof (induction "length us" arbitrary: us ifp k p u a b)
  case 0
  then have nil: "us = []" by simp
  note prems = "0.prems" [unfolded nil]
  obtain ifp1 us1 off where rm: "remove_node_entry ifp a 0 p (b + 1) = Some (ifp1, 0, off)"
    and er: "entry_removed ifp u [] p ifp1 us1" and a1: "if_mem ifp1 a = Some (Node (node_of []))"
    by (rule single_entry_removed [OF prems]) blast
  have root: "a = if_data ifp" "a \<noteq> 0" using prems(1,3) by (auto simp: ukey_def unode_ok_def)
  have "remove_node_again ifp a 0 p (b + 1) = Some ifp1"
    using remove_again_root [OF rm, of "[]"] a1 root er prems(3,4) by (auto simp: entry_removed_def same_fork_def)
  then show ?case unfolding nil using er a1 root(1) by (auto simp: entry_removed_def same_fork_def)
next
  case (Suc n)
  obtain w ws where us: "us = w # ws" using Suc.hyps(2) by (cases us) auto
  note prems = Suc.prems [unfolded us]
  obtain ifp1 us1 off where rm: "remove_node_entry ifp a 0 p (b + 1) = Some (ifp1, 0, off)"
    and er: "entry_removed ifp u (w # ws) p ifp1 us1" and a1: "if_mem ifp1 a = Some (Node (node_of []))"
    and up1: "uppers (if_mem ifp1) (if_data ifp1) [(off, a)] us1" and ok1: "ents_ok [(off, a)]"
    by (rule single_entry_removed [OF prems]) blast
  have ua: "uaddrs us1 = uaddrs (w # ws)" "length us1 = length (w # ws)" by (rule entry_removed_uaddrs [OF er])+
  then obtain w1 ws1 where us1: "us1 = w1 # ws1" "length ws1 = length ws" by (cases us1) auto
  obtain pa where w1: "w1 = [(pa, [(off, a)])]" using single_level up1 us1(1) by blast
  have a0: "a \<noteq> 0" using ok1 by (simp add: ents_ok_def)
  have h1: "if_height ifp1 = length (w1 # ws1) + (b + 1)" using er prems(4) us1(2) by (simp add: entry_removed_def same_fork_def)
  have step: "remove_node_again ifp a 0 p (b + 1) = remove_node_again ifp1 pa 0 a (b + 1 + 1)"
    using remove_again_step [OF rm _ _ ok1 _ h1, of "[]" pa "[]" "[]" "[]"] up1 us1(1) w1 a0 by (simp add: rebalance_empty)
  have dist: "distinct (uaddrs (w1 # ws1))" "a \<notin> set (uaddrs (w1 # ws1))" using prems(3,5) ua(1) us1(1) by auto
  have up2: "uppers (if_mem ifp1) (if_data ifp1) [(off, a)] (w1 # ws1)" using up1 us1(1) by simp
  have n: "n = length ws1" using Suc.hyps(2) us us1(2) by simp
  obtain ifp' where "remove_node_again ifp1 pa 0 a (b + 1 + 1) = Some ifp'" "same_fork ifp1 ifp'"
    "if_mem ifp' (if_data ifp') = Some (Node (node_of []))"
    "\<forall>x. x \<notin> set (uaddrs (w # ws)) \<longrightarrow> x \<noteq> a \<longrightarrow> if_mem ifp' x = if_mem ifp1 x"
    using Suc.hyps(1) [OF n up2 ok1 w1 h1 dist] a1 unfolding us1(1) [symmetric] ua(1) by auto
  then show ?case unfolding us using step er prems(3) by (auto simp: entry_removed_def same_fork_def)
qed

lemma uppers_nonzero: "uppers m root ents us \<Longrightarrow> 0 \<notin> set (uaddrs us)"
  by (induction us arbitrary: ents) (auto simp: unode_ok_def)

lemma remove_last_tall:
  assumes rep: "iext_rep ifp [(a, [r])] us" and us: "us \<noteq> []"
  obtains ifp' where "xfs_iext_remove ifp \<lparr>cur_leaf = a, cur_pos = 0\<rparr> = Some (ifp', \<lparr>cur_leaf = 0, cur_pos = 0\<rparr>)"
    "if_bytes ifp' = 0" "if_height ifp' = if_height ifp" "if_data ifp' \<noteq> 0"
    "if_mem ifp' (if_data ifp') = Some (Node (node_of []))" "if_mem ifp' 0 = None"
proof -
  let ?s = "xfs_iext_inc_seq ifp"
  obtain b n where b: "if_mem ifp a = Some b" "block_recs b = Some (pad n iext_rec_zero [r])" "length [r] \<le> n"
    and rm: "xfs_iext_remove ifp \<lparr>cur_leaf = a, cur_pos = 0\<rparr> =
      do {
        (ifp, cur, offset) \<leftarrow> remove_move_cursor (rec_removed ?s a b n []) \<lparr>cur_leaf = a, cur_pos = 0\<rparr> a (rec_key r) 0;
        remove_rebalance ifp cur a offset 0
      }"
    using remove_take_out [OF rep, of "[]" a "[r]" "[]" 0] by auto
  have d: "distinct (a # uaddrs us)" and h: "if_height ifp = length us + 1" and ok: "leaf_ok (if_mem ifp) 0 (a, [r]) 0"
    and by16: "if_bytes ifp = 16" and dom: "if_mem ifp 0 \<noteq> None \<longleftrightarrow> 0 \<in> set (a # uaddrs us)"
    using rep us by (auto simp: iext_rep_def leaves_ok_def)
  have bl: "b = Leaf (leaf_of [r] 0 0)" "a \<noteq> 0" using ok b(1) by (auto simp: leaf_ok_def)
  then have n: "n = 15" using b(2,3) pad_same_length [of 15 iext_rec_zero "[r]" n] by (simp add: block_recs_def)
  let ?f = "rec_removed ?s a b n []"
  have fm: "if_mem ?f = (if_mem ifp)(a \<mapsto> Leaf (leaf_of [] 0 0))"
    by (simp add: rec_removed_def bl n leaf_of_set xfs_iext_inc_seq_def)
  have ff: "if_height ?f = if_height ifp" "if_data ?f = if_data ifp" "if_bytes ?f = if_bytes ifp - 16"
    by (simp_all add: rec_removed_def xfs_iext_inc_seq_def)
  have keys: "map lkey [(a, [r])] = [(rec_key r, a)]" by (simp add: lkey_def)
  have eok: "ents_ok [(rec_key r, a)]" using rep_lkeys_ok [OF rep] unfolding keys .
  have up: "uppers (if_mem ?f) (if_data ?f) [(rec_key r, a)] us"
    unfolding ff fm by (rule uppers_frame [OF rep_uppers [OF rep, unfolded keys]]) (use d in auto)
  have root: "if_data ifp \<noteq> 0" using root_nonzero [OF up eok] ff(2) by simp
  obtain u us0 where us0: "us = u # us0" using us by (cases us) auto
  obtain nd where u: "u = [(nd, [(rec_key r, a)])]" using single_level up us0 by blast
  have nd: "unode_ok (if_mem ?f) (nd, [(rec_key r, a)])" using up us0 u by simp
  have lt: "rec_key r < XFS_IEXT_KEY_INVALID" using eok by (simp add: ents_ok_def)
  have find: "xfs_iext_find_level ?f (rec_key r) (1 + 1) = Some nd"
    by (rule find_parent [of ?f "[(rec_key r, a)]" u us0 "[]" nd "[]" "rec_key r" a "[]" "[]"])
       (use up us0 u h ff eok lt in auto)
  have pos: "xfs_iext_node_pos (node_of [(rec_key r, a)]) (rec_key r) = Some 0"
    using node_search [of "[]" "rec_key r" a "[]" "rec_key r"] eok lt by (auto simp: xfs_iext_node_pos_def seek_def)
  obtain ifp' where r: "remove_node_again ?f nd 0 a (1 + 1) = Some ifp'" "same_fork ?f ifp'"
    "if_mem ifp' (if_data ifp') = Some (Node (node_of []))"
    "\<forall>x. x \<notin> set (uaddrs (u # us0)) \<longrightarrow> x \<noteq> a \<longrightarrow> if_mem ifp' x = if_mem ?f x"
    using remove_again_all [OF up [unfolded us0] eok u, of 1] us0 h ff d fm by auto
  have "get_leaf ?f a = Some (leaf_of [] 0 0)" by (rule get_leaf_eq) (simp add: fm)
  moreover have "get_node ?f nd = Some (node_of [(rec_key r, a)])" using nd by (simp add: unode_ok_def get_node_eq)
  ultimately have "rebalance_remove_node ?f (rec_key r) a = Some ifp'"
    using find pos r(1) h ff(1) us0
    by (simp add: rebalance_remove_node_def xfs_iext_remove_node_def iext_assert_def numeral_2_eq_2)
  then have "xfs_iext_remove ifp \<lparr>cur_leaf = a, cur_pos = 0\<rparr> = Some (ifp', \<lparr>cur_leaf = 0, cur_pos = 0\<rparr>)"
    using rm \<open>get_leaf ?f a = _\<close> h ff(1) us
    by (simp add: remove_move_cursor_def remove_rebalance_def xfs_iext_rebalance_leaf_def)
  moreover have "0 \<notin> set (uaddrs us)" using uppers_nonzero up by blast
  then have "if_mem ifp' 0 = None" using r(4) us0 bl(2) dom by (simp add: fm)
  ultimately show thesis using that r(2,3) ff by16 root by (simp add: same_fork_def)
qed


lemma key_cmp_loop_returns:
  assumes "i \<le> 16" "length es \<le> 16"
  shows "\<exists>j. key_cmp_loop (node_of es) off i = Some j \<and> i \<le> j \<and> j \<le> 16"
  using assms(1)
proof (induction "16 - i" arbitrary: i)
  case 0
  then show ?case by (subst key_cmp_loop.simps) auto
next
  case (Suc n)
  obtain j where j: "key_cmp_loop (node_of es) off (i + 1) = Some j" "i + 1 \<le> j" "j \<le> 16"
  proof -
    have "n = 16 - (i + 1)" "i + 1 \<le> 16" using Suc.hyps(2) by linarith+
    then show thesis using that Suc.hyps(1) by blast
  qed
  obtain k where "aget (n_keys (node_of es)) i = Some k" using Suc.hyps(2) assms(2) by (simp add: node_of_def aget_pad)
  then show ?case using j Suc.hyps(2) by (subst key_cmp_loop.simps) (auto simp: xfs_iext_key_cmp_def)
qed

text \<open>A search in a root without entries ends at the null pointer, and so does an insertion there.\<close>

lemma empty_root:
  assumes "1 < if_height ifp" "if_mem ifp (if_data ifp) = Some (Node (node_of []))" "if_mem ifp 0 = None"
  shows "xfs_iext_lookup_extent ifp off = Some (\<lparr>cur_leaf = 0, cur_pos = 0\<rparr>, None)"
    "xfs_iext_leaf_nr_entries ifp 0 0 = None"
    "xfs_iext_insert_raw ifp \<lparr>cur_leaf = 0, cur_pos = 0\<rparr> irec = None"
proof -
  obtain h where h: "if_height ifp = Suc (Suc h)" using assms(1) by (metis One_nat_def less_imp_Suc_add add_Suc plus_1_eq_Suc)
  obtain i where i: "key_cmp_loop (node_of []) off 1 = Some i" "0 < i" "i \<le> 16"
    using key_cmp_loop_returns [of 1 "[]" off] by auto
  then have "aget (n_ptrs (node_of [])) (i - 1) = Some 0" by (simp add: node_of_Nil aget_def)
  then have "xfs_iext_find_level ifp off 1 = Some 0"
    using h i assms(2) by (simp add: xfs_iext_find_level_def get_node_eq)
  then show "xfs_iext_lookup_extent ifp off = Some (\<lparr>cur_leaf = 0, cur_pos = 0\<rparr>, None)" by (simp add: xfs_iext_lookup_extent_def)
  have nr: "xfs_iext_leaf_nr_entries f 0 0 = None" if "if_mem f 0 = None" "if_height f = if_height ifp" for f
    using that h by (simp add: xfs_iext_leaf_nr_entries_def leaf_nr_loop.simps [of f 0 0] xfs_iext_max_recs_def get_rec_def get_recs_def)
  then show "xfs_iext_leaf_nr_entries ifp 0 0 = None" using assms(3) by simp
  show "xfs_iext_insert_raw ifp \<lparr>cur_leaf = 0, cur_pos = 0\<rparr> irec = None"
    using nr [of "xfs_iext_inc_seq ifp"] assms(3) h by (simp add: xfs_iext_insert_raw_def insert_at_cursor_def xfs_iext_inc_seq_def Let_def)
qed

section \<open>An example\<close>

definition ext_example :: "u64 \<Rightarrow> xfs_bmbt_irec" where
  "ext_example off = \<lparr>br_startoff = off, br_startblock = 16 + off, br_blockcount = 1, br_state = XFS_EXT_NORM\<rparr>"

text \<open>A tree of three levels with two leaves of one record each.\<close>

definition fork_thin :: xfs_ifork where
  "fork_thin =
     \<lparr>if_bytes = 32, if_seq = 0, if_height = 3, if_data = 5,
      if_mem = Map.empty(
        1 \<mapsto> Leaf (leaf_of [iext_pack (ext_example 0)] 0 2),
        2 \<mapsto> Leaf (leaf_of [iext_pack (ext_example 8)] 1 0),
        3 \<mapsto> Node (node_of [(0, 1)]),
        4 \<mapsto> Node (node_of [(8, 2)]),
        5 \<mapsto> Node (node_of [(0, 3), (8, 4)])),
      if_brk = 6\<rparr>"

lemma ext_example_asserts:
  "iext_set_asserts (ext_example 0)" "iext_set_asserts (ext_example 4)" "iext_set_asserts (ext_example 8)"
  by code_simp+

lemma ext_example_range:
  "unat off < 2 ^ 63 \<Longrightarrow> ext_start (ext_example off) = unat off" "unat off < 2 ^ 63 \<Longrightarrow> ext_end (ext_example off) = unat off + 1"
  "br_blockcount (ext_example off) \<noteq> 0" "br_startoff (ext_example off) = off"
  by (simp_all add: ext_example_def ext_start_def ext_end_def)

lemma example_exts_ok:
  "exts_ok [ext_example 0, ext_example 8]" "exts_ok [ext_example 0, ext_example 4, ext_example 8]"
  by (simp_all add: exts_ok_Cons ext_example_asserts ext_example_range)

abbreviation thin_leaves :: "lnode list" where
  "thin_leaves \<equiv> [(1, [iext_pack (ext_example 0)]), (2, [iext_pack (ext_example 8)])]"

lemma fork_thin_rep:
  "iext_rep fork_thin thin_leaves [[(3, [(0, 1)]), (4, [(8, 2)])], [(5, [(0, 3), (8, 4)])]]"
proof -
  have "rec_exts (lrecs thin_leaves) = [ext_example 0, ext_example 8]" by (simp add: iext_get_pack ext_example_asserts)
  then have "exts_ok (rec_exts (lrecs thin_leaves))" using example_exts_ok(1) by simp
  moreover have "map lkey thin_leaves = [(0, 1), (8, 2)]"
    by (simp add: lkey_def rec_key_def iext_get_pack ext_example_asserts ext_example_range)
  ultimately show ?thesis
    unfolding iext_rep_def leaves_ok_def
    by (auto simp: fork_thin_def leaf_ok_def unode_ok_def ukey_def)
qed

lemma fork_thin_list: "iext_list fork_thin [ext_example 0, ext_example 8]"
  unfolding iext_list_def using fork_thin_rep by (fastforce simp: iext_get_pack ext_example_asserts)

lemma fork_thin_at: "iext_at fork_thin [ext_example 0, ext_example 8] \<lparr>cur_leaf = 2, cur_pos = 0\<rparr> 1"
proof -
  have "cursor_on thin_leaves \<lparr>cur_leaf = 2, cur_pos = 0\<rparr> 1"
    by (rule cursor_onI [of _ "[(1, [iext_pack (ext_example 0)])]" 2 "[iext_pack (ext_example 8)]" "[]" 0]) auto
  then show ?thesis
    unfolding iext_at_def using fork_thin_rep by (fastforce simp: iext_get_pack ext_example_asserts)
qed

definition fork_single :: xfs_ifork where
  "fork_single =
     \<lparr>if_bytes = 16, if_seq = 0, if_height = 2, if_data = 2,
      if_mem = Map.empty(1 \<mapsto> Leaf (leaf_of [iext_pack (ext_example 0)] 0 0), 2 \<mapsto> Node (node_of [(0, 1)])), if_brk = 3\<rparr>"

lemma fork_single_at: "iext_at fork_single [ext_example 0] \<lparr>cur_leaf = 1, cur_pos = 0\<rparr> 0"
proof -
  let ?L = "[(1, [iext_pack (ext_example 0)])] :: lnode list"
  have x: "rec_exts (lrecs ?L) = [ext_example 0]" by (simp add: iext_get_pack ext_example_asserts)
  have "exts_ok [ext_example 0]" by (simp add: exts_ok_Cons ext_example_asserts ext_example_range)
  moreover have "map lkey ?L = [(0, 1)]" by (simp add: lkey_def rec_key_def iext_get_pack ext_example_asserts ext_example_range)
  ultimately have "iext_rep fork_single ?L [[(2, [(0, 1)])]]"
    unfolding iext_rep_def leaves_ok_def x by (auto simp: fork_single_def leaf_ok_def unode_ok_def ukey_def)
  moreover have "cursor_on ?L \<lparr>cur_leaf = 1, cur_pos = 0\<rparr> 0"
    by (rule cursor_onI [of _ "[]" 1 "[iext_pack (ext_example 0)]" "[]" 0]) auto
  ultimately show ?thesis unfolding iext_at_def using x by fastforce
qed

section \<open>Properties\<close>

text \<open>
  C2. Inserting an extent at a cursor inserts it into the list at the position of the cursor,
  for a tree of any height and whether or not leaves and nodes split on the way: the tree is
  well formed again, the cursor is on the new extent, and the sequence counter has moved on.
  No assertion fails and no bad pointer is followed.
\<close>

theorem iext_insert_refines:
  assumes "iext_at ifp xs cur i" and "exts_ok (take i xs @ e # drop i xs)"
  shows "\<exists>ifp' cur'. xfs_iext_insert_raw ifp cur e = Some (ifp', cur') \<and>
    iext_at ifp' (take i xs @ e # drop i xs) cur' i \<and> if_seq ifp' = if_seq ifp + 1"
  using assms by (rule list_insert_at)

theorem iext_insert_refines_witness:
  "\<exists>ifp' cur'. xfs_iext_insert_raw fork_thin \<lparr>cur_leaf = 2, cur_pos = 0\<rparr> (ext_example 4) = Some (ifp', cur') \<and>
    iext_at ifp' [ext_example 0, ext_example 4, ext_example 8] cur' 1 \<and> if_seq ifp' = 1"
  using iext_insert_refines [OF fork_thin_at, of "ext_example 4"] example_exts_ok(2) by (simp add: fork_thin_def)

text \<open>
  C3. Removing the extent under the cursor removes exactly that extent from the list, with
  every merge of leaves and nodes and every collapse of the root on the way; the cursor is on
  the next extent, or null after the last. The tree must not lose its last extent while it is
  more than one block high.
\<close>

theorem iext_remove_refines:
  assumes "iext_at ifp xs cur i" and "i < length xs" and "1 < length xs \<or> if_height ifp = 1"
  shows "\<exists>ifp' cur'. xfs_iext_remove ifp cur = Some (ifp', cur') \<and>
    iext_after ifp' (take i xs @ drop (Suc i) xs) cur' i \<and> if_seq ifp' = if_seq ifp + 1"
  using assms by (rule list_remove_at)

theorem iext_remove_refines_witness:
  "\<exists>ifp' cur'. xfs_iext_remove fork_thin \<lparr>cur_leaf = 2, cur_pos = 0\<rparr> = Some (ifp', cur') \<and>
    iext_after ifp' [ext_example 0] cur' 1 \<and> if_seq ifp' = 1"
  using iext_remove_refines [OF fork_thin_at] by (simp add: fork_thin_def)

text \<open>
  Updating the extent under the cursor replaces it in the list, also when it is the first
  of its leaf and its offset, a key of the nodes above, changes.
\<close>

theorem iext_update_refines:
  assumes "iext_at ifp xs cur i" and "i < length xs" and "exts_ok (xs[i := e])"
  shows "\<exists>ifp'. xfs_iext_update_extent ifp cur e = Some ifp' \<and> iext_at ifp' (xs[i := e]) cur i \<and>
    if_seq ifp' = if_seq ifp + 1"
  using assms by (rule list_update_at)

theorem iext_update_refines_witness:
  "\<exists>ifp'. xfs_iext_update_extent fork_thin \<lparr>cur_leaf = 2, cur_pos = 0\<rparr> (ext_example 4) = Some ifp' \<and>
    iext_at ifp' [ext_example 0, ext_example 4] \<lparr>cur_leaf = 2, cur_pos = 0\<rparr> 1 \<and> if_seq ifp' = 1"
proof -
  have "exts_ok ([ext_example 0, ext_example 8][1 := ext_example 4])"
    by (simp add: exts_ok_Cons ext_example_asserts ext_example_range)
  then show ?thesis using iext_update_refines [OF fork_thin_at] by (simp add: fork_thin_def)
qed

text \<open>
  C10. The search returns the extent that covers the offset or else the first one after it, with
  a cursor on it; past the last extent it returns nothing and a cursor where an extent can be
  appended.
\<close>

theorem iext_lookup_exact:
  assumes "iext_list ifp xs" and "off < XFS_IEXT_KEY_INVALID"
  shows "\<exists>cur. xfs_iext_lookup_extent ifp off =
      Some (cur, if lookup_index xs off < length xs then Some (xs ! lookup_index xs off) else None) \<and>
    iext_at ifp xs cur (lookup_index xs off)"
  using assms by (rule iel.lookup_at)

theorem iext_lookup_exact_witness:
  "\<exists>cur. xfs_iext_lookup_extent fork_thin 4 = Some (cur, Some (ext_example 8)) \<and>
    iext_at fork_thin [ext_example 0, ext_example 8] cur 1"
proof -
  have "lookup_index [ext_example 0, ext_example 8] 4 = 1" by (simp add: lookup_index_def ext_example_range)
  moreover have "4 < XFS_IEXT_KEY_INVALID" by (simp add: word_less_nat_alt key_invalid_nat)
  ultimately show ?thesis using iext_lookup_exact [OF fork_thin_list, of 4] by simp
qed

text \<open>
  The search before an end returns the last extent that starts before it, a cursor on it,
  and in the end pointer the end of the mapped range: the given end if the extent reaches it,
  else the end of the extent.
\<close>

theorem iext_lookup_before_last:
  assumes "iext_list ifp xs" and "endp \<noteq> 0" and "endp - 1 < XFS_IEXT_KEY_INVALID"
  shows "\<exists>cur. if before_count xs endp = 0 then xfs_iext_lookup_extent_before ifp endp = Some (endp, cur, None)
    else xfs_iext_lookup_extent_before ifp endp =
        Some (of_nat (min (unat endp) (ext_end (xs ! (before_count xs endp - 1)))), cur, Some (xs ! (before_count xs endp - 1))) \<and>
      iext_at ifp xs cur (before_count xs endp - 1)"
  using assms by (rule lookup_before_ok)

theorem iext_lookup_before_last_witness:
  "\<exists>cur. xfs_iext_lookup_extent_before fork_thin 4 = Some (1, cur, Some (ext_example 0)) \<and>
    iext_at fork_thin [ext_example 0, ext_example 8] cur 0"
proof -
  have "before_count [ext_example 0, ext_example 8] 4 = 1" by (simp add: before_count_def ext_example_range)
  moreover have "(4 :: u64) - 1 < XFS_IEXT_KEY_INVALID" by (simp add: word_less_nat_alt key_invalid_nat)
  ultimately show ?thesis
    using iext_lookup_before_last [OF fork_thin_list, of 4] by (simp add: ext_example_range)
qed

text \<open>
  C11. An extent that meets none of the mapping can be inserted where the search for its first
  block ends, and afterwards the search finds, for every offset of the new extent and of the
  old ones, the extent that covers it.
\<close>

theorem iext_add_then_lookup:
  assumes "iext_list ifp xs" and "br_blockcount e \<noteq> 0" and "iext_set_asserts e" and "\<forall>f \<in> set xs. ext_disjoint e f"
  shows "\<exists>cur got ifp' cur'. xfs_iext_lookup_extent ifp (br_startoff e) = Some (cur, got) \<and>
    xfs_iext_insert_raw ifp cur e = Some (ifp', cur') \<and>
    (\<forall>f \<in> set (e # xs). \<forall>off. ext_start f \<le> unat off \<and> unat off < ext_end f \<and> off < XFS_IEXT_KEY_INVALID \<longrightarrow>
       (\<exists>cur''. xfs_iext_lookup_extent ifp' off = Some (cur'', Some f)))"
proof -
  obtain cur got ifp' cur' where "xfs_iext_lookup_extent ifp (br_startoff e) = Some (cur, got)"
    "xfs_iext_insert_raw ifp cur e = Some (ifp', cur')"
    "iext_at ifp' (take (lookup_index xs (br_startoff e)) xs @ e # drop (lookup_index xs (br_startoff e)) xs) cur'
       (lookup_index xs (br_startoff e))"
    using iel.add_extent [OF assms] by blast
  then show ?thesis using iel.add_lookup by blast
qed

theorem iext_add_then_lookup_witness:
  "\<exists>ifp' cur'. xfs_iext_insert_raw fork_thin \<lparr>cur_leaf = 2, cur_pos = 0\<rparr> (ext_example 4) = Some (ifp', cur') \<and>
    (\<exists>cur. xfs_iext_lookup_extent ifp' 8 = Some (cur, Some (ext_example 8)))"
proof -
  let ?xs = "[ext_example 0, ext_example 8]"
  have d: "\<forall>f \<in> set ?xs. ext_disjoint (ext_example 4) f" by (simp add: ext_disjoint_def ext_example_range)
  have l: "xfs_iext_lookup_extent fork_thin 4 = Some (\<lparr>cur_leaf = 2, cur_pos = 0\<rparr>, Some (ext_example 8))" by code_simp
  obtain cur got ifp' cur' where r: "xfs_iext_lookup_extent fork_thin (br_startoff (ext_example 4)) = Some (cur, got)"
    "xfs_iext_insert_raw fork_thin cur (ext_example 4) = Some (ifp', cur')"
    "\<forall>f \<in> set (ext_example 4 # ?xs). \<forall>off. ext_start f \<le> unat off \<and> unat off < ext_end f \<and> off < XFS_IEXT_KEY_INVALID \<longrightarrow>
       (\<exists>cur''. xfs_iext_lookup_extent ifp' off = Some (cur'', Some f))"
    using iext_add_then_lookup [OF fork_thin_list ext_example_range(3) ext_example_asserts(2) d] by blast
  moreover have "8 < XFS_IEXT_KEY_INVALID" by (simp add: word_less_nat_alt key_invalid_nat)
  ultimately show ?thesis using l by (auto simp: ext_example_range)
qed

text \<open>
  C33. Destroying the tree frees every block of it exactly once: no block is freed twice, none
  is left, and the fork stands for no extents.
\<close>

theorem iext_destroy_frees_all:
  assumes "iext_list ifp xs"
  shows "\<exists>ifp'. xfs_iext_destroy ifp = Some ifp' \<and> iext_list ifp' [] \<and> (\<forall>a. if_mem ifp' a = None)"
  using assms by (rule list_destroy)

theorem iext_destroy_frees_all_witness:
  "\<exists>ifp'. xfs_iext_destroy fork_thin = Some ifp' \<and> iext_list ifp' [] \<and> (\<forall>a. if_mem ifp' a = None)"
  using iext_destroy_frees_all [OF fork_thin_list] .

text \<open>
  C32. Removing the only extent of a tree of more than one level does not give an empty fork: for
  every such tree the removal returns with the byte count at zero but the height unchanged, the
  root a node without entries. Every lookup then returns the null cursor, which names the place
  for a new extent, and every insertion at it reads the records of the null leaf. (A tree of one
  extent and several levels comes about because \<^verbatim>\<open>xfs_iext_remove_node\<close> takes away one level at a time.)
\<close>

theorem iext_remove_last_leaves_root:
  assumes "iext_at ifp [e] cur 0" and "1 < if_height ifp"
  shows "\<exists>ifp'. xfs_iext_remove ifp cur = Some (ifp', \<lparr>cur_leaf = 0, cur_pos = 0\<rparr>) \<and>
    if_bytes ifp' = 0 \<and> if_height ifp' = if_height ifp \<and> if_mem ifp' (if_data ifp') = Some (Node (node_of [])) \<and>
    (\<forall>off. xfs_iext_lookup_extent ifp' off = Some (\<lparr>cur_leaf = 0, cur_pos = 0\<rparr>, None)) \<and>
    get_recs ifp' 0 = None \<and> (\<forall>irec. xfs_iext_insert_raw ifp' \<lparr>cur_leaf = 0, cur_pos = 0\<rparr> irec = None)"
proof -
  obtain L us where L: "iext_rep ifp L us" "rec_exts (lrecs L) = [e]" "cursor_on L cur 0"
    using assms(1) by (auto simp: iext_at_def)
  obtain A a rs C p where c: "L = A @ (a, rs) # C" "p < length rs" "cur = \<lparr>cur_leaf = a, cur_pos = int p\<rparr>"
    "0 = length (lrecs A) + p" using L(3) by (auto simp: cursor_on_def)
  have len: "length (lrecs L) = 1" using L(2) by (metis length_map One_nat_def length_Cons list.size(3))
  then have one: "length rs = 1" "lrecs A = []" "lrecs C = []" using c by (auto simp flip: length_0_conv)
  have ne: "snd x \<noteq> []" if "x \<in> set A \<union> set C" for x using rep_nodes [OF L(1), of x] c(1) that by auto
  have "A = []" using one(2) ne by (cases A) auto
  moreover have "C = []" using one(3) ne by (cases C) auto
  moreover obtain r where "rs = [r]" using one(1) by (cases rs) auto
  ultimately have rep: "iext_rep ifp [(a, [r])] us" and cur: "cur = \<lparr>cur_leaf = a, cur_pos = 0\<rparr>" using L(1) c by auto
  have us: "us \<noteq> []" using rep assms(2) by (auto simp: iext_rep_def)
  obtain ifp' where r: "xfs_iext_remove ifp cur = Some (ifp', \<lparr>cur_leaf = 0, cur_pos = 0\<rparr>)"
    "if_bytes ifp' = 0" "if_height ifp' = if_height ifp" "if_data ifp' \<noteq> 0"
    "if_mem ifp' (if_data ifp') = Some (Node (node_of []))" "if_mem ifp' 0 = None"
    unfolding cur by (rule remove_last_tall [OF rep us])
  then show ?thesis using empty_root(1,3) [of ifp'] assms(2) by (auto simp: get_recs_def)
qed

theorem iext_remove_last_leaves_root_witness:
  "\<exists>ifp'. xfs_iext_remove fork_single \<lparr>cur_leaf = 1, cur_pos = 0\<rparr> = Some (ifp', \<lparr>cur_leaf = 0, cur_pos = 0\<rparr>) \<and>
     if_bytes ifp' = 0 \<and> if_height ifp' = 2 \<and> xfs_iext_insert_raw ifp' \<lparr>cur_leaf = 0, cur_pos = 0\<rparr> (ext_example 4) = None"
  using iext_remove_last_leaves_root [OF fork_single_at] by (auto simp: fork_single_def)

text \<open>
  Such a tree in the making: of three levels, the root with two children and each of these with one.
  Removing the second extent takes away one level only, since the new root has a single child as
  well, and removing the first then leaves the root without children.
\<close>

lemma iext_remove_thin_tree:
  "do {
     (ifp, cur) \<leftarrow> xfs_iext_remove fork_thin \<lparr>cur_leaf = 2, cur_pos = 0\<rparr>;
     cur \<leftarrow> xfs_iext_first ifp;
     (ifp, cur) \<leftarrow> xfs_iext_remove ifp cur;
     (cur, got) \<leftarrow> xfs_iext_lookup_extent ifp 4;
     Some (if_bytes ifp, if_height ifp, cur, got)
   } = Some (0, 2, \<lparr>cur_leaf = 0, cur_pos = 0\<rparr>, None)"
  by code_simp

end
