(* ===== verification/Iext_Fork.thy ===== *)
theory Iext_Fork
  imports Inode_Correct Iext_Correct
begin

text \<open>
  Loading the extents of an inode fork into the in-core tree and writing them back, from
  \<^verbatim>\<open>libxfs/xfs_inode_fork.c\<close>, with the extent validation of \<^verbatim>\<open>libxfs/xfs_bmap.c\<close>. The on-disk fork is
  the literal area of the inode; the records are those of the block map btree. The fork
  operations work on the tree through its list interface.
\<close>

section \<open>Validating an extent\<close>

text \<open>The failing check is given by its line in \<^verbatim>\<open>xfs_bmap.c\<close>.\<close>

definition xfs_bmap_validate_extent_raw :: "ino_mount \<Rightarrow> bool \<Rightarrow> whichfork \<Rightarrow> xfs_bmbt_irec \<Rightarrow> xfs_failaddr_t" where
  "xfs_bmap_validate_extent_raw m rtfile w irec =
     first_fail
       [fail_when (\<not> xfs_verify_fileext (br_startoff irec) (br_blockcount irec)) 6088,
        (if rtfile \<and> w = XFS_DATA_FORK
         then fail_when (\<not> xfs_verify_rtbext (m_fs m) (br_startblock irec) (br_blockcount irec)) 6093
         else fail_when (\<not> xfs_verify_fsbext (m_fs m) (br_startblock irec) (br_blockcount irec)) 6097),
        fail_when (br_state irec \<noteq> XFS_EXT_NORM \<and> w \<noteq> XFS_DATA_FORK) 6100]"

definition XFS_IS_REALTIME_INODE :: "xfs_inode \<Rightarrow> bool" where
  "XFS_IS_REALTIME_INODE ip \<longleftrightarrow> i_diflags ip AND XFS_DIFLAG_REALTIME \<noteq> 0"

definition xfs_bmap_validate_extent :: "ino_mount \<Rightarrow> xfs_inode \<Rightarrow> whichfork \<Rightarrow> xfs_bmbt_irec \<Rightarrow> xfs_failaddr_t" where
  "xfs_bmap_validate_extent m ip w irec = xfs_bmap_validate_extent_raw m (XFS_IS_REALTIME_INODE ip) w irec"

section \<open>Loading a fork in extent format\<close>

text \<open>\<^verbatim>\<open>XFS_DFORK_PTR\<close>: the bytes of the inode from the start of the fork on.\<close>

definition XFS_DFORK_PTR :: "xfs_dinode \<Rightarrow> whichfork \<Rightarrow> u8 list" where
  "XFS_DFORK_PTR dip w = (if w = XFS_DATA_FORK then di_literal dip else drop (unat (XFS_DFORK_BOFF dip)) (di_literal dip))"

text \<open>The cast of these bytes to an array of records.\<close>

function bmbt_recs_at :: "u8 list \<Rightarrow> xfs_bmbt_rec list" where
  "bmbt_recs_at bs =
     (if length bs < 16 then []
      else \<lparr>l0 = native_word64 (take 8 bs), l1 = native_word64 (take 8 (drop 8 bs))\<rparr> # bmbt_recs_at (drop 16 bs))"
  by pat_completeness auto
termination by (relation "measure length") auto

declare bmbt_recs_at.simps [simp del]

text \<open>
  The record loop, over the given number of records from index \<open>i\<close>. A read past the bytes of
  the inode is \<open>None\<close>; an invalid record ends the loop with an error and leaves the records
  before it in the tree.
\<close>

fun iformat_extents_loop ::
    "ino_mount \<Rightarrow> xfs_inode \<Rightarrow> whichfork \<Rightarrow> xfs_bmbt_rec list \<Rightarrow> nat \<Rightarrow> nat \<Rightarrow> Iext_Tree.xfs_ifork \<Rightarrow> xfs_iext_cursor \<Rightarrow>
     (Iext_Tree.xfs_ifork \<times> errno option) option" where
  "iformat_extents_loop m ip w dp i 0 ifp icur = Some (ifp, None)"
| "iformat_extents_loop m ip w dp i (Suc n) ifp icur = do {
     d \<leftarrow> aget dp i;
     let new = xfs_bmbt_disk_get_all d;
     if xfs_bmap_validate_extent m ip w new \<noteq> None then Some (ifp, Some EFSCORRUPTED)
     else do {
       (ifp, icur) \<leftarrow> xfs_iext_insert_raw ifp icur new;
       icur \<leftarrow> xfs_iext_next ifp icur;
       iformat_extents_loop m ip w dp (i + 1) n ifp icur
     }
   }"

text \<open>\<^verbatim>\<open>int size = nex * sizeof(xfs_bmbt_rec_t)\<close>, computed in 64 bits and cut to a signed 32-bit integer.\<close>

definition iformat_extents_size :: "u64 \<Rightarrow> int" where
  "iformat_extents_size nex = sint (ucast (nex * 16) :: u32)"

definition xfs_iformat_extents ::
    "ino_mount \<Rightarrow> xfs_inode \<Rightarrow> xfs_dinode \<Rightarrow> whichfork \<Rightarrow> Iext_Tree.xfs_ifork \<Rightarrow> (Iext_Tree.xfs_ifork \<times> errno option) option" where
  "xfs_iformat_extents m ip dip w ifp =
     (let nex = xfs_dfork_nextents dip w;
          size = iformat_extents_size nex
      in if size < 0 \<or> size > int (unat (XFS_DFORK_SIZE dip m w)) then Some (ifp, Some EFSCORRUPTED)
         else let ifp = ifp\<lparr>if_bytes := 0, if_data := 0, if_height := 0\<rparr>
              in if size \<noteq> 0 then do {
                   icur \<leftarrow> xfs_iext_first ifp;
                   iformat_extents_loop m ip w (bmbt_recs_at (XFS_DFORK_PTR dip w)) 0 (unat nex) ifp icur
                 }
                 else Some (ifp, None))"

section \<open>Writing the extents back\<close>

text \<open>
  The \<^verbatim>\<open>for_each_xfs_iext\<close> loop of \<^verbatim>\<open>xfs_iextents_copy\<close>: the destination, the index of \<^verbatim>\<open>dp\<close> in it and
  the number of bytes copied.
\<close>

partial_function (option) iextents_copy_loop ::
    "ino_mount \<Rightarrow> xfs_inode \<Rightarrow> whichfork \<Rightarrow> Iext_Tree.xfs_ifork \<Rightarrow> xfs_iext_cursor \<Rightarrow> xfs_bmbt_rec list \<Rightarrow> nat \<Rightarrow> int \<Rightarrow>
     (xfs_bmbt_rec list \<times> int) option" where
  "iextents_copy_loop m ip w ifp icur dp i copied = do {
     got \<leftarrow> xfs_iext_get_extent ifp icur;
     case got of
       None \<Rightarrow> Some (dp, copied)
     | Some rec \<Rightarrow> do {
         (dp, i, copied) \<leftarrow>
           (if isnullstartblock (br_startblock rec) then Some (dp, i, copied)
            else do {
              iext_assert (xfs_bmap_validate_extent m ip w rec = None);
              iext_assert (bmbt_irec_fits rec);
              old \<leftarrow> aget dp i;
              dp \<leftarrow> aset dp i (xfs_bmbt_disk_set_all old rec);
              Some (dp, i + 1, copied + 16)
            });
         icur \<leftarrow> xfs_iext_next ifp icur;
         iextents_copy_loop m ip w ifp icur dp i copied
       }
   }"

declare iextents_copy_loop.simps [code]

definition xfs_iextents_copy ::
    "ino_mount \<Rightarrow> xfs_inode \<Rightarrow> whichfork \<Rightarrow> Iext_Tree.xfs_ifork \<Rightarrow> xfs_bmbt_rec list \<Rightarrow> (xfs_bmbt_rec list \<times> int) option" where
  "xfs_iextents_copy m ip w ifp dp = do {
     iext_assert (if_bytes ifp > 0);
     icur \<leftarrow> xfs_iext_first ifp;
     (dp, copied) \<leftarrow> iextents_copy_loop m ip w ifp icur dp 0 0;
     iext_assert (copied > 0);
     iext_assert (copied \<le> if_bytes ifp);
     Some (dp, copied)
   }"

section \<open>Records of a file mapping\<close>

lemma verify_fileext_nonempty: "xfs_verify_fileext off len \<Longrightarrow> len \<noteq> 0"
  by (auto simp: xfs_verify_fileext_def split: if_splits)

lemma validate_extent_nonempty: "xfs_bmap_validate_extent m ip w e = None \<Longrightarrow> br_blockcount e \<noteq> 0"
  by (auto simp: xfs_bmap_validate_extent_def xfs_bmap_validate_extent_raw_def fail_when_def dest: verify_fileext_nonempty
      split: if_splits)

lemma fits_asserts: "bmbt_irec_fits e \<longleftrightarrow> iext_set_asserts e"
  by (simp add: bmbt_irec_fits_bits iext_set_asserts_bits)

abbreviation disk_exts :: "xfs_bmbt_rec list \<Rightarrow> xfs_bmbt_irec list" where
  "disk_exts ds \<equiv> map xfs_bmbt_disk_get_all ds"

lemma disk_inorder:
  "xfs_bmbt_recs_inorder r s \<longleftrightarrow> ext_end (xfs_bmbt_disk_get_all r) \<le> ext_start (xfs_bmbt_disk_get_all s)"
  unfolding xfs_bmbt_recs_inorder_def word_le_nat_alt unat_rec_end
  by (simp add: ext_end_def ext_start_def get_startoff_all get_blockcount_all)

lemma disk_exts_ok:
  assumes "\<forall>d \<in> set ds. xfs_bmap_validate_extent m ip w (xfs_bmbt_disk_get_all d) = None" "sorted_wrt xfs_bmbt_recs_inorder ds"
  shows "exts_ok (disk_exts ds)"
proof -
  have "br_blockcount e \<noteq> 0 \<and> iext_set_asserts e" if "e \<in> set (disk_exts ds)" for e
    using that assms(1) validate_extent_nonempty bmbt_to_from fits_asserts by auto
  moreover have "sorted_wrt (\<lambda>e f. ext_end e \<le> ext_start f) (disk_exts ds)"
    unfolding sorted_wrt_map using assms(2) by (simp add: disk_inorder [abs_def])
  ultimately show ?thesis by (simp add: exts_ok_def)
qed

lemma set_all_indep: "xfs_bmbt_disk_set_all r e = xfs_bmbt_disk_set_all s e"
  by (cases r; cases s) (simp add: xfs_bmbt_disk_set_all_def put_field_be64_swab)

section \<open>Loading\<close>

lemma iformat_extents_loop_ok:
  assumes "iext_at ifp xs icur (length xs)" "i + n \<le> length dp"
    and "ds = takeWhile (\<lambda>d. xfs_bmap_validate_extent m ip w (xfs_bmbt_disk_get_all d) = None) (take n (drop i dp))"
    and "exts_ok (xs @ disk_exts ds)"
  shows "\<exists>ifp'. iformat_extents_loop m ip w dp i n ifp icur =
      Some (ifp', if length ds = n then None else Some EFSCORRUPTED) \<and> iext_list ifp' (xs @ disk_exts ds)"
  using assms
proof (induction n arbitrary: i ifp icur xs ds)
  case 0
  then show ?case using iel.at_rep by auto
next
  case (Suc n)
  let ?ok = "\<lambda>d. xfs_bmap_validate_extent m ip w (xfs_bmbt_disk_get_all d) = None"
  have i: "i < length dp" using Suc.prems(2) by simp
  have tk: "take (Suc n) (drop i dp) = dp ! i # take n (drop (i + 1) dp)"
    using i by (simp flip: Cons_nth_drop_Suc)
  let ?e = "xfs_bmbt_disk_get_all (dp ! i)"
  show ?case
  proof (cases "?ok (dp ! i)")
    case False
    then have "ds = []" using Suc.prems(3) tk by simp
    then show ?thesis using False i Suc.prems(1) iel.at_rep by (auto simp: aget_def)
  next
    case True
    define ds' where "ds' = takeWhile ?ok (take n (drop (i + 1) dp))"
    have ds: "ds = dp ! i # ds'" using Suc.prems(3) tk True by (simp add: ds'_def)
    have ok: "exts_ok ((xs @ [?e]) @ disk_exts ds')" using Suc.prems(4) ds by simp
    then have "exts_ok (xs @ [?e])" unfolding exts_ok_append [of "xs @ [?e]"] by blast
    then obtain ifp1 c1 c2 where a: "xfs_iext_insert_raw ifp icur ?e = Some (ifp1, c1)" "xfs_iext_next ifp1 c1 = Some c2"
      "iext_at ifp1 (xs @ [?e]) c2 (length (xs @ [?e]))" using iel.append_at [OF Suc.prems(1)] by blast
    have "\<exists>ifp'. iformat_extents_loop m ip w dp (i + 1) n ifp1 c2 =
        Some (ifp', if length ds' = n then None else Some EFSCORRUPTED) \<and> iext_list ifp' ((xs @ [?e]) @ disk_exts ds')"
      by (rule Suc.IH [OF a(3) _ ds'_def ok]) (use Suc.prems(2) in simp)
    then show ?thesis using a(1,2) i True ds by (auto simp: aget_def)
  qed
qed

lemma bmbt_recs_at_length: "length (bmbt_recs_at bs) = length bs div 16"
proof (induction bs rule: bmbt_recs_at.induct)
  case (1 bs)
  then show ?case by (subst bmbt_recs_at.simps) (auto simp: div_if)
qed

lemma iformat_size_small:
  assumes "unat nex < 2 ^ 27"
  shows "iformat_extents_size nex = 16 * int (unat nex)"
proof -
  have "unat (nex * 16) = unat nex * 16" using assms by (simp add: unat_mult_lem [THEN iffD1])
  then have u: "unat (ucast (nex * 16) :: u32) = unat nex * 16" using assms by (simp add: unat_ucast_64_32_small)
  then show ?thesis using assms sint_small [of "ucast (nex * 16)"] by (simp add: iformat_extents_size_def)
qed

text \<open>Where the size wraps, an unreasonable extent count passes the check.\<close>

lemma iformat_size_wraps: "iformat_extents_size (2 ^ 28) = 0" "iformat_extents_size (2 ^ 28 + 1) = 16"
  by code_simp+

text \<open>A fork that the inode verifier accepts has a size that does not wrap.\<close>

lemma dfork_size_bound:
  assumes "xfs_dinode_verify_forkoff dip m = None" "xfs_dinode_good_version m (di_version dip)" "256 \<le> unat (sb_inodesize m)"
  shows "unat (XFS_DFORK_SIZE dip m w) < 2 ^ 16"
proof -
  have "unat (sb_inodesize m) < 2 ^ 16" using unat_lt_2p [of "sb_inodesize m"] by simp
  then have "unat (XFS_LITINO m) < 2 ^ 16" using litino_value(1) [OF assms(2,3)] by linarith
  then show ?thesis using fork_sizes [OF assms] by (simp add: XFS_DFORK_SIZE_def)
qed

lemma takeWhile_length_eq: "length (takeWhile P xs) = length xs \<longleftrightarrow> takeWhile P xs = xs"
  by (induction xs) auto

lemma iformat_extents_ok:
  assumes hd: "xfs_dinode_verify_forkoff dip m = None" "xfs_dinode_good_version m (di_version dip)" "256 \<le> unat (sb_inodesize m)"
    and fork: "xfs_dinode_verify_fork dip m w = None" "XFS_DFORK_FORMAT dip w = XFS_DINODE_FMT_EXTENTS"
      "unat (XFS_DFORK_SIZE dip m w) \<le> length (XFS_DFORK_PTR dip w)"
    and ifp: "iext_list ifp []"
    and ds: "ds = take (unat (xfs_dfork_nextents dip w)) (bmbt_recs_at (XFS_DFORK_PTR dip w))"
      "ok = takeWhile (\<lambda>d. xfs_bmap_validate_extent m ip w (xfs_bmbt_disk_get_all d) = None) ds"
      "sorted_wrt xfs_bmbt_recs_inorder ok"
  shows "\<exists>ifp'. xfs_iformat_extents m ip dip w ifp = Some (ifp', if ok = ds then None else Some EFSCORRUPTED) \<and>
    iext_list ifp' (disk_exts ok)" "length ds = unat (xfs_dfork_nextents dip w)"
proof -
  let ?n = "unat (xfs_dfork_nextents dip w)" and ?dp = "bmbt_recs_at (XFS_DFORK_PTR dip w)"
  have n: "16 * ?n \<le> unat (XFS_DFORK_SIZE dip m w)" by (rule verify_fork_extents [OF fork(1,2)])
  then have small: "?n < 2 ^ 27" using dfork_size_bound [OF hd, of w] by simp
  have size: "iformat_extents_size (xfs_dfork_nextents dip w) = 16 * int ?n" by (rule iformat_size_small [OF small])
  have len: "?n \<le> length ?dp" using n fork(3) by (simp add: bmbt_recs_at_length)
  then show dsn: "length ds = ?n" using ds(1) by simp
  let ?ifp = "ifp\<lparr>if_bytes := 0, if_data := 0, if_height := 0\<rparr>"
  have "if_bytes ifp = 0 \<and> if_data ifp = 0 \<and> if_height ifp = 0"
    using ifp rep_Nil_lrecs by (auto simp: iext_list_def) (auto simp: iext_rep_def)
  then have "?ifp = ifp" by simp
  have exts: "exts_ok (disk_exts ok)"
    by (rule disk_exts_ok [OF _ ds(3)]) (use ds(2) in \<open>auto dest: set_takeWhileD\<close>)
  obtain c where c: "xfs_iext_first ifp = Some c" "iext_at ifp [] c 0" using iel.first_at [OF ifp] by blast
  have "\<exists>ifp'. iformat_extents_loop m ip w ?dp 0 ?n ifp c = Some (ifp', if length ok = ?n then None else Some EFSCORRUPTED) \<and>
      iext_list ifp' ([] @ disk_exts ok)"
    by (rule iformat_extents_loop_ok) (use c(2) len ds exts in auto)
  moreover have "length ok = ?n \<longleftrightarrow> ok = ds" using takeWhile_length_eq [of _ ds] dsn ds(2) by simp
  moreover have "ok = ds \<and> ok = []" if "?n = 0" using that ds(1,2) by simp
  moreover have "xfs_iformat_extents m ip dip w ifp =
      (if ?n = 0 then Some (ifp, None) else iformat_extents_loop m ip w ?dp 0 ?n ifp c)"
  proof -
    have "\<not> (16 * int ?n < 0 \<or> 16 * int ?n > int (unat (XFS_DFORK_SIZE dip m w)))" using n by linarith
    moreover have "16 * int ?n \<noteq> 0 \<longleftrightarrow> ?n \<noteq> 0" by linarith
    ultimately show ?thesis
      unfolding xfs_iformat_extents_def Let_def size \<open>?ifp = ifp\<close> c(1) by (simp only: bind.bind_lunit if_not_P if_False) simp
  qed
  ultimately show "\<exists>ifp'. xfs_iformat_extents m ip dip w ifp = Some (ifp', if ok = ds then None else Some EFSCORRUPTED) \<and>
      iext_list ifp' (disk_exts ok)"
    using ifp by (cases "?n = 0") auto
qed

section \<open>Writing back\<close>

definition real_ext :: "xfs_bmbt_irec \<Rightarrow> bool" where
  "real_ext e \<longleftrightarrow> \<not> isnullstartblock (br_startblock e)"

abbreviation disk_recs :: "xfs_bmbt_irec list \<Rightarrow> xfs_bmbt_rec list" where
  "disk_recs es \<equiv> map (xfs_bmbt_disk_set_all \<lparr>l0 = 0, l1 = 0\<rparr>) es"

lemma iextents_copy_loop_ok:
  assumes "iext_at ifp xs icur j" "j \<le> length xs" "es = filter real_ext (drop j xs)" "i + length es \<le> length dp"
    and "\<forall>e \<in> set es. xfs_bmap_validate_extent m ip w e = None"
  shows "iextents_copy_loop m ip w ifp icur dp i copied =
    Some (take i dp @ disk_recs es @ drop (i + length es) dp, copied + 16 * int (length es))"
  using assms
proof (induction "length xs - j" arbitrary: j icur es dp i copied)
  case 0
  then have "es = []" "xfs_iext_get_extent ifp icur = Some None" using iel.get_at [OF 0(2)] by auto
  then show ?case by (subst iextents_copy_loop.simps) simp
next
  case (Suc k)
  then have j: "j < length xs" by simp
  let ?e = "xs ! j"
  have get: "xfs_iext_get_extent ifp icur = Some (Some ?e)" using iel.get_at [OF Suc.prems(1)] j by simp
  obtain c where c: "xfs_iext_next ifp icur = Some c" "iext_at ifp xs c (j + 1)" using iel.step_at [OF Suc.prems(1) j] by blast
  have dr: "drop j xs = ?e # drop (j + 1) xs" using j by (simp add: Cons_nth_drop_Suc)
  have fits: "bmbt_irec_fits ?e"
    using exts_ok_elem [OF iel.rep_exts_ok [OF iel.at_rep [OF Suc.prems(1)]], of ?e] j by (simp add: fits_asserts)
  define es' where "es' = filter real_ext (drop (j + 1) xs)"
  show ?case
  proof (cases "real_ext ?e")
    case False
    then have es: "es = es'" using Suc.prems(3) dr by (simp add: es'_def)
    have "iextents_copy_loop m ip w ifp c dp i copied =
        Some (take i dp @ disk_recs es' @ drop (i + length es') dp, copied + 16 * int (length es'))"
      by (rule Suc.hyps(1) [OF _ c(2) _ es'_def]) (use Suc.hyps(2) j Suc.prems(4,5) es in auto)
    then show ?thesis using get c(1) False es by (subst iextents_copy_loop.simps) (simp add: real_ext_def)
  next
    case True
    then have es: "es = ?e # es'" using Suc.prems(3) dr by (simp add: es'_def)
    let ?d = "xfs_bmbt_disk_set_all \<lparr>l0 = 0, l1 = 0\<rparr> ?e"
    have i: "i < length dp" using Suc.prems(4) es by simp
    have "iextents_copy_loop m ip w ifp c (dp[i := ?d]) (i + 1) (copied + 16) =
        Some (take (i + 1) (dp[i := ?d]) @ disk_recs es' @ drop (i + 1 + length es') (dp[i := ?d]), copied + 16 + 16 * int (length es'))"
      by (rule Suc.hyps(1) [OF _ c(2) _ es'_def]) (use Suc.hyps(2) j Suc.prems(4,5) es in auto)
    moreover have "take (i + 1) (dp[i := ?d]) = take i dp @ [?d]" using i by (simp add: take_Suc_conv_app_nth)
    moreover have "xfs_bmbt_disk_set_all (dp ! i) ?e = ?d" by (rule set_all_indep)
    ultimately show ?thesis
      using get c(1) True es i fits Suc.prems(5)
      by (subst iextents_copy_loop.simps) (simp add: real_ext_def aget_def aset_def iext_assert_def)
  qed
qed

lemma rep_bytes: "iext_list ifp xs \<Longrightarrow> if_bytes ifp = 16 * int (length xs)"
  by (auto simp: iext_list_def iext_rep_def)

lemma iextents_copy_ok:
  assumes list: "iext_list ifp xs" and es: "es = filter real_ext xs" "es \<noteq> []" "length es \<le> length dp"
    and ok: "\<forall>e \<in> set es. xfs_bmap_validate_extent m ip w e = None"
  shows "xfs_iextents_copy m ip w ifp dp = Some (disk_recs es @ drop (length es) dp, 16 * int (length es))"
proof -
  obtain c where c: "xfs_iext_first ifp = Some c" "iext_at ifp xs c 0" using iel.first_at [OF list] by blast
  have "iextents_copy_loop m ip w ifp c dp 0 0 = Some (take 0 dp @ disk_recs es @ drop (0 + length es) dp, 0 + 16 * int (length es))"
    by (rule iextents_copy_loop_ok [OF c(2)]) (use es ok in auto)
  moreover have "length es \<le> length xs" "xs \<noteq> []" using es by auto
  ultimately show ?thesis
    using c(1) es(2) rep_bytes [OF list] by (simp add: xfs_iextents_copy_def iext_assert_def)
qed

lemma disk_recs_exts: "disk_recs (disk_exts ds) = ds"
  by (induction ds) (simp_all add: bmbt_to_from)

section \<open>An example\<close>

text \<open>An inode with two extents in its data fork.\<close>

definition disk_example :: "xfs_bmbt_rec list" where
  "disk_example = [\<lparr>l0 = 0, l1 = 144255977103818752\<rparr>, \<lparr>l0 = 4503599627370624, l1 = 72057701412110336\<rparr>]"

definition dinode_extents_example :: xfs_dinode where
  "dinode_extents_example = dinode_example\<lparr>di_version := 2, di_format := 2, di_nextents := cpu_to_be32 2,
     di_literal := [0, 0, 0, 0, 0, 0, 0, 0, 0, 0, 0, 0, 12, 128, 0, 2, 128, 0, 0, 0, 0, 0, 16, 0, 0, 0, 0, 0, 25, 0, 0, 1] @ replicate 124 0\<rparr>"

definition fork_empty :: Iext_Tree.xfs_ifork where
  "fork_empty = \<lparr>if_bytes = 0, if_seq = 0, if_height = 0, if_data = 0, if_mem = Map.empty, if_brk = 1\<rparr>"

lemma fork_empty_list: "iext_list fork_empty []"
  unfolding iext_list_def iext_rep_def by (intro exI [of _ "[]"]) (simp add: fork_empty_def)

lemma dinode_extents_example_ok:
  "xfs_dinode_verify_forkoff dinode_extents_example ino_example = None"
  "xfs_dinode_good_version ino_example (di_version dinode_extents_example)" "256 \<le> unat (sb_inodesize ino_example)"
  "xfs_dinode_verify_fork dinode_extents_example ino_example XFS_DATA_FORK = None"
  "XFS_DFORK_FORMAT dinode_extents_example XFS_DATA_FORK = XFS_DINODE_FMT_EXTENTS"
  "unat (XFS_DFORK_SIZE dinode_extents_example ino_example XFS_DATA_FORK) \<le> length (XFS_DFORK_PTR dinode_extents_example XFS_DATA_FORK)"
  "unat (xfs_dfork_nextents dinode_extents_example XFS_DATA_FORK) = 2"
  "take 2 (bmbt_recs_at (XFS_DFORK_PTR dinode_extents_example XFS_DATA_FORK)) = disk_example"
  "map (xfs_bmap_validate_extent ino_example inode_example XFS_DATA_FORK) (disk_exts disk_example) = [None, None]"
  "map (\<lambda>d. isnullstartblock (br_startblock (xfs_bmbt_disk_get_all d))) disk_example = [False, False]"
  "xfs_bmbt_recs_inorder (disk_example ! 0) (disk_example ! 1)" "length disk_example = 2"
  by code_simp+

lemma disk_example_sorted: "sorted_wrt xfs_bmbt_recs_inorder disk_example"
  using dinode_extents_example_ok(11) by (simp add: disk_example_def)

lemma disk_example_valid:
  "\<forall>d \<in> set disk_example. xfs_bmap_validate_extent ino_example inode_example XFS_DATA_FORK (xfs_bmbt_disk_get_all d) = None"
  "\<forall>d \<in> set disk_example. \<not> isnullstartblock (br_startblock (xfs_bmbt_disk_get_all d))"
proof -
  have "set (map (xfs_bmap_validate_extent ino_example inode_example XFS_DATA_FORK) (disk_exts disk_example)) = {None}"
    unfolding dinode_extents_example_ok(9) by simp
  then show "\<forall>d \<in> set disk_example. xfs_bmap_validate_extent ino_example inode_example XFS_DATA_FORK (xfs_bmbt_disk_get_all d) = None"
    by auto
  have "set (map (\<lambda>d. isnullstartblock (br_startblock (xfs_bmbt_disk_get_all d))) disk_example) = {False}"
    unfolding dinode_extents_example_ok(10) by simp
  then show "\<forall>d \<in> set disk_example. \<not> isnullstartblock (br_startblock (xfs_bmbt_disk_get_all d))" by auto
qed

section \<open>Properties\<close>

text \<open>
  C13. Loading a fork in extent format that the inode verifier accepts: the computed size does
  not wrap and no record outside the fork is read; if every record is a valid extent the tree
  stands for exactly the extents on disk, and otherwise the call fails with the records before
  the first invalid one in the tree. The valid records must be in file order.
\<close>

theorem iformat_extents_loads:
  assumes "xfs_dinode_verify_forkoff dip m = None" and "xfs_dinode_good_version m (di_version dip)"
    and "256 \<le> unat (sb_inodesize m)" and "xfs_dinode_verify_fork dip m w = None"
    and "XFS_DFORK_FORMAT dip w = XFS_DINODE_FMT_EXTENTS"
    and "unat (XFS_DFORK_SIZE dip m w) \<le> length (XFS_DFORK_PTR dip w)" and "iext_list ifp []"
    and "ds = take (unat (xfs_dfork_nextents dip w)) (bmbt_recs_at (XFS_DFORK_PTR dip w))"
    and "ok = takeWhile (\<lambda>d. xfs_bmap_validate_extent m ip w (xfs_bmbt_disk_get_all d) = None) ds"
    and "sorted_wrt xfs_bmbt_recs_inorder ok"
  shows "\<exists>ifp'. xfs_iformat_extents m ip dip w ifp = Some (ifp', if ok = ds then None else Some EFSCORRUPTED) \<and>
    iext_list ifp' (disk_exts ok) \<and> length ds = unat (xfs_dfork_nextents dip w)"
  using iformat_extents_ok [OF assms] by blast

theorem iformat_extents_loads_witness:
  "\<exists>ifp'. xfs_iformat_extents ino_example inode_example dinode_extents_example XFS_DATA_FORK fork_empty = Some (ifp', None) \<and>
    iext_list ifp' (disk_exts disk_example)"
proof -
  note ex = dinode_extents_example_ok
  have ds: "disk_example = take (unat (xfs_dfork_nextents dinode_extents_example XFS_DATA_FORK))
      (bmbt_recs_at (XFS_DFORK_PTR dinode_extents_example XFS_DATA_FORK))" using ex(7,8) by simp
  have ok: "disk_example = takeWhile (\<lambda>d. xfs_bmap_validate_extent ino_example inode_example XFS_DATA_FORK
      (xfs_bmbt_disk_get_all d) = None) disk_example"
    using disk_example_valid(1) by (metis (mono_tags, lifting) takeWhile_eq_all_conv)
  show ?thesis using iformat_extents_loads [OF ex(1-6) fork_empty_list ds ok disk_example_sorted] by auto
qed

text \<open>
  C34. Reading and writing a fork in extent format: the valid records of an accepted inode, in
  file order and none of them a delayed allocation, are loaded into the tree, and
  \<^verbatim>\<open>xfs_iextents_copy\<close> writes the same records back bit for bit, in order, without touching what
  follows them, and returns their size.
\<close>

theorem iformat_copy_roundtrip:
  assumes "xfs_dinode_verify_forkoff dip m = None" and "xfs_dinode_good_version m (di_version dip)"
    and "256 \<le> unat (sb_inodesize m)" and "xfs_dinode_verify_fork dip m w = None"
    and "XFS_DFORK_FORMAT dip w = XFS_DINODE_FMT_EXTENTS"
    and "unat (XFS_DFORK_SIZE dip m w) \<le> length (XFS_DFORK_PTR dip w)" and "iext_list ifp []"
    and "ds = take (unat (xfs_dfork_nextents dip w)) (bmbt_recs_at (XFS_DFORK_PTR dip w))" and "ds \<noteq> []"
    and "\<forall>d \<in> set ds. xfs_bmap_validate_extent m ip w (xfs_bmbt_disk_get_all d) = None"
    and "\<forall>d \<in> set ds. \<not> isnullstartblock (br_startblock (xfs_bmbt_disk_get_all d))"
    and "sorted_wrt xfs_bmbt_recs_inorder ds" and "length ds \<le> length buf"
  shows "\<exists>ifp'. xfs_iformat_extents m ip dip w ifp = Some (ifp', None) \<and>
    xfs_iextents_copy m ip w ifp' buf = Some (ds @ drop (length ds) buf, 16 * int (length ds))"
proof -
  have all: "ds = takeWhile (\<lambda>d. xfs_bmap_validate_extent m ip w (xfs_bmbt_disk_get_all d) = None) ds"
    by (rule sym, unfold takeWhile_eq_all_conv) (rule assms(10))
  obtain ifp' where l: "xfs_iformat_extents m ip dip w ifp = Some (ifp', None)" "iext_list ifp' (disk_exts ds)"
    using iformat_extents_ok(1) [OF assms(1-8) all assms(12)] by auto
  have real: "disk_exts ds = filter real_ext (disk_exts ds)"
    by (rule sym, unfold filter_id_conv) (use assms(11) in \<open>auto simp: real_ext_def\<close>)
  have "xfs_iextents_copy m ip w ifp' buf = Some (disk_recs (disk_exts ds) @ drop (length (disk_exts ds)) buf, 16 * int (length (disk_exts ds)))"
    by (rule iextents_copy_ok [OF l(2) real]) (use assms(9,10,13) in auto)
  then show ?thesis using l(1) unfolding disk_recs_exts by simp
qed

theorem iformat_copy_roundtrip_witness:
  "\<exists>ifp'. xfs_iformat_extents ino_example inode_example dinode_extents_example XFS_DATA_FORK fork_empty = Some (ifp', None) \<and>
    xfs_iextents_copy ino_example inode_example XFS_DATA_FORK ifp' (replicate 9 \<lparr>l0 = 0, l1 = 0\<rparr>) =
      Some (disk_example @ replicate 7 \<lparr>l0 = 0, l1 = 0\<rparr>, 32)"
proof -
  note ex = dinode_extents_example_ok
  have ds: "disk_example = take (unat (xfs_dfork_nextents dinode_extents_example XFS_DATA_FORK))
      (bmbt_recs_at (XFS_DFORK_PTR dinode_extents_example XFS_DATA_FORK))" using ex(7,8) by simp
  have ne: "disk_example \<noteq> []" using ex(12) by auto
  have len: "length disk_example \<le> length (replicate 9 \<lparr>l0 = 0 :: u64, l1 = 0\<rparr>)" using ex(12) by simp
  show ?thesis
    using iformat_copy_roundtrip [OF ex(1-6) fork_empty_list ds ne disk_example_valid disk_example_sorted len] ex(12) by simp
qed

end
