(* ===== verification/Bmap_Fork.thy ===== *)
theory Bmap_Fork
  imports Iext_Fork
begin

text \<open>
  The forks that the file mapping code of \<^verbatim>\<open>libxfs/xfs_bmap.c\<close> works on, and the loading of a fork in btree
  format into its in-core extent tree. A fork has its format and extent count, the flag that
  its extents are still on disk, and the tree. The walk over the on-disk btree belongs to the
  generic btree code: the leaf blocks it visits, from left to right, and the error it ends
  with are arguments of the model.
\<close>

section \<open>Forks\<close>

record bmap_fork =
  bf_format :: u8
  bf_nextents :: u64
  bf_needextents :: bool
  bf_iext :: Iext_Tree.xfs_ifork

definition xfs_ifork_has_extents :: "bmap_fork \<Rightarrow> bool" where
  "xfs_ifork_has_extents ifp \<longleftrightarrow> ucast (bf_format ifp) = XFS_DINODE_FMT_EXTENTS \<or> ucast (bf_format ifp) = XFS_DINODE_FMT_BTREE"

definition xfs_need_iread_extents :: "bmap_fork \<Rightarrow> bool" where
  "xfs_need_iread_extents ifp = bf_needextents ifp"

section \<open>Reading the extents of a btree\<close>

text \<open>The record loop of a block; the result is the tree, the cursor, the count and the error.\<close>

fun iread_records ::
    "ino_mount \<Rightarrow> xfs_inode \<Rightarrow> whichfork \<Rightarrow> xfs_bmbt_rec list \<Rightarrow> Iext_Tree.xfs_ifork \<Rightarrow> xfs_iext_cursor \<Rightarrow> u64 \<Rightarrow>
     (Iext_Tree.xfs_ifork \<times> xfs_iext_cursor \<times> u64 \<times> errno option) option" where
  "iread_records m ip w [] ifp icur loaded = Some (ifp, icur, loaded, None)"
| "iread_records m ip w (frp # frps) ifp icur loaded =
     (let new = xfs_bmbt_disk_get_all frp
      in if xfs_bmap_validate_extent m ip w new \<noteq> None then Some (ifp, icur, loaded, Some EFSCORRUPTED)
         else do {
           (ifp, icur) \<leftarrow> xfs_iext_insert_raw ifp icur new;
           icur \<leftarrow> xfs_iext_next ifp icur;
           iread_records m ip w frps ifp icur (loaded + 1)
         })"

definition xfs_iread_bmbt_block ::
    "ino_mount \<Rightarrow> xfs_inode \<Rightarrow> whichfork \<Rightarrow> u64 \<Rightarrow> xfs_bmbt_rec list \<Rightarrow> Iext_Tree.xfs_ifork \<Rightarrow> xfs_iext_cursor \<Rightarrow> u64 \<Rightarrow>
     (Iext_Tree.xfs_ifork \<times> xfs_iext_cursor \<times> u64 \<times> errno option) option" where
  "xfs_iread_bmbt_block m ip w nextents block ifp icur loaded =
     (let num_recs = of_nat (length block)
      in if loaded + num_recs > nextents then Some (ifp, icur, loaded, Some EFSCORRUPTED)
         else iread_records m ip w block ifp icur loaded)"

text \<open>The visits; \<open>verr\<close> is the error with which the walk itself ends after the given blocks.\<close>

fun iread_visit_blocks ::
    "ino_mount \<Rightarrow> xfs_inode \<Rightarrow> whichfork \<Rightarrow> u64 \<Rightarrow> errno option \<Rightarrow> xfs_bmbt_rec list list \<Rightarrow> Iext_Tree.xfs_ifork \<Rightarrow> xfs_iext_cursor \<Rightarrow> u64 \<Rightarrow>
     (Iext_Tree.xfs_ifork \<times> u64 \<times> errno option) option" where
  "iread_visit_blocks m ip w nx verr [] ifp icur loaded = Some (ifp, loaded, verr)"
| "iread_visit_blocks m ip w nx verr (b # bs) ifp icur loaded = do {
     (ifp, icur, loaded, error) \<leftarrow> xfs_iread_bmbt_block m ip w nx b ifp icur loaded;
     if error \<noteq> None then Some (ifp, loaded, error)
     else iread_visit_blocks m ip w nx verr bs ifp icur loaded
   }"

definition xfs_iread_extents ::
    "ino_mount \<Rightarrow> xfs_inode \<Rightarrow> whichfork \<Rightarrow> xfs_bmbt_rec list list \<Rightarrow> errno option \<Rightarrow> bmap_fork \<Rightarrow> (bmap_fork \<times> errno option) option" where
  "xfs_iread_extents m ip w blocks verr ifp =
     (if \<not> xfs_need_iread_extents ifp then Some (ifp, None)
      else do {
        icur \<leftarrow> xfs_iext_first (bf_iext ifp);
        (tree, loaded, error) \<leftarrow> iread_visit_blocks m ip w (bf_nextents ifp) verr blocks (bf_iext ifp) icur 0;
        let error = (if error = None \<and> loaded \<noteq> bf_nextents ifp then Some EFSCORRUPTED else error);
        if error \<noteq> None then do {
          tree \<leftarrow> xfs_iext_destroy tree;
          Some (ifp\<lparr>bf_iext := tree\<rparr>, error)
        }
        else do {
          iext_assert (unat loaded = xfs_iext_count tree);
          Some (ifp\<lparr>bf_iext := tree, bf_needextents := False\<rparr>, None)
        }
      })"

section \<open>The loop over the blocks\<close>

abbreviation disk_valid :: "ino_mount \<Rightarrow> xfs_inode \<Rightarrow> whichfork \<Rightarrow> xfs_bmbt_rec \<Rightarrow> bool" where
  "disk_valid m ip w d \<equiv> xfs_bmap_validate_extent m ip w (xfs_bmbt_disk_get_all d) = None"

text \<open>All records of a block are valid and appended, or the loop stops with some of them appended.\<close>

lemma iread_records_ok:
  assumes "iext_at ifp xs icur (length xs)" "exts_ok (xs @ disk_exts (takeWhile (disk_valid m ip w) ds))"
  shows "\<exists>ifp' c'. iread_records m ip w ds ifp icur n =
      Some (ifp', c', n + of_nat (length (takeWhile (disk_valid m ip w) ds)),
        if \<forall>d \<in> set ds. disk_valid m ip w d then None else Some EFSCORRUPTED) \<and>
    iext_at ifp' (xs @ disk_exts (takeWhile (disk_valid m ip w) ds)) c' (length xs + length (takeWhile (disk_valid m ip w) ds))"
  using assms
proof (induction ds arbitrary: ifp icur xs n)
  case (Cons d ds)
  let ?e = "xfs_bmbt_disk_get_all d"
  show ?case
  proof (cases "disk_valid m ip w d")
    case False
    then show ?thesis using Cons.prems(1) by (auto simp: Let_def)
  next
    case True
    let ?t = "takeWhile (disk_valid m ip w) ds"
    have ok: "exts_ok ((xs @ [?e]) @ disk_exts ?t)" using Cons.prems(2) True by simp
    then have "exts_ok (xs @ [?e])" unfolding exts_ok_append [of "xs @ [?e]"] by blast
    then obtain ifp1 c1 c2 where a: "xfs_iext_insert_raw ifp icur ?e = Some (ifp1, c1)" "xfs_iext_next ifp1 c1 = Some c2"
      "iext_at ifp1 (xs @ [?e]) c2 (length (xs @ [?e]))" using iel.append_at [OF Cons.prems(1)] by blast
    show ?thesis using Cons.IH [OF a(3) ok, of "n + 1"] a(1,2) True by (auto simp: Let_def algebra_simps)
  qed
qed auto

text \<open>All records are valid, and not too many on top of the \<open>k\<close> already loaded.\<close>

definition bmbt_fits :: "ino_mount \<Rightarrow> xfs_inode \<Rightarrow> whichfork \<Rightarrow> nat \<Rightarrow> u64 \<Rightarrow> xfs_bmbt_rec list list \<Rightarrow> bool" where
  "bmbt_fits m ip w k nx bs \<longleftrightarrow> list_all (disk_valid m ip w) (concat bs) \<and> k + length (concat bs) \<le> unat nx"

lemma bmbt_fits_Cons:
  "bmbt_fits m ip w k nx (b # bs) \<longleftrightarrow>
     list_all (disk_valid m ip w) b \<and> k + length b \<le> unat nx \<and> bmbt_fits m ip w (k + length b) nx bs"
  by (auto simp: bmbt_fits_def list_all_iff add.assoc)

lemma iread_visit_ok:
  assumes at: "iext_at ifp (disk_exts ds) icur (length ds)" and n: "unat nx < 2 ^ 48" "length ds \<le> unat nx"
    and bs: "\<forall>b \<in> set bs. length b < 2 ^ 16" "sorted_wrt xfs_bmbt_recs_inorder (ds @ concat bs)" "list_all (disk_valid m ip w) ds"
  shows "\<exists>ifp' n' es. iread_visit_blocks m ip w nx verr bs ifp icur (of_nat (length ds)) =
      Some (ifp', n', if bmbt_fits m ip w (length ds) nx bs then verr else Some EFSCORRUPTED) \<and> iext_list ifp' (disk_exts es) \<and>
    (bmbt_fits m ip w (length ds) nx bs \<longrightarrow> es = ds @ concat bs \<and> n' = of_nat (length es))"
  using at n(2) bs
proof (induction bs arbitrary: ifp icur ds)
  case Nil
  then show ?case using iel.at_rep [OF Nil(1)] by (auto simp: bmbt_fits_def intro!: exI [of _ ds])
next
  case (Cons b bs)
  let ?V = "disk_valid m ip w" and ?n = "of_nat (length ds) :: u64"
  let ?t = "takeWhile ?V b"
  have len: "length b < 2 ^ 16" using Cons.prems(3) by simp
  have lt: "length ds + length b < 2 ^ 64" using len Cons.prems(2) n(1) by simp
  have u: "unat (?n + of_nat (length b)) = length ds + length b"
    unfolding of_nat_add [symmetric] by (rule unat_of_nat_64 [OF lt])
  show ?case
  proof (cases "length ds + length b \<le> unat nx")
    case False
    then have "xfs_iread_bmbt_block m ip w nx b ifp icur ?n = Some (ifp, icur, ?n, Some EFSCORRUPTED)"
      using u by (simp add: xfs_iread_bmbt_block_def word_less_nat_alt)
    then show ?thesis using iel.at_rep [OF Cons.prems(1)] False by (auto simp: bmbt_fits_Cons)
  next
    case True
    then have blk: "xfs_iread_bmbt_block m ip w nx b ifp icur ?n = iread_records m ip w b ifp icur ?n"
      using u by (simp add: xfs_iread_bmbt_block_def word_less_nat_alt)
    obtain k where k: "b = ?t @ k" by (metis takeWhile_dropWhile_id)
    then have "sorted_wrt xfs_bmbt_recs_inorder (ds @ ?t @ k @ concat bs)" using Cons.prems(4) by (metis append_assoc concat.simps(2))
    then have srt: "sorted_wrt xfs_bmbt_recs_inorder (ds @ ?t)"
      unfolding append_assoc [symmetric] sorted_wrt_append [of _ _ "concat bs"] sorted_wrt_append [of _ _ k] by blast
    have val: "\<forall>d \<in> set (ds @ ?t). ?V d" using Cons.prems(5) by (auto simp: list_all_iff dest: set_takeWhileD)
    have "exts_ok (disk_exts ds @ disk_exts ?t)" using disk_exts_ok [OF val srt] by simp
    then obtain ifp' c' where r: "iread_records m ip w b ifp icur ?n =
        Some (ifp', c', ?n + of_nat (length ?t), if list_all ?V b then None else Some EFSCORRUPTED)"
      "iext_at ifp' (disk_exts (ds @ ?t)) c' (length (ds @ ?t))"
      using iread_records_ok [of ifp "disk_exts ds" icur m ip w b ?n] Cons.prems(1) by (auto simp: list_all_iff)
    show ?thesis
    proof (cases "list_all ?V b")
      case False
      have "\<exists>es. iext_list ifp' (disk_exts es)" using iel.at_rep [OF r(2)] by blast
      then show ?thesis using blk r(1) False by (auto simp: bmbt_fits_Cons)
    next
      case good: True
      then have t: "?t = b" by (simp add: list_all_iff)
      have "iread_visit_blocks m ip w nx verr (b # bs) ifp icur ?n =
          iread_visit_blocks m ip w nx verr bs ifp' c' (of_nat (length (ds @ b)))" using blk r(1) good t by simp
      moreover have "bmbt_fits m ip w (length ds) nx (b # bs) = bmbt_fits m ip w (length (ds @ b)) nx bs"
        using good True by (simp add: bmbt_fits_Cons)
      moreover have "list_all ?V (ds @ b)" using good Cons.prems(5) by simp
      ultimately show ?thesis
        using Cons.IH [of ifp' "ds @ b" c'] r(2) Cons.prems(3,4) True t by simp
    qed
  qed
qed

lemma list_count: "iext_list ifp xs \<Longrightarrow> xfs_iext_count ifp = length xs"
  by (simp add: xfs_iext_count_def rep_bytes)

lemma iread_extents_ok:
  assumes need: "bf_needextents ifp" and tree: "iext_list (bf_iext ifp) []" and n: "unat (bf_nextents ifp) < 2 ^ 48"
    and bs: "\<forall>b \<in> set blocks. length b < 2 ^ 16" "sorted_wrt xfs_bmbt_recs_inorder (concat blocks)"
  shows "\<exists>t. if list_all (disk_valid m ip w) (concat blocks) \<and> length (concat blocks) = unat (bf_nextents ifp) \<and> verr = None
    then xfs_iread_extents m ip w blocks verr ifp = Some (ifp\<lparr>bf_iext := t, bf_needextents := False\<rparr>, None) \<and>
      iext_list t (disk_exts (concat blocks))
    else (\<exists>e. xfs_iread_extents m ip w blocks verr ifp = Some (ifp\<lparr>bf_iext := t\<rparr>, Some e)) \<and>
      iext_list t [] \<and> (\<forall>a. if_mem t a = None)"
proof -
  let ?nx = "bf_nextents ifp" and ?D = "concat blocks"
  let ?fits = "bmbt_fits m ip w 0 ?nx blocks"
  obtain c where c: "xfs_iext_first (bf_iext ifp) = Some c" "iext_at (bf_iext ifp) [] c 0" using iel.first_at [OF tree] by blast
  obtain t n' es where v: "iread_visit_blocks m ip w ?nx verr blocks (bf_iext ifp) c 0 =
      Some (t, n', if ?fits then verr else Some EFSCORRUPTED)" "iext_list t (disk_exts es)"
      "?fits \<longrightarrow> es = ?D \<and> n' = of_nat (length es)"
    using iread_visit_ok [of "bf_iext ifp" "[]" c ?nx blocks m ip w verr] c(2) n bs by auto
  obtain t' where d: "xfs_iext_destroy t = Some t'" "iext_list t' []" "\<forall>a. if_mem t' a = None" using list_destroy [OF v(2)] by blast
  let ?e = "if ?fits then (if verr = None \<and> n' \<noteq> ?nx then Some EFSCORRUPTED else verr) else Some EFSCORRUPTED"
  have run: "xfs_iread_extents m ip w blocks verr ifp =
      (if ?e \<noteq> None then Some (ifp\<lparr>bf_iext := t'\<rparr>, ?e)
       else if unat n' = length es then Some (ifp\<lparr>bf_iext := t, bf_needextents := False\<rparr>, None) else None)"
    using c(1) v(1) d(1) need list_count [OF v(2)]
    by (auto simp: xfs_iread_extents_def xfs_need_iread_extents_def iext_assert_def)
  have u: "unat n' = length ?D" if ?fits using that v(3) n by (simp add: bmbt_fits_def unat_of_nat_64)
  have eq: "n' = ?nx \<longleftrightarrow> length ?D = unat ?nx" if ?fits using u [OF that] by (metis word_unat_eq_iff)
  show ?thesis
  proof (cases "list_all (disk_valid m ip w) ?D \<and> length ?D = unat ?nx \<and> verr = None")
    case True
    then have f: ?fits by (simp add: bmbt_fits_def)
    then show ?thesis using True run v u eq by (intro exI [of _ t]) simp
  next
    case False
    then have "?e \<noteq> None" using eq by (auto simp: bmbt_fits_def)
    then show ?thesis using False run d by (intro exI [of _ t']) (auto split: if_splits)
  qed
qed

end
