(* ===== verification/Bmap_Read.thy ===== *)
theory Bmap_Read
  imports Bmap_Fork
begin

text \<open>
  Reading file mappings: \<^verbatim>\<open>xfs_bmapi_read\<close> of \<^verbatim>\<open>libxfs/xfs_bmap.c\<close>, which every reader of directories,
  attributes, symbolic links and realtime metadata calls to turn file offsets into disk
  blocks. The array of maps that the caller passes is a list; a write past its end is \<open>None\<close>.
  The maps are compared with the meaning of the extent list, block by block.
\<close>

section \<open>Inodes and flags\<close>

record bmap_inode =
  bi_ip :: xfs_inode
  bi_df :: bmap_fork
  bi_af :: bmap_fork

definition xfs_ifork_ptr :: "bmap_inode \<Rightarrow> whichfork \<Rightarrow> bmap_fork option" where
  "xfs_ifork_ptr bi w =
     (case w of XFS_DATA_FORK \<Rightarrow> Some (bi_df bi)
      | XFS_ATTR_FORK \<Rightarrow> if i_forkoff (bi_ip bi) > 0 then Some (bi_af bi) else None)"

definition put_fork :: "bmap_inode \<Rightarrow> whichfork \<Rightarrow> bmap_fork \<Rightarrow> bmap_inode" where
  "put_fork bi w ifp = (case w of XFS_DATA_FORK \<Rightarrow> bi\<lparr>bi_df := ifp\<rparr> | XFS_ATTR_FORK \<Rightarrow> bi\<lparr>bi_af := ifp\<rparr>)"

definition XFS_BMAPI_ENTIRE :: u32 where "XFS_BMAPI_ENTIRE = 1"
definition XFS_BMAPI_ATTRFORK :: u32 where "XFS_BMAPI_ATTRFORK = 4"
definition DELAYSTARTBLOCK :: u64 where "DELAYSTARTBLOCK = - 1"
definition HOLESTARTBLOCK :: u64 where "HOLESTARTBLOCK = - 2"

text \<open>The flag of the copy-on-write fork is excluded by the assertion of the only caller below.\<close>

definition xfs_bmapi_whichfork :: "u32 \<Rightarrow> whichfork" where
  "xfs_bmapi_whichfork bmapi_flags = (if bmapi_flags AND XFS_BMAPI_ATTRFORK \<noteq> 0 then XFS_ATTR_FORK else XFS_DATA_FORK)"

section \<open>Trimming and merging maps\<close>

definition xfs_trim_extent :: "xfs_bmbt_irec \<Rightarrow> u64 \<Rightarrow> u64 \<Rightarrow> xfs_bmbt_irec" where
  "xfs_trim_extent irec bno len =
     (let endp = bno + len
      in if br_startoff irec + br_blockcount irec \<le> bno \<or> br_startoff irec \<ge> endp then irec\<lparr>br_blockcount := 0\<rparr>
         else
           let irec = (if br_startoff irec < bno
                       then let distance = bno - br_startoff irec;
                                sb = (if isnullstartblock (br_startblock irec) then DELAYSTARTBLOCK else br_startblock irec);
                                sb = (if sb \<noteq> DELAYSTARTBLOCK \<and> sb \<noteq> HOLESTARTBLOCK then sb + distance else sb)
                            in irec\<lparr>br_startblock := sb, br_startoff := br_startoff irec + distance,
                                 br_blockcount := br_blockcount irec - distance\<rparr>
                       else irec)
           in if endp < br_startoff irec + br_blockcount irec
              then let distance = br_startoff irec + br_blockcount irec - endp
                   in irec\<lparr>br_blockcount := br_blockcount irec - distance\<rparr>
              else irec)"

text \<open>The result is the map to return and the moved \<^verbatim>\<open>bno\<close>.\<close>

definition xfs_bmapi_trim_map ::
    "xfs_bmbt_irec \<Rightarrow> u64 \<Rightarrow> u64 \<Rightarrow> u64 \<Rightarrow> u64 \<Rightarrow> nat \<Rightarrow> u32 \<Rightarrow> (xfs_bmbt_irec \<times> u64) option" where
  "xfs_bmapi_trim_map got bno len obno endp n flags =
     (if flags AND XFS_BMAPI_ENTIRE \<noteq> 0 \<or> br_startoff got + br_blockcount got \<le> obno
      then Some (if isnullstartblock (br_startblock got) then got\<lparr>br_startblock := DELAYSTARTBLOCK\<rparr> else got, bno)
      else do {
        let bno = (if obno > bno then obno else bno);
        iext_assert (bno \<ge> obno \<or> n = 0);
        iext_assert (bno < endp);
        let mval = \<lparr>br_startoff = bno,
          br_startblock = (if isnullstartblock (br_startblock got) then DELAYSTARTBLOCK
                           else br_startblock got + (bno - br_startoff got)),
          br_blockcount = min (endp - bno) (br_blockcount got - (bno - br_startoff got)),
          br_state = br_state got\<rparr>;
        iext_assert (br_blockcount mval \<le> len);
        Some (mval, bno)
      })"

text \<open>The new map is in slot \<open>n\<close>; the result is the array, \<^verbatim>\<open>bno\<close>, \<^verbatim>\<open>len\<close> and \<^verbatim>\<open>n\<close>.\<close>

definition xfs_bmapi_update_map ::
    "xfs_bmbt_irec list \<Rightarrow> u64 \<Rightarrow> u64 \<Rightarrow> u64 \<Rightarrow> nat \<Rightarrow> u32 \<Rightarrow> (xfs_bmbt_irec list \<times> u64 \<times> u64 \<times> nat) option" where
  "xfs_bmapi_update_map maps len obno endp n flags = do {
     mval \<leftarrow> aget maps n;
     iext_assert (flags AND XFS_BMAPI_ENTIRE \<noteq> 0 \<or> br_startoff mval + br_blockcount mval \<le> endp);
     iext_assert (flags AND XFS_BMAPI_ENTIRE \<noteq> 0 \<or> br_blockcount mval \<le> len \<or> br_startoff mval < obno);
     let bno = br_startoff mval + br_blockcount mval;
     let len = endp - bno;
     if n > 0 then do {
       prev \<leftarrow> aget maps (n - 1);
       if br_startoff mval = br_startoff prev then do {
         iext_assert (br_startblock mval = br_startblock prev);
         iext_assert (br_blockcount mval > br_blockcount prev);
         iext_assert (br_state mval = br_state prev);
         maps \<leftarrow> aset maps (n - 1) (prev\<lparr>br_blockcount := br_blockcount mval, br_state := br_state mval\<rparr>);
         Some (maps, bno, len, n)
       }
       else if br_startblock mval \<noteq> DELAYSTARTBLOCK \<and> br_startblock prev \<noteq> DELAYSTARTBLOCK \<and>
               br_startblock prev \<noteq> HOLESTARTBLOCK \<and>
               br_startblock mval = br_startblock prev + br_blockcount prev \<and> br_state prev = br_state mval then do {
         iext_assert (br_startoff mval = br_startoff prev + br_blockcount prev);
         maps \<leftarrow> aset maps (n - 1) (prev\<lparr>br_blockcount := br_blockcount prev + br_blockcount mval\<rparr>);
         Some (maps, bno, len, n)
       }
       else if br_startblock mval = DELAYSTARTBLOCK \<and> br_startblock prev = DELAYSTARTBLOCK \<and>
               br_startoff mval = br_startoff prev + br_blockcount prev then do {
         maps \<leftarrow> aset maps (n - 1) (prev\<lparr>br_blockcount := br_blockcount prev + br_blockcount mval, br_state := br_state mval\<rparr>);
         Some (maps, bno, len, n)
       }
       else Some (maps, bno, len, n + 1)
     }
     else Some (maps, bno, len, if br_startoff mval + br_blockcount mval \<le> obno then n else n + 1)
   }"

section \<open>Reading mappings\<close>

text \<open>The loop; \<open>got\<close> is none at the end of the file (the flag \<^verbatim>\<open>eof\<close> of the code).\<close>

partial_function (option) bmapi_read_loop ::
    "Iext_Tree.xfs_ifork \<Rightarrow> nat \<Rightarrow> u64 \<Rightarrow> u64 \<Rightarrow> u32 \<Rightarrow> xfs_iext_cursor \<Rightarrow> xfs_bmbt_irec option \<Rightarrow> u64 \<Rightarrow> u64 \<Rightarrow> nat \<Rightarrow> xfs_bmbt_irec list \<Rightarrow>
     (xfs_bmbt_irec list \<times> nat) option" where
  "bmapi_read_loop ifp nmap obno endp flags icur got bno len n mval =
     (if \<not> (bno < endp \<and> n < nmap) then Some (mval, n)
      else let startoff = (case got of None \<Rightarrow> endp | Some g \<Rightarrow> br_startoff g)
           in if startoff > bno then
                let count = min len (startoff - bno)
                in do {
                     mval \<leftarrow> aset mval n \<lparr>br_startoff = bno, br_startblock = HOLESTARTBLOCK, br_blockcount = count, br_state = XFS_EXT_NORM\<rparr>;
                     bmapi_read_loop ifp nmap obno endp flags icur got (bno + count) (len - count) (n + 1) mval
                   }
              else do {
                g \<leftarrow> got;
                (mv, bno) \<leftarrow> xfs_bmapi_trim_map g bno len obno endp n flags;
                mval \<leftarrow> aset mval n mv;
                (mval, bno, len, n) \<leftarrow> xfs_bmapi_update_map mval len obno endp n flags;
                if bno \<ge> endp \<or> n \<ge> nmap then Some (mval, n)
                else do {
                  (icur, got) \<leftarrow> xfs_iext_next_extent ifp icur;
                  bmapi_read_loop ifp nmap obno endp flags icur got bno len n mval
                }
              })"

declare bmapi_read_loop.simps [code]

text \<open>
  The inode, the maps, their number and the error. \<open>blocks\<close> and \<open>verr\<close> are the btree of the fork
  on disk, as for \<open>xfs_iread_extents\<close>; \<open>shutdown\<close> is the state of the file system.
\<close>

definition xfs_bmapi_read ::
    "ino_mount \<Rightarrow> bool \<Rightarrow> xfs_bmbt_rec list list \<Rightarrow> errno option \<Rightarrow> bmap_inode \<Rightarrow> u64 \<Rightarrow> u64 \<Rightarrow> xfs_bmbt_irec list \<Rightarrow> nat \<Rightarrow> u32 \<Rightarrow>
     (bmap_inode \<times> xfs_bmbt_irec list \<times> nat \<times> errno option) option" where
  "xfs_bmapi_read m shutdown blocks verr bi bno len mval nmap flags = do {
     let whichfork = xfs_bmapi_whichfork flags;
     iext_assert (nmap \<ge> 1);
     iext_assert (flags AND NOT (XFS_BMAPI_ATTRFORK OR XFS_BMAPI_ENTIRE) = 0);
     case xfs_ifork_ptr bi whichfork of
       None \<Rightarrow> Some (bi, mval, nmap, Some EFSCORRUPTED)
     | Some ifp \<Rightarrow>
         if \<not> xfs_ifork_has_extents ifp then Some (bi, mval, nmap, Some EFSCORRUPTED)
         else if shutdown then Some (bi, mval, nmap, Some EIO)
         else do {
           (ifp, error) \<leftarrow> xfs_iread_extents m (bi_ip bi) whichfork blocks verr ifp;
           let bi = put_fork bi whichfork ifp;
           if error \<noteq> None then Some (bi, mval, nmap, error)
           else do {
             (icur, got) \<leftarrow> xfs_iext_lookup_extent (bf_iext ifp) bno;
             (mval, n) \<leftarrow> bmapi_read_loop (bf_iext ifp) nmap bno (bno + len) flags icur got bno len 0 mval;
             Some (bi, mval, n, None)
           }
         }
   }"

section \<open>What a file offset is mapped to\<close>

datatype block_map = Hole | Delalloc | Mapped u64 xfs_exntst

definition covers :: "nat \<Rightarrow> xfs_bmbt_irec \<Rightarrow> bool" where
  "covers off e \<longleftrightarrow> ext_start e \<le> off \<and> off < ext_end e"

definition ext_map :: "xfs_bmbt_irec \<Rightarrow> nat \<Rightarrow> block_map" where
  "ext_map e off =
     (if isnullstartblock (br_startblock e) then Delalloc
      else Mapped (br_startblock e + of_nat (off - ext_start e)) (br_state e))"

text \<open>The meaning of an extent list at a file offset.\<close>

definition mapping_at :: "xfs_bmbt_irec list \<Rightarrow> nat \<Rightarrow> block_map" where
  "mapping_at xs off = (case find (covers off) xs of None \<Rightarrow> Hole | Some e \<Rightarrow> ext_map e off)"

text \<open>The meaning of a returned map, which marks holes and delayed extents by their start block.\<close>

definition irec_at :: "xfs_bmbt_irec \<Rightarrow> nat \<Rightarrow> block_map" where
  "irec_at e off =
     (if br_startblock e = HOLESTARTBLOCK then Hole
      else if br_startblock e = DELAYSTARTBLOCK then Delalloc
      else Mapped (br_startblock e + of_nat (off - ext_start e)) (br_state e))"

text \<open>Maps that follow each other without a gap from one offset to another, none of them empty.\<close>

fun tiles :: "xfs_bmbt_irec list \<Rightarrow> nat \<Rightarrow> nat \<Rightarrow> bool" where
  "tiles [] a b \<longleftrightarrow> a = b"
| "tiles (e # es) a b \<longleftrightarrow> ext_start e = a \<and> br_blockcount e \<noteq> 0 \<and> tiles es (ext_end e) b"

definition map_exact :: "xfs_bmbt_irec list \<Rightarrow> xfs_bmbt_irec \<Rightarrow> bool" where
  "map_exact xs e \<longleftrightarrow> (\<forall>off. covers off e \<longrightarrow> irec_at e off = mapping_at xs off)"

end
