(* ===== verification/Bmap_Correct.thy ===== *)
theory Bmap_Correct
  imports Bmap_Read
begin

text \<open>
  Reading mappings is exact: the maps returned tile the range asked for and say of every block
  what the extent list says.
\<close>

section \<open>The meaning of extent lists\<close>

lemma mapping_inside:
  assumes "exts_ok xs" "i < length xs" "covers off (xs ! i)"
  shows "mapping_at xs off = ext_map (xs ! i) off"
proof -
  have "\<not> covers off (xs ! j)" if "j < i" for j
    using exts_ok_nth [OF assms(1) that assms(2)] assms(3) by (simp add: covers_def)
  then have "find (covers off) xs = Some (xs ! i)" using assms(2,3) by (auto simp: find_Some_iff)
  then show ?thesis by (simp add: mapping_at_def)
qed

lemma mapping_gap:
  assumes ok: "exts_ok xs" and i: "\<And>j. j < i \<Longrightarrow> j < length xs \<Longrightarrow> ext_end (xs ! j) \<le> off" "i < length xs \<Longrightarrow> off < ext_start (xs ! i)"
  shows "mapping_at xs off = Hole"
proof -
  have "\<not> covers off (xs ! j)" if j: "j < length xs" for j
  proof -
    consider "j < i" | "j = i" | "i < j" by linarith
    then show ?thesis
    proof cases
      case 3
      then have "ext_end (xs ! i) \<le> ext_start (xs ! j)" by (rule exts_ok_nth [OF ok _ j])
      then show ?thesis using i(2) exts_ok_nth_less [OF ok, of i] 3 j by (simp add: covers_def)
    qed (use i(1) [of j] i(2) j in \<open>auto simp: covers_def\<close>)
  qed
  then have "find (covers off) xs = None" by (auto simp: find_None_iff in_set_conv_nth)
  then show ?thesis by (simp add: mapping_at_def)
qed

section \<open>Tiling\<close>

lemma tiles_snoc: "tiles (ms @ [e]) a b \<longleftrightarrow> tiles ms a (ext_start e) \<and> br_blockcount e \<noteq> 0 \<and> b = ext_end e"
  by (induction ms arbitrary: a) auto

lemma tiles_le: "tiles ms a b \<Longrightarrow> a \<le> b"
proof (induction ms arbitrary: a)
  case (Cons e ms)
  then have "ext_end e \<le> b" "ext_start e = a" by simp_all
  then show ?case by (simp add: ext_end_def ext_start_def)
qed simp

lemma covers_ext_end_add:
  assumes "ext_end e = ext_start f" "ext_start g = ext_start e" "ext_end g = ext_end f"
  shows "covers off g \<longleftrightarrow> covers off e \<or> covers off f"
  using assms by (auto simp: covers_def ext_end_def ext_start_def)

text \<open>What merging the new map into the last one makes of the maps.\<close>

definition real_contig :: "xfs_bmbt_irec \<Rightarrow> xfs_bmbt_irec \<Rightarrow> bool" where
  "real_contig prev mv \<longleftrightarrow> br_startblock mv \<noteq> DELAYSTARTBLOCK \<and> br_startblock prev \<noteq> DELAYSTARTBLOCK \<and>
     br_startblock prev \<noteq> HOLESTARTBLOCK \<and> br_startblock mv = br_startblock prev + br_blockcount prev \<and>
     br_state prev = br_state mv"

definition merge_map :: "xfs_bmbt_irec list \<Rightarrow> xfs_bmbt_irec \<Rightarrow> xfs_bmbt_irec list" where
  "merge_map ms mv =
     (if ms \<noteq> [] \<and> real_contig (last ms) mv
      then butlast ms @ [(last ms)\<lparr>br_blockcount := br_blockcount (last ms) + br_blockcount mv\<rparr>]
      else if ms \<noteq> [] \<and> br_startblock mv = DELAYSTARTBLOCK \<and> br_startblock (last ms) = DELAYSTARTBLOCK
      then butlast ms @ [(last ms)\<lparr>br_blockcount := br_blockcount (last ms) + br_blockcount mv, br_state := br_state mv\<rparr>]
      else ms @ [mv])"

lemma ext_end_lt: "ext_end e < 2 ^ 64 \<Longrightarrow> unat (br_startoff e + br_blockcount e) = ext_end e"
  by (simp add: ext_end_def ext_start_def unat_add_small)

lemma merged_ext:
  assumes "ext_end prev = ext_start mv" "ext_end mv < 2 ^ 64" "br_blockcount mv \<noteq> 0"
    and g: "g = prev\<lparr>br_blockcount := br_blockcount prev + br_blockcount mv, br_state := st\<rparr>"
  shows "ext_start g = ext_start prev" "ext_end g = ext_end mv" "br_blockcount g \<noteq> 0"
proof -
  have "unat (br_blockcount prev) + unat (br_blockcount mv) < 2 ^ 64" using assms(1,2) by (simp add: ext_end_def ext_start_def)
  then have u: "unat (br_blockcount prev + br_blockcount mv) = unat (br_blockcount prev) + unat (br_blockcount mv)"
    by (simp add: unat_add_small)
  show "ext_start g = ext_start prev" by (simp add: g ext_start_def)
  show "ext_end g = ext_end mv" using u assms(1) by (simp add: g ext_end_def ext_start_def)
  have "0 < unat (br_blockcount mv)" using assms(3) by (simp add: unat_gt_0)
  then have "0 < unat (br_blockcount g)" using u by (simp add: g)
  then show "br_blockcount g \<noteq> 0" by (simp add: unat_gt_0)
qed

lemma irec_at_add:
  assumes "ext_end prev = ext_start mv" "real_contig prev mv" "covers off mv" "br_startblock mv \<noteq> HOLESTARTBLOCK"
    and g: "g = prev\<lparr>br_blockcount := n\<rparr>"
  shows "irec_at g off = irec_at mv off"
proof -
  have "unat (br_blockcount prev) + (off - ext_start mv) = off - ext_start prev"
    using assms(1,3) by (simp add: covers_def ext_end_def ext_start_def)
  then have "of_nat (unat (br_blockcount prev) + (off - ext_start mv)) = (of_nat (off - ext_start prev) :: u64)" by simp
  then have "br_blockcount prev + of_nat (off - ext_start mv) = of_nat (off - ext_start prev)" by simp
  then show ?thesis using assms(2,4) by (auto simp: irec_at_def real_contig_def g ext_start_def add.assoc)
qed

lemma merge_map_exact:
  assumes t: "tiles ms a (ext_start mv)" "br_blockcount mv \<noteq> 0" "ext_end mv < 2 ^ 64" "br_startblock mv \<noteq> HOLESTARTBLOCK"
    and ex: "\<forall>e \<in> set (ms @ [mv]). map_exact xs e"
  shows "tiles (merge_map ms mv) a (ext_end mv)" "\<forall>e \<in> set (merge_map ms mv). map_exact xs e"
proof -
  have "tiles (merge_map ms mv) a (ext_end mv) \<and> (\<forall>e \<in> set (merge_map ms mv). map_exact xs e)"
  proof (cases "ms = []")
    case True
    then show ?thesis using t ex by (simp add: merge_map_def)
  next
    case False
    then obtain ps p where ms: "ms = ps @ [p]" by (metis rev_exhaust)
    have p: "tiles ps a (ext_start p)" "ext_end p = ext_start mv" using t(1) by (simp_all add: ms tiles_snoc)
    have merged: "tiles (ps @ [g]) a (ext_end mv) \<and> (\<forall>e \<in> set (ps @ [g]). map_exact xs e)"
      if g: "g = p\<lparr>br_blockcount := br_blockcount p + br_blockcount mv, br_state := st\<rparr>"
        and at: "\<And>off. covers off p \<Longrightarrow> irec_at g off = irec_at p off" "\<And>off. covers off mv \<Longrightarrow> irec_at g off = irec_at mv off" for g st
    proof -
      note e = merged_ext [OF p(2) t(3,2) g]
      have "map_exact xs g" using ex at covers_ext_end_add [OF p(2) e(1,2)] by (auto simp: map_exact_def ms)
      then show ?thesis using p(1) e ex by (auto simp: tiles_snoc ms)
    qed
    consider "real_contig p mv" | "\<not> real_contig p mv" "br_startblock mv = DELAYSTARTBLOCK" "br_startblock p = DELAYSTARTBLOCK"
      | "\<not> real_contig p mv" "\<not> (br_startblock mv = DELAYSTARTBLOCK \<and> br_startblock p = DELAYSTARTBLOCK)" by blast
    then show ?thesis
    proof cases
      case 1
      let ?g = "p\<lparr>br_blockcount := br_blockcount p + br_blockcount mv\<rparr>"
      have "?g = p\<lparr>br_blockcount := br_blockcount p + br_blockcount mv, br_state := br_state p\<rparr>" by simp
      moreover have "irec_at ?g off = irec_at mv off" if "covers off mv" for off by (rule irec_at_add [OF p(2) 1 that t(4) refl])
      moreover have "irec_at ?g off = irec_at p off" for off by (simp add: irec_at_def ext_start_def)
      ultimately have "tiles (ps @ [?g]) a (ext_end mv) \<and> (\<forall>e \<in> set (ps @ [?g]). map_exact xs e)" by (intro merged)
      then show ?thesis using 1 by (simp add: merge_map_def ms)
    next
      case 2
      let ?g = "p\<lparr>br_blockcount := br_blockcount p + br_blockcount mv, br_state := br_state mv\<rparr>"
      have "irec_at ?g off = Delalloc" "irec_at p off = Delalloc" "irec_at mv off = Delalloc" for off
        using 2(2,3) by (simp_all add: irec_at_def DELAYSTARTBLOCK_def HOLESTARTBLOCK_def)
      then have "tiles (ps @ [?g]) a (ext_end mv) \<and> (\<forall>e \<in> set (ps @ [?g]). map_exact xs e)" by (intro merged [OF refl]) simp_all
      then show ?thesis using 2 by (simp add: merge_map_def ms)
    next
      case 3
      then have "merge_map ms mv = ms @ [mv]" by (auto simp: merge_map_def ms)
      then show ?thesis using t(1,2) ex tiles_snoc [of ms mv] by simp
    qed
  qed
  then show "tiles (merge_map ms mv) a (ext_end mv)" "\<forall>e \<in> set (merge_map ms mv). map_exact xs e" by blast+
qed

section \<open>Trimming\<close>

lemma unat_of_nat_self: "of_nat (unat w) = (w :: u64)"
  by simp

lemma startblock_bound: "iext_set_asserts e \<Longrightarrow> unat (br_startblock e) < 2 ^ 52"
  using mask_zero_unat [of "br_startblock e" 52] by (auto simp: iext_set_asserts_def xfs_masklo_mask)

lemma special_startblocks: "unat DELAYSTARTBLOCK = 2 ^ 64 - 1" "unat HOLESTARTBLOCK = 2 ^ 64 - 2"
proof -
  show one: "unat DELAYSTARTBLOCK = 2 ^ 64 - 1"
    by (simp add: DELAYSTARTBLOCK_def unsigned_minus_1_eq_mask mask_eq_exp_minus_1)
  have "HOLESTARTBLOCK = DELAYSTARTBLOCK - 1" by (simp add: HOLESTARTBLOCK_def DELAYSTARTBLOCK_def)
  moreover have "DELAYSTARTBLOCK \<noteq> 0" by (simp add: DELAYSTARTBLOCK_def)
  ultimately show "unat HOLESTARTBLOCK = 2 ^ 64 - 2" using one unat_minus_one [of DELAYSTARTBLOCK] by simp
qed

lemma trim_map_ok:
  assumes e: "iext_set_asserts e" "ext_start e \<le> unat bno" "unat bno < ext_end e"
    and b: "obno \<le> bno" "bno < endp" "flags AND XFS_BMAPI_ENTIRE = 0"
  obtains mv where "xfs_bmapi_trim_map e bno (endp - bno) obno endp n flags = Some (mv, bno)"
    "ext_start mv = unat bno" "br_blockcount mv \<noteq> 0" "br_blockcount mv \<le> endp - bno"
    "ext_end mv = min (unat endp) (ext_end e)" "br_startblock mv \<noteq> HOLESTARTBLOCK"
    "\<And>off. covers off mv \<Longrightarrow> irec_at mv off = ext_map e off \<and> covers off e"
proof -
  let ?d = "bno - br_startoff e"
  define mv where "mv = \<lparr>br_startoff = bno,
      br_startblock = (if isnullstartblock (br_startblock e) then DELAYSTARTBLOCK else br_startblock e + ?d),
      br_blockcount = min (endp - bno) (br_blockcount e - ?d), br_state = br_state e\<rparr>"
  have so: "br_startoff e \<le> bno" using e(2) by (simp add: word_le_nat_alt ext_start_def)
  have d: "unat ?d = unat bno - ext_start e" using so by (simp add: unat_sub_le ext_start_def)
  have "?d \<le> br_blockcount e" using d e(3) by (simp add: word_le_nat_alt ext_end_def ext_start_def)
  then have c: "unat (br_blockcount e - ?d) = ext_end e - unat bno"
    using d e(2) by (simp add: unat_sub_le ext_end_def ext_start_def)
  have eb: "unat (endp - bno) = unat endp - unat bno" "unat bno < unat endp"
    using b(2) by (simp_all add: unat_sub_le word_less_nat_alt order_less_imp_le)
  have bc: "unat (br_blockcount mv) = min (unat endp - unat bno) (ext_end e - unat bno)"
    using c eb by (auto simp: mv_def min_def word_le_nat_alt)
  have past: "\<not> br_startoff e + br_blockcount e \<le> obno"
    using b(1) e(3) ext_end_word [OF e(1)] by (simp add: word_le_nat_alt)
  have ne: "br_blockcount mv \<noteq> 0" 
  proof
    assume "br_blockcount mv = 0"
    then have "unat (br_blockcount mv) = 0" by simp
    then show False using bc eb(2) e(3) by linarith
  qed
  have le: "br_blockcount mv \<le> endp - bno" by (simp add: mv_def)
  have en: "ext_end mv = min (unat endp) (ext_end e)" using bc eb(2) e(3) by (auto simp: ext_end_def ext_start_def mv_def min_def)
  have "unat (br_startblock e) + unat ?d < 2 ^ 55"
    using ext_bounds [OF e(1)] startblock_bound [OF e(1)] d e(3) by (simp add: ext_end_def ext_start_def)
  then have "unat (br_startblock e + ?d) < 2 ^ 55" by (subst unat_add_small) simp_all
  then have sb: "br_startblock e + ?d \<noteq> HOLESTARTBLOCK" "br_startblock e + ?d \<noteq> DELAYSTARTBLOCK"
    by (auto simp: special_startblocks)
  then have nh: "br_startblock mv \<noteq> HOLESTARTBLOCK" by (auto simp: mv_def HOLESTARTBLOCK_def DELAYSTARTBLOCK_def)
  have at: "irec_at mv off = ext_map e off \<and> covers off e" if cov: "covers off mv" for off
  proof -
    have o: "unat bno \<le> off" "off < ext_end e" using cov en by (auto simp: covers_def mv_def ext_start_def)
    have "unat ?d + (off - unat bno) = off - ext_start e" using d o(1) e(2) by simp
    then have "?d + of_nat (off - unat bno) = of_nat (off - ext_start e)" by (metis of_nat_add unat_of_nat_self)
    then show ?thesis using sb o e(2)
      by (auto simp: irec_at_def ext_map_def mv_def ext_start_def covers_def add.assoc HOLESTARTBLOCK_def DELAYSTARTBLOCK_def)
  qed
  have "xfs_bmapi_trim_map e bno (endp - bno) obno endp n flags = Some (mv, bno)"
    using past b le leD [OF b(1)] by (simp add: xfs_bmapi_trim_map_def iext_assert_def mv_def [symmetric] Let_def)
  then show thesis using that [of mv] ne le en nh at by (simp add: mv_def ext_start_def)
qed

section \<open>Storing a map\<close>

lemma update_map_ok:
  assumes n: "n < length maps" "maps ! n = mv" "take n maps = ms"
    and t: "tiles ms (unat obno) (ext_start mv)" "br_blockcount mv \<noteq> 0"
    and e: "ext_end mv \<le> unat endp" "br_blockcount mv \<le> len" "flags AND XFS_BMAPI_ENTIRE = 0"
  obtains maps' n' bno' where "xfs_bmapi_update_map maps len obno endp n flags = Some (maps', bno', endp - bno', n')"
    "unat bno' = ext_end mv" "take n' maps' = merge_map ms mv" "length maps' = length maps" "n \<le> n'" "n' \<le> n + 1"
proof -
  let ?b = "br_startoff mv + br_blockcount mv"
  have lt: "ext_end mv < 2 ^ 64" using e(1) u64_unat_bound [of endp] by simp
  have b: "unat ?b = ext_end mv" by (rule ext_end_lt [OF lt])
  have le: "?b \<le> endp" using b e(1) by (simp add: word_le_nat_alt)
  have get: "aget maps n = Some mv" using n by (simp add: aget_def)
  have all: "take (n + 1) maps = ms @ [mv]" using n by (simp add: take_Suc_conv_app_nth)
  show thesis
  proof (cases "n = 0")
    case True
    then have "unat obno < ext_end mv" using t n ext_start_less_end by auto
    then have "\<not> ?b \<le> obno" using b by (simp add: word_le_nat_alt)
    then show thesis
      using that [of maps ?b "n + 1"] get le e(2,3) True b all n(3)
      by (simp add: xfs_bmapi_update_map_def Let_def iext_assert_def merge_map_def)
  next
    case False
    define p where "p = maps ! (n - 1)"
    have ms: "ms = take (n - 1) maps @ [p]" using n(1,3) False take_Suc_conv_app_nth [of "n - 1" maps] by (simp add: p_def)
    have gp: "aget maps (n - 1) = Some p" using n(1) by (simp add: aget_def p_def)
    have pe: "ext_end p = ext_start mv" "br_blockcount p \<noteq> 0" using t(1) by (simp_all add: ms tiles_snoc)
    have "ext_start mv < 2 ^ 64" using lt ext_start_less_end [OF t(2)] by linarith
    then have "unat (br_startoff p + br_blockcount p) = unat (br_startoff mv)" using pe(1) ext_end_lt [of p] by (simp add: ext_start_def)
    then have so: "br_startoff mv = br_startoff p + br_blockcount p" by (simp add: word_unat_eq_iff)
    have ns: "br_startoff mv \<noteq> br_startoff p" using pe ext_start_less_end [OF pe(2)] by (auto simp: ext_start_def)
    have upd: "take n (maps[n - 1 := g]) = take (n - 1) maps @ [g]" for g
      using n(1) False take_Suc_conv_app_nth [of "n - 1" "maps[n - 1 := g]"] by simp
    have ast: "aset maps (n - 1) g = Some (maps[n - 1 := g])" for g using n(1) by (simp add: aset_def)
    have bl: "butlast ms = take (n - 1) maps" "last ms = p" "ms \<noteq> []" by (simp_all add: ms)
    let ?g = "p\<lparr>br_blockcount := br_blockcount p + br_blockcount mv\<rparr>"
    have run: "xfs_bmapi_update_map maps len obno endp n flags =
        (if real_contig p mv then Some (maps[n - 1 := ?g], ?b, endp - ?b, n)
         else if br_startblock mv = DELAYSTARTBLOCK \<and> br_startblock p = DELAYSTARTBLOCK
         then Some (maps[n - 1 := ?g\<lparr>br_state := br_state mv\<rparr>], ?b, endp - ?b, n)
         else Some (maps, ?b, endp - ?b, n + 1))"
      using get gp le e(2,3) False ns so ast
      by (auto simp: xfs_bmapi_update_map_def Let_def iext_assert_def real_contig_def)
    have mm: "merge_map ms mv =
        (if real_contig p mv then take (n - 1) maps @ [?g]
         else if br_startblock mv = DELAYSTARTBLOCK \<and> br_startblock p = DELAYSTARTBLOCK
         then take (n - 1) maps @ [?g\<lparr>br_state := br_state mv\<rparr>] else ms @ [mv])"
      by (simp add: merge_map_def bl)
    show thesis
      by (rule that [where bno' = ?b and n' = "snd (snd (snd (the (xfs_bmapi_update_map maps len obno endp n flags))))"
            and maps' = "fst (the (xfs_bmapi_update_map maps len obno endp n flags))"])
         (use b upd all in \<open>simp_all add: run mm\<close>)
  qed
qed

section \<open>The loop\<close>

text \<open>The state of the loop before position \<open>i\<close> of the extent list, with the maps returned so far.\<close>

definition read_state ::
    "Iext_Tree.xfs_ifork \<Rightarrow> xfs_bmbt_irec list \<Rightarrow> nat \<Rightarrow> u64 \<Rightarrow> xfs_iext_cursor \<Rightarrow> xfs_bmbt_irec option \<Rightarrow> nat \<Rightarrow> u64 \<Rightarrow> nat \<Rightarrow> xfs_bmbt_irec list \<Rightarrow> bool" where
  "read_state ifp xs nmap obno icur got i bno n mval \<longleftrightarrow>
     tiles (take n mval) (unat obno) (unat bno) \<and> (\<forall>e \<in> set (take n mval). map_exact xs e) \<and> n \<le> nmap \<and> nmap \<le> length mval \<and>
     i \<le> length xs \<and> (\<forall>j < i. ext_end (xs ! j) \<le> unat bno) \<and>
     (if i < length xs then got = Some (xs ! i) \<and> iext_at ifp xs icur i \<and> unat bno < ext_end (xs ! i) else got = None)"

text \<open>What the loop returns.\<close>

definition read_done :: "xfs_bmbt_irec list \<Rightarrow> nat \<Rightarrow> nat \<Rightarrow> nat \<Rightarrow> xfs_bmbt_irec list \<Rightarrow> bool" where
  "read_done xs nmap a b ms \<longleftrightarrow>
     (\<exists>c. tiles ms a c \<and> c \<le> b \<and> (\<forall>e \<in> set ms. map_exact xs e) \<and> length ms \<le> nmap \<and> (c = b \<or> length ms = nmap))"

lemma read_state_hole:
  assumes st: "read_state ifp xs nmap obno icur got i bno n mval" "exts_ok xs" and n: "n < nmap" "bno < endp"
    and s: "s = (case got of None \<Rightarrow> endp | Some g \<Rightarrow> br_startoff g)" "bno < s" and c: "count = min (endp - bno) (s - bno)"
  obtains mval' where "aset mval n \<lparr>br_startoff = bno, br_startblock = HOLESTARTBLOCK, br_blockcount = count, br_state = XFS_EXT_NORM\<rparr> = Some mval'"
    "read_state ifp xs nmap obno icur got i (bno + count) (n + 1) mval'" "unat bno < unat (bno + count)" "bno + count \<le> endp"
    "endp - bno - count = endp - (bno + count)"
proof -
  define h where "h = \<lparr>br_startoff = bno, br_startblock = HOLESTARTBLOCK, br_blockcount = count, br_state = XFS_EXT_NORM\<rparr>"
  have u: "unat (endp - bno) = unat endp - unat bno" "unat (s - bno) = unat s - unat bno" "unat bno < unat endp" "unat bno < unat s"
    using n(2) s(2) by (simp_all add: unat_sub_le word_less_nat_alt order_less_imp_le)
  have uc: "unat count = min (unat endp) (unat s) - unat bno" using u by (auto simp: c min_def word_le_nat_alt)
  then have b: "unat (bno + count) = min (unat endp) (unat s)" using u u64_unat_bound [of endp] by (subst unat_add_small) auto
  have h: "ext_start h = unat bno" "ext_end h = unat (bno + count)" "br_blockcount h \<noteq> 0"
    using b uc u by (auto simp: h_def ext_start_def ext_end_def unat_gt_0 [symmetric] simp del: unat_gt_0)
  have gap: "mapping_at xs off = Hole" if "covers off h" for off
  proof (rule mapping_gap [OF st(2), of i])
    show "ext_end (xs ! j) \<le> off" if "j < i" for j
      using st(1) that \<open>covers off h\<close> h by (force simp: read_state_def covers_def)
    show "off < ext_start (xs ! i)" if "i < length xs"
      using st(1) that \<open>covers off h\<close> h b s by (simp add: read_state_def covers_def ext_start_def)
  qed
  then have ex: "map_exact xs h" by (simp add: map_exact_def h_def irec_at_def)
  have len: "n < length mval" using st(1) n(1) by (simp add: read_state_def)
  then have tk: "take (n + 1) (mval[n := h]) = take n mval @ [h]" by (simp add: take_Suc_conv_app_nth)
  have "unat (bno + count) < ext_end (xs ! i)" if "i < length xs"
    using st(1) that b s exts_ok_nth_less [OF st(2) that] by (simp add: read_state_def ext_start_def)
  then have "read_state ifp xs nmap obno icur got i (bno + count) (n + 1) (mval[n := h])"
    using st(1) tk h ex n(1) b u by (force simp: read_state_def tiles_snoc)
  then show thesis
    using that [of "mval[n := h]"] len h_def b u by (simp add: aset_def word_le_nat_alt algebra_simps)
qed

lemma read_state_extent:
  assumes st: "read_state ifp xs nmap obno icur (Some g) i bno n mval" "exts_ok xs" and n: "n < nmap" "bno < endp"
    and s: "br_startoff g \<le> bno" and f: "flags AND XFS_BMAPI_ENTIRE = 0"
  obtains mv mval1 mval' bno' n' where "xfs_bmapi_trim_map g bno (endp - bno) obno endp n flags = Some (mv, bno)"
    "aset mval n mv = Some mval1" "xfs_bmapi_update_map mval1 (endp - bno) obno endp n flags = Some (mval', bno', endp - bno', n')"
    "unat bno < unat bno'" "bno' \<le> endp" "tiles (take n' mval') (unat obno) (unat bno')" "\<forall>e \<in> set (take n' mval'). map_exact xs e"
    "n' \<le> nmap" "nmap \<le> length mval'" "bno' < endp \<Longrightarrow> unat bno' = ext_end (xs ! i)"
proof -
  have i: "i < length xs" "g = xs ! i" "unat bno < ext_end g" using st(1) by (auto simp: read_state_def split: if_splits)
  have t: "tiles (take n mval) (unat obno) (unat bno)" "\<forall>e \<in> set (take n mval). map_exact xs e" "nmap \<le> length mval"
    using st(1) by (auto simp: read_state_def)
  have "iext_set_asserts g" using exts_ok_elem [OF st(2), of g] i by simp
  moreover have "ext_start g \<le> unat bno" using s by (simp add: word_le_nat_alt ext_start_def)
  moreover have "obno \<le> bno" using tiles_le [OF t(1)] by (simp add: word_le_nat_alt)
  ultimately obtain mv where mv: "xfs_bmapi_trim_map g bno (endp - bno) obno endp n flags = Some (mv, bno)"
    "ext_start mv = unat bno" "br_blockcount mv \<noteq> 0" "br_blockcount mv \<le> endp - bno"
    "ext_end mv = min (unat endp) (ext_end g)" "br_startblock mv \<noteq> HOLESTARTBLOCK"
    "\<And>off. covers off mv \<Longrightarrow> irec_at mv off = ext_map g off \<and> covers off g"
    using trim_map_ok [OF _ _ i(3) _ n(2) f] by metis
  have "map_exact xs mv" using mv(7) mapping_inside [OF st(2) i(1)] i(2) by (simp add: map_exact_def)
  then have ex: "\<forall>e \<in> set (take n mval @ [mv]). map_exact xs e" using t(2) by simp
  let ?m1 = "mval[n := mv]"
  have len: "n < length mval" using t(3) n(1) by simp
  have m1: "n < length ?m1" "?m1 ! n = mv" "take n ?m1 = take n mval" using len by simp_all
  have en: "ext_end mv \<le> unat endp" "ext_end mv < 2 ^ 64" using mv(5) u64_unat_bound [of endp] by simp_all
  have tl: "tiles (take n mval) (unat obno) (ext_start mv)" using t(1) mv(2) by simp
  obtain mval' n' bno' where up: "xfs_bmapi_update_map ?m1 (endp - bno) obno endp n flags = Some (mval', bno', endp - bno', n')"
    "unat bno' = ext_end mv" "take n' mval' = merge_map (take n mval) mv" "length mval' = length ?m1" "n \<le> n'" "n' \<le> n + 1"
    by (rule update_map_ok [OF m1 tl mv(3) en(1) mv(4) f])
  note mm = merge_map_exact [OF tl mv(3) en(2) mv(6) ex]
  show thesis
  proof (rule that [OF mv(1) _ up(1)])
    show "aset mval n mv = Some ?m1" using len by (simp add: aset_def)
    show "unat bno < unat bno'" using up(2) mv(2,3) ext_start_less_end by metis
    show "bno' \<le> endp" using up(2) en(1) by (simp add: word_le_nat_alt)
    show "tiles (take n' mval') (unat obno) (unat bno')" "\<forall>e \<in> set (take n' mval'). map_exact xs e" using up(2,3) mm by simp_all
    show "unat bno' = ext_end (xs ! i)" if "bno' < endp" using that up(2) mv(5) i(2) by (simp add: word_less_nat_alt)
  qed (use up t(3) n(1) in simp_all)
qed

lemma read_next:
  assumes "iext_at ifp xs icur i" "i < length xs" "exts_ok xs" "unat bno = ext_end (xs ! i)"
    and "tiles (take n mval) (unat obno) (unat bno)" "\<forall>e \<in> set (take n mval). map_exact xs e" "n \<le> nmap" "nmap \<le> length mval"
    and "\<forall>j < i. ext_end (xs ! j) \<le> unat bno"
  obtains c' got' where "xfs_iext_next_extent ifp icur = Some (c', got')" "read_state ifp xs nmap obno c' got' (i + 1) bno n mval"
proof -
  obtain c' where c: "xfs_iext_next ifp icur = Some c'" "iext_at ifp xs c' (i + 1)" using iel.step_at [OF assms(1,2)] by blast
  have "unat bno < ext_end (xs ! (i + 1))" if "i + 1 < length xs"
    using exts_ok_nth [OF assms(3), of i "i + 1"] exts_ok_nth_less [OF assms(3) that] that assms(4) by simp
  then show thesis using that c iel.get_at [OF c(2)] assms(2,4-9)
    by (auto simp: xfs_iext_next_extent_def read_state_def less_Suc_eq)
qed

lemma read_loop_ok:
  assumes "read_state ifp xs nmap obno icur got i bno n mval" "exts_ok xs" "bno \<le> endp" "flags AND XFS_BMAPI_ENTIRE = 0"
  shows "\<exists>mval' n'. bmapi_read_loop ifp nmap obno endp flags icur got bno (endp - bno) n mval = Some (mval', n') \<and>
    read_done xs nmap (unat obno) (unat endp) (take n' mval') \<and> n' \<le> length mval'"
  using assms
proof (induction "unat endp - unat bno" arbitrary: icur got i bno n mval rule: less_induct)
  case less
  let ?loop = "bmapi_read_loop ifp nmap obno endp flags icur got bno (endp - bno) n mval"
  let ?s = "case got of None \<Rightarrow> endp | Some g \<Rightarrow> br_startoff g"
  have st: "tiles (take n mval) (unat obno) (unat bno)" "\<forall>e \<in> set (take n mval). map_exact xs e" "n \<le> nmap" "nmap \<le> length mval"
    using less.prems(1) by (auto simp: read_state_def)
  have le: "unat bno \<le> unat endp" using less.prems(3) by (simp add: word_le_nat_alt)
  consider "\<not> (bno < endp \<and> n < nmap)" | "bno < endp" "n < nmap" "bno < ?s" | "bno < endp" "n < nmap" "\<not> bno < ?s" by blast
  then show ?case
  proof cases
    case 1
    then have "?loop = Some (mval, n)" by (subst bmapi_read_loop.simps) simp
    moreover have "bno = endp \<or> n = nmap" using 1 st(3) less.prems(3) by auto
    then have "read_done xs nmap (unat obno) (unat endp) (take n mval)"
      unfolding read_done_def using st le by (intro exI [of _ "unat bno"]) auto
    ultimately show ?thesis using st(3,4) by simp
  next
    case 2
    define count where "count = min (endp - bno) (?s - bno)"
    obtain mval' where h: "aset mval n \<lparr>br_startoff = bno, br_startblock = HOLESTARTBLOCK, br_blockcount = count, br_state = XFS_EXT_NORM\<rparr> = Some mval'"
      "read_state ifp xs nmap obno icur got i (bno + count) (n + 1) mval'" "unat bno < unat (bno + count)" "bno + count \<le> endp"
      "endp - bno - count = endp - (bno + count)"
      by (rule read_state_hole [OF less.prems(1,2) 2(2,1) refl 2(3) count_def])
    have "?loop = bmapi_read_loop ifp nmap obno endp flags icur got (bno + count) (endp - (bno + count)) (n + 1) mval'"
      using 2 h(1,5) by (subst bmapi_read_loop.simps) (simp add: Let_def count_def [symmetric] diff_diff_eq)
    moreover have "unat endp - unat (bno + count) < unat endp - unat bno"
      using h(3,4) by (simp add: word_le_nat_alt)
    ultimately show ?thesis using less.hyps [OF _ h(2) less.prems(2) h(4) less.prems(4)] by simp
  next
    case 3
    then obtain g where g: "got = Some g" "br_startoff g \<le> bno" by (cases got) auto
    obtain mv mval1 mval' bno' n' where e: "xfs_bmapi_trim_map g bno (endp - bno) obno endp n flags = Some (mv, bno)"
      "aset mval n mv = Some mval1" "xfs_bmapi_update_map mval1 (endp - bno) obno endp n flags = Some (mval', bno', endp - bno', n')"
      "unat bno < unat bno'" "bno' \<le> endp" "tiles (take n' mval') (unat obno) (unat bno')" "\<forall>e \<in> set (take n' mval'). map_exact xs e"
      "n' \<le> nmap" "nmap \<le> length mval'" "bno' < endp \<Longrightarrow> unat bno' = ext_end (xs ! i)"
      using read_state_extent [OF _ less.prems(2) 3(2,1) g(2) less.prems(4)] less.prems(1) g(1) by metis
    have run: "?loop = (if bno' \<ge> endp \<or> n' \<ge> nmap then Some (mval', n')
        else do { (c, got) \<leftarrow> xfs_iext_next_extent ifp icur; bmapi_read_loop ifp nmap obno endp flags c got bno' (endp - bno') n' mval' })"
      using 3 g e(1-3) by (subst bmapi_read_loop.simps) simp
    show ?thesis
    proof (cases "bno' \<ge> endp \<or> n' \<ge> nmap")
      case True
      then have "bno' = endp \<or> n' = nmap" using e(5,8) by auto
      then have "read_done xs nmap (unat obno) (unat endp) (take n' mval')"
        unfolding read_done_def using e(5-9) by (intro exI [of _ "unat bno'"]) (auto simp: word_le_nat_alt)
      then show ?thesis using run True e(8,9) by simp
    next
      case False
      have i: "iext_at ifp xs icur i" "i < length xs" "\<forall>j < i. ext_end (xs ! j) \<le> unat bno'"
        using less.prems(1) g(1) e(4) by (auto simp: read_state_def split: if_splits)
      obtain c got' where nx: "xfs_iext_next_extent ifp icur = Some (c, got')" "read_state ifp xs nmap obno c got' (i + 1) bno' n' mval'"
      proof (rule read_next [OF i(1,2) less.prems(2) e(10) e(6-9) i(3)])
        show "bno' < endp" using False not_le by blast
      qed
      have "unat endp - unat bno' < unat endp - unat bno" using e(4,5) by (simp add: word_le_nat_alt)
      then show ?thesis using less.hyps [OF _ nx(2) less.prems(2) e(5) less.prems(4)] run nx(1) False by simp
    qed
  qed
qed

lemma bmapi_read_ok:
  assumes fork: "xfs_ifork_ptr bi (xfs_bmapi_whichfork flags) = Some ifp" "xfs_ifork_has_extents ifp"
    "xfs_iread_extents m (bi_ip bi) (xfs_bmapi_whichfork flags) blocks verr ifp = Some (ifp', None)" "iext_list (bf_iext ifp') xs"
    and arg: "bno < XFS_IEXT_KEY_INVALID" "unat bno + unat len < 2 ^ 64" "1 \<le> nmap" "nmap \<le> length mval"
      "flags = 0 \<or> flags = XFS_BMAPI_ATTRFORK"
  shows "\<exists>mval' n. xfs_bmapi_read m False blocks verr bi bno len mval nmap flags =
      Some (put_fork bi (xfs_bmapi_whichfork flags) ifp', mval', n, None) \<and>
    read_done xs nmap (unat bno) (unat bno + unat len) (take n mval') \<and> n \<le> length mval'"
proof -
  let ?i = "lookup_index xs bno" and ?t = "bf_iext ifp'"
  have ok: "exts_ok xs" by (rule iel.rep_exts_ok [OF fork(4)])
  obtain c where c: "xfs_iext_lookup_extent ?t bno = Some (c, if ?i < length xs then Some (xs ! ?i) else None)" "iext_at ?t xs c ?i"
    using iel.lookup_at [OF fork(4) arg(1)] by blast
  have st: "read_state ?t xs nmap bno c (if ?i < length xs then Some (xs ! ?i) else None) ?i bno 0 mval"
    unfolding read_state_def using c(2) lookup_index_le lookup_index_before lookup_index_at arg(4) by auto
  have fl: "flags AND XFS_BMAPI_ENTIRE = 0" "flags AND NOT (XFS_BMAPI_ATTRFORK OR XFS_BMAPI_ENTIRE) = 0"
    using arg(5) by (auto simp: XFS_BMAPI_ATTRFORK_def XFS_BMAPI_ENTIRE_def)
  have e: "unat (bno + len) = unat bno + unat len" using arg(2) by (simp add: unat_add_small)
  then have "bno \<le> bno + len" by (simp add: word_le_nat_alt)
  then obtain mval' n where "bmapi_read_loop ?t nmap bno (bno + len) flags c (if ?i < length xs then Some (xs ! ?i) else None) bno len 0 mval = Some (mval', n)"
    "read_done xs nmap (unat bno) (unat bno + unat len) (take n mval')" "n \<le> length mval'"
    using read_loop_ok [OF st ok _ fl(1), of "bno + len"] e by auto
  then show ?thesis using fork(1-3) c(1) arg(3) fl(2) by (simp add: xfs_bmapi_read_def iext_assert_def)
qed

section \<open>An example\<close>

definition bmap_example :: bmap_inode where
  "bmap_example =
     \<lparr>bi_ip = inode_example,
      bi_df = \<lparr>bf_format = 2, bf_nextents = 2, bf_needextents = False, bf_iext = fork_thin\<rparr>,
      bi_af = \<lparr>bf_format = 3, bf_nextents = 2, bf_needextents = True, bf_iext = fork_empty\<rparr>\<rparr>"

section \<open>Properties\<close>

text \<open>
  C5. Reading the mappings of a range of file blocks: the maps returned follow each other without
  a gap from the first block asked for, none is empty, and every one of them says of each of
  its blocks what the extents of the fork say: the disk block and its state, a delayed
  allocation, or a hole. They reach the end of the range, unless the array of maps is full
  first. No assertion fails and nothing is written past the array, whatever the extents are
  and in whatever way neighbouring maps are merged. The extents of the fork load, the range does
  not wrap, and the flags are none or \<^verbatim>\<open>XFS_BMAPI_ATTRFORK\<close>; \<^verbatim>\<open>XFS_BMAPI_ENTIRE\<close>, which no caller passes, is excluded.
\<close>

theorem bmapi_read_exact:
  assumes "xfs_ifork_ptr bi (xfs_bmapi_whichfork flags) = Some ifp" and "xfs_ifork_has_extents ifp"
    and "xfs_iread_extents m (bi_ip bi) (xfs_bmapi_whichfork flags) blocks verr ifp = Some (ifp', None)"
    and "iext_list (bf_iext ifp') xs" and "bno < XFS_IEXT_KEY_INVALID" and "unat bno + unat len < 2 ^ 64"
    and "1 \<le> nmap" and "nmap \<le> length mval" and "flags = 0 \<or> flags = XFS_BMAPI_ATTRFORK"
  shows "\<exists>mval' n e. xfs_bmapi_read m False blocks verr bi bno len mval nmap flags =
      Some (put_fork bi (xfs_bmapi_whichfork flags) ifp', mval', n, None) \<and>
    tiles (take n mval') (unat bno) e \<and> e \<le> unat bno + unat len \<and> n \<le> nmap \<and> n \<le> length mval' \<and>
    (e = unat bno + unat len \<or> n = nmap) \<and> (\<forall>mp \<in> set (take n mval'). map_exact xs mp)"
proof -
  obtain mval' n where r: "xfs_bmapi_read m False blocks verr bi bno len mval nmap flags =
      Some (put_fork bi (xfs_bmapi_whichfork flags) ifp', mval', n, None)"
    "read_done xs nmap (unat bno) (unat bno + unat len) (take n mval')" "n \<le> length mval'"
    using bmapi_read_ok [OF assms] by blast
  then obtain e where "tiles (take n mval') (unat bno) e" "e \<le> unat bno + unat len" "\<forall>mp \<in> set (take n mval'). map_exact xs mp"
    "n \<le> nmap" "e = unat bno + unat len \<or> n = nmap" by (auto simp: read_done_def)
  with r(1,3) show ?thesis by blast
qed

theorem bmapi_read_exact_witness:
  "\<exists>mval' n e. xfs_bmapi_read ino_example False [] None bmap_example 0 16 (replicate 3 (ext_example 0)) 3 0 =
      Some (bmap_example, mval', n, None) \<and>
    tiles (take n mval') 0 e \<and> e \<le> 16 \<and> (e = 16 \<or> n = 3) \<and> list_all (map_exact [ext_example 0, ext_example 8]) (take n mval')"
proof -
  have w: "xfs_bmapi_whichfork 0 = XFS_DATA_FORK" by (simp add: xfs_bmapi_whichfork_def)
  have f: "xfs_ifork_ptr bmap_example (xfs_bmapi_whichfork 0) = Some (bi_df bmap_example)" by (simp add: w xfs_ifork_ptr_def)
  have h: "xfs_ifork_has_extents (bi_df bmap_example)"
    by (simp add: xfs_ifork_has_extents_def bmap_example_def XFS_DINODE_FMT_EXTENTS_def)
  have r: "xfs_iread_extents ino_example (bi_ip bmap_example) (xfs_bmapi_whichfork 0) [] None (bi_df bmap_example) =
      Some (bi_df bmap_example, None)"
    by (simp add: xfs_iread_extents_def xfs_need_iread_extents_def bmap_example_def)
  have l: "iext_list (bf_iext (bi_df bmap_example)) [ext_example 0, ext_example 8]"
    using fork_thin_list by (simp add: bmap_example_def)
  have z: "0 < XFS_IEXT_KEY_INVALID" by (simp add: word_less_nat_alt key_invalid_nat)
  have p: "put_fork bmap_example (xfs_bmapi_whichfork 0) (bi_df bmap_example) = bmap_example" by (simp add: w put_fork_def)
  show ?thesis
    using bmapi_read_exact [OF f h r l z, of 16 3 "replicate 3 (ext_example 0)"] unfolding p by (simp add: list_all_iff) blast
qed

text \<open>
  C35. Loading a fork in btree format: if every record found is a valid extent, their number is
  the one the inode counts and the walk over the blocks succeeds, the tree stands for exactly
  the records on disk, and the fork counts as loaded. In all other cases the call fails and
  the tree is destroyed: it stands for no extents, and every block allocated for it has been
  freed. The blocks hold fewer than \<open>2 ^ 16\<close> records each, in file order.
\<close>

theorem iread_extents_exact:
  assumes "bf_needextents ifp" and "iext_list (bf_iext ifp) []" and "unat (bf_nextents ifp) < 2 ^ 48"
    and "\<forall>b \<in> set blocks. length b < 2 ^ 16" and "sorted_wrt xfs_bmbt_recs_inorder (concat blocks)"
  shows "\<exists>t. if list_all (disk_valid m ip w) (concat blocks) \<and> length (concat blocks) = unat (bf_nextents ifp) \<and> verr = None
    then xfs_iread_extents m ip w blocks verr ifp = Some (ifp\<lparr>bf_iext := t, bf_needextents := False\<rparr>, None) \<and>
      iext_list t (disk_exts (concat blocks))
    else (\<exists>e. xfs_iread_extents m ip w blocks verr ifp = Some (ifp\<lparr>bf_iext := t\<rparr>, Some e)) \<and>
      iext_list t [] \<and> (\<forall>a. if_mem t a = None)"
  by (rule iread_extents_ok [OF assms])

theorem iread_extents_exact_witness:
  "\<exists>t. xfs_iread_extents ino_example inode_example XFS_DATA_FORK [disk_example] None (bi_af bmap_example) =
      Some ((bi_af bmap_example)\<lparr>bf_iext := t, bf_needextents := False\<rparr>, None) \<and> iext_list t (disk_exts disk_example)"
proof -
  let ?f = "bi_af bmap_example"
  have f: "bf_needextents ?f" "iext_list (bf_iext ?f) []" "unat (bf_nextents ?f) = 2"
    using fork_empty_list by (simp_all add: bmap_example_def)
  have b: "\<forall>b \<in> set [disk_example]. length b < 2 ^ 16" "sorted_wrt xfs_bmbt_recs_inorder (concat [disk_example])"
    using dinode_extents_example_ok(12) disk_example_sorted by simp_all
  have v: "list_all (disk_valid ino_example inode_example XFS_DATA_FORK) disk_example"
    using disk_example_valid(1) by (simp add: list_all_iff)
  show ?thesis
    using iread_extents_exact [OF f(1,2) _ b, of ino_example inode_example XFS_DATA_FORK None] f(3) v dinode_extents_example_ok(12)
    by simp
qed

end
