(* ===== verification/Bmap_Query.thy ===== *)
theory Bmap_Query
  imports Bmap_Correct
begin

text \<open>
  The questions that directories and attributes ask about a fork in \<^verbatim>\<open>libxfs/xfs_bmap.c\<close>: the first hole of a given
  size, the end of the last extent, and the last block before an offset.
\<close>

section \<open>Definitions\<close>

partial_function (option) first_unused_loop ::
    "Iext_Tree.xfs_ifork \<Rightarrow> u64 \<Rightarrow> u64 \<Rightarrow> xfs_iext_cursor \<Rightarrow> u64 \<Rightarrow> u64 option" where
  "first_unused_loop ifp len lowest icur mx = do {
     got \<leftarrow> xfs_iext_get_extent ifp icur;
     case got of
       None \<Rightarrow> Some mx
     | Some g \<Rightarrow>
         if br_startoff g \<ge> lowest + len \<and> br_startoff g - mx \<ge> len then Some mx
         else do {
           icur \<leftarrow> xfs_iext_next ifp icur;
           let lastaddr = br_startoff g + br_blockcount g;
           first_unused_loop ifp len lowest icur (max lastaddr lowest)
         }
   }"

declare first_unused_loop.simps [code]

text \<open>The new fork, the block found and the error.\<close>

definition xfs_bmap_first_unused ::
    "ino_mount \<Rightarrow> xfs_inode \<Rightarrow> whichfork \<Rightarrow> xfs_bmbt_rec list list \<Rightarrow> errno option \<Rightarrow> bmap_fork \<Rightarrow> u32 \<Rightarrow> u64 \<Rightarrow>
     (bmap_fork \<times> u64 \<times> errno option) option" where
  "xfs_bmap_first_unused m ip w blocks verr ifp len first_unused =
     (if ucast (bf_format ifp) = XFS_DINODE_FMT_LOCAL then Some (ifp, 0, None)
      else do {
        iext_assert (xfs_ifork_has_extents ifp);
        (ifp, error) \<leftarrow> xfs_iread_extents m ip w blocks verr ifp;
        if error \<noteq> None then Some (ifp, first_unused, error)
        else do {
          icur \<leftarrow> xfs_iext_first (bf_iext ifp);
          mx \<leftarrow> first_unused_loop (bf_iext ifp) (ucast len) first_unused icur first_unused;
          Some (ifp, mx, None)
        }
      })"

text \<open>The last extent; none for an empty fork.\<close>

definition xfs_bmap_last_extent ::
    "ino_mount \<Rightarrow> xfs_inode \<Rightarrow> whichfork \<Rightarrow> xfs_bmbt_rec list list \<Rightarrow> errno option \<Rightarrow> bmap_fork \<Rightarrow>
     (bmap_fork \<times> xfs_bmbt_irec option \<times> errno option) option" where
  "xfs_bmap_last_extent m ip w blocks verr ifp = do {
     (ifp, error) \<leftarrow> xfs_iread_extents m ip w blocks verr ifp;
     if error \<noteq> None then Some (ifp, None, error)
     else do {
       icur \<leftarrow> xfs_iext_last (bf_iext ifp);
       rec \<leftarrow> xfs_iext_get_extent (bf_iext ifp) icur;
       Some (ifp, rec, None)
     }
   }"

definition xfs_bmap_last_offset ::
    "ino_mount \<Rightarrow> xfs_inode \<Rightarrow> whichfork \<Rightarrow> xfs_bmbt_rec list list \<Rightarrow> errno option \<Rightarrow> bmap_fork \<Rightarrow> (bmap_fork \<times> u64 \<times> errno option) option" where
  "xfs_bmap_last_offset m ip w blocks verr ifp =
     (if ucast (bf_format ifp) = XFS_DINODE_FMT_LOCAL then Some (ifp, 0, None)
      else if \<not> xfs_ifork_has_extents ifp then Some (ifp, 0, Some EFSCORRUPTED)
      else do {
        (ifp, rec, error) \<leftarrow> xfs_bmap_last_extent m ip w blocks verr ifp;
        case rec of
          None \<Rightarrow> Some (ifp, 0, error)
        | Some r \<Rightarrow> Some (ifp, br_startoff r + br_blockcount r, None)
      })"

text \<open>Whether an allocation at the offset is at the end of the file.\<close>

definition xfs_bmap_isaeof ::
    "ino_mount \<Rightarrow> xfs_inode \<Rightarrow> whichfork \<Rightarrow> xfs_bmbt_rec list list \<Rightarrow> errno option \<Rightarrow> bmap_fork \<Rightarrow> u64 \<Rightarrow> (bmap_fork \<times> bool \<times> errno option) option" where
  "xfs_bmap_isaeof m ip w blocks verr ifp offset = do {
     (ifp, rec, error) \<leftarrow> xfs_bmap_last_extent m ip w blocks verr ifp;
     if error \<noteq> None then Some (ifp, False, error)
     else case rec of
       None \<Rightarrow> Some (ifp, True, None)
     | Some r \<Rightarrow> Some (ifp, offset \<ge> br_startoff r + br_blockcount r \<or>
         offset \<ge> br_startoff r \<and> isnullstartblock (br_startblock r), None)
   }"

definition xfs_bmap_last_before ::
    "ino_mount \<Rightarrow> xfs_inode \<Rightarrow> whichfork \<Rightarrow> xfs_bmbt_rec list list \<Rightarrow> errno option \<Rightarrow> bmap_fork \<Rightarrow> u64 \<Rightarrow> (bmap_fork \<times> u64 \<times> errno option) option" where
  "xfs_bmap_last_before m ip w blocks verr ifp last_block =
     (if ucast (bf_format ifp) = XFS_DINODE_FMT_LOCAL then Some (ifp, 0, None)
      else do {
        iext_assert (xfs_ifork_has_extents ifp);
        (ifp, error) \<leftarrow> xfs_iread_extents m ip w blocks verr ifp;
        if error \<noteq> None then Some (ifp, last_block, error)
        else do {
          (last_block, icur, got) \<leftarrow> xfs_iext_lookup_extent_before (bf_iext ifp) last_block;
          Some (ifp, if got = None then 0 else last_block, None)
        }
      })"

section \<open>The first hole\<close>

text \<open>No block of the range is mapped.\<close>

definition unmapped :: "xfs_bmbt_irec list \<Rightarrow> nat \<Rightarrow> nat \<Rightarrow> bool" where
  "unmapped xs a n \<longleftrightarrow> (\<forall>e \<in> set xs. a + n \<le> ext_start e \<or> ext_end e \<le> a)"

text \<open>The lowest offset, from \<open>low\<close> on, at which a hole of \<open>n\<close> blocks starts.\<close>

definition first_hole :: "xfs_bmbt_irec list \<Rightarrow> nat \<Rightarrow> nat \<Rightarrow> nat \<Rightarrow> bool" where
  "first_hole xs low n a \<longleftrightarrow> low \<le> a \<and> unmapped xs a n \<and> (\<forall>b. low \<le> b \<and> b < a \<longrightarrow> \<not> unmapped xs b n)"

lemma ext_ends_le:
  assumes "exts_ok xs" "j < i" "i \<le> length xs"
  shows "ext_end (xs ! j) \<le> ext_end (xs ! (i - 1))"
proof (cases "j = i - 1")
  case False
  then have "j < i - 1" "i - 1 < length xs" using assms(2,3) by linarith+
  then show ?thesis using exts_ok_nth [OF assms(1)] exts_ok_nth_less [OF assms(1)] by (meson le_trans less_imp_le)
qed simp

lemma first_unused_loop_ok:
  assumes at: "iext_at ifp xs icur i" "i \<le> length xs" and len: "unat lowest + unat len < 2 ^ 64" "len \<noteq> 0"
    and mx: "unat mx = (if i = 0 then unat lowest else max (ext_end (xs ! (i - 1))) (unat lowest))"
    and low: "\<And>b. unat lowest \<le> b \<Longrightarrow> b < unat mx \<Longrightarrow> \<not> unmapped xs b (unat len)"
  shows "\<exists>a. first_unused_loop ifp len lowest icur mx = Some a \<and> first_hole xs (unat lowest) (unat len) (unat a)"
  using at mx low
proof (induction "length xs - i" arbitrary: i icur mx)
  case 0
  then have i: "i = length xs" by simp
  have ok: "exts_ok xs" by (rule iel.rep_exts_ok [OF iel.at_rep [OF 0(2)]])
  have "ext_end (xs ! j) \<le> unat mx" if "j < length xs" for j
    using ext_ends_le [OF ok, of j i] 0(4) that i by auto
  then have "unmapped xs (unat mx) (unat len)" by (auto simp: unmapped_def in_set_conv_nth)
  moreover have "first_unused_loop ifp len lowest icur mx = Some mx"
    using iel.get_at [OF 0(2)] i by (subst first_unused_loop.simps) simp
  moreover have "unat lowest \<le> unat mx" using 0(4) by (auto split: if_splits)
  ultimately show ?case using 0(5) by (auto simp: first_hole_def)
next
  case (Suc k)
  have i: "i < length xs" using Suc.hyps(2) by simp
  let ?g = "xs ! i"
  have ok: "exts_ok xs" by (rule iel.rep_exts_ok [OF iel.at_rep [OF Suc.prems(1)]])
  have get: "xfs_iext_get_extent ifp icur = Some (Some ?g)" using iel.get_at [OF Suc.prems(1)] i by simp
  have prev: "i = 0 \<or> ext_end (xs ! (i - 1)) \<le> ext_start ?g" using exts_ok_nth [OF ok _ i, of "i - 1"] by (cases "i = 0") simp_all
  have el: "iext_set_asserts ?g" "ext_start ?g < ext_end ?g" using exts_ok_elem [OF ok, of ?g] exts_ok_nth_less [OF ok i] i by simp_all
  have ul: "unat (lowest + len) = unat lowest + unat len" using len(1) by (simp add: unat_add_small)
  have pos: "0 < unat len" using len(2) by (simp add: unat_gt_0)
  have lm: "unat lowest \<le> unat mx" using Suc.prems(3) by (auto split: if_splits)
  have cond: "br_startoff ?g \<ge> lowest + len \<and> br_startoff ?g - mx \<ge> len \<longleftrightarrow> unat mx + unat len \<le> ext_start ?g"
  proof (cases "lowest + len \<le> br_startoff ?g")
    case True
    then have ge: "unat lowest + unat len \<le> ext_start ?g" using ul by (simp add: word_le_nat_alt ext_start_def)
    have "unat mx \<le> ext_start ?g" using ge prev Suc.prems(3) by auto
    then have "mx \<le> br_startoff ?g" by (simp add: word_le_nat_alt ext_start_def)
    then have "unat (br_startoff ?g - mx) = ext_start ?g - unat mx" by (simp add: unat_sub_le ext_start_def)
    then show ?thesis using True \<open>unat mx \<le> ext_start ?g\<close> by (auto simp: word_le_nat_alt)
  next
    case False
    then have "ext_start ?g < unat lowest + unat len" using ul by (simp add: word_le_nat_alt ext_start_def)
    then show ?thesis using False lm by simp
  qed
  show ?case
  proof (cases "unat mx + unat len \<le> ext_start ?g")
    case True
    have "unat mx + unat len \<le> ext_start (xs ! j) \<or> ext_end (xs ! j) \<le> unat mx" if j: "j < length xs" for j
    proof (cases "j < i")
      case True
      then show ?thesis using ext_ends_le [OF ok, of j i] Suc.prems(3) i by auto
    next
      case False
      then show ?thesis using exts_ok_nth [OF ok, of i j] el(2) True j by (cases "j = i") auto
    qed
    then have "unmapped xs (unat mx) (unat len)" unfolding unmapped_def by (metis in_set_conv_nth)
    then have "first_hole xs (unat lowest) (unat len) (unat mx)" using lm Suc.prems(4) by (auto simp: first_hole_def)
    moreover have "first_unused_loop ifp len lowest icur mx = Some mx"
      using get cond True by (subst first_unused_loop.simps) simp
    ultimately show ?thesis by blast
  next
    case False
    obtain c where c: "xfs_iext_next ifp icur = Some c" "iext_at ifp xs c (i + 1)" using iel.step_at [OF Suc.prems(1) i] by blast
    let ?mx = "max (br_startoff ?g + br_blockcount ?g) lowest"
    have um: "unat ?mx = max (ext_end ?g) (unat lowest)"
      using ext_end_word [OF el(1)] by (auto simp: max_def word_le_nat_alt)
    have "\<not> unmapped xs b (unat len)" if b: "unat lowest \<le> b" "b < unat ?mx" for b
    proof (cases "b < unat mx")
      case False
      have "\<not> (b + unat len \<le> ext_start ?g \<or> ext_end ?g \<le> b)"
        using b um False \<open>\<not> unat mx + unat len \<le> ext_start ?g\<close> by auto
      then show ?thesis using i by (auto simp: unmapped_def)
    qed (use Suc.prems(4) b in auto)
    then have "\<exists>a. first_unused_loop ifp len lowest c ?mx = Some a \<and> first_hole xs (unat lowest) (unat len) (unat a)"
      using Suc.hyps(1) [OF _ c(2)] um Suc.hyps(2) i by simp
    moreover have "first_unused_loop ifp len lowest icur mx = first_unused_loop ifp len lowest c ?mx"
      using get cond False c(1) by (subst first_unused_loop.simps) auto
    ultimately show ?thesis by simp
  qed
qed

section \<open>The last extent\<close>

lemma list_last_at:
  assumes "iext_list ifp xs"
  shows "\<exists>c. xfs_iext_last ifp = Some c \<and> xfs_iext_get_extent ifp c = Some (if xs = [] then None else Some (last xs))"
proof -
  obtain L us where L: "iext_rep ifp L us" "rec_exts (lrecs L) = xs" using assms by (auto simp: iext_list_def)
  obtain c where c: "xfs_iext_last ifp = Some c" "if L = [] then cursor_end L c else cursor_on L c (length (lrecs L) - 1)"
    using iext_last_ok [OF L(1)] by blast
  have Nil: "L = [] \<longleftrightarrow> xs = []" using rep_Nil_lrecs [OF L(1)] L(2) by auto
  have len: "length xs = length (lrecs L)" using L(2) by auto
  have "iext_at ifp xs c (if xs = [] then 0 else length xs - 1)"
    unfolding iext_at_def using L c(2) Nil len by (intro exI [of _ L] exI [of _ us]) auto
  then show ?thesis using iel.get_at c(1) by (fastforce simp: last_conv_nth)
qed

lemma last_extent_ok:
  assumes "xfs_iread_extents m ip w blocks verr ifp = Some (ifp', None)" "iext_list (bf_iext ifp') xs"
  shows "xfs_bmap_last_extent m ip w blocks verr ifp = Some (ifp', if xs = [] then None else Some (last xs), None)"
  using assms list_last_at [OF assms(2)] by (auto simp: xfs_bmap_last_extent_def)

lemma beyond_last: "exts_ok xs \<Longrightarrow> xs \<noteq> [] \<Longrightarrow> e \<in> set xs \<Longrightarrow> ext_end e \<le> ext_end (last xs)"
  using ext_ends_le [of xs _ "length xs"] by (auto simp: in_set_conv_nth last_conv_nth)

lemma mapping_Hole_iff: "mapping_at xs off = Hole \<longleftrightarrow> (\<forall>e \<in> set xs. \<not> covers off e)"
proof (cases "find (covers off) xs")
  case None
  then show ?thesis using find_None_iff [of "covers off" xs] by (auto simp: mapping_at_def)
next
  case (Some e)
  then have "e \<in> set xs \<and> covers off e" by (auto simp: find_Some_iff)
  then show ?thesis using Some by (auto simp: mapping_at_def ext_map_def)
qed

text \<open>The end of the mapped blocks below a limit.\<close>

definition mapped_end :: "xfs_bmbt_irec list \<Rightarrow> nat \<Rightarrow> nat \<Rightarrow> bool" where
  "mapped_end xs limit a \<longleftrightarrow> a \<le> limit \<and> (\<forall>off. a \<le> off \<and> off < limit \<longrightarrow> mapping_at xs off = Hole) \<and> (a \<noteq> 0 \<longrightarrow> mapping_at xs (a - 1) \<noteq> Hole)"

lemma last_mapped_end:
  assumes "exts_ok xs" "xs \<noteq> []" "ext_end (last xs) \<le> limit"
  shows "mapped_end xs limit (ext_end (last xs))"
proof -
  have "ext_start (last xs) < ext_end (last xs)" using exts_ok_elem [OF assms(1), of "last xs"] assms(2) ext_start_less_end by simp
  then have "covers (ext_end (last xs) - 1) (last xs)" by (auto simp: covers_def)
  then have "mapping_at xs (ext_end (last xs) - 1) \<noteq> Hole" unfolding mapping_Hole_iff using assms(2) by (metis last_in_set)
  moreover have "mapping_at xs off = Hole" if "ext_end (last xs) \<le> off" for off
  proof -
    have "\<not> covers off e" if e: "e \<in> set xs" for e
      using beyond_last [OF assms(1,2) e] \<open>ext_end (last xs) \<le> off\<close> by (simp add: covers_def)
    then show ?thesis unfolding mapping_Hole_iff by blast
  qed
  ultimately show ?thesis using assms(3) by (simp add: mapped_end_def)
qed

lemma last_offset_ok:
  assumes "xfs_ifork_has_extents ifp" "ucast (bf_format ifp) \<noteq> XFS_DINODE_FMT_LOCAL"
    "xfs_iread_extents m ip w blocks verr ifp = Some (ifp', None)" "iext_list (bf_iext ifp') xs"
  shows "\<exists>a. xfs_bmap_last_offset m ip w blocks verr ifp = Some (ifp', a, None) \<and> mapped_end xs (2 ^ 64) (unat a)"
proof -
  have ok: "exts_ok xs" by (rule iel.rep_exts_ok [OF assms(4)])
  show ?thesis
  proof (cases "xs = []")
    case True
    then show ?thesis using assms last_extent_ok [OF assms(3,4)]
      by (auto simp: xfs_bmap_last_offset_def mapped_end_def mapping_at_def)
  next
    case False
    have "iext_set_asserts (last xs)" using exts_ok_elem [OF ok, of "last xs"] False by simp
    then have u: "unat (br_startoff (last xs) + br_blockcount (last xs)) = ext_end (last xs)" by (rule ext_end_word)
    then have "ext_end (last xs) \<le> 2 ^ 64" using u64_unat_bound [of "br_startoff (last xs) + br_blockcount (last xs)"] by simp
    then show ?thesis using assms False last_extent_ok [OF assms(3,4)] u last_mapped_end [OF ok False]
      by (simp add: xfs_bmap_last_offset_def)
  qed
qed

lemma before_mapped_end:
  assumes ok: "exts_ok xs" and n: "n = before_count xs endp" "n \<noteq> 0" and g: "g = xs ! (n - 1)"
  shows "mapped_end xs (unat endp) (min (unat endp) (ext_end g))"
proof -
  have len: "n \<le> length xs" by (simp add: n before_count_def length_takeWhile_le)
  have st: "ext_start (xs ! j) < unat endp" if "j < n" for j
    using that unfolding n before_count_def by (metis nth_mem set_takeWhileD takeWhile_nth)
  have ge: "unat endp \<le> ext_start (xs ! n)" if "n < length xs"
    using that nth_length_takeWhile [of "\<lambda>e. ext_start e < unat endp" xs] by (simp add: n before_count_def)
  have gs: "ext_start g < unat endp" "ext_start g < ext_end g" using st [of "n - 1"] exts_ok_nth_less [OF ok, of "n - 1"] n(2) len g by simp_all
  have "mapping_at xs off = Hole" if off: "min (unat endp) (ext_end g) \<le> off" "off < unat endp" for off
  proof (rule mapping_gap [OF ok, of n])
    show "ext_end (xs ! j) \<le> off" if "j < n" for j using ext_ends_le [OF ok that len] off g by simp
    show "off < ext_start (xs ! n)" if "n < length xs" using ge [OF that] off by simp
  qed
  moreover have "covers (min (unat endp) (ext_end g) - 1) g" using gs by (auto simp: covers_def min_def)
  then have "mapping_at xs (min (unat endp) (ext_end g) - 1) \<noteq> Hole"
    unfolding mapping_Hole_iff using g n(2) len by (metis diff_less less_le_trans nth_mem zero_less_one bot_nat_0.not_eq_extremum)
  ultimately show ?thesis by (auto simp: mapped_end_def)
qed

text \<open>\<^verbatim>\<open>xfs_bmap_last_before\<close> returns the end of the mapped blocks before the given one.\<close>

lemma last_before_ok:
  assumes "xfs_ifork_has_extents ifp" "ucast (bf_format ifp) \<noteq> XFS_DINODE_FMT_LOCAL"
    "xfs_iread_extents m ip w blocks verr ifp = Some (ifp', None)" "iext_list (bf_iext ifp') xs"
    and e: "endp \<noteq> 0" "endp - 1 < XFS_IEXT_KEY_INVALID"
  shows "\<exists>a. xfs_bmap_last_before m ip w blocks verr ifp endp = Some (ifp', a, None) \<and> mapped_end xs (unat endp) (unat a)"
proof -
  have ok: "exts_ok xs" by (rule iel.rep_exts_ok [OF assms(4)])
  let ?n = "before_count xs endp" and ?t = "bf_iext ifp'"
  let ?g = "xs ! (?n - 1)"
  obtain c where c: "if ?n = 0 then xfs_iext_lookup_extent_before ?t endp = Some (endp, c, None)
      else xfs_iext_lookup_extent_before ?t endp = Some (of_nat (min (unat endp) (ext_end ?g)), c, Some ?g)"
    using lookup_before_ok [OF assms(4) e] by (auto split: if_splits)
  show ?thesis
  proof (cases "?n = 0")
    case True
    have ge: "unat endp \<le> ext_start (xs ! 0)" if "0 < length xs"
      using that True nth_length_takeWhile [of "\<lambda>e. ext_start e < unat endp" xs] by (simp add: before_count_def)
    have "mapping_at xs off = Hole" if "off < unat endp" for off
      by (rule mapping_gap [OF ok, of 0]) (use ge that in auto)
    then have "mapped_end xs (unat endp) 0" by (auto simp: mapped_end_def)
    then show ?thesis using assms(1-3) c True by (simp add: xfs_bmap_last_before_def iext_assert_def)
  next
    case False
    have "unat (of_nat (min (unat endp) (ext_end ?g)) :: u64) = min (unat endp) (ext_end ?g)"
      by (rule unat_of_nat_64) (use u64_unat_bound [of endp] in auto)
    then show ?thesis using assms(1-3) c False before_mapped_end [OF ok refl False refl]
      by (simp add: xfs_bmap_last_before_def iext_assert_def)
  qed
qed

section \<open>Properties\<close>

lemma bmap_example_fork:
  "xfs_ifork_has_extents (bi_df bmap_example)" "ucast (bf_format (bi_df bmap_example)) \<noteq> XFS_DINODE_FMT_LOCAL"
  "xfs_iread_extents ino_example inode_example XFS_DATA_FORK [] None (bi_df bmap_example) = Some (bi_df bmap_example, None)"
  "iext_list (bf_iext (bi_df bmap_example)) [ext_example 0, ext_example 8]"
  using fork_thin_list
  by (simp_all add: bmap_example_def xfs_ifork_has_extents_def xfs_iread_extents_def xfs_need_iread_extents_def
      XFS_DINODE_FMT_EXTENTS_def XFS_DINODE_FMT_LOCAL_def)

text \<open>
  C36. \<^verbatim>\<open>xfs_bmap_first_unused\<close> returns the lowest block, from the given one on, at which as many
  blocks as asked for are unmapped; the search ends for every extent list.
\<close>

theorem first_unused_lowest:
  assumes "xfs_ifork_has_extents ifp" and "ucast (bf_format ifp) \<noteq> XFS_DINODE_FMT_LOCAL"
    and "xfs_iread_extents m ip w blocks verr ifp = Some (ifp', None)" and "iext_list (bf_iext ifp') xs"
    and "len \<noteq> 0" and "unat first + unat len < 2 ^ 64"
  shows "\<exists>a. xfs_bmap_first_unused m ip w blocks verr ifp len first = Some (ifp', a, None) \<and>
    first_hole xs (unat first) (unat len) (unat a)"
proof -
  obtain c where c: "xfs_iext_first (bf_iext ifp') = Some c" "iext_at (bf_iext ifp') xs c 0" using iel.first_at [OF assms(4)] by blast
  have u: "unat (ucast len :: u64) = unat len" by simp
  have "(ucast len :: u64) \<noteq> 0" using assms(5) u by (metis unat_eq_zero)
  then have "\<exists>a. first_unused_loop (bf_iext ifp') (ucast len) first c first = Some a \<and>
      first_hole xs (unat first) (unat (ucast len :: u64)) (unat a)"
    by (intro first_unused_loop_ok [OF c(2)]) (use assms(6) u in auto)
  then show ?thesis using assms(1-3) c(1) u by (auto simp: xfs_bmap_first_unused_def iext_assert_def)
qed

theorem first_unused_lowest_witness:
  "\<exists>a. xfs_bmap_first_unused ino_example inode_example XFS_DATA_FORK [] None (bi_df bmap_example) 4 0 =
      Some (bi_df bmap_example, a, None) \<and> first_hole [ext_example 0, ext_example 8] 0 4 (unat a)"
  using first_unused_lowest [OF bmap_example_fork, of 4 0] by simp

text \<open>
  C37. \<^verbatim>\<open>xfs_bmap_last_offset\<close> returns the end of the mapped blocks of the fork: no block at or after
  it is mapped, and unless it is zero the block before it is.
\<close>

theorem last_offset_exact:
  assumes "xfs_ifork_has_extents ifp" and "ucast (bf_format ifp) \<noteq> XFS_DINODE_FMT_LOCAL"
    and "xfs_iread_extents m ip w blocks verr ifp = Some (ifp', None)" and "iext_list (bf_iext ifp') xs"
  shows "\<exists>a. xfs_bmap_last_offset m ip w blocks verr ifp = Some (ifp', a, None) \<and> mapped_end xs (2 ^ 64) (unat a)"
  using assms by (rule last_offset_ok)

theorem last_offset_exact_witness:
  "\<exists>a. xfs_bmap_last_offset ino_example inode_example XFS_DATA_FORK [] None (bi_df bmap_example) =
      Some (bi_df bmap_example, a, None) \<and> mapped_end [ext_example 0, ext_example 8] (2 ^ 64) (unat a)"
  using last_offset_exact [OF bmap_example_fork] .

end
