(* ===== verification/Bmap_Del.thy ===== *)
theory Bmap_Del
  imports Bmap_Query Rt_Model
begin

text \<open>
  Taking blocks out of a file mapping in \<^verbatim>\<open>libxfs/xfs_bmap.c\<close>: the reservation for indirect blocks of a
  delayed allocation, its division when the extent is split, and the removal of a range from a
  delayed or copy-on-write extent with its accounting.
\<close>

section \<open>Reservations for indirect blocks\<close>

text \<open>Records per leaf and per node of the block map btree, and its greatest height.\<close>

record bmap_geom =
  bm_dmxr0 :: u32
  bm_dmxr1 :: u32
  bm_maxlevels :: nat

text \<open>The division by zero of \<^verbatim>\<open>do_div\<close> is \<open>None\<close>.\<close>

function worst_indlen_loop :: "bmap_geom \<Rightarrow> nat \<Rightarrow> u64 \<Rightarrow> u64 \<Rightarrow> u64 \<Rightarrow> u64 option" where
  "worst_indlen_loop g level maxrecs len rval =
     (if level < bm_maxlevels g then
        if maxrecs = 0 then None
        else let len = (len + (maxrecs - 1)) div maxrecs;
                 rval = rval + len
             in if len = 1 then Some (rval + of_nat (bm_maxlevels g) - of_nat level - 1)
                else worst_indlen_loop g (level + 1) (if level = 0 then ucast (bm_dmxr1 g) else maxrecs) len rval
      else Some rval)"
  by pat_completeness auto
termination by (relation "measure (\<lambda>(g, level, _). bm_maxlevels g - level)") auto

declare worst_indlen_loop.simps [simp del]

definition xfs_bmap_worst_indlen :: "bmap_geom \<Rightarrow> u64 \<Rightarrow> u64 option" where
  "xfs_bmap_worst_indlen g len = worst_indlen_loop g 0 (ucast (bm_dmxr0 g)) len 0"

text \<open>The loop that hands out the remainder; nothing but the assertion before it makes it end.\<close>

partial_function (option) split_indlen_loop :: "u64 \<Rightarrow> u64 \<Rightarrow> u64 \<Rightarrow> u64 \<Rightarrow> u64 \<Rightarrow> (u64 \<times> u64) option" where
  "split_indlen_loop indlen1 indlen2 ores len1 len2 =
     (if ores = 0 then Some (len1, len2)
      else let (len1, ores) = (if len1 < indlen1 then (len1 + 1, ores - 1) else (len1, ores))
           in if ores = 0 then Some (len1, len2)
              else let (len2, ores) = (if len2 < indlen2 then (len2 + 1, ores - 1) else (len2, ores))
                   in split_indlen_loop indlen1 indlen2 ores len1 len2)"

declare split_indlen_loop.simps [code]

definition xfs_bmap_split_indlen :: "u64 \<Rightarrow> u64 \<Rightarrow> u64 \<Rightarrow> (u64 \<times> u64) option" where
  "xfs_bmap_split_indlen ores indlen1 indlen2 =
     (let nres = indlen1 + indlen2
      in if nres = 0 then None
         else let resfactor = (ores * 100) div nres;
                  len1 = (indlen1 * resfactor) div 100;
                  len2 = (indlen2 * resfactor) div 100
              in do {
                   iext_assert (len1 + len2 \<le> ores);
                   iext_assert (len1 < indlen1 \<and> len2 < indlen2);
                   let ores = ores - (len1 + len2);
                   iext_assert ((indlen1 - len1) + (indlen2 - len2) \<ge> ores);
                   let (len2, ores) = (if ores \<noteq> 0 \<and> len2 = 0 \<and> indlen2 \<noteq> 0 then (len2 + 1, ores - 1) else (len2, ores));
                   split_indlen_loop indlen1 indlen2 ores len1 len2
                 })"

section \<open>Removing a range from an extent\<close>

text \<open>The state: the tree, \<^verbatim>\<open>i_delayed_blks\<close> of the inode and the free blocks of the file system.\<close>

record delay_state =
  ds_tree :: Iext_Tree.xfs_ifork
  ds_delayed :: u64
  ds_fdblocks :: u64

text \<open>
  \<^verbatim>\<open>xfs_bmap_del_extent_cow\<close>; the result is the state and the cursor.
\<close>

definition xfs_bmap_del_extent_cow ::
    "delay_state \<Rightarrow> xfs_iext_cursor \<Rightarrow> xfs_bmbt_irec \<Rightarrow> xfs_bmbt_irec \<Rightarrow> (delay_state \<times> xfs_iext_cursor) option" where
  "xfs_bmap_del_extent_cow s icur got del = do {
     let del_endoff = br_startoff del + br_blockcount del;
     let got_endoff = br_startoff got + br_blockcount got;
     iext_assert (br_blockcount del > 0);
     iext_assert (br_startoff got \<le> br_startoff del);
     iext_assert (got_endoff \<ge> del_endoff);
     iext_assert (\<not> isnullstartblock (br_startblock got));
     let left = (br_startoff got = br_startoff del);
     let right = (got_endoff = del_endoff);
     (tree, icur) \<leftarrow>
       (if left \<and> right then do {
          (tree, icur) \<leftarrow> xfs_iext_remove (ds_tree s) icur;
          icur \<leftarrow> xfs_iext_prev tree icur;
          Some (tree, icur)
        }
        else if left then do {
          tree \<leftarrow> xfs_iext_update_extent (ds_tree s) icur
            (got\<lparr>br_startoff := del_endoff, br_blockcount := br_blockcount got - br_blockcount del,
                 br_startblock := br_startblock del + br_blockcount del\<rparr>);
          Some (tree, icur)
        }
        else if right then do {
          tree \<leftarrow> xfs_iext_update_extent (ds_tree s) icur (got\<lparr>br_blockcount := br_blockcount got - br_blockcount del\<rparr>);
          Some (tree, icur)
        }
        else do {
          tree \<leftarrow> xfs_iext_update_extent (ds_tree s) icur (got\<lparr>br_blockcount := br_startoff del - br_startoff got\<rparr>);
          icur \<leftarrow> xfs_iext_next tree icur;
          xfs_iext_insert_raw tree icur
            \<lparr>br_startoff = del_endoff, br_startblock = br_startblock del + br_blockcount del,
             br_blockcount = got_endoff - del_endoff, br_state = br_state got\<rparr>
        });
     Some (s\<lparr>ds_tree := tree, ds_delayed := ds_delayed s - br_blockcount del\<rparr>, icur)
   }"

text \<open>
  \<^verbatim>\<open>libxfs_mod_incore_sb\<close> of \<^verbatim>\<open>libxfs/util.c\<close>: an error or nothing, and the counter of free blocks. It
  knows no other counter: for the free realtime extents it returns an error, after an assertion
  that the library, built with \<^verbatim>\<open>NDEBUG\<close>, does not contain.
\<close>

datatype sb_field = XFS_TRANS_SB_FDBLOCKS | XFS_TRANS_SB_FREXTENTS

fun libxfs_mod_incore_sb :: "u64 \<Rightarrow> sb_field \<Rightarrow> u64 \<Rightarrow> errno option \<times> u64" where
  "libxfs_mod_incore_sb sb_fdblocks XFS_TRANS_SB_FDBLOCKS delta =
     (let lcounter = sb_fdblocks + delta in if sint lcounter < 0 then (Some ENOSPC, sb_fdblocks) else (None, lcounter))"
| "libxfs_mod_incore_sb sb_fdblocks XFS_TRANS_SB_FREXTENTS delta = (Some EINVAL, sb_fdblocks)"

definition XFS_BMAPI_REMAP :: u32 where "XFS_BMAPI_REMAP = 128"

text \<open>
  The middle of a delayed extent: the new reservations of the two parts, the old reservation with
  what was stolen from the deleted blocks, and the number stolen.
\<close>

definition del_delay_split :: "bmap_geom \<Rightarrow> bool \<Rightarrow> u64 \<Rightarrow> u64 \<Rightarrow> u64 \<Rightarrow> u64 \<Rightarrow> (u64 \<times> u64 \<times> u64 \<times> u64) option" where
  "del_delay_split g isrt da_old got_count new_count del_count = do {
     got_indlen \<leftarrow> xfs_bmap_worst_indlen g got_count;
     new_indlen \<leftarrow> xfs_bmap_worst_indlen g new_count;
     let da_new = got_indlen + new_indlen;
     let stolen = (if sint da_new > sint da_old \<and> \<not> isrt then min (da_new - da_old) del_count else 0);
     let da_old = da_old + stolen;
     (got_indlen, new_indlen) \<leftarrow>
       (if sint da_new > sint da_old then xfs_bmap_split_indlen da_old got_indlen new_indlen else Some (got_indlen, new_indlen));
     Some (got_indlen, new_indlen, da_old, stolen)
   }"

text \<open>
  The removal itself: the new state, the cursor, and \<^verbatim>\<open>del\<close> with the blocks that were not stolen. What the
  two counter updates return is ignored, as in the code; \<^verbatim>\<open>xfs_zoned_add_available\<close>, the quota and the
  statistics calls are empty macros of \<^verbatim>\<open>libxfs_priv.h\<close>.
\<close>

definition xfs_bmap_del_extent_delay ::
    "bmap_geom \<Rightarrow> rt_mount \<Rightarrow> bool \<Rightarrow> delay_state \<Rightarrow> xfs_iext_cursor \<Rightarrow> xfs_bmbt_irec \<Rightarrow> xfs_bmbt_irec \<Rightarrow> u32 \<Rightarrow>
      (delay_state \<times> xfs_iext_cursor \<times> xfs_bmbt_irec) option" where
  "xfs_bmap_del_extent_delay g m isrt s icur got del bflags = do {
     let del_endoff = br_startoff del + br_blockcount del;
     let got_endoff = br_startoff got + br_blockcount got;
     let da_old = startblockval (br_startblock got);
     iext_assert (br_blockcount del > 0);
     iext_assert (br_startoff got \<le> br_startoff del);
     iext_assert (got_endoff \<ge> del_endoff);
     let s = s\<lparr>ds_delayed := ds_delayed s - br_blockcount del\<rparr>;
     let left = (br_startoff got = br_startoff del);
     let right = (got_endoff = del_endoff);
     (tree, icur, da_old, da_new, stolen) \<leftarrow>
       (if left \<and> right then do {
          (tree, icur) \<leftarrow> xfs_iext_remove (ds_tree s) icur;
          icur \<leftarrow> xfs_iext_prev tree icur;
          Some (tree, icur, da_old, 0, 0)
        }
        else if left then do {
          let count = br_blockcount got - br_blockcount del;
          indlen \<leftarrow> xfs_bmap_worst_indlen g count;
          let da_new = min indlen da_old;
          tree \<leftarrow> xfs_iext_update_extent (ds_tree s) icur
            (got\<lparr>br_startoff := del_endoff, br_blockcount := count, br_startblock := nullstartblock (ucast da_new)\<rparr>);
          Some (tree, icur, da_old, da_new, 0)
        }
        else if right then do {
          let count = br_blockcount got - br_blockcount del;
          indlen \<leftarrow> xfs_bmap_worst_indlen g count;
          let da_new = min indlen da_old;
          tree \<leftarrow> xfs_iext_update_extent (ds_tree s) icur
            (got\<lparr>br_blockcount := count, br_startblock := nullstartblock (ucast da_new)\<rparr>);
          Some (tree, icur, da_old, da_new, 0)
        }
        else do {
          let got_count = br_startoff del - br_startoff got;
          let new_count = got_endoff - del_endoff;
          (got_indlen, new_indlen, da_old, stolen) \<leftarrow> del_delay_split g isrt da_old got_count new_count (br_blockcount del);
          tree \<leftarrow> xfs_iext_update_extent (ds_tree s) icur
            (got\<lparr>br_blockcount := got_count, br_startblock := nullstartblock (ucast got_indlen)\<rparr>);
          icur \<leftarrow> xfs_iext_next tree icur;
          (tree, icur) \<leftarrow> xfs_iext_insert_raw tree icur
            \<lparr>br_startoff = del_endoff, br_startblock = nullstartblock (ucast new_indlen),
             br_blockcount = new_count, br_state = br_state got\<rparr>;
          Some (tree, icur, da_old, got_indlen + new_indlen, stolen)
        });
     iext_assert (sint da_old \<ge> sint da_new);
     let del_count = br_blockcount del - stolen;
     let fdblocks = da_old - da_new;
     let (sb_fdblocks, fdblocks) =
       (if bflags AND XFS_BMAPI_REMAP \<noteq> 0 then (ds_fdblocks s, fdblocks)
        else if isrt then
          (snd (libxfs_mod_incore_sb (ds_fdblocks s) XFS_TRANS_SB_FREXTENTS (xfs_blen_to_rtbxlen m del_count)), fdblocks)
        else (ds_fdblocks s, fdblocks + del_count));
     let sb_fdblocks = snd (libxfs_mod_incore_sb sb_fdblocks XFS_TRANS_SB_FDBLOCKS fdblocks);
     Some (s\<lparr>ds_tree := tree, ds_fdblocks := sb_fdblocks\<rparr>, icur, del\<lparr>br_blockcount := del_count\<rparr>)
   }"

end
