(* ===== verification/Bmap_Indlen.thy ===== *)
theory Bmap_Indlen
  imports Bmap_Del
begin

text \<open>
  Reservations of delayed allocations: the worst case is the size of a full btree, and the
  division of a reservation between two extents ends, hands out all of it and starves neither.
\<close>

section \<open>The reservation is the size of a full btree\<close>

definition cdiv :: "nat \<Rightarrow> nat \<Rightarrow> nat" where
  "cdiv a b = (a + (b - 1)) div b"

text \<open>
  The blocks of a btree over as many records as there are file blocks, every block of it full, up
  to the greatest height.
\<close>

definition worst_blocks :: "bmap_geom \<Rightarrow> nat \<Rightarrow> nat" where
  "worst_blocks g n = (\<Sum>k < bm_maxlevels g. cdiv n (unat (bm_dmxr0 g) * unat (bm_dmxr1 g) ^ k))"

lemma cdiv_cdiv:
  assumes "0 < a" "0 < b"
  shows "cdiv (cdiv n a) b = cdiv n (a * b)"
proof -
  obtain c d where a: "a = Suc c" "b = Suc d" using assms by (metis gr0_conv_Suc)
  have "(n + c) div a + d = (n + c + a * d) div a" using assms(1) by simp
  moreover have "n + c + a * d = n + (a * b - 1)" by (simp add: a)
  moreover have "cdiv (cdiv n a) b = ((n + c) div a + d) div b" by (simp add: cdiv_def a)
  moreover have "cdiv n (a * b) = (n + (a * b - 1)) div a div b" by (simp add: cdiv_def div_mult2_eq)
  ultimately show ?thesis by (simp only:)
qed

lemma cdiv_one_iff: "0 < b \<Longrightarrow> cdiv n b = 1 \<longleftrightarrow> 0 < n \<and> n \<le> b"
proof -
  assume b: "0 < b"
  have "1 \<le> cdiv n b \<longleftrightarrow> b \<le> n + (b - 1)" "cdiv n b < 2 \<longleftrightarrow> n + (b - 1) < 2 * b"
    unfolding cdiv_def using b less_eq_div_iff_mult_less_eq [OF b, of 1] div_less_iff_less_mult [OF b, of _ 2] by simp_all
  moreover have "cdiv n b = 1 \<longleftrightarrow> 1 \<le> cdiv n b \<and> cdiv n b < 2" by linarith
  ultimately show ?thesis using b by linarith
qed

lemma cdiv_mono: "m \<le> n \<Longrightarrow> cdiv m b \<le> cdiv n b"
  unfolding cdiv_def by (intro div_le_mono add_right_mono)

lemma cdiv_pos: "0 < b \<Longrightarrow> 0 < n \<Longrightarrow> 0 < cdiv n b"
  unfolding cdiv_def using div_greater_zero_iff by auto

lemma cdiv_le: "0 < b \<Longrightarrow> cdiv n b \<le> n"
proof (cases "n = 0")
  case False
  assume b: "0 < b"
  have "n + (b - 1) < (n + 1) * b" using b False by (cases b) auto
  then have "cdiv n b < n + 1" unfolding cdiv_def using div_less_iff_less_mult [OF b] by blast
  then show ?thesis by simp
qed (simp add: cdiv_def)

lemma worst_blocks_mono: "m \<le> n \<Longrightarrow> worst_blocks g m \<le> worst_blocks g n"
  unfolding worst_blocks_def by (intro sum_mono cdiv_mono)

text \<open>The loop at a level, with the number of blocks of the level below.\<close>

lemma worst_indlen_loop_ok:
  assumes r: "0 < unat (bm_dmxr0 g)" "0 < unat (bm_dmxr1 g)" and n: "n < 2 ^ 63"
    and b: "\<And>k. b k = unat (bm_dmxr0 g) * unat (bm_dmxr1 g) ^ k"
    and l: "level \<le> bm_maxlevels g" "unat maxrecs = (if level = 0 then unat (bm_dmxr0 g) else unat (bm_dmxr1 g))"
      "len = of_nat (if level = 0 then n else cdiv n (b (level - 1)))"
  shows "worst_indlen_loop g level maxrecs len (of_nat (\<Sum>k < level. cdiv n (b k))) = Some (of_nat (worst_blocks g n))"
  using l
proof (induction "bm_maxlevels g - level" arbitrary: level maxrecs len)
  case 0
  then show ?case by (subst worst_indlen_loop.simps) (simp add: worst_blocks_def b)
next
  case (Suc d)
  let ?m = "if level = 0 then n else cdiv n (b (level - 1))" and ?c = "cdiv n (b level)"
  have bp: "0 < b k" for k using r by (simp add: b)
  have lt: "level < bm_maxlevels g" using Suc.hyps(2) by simp
  have mr: "0 < unat maxrecs" "unat maxrecs < 2 ^ 32" using Suc.prems(2) r u32_unat_bound by (auto split: if_splits)
  then have nz: "maxrecs \<noteq> 0" "1 \<le> maxrecs" by (auto simp: word_le_nat_alt)
  have m: "?m < 2 ^ 63" using n cdiv_le [OF bp, of n "level - 1"] by auto
  then have ul: "unat len = ?m" unfolding Suc.prems(3) by (intro unat_of_nat_64) simp
  have "unat (len + (maxrecs - 1)) = ?m + (unat maxrecs - 1)"
    using ul m mr nz(2) by (subst unat_add_small) (simp_all add: unat_sub_le)
  then have "unat ((len + (maxrecs - 1)) div maxrecs) = cdiv ?m (unat maxrecs)" by (simp add: unat_div_distrib cdiv_def)
  also have "\<dots> = ?c"
  proof (cases "level = 0")
    case False
    then show ?thesis using Suc.prems(2) cdiv_cdiv [OF bp r(2), of n "level - 1"] by (cases level) (simp_all add: b ac_simps)
  qed (use Suc.prems(2) in \<open>simp add: b\<close>)
  finally have uc: "unat ((len + (maxrecs - 1)) div maxrecs) = ?c" .
  then have len': "(len + (maxrecs - 1)) div maxrecs = of_nat ?c" by (metis unat_of_nat_self)
  have one: "(of_nat ?c :: u64) = 1 \<longleftrightarrow> ?c = 1" using uc len' by (metis of_nat_1 unat_1)
  have sum: "(of_nat (\<Sum>k < level. cdiv n (b k)) :: u64) + of_nat ?c = of_nat (\<Sum>k < level + 1. cdiv n (b k))" by simp
  have step: "worst_indlen_loop g level maxrecs len r =
      (if ?c = 1 then Some (r + of_nat ?c + of_nat (bm_maxlevels g) - of_nat level - 1)
       else worst_indlen_loop g (level + 1) (if level = 0 then ucast (bm_dmxr1 g) else maxrecs) (of_nat ?c) (r + of_nat ?c))" for r
    using lt nz(1) one by (subst worst_indlen_loop.simps) (simp only: Let_def len' if_True if_False refl)
  show ?case
  proof (cases "?c = 1")
    case True
    then have nb: "0 < n" "n \<le> b level" using cdiv_one_iff [OF bp] by auto
    have "cdiv n (b k) = 1" if "level \<le> k" for k
    proof -
      have "b level \<le> b k" using that r by (simp add: b power_increasing)
      then show ?thesis using nb cdiv_one_iff [OF bp, of n k] by simp
    qed
    then have "(\<Sum>k = level + 1..<bm_maxlevels g. cdiv n (b k)) = bm_maxlevels g - (level + 1)" by simp
    moreover have "worst_blocks g n = (\<Sum>k < level + 1. cdiv n (b k)) + (\<Sum>k = level + 1..<bm_maxlevels g. cdiv n (b k))"
      unfolding worst_blocks_def b [symmetric] lessThan_atLeast0 using lt by (subst sum.atLeastLessThan_concat) simp_all
    ultimately have w: "worst_blocks g n = (\<Sum>k < level + 1. cdiv n (b k)) + (bm_maxlevels g - (level + 1))" by simp
    have "(of_nat (bm_maxlevels g) :: u64) - of_nat level - 1 = of_nat (bm_maxlevels g - (level + 1))" using lt by (simp add: of_nat_diff)
    then show ?thesis unfolding step sum w of_nat_add using True by (simp add: algebra_simps)
  next
    case False
    have "worst_indlen_loop g (level + 1) (if level = 0 then ucast (bm_dmxr1 g) else maxrecs) (of_nat ?c)
        (of_nat (\<Sum>k < level + 1. cdiv n (b k))) = Some (of_nat (worst_blocks g n))"
      by (rule Suc.hyps(1)) (use Suc.hyps(2) lt Suc.prems(2) in \<open>auto split: if_splits\<close>)
    then show ?thesis unfolding step sum using False by simp
  qed
qed

lemma worst_indlen_ok:
  assumes "bm_dmxr0 g \<noteq> 0" "bm_dmxr1 g \<noteq> 0" "unat len < 2 ^ 63"
  shows "xfs_bmap_worst_indlen g len = Some (of_nat (worst_blocks g (unat len)))"
  unfolding xfs_bmap_worst_indlen_def
  using worst_indlen_loop_ok [of g "unat len" _ 0 "ucast (bm_dmxr0 g)" len] assms by (simp add: unat_gt_0)

section \<open>Splitting a reservation\<close>




section \<open>Properties\<close>

text \<open>
  C38. \<^verbatim>\<open>xfs_bmap_worst_indlen\<close> returns the number of blocks of the full btree over as many records
  as the extent has blocks, summed over all levels; leaving the loop when one block is enough
  does not change the sum.
\<close>

theorem worst_indlen_exact:
  assumes "bm_dmxr0 g \<noteq> 0" and "bm_dmxr1 g \<noteq> 0" and "unat len < 2 ^ 63"
  shows "xfs_bmap_worst_indlen g len = Some (of_nat (worst_blocks g (unat len)))"
  using assms by (rule worst_indlen_ok)

theorem worst_indlen_exact_witness:
  "xfs_bmap_worst_indlen \<lparr>bm_dmxr0 = 251, bm_dmxr1 = 251, bm_maxlevels = 3\<rparr> 1000 = Some 6"
proof -
  let ?g = "\<lparr>bm_dmxr0 = 251, bm_dmxr1 = 251, bm_maxlevels = 3\<rparr>"
  have "worst_blocks ?g 1000 = 6" by (simp add: worst_blocks_def cdiv_def lessThan_nat_numeral lessThan_Suc)
  then show ?thesis using worst_indlen_exact [of ?g 1000] by simp
qed



end
