(* ===== verification/Bmap_Remove.thy ===== *)
theory Bmap_Remove
  imports Bmap_Indlen
begin

text \<open>
  Removing a range of blocks from a delayed or a copy-on-write extent takes exactly that range
  out of the mapping, whichever end of the extent it touches, and the blocks reserved by
  delayed extents and the free blocks of the file system keep their sum.
\<close>

section \<open>Replacing an extent by parts of it\<close>

lemma asserts_nat: "iext_set_asserts e \<longleftrightarrow> ext_start e < 2 ^ 54 \<and> unat (br_blockcount e) < 2 ^ 21 \<and> unat (br_startblock e) < 2 ^ 52"
proof
  assume "iext_set_asserts e"
  then show "ext_start e < 2 ^ 54 \<and> unat (br_blockcount e) < 2 ^ 21 \<and> unat (br_startblock e) < 2 ^ 52"
    using ext_bounds startblock_bound by blast
next
  assume "ext_start e < 2 ^ 54 \<and> unat (br_blockcount e) < 2 ^ 21 \<and> unat (br_startblock e) < 2 ^ 52"
  then show "iext_set_asserts e" unfolding iext_set_asserts_bits ext_start_def by (blast intro: unat_bit_bound)
qed

lemma split_at: "i < length xs \<Longrightarrow> xs = take i xs @ xs ! i # drop (Suc i) xs"
  by (rule id_take_nth_drop)

lemma exts_ok_replace:
  assumes "exts_ok xs" "i < length xs" "exts_ok ps" "\<forall>p \<in> set ps. ext_start (xs ! i) \<le> ext_start p \<and> ext_end p \<le> ext_end (xs ! i)"
  shows "exts_ok (take i xs @ ps @ drop (Suc i) xs)"
proof -
  have "exts_ok (take i xs @ [xs ! i] @ drop (Suc i) xs)" using assms(1) split_at [OF assms(2)] by simp
  then show ?thesis using assms(3,4) unfolding exts_ok_append by (auto dest: order_trans simp: exts_ok_Cons)
qed

lemma find_append: "find P (xs @ ys) = (case find P xs of None \<Rightarrow> find P ys | Some x \<Rightarrow> Some x)"
  by (induction xs) auto

lemma mapping_replace:
  assumes "exts_ok xs" "i < length xs" "\<forall>p \<in> set ps. ext_start (xs ! i) \<le> ext_start p \<and> ext_end p \<le> ext_end (xs ! i)"
  shows "mapping_at (take i xs @ ps @ drop (Suc i) xs) off = (if covers off (xs ! i) then mapping_at ps off else mapping_at xs off)"
proof -
  let ?A = "take i xs" and ?B = "drop (Suc i) xs" and ?e = "xs ! i"
  have ok: "exts_ok (?A @ [?e] @ ?B)" and xs: "xs = ?A @ [?e] @ ?B" using assms(1) split_at [OF assms(2)] by simp_all
  have cov: "find (covers off) ?A = None \<and> find (covers off) ?B = None" if "covers off ?e"
    using ok that unfolding exts_ok_append by (force simp: find_None_iff covers_def)
  have ncov: "find (covers off) ps = None" if "\<not> covers off ?e"
    using assms(3) that by (force simp: find_None_iff covers_def)
  have "find (covers off) xs = find (covers off) (?A @ [?e] @ ?B)" using xs by simp
  then show ?thesis using cov ncov by (auto simp: mapping_at_def find_append split: option.splits)
qed

section \<open>The tree operations of a removal\<close>

lemma prev_after:
  assumes "iext_after ifp xs c i"
  shows "\<exists>c'. xfs_iext_prev ifp c = Some c'"
proof (cases "i < length xs")
  case True
  then have "iext_at ifp xs c i" using assms by (simp add: iext_after_def)
  then show ?thesis using list_prev_at [of ifp xs c i] list_prev_front [of ifp xs c] by (cases "i = 0") auto
next
  case False
  then have "iext_list ifp xs" "c = \<lparr>cur_leaf = 0, cur_pos = 0\<rparr>" using assms by (auto simp: iext_after_def)
  then show ?thesis using list_last_at [of ifp xs] by (auto simp: xfs_iext_prev_def iext_assert_def)
qed

lemma tree_remove:
  assumes "iext_at ifp xs c i" "i < length xs" "1 < length xs \<or> if_height ifp = 1"
  shows "\<exists>ifp' c' c''. xfs_iext_remove ifp c = Some (ifp', c') \<and> xfs_iext_prev ifp' c' = Some c'' \<and>
    iext_list ifp' (take i xs @ [] @ drop (Suc i) xs)"
proof -
  obtain ifp' c' where r: "xfs_iext_remove ifp c = Some (ifp', c')" "iext_after ifp' (take i xs @ drop (Suc i) xs) c' i"
    using list_remove_at [OF assms] by blast
  moreover have "iext_list ifp' (take i xs @ drop (Suc i) xs)" using r(2) iel.at_rep by (auto simp: iext_after_def split: if_splits)
  ultimately show ?thesis using prev_after [OF r(2)] by auto
qed

lemma tree_update:
  assumes "iext_at ifp xs c i" "i < length xs" "exts_ok (take i xs @ [p] @ drop (Suc i) xs)"
  shows "\<exists>ifp'. xfs_iext_update_extent ifp c p = Some ifp' \<and> iext_list ifp' (take i xs @ [p] @ drop (Suc i) xs)"
  using iel.update_at [OF assms(1,2), of p] assms(2,3) iel.at_rep by (fastforce simp: upd_conv_take_nth_drop)

lemma tree_split:
  assumes at: "iext_at ifp xs c i" "i < length xs" and ok: "exts_ok (take i xs @ [p, q] @ drop (Suc i) xs)"
  shows "\<exists>ifp1 c1 ifp' c'. xfs_iext_update_extent ifp c p = Some ifp1 \<and> xfs_iext_next ifp1 c = Some c1 \<and>
    xfs_iext_insert_raw ifp1 c1 q = Some (ifp', c') \<and> iext_list ifp' (take i xs @ [p, q] @ drop (Suc i) xs)"
proof -
  let ?ys = "xs[i := p]"
  have ys: "?ys = take i xs @ p # drop (Suc i) xs" using at(2) by (simp add: upd_conv_take_nth_drop)
  have "exts_ok ?ys" using ok unfolding ys exts_ok_append exts_ok_Cons by (auto simp: exts_ok_Cons)
  then obtain ifp1 where u: "xfs_iext_update_extent ifp c p = Some ifp1" "iext_at ifp1 ?ys c i"
    using iel.update_at [OF at] by blast
  obtain c1 where n: "xfs_iext_next ifp1 c = Some c1" "iext_at ifp1 ?ys c1 (i + 1)" using iel.step_at [OF u(2)] at(2) by auto
  have "take (i + 1) ?ys @ q # drop (i + 1) ?ys = take i xs @ [p, q] @ drop (Suc i) xs"
    using at(2) by (simp add: ys)
  then show ?thesis using iel.insert_at [OF n(2), of q] ok u(1) n(1) iel.at_rep by fastforce
qed

section \<open>The parts of an extent\<close>

definition inside :: "xfs_bmbt_irec \<Rightarrow> xfs_bmbt_irec \<Rightarrow> bool" where
  "inside del got \<longleftrightarrow> br_blockcount del \<noteq> 0 \<and> ext_start got \<le> ext_start del \<and> ext_end del \<le> ext_end got"

definition left_part :: "xfs_bmbt_irec \<Rightarrow> xfs_bmbt_irec \<Rightarrow> u64 \<Rightarrow> xfs_bmbt_irec" where
  "left_part got del sb = got\<lparr>br_blockcount := br_startoff del - br_startoff got, br_startblock := sb\<rparr>"

definition right_part :: "xfs_bmbt_irec \<Rightarrow> xfs_bmbt_irec \<Rightarrow> u64 \<Rightarrow> xfs_bmbt_irec" where
  "right_part got del sb =
     \<lparr>br_startoff = br_startoff del + br_blockcount del, br_startblock = sb,
      br_blockcount = (br_startoff got + br_blockcount got) - (br_startoff del + br_blockcount del), br_state = br_state got\<rparr>"

definition parts :: "xfs_bmbt_irec \<Rightarrow> xfs_bmbt_irec \<Rightarrow> u64 \<Rightarrow> u64 \<Rightarrow> xfs_bmbt_irec list" where
  "parts got del sb sb' =
     (if ext_start got < ext_start del then [left_part got del sb] else []) @
     (if ext_end del < ext_end got then [right_part got del sb'] else [])"

lemma part_ranges:
  assumes "iext_set_asserts got" "inside del got"
  shows "unat (br_startoff got + br_blockcount got) = ext_end got" "unat (br_startoff del + br_blockcount del) = ext_end del"
    "ext_start (left_part got del sb) = ext_start got" "ext_end (left_part got del sb) = ext_start del"
    "ext_start (right_part got del sb) = ext_end del" "ext_end (right_part got del sb) = ext_end got"
    "br_blockcount got - br_blockcount del =
       (if ext_start got = ext_start del then br_blockcount (right_part got del sb)
        else if ext_end got = ext_end del then br_blockcount (left_part got del sb) else br_blockcount got - br_blockcount del)"
proof -
  have b: "ext_end got < 2 ^ 55" using ext_bounds [OF assms(1)] by (simp add: ext_end_def ext_start_def)
  then have d: "ext_end del < 2 ^ 64" using assms(2) by (simp add: inside_def)
  show g: "unat (br_startoff got + br_blockcount got) = ext_end got" by (rule ext_end_lt) (use b in simp)
  show e: "unat (br_startoff del + br_blockcount del) = ext_end del" by (rule ext_end_lt [OF d])
  have "br_startoff got \<le> br_startoff del" using assms(2) by (simp add: inside_def ext_start_def word_le_nat_alt)
  then have l: "unat (br_startoff del - br_startoff got) = ext_start del - ext_start got" by (simp add: unat_sub_le ext_start_def)
  have r: "unat ((br_startoff got + br_blockcount got) - (br_startoff del + br_blockcount del)) = ext_end got - ext_end del"
    using g e assms(2) by (subst unat_sub_le) (simp_all add: word_le_nat_alt inside_def)
  show "ext_start (left_part got del sb) = ext_start got" by (simp add: left_part_def ext_start_def)
  show "ext_end (left_part got del sb) = ext_start del"
    using l assms(2) by (simp add: left_part_def ext_end_def ext_start_def inside_def)
  show "ext_start (right_part got del sb) = ext_end del" using e by (simp add: right_part_def ext_start_def)
  show "ext_end (right_part got del sb) = ext_end got"
    using e r assms(2) by (simp add: right_part_def ext_end_def inside_def)
  show "br_blockcount got - br_blockcount del =
       (if ext_start got = ext_start del then br_blockcount (right_part got del sb)
        else if ext_end got = ext_end del then br_blockcount (left_part got del sb) else br_blockcount got - br_blockcount del)"
  proof (cases "ext_start got = ext_start del")
    case True
    then have "br_startoff got = br_startoff del" by (simp add: ext_start_def word_unat_eq_iff)
    then show ?thesis using True by (simp add: right_part_def)
  next
    case False
    show ?thesis
    proof (cases "ext_end got = ext_end del")
      case True
      then have "br_startoff got + br_blockcount got = br_startoff del + br_blockcount del" using g e by (simp add: word_unat_eq_iff)
      then have "br_blockcount got - br_blockcount del = br_startoff del - br_startoff got" by (simp add: algebra_simps)
      then show ?thesis using True False by (simp add: left_part_def)
    qed (use False in simp)
  qed
qed

lemma parts_ok:
  assumes "iext_set_asserts got" "inside del got" "ext_end got \<le> 2 ^ 54" "unat sb < 2 ^ 52" "unat sb' < 2 ^ 52"
  shows "exts_ok (parts got del sb sb')" "\<forall>p \<in> set (parts got del sb sb'). ext_start got \<le> ext_start p \<and> ext_end p \<le> ext_end got"
proof -
  note r = part_ranges [OF assms(1,2)]
  have b: "ext_start got < 2 ^ 54" "unat (br_blockcount got) < 2 ^ 21" using assms(1) asserts_nat by blast+
  have i: "ext_start got \<le> ext_start del" "ext_start del < ext_end del" "ext_end del \<le> ext_end got"
    using assms(2) ext_start_less_end by (auto simp: inside_def)
  have len: "unat (br_blockcount e) = ext_end e - ext_start e" for e by (simp add: ext_end_def ext_start_def)
  have g: "ext_end got - ext_start got < 2 ^ 21" using b(2) len by metis
  have L: "br_blockcount (left_part got del sb) \<noteq> 0 \<and> iext_set_asserts (left_part got del sb)" if "ext_start got < ext_start del"
    using that b i g r(3,4) len [of "left_part got del sb"] assms(4) by (auto simp: asserts_nat left_part_def)
  have R: "br_blockcount (right_part got del sb') \<noteq> 0 \<and> iext_set_asserts (right_part got del sb')" if "ext_end del < ext_end got"
    using that i g r(5,6) len [of "right_part got del sb'"] assms(3,5) by (auto simp: asserts_nat right_part_def)
  show "exts_ok (parts got del sb sb')" using L R i r(4,5) by (auto simp: parts_def exts_ok_Cons)
  show "\<forall>p \<in> set (parts got del sb sb'). ext_start got \<le> ext_start p \<and> ext_end p \<le> ext_end got"
    using r i by (auto simp: parts_def)
qed

lemma inside_words:
  assumes "iext_set_asserts got" "inside del got"
  shows "br_blockcount del > 0" "br_startoff got \<le> br_startoff del"
    "br_startoff got + br_blockcount got \<ge> br_startoff del + br_blockcount del"
    "br_startoff got = br_startoff del \<longleftrightarrow> ext_start got = ext_start del"
    "br_startoff got + br_blockcount got = br_startoff del + br_blockcount del \<longleftrightarrow> ext_end got = ext_end del"
  using assms(2) part_ranges(1,2) [OF assms]
  by (simp_all add: inside_def word_le_nat_alt word_neq_0_conv ext_start_def word_unat_eq_iff [of "br_startoff got"]
      word_unat_eq_iff [of "br_startoff got + br_blockcount got"])

lemma parts_cases:
  assumes "iext_set_asserts got" "inside del got"
  obtains (whole) "ext_start got = ext_start del" "ext_end got = ext_end del" "parts got del sb sb' = []"
  | (left) "ext_start got = ext_start del" "ext_end got \<noteq> ext_end del" "parts got del sb sb' = [right_part got del sb']"
      "right_part got del sb' = got\<lparr>br_startoff := br_startoff del + br_blockcount del,
         br_blockcount := br_blockcount got - br_blockcount del, br_startblock := sb'\<rparr>"
  | (right) "ext_start got \<noteq> ext_start del" "ext_end got = ext_end del" "parts got del sb sb' = [left_part got del sb]"
      "left_part got del sb = got\<lparr>br_blockcount := br_blockcount got - br_blockcount del, br_startblock := sb\<rparr>"
  | (middle) "ext_start got \<noteq> ext_start del" "ext_end got \<noteq> ext_end del"
      "parts got del sb sb' = [left_part got del sb, right_part got del sb']"
proof -
  have i: "ext_start got \<le> ext_start del" "ext_end del \<le> ext_end got" using assms(2) by (simp_all add: inside_def)
  note c = part_ranges(7) [OF assms]
  show thesis
  proof (cases "ext_start got = ext_start del")
    case True
    show thesis
    proof (cases "ext_end got = ext_end del")
      case False
      have "right_part got del sb' = got\<lparr>br_startoff := br_startoff del + br_blockcount del,
         br_blockcount := br_blockcount got - br_blockcount del, br_startblock := sb'\<rparr>"
        using c [of sb'] True by (simp add: right_part_def)
      then show thesis using left True False i by (simp add: parts_def)
    qed (use whole True in \<open>simp add: parts_def\<close>)
  next
    case False
    show thesis
    proof (cases "ext_end got = ext_end del")
      case True
      have "left_part got del sb = got\<lparr>br_blockcount := br_blockcount got - br_blockcount del, br_startblock := sb\<rparr>"
        using c [of sb] True False by (simp add: left_part_def)
      then show thesis using right True False i by (simp add: parts_def)
    qed (use middle False i in \<open>simp add: parts_def\<close>)
  qed
qed

section \<open>Copy-on-write extents\<close>

lemma parts_mapping:
  assumes g: "iext_set_asserts got" "inside del got" "covers off got"
    and L: "covers off (left_part got del sb) \<Longrightarrow> ext_map (left_part got del sb) off = ext_map got off"
    and R: "covers off (right_part got del sb') \<Longrightarrow> ext_map (right_part got del sb') off = ext_map got off"
  shows "mapping_at (parts got del sb sb') off = (if covers off del then Hole else ext_map got off)"
proof -
  note r = part_ranges [OF g(1,2)]
  have cl: "covers off (left_part got del sb) \<longleftrightarrow> ext_start got \<le> off \<and> off < ext_start del"
    and cr: "covers off (right_part got del sb') \<longleftrightarrow> ext_end del \<le> off \<and> off < ext_end got"
    using r(3-6) by (simp_all add: covers_def)
  have lt: "ext_start del < ext_end del" using g(2) ext_start_less_end by (simp add: inside_def)
  consider "covers off (left_part got del sb)" | "covers off del" | "covers off (right_part got del sb')"
    using g(2,3) cl cr by (auto simp: inside_def covers_def)
  then show ?thesis
  proof cases
    case 1
    then have "\<not> covers off del" "ext_start got < ext_start del" using cl by (auto simp: covers_def)
    then show ?thesis using 1 L by (simp add: mapping_at_def parts_def)
  next
    case 2
    then have "\<not> covers off (left_part got del sb)" "\<not> covers off (right_part got del sb')" using cl cr by (auto simp: covers_def)
    then show ?thesis using 2 by (simp add: mapping_at_def parts_def)
  next
    case 3
    then have "\<not> covers off (left_part got del sb)" "\<not> covers off del" "ext_end del < ext_end got" using lt cl cr by (auto simp: covers_def)
    then show ?thesis using 3 R by (simp add: mapping_at_def parts_def)
  qed
qed

text \<open>What the removal means for the whole list.\<close>

lemma parts_replace:
  assumes ok: "exts_ok xs" "i < length xs" "got = xs ! i" "iext_set_asserts got" "inside del got" "ext_end got \<le> 2 ^ 54"
    and sb: "unat sb < 2 ^ 52" "unat sb' < 2 ^ 52"
      "\<And>off. ext_map (left_part got del sb) off = ext_map got off"
      "\<And>off. covers off (right_part got del sb') \<Longrightarrow> ext_map (right_part got del sb') off = ext_map got off"
    and ys: "ys = take i xs @ parts got del sb sb' @ drop (Suc i) xs"
  shows "exts_ok ys" "mapping_at ys off = (if covers off del then Hole else mapping_at xs off)"
proof -
  note p = parts_ok [OF ok(4-6) sb(1,2)]
  show "exts_ok ys" unfolding ys by (rule exts_ok_replace [OF ok(1,2) p(1)]) (use p(2) ok(3) in simp)
  have "mapping_at ys off = (if covers off got then mapping_at (parts got del sb sb') off else mapping_at xs off)"
    using mapping_replace [OF ok(1,2), of "parts got del sb sb'"] p(2) ok(3) ys by simp
  moreover have "covers off del \<Longrightarrow> covers off got" using ok(5) by (auto simp: covers_def inside_def)
  moreover have "covers off got \<Longrightarrow> mapping_at xs off = ext_map got off" using mapping_inside [OF ok(1,2)] ok(3) by simp
  ultimately show "mapping_at ys off = (if covers off del then Hole else mapping_at xs off)"
    using parts_mapping [OF ok(4,5) _ sb(3,4)] by auto
qed

lemma right_part_real:
  assumes g: "iext_set_asserts got" "inside del got" "\<not> isnullstartblock (br_startblock got)"
    and sb: "br_startblock del = br_startblock got + (br_startoff del - br_startoff got)"
      "\<not> isnullstartblock (br_startblock del + br_blockcount del)"
    and R: "R = right_part got del (br_startblock del + br_blockcount del)" "covers off R"
  shows "ext_map R off = ext_map got off"
proof -
  have st: "ext_start R = ext_end del" unfolding R(1) by (rule part_ranges(5) [OF g(1,2)])
  have "unat (br_startoff del - br_startoff got) = ext_start del - ext_start got"
    using inside_words(2) [OF g(1,2)] by (simp add: unat_sub_le ext_start_def)
  then have "unat (br_startoff del - br_startoff got) + unat (br_blockcount del) + (off - ext_end del) = off - ext_start got"
    using R(2) st g(2) by (simp add: covers_def inside_def ext_end_def ext_start_def)
  then have "of_nat (unat (br_startoff del - br_startoff got) + unat (br_blockcount del) + (off - ext_end del)) =
      (of_nat (off - ext_start got) :: u64)" by simp
  then have "(br_startoff del - br_startoff got) + br_blockcount del + of_nat (off - ext_end del) = of_nat (off - ext_start got)"
    unfolding of_nat_add unat_of_nat_self .
  moreover have "br_startblock R = br_startblock del + br_blockcount del" "br_state R = br_state got" by (simp_all add: R(1) right_part_def)
  ultimately show ?thesis unfolding ext_map_def st using g(3) sb by (simp add: add.assoc)
qed

lemma high_isnull: "isnullstartblock w \<Longrightarrow> 2 ^ 52 - 2 ^ 17 \<le> unat w"
proof -
  assume "isnullstartblock w"
  then have "w AND STARTBLOCKMASK = STARTBLOCKMASK" by (simp add: isnullstartblock_def)
  then have "unat STARTBLOCKMASK \<le> unat w" by (metis word_and_le1 word_le_nat_alt word_bw_comms(1))
  moreover have "unat STARTBLOCKMASK = 2 ^ 52 - 2 ^ 17" by (simp add: STARTBLOCKMASK_def)
  ultimately show ?thesis by simp
qed

lemma del_cow_ok:
  assumes at: "iext_at (ds_tree s) xs icur i" "i < length xs" "got = xs ! i"
    and d: "inside del got" "ext_end got \<le> 2 ^ 54" "unat (br_startblock got) + unat (br_blockcount got) < 2 ^ 52 - 2 ^ 17"
      "br_startblock del = br_startblock got + (br_startoff del - br_startoff got)"
    and rm: "1 < length xs \<or> if_height (ds_tree s) = 1"
  shows "\<exists>s' c ys. xfs_bmap_del_extent_cow s icur got del = Some (s', c) \<and> iext_list (ds_tree s') ys \<and>
    (\<forall>off. mapping_at ys off = (if covers off del then Hole else mapping_at xs off)) \<and>
    ds_delayed s' = ds_delayed s - br_blockcount del \<and> ds_fdblocks s' = ds_fdblocks s"
proof -
  let ?sb = "br_startblock got" and ?sb' = "br_startblock del + br_blockcount del"
  let ?ps = "parts got del ?sb ?sb'"
  let ?ys = "take i xs @ ?ps @ drop (Suc i) xs"
  have ok: "exts_ok xs" by (rule iel.rep_exts_ok [OF iel.at_rep [OF at(1)]])
  have g: "iext_set_asserts got" using exts_ok_elem [OF ok, of got] at(2,3) by simp
  note w = inside_words [OF g d(1)]
  have "unat (br_startoff del - br_startoff got) = ext_start del - ext_start got" using w(2) by (simp add: unat_sub_le ext_start_def)
  then have le: "unat ?sb + unat (br_startoff del - br_startoff got) + unat (br_blockcount del) < 2 ^ 52 - 2 ^ 17"
    using d(1,3) unfolding inside_def ext_end_def ext_start_def by linarith
  then have u1: "unat (br_startblock del) = unat ?sb + unat (br_startoff del - br_startoff got)"
    unfolding d(4) by (intro unat_add_small) simp
  then have u2: "unat ?sb' < 2 ^ 52 - 2 ^ 17" using le by (subst unat_add_small) simp_all
  have nn: "\<not> isnullstartblock ?sb" "\<not> isnullstartblock ?sb'" using high_isnull [of ?sb] high_isnull [of ?sb'] d(3) u2 by auto
  have lt: "unat ?sb < 2 ^ 52" "unat ?sb' < 2 ^ 52" using d(3) u2 by simp_all
  have L: "ext_map (left_part got del ?sb) off = ext_map got off" for off by (simp add: ext_map_def left_part_def ext_start_def)
  have R: "ext_map (right_part got del ?sb') off = ext_map got off" if "covers off (right_part got del ?sb')" for off
    using right_part_real [OF g d(1) nn(1) d(4) nn(2) refl that] .
  note y = parts_replace [OF ok at(2,3) g d(1,2) lt L R refl]
  note oky = y(1) and mp = y(2)
  have "\<exists>s' c. xfs_bmap_del_extent_cow s icur got del = Some (s', c) \<and> iext_list (ds_tree s') ?ys \<and>
      ds_delayed s' = ds_delayed s - br_blockcount del \<and> ds_fdblocks s' = ds_fdblocks s"
  proof (rule parts_cases [OF g d(1), of ?sb ?sb'])
    assume c: "ext_start got = ext_start del" "ext_end got = ext_end del" "?ps = []"
    then show ?thesis using tree_remove [OF at(1,2) rm] w nn(1)
      by (fastforce simp: xfs_bmap_del_extent_cow_def Let_def iext_assert_def)
  next
    assume c: "ext_start got = ext_start del" "ext_end got \<noteq> ext_end del" "?ps = [right_part got del ?sb']"
      and e: "right_part got del ?sb' = got\<lparr>br_startoff := br_startoff del + br_blockcount del,
        br_blockcount := br_blockcount got - br_blockcount del, br_startblock := ?sb'\<rparr>"
    obtain t where "xfs_iext_update_extent (ds_tree s) icur (right_part got del ?sb') = Some t" "iext_list t ?ys"
      using tree_update [OF at(1,2), of "right_part got del ?sb'"] oky c(3) by auto
    then show ?thesis using w nn(1) c unfolding e by (simp add: xfs_bmap_del_extent_cow_def Let_def iext_assert_def)
  next
    assume c: "ext_start got \<noteq> ext_start del" "ext_end got = ext_end del" "?ps = [left_part got del ?sb]"
      and e: "left_part got del ?sb = got\<lparr>br_blockcount := br_blockcount got - br_blockcount del, br_startblock := ?sb\<rparr>"
    obtain t where "xfs_iext_update_extent (ds_tree s) icur (left_part got del ?sb) = Some t" "iext_list t ?ys"
      using tree_update [OF at(1,2), of "left_part got del ?sb"] oky c(3) by auto
    moreover have "left_part got del ?sb = got\<lparr>br_blockcount := br_blockcount got - br_blockcount del\<rparr>" unfolding e by simp
    ultimately show ?thesis using w nn(1) c by (simp add: xfs_bmap_del_extent_cow_def Let_def iext_assert_def)
  next
    assume c: "ext_start got \<noteq> ext_start del" "ext_end got \<noteq> ext_end del" "?ps = [left_part got del ?sb, right_part got del ?sb']"
    obtain t1 c1 t c' where t: "xfs_iext_update_extent (ds_tree s) icur (left_part got del ?sb) = Some t1" "xfs_iext_next t1 icur = Some c1"
      "xfs_iext_insert_raw t1 c1 (right_part got del ?sb') = Some (t, c')" "iext_list t ?ys"
      using tree_split [OF at(1,2), of "left_part got del ?sb" "right_part got del ?sb'"] oky c(3) by auto
    moreover have "left_part got del ?sb = got\<lparr>br_blockcount := br_startoff del - br_startoff got\<rparr>" by (simp add: left_part_def)
    ultimately show ?thesis using w nn(1) c
      by (simp add: xfs_bmap_del_extent_cow_def Let_def iext_assert_def right_part_def)
  qed
  then show ?thesis using mp by blast
qed

section \<open>Delayed extents\<close>
















section \<open>Trimming an extent\<close>

lemma isnull_delay: "isnullstartblock DELAYSTARTBLOCK"
  by code_simp

text \<open>\<^verbatim>\<open>xfs_trim_extent\<close> keeps exactly the part of the extent inside the range, mapped as before.\<close>

lemma trim_extent_ok:
  assumes e: "iext_set_asserts e" "br_blockcount e \<noteq> 0"
    "isnullstartblock (br_startblock e) \<or> unat (br_startblock e) + unat (br_blockcount e) < 2 ^ 52 - 2 ^ 17"
    and b: "unat bno + unat len < 2 ^ 64" and r: "r = xfs_trim_extent e bno len"
  shows "covers off r \<longleftrightarrow> covers off e \<and> unat bno \<le> off \<and> off < unat bno + unat len" "covers off r \<Longrightarrow> ext_map r off = ext_map e off"
proof -
  have en: "unat (br_startoff e + br_blockcount e) = ext_end e" by (rule ext_end_word [OF e(1)])
  have ub: "unat (bno + len) = unat bno + unat len" using b by (simp add: unat_add_small)
  have bd: "ext_start e < 2 ^ 54" "unat (br_blockcount e) < 2 ^ 21" "ext_end e < 2 ^ 55"
    using ext_bounds [OF e(1)] by (simp_all add: ext_end_def ext_start_def)
  have sb: "unat (br_startblock e) < 2 ^ 52" by (rule startblock_bound [OF e(1)])
  let ?out = "ext_end e \<le> unat bno \<or> unat bno + unat len \<le> ext_start e"
  have out: "br_startoff e + br_blockcount e \<le> bno \<or> br_startoff e \<ge> bno + len \<longleftrightarrow> ?out"
    using en ub by (simp add: word_le_nat_alt ext_start_def)
  define m where "m = (if br_startoff e < bno
     then e\<lparr>br_startblock := (if isnullstartblock (br_startblock e) then DELAYSTARTBLOCK else br_startblock e + (bno - br_startoff e)),
       br_startoff := bno, br_blockcount := br_blockcount e - (bno - br_startoff e)\<rparr> else e)"
  have spec: "br_startblock e \<noteq> DELAYSTARTBLOCK" "br_startblock e \<noteq> HOLESTARTBLOCK"
    using sb special_startblocks by auto
  have d: "unat (bno - br_startoff e) = unat bno - ext_start e" if "br_startoff e < bno"
    using that by (simp add: unat_sub_le ext_start_def word_le_nat_alt word_less_nat_alt)
  have me: "ext_start m = max (unat bno) (ext_start e)" "ext_end m = ext_end e" if "\<not> ?out"
  proof -
    have "unat (br_blockcount e - (bno - br_startoff e)) = ext_end e - unat bno" if "br_startoff e < bno"
      using d [OF that] that \<open>\<not> ?out\<close> by (subst unat_sub_le) (auto simp: word_le_nat_alt word_less_nat_alt ext_end_def ext_start_def)
    then show "ext_start m = max (unat bno) (ext_start e)" "ext_end m = ext_end e"
      using \<open>\<not> ?out\<close> by (auto simp: m_def ext_start_def ext_end_def word_less_nat_alt)
  qed
  have mm: "ext_map m off = ext_map e off" if "covers off m" "\<not> ?out" for off
  proof (cases "br_startoff e < bno \<and> \<not> isnullstartblock (br_startblock e)")
    case True
    then have nn: "unat (br_startblock e) + unat (br_blockcount e) < 2 ^ 52 - 2 ^ 17" and lt: "br_startoff e < bno" using e(3) by auto
    have le: "unat (br_startblock e) + unat (bno - br_startoff e) < 2 ^ 52 - 2 ^ 17"
      using nn d [OF lt] that(2) unfolding ext_end_def ext_start_def by linarith
    then have "unat (br_startblock e + (bno - br_startoff e)) < 2 ^ 52 - 2 ^ 17" by (subst unat_add_small) simp_all
    then have "\<not> isnullstartblock (br_startblock e + (bno - br_startoff e))" using high_isnull by fastforce
    moreover have "unat (bno - br_startoff e) + (off - unat bno) = off - ext_start e"
      using d [OF lt] that me(1) [OF that(2)] lt by (auto simp: covers_def word_less_nat_alt ext_start_def)
    then have "(bno - br_startoff e) + of_nat (off - unat bno) = of_nat (off - ext_start e)" by (metis of_nat_add unat_of_nat_self)
    ultimately show ?thesis using True by (simp add: m_def ext_map_def ext_start_def add.assoc)
  next
    case False
    then show ?thesis using isnull_delay by (auto simp: m_def ext_map_def ext_start_def)
  qed
  have rm: "r = (if ?out then e\<lparr>br_blockcount := 0\<rparr>
      else if bno + len < br_startoff m + br_blockcount m
      then m\<lparr>br_blockcount := br_blockcount m - (br_startoff m + br_blockcount m - (bno + len))\<rparr> else m)"
    unfolding r xfs_trim_extent_def Let_def out using spec by (auto simp: m_def isnull_delay)
  have um: "unat (br_startoff m + br_blockcount m) = ext_end m" if "\<not> ?out" using me(2) [OF that] bd(3) by (intro ext_end_lt) simp
  have st: "\<not> ?out \<Longrightarrow> ext_start r = ext_start m \<and> br_startblock r = br_startblock m \<and> br_state r = br_state m" by (simp add: rm ext_start_def)
  have er: "ext_end r = min (ext_end m) (unat bno + unat len)" if no: "\<not> ?out"
  proof (cases "bno + len < br_startoff m + br_blockcount m")
    case True
    then have "unat (br_startoff m + br_blockcount m - (bno + len)) = ext_end m - (unat bno + unat len)"
      using um [OF no] ub by (simp add: unat_sub_le word_less_nat_alt word_le_nat_alt)
    moreover have "ext_start m \<le> unat bno + unat len" "unat bno + unat len < ext_end m"
      using True um [OF no] ub me(1) [OF no] no by (simp_all add: word_less_nat_alt)
    moreover have "unat (br_blockcount m) = ext_end m - ext_start m" by (simp add: ext_end_def ext_start_def)
    ultimately have "unat (br_blockcount m - (br_startoff m + br_blockcount m - (bno + len))) = unat bno + unat len - ext_start m"
      by (subst unat_sub_le) (simp_all add: word_le_nat_alt)
    then show ?thesis using no True \<open>ext_start m \<le> unat bno + unat len\<close> \<open>unat bno + unat len < ext_end m\<close>
      by (simp add: rm ext_end_def ext_start_def)
  next
    case False
    then show ?thesis using no um [OF no] ub by (simp add: rm word_less_nat_alt)
  qed
  show "covers off r \<longleftrightarrow> covers off e \<and> unat bno \<le> off \<and> off < unat bno + unat len"
    using er st me by (cases ?out) (auto simp: covers_def rm ext_end_def ext_start_def)
  show "ext_map r off = ext_map e off" if c: "covers off r"
  proof -
    have no: "\<not> ?out"
    proof
      assume o: ?out
      then have "br_blockcount r = 0" by (simp add: rm)
      then show False using c by (auto simp: covers_def ext_end_def ext_start_def)
    qed
    then have "covers off m" using c er [OF no] st [OF no] by (simp add: covers_def)
    then have "ext_map m off = ext_map e off" by (rule mm [OF _ no])
    moreover have "ext_map r off = ext_map m off" unfolding ext_map_def using st [OF no] by (elim conjE) (simp only:)
    ultimately show ?thesis by simp
  qed
qed

section \<open>An example\<close>

definition delay_example :: xfs_bmbt_irec where
  "delay_example = \<lparr>br_startoff = 10, br_startblock = nullstartblock 1, br_blockcount = 100, br_state = XFS_EXT_NORM\<rparr>"

definition real_example :: xfs_bmbt_irec where
  "real_example = \<lparr>br_startoff = 10, br_startblock = 500, br_blockcount = 100, br_state = XFS_EXT_NORM\<rparr>"

definition tree_with :: "xfs_bmbt_irec \<Rightarrow> Iext_Tree.xfs_ifork \<times> xfs_iext_cursor" where
  "tree_with e = the (xfs_iext_insert_raw fork_empty \<lparr>cur_leaf = 0, cur_pos = 0\<rparr> e)"



lemma tree_with_at:
  assumes "br_blockcount e \<noteq> 0" "iext_set_asserts e"
  shows "iext_at (fst (tree_with e)) [e] (snd (tree_with e)) 0"
proof -
  have "iext_at fork_empty [] \<lparr>cur_leaf = 0, cur_pos = 0\<rparr> 0"
    using iel.first_at [OF fork_empty_list] by (auto simp: xfs_iext_first_def xfs_iext_find_first_leaf_def fork_empty_def)
  then show ?thesis using iel.insert_at [of fork_empty "[]" _ 0 e] assms by (fastforce simp: tree_with_def exts_ok_Cons)
qed

lemma example_trees:
  "if_height (fst (tree_with delay_example)) = 1" "if_height (fst (tree_with real_example)) = 1"
  by code_simp+

lemma examples_ok: "br_blockcount delay_example \<noteq> 0" "iext_set_asserts delay_example" "isnullstartblock (br_startblock delay_example)"
  "br_blockcount real_example \<noteq> 0" "iext_set_asserts real_example"
  by code_simp+


section \<open>Properties\<close>

text \<open>
  C40. Removing a range from a copy-on-write extent: the mapping afterwards has a hole in exactly
  that range and is the same everywhere else, whether the range is the whole extent, one end
  of it or its middle. The disk blocks of the extent lie below the numbers that mark delayed
  allocations, and the last extent is not removed from a tree of more than one block.
\<close>

theorem del_extent_cow_exact:
  assumes "iext_at (ds_tree s) xs icur i" and "i < length xs" and "got = xs ! i" and "inside del got" and "ext_end got \<le> 2 ^ 54"
    and "unat (br_startblock got) + unat (br_blockcount got) < 2 ^ 52 - 2 ^ 17"
    and "br_startblock del = br_startblock got + (br_startoff del - br_startoff got)"
    and "1 < length xs \<or> if_height (ds_tree s) = 1"
  shows "\<exists>s' c ys. xfs_bmap_del_extent_cow s icur got del = Some (s', c) \<and> iext_list (ds_tree s') ys \<and>
    (\<forall>off. mapping_at ys off = (if covers off del then Hole else mapping_at xs off)) \<and>
    ds_delayed s' = ds_delayed s - br_blockcount del \<and> ds_fdblocks s' = ds_fdblocks s"
  using assms by (rule del_cow_ok)

theorem del_extent_cow_exact_witness:
  "\<exists>s' c ys. xfs_bmap_del_extent_cow \<lparr>ds_tree = fst (tree_with real_example), ds_delayed = 100, ds_fdblocks = 1000\<rparr>
      (snd (tree_with real_example)) real_example (real_example\<lparr>br_startoff := 30, br_startblock := 520, br_blockcount := 7\<rparr>) = Some (s', c) \<and>
    iext_list (ds_tree s') ys \<and> mapping_at ys 29 = Mapped 519 XFS_EXT_NORM \<and> mapping_at ys 33 = Hole \<and> mapping_at ys 37 = Mapped 527 XFS_EXT_NORM"
proof -
  let ?s = "\<lparr>ds_tree = fst (tree_with real_example), ds_delayed = 100, ds_fdblocks = 1000\<rparr>"
  let ?d = "real_example\<lparr>br_startoff := 30, br_startblock := 520, br_blockcount := 7\<rparr>"
  have at: "iext_at (ds_tree ?s) [real_example] (snd (tree_with real_example)) 0" using tree_with_at [OF examples_ok(4,5)] by simp
  have d: "inside ?d real_example" "ext_end real_example \<le> 2 ^ 54"
    "unat (br_startblock real_example) + unat (br_blockcount real_example) < 2 ^ 52 - 2 ^ 17"
    "br_startblock ?d = br_startblock real_example + (br_startoff ?d - br_startoff real_example)"
    by (simp_all add: inside_def ext_start_def ext_end_def real_example_def)
  have m: "mapping_at [real_example] 29 = Mapped 519 XFS_EXT_NORM" "mapping_at [real_example] 37 = Mapped 527 XFS_EXT_NORM"
    "\<not> covers 29 ?d" "covers 33 ?d" "\<not> covers 37 ?d"
    by code_simp+
  show ?thesis using del_extent_cow_exact [OF at _ _ d] example_trees(2) m by fastforce
qed



end
