(* ===== verification/Workqueue.thy ===== *)
theory Workqueue
  imports Prelude "HOL-Library.Multiset"
begin

text \<open>
  The thread pool of \<^verbatim>\<open>libfrog/workqueue.c\<close>. Every access to the queue is under its mutex, so a step of the
  model is one critical section: from taking the lock to giving it up, at \<^verbatim>\<open>pthread_mutex_unlock\<close> or
  inside \<^verbatim>\<open>pthread_cond_wait\<close>. A thread that is asleep on a condition variable becomes ready when the
  variable is signalled and takes the lock in a later step. Work items are opaque; their functions
  run outside the lock. A failed assertion is \<open>None\<close>. Signalling, broadcasting on and joining objects that are
  initialised do not fail (POSIX), so the early returns on their errors do not appear; the counters,
  bounded by the number of items and threads in memory, are natural numbers.
\<close>

section \<open>State\<close>

text \<open>\<open>next_item\<close> is the list from \<^verbatim>\<open>next_item\<close> to \<^verbatim>\<open>last_item\<close>.\<close>

record 'i workqueue =
  next_item :: "'i list"
  item_count :: nat
  thread_count :: nat
  active_threads :: nat
  terminate :: bool
  terminated :: bool
  max_queued :: nat

text \<open>
  Where the threads are. A worker is ready to take the lock (when it starts or has been woken), asleep
  on \<^verbatim>\<open>wakeup\<close>, running an item, or has returned. A client of the queue has items left to add and is
  outside \<^verbatim>\<open>workqueue_add\<close>, asleep on \<^verbatim>\<open>queue_full\<close> inside it, or woken there. The thread that tears the
  pool down is not yet there, has set \<^verbatim>\<open>terminate\<close>, is joining the \<open>k\<close>-th worker, or is done.
\<close>

datatype 'i worker = Ready | Waiting | Running 'i | Exited
datatype 'i client = Idle "'i list" | Full 'i "'i list" | Retry 'i "'i list"
datatype control = Working | Terminating | Joining nat | Joined

text \<open>\<open>queued\<close>, \<open>started\<close>, \<open>executed\<close> and \<open>failed\<close> record the items in the order of these events.\<close>

record 'i pool =
  wq :: "'i workqueue"
  threads :: "'i worker list"
  clients :: "'i client list"
  ctl :: control
  queued :: "'i list"
  started :: "'i list"
  executed :: "'i list"
  failed :: "'i list"

section \<open>Condition variables\<close>

fun wake :: "'i worker \<Rightarrow> 'i worker" where
  "wake Waiting = Ready"
| "wake w = w"

fun wake_client :: "'i client \<Rightarrow> 'i client" where
  "wake_client (Full i todo) = Retry i todo"
| "wake_client c = c"

definition broadcast_wakeup :: "'i pool \<Rightarrow> 'i pool" where
  "broadcast_wakeup s = s\<lparr>threads := map wake (threads s)\<rparr>"

definition broadcast_queue_full :: "'i pool \<Rightarrow> 'i pool" where
  "broadcast_queue_full s = s\<lparr>clients := map wake_client (clients s)\<rparr>"

text \<open>Which of the sleeping threads a signal wakes is not determined: it is \<open>pick\<close>.\<close>

definition signal_wakeup :: "nat \<Rightarrow> 'i pool \<Rightarrow> 'i pool" where
  "signal_wakeup pick s = s\<lparr>threads := (threads s)[pick := wake (threads s ! pick)]\<rparr>"

section \<open>Operations\<close>

text \<open>\<^verbatim>\<open>workqueue_thread\<close> from the top of its loop, for worker \<open>t\<close> that holds the lock.\<close>

definition workqueue_thread :: "nat \<Rightarrow> 'i pool \<Rightarrow> 'i pool option" where
  "workqueue_thread t s =
     (case next_item (wq s) of
        [] \<Rightarrow>
          if \<not> terminate (wq s) then
            if item_count (wq s) \<noteq> 0 then None else Some (s\<lparr>threads := (threads s)[t := Waiting]\<rparr>)
          else Some (s\<lparr>threads := (threads s)[t := Exited]\<rparr>)
      | wi # rest \<Rightarrow>
          if item_count (wq s) = 0 then None
          else
            let s = (if max_queued (wq s) \<noteq> 0 then broadcast_queue_full s else s)
            in Some (s\<lparr>wq := (wq s)\<lparr>next_item := rest, item_count := item_count (wq s) - 1,
                          active_threads := active_threads (wq s) + 1\<rparr>,
                       threads := (threads s)[t := Running wi],
                       started := started s @ [wi]\<rparr>))"

text \<open>The function of the item returns, the worker takes the lock again and goes round its loop.\<close>

definition workqueue_thread_return :: "nat \<Rightarrow> 'i \<Rightarrow> 'i pool \<Rightarrow> 'i pool option" where
  "workqueue_thread_return t i s =
     workqueue_thread t
       (s\<lparr>executed := executed s @ [i], wq := (wq s)\<lparr>active_threads := active_threads (wq s) - 1\<rparr>\<rparr>)"

text \<open>\<^verbatim>\<open>workqueue_add\<close> from the label \<^verbatim>\<open>restart\<close> on, for client \<open>c\<close> that holds the lock.\<close>

definition workqueue_add_restart :: "nat \<Rightarrow> nat \<Rightarrow> 'i \<Rightarrow> 'i list \<Rightarrow> 'i pool \<Rightarrow> 'i pool option" where
  "workqueue_add_restart pick c wi todo s =
     (if next_item (wq s) = [] \<and> item_count (wq s) \<noteq> 0 then None
      else if next_item (wq s) \<noteq> [] \<and> max_queued (wq s) \<noteq> 0 \<and> item_count (wq s) = max_queued (wq s) then
        Some (s\<lparr>clients := (clients s)[c := Full wi todo]\<rparr>)
      else
        let s = s\<lparr>wq := (wq s)\<lparr>next_item := next_item (wq s) @ [wi], item_count := item_count (wq s) + 1\<rparr>,
                  clients := (clients s)[c := Idle todo],
                  queued := queued s @ [wi]\<rparr>
        in Some (if active_threads (wq s) = thread_count (wq s) - 1 then signal_wakeup pick s
                 else if active_threads (wq s) < thread_count (wq s) then broadcast_wakeup s
                 else s))"

definition workqueue_add :: "nat \<Rightarrow> bool \<Rightarrow> nat \<Rightarrow> 'i \<Rightarrow> 'i list \<Rightarrow> 'i pool \<Rightarrow> 'i pool option" where
  "workqueue_add pick malloc_ok c wi todo s =
     (if terminated (wq s) then None
      else if thread_count (wq s) = 0 then
        Some (s\<lparr>executed := executed s @ [wi], clients := (clients s)[c := Idle todo]\<rparr>)
      else if \<not> malloc_ok then Some (s\<lparr>failed := failed s @ [wi], clients := (clients s)[c := Idle todo]\<rparr>)
      else workqueue_add_restart pick c wi todo s)"

text \<open>The critical sections and calls of \<^verbatim>\<open>workqueue_terminate\<close>, in order.\<close>

definition terminate_set :: "'i pool \<Rightarrow> 'i pool" where
  "terminate_set s = s\<lparr>wq := (wq s)\<lparr>terminate := True\<rparr>, ctl := Terminating\<rparr>"

definition terminate_broadcast :: "'i pool \<Rightarrow> 'i pool" where
  "terminate_broadcast s = (broadcast_wakeup s)\<lparr>ctl := Joining 0\<rparr>"

definition terminate_join :: "nat \<Rightarrow> 'i pool \<Rightarrow> 'i pool" where
  "terminate_join k s = s\<lparr>ctl := Joining (Suc k)\<rparr>"

definition terminate_done :: "'i pool \<Rightarrow> 'i pool" where
  "terminate_done s = s\<lparr>wq := (wq s)\<lparr>terminated := True\<rparr>, ctl := Joined\<rparr>"

text \<open>\<^verbatim>\<open>workqueue_destroy\<close> asserts that the pool has been terminated.\<close>

definition workqueue_destroy :: "'i workqueue \<Rightarrow> unit option" where
  "workqueue_destroy q = (if terminated q then Some () else None)"

text \<open>
  \<^verbatim>\<open>workqueue_create_bound\<close>. The arguments are the results of the calls that may fail: the three
  initialisations, \<^verbatim>\<open>malloc\<close>, and one \<^verbatim>\<open>pthread_create\<close> per worker. The result is \<open>None\<close> when an assertion fails.
\<close>

definition workqueue_zero :: "'i workqueue" where
  "workqueue_zero = \<lparr>next_item = [], item_count = 0, thread_count = 0, active_threads = 0, terminate = False,
     terminated = False, max_queued = 0\<rparr>"

fun create_threads :: "errno option list \<Rightarrow> errno option" where
  "create_threads [] = None"
| "create_threads (None # rs) = create_threads rs"
| "create_threads (Some e # rs) = Some e"

definition workqueue_create_bound ::
    "errno option \<Rightarrow> errno option \<Rightarrow> errno option \<Rightarrow> bool \<Rightarrow> errno option list \<Rightarrow> nat \<Rightarrow> ('i workqueue result) option" where
  "workqueue_create_bound wakeup_ret full_ret mutex_ret malloc_ok create_rets max_queue =
     (case wakeup_ret of Some e \<Rightarrow> Some (Inl e) | None \<Rightarrow>
      case full_ret of Some e \<Rightarrow> Some (Inl e) | None \<Rightarrow>
      case mutex_ret of Some e \<Rightarrow> Some (Inl e) | None \<Rightarrow>
      if \<not> malloc_ok then Some (Inl ENOMEM)
      else
        let q = workqueue_zero\<lparr>thread_count := length create_rets, max_queued := max_queue\<rparr>
        in case create_threads create_rets of
             Some e \<Rightarrow> (case workqueue_destroy q of None \<Rightarrow> None | Some _ \<Rightarrow> Some (Inl e))
           | None \<Rightarrow> Some (Inr q))"

definition workqueue_create ::
    "errno option \<Rightarrow> errno option \<Rightarrow> errno option \<Rightarrow> bool \<Rightarrow> errno option list \<Rightarrow> ('i workqueue result) option" where
  "workqueue_create wakeup_ret full_ret mutex_ret malloc_ok create_rets =
     workqueue_create_bound wakeup_ret full_ret mutex_ret malloc_ok create_rets 0"

section \<open>Interleavings\<close>

text \<open>
  A new pool whose workers have been started, with the items that each client will add. The
  thread that tears the pool down does so when no client has items left, as the assertion in
  \<^verbatim>\<open>workqueue_add\<close> demands of the callers.
\<close>

definition pool_init :: "'i workqueue \<Rightarrow> 'i list list \<Rightarrow> 'i pool" where
  "pool_init q todos = \<lparr>wq = q, threads = replicate (thread_count q) Ready, clients = map Idle todos, ctl = Working,
     queued = [], started = [], executed = [], failed = []\<rparr>"

definition valid_pick :: "'i pool \<Rightarrow> nat \<Rightarrow> bool" where
  "valid_pick s pick \<longleftrightarrow> pick < length (threads s) \<and> (Waiting \<in> set (threads s) \<longrightarrow> threads s ! pick = Waiting)"

inductive wq_step :: "'i pool \<Rightarrow> 'i pool \<Rightarrow> bool" where
  thread_enter: "t < length (threads s) \<Longrightarrow> threads s ! t = Ready \<Longrightarrow> workqueue_thread t s = Some s' \<Longrightarrow> wq_step s s'"
| thread_return: "t < length (threads s) \<Longrightarrow> threads s ! t = Running i \<Longrightarrow>
    workqueue_thread_return t i s = Some s' \<Longrightarrow> wq_step s s'"
| client_add: "c < length (clients s) \<Longrightarrow> clients s ! c = Idle (i # todo) \<Longrightarrow>
    threads s = [] \<or> valid_pick s pick \<Longrightarrow> workqueue_add pick malloc_ok c i todo s = Some s' \<Longrightarrow> wq_step s s'"
| client_retry: "c < length (clients s) \<Longrightarrow> clients s ! c = Retry i todo \<Longrightarrow>
    threads s = [] \<or> valid_pick s pick \<Longrightarrow> workqueue_add_restart pick c i todo s = Some s' \<Longrightarrow> wq_step s s'"
| ctl_terminate: "ctl s = Working \<Longrightarrow> list_all (\<lambda>c. c = Idle []) (clients s) \<Longrightarrow> wq_step s (terminate_set s)"
| ctl_broadcast: "ctl s = Terminating \<Longrightarrow> wq_step s (terminate_broadcast s)"
| ctl_join: "ctl s = Joining k \<Longrightarrow> k < thread_count (wq s) \<Longrightarrow> threads s ! k = Exited \<Longrightarrow> wq_step s (terminate_join k s)"
| ctl_done: "ctl s = Joining k \<Longrightarrow> k = thread_count (wq s) \<Longrightarrow> wq_step s (terminate_done s)"

text \<open>\<^verbatim>\<open>pthread_cond_wait\<close> may also return without having been woken.\<close>

inductive spurious_wakeup :: "'i pool \<Rightarrow> 'i pool \<Rightarrow> bool" where
  worker: "t < length (threads s) \<Longrightarrow> threads s ! t = Waiting \<Longrightarrow> spurious_wakeup s (s\<lparr>threads := (threads s)[t := Ready]\<rparr>)"
| client: "c < length (clients s) \<Longrightarrow> clients s ! c = Full i todo \<Longrightarrow>
    spurious_wakeup s (s\<lparr>clients := (clients s)[c := Retry i todo]\<rparr>)"

inductive reachable :: "'i pool \<Rightarrow> 'i pool \<Rightarrow> bool" for s0 where
  start: "reachable s0 s0"
| step: "reachable s0 s \<Longrightarrow> wq_step s s' \<Longrightarrow> reachable s0 s'"
| spurious: "reachable s0 s \<Longrightarrow> spurious_wakeup s s' \<Longrightarrow> reachable s0 s'"

end
