(* ===== verification/Workqueue_Live.thy ===== *)
theory Workqueue_Live
  imports Workqueue
begin

text \<open>
  The thread pool runs every item exactly once and in order, no worker sleeps while there is
  work, no client sleeps unless the queue is full, and every run ends with all items run
  and all workers joined.
\<close>

section \<open>Systems that come to an end\<close>

text \<open>
  A step relation with an invariant and an amount of work that every step reduces. If a state
  that is not final always has a step, every run is bounded and can only stop in a final state.
\<close>

locale ending_system =
  fixes step :: "'s \<Rightarrow> 's \<Rightarrow> bool"
    and inv :: "'s \<Rightarrow> bool"
    and final :: "'s \<Rightarrow> bool"
    and work :: "'s \<Rightarrow> nat"
  assumes inv_step: "inv s \<Longrightarrow> step s t \<Longrightarrow> inv t"
    and work_step: "inv s \<Longrightarrow> step s t \<Longrightarrow> work t < work s"
    and progress: "inv s \<Longrightarrow> \<not> final s \<Longrightarrow> \<exists>t. step s t"
begin

lemma run_bound:
  assumes "(step ^^ n) s t" and "inv s"
  shows "inv t \<and> work t + n \<le> work s"
  using assms(1)
proof (induction n arbitrary: t)
  case (Suc n)
  then obtain u where u: "(step ^^ n) s u" "step u t" by auto
  with Suc.IH have "inv u" "work u + n \<le> work s" by blast+
  with u(2) inv_step work_step show ?case by fastforce
qed (use assms(2) in simp)

lemma stuck_final: "inv s \<Longrightarrow> \<nexists>t. step s t \<Longrightarrow> final s"
  using progress by blast

lemma no_infinite_run:
  assumes "inv (f 0)"
  shows "\<exists>n. \<not> step (f n) (f (Suc n))"
proof (rule ccontr)
  assume "\<nexists>n. \<not> step (f n) (f (Suc n))"
  then have "(step ^^ n) (f 0) (f n)" for n by (induction n) auto
  from run_bound [OF this [of "Suc (work (f 0))"] assms] show False by simp
qed

lemma reaches_final: "inv s \<Longrightarrow> \<exists>t. step\<^sup>*\<^sup>* s t \<and> final t"
proof (induction "work s" arbitrary: s rule: less_induct)
  case less
  show ?case
  proof (cases "final s")
    case False
    with progress less.prems obtain u where "step s u" by blast
    with less inv_step work_step obtain t where "step\<^sup>*\<^sup>* u t" "final t" by blast
    with \<open>step s u\<close> show ?thesis by (meson converse_rtranclp_into_rtranclp)
  qed auto
qed

end

section \<open>Sums over threads\<close>

lemma sum_list_update_gen:
  fixes f :: "'a \<Rightarrow> 'b::comm_monoid_add"
  assumes "i < length xs"
  shows "sum_list (map f (xs[i := y])) + f (xs ! i) = sum_list (map f xs) + f y"
  using assms
proof (induction xs arbitrary: i)
  case (Cons x xs)
  then show ?case by (cases i) (simp_all add: ac_simps)
qed simp

lemma in_set_update: "x \<in> set (xs[i := y]) \<Longrightarrow> x = y \<or> x \<in> set xs"
  using set_update_subset_insert by fastforce

definition n_running :: "'i worker list \<Rightarrow> nat" where
  "n_running ws = sum_list (map (\<lambda>w. case w of Running _ \<Rightarrow> 1 | _ \<Rightarrow> 0) ws)"

definition running_items :: "'i worker list \<Rightarrow> 'i multiset" where
  "running_items ws = sum_list (map (\<lambda>w. case w of Running i \<Rightarrow> {#i#} | _ \<Rightarrow> {#}) ws)"

fun todo_of :: "'i client \<Rightarrow> 'i list" where
  "todo_of (Idle todo) = todo"
| "todo_of (Full i todo) = i # todo"
| "todo_of (Retry i todo) = i # todo"

definition client_items :: "'i client list \<Rightarrow> 'i multiset" where
  "client_items cs = sum_list (map (\<lambda>c. mset (todo_of c)) cs)"

lemma todo_of_wake [simp]: "todo_of (wake_client c) = todo_of c"
  by (cases c) simp_all

lemma client_items_wake [simp]: "client_items (map wake_client cs) = client_items cs"
  by (simp add: client_items_def comp_def)

lemma running_wake [simp]: "n_running (map wake ws) = n_running ws" "running_items (map wake ws) = running_items ws"
proof -
  have "(case wake w of Running _ \<Rightarrow> 1 | _ \<Rightarrow> 0) = (case w of Running _ \<Rightarrow> 1 | _ \<Rightarrow> (0 :: nat))"
    "(case wake w of Running i \<Rightarrow> {#i#} | _ \<Rightarrow> {#}) = (case w of Running i \<Rightarrow> {#i#} | _ \<Rightarrow> {#})" for w :: "'a worker"
    by (cases w; simp)+
  then show "n_running (map wake ws) = n_running ws" "running_items (map wake ws) = running_items ws"
    by (simp_all add: n_running_def running_items_def comp_def)
qed

lemma running_update:
  assumes "t < length ws"
  shows "n_running (ws[t := w]) + n_running [ws ! t] = n_running ws + n_running [w]"
    and "running_items (ws[t := w]) + running_items [ws ! t] = running_items ws + running_items [w]"
  using sum_list_update_gen [OF assms] by (simp_all add: n_running_def running_items_def)

lemma running_single [simp]:
  "n_running [Running i] = 1" "n_running [Ready] = 0" "n_running [Waiting] = 0" "n_running [Exited] = 0"
  "running_items [Running i] = {#i#}" "running_items [Ready] = {#}" "running_items [Waiting] = {#}" "running_items [Exited] = {#}"
  by (simp_all add: n_running_def running_items_def)

lemma client_update:
  assumes "c < length cs"
  shows "client_items (cs[c := d]) + mset (todo_of (cs ! c)) = client_items cs + mset (todo_of d)"
  using sum_list_update_gen [OF assms] by (simp add: client_items_def)

section \<open>Invariants\<close>

fun is_full :: "'i client \<Rightarrow> bool" where
  "is_full (Full i todo) = True"
| "is_full c = False"

fun is_idle :: "'i client \<Rightarrow> bool" where
  "is_idle (Idle todo) = True"
| "is_idle c = False"

definition counts_ok :: "'i pool \<Rightarrow> bool" where
  "counts_ok s \<longleftrightarrow> item_count (wq s) = length (next_item (wq s)) \<and>
     (max_queued (wq s) \<noteq> 0 \<longrightarrow> length (next_item (wq s)) \<le> max_queued (wq s)) \<and>
     active_threads (wq s) = n_running (threads s) \<and> length (threads s) = thread_count (wq s)"

definition sleep_ok :: "'i pool \<Rightarrow> bool" where
  "sleep_ok s \<longleftrightarrow>
     (next_item (wq s) \<noteq> [] \<longrightarrow> threads s \<noteq> [] \<and> Waiting \<notin> set (threads s) \<and> Exited \<notin> set (threads s)) \<and>
     (\<forall>c \<in> set (clients s). is_full c \<longrightarrow> max_queued (wq s) \<noteq> 0 \<and> length (next_item (wq s)) = max_queued (wq s)) \<and>
     (\<forall>c \<in> set (clients s). threads s = [] \<longrightarrow> is_idle c)"

definition ctl_ok :: "'i pool \<Rightarrow> bool" where
  "ctl_ok s \<longleftrightarrow> (terminate (wq s) \<longleftrightarrow> ctl s \<noteq> Working) \<and> (terminated (wq s) \<longleftrightarrow> ctl s = Joined) \<and>
     (ctl s \<noteq> Working \<longrightarrow> (\<forall>c \<in> set (clients s). c = Idle [])) \<and>
     (Exited \<in> set (threads s) \<longrightarrow> ctl s \<noteq> Working) \<and>
     (case ctl s of
        Joining k \<Rightarrow> k \<le> length (threads s) \<and> Waiting \<notin> set (threads s) \<and> (\<forall>j < k. threads s ! j = Exited)
      | Joined \<Rightarrow> (\<forall>w \<in> set (threads s). w = Exited)
      | _ \<Rightarrow> True)"

definition items_ok :: "'i multiset \<Rightarrow> 'i pool \<Rightarrow> bool" where
  "items_ok N s \<longleftrightarrow>
     mset (executed s) + running_items (threads s) + mset (next_item (wq s)) + client_items (clients s) + mset (failed s) = N \<and>
     queued s = started s @ next_item (wq s) \<and>
     (threads s \<noteq> [] \<longrightarrow> mset (started s) = mset (executed s) + running_items (threads s))"

definition pool_inv :: "'i multiset \<Rightarrow> 'i pool \<Rightarrow> bool" where
  "pool_inv N s \<longleftrightarrow> counts_ok s \<and> sleep_ok s \<and> ctl_ok s \<and> items_ok N s"

lemmas inv_defs = counts_ok_def sleep_ok_def ctl_ok_def items_ok_def

section \<open>Workers\<close>

lemma no_full_after_wake: "c \<in> set (map wake_client cs) \<Longrightarrow> \<not> is_full c"
proof -
  have "\<not> is_full (wake_client d)" for d :: "'a client" by (cases d) simp_all
  then show "c \<in> set (map wake_client cs) \<Longrightarrow> \<not> is_full c" by auto
qed

text \<open>The worker goes to sleep, or returns, because there is nothing to do.\<close>

lemma thread_idle:
  assumes inv: "pool_inv N s" and t: "t < length (threads s)" "threads s ! t = Ready" and e: "next_item (wq s) = []"
  shows "\<exists>s'. workqueue_thread t s = Some s' \<and> pool_inv N s'"
proof -
  let ?w = "if terminate (wq s) then Exited else Waiting"
  let ?s = "s\<lparr>threads := (threads s)[t := ?w]\<rparr>"
  have "item_count (wq s) = 0" using inv e by (simp add: pool_inv_def counts_ok_def)
  then have r: "workqueue_thread t s = Some ?s" using e by (simp add: workqueue_thread_def)
  have n: "n_running ((threads s)[t := ?w]) = n_running (threads s)"
    "running_items ((threads s)[t := ?w]) = running_items (threads s)"
    using running_update [OF t(1), of ?w] t(2) by auto
  have "counts_ok ?s" "items_ok N ?s" using inv n by (simp_all add: pool_inv_def counts_ok_def items_ok_def)
  moreover have "sleep_ok ?s" using inv e by (auto simp: pool_inv_def sleep_ok_def)
  moreover have "ctl_ok ?s"
  proof -
    have c: "ctl_ok s" using inv by (simp add: pool_inv_def)
    have "threads s ! t \<in> set (threads s)" using t(1) by simp
    then have "ctl s \<noteq> Joined" using c t(2) by (auto simp: ctl_ok_def)
    moreover have "(threads s)[t := ?w] ! j = Exited" if "threads s ! j = Exited" for j
      using that t by (cases "j = t") auto
    moreover have "Waiting \<in> set ((threads s)[t := ?w]) \<Longrightarrow> terminate (wq s) \<Longrightarrow> Waiting \<in> set (threads s)"
      "Exited \<in> set ((threads s)[t := ?w]) \<Longrightarrow> terminate (wq s) \<or> Exited \<in> set (threads s)"
      using in_set_update [of Waiting "threads s" t ?w] in_set_update [of Exited "threads s" t ?w] by (auto split: if_splits)
    ultimately show ?thesis using c by (cases "ctl s") (auto simp: ctl_ok_def)
  qed
  ultimately show ?thesis using r by (simp add: pool_inv_def)
qed

text \<open>The worker takes an item from the head of the queue.\<close>

lemma thread_dequeue:
  assumes inv: "pool_inv N s" and t: "t < length (threads s)" "threads s ! t = Ready" and q: "next_item (wq s) = wi # rest"
  shows "\<exists>s'. workqueue_thread t s = Some s' \<and> pool_inv N s'"
proof -
  define cs where "cs = (if max_queued (wq s) \<noteq> 0 then map wake_client (clients s) else clients s)"
  let ?s = "s\<lparr>wq := (wq s)\<lparr>next_item := rest, item_count := length rest, active_threads := active_threads (wq s) + 1\<rparr>,
      threads := (threads s)[t := Running wi], clients := cs, started := started s @ [wi]\<rparr>"
  have cnt: "item_count (wq s) = Suc (length rest)" using inv q by (simp add: pool_inv_def counts_ok_def)
  then have r: "workqueue_thread t s = Some ?s"
    using q by (simp add: workqueue_thread_def broadcast_queue_full_def cs_def)
  have n: "n_running ((threads s)[t := Running wi]) = Suc (n_running (threads s))"
    "running_items ((threads s)[t := Running wi]) = add_mset wi (running_items (threads s))"
    using running_update [OF t(1), of "Running wi"] t(2) by simp_all
  have nf: "\<not> is_full c" if "c \<in> set cs" for c
    using that inv no_full_after_wake by (auto simp: cs_def pool_inv_def sleep_ok_def split: if_splits)
  have "counts_ok ?s" using inv n q by (auto simp: pool_inv_def counts_ok_def)
  moreover have "items_ok N ?s"
  proof -
    have "client_items cs = client_items (clients s)" by (simp add: cs_def)
    then show ?thesis using inv n q t(1) by (auto simp: pool_inv_def items_ok_def)
  qed
  moreover have "sleep_ok ?s"
  proof -
    have "Waiting \<notin> set ((threads s)[t := Running wi])" "Exited \<notin> set ((threads s)[t := Running wi])"
      using inv q in_set_update [of _ "threads s" t "Running wi"] by (auto simp: pool_inv_def sleep_ok_def)
    then show ?thesis using nf t(1) by (auto simp: sleep_ok_def)
  qed
  moreover have "ctl_ok ?s"
  proof -
    have c: "ctl_ok s" using inv by (simp add: pool_inv_def)
    have "threads s ! t \<in> set (threads s)" using t(1) by simp
    then have "ctl s \<noteq> Joined" using c t(2) by (auto simp: ctl_ok_def)
    moreover have "(threads s)[t := Running wi] ! j = Exited" if "threads s ! j = Exited" for j
      using that t by (cases "j = t") auto
    moreover have "w \<in> set ((threads s)[t := Running wi]) \<Longrightarrow> w = Running wi \<or> w \<in> set (threads s)" for w
      by (rule in_set_update)
    moreover have "ctl s \<noteq> Working \<Longrightarrow> c \<in> set cs \<Longrightarrow> c = Idle []" for c
      using c by (auto simp: ctl_ok_def cs_def split: if_splits)
    ultimately show ?thesis using c by (cases "ctl s") (fastforce simp: ctl_ok_def)+
  qed
  ultimately show ?thesis using r by (simp add: pool_inv_def)
qed

lemma thread_enter_inv:
  assumes "pool_inv N s" "t < length (threads s)" "threads s ! t = Ready"
  shows "\<exists>s'. workqueue_thread t s = Some s' \<and> pool_inv N s'"
  using thread_idle [OF assms] thread_dequeue [OF assms] by (cases "next_item (wq s)") auto

text \<open>A worker whose item has run is in the place of one that enters its loop.\<close>

definition item_done :: "nat \<Rightarrow> 'i \<Rightarrow> 'i pool \<Rightarrow> 'i pool" where
  "item_done t i s = s\<lparr>executed := executed s @ [i], wq := (wq s)\<lparr>active_threads := active_threads (wq s) - 1\<rparr>,
     threads := (threads s)[t := Ready]\<rparr>"

lemma thread_return_enter: "workqueue_thread_return t i s = workqueue_thread t (item_done t i s)"
  by (cases "next_item (wq s)")
    (simp_all add: workqueue_thread_return_def item_done_def workqueue_thread_def broadcast_queue_full_def Let_def)

lemma item_done_inv:
  assumes inv: "pool_inv N s" and t: "t < length (threads s)" "threads s ! t = Running i"
  shows "pool_inv N (item_done t i s)" and "t < length (threads (item_done t i s))" and "threads (item_done t i s) ! t = Ready"
proof -
  have n: "Suc (n_running ((threads s)[t := Ready])) = n_running (threads s)"
    "add_mset i (running_items ((threads s)[t := Ready])) = running_items (threads s)"
    using running_update [OF t(1), of Ready] t(2) by simp_all
  have m: "threads s ! t \<in> set (threads s)" using t(1) by simp
  have w: "w \<in> set ((threads s)[t := Ready]) \<Longrightarrow> w = Ready \<or> w \<in> set (threads s)" for w by (rule in_set_update)
  have c: "ctl_ok s" using inv by (simp add: pool_inv_def)
  have "ctl s \<noteq> Joined" using c t(2) m by (auto simp: ctl_ok_def)
  moreover have "(threads s)[t := Ready] ! j = Exited" if "threads s ! j = Exited" for j using that t by (cases "j = t") auto
  ultimately have "ctl_ok (item_done t i s)"
    using c w by (cases "ctl s") (fastforce simp: ctl_ok_def item_done_def)+
  moreover have "counts_ok (item_done t i s)" using inv n(1) by (auto simp: pool_inv_def counts_ok_def item_done_def)
  moreover have "sleep_ok (item_done t i s)" using inv w by (auto simp: pool_inv_def sleep_ok_def item_done_def)
  moreover have "items_ok N (item_done t i s)"
    using inv m by (auto simp: pool_inv_def items_ok_def item_done_def n(2) [symmetric] simp del: n(2))
  ultimately show "pool_inv N (item_done t i s)" by (simp add: pool_inv_def)
qed (use t in \<open>simp_all add: item_done_def\<close>)

section \<open>Clients\<close>

text \<open>After an item has been queued no worker is left asleep.\<close>

definition enqueue :: "nat \<Rightarrow> nat \<Rightarrow> 'i \<Rightarrow> 'i list \<Rightarrow> 'i pool \<Rightarrow> 'i pool" where
  "enqueue pick c wi todo s =
     (let s = s\<lparr>wq := (wq s)\<lparr>next_item := next_item (wq s) @ [wi], item_count := item_count (wq s) + 1\<rparr>,
               clients := (clients s)[c := Idle todo], queued := queued s @ [wi]\<rparr>
      in if active_threads (wq s) = thread_count (wq s) - 1 then signal_wakeup pick s
         else if active_threads (wq s) < thread_count (wq s) then broadcast_wakeup s else s)"

lemma n_running_le: "n_running ws \<le> length ws"
  by (induction ws) (auto simp: n_running_def split: worker.splits)

lemma n_running_all: "n_running ws = length ws \<Longrightarrow> w \<in> set ws \<Longrightarrow> \<exists>i. w = Running i"
proof (induction ws)
  case (Cons v ws)
  have "n_running (v # ws) = n_running [v] + n_running ws" by (simp add: n_running_def)
  moreover have "n_running [v] \<le> 1" "n_running [v] = 1 \<Longrightarrow> \<exists>i. v = Running i" by (cases v; simp)+
  ultimately have "n_running [v] = 1 \<and> n_running ws = length ws" using Cons.prems(1) n_running_le [of ws] by auto
  with Cons \<open>n_running [v] = 1 \<Longrightarrow> _\<close> show ?case by auto
qed simp

lemma no_waiting_after_wake: "Waiting \<notin> set (map wake ws)"
proof -
  have "wake w \<noteq> Waiting" for w :: "'a worker" by (cases w) simp_all
  then show ?thesis by (metis (no_types) imageE list.set_map)
qed

lemma wake_members: "w \<in> set (map wake ws) \<Longrightarrow> w = Ready \<or> w \<in> set ws"
proof -
  have "wake v = Ready \<or> wake v = v" for v :: "'a worker" by (cases v) simp_all
  then show "w \<in> set (map wake ws) \<Longrightarrow> w = Ready \<or> w \<in> set ws" by auto metis
qed

text \<open>If all workers but one are running, waking that one leaves none asleep.\<close>

lemma signal_last:
  assumes "n_running ws = length ws - 1" and "pick < length ws" and "Waiting \<in> set ws \<Longrightarrow> ws ! pick = Waiting"
  shows "Waiting \<notin> set (ws[pick := wake (ws ! pick)])"
proof
  assume w: "Waiting \<in> set (ws[pick := wake (ws ! pick)])"
  have "wake (ws ! pick) \<noteq> Waiting" by (cases "ws ! pick") simp_all
  with in_set_update [OF w] have "Waiting \<in> set ws" by auto
  with assms(3) have "ws ! pick = Waiting" by blast
  then have "Suc (n_running (ws[pick := Running undefined])) = Suc (Suc (n_running ws))"
    using running_update(1) [OF assms(2), of "Running undefined"] by simp
  then have "n_running (ws[pick := Ready]) = length ws - 1"
    using running_update(1) [OF assms(2), of Ready] \<open>ws ! pick = Waiting\<close> assms(1) by simp
  moreover have "n_running (ws[pick := Running undefined]) = length (ws[pick := Running undefined])"
    using \<open>Suc (n_running (ws[pick := Running undefined])) = _\<close> assms(1,2) by simp
  ultimately have all: "\<exists>i. v = Running i" if "v \<in> set (ws[pick := Running undefined])" for v
    using n_running_all that by blast
  from w obtain j where j: "j < length ws" "ws[pick := wake (ws ! pick)] ! j = Waiting"
    by (metis in_set_conv_nth length_list_update)
  then have "j \<noteq> pick" using assms(2) \<open>wake (ws ! pick) \<noteq> Waiting\<close> by auto
  then have "ws[pick := Running undefined] ! j = Waiting" using j by simp
  with j(1) all show False by (metis length_list_update nth_mem worker.distinct(7))
qed

lemma enqueue_threads:
  assumes "counts_ok s" "threads s \<noteq> []" "valid_pick s pick"
  shows "Waiting \<notin> set (threads (enqueue pick c wi todo s))"
    and "w \<in> set (threads (enqueue pick c wi todo s)) \<Longrightarrow> w = Ready \<or> w \<in> set (threads s)"
    and "n_running (threads (enqueue pick c wi todo s)) = n_running (threads s)"
    and "running_items (threads (enqueue pick c wi todo s)) = running_items (threads s)"
    and "length (threads (enqueue pick c wi todo s)) = length (threads s)"
proof -
  have c: "active_threads (wq s) = n_running (threads s)" "length (threads s) = thread_count (wq s)"
    using assms(1) by (simp_all add: counts_ok_def)
  have p: "pick < length (threads s)" "Waiting \<in> set (threads s) \<Longrightarrow> threads s ! pick = Waiting"
    using assms(3) by (auto simp: valid_pick_def)
  consider (sig) "n_running (threads s) = length (threads s) - 1"
      "threads (enqueue pick c wi todo s) = (threads s)[pick := wake (threads s ! pick)]"
    | (bro) "threads (enqueue pick c wi todo s) = map wake (threads s)"
    | (busy) "threads (enqueue pick c wi todo s) = threads s" "n_running (threads s) = length (threads s)"
  proof -
    have "threads (enqueue pick c wi todo s) =
        (if n_running (threads s) = length (threads s) - 1 then (threads s)[pick := wake (threads s ! pick)]
         else if n_running (threads s) < length (threads s) then map wake (threads s) else threads s)"
      using c by (simp add: enqueue_def Let_def signal_wakeup_def broadcast_wakeup_def)
    then show thesis using that n_running_le [of "threads s"] by (metis le_neq_implies_less)
  qed
  note cases = this
  show "Waiting \<notin> set (threads (enqueue pick c wi todo s))"
    using cases
  proof cases
    case busy
    then show ?thesis using n_running_all by fastforce
  qed (simp_all only: signal_last [OF _ p] no_waiting_after_wake not_False_eq_True)
  show "w = Ready \<or> w \<in> set (threads s)" if "w \<in> set (threads (enqueue pick c wi todo s))"
    using cases
  proof cases
    case sig
    then have "w = wake (threads s ! pick) \<or> w \<in> set (threads s)" using that in_set_update by metis
    moreover have "wake (threads s ! pick) = Ready \<or> wake (threads s ! pick) = threads s ! pick"
      by (cases "threads s ! pick") simp_all
    ultimately show ?thesis using p(1) by auto
  qed (use that wake_members in auto)
  have w: "n_running [wake v] = n_running [v]" "running_items [wake v] = running_items [v]" for v :: "'a worker"
    by (cases v; simp)+
  note u = running_update [OF p(1), of "wake (threads s ! pick)"]
  from cases show "n_running (threads (enqueue pick c wi todo s)) = n_running (threads s)"
    by cases (use u(1) w(1) in simp_all)
  from cases show "running_items (threads (enqueue pick c wi todo s)) = running_items (threads s)"
    by cases (use u(2) w(2) in simp_all)
  from cases show "length (threads (enqueue pick c wi todo s)) = length (threads s)"
    by cases simp_all
qed

lemma enqueue_fields [simp]:
  "wq (enqueue pick c wi todo s) = (wq s)\<lparr>next_item := next_item (wq s) @ [wi], item_count := item_count (wq s) + 1\<rparr>"
  "clients (enqueue pick c wi todo s) = (clients s)[c := Idle todo]" "ctl (enqueue pick c wi todo s) = ctl s"
  "queued (enqueue pick c wi todo s) = queued s @ [wi]" "started (enqueue pick c wi todo s) = started s"
  "executed (enqueue pick c wi todo s) = executed s" "failed (enqueue pick c wi todo s) = failed s"
  by (simp_all add: enqueue_def Let_def signal_wakeup_def broadcast_wakeup_def)

lemma client_items_drop:
  assumes "c < length cs" "todo_of (cs ! c) = wi # todo"
  shows "client_items cs = add_mset wi (client_items (cs[c := Idle todo]))"
proof -
  have "add_mset wi (client_items (cs[c := Idle todo])) + mset todo = client_items cs + mset todo"
    using client_update [OF assms(1), of "Idle todo"] assms(2) by simp
  then show ?thesis by (metis add_right_cancel)
qed

lemma active_client:
  assumes "pool_inv N s" "c < length (clients s)" "todo_of (clients s ! c) = wi # todo"
  shows "ctl s = Working" "Exited \<notin> set (threads s)" "\<not> terminated (wq s)"
proof -
  have "clients s ! c \<in> set (clients s)" "clients s ! c \<noteq> Idle []" using assms(2,3) by auto
  then show "ctl s = Working" "Exited \<notin> set (threads s)" "\<not> terminated (wq s)"
    using assms(1) by (auto simp: pool_inv_def ctl_ok_def)
qed

lemma sleep_inv:
  assumes inv: "pool_inv N s" and c: "c < length (clients s)" "todo_of (clients s ! c) = wi # todo"
    and full: "max_queued (wq s) \<noteq> 0" "length (next_item (wq s)) = max_queued (wq s)"
  shows "pool_inv N (s\<lparr>clients := (clients s)[c := Full wi todo]\<rparr>)"
proof -
  have i: "client_items ((clients s)[c := Full wi todo]) = client_items (clients s)"
    using client_update [OF c(1), of "Full wi todo"] c(2) by simp
  have "x \<in> set ((clients s)[c := Full wi todo]) \<Longrightarrow> x = Full wi todo \<or> x \<in> set (clients s)" for x
    by (rule in_set_update)
  then show ?thesis using inv active_client [OF inv c] full i
    by (auto simp: pool_inv_def counts_ok_def sleep_ok_def ctl_ok_def items_ok_def)
qed

lemma enqueue_inv:
  assumes inv: "pool_inv N s" and c: "c < length (clients s)" "todo_of (clients s ! c) = wi # todo"
    and t: "threads s \<noteq> []" "valid_pick s pick"
    and room: "next_item (wq s) \<noteq> [] \<Longrightarrow> max_queued (wq s) \<noteq> 0 \<Longrightarrow> length (next_item (wq s)) \<noteq> max_queued (wq s)"
  shows "pool_inv N (enqueue pick c wi todo s)"
proof -
  let ?s = "enqueue pick c wi todo s"
  note p = inv [unfolded pool_inv_def]
  note w = active_client [OF inv c] and th = enqueue_threads [OF conjunct1 [OF p] t, where c = c and wi = wi and todo = todo]
  note i = client_items_drop [OF c]
  have ne: "threads ?s \<noteq> []" using t(1) th(5) by (metis length_0_conv)
  have mem: "x \<in> set ((clients s)[c := Idle todo]) \<Longrightarrow> x = Idle todo \<or> x \<in> set (clients s)" for x by (rule in_set_update)
  have nf: "\<not> is_full x" if "x \<in> set ((clients s)[c := Idle todo])" for x
  proof -
    have "is_full x \<Longrightarrow> x \<in> set (clients s)" using mem [OF that] by auto
    then show ?thesis using p room by (fastforce simp: sleep_ok_def)
  qed
  have "counts_ok ?s" using p room th(3,5) by (cases "next_item (wq s)") (auto simp: counts_ok_def)
  moreover have "sleep_ok ?s" using nf ne th(1) th(2) [where w = Exited] w by (auto simp: sleep_ok_def)
  moreover have "ctl_ok ?s" using p w th(2) [where w = Exited] by (auto simp: ctl_ok_def)
  moreover have "items_ok N ?s" using p i th(4) t(1) by (auto simp: items_ok_def)
  ultimately show ?thesis by (simp add: pool_inv_def)
qed

lemma add_restart_inv:
  assumes inv: "pool_inv N s" and c: "c < length (clients s)" "todo_of (clients s ! c) = wi # todo"
    and t: "threads s \<noteq> []" "valid_pick s pick"
  shows "\<exists>s'. workqueue_add_restart pick c wi todo s = Some s' \<and> pool_inv N s'"
proof -
  have cnt: "item_count (wq s) = length (next_item (wq s))" using inv by (simp add: pool_inv_def counts_ok_def)
  show ?thesis
  proof (cases "next_item (wq s) \<noteq> [] \<and> max_queued (wq s) \<noteq> 0 \<and> length (next_item (wq s)) = max_queued (wq s)")
    case True
    then have "workqueue_add_restart pick c wi todo s = Some (s\<lparr>clients := (clients s)[c := Full wi todo]\<rparr>)"
      using cnt by (simp add: workqueue_add_restart_def)
    with sleep_inv [OF inv c] True show ?thesis by blast
  next
    case False
    then have "workqueue_add_restart pick c wi todo s = Some (enqueue pick c wi todo s)"
      using cnt by (auto simp: workqueue_add_restart_def enqueue_def Let_def)
    with enqueue_inv [OF inv c t] False show ?thesis by blast
  qed
qed

text \<open>An item that is run in place, or that cannot be queued, leaves the client.\<close>

lemma drop_item_inv:
  assumes inv: "pool_inv N s" and c: "c < length (clients s)" "todo_of (clients s ! c) = wi # todo"
  shows "threads s = [] \<Longrightarrow> pool_inv N (s\<lparr>executed := executed s @ [wi], clients := (clients s)[c := Idle todo]\<rparr>)"
    and "pool_inv N (s\<lparr>failed := failed s @ [wi], clients := (clients s)[c := Idle todo]\<rparr>)"
proof -
  note w = active_client [OF inv c]
  note i = client_items_drop [OF c]
  have mem: "x = Idle todo \<or> x \<in> set (clients s)" if "x \<in> set ((clients s)[c := Idle todo])" for x
    using that by (rule in_set_update)
  let ?e = "s\<lparr>executed := executed s @ [wi], clients := (clients s)[c := Idle todo]\<rparr>"
    and ?f = "s\<lparr>failed := failed s @ [wi], clients := (clients s)[c := Idle todo]\<rparr>"
  note p = inv [unfolded pool_inv_def]
  have "sleep_ok ?e" "sleep_ok ?f" using p mem by (fastforce simp: sleep_ok_def)+
  moreover have "counts_ok ?e" "counts_ok ?f" using p by (simp_all add: counts_ok_def)
  moreover have "ctl_ok ?e" "ctl_ok ?f" using p w by (simp_all add: ctl_ok_def)
  moreover have "threads s = [] \<Longrightarrow> items_ok N ?e" "items_ok N ?f" using p i by (simp_all add: items_ok_def)
  ultimately show "threads s = [] \<Longrightarrow> pool_inv N ?e" "pool_inv N ?f" by (simp_all add: pool_inv_def)
qed

lemma add_inv:
  assumes inv: "pool_inv N s" and c: "c < length (clients s)" "todo_of (clients s ! c) = wi # todo"
    and t: "threads s = [] \<or> valid_pick s pick"
  shows "\<exists>s'. workqueue_add pick malloc_ok c wi todo s = Some s' \<and> pool_inv N s'"
proof -
  have tc: "thread_count (wq s) = length (threads s)" using inv by (simp add: pool_inv_def counts_ok_def)
  show ?thesis using active_client(3) [OF inv c] drop_item_inv [OF inv c] add_restart_inv [OF inv c] t tc
    by (auto simp: workqueue_add_def)
qed

section \<open>Tearing down, and spurious wakeups\<close>

lemma control_inv:
  assumes inv: "pool_inv N s"
  shows "ctl s = Working \<Longrightarrow> list_all (\<lambda>c. c = Idle []) (clients s) \<Longrightarrow> pool_inv N (terminate_set s)"
    and "ctl s = Terminating \<Longrightarrow> pool_inv N (terminate_broadcast s)"
    and "ctl s = Joining k \<Longrightarrow> k < thread_count (wq s) \<Longrightarrow> threads s ! k = Exited \<Longrightarrow> pool_inv N (terminate_join k s)"
    and "ctl s = Joining k \<Longrightarrow> k = thread_count (wq s) \<Longrightarrow> pool_inv N (terminate_done s)"
proof -
  note p = inv [unfolded pool_inv_def]
  show "pool_inv N (terminate_set s)" if "ctl s = Working" "list_all (\<lambda>c. c = Idle []) (clients s)"
    using p that by (auto simp: pool_inv_def inv_defs terminate_set_def list_all_iff)
  show "pool_inv N (terminate_join k s)" if "ctl s = Joining k" "k < thread_count (wq s)" "threads s ! k = Exited"
    using p that by (auto simp: pool_inv_def inv_defs terminate_join_def less_Suc_eq)
  show "pool_inv N (terminate_done s)" if "ctl s = Joining k" "k = thread_count (wq s)"
    using p that by (auto simp: pool_inv_def inv_defs terminate_done_def in_set_conv_nth)
  show "pool_inv N (terminate_broadcast s)" if "ctl s = Terminating"
  proof -
    have "Exited \<in> set (map wake (threads s)) \<Longrightarrow> Exited \<in> set (threads s)"
      using wake_members [of Exited "threads s"] by blast
    then show ?thesis using p that no_waiting_after_wake [of "threads s"]
      by (auto simp: pool_inv_def inv_defs terminate_broadcast_def broadcast_wakeup_def simp del: set_map)
  qed
qed

lemma wq_step_inv:
  assumes "wq_step s s'" and "pool_inv N s"
  shows "pool_inv N s'"
  using assms
proof (induction rule: wq_step.induct)
  case (thread_enter t s s')
  then show ?case using thread_enter_inv by fastforce
next
  case (thread_return t s i s')
  then show ?case using thread_enter_inv [OF item_done_inv] by (fastforce simp: thread_return_enter)
next
  case (client_add c s i todo pick malloc_ok s')
  then show ?case using add_inv [of N s c i todo pick malloc_ok] by simp
next
  case (client_retry c s i todo pick s')
  moreover have "threads s \<noteq> []"
    using client_retry(1,2,5) nth_mem [of c "clients s"] by (fastforce simp: pool_inv_def sleep_ok_def)
  ultimately show ?case using add_restart_inv [of N s c i todo pick] by simp
qed (simp_all add: control_inv)

lemma spurious_inv:
  assumes "spurious_wakeup s s'" and "pool_inv N s"
  shows "pool_inv N s'"
  using assms
proof (induction rule: spurious_wakeup.induct)
  case (worker t s)
  have n: "n_running ((threads s)[t := Ready]) = n_running (threads s)"
    "running_items ((threads s)[t := Ready]) = running_items (threads s)"
    using running_update [OF worker(1), of Ready] worker(2) by simp_all
  have m: "w \<in> set ((threads s)[t := Ready]) \<Longrightarrow> w = Ready \<or> w \<in> set (threads s)" for w by (rule in_set_update)
  have "threads s ! t \<in> set (threads s)" using worker(1) by simp
  then have "ctl s \<noteq> Joined" "\<And>k. ctl s \<noteq> Joining k" using worker(2,3) by (auto simp: pool_inv_def ctl_ok_def)
  then have "ctl_ok (s\<lparr>threads := (threads s)[t := Ready]\<rparr>)"
    using worker(3) m [of Exited] by (cases "ctl s") (auto simp: pool_inv_def ctl_ok_def)
  then show ?case using worker(3) n m [of Waiting] m [of Exited]
    by (auto simp: pool_inv_def counts_ok_def sleep_ok_def items_ok_def)
next
  case (client c s i todo)
  have m: "x = Retry i todo \<or> x \<in> set (clients s)" if "x \<in> set ((clients s)[c := Retry i todo])" for x
    using that by (rule in_set_update)
  have "client_items ((clients s)[c := Retry i todo]) = client_items (clients s)"
    using client_update [OF client(1), of "Retry i todo"] client(2) by simp
  moreover have "clients s ! c \<in> set (clients s)" using client(1) by simp
  moreover have "ctl s = Working" using active_client(1) [OF client(3,1)] client(2) by simp
  moreover have "threads s \<noteq> []"
    using client(2,3) \<open>clients s ! c \<in> set (clients s)\<close> by (fastforce simp: pool_inv_def sleep_ok_def)
  then have "sleep_ok (s\<lparr>clients := (clients s)[c := Retry i todo]\<rparr>)"
    using client(3) m by (fastforce simp: pool_inv_def sleep_ok_def)
  ultimately show ?case using client(3) by (simp add: pool_inv_def counts_ok_def ctl_ok_def items_ok_def)
qed

definition fresh :: "'i workqueue \<Rightarrow> bool" where
  "fresh q \<longleftrightarrow> next_item q = [] \<and> item_count q = 0 \<and> active_threads q = 0 \<and> \<not> terminate q \<and> \<not> terminated q"

lemma pool_init_inv: "fresh q \<Longrightarrow> pool_inv (mset (concat todos)) (pool_init q todos)"
proof -
  have "n_running (replicate n Ready) = 0" "running_items (replicate n Ready) = {#}" for n
    by (induction n) (simp_all add: n_running_def running_items_def)
  moreover have "client_items (map Idle todos) = mset (concat todos)"
    by (induction todos) (simp_all add: client_items_def)
  ultimately show "fresh q \<Longrightarrow> pool_inv (mset (concat todos)) (pool_init q todos)"
    by (auto simp: pool_inv_def inv_defs pool_init_def fresh_def)
qed

lemma reachable_inv:
  assumes "reachable (pool_init q todos) s" and "fresh q"
  shows "pool_inv (mset (concat todos)) s"
  using assms(1)
  by (induction rule: reachable.induct) (use pool_init_inv [OF assms(2)] wq_step_inv spurious_inv in blast)+

section \<open>Every step does some work\<close>

definition n_ready :: "'i worker list \<Rightarrow> nat" where
  "n_ready ws = sum_list (map (\<lambda>w. case w of Ready \<Rightarrow> 1 | _ \<Rightarrow> 0) ws)"

fun awake :: "'i client \<Rightarrow> nat" where
  "awake (Idle []) = 0"
| "awake (Idle (i # todo)) = 1"
| "awake (Full i todo) = 0"
| "awake (Retry i todo) = 1"

definition n_awake :: "'i client list \<Rightarrow> nat" where
  "n_awake cs = sum_list (map awake cs)"

fun ctl_work :: "nat \<Rightarrow> control \<Rightarrow> nat" where
  "ctl_work n Working = 2 * n + 3"
| "ctl_work n Terminating = 2 * n + 2"
| "ctl_work n (Joining k) = n + 1 - k"
| "ctl_work n Joined = 0"

text \<open>
  An item costs more in a client than in the queue, because queueing it can wake all workers, and
  more in the queue than in a worker, because taking it can wake all clients.
\<close>

definition work :: "'i pool \<Rightarrow> nat" where
  "work s = (let n = length (threads s); m = length (clients s)
     in (m + n + 2) * size (client_items (clients s)) + (m + 1) * length (next_item (wq s)) +
        n_running (threads s) + n_ready (threads s) + n_awake (clients s) + ctl_work n (ctl s))"

lemma n_ready_le: "n_ready ws \<le> length ws"
  by (induction ws) (auto simp: n_ready_def split: worker.splits)

lemma awake_le: "awake c \<le> 1"
  by (cases c rule: awake.cases) simp_all

lemma n_awake_le: "n_awake cs \<le> length cs"
proof (induction cs)
  case (Cons c cs)
  then show ?case using awake_le [of c] by (simp add: n_awake_def)
qed (simp add: n_awake_def)

lemma n_ready_update: "t < length ws \<Longrightarrow> n_ready (ws[t := w]) + n_ready [ws ! t] = n_ready ws + n_ready [w]"
  using sum_list_update_gen [where f = "\<lambda>w. case w of Ready \<Rightarrow> 1 | _ \<Rightarrow> (0 :: nat)"] by (simp add: n_ready_def)

lemma n_ready_single [simp]: "n_ready [Running i] = 0" "n_ready [Ready] = 1" "n_ready [Waiting] = 0" "n_ready [Exited] = 0"
  by (simp_all add: n_ready_def)

lemma n_awake_update: "c < length cs \<Longrightarrow> n_awake (cs[c := d]) + awake (cs ! c) = n_awake cs + awake d"
  using sum_list_update_gen [where f = awake] by (simp add: n_awake_def)

lemma work_thread:
  assumes inv: "pool_inv N s" and t: "t < length (threads s)" "threads s ! t = Ready" and r: "workqueue_thread t s = Some s'"
  shows "work s' < work s"
proof (cases "next_item (wq s)")
  case Nil
  then obtain w where w: "s' = s\<lparr>threads := (threads s)[t := w]\<rparr>" "w = Waiting \<or> w = Exited"
    using r by (auto simp: workqueue_thread_def split: if_splits)
  then show ?thesis using running_update(1) [OF t(1), of w] n_ready_update [OF t(1), of w] t(2)
    by (auto simp: work_def Let_def)
next
  case (Cons wi rest)
  define cs where "cs = (if max_queued (wq s) \<noteq> 0 then map wake_client (clients s) else clients s)"
  have "next_item (wq s') = rest" "threads s' = (threads s)[t := Running wi]" "clients s' = cs" "ctl s' = ctl s"
    using r Cons by (auto simp: workqueue_thread_def broadcast_queue_full_def cs_def Let_def split: if_splits)
  moreover have "client_items cs = client_items (clients s)" and len: "length cs = length (clients s)" by (simp_all add: cs_def)
  moreover have "n_awake cs \<le> length (clients s)" using n_awake_le [of cs] len by simp
  ultimately show ?thesis
    using running_update(1) [OF t(1), of "Running wi"] n_ready_update [OF t(1), of "Running wi"] t(2) Cons
    by (simp add: work_def Let_def)
qed

lemma work_item_done:
  assumes "pool_inv N s" "t < length (threads s)" "threads s ! t = Running i"
  shows "work (item_done t i s) = work s"
  using running_update(1) [OF assms(2), of Ready] n_ready_update [OF assms(2), of Ready] assms(3)
  by (simp add: work_def Let_def item_done_def)

lemma work_drop:
  assumes c: "c < length (clients s)" "todo_of (clients s ! c) = wi # todo" "\<not> is_full (clients s ! c)"
    and cs: "clients s' = (clients s)[c := Idle todo]" and ctl: "ctl s' = ctl s"
    and len: "length (threads s') = length (threads s)" "n_running (threads s') = n_running (threads s)"
    and q: "length (next_item (wq s')) \<le> Suc (length (next_item (wq s)))"
  shows "work s' < work s"
proof -
  have "awake (clients s ! c) = 1" using c(2,3) by (cases "clients s ! c" rule: awake.cases) auto
  then have "n_awake (clients s') \<le> n_awake (clients s)"
    using n_awake_update [OF c(1), of "Idle todo"] awake_le [of "Idle todo"] cs by simp
  moreover have "size (client_items (clients s)) = Suc (size (client_items (clients s')))"
    using client_items_drop [OF c(1,2)] cs by simp
  moreover have "n_ready (threads s') \<le> length (threads s)" using n_ready_le len(1) by metis
  moreover have "length (clients s') = length (clients s)" using cs by simp
  moreover have "(length (clients s) + 1) * length (next_item (wq s')) \<le>
      (length (clients s) + 1) * length (next_item (wq s)) + (length (clients s) + 1)"
    using mult_le_mono2 [OF q, of "length (clients s) + 1"] by simp
  ultimately show ?thesis by (simp add: work_def Let_def len ctl)
qed

lemma work_add_restart:
  assumes inv: "pool_inv N s" and c: "c < length (clients s)" "todo_of (clients s ! c) = wi # todo" "\<not> is_full (clients s ! c)"
    and t: "threads s \<noteq> []" "valid_pick s pick" and r: "workqueue_add_restart pick c wi todo s = Some s'"
  shows "work s' < work s"
proof -
  have aw: "awake (clients s ! c) = 1" using c(2,3) by (cases "clients s ! c" rule: awake.cases) auto
  consider (full) "s' = s\<lparr>clients := (clients s)[c := Full wi todo]\<rparr>" | (add) "s' = enqueue pick c wi todo s"
    using r by (auto simp: workqueue_add_restart_def enqueue_def Let_def split: if_splits)
  then show ?thesis
  proof cases
    case full
    have "client_items ((clients s)[c := Full wi todo]) = client_items (clients s)"
      using client_update [OF c(1), of "Full wi todo"] c(2) by simp
    then show ?thesis using n_awake_update [OF c(1), of "Full wi todo"] aw full by (simp add: work_def Let_def)
  next
    case add
    have "counts_ok s" using inv by (simp add: pool_inv_def)
    note th = enqueue_threads [OF this t, where c = c and wi = wi and todo = todo]
    show ?thesis using th(3,5) by (intro work_drop [OF c]) (simp_all add: add)
  qed
qed

lemma wq_step_work:
  assumes "wq_step s s'" and "pool_inv N s"
  shows "work s' < work s"
  using assms
proof (induction rule: wq_step.induct)
  case (thread_enter t s s')
  then show ?case using work_thread by blast
next
  case (thread_return t s i s')
  then show ?case using work_thread [OF item_done_inv] work_item_done by (fastforce simp: thread_return_enter)
next
  case (client_add c s i todo pick malloc_ok s')
  then have c: "c < length (clients s)" "todo_of (clients s ! c) = i # todo" "\<not> is_full (clients s ! c)" by simp_all
  show ?case
  proof (cases "thread_count (wq s) = 0 \<or> \<not> malloc_ok")
    case True
    then show ?thesis using client_add(4) by (intro work_drop [OF c]) (auto simp: workqueue_add_def split: if_splits)
  next
    case False
    moreover from this have "threads s \<noteq> []" using client_add(5) by (auto simp: pool_inv_def counts_ok_def)
    ultimately show ?thesis using work_add_restart [OF client_add(5) c] client_add(3,4)
      by (auto simp: workqueue_add_def split: if_splits)
  qed
next
  case (client_retry c s i todo pick s')
  then have c: "c < length (clients s)" "todo_of (clients s ! c) = i # todo" "\<not> is_full (clients s ! c)" by simp_all
  have "threads s \<noteq> []"
    using client_retry(1,2,5) nth_mem [of c "clients s"] by (fastforce simp: pool_inv_def sleep_ok_def)
  then show ?case using work_add_restart [OF client_retry(5) c] client_retry(3,4) by blast
next
  case (ctl_broadcast s)
  have "n_ready (map wake (threads s)) \<le> length (threads s)" using n_ready_le [of "map wake (threads s)"] by simp
  then show ?case using ctl_broadcast by (simp add: work_def Let_def terminate_broadcast_def broadcast_wakeup_def)
next
  case (ctl_join s k)
  then show ?case by (simp add: work_def Let_def terminate_join_def pool_inv_def counts_ok_def)
next
  case (ctl_done s k)
  then show ?case by (simp add: work_def Let_def terminate_done_def pool_inv_def counts_ok_def)
qed (simp add: work_def Let_def terminate_set_def)

section \<open>Something can always happen\<close>

lemma valid_pick_exists: "threads s \<noteq> [] \<Longrightarrow> \<exists>pick. valid_pick s pick"
  by (metis in_set_conv_nth length_greater_0_conv valid_pick_def)

lemma wq_progress:
  assumes inv: "pool_inv N s" and nf: "ctl s \<noteq> Joined"
  shows "\<exists>s'. wq_step s s'"
proof (cases "\<exists>t < length (threads s). threads s ! t = Ready \<or> (\<exists>i. threads s ! t = Running i)")
  case True
  then show ?thesis using thread_enter_inv [OF inv] thread_enter_inv [OF item_done_inv [OF inv]]
    by (metis thread_return_enter wq_step.thread_enter wq_step.thread_return)
next
  case False
  then have asleep: "threads s ! t = Waiting \<or> threads s ! t = Exited" if "t < length (threads s)" for t
    using that by (metis worker.exhaust)
  have e: "next_item (wq s) = []"
  proof (rule ccontr)
    assume "next_item (wq s) \<noteq> []"
    then have t: "threads s \<noteq> []" "Waiting \<notin> set (threads s)" "Exited \<notin> set (threads s)"
      using inv by (auto simp: pool_inv_def sleep_ok_def)
    then show False using asleep [of 0] by (metis length_greater_0_conv nth_mem)
  qed
  show ?thesis
  proof (cases "\<exists>c < length (clients s). todo_of (clients s ! c) \<noteq> []")
    case True
    then obtain c wi todo where c: "c < length (clients s)" "todo_of (clients s ! c) = wi # todo" by (metis list.exhaust)
    have mem: "clients s ! c \<in> set (clients s)" using c(1) by simp
    have "\<not> is_full (clients s ! c)" using inv e mem by (auto simp: pool_inv_def sleep_ok_def)
    then consider "clients s ! c = Idle (wi # todo)" | "clients s ! c = Retry wi todo" "threads s \<noteq> []"
      using c(2) inv mem by (cases "clients s ! c") (fastforce simp: pool_inv_def sleep_ok_def)+
    then show ?thesis
    proof cases
      case 1
      obtain pick where "threads s = [] \<or> valid_pick s pick" using valid_pick_exists by blast
      with add_inv [OF inv c] 1 c(1) show ?thesis by (metis wq_step.client_add)
    next
      case 2
      with valid_pick_exists obtain pick where "valid_pick s pick" by blast
      with add_restart_inv [OF inv c] 2 c(1) show ?thesis by (metis wq_step.client_retry)
    qed
  next
    case False
    have "x = Idle []" if "x \<in> set (clients s)" for x
    proof -
      have "todo_of x = []" using that False by (metis in_set_conv_nth)
      then show ?thesis by (cases x) simp_all
    qed
    then have idle: "list_all (\<lambda>c. c = Idle []) (clients s)" by (simp add: list_all_iff)
    show ?thesis
    proof (cases "ctl s")
      case (Joining k)
      then have k: "k \<le> length (threads s)" "Waiting \<notin> set (threads s)" "length (threads s) = thread_count (wq s)"
        using inv by (auto simp: pool_inv_def ctl_ok_def counts_ok_def)
      then have "k < length (threads s) \<Longrightarrow> threads s ! k = Exited" using asleep nth_mem by metis
      then show ?thesis using Joining k(1,3) by (metis le_neq_implies_less wq_step.ctl_done wq_step.ctl_join)
    qed (use idle nf in \<open>auto intro: wq_step.intros\<close>)
  qed
qed

interpretation pool: ending_system wq_step "pool_inv N" "\<lambda>s. ctl s = Joined" work
  by unfold_locales (use wq_step_inv wq_step_work wq_progress in blast)+

section \<open>Properties\<close>

lemma create_fresh:
  assumes "workqueue_create_bound r1 r2 r3 ok rets max_queue = Some (Inr q)"
  shows "fresh q" and "thread_count q = length rets" and "max_queued q = max_queue"
  using assms by (auto simp: workqueue_create_bound_def workqueue_destroy_def workqueue_zero_def fresh_def Let_def
      split: option.splits if_splits)

lemma sum_list_zero_iff_all: "sum_list (map f xs) = {#} \<longleftrightarrow> (\<forall>x \<in> set xs. f x = {#})"
  by (induction xs) auto

lemma joined_drained:
  assumes "pool_inv N s" and "ctl s = Joined"
  shows "(\<forall>w \<in> set (threads s). w = Exited) \<and> mset (executed s) + mset (failed s) = N"
proof -
  have ex: "\<forall>w \<in> set (threads s). w = Exited" and cl: "\<forall>c \<in> set (clients s). c = Idle []"
    using assms by (auto simp: pool_inv_def ctl_ok_def)
  have "threads s \<noteq> [] \<Longrightarrow> Exited \<in> set (threads s)" using ex hd_in_set by metis
  then have "next_item (wq s) = []" using assms(1) by (auto simp: pool_inv_def sleep_ok_def)
  moreover have "running_items (threads s) = {#}"
    using ex by (auto simp: running_items_def sum_list_zero_iff_all)
  moreover have "client_items (clients s) = {#}"
    using cl by (auto simp: client_items_def sum_list_zero_iff_all)
  ultimately show ?thesis using assms(1) ex by (auto simp: pool_inv_def items_ok_def)
qed

text \<open>A pool with one worker and a client with two items, and its state after the first has been added.\<close>

definition wq_example :: "nat workqueue" where
  "wq_example = workqueue_zero\<lparr>thread_count := 1, max_queued := 1\<rparr>"

definition pool_example :: "nat pool" where
  "pool_example = the (workqueue_add 0 True 0 7 [8] (pool_init wq_example [[7, 8]]))"

lemma wq_example_created: "workqueue_create_bound None None None True [None] 1 = Some (Inr wq_example)"
  by (simp add: workqueue_create_bound_def wq_example_def Let_def)

lemma pool_example_reachable: "reachable (pool_init wq_example [[7, 8]]) pool_example"
proof -
  have "workqueue_add 0 True 0 7 [8] (pool_init wq_example [[7, 8]]) = Some pool_example" by code_simp
  then have "wq_step (pool_init wq_example [[7, 8]]) pool_example"
    by (intro wq_step.client_add [where c = 0 and pick = 0 and malloc_ok = True and i = 7 and todo = "[8]"])
      (simp_all add: pool_init_def valid_pick_def wq_example_def workqueue_zero_def)
  then show ?thesis by (rule reachable.step [OF reachable.start])
qed

text \<open>
  C29. In every state that any interleaving of the workers, the clients and the teardown can reach,
  each item is in exactly one place: not yet added, queued, running, run, or refused for lack of
  memory. Items start in the order in which they were queued, the item count is the length of the
  queue and never exceeds its bound, and the count of active threads is the number of running ones.
\<close>

theorem workqueue_exactly_once:
  assumes "workqueue_create_bound None None None True rets max_queue = Some (Inr q)"
    and "reachable (pool_init q todos) s"
  shows "mset (executed s) + running_items (threads s) + mset (next_item (wq s)) + client_items (clients s) +
       mset (failed s) = mset (concat todos) \<and>
     queued s = started s @ next_item (wq s) \<and>
     item_count (wq s) = length (next_item (wq s)) \<and> active_threads (wq s) = n_running (threads s) \<and>
     (max_queued (wq s) = 0 \<or> item_count (wq s) \<le> max_queued (wq s))"
  using reachable_inv [OF assms(2) create_fresh(1) [OF assms(1)]]
  by (auto simp: pool_inv_def items_ok_def counts_ok_def)

theorem workqueue_exactly_once_witness:
  "item_count (wq pool_example) = 1 \<and> queued pool_example = started pool_example @ [7]"
proof -
  have "next_item (wq pool_example) = [7]" by code_simp
  with workqueue_exactly_once [OF wq_example_created pool_example_reachable] show ?thesis by simp
qed

text \<open>
  C30. No wakeup is lost and no assertion fails, in every reachable state and with spurious wakeups: while
  there is an item in the queue no worker is asleep; a client is asleep only while the queue is
  full; and the next critical section of a ready or running worker and of a client runs through.
\<close>

theorem workqueue_no_lost_wakeup:
  assumes "workqueue_create_bound None None None True rets max_queue = Some (Inr q)"
    and "reachable (pool_init q todos) s"
  shows "(next_item (wq s) = [] \<or> Waiting \<notin> set (threads s)) \<and>
     (list_all (\<lambda>c. \<not> is_full c) (clients s) \<or> max_queued (wq s) \<noteq> 0 \<and> length (next_item (wq s)) = max_queued (wq s)) \<and>
     (\<forall>t. t < length (threads s) \<longrightarrow> threads s ! t = Ready \<longrightarrow> workqueue_thread t s \<noteq> None) \<and>
     (\<forall>t i. t < length (threads s) \<longrightarrow> threads s ! t = Running i \<longrightarrow> workqueue_thread_return t i s \<noteq> None) \<and>
     (\<forall>c i todo pick. c < length (clients s) \<longrightarrow> todo_of (clients s ! c) = i # todo \<longrightarrow> threads s = [] \<or> valid_pick s pick \<longrightarrow>
       workqueue_add pick True c i todo s \<noteq> None)"
proof -
  have inv: "pool_inv (mset (concat todos)) s" by (rule reachable_inv [OF assms(2) create_fresh(1) [OF assms(1)]])
  have "(next_item (wq s) = [] \<or> Waiting \<notin> set (threads s)) \<and>
     (list_all (\<lambda>c. \<not> is_full c) (clients s) \<or> max_queued (wq s) \<noteq> 0 \<and> length (next_item (wq s)) = max_queued (wq s))"
    using inv by (auto simp: pool_inv_def sleep_ok_def list_all_iff)
  moreover have "\<forall>t. t < length (threads s) \<longrightarrow> threads s ! t = Ready \<longrightarrow> workqueue_thread t s \<noteq> None"
    using thread_enter_inv [OF inv] by fastforce
  moreover have "\<forall>t i. t < length (threads s) \<longrightarrow> threads s ! t = Running i \<longrightarrow> workqueue_thread_return t i s \<noteq> None"
    using thread_enter_inv [OF item_done_inv [OF inv]] by (fastforce simp: thread_return_enter)
  moreover have "workqueue_add pick True c i todo s \<noteq> None"
    if "c < length (clients s)" "todo_of (clients s ! c) = i # todo" "threads s = [] \<or> valid_pick s pick" for c i todo pick
    using add_inv [OF inv that, of True] by auto
  ultimately show ?thesis by blast
qed

theorem workqueue_no_lost_wakeup_witness: "Waiting \<notin> set (threads pool_example) \<and> workqueue_thread 0 pool_example \<noteq> None"
proof -
  have "next_item (wq pool_example) = [7]" "threads pool_example = [Ready]" by code_simp+
  with workqueue_no_lost_wakeup [OF wq_example_created pool_example_reachable] show ?thesis by simp
qed

text \<open>
  C4. The pool drains, whatever the schedule: from every reachable state the number of steps that can
  follow, apart from spurious wakeups, is bounded; a state from which no step is possible is one where
  the teardown has finished, all workers have returned and every item has been run (or was refused
  for lack of memory); and such a state can be reached.
\<close>

theorem workqueue_drains:
  assumes "workqueue_create_bound None None None True rets max_queue = Some (Inr q)"
    and "reachable (pool_init q todos) s"
  shows "(\<forall>n t. (wq_step ^^ n) s t \<longrightarrow> n \<le> work s) \<and>
     (\<forall>t. wq_step\<^sup>*\<^sup>* s t \<longrightarrow> (\<nexists>u. wq_step t u) \<longrightarrow>
        ctl t = Joined \<and> (\<forall>w \<in> set (threads t). w = Exited) \<and> mset (executed t) + mset (failed t) = mset (concat todos)) \<and>
     (\<exists>t. wq_step\<^sup>*\<^sup>* s t \<and> ctl t = Joined \<and> mset (executed t) + mset (failed t) = mset (concat todos))"
proof -
  let ?N = "mset (concat todos)"
  have inv: "pool_inv ?N s" by (rule reachable_inv [OF assms(2) create_fresh(1) [OF assms(1)]])
  have run: "pool_inv ?N t" if "wq_step\<^sup>*\<^sup>* s t" for t
    using that by (induction rule: rtranclp_induct) (use inv wq_step_inv in blast)+
  have "n \<le> work s" if "(wq_step ^^ n) s t" for n t using pool.run_bound [OF that inv] by simp
  moreover have "ctl t = Joined" if "wq_step\<^sup>*\<^sup>* s t" "\<nexists>u. wq_step t u" for t
    using pool.stuck_final [OF run [OF that(1)] that(2)] .
  moreover obtain t where "wq_step\<^sup>*\<^sup>* s t" "ctl t = Joined" using pool.reaches_final [OF inv] by blast
  ultimately show ?thesis using joined_drained [OF run] by blast
qed

theorem workqueue_drains_witness:
  "\<exists>t. wq_step\<^sup>*\<^sup>* pool_example t \<and> ctl t = Joined \<and> mset (executed t) + mset (failed t) = {#7, 8#}"
  using workqueue_drains [OF wq_example_created pool_example_reachable] by simp

text \<open>
  C31. Creating a pool when a thread cannot be started does not return the error: \<^verbatim>\<open>workqueue_destroy\<close>,
  called to clean up, asserts that the pool has been terminated, which nothing has done.
\<close>

theorem workqueue_create_aborts:
  assumes "create_threads rets = Some e"
  shows "workqueue_create_bound None None None True rets max_queue = None"
  using assms by (simp add: workqueue_create_bound_def workqueue_destroy_def workqueue_zero_def Let_def)

theorem workqueue_create_aborts_witness:
  "(workqueue_create_bound None None None True [None, Some EAGAIN] 0 :: nat workqueue result option) = None"
  by (rule workqueue_create_aborts [of _ EAGAIN]) simp

end
