(* ===== verification/Spec2Isabelle.thy ===== *)
theory Spec2Isabelle
  imports Rt_Free Rt_Query Bmbt_Rec Sort_Clients Addr Bitmap_Correct Bmap_Remove Workqueue_Live
begin

text \<open>
  A verification development for xfsprogs, the user-space tools of the XFS file system.

  \<^bold>\<open>The program.\<close> The directory \<^verbatim>\<open>libxfs\<close> holds the file system code shared with the kernel: the on-disk
  format (\<^verbatim>\<open>xfs_format.h\<close>), the codecs and verifiers of its structures, the allocators and btrees, and
  transactions. \<^verbatim>\<open>libfrog\<close> holds data structures and helpers of the tools. \<^verbatim>\<open>mkfs\<close>, \<^verbatim>\<open>repair\<close>, \<^verbatim>\<open>db\<close>, \<^verbatim>\<open>scrub\<close>
  and the smaller tools are built on these two libraries. The development models parts of the two
  libraries, from the byte order up: every other part of the program reaches the disk through the
  conversions, verifiers and checksums at the bottom, and the realtime allocator, the extent bitmap,
  the in-core extent tree and the sorting of deferred work are whole algorithms on top of them.

  \<^bold>\<open>Conventions.\<close> C integers are words of their width, with wrap-around; pointers to structures are records
  or, where the code mutates shared nodes, addresses into a map. A routine that can fail returns a
  sum whose left side is the error number; an access outside an object, a null dereference or a
  failed assertion is \<open>None\<close> or the error \<open>Fault\<close>, never an arbitrary value, so a theorem that gives a
  result also says that no such access happens. The host is little endian. Results of code that is not part of
  the repository (\<^verbatim>\<open>malloc\<close>, the pthread calls, the device) are arguments. Definitions carry the names of the source.

  \<^bold>\<open>Theories.\<close>

  \<^item> \<^verbatim>\<open>Prelude\<close>: integer types, error numbers, rule collections, facts on words.

  \<^item> \<^verbatim>\<open>Arch\<close>: \<^verbatim>\<open>include/xfs_arch.h\<close>, byte swaps and unaligned access. The locales \<open>disk_codec\<close> and
    \<open>disk_format\<close> state what a pair of conversions promises; extent records and both timestamp formats
    interpret them.

  \<^item> \<^verbatim>\<open>Bits\<close>: \<^verbatim>\<open>include/bitops.h\<close>, \<^verbatim>\<open>libxfs/xfs_bit.h\<close> and \<^verbatim>\<open>xfs_bit.c\<close>: find-last-set, masks, and the searches in
    arrays of words, with what each returns on every input.

  \<^item> \<^verbatim>\<open>Rt_Model\<close>: \<^verbatim>\<open>libxfs/xfs_rtbitmap.c\<close> and \<^verbatim>\<open>.h\<close>. One record holds the geometry, the blocks of the bitmap and
    summary files, the two cached buffers, the in-core summary cache and the log of the transaction.
    \<^verbatim>\<open>Rt_Scan\<close> proves the scans forward, backward and over a range against the bit sequence; \<^verbatim>\<open>Rt_Modify\<close>
    that \<^verbatim>\<open>xfs_rtmodify_range\<close> changes exactly its bits and logs every changed word; \<^verbatim>\<open>Rt_Summary\<close> that one
    counter changes and the cache stays an upper bound; \<^verbatim>\<open>Rt_Free\<close> that freeing a range keeps every counter the
    number of maximal free runs of its class; \<^verbatim>\<open>Rt_Query\<close> that queries visit the maximal free runs in order.

  \<^item> \<^verbatim>\<open>Bmbt_Rec\<close>: the packed extent records and keys of \<^verbatim>\<open>libxfs/xfs_bmap_btree.c\<close>, with round trips both ways.

  \<^item> \<^verbatim>\<open>List_Sort\<close> and \<^verbatim>\<open>Sort_Clients\<close>: the merge sort of \<^verbatim>\<open>libfrog/list_sort.c\<close> and the comparison functions of
    \<^verbatim>\<open>libxfs/defer_item.c\<close> and \<^verbatim>\<open>libxfs/trans.c\<close>. The locale \<open>list_cmp\<close> is the contract of a comparison function, with the
    set of items on which it is a total preorder; each comparison interprets it on the items for
    which its 32-bit or 64-bit difference does not overflow.

  \<^item> \<^verbatim>\<open>Crc32\<close>: \<^verbatim>\<open>libfrog/crc32.c\<close> and the generator of its tables, \<^verbatim>\<open>gen_crc32table.c\<close>; equal to the bit-serial CRC.

  \<^item> \<^verbatim>\<open>Cksum\<close>: \<^verbatim>\<open>libxfs/xfs_cksum.h\<close>. What is stamped verifies; any change within four consecutive bytes is
    detected. The locale \<open>checksummed\<close> is a structure with a checksum field.

  \<^item> \<^verbatim>\<open>Addr\<close>: the packing of block and inode numbers, the group geometry (\<^verbatim>\<open>xfs_ag.c\<close>, \<^verbatim>\<open>xfs_rtgroup.c\<close>, \<^verbatim>\<open>xfs_group.h\<close>) and
    the verifiers of \<^verbatim>\<open>libxfs/xfs_types.c\<close>, each shown to accept exactly what its comment says, or where not.

  \<^item> \<^verbatim>\<open>Avl64\<close> and \<^verbatim>\<open>Avl_Correct\<close>: the threaded AVL tree of \<^verbatim>\<open>libfrog/avl64.c\<close>. The descents of the code keep parent
    pointers; the model keeps the path to the root, so the \<^verbatim>\<open>avl_parent\<close> fields themselves and mistakes in setting
    them are outside the model. Balance, order and threading are kept, no null
    pointer is followed, and the depth is logarithmic. The locale \<open>range_index\<close> is the interface a client
    of the tree relies on; the tree interprets it.

  \<^item> \<^verbatim>\<open>Bitmap\<close> and \<^verbatim>\<open>Bitmap_Correct\<close>: \<^verbatim>\<open>libfrog/bitmap.c\<close> on top of the tree, as a refinement of a set of bits.

  \<^item> \<^verbatim>\<open>Inode_Buf\<close> and \<^verbatim>\<open>Inode_Correct\<close>: \<^verbatim>\<open>libxfs/xfs_inode_buf.c\<close>: timestamps, both conversions of the inode core, the
    checksum, and all verifiers. A verifier returns the line of the check that fails. Round trips, integrity of written
    inodes, and that the forks of an accepted inode lie inside it.

  \<^item> \<^verbatim>\<open>Iext_Rec\<close> and \<^verbatim>\<open>Iext_Tree\<close>: \<^verbatim>\<open>libxfs/xfs_iext_tree.c\<close>, the btree of extents that every mapped file has in memory: packed
    records; leaves, nodes and the bare record array as blocks in a map from addresses; cursors; searches;
    insertion with splits; removal with merges; update and destruction. One definition per function of the file, its
    loops as functions of their own. The proofs go bottom up: \<^verbatim>\<open>Iext_Level\<close> shows the searches, key updates and
    insertions on the levels of nodes, \<^verbatim>\<open>Iext_Shrink\<close> the removal of a block from them, \<^verbatim>\<open>Iext_Rep\<close> adds the chain of
    leaves and the list of extents a tree stands for, with the searches and cursor moves, \<^verbatim>\<open>Iext_Insert\<close> and
    \<^verbatim>\<open>Iext_Remove\<close> the three operations that change the tree and the destruction. \<^verbatim>\<open>Iext_List\<close> states the interface,
    the locale \<open>extent_list\<close>: a list of extents in file order with cursors as positions, and interprets it on the tree;
    \<^verbatim>\<open>Iext_Correct\<close> has the properties. Every operation refines its counterpart on lists at every height. Removal
    has a precondition: the last extent must not be removed from a tree of more than one level. The code
    does not establish it, and \<open>iext_remove_last_leaves_root\<close> shows that from every such tree the removal leaves a
    state the next insertion faults on.

  \<^item> \<^verbatim>\<open>Iext_Fork\<close>: \<^verbatim>\<open>xfs_iformat_extents\<close> and \<^verbatim>\<open>xfs_iextents_copy\<close> of \<^verbatim>\<open>libxfs/xfs_inode_fork.c\<close> with the extent validation of
    \<^verbatim>\<open>xfs_bmap.c\<close>: the inode verifier, the record codec and the tree composed. An accepted inode loads up to its
    first bad record, and loading then flushing gives the same records.

  \<^item> \<^verbatim>\<open>Bmap_Fork\<close>, \<^verbatim>\<open>Bmap_Read\<close> and \<^verbatim>\<open>Bmap_Correct\<close>: \<^verbatim>\<open>libxfs/xfs_bmap.c\<close> as a client of the tree. \<^verbatim>\<open>xfs_iread_extents\<close> loads a fork in btree
    format from the blocks of its btree, which are an argument; \<^verbatim>\<open>xfs_bmapi_read\<close> turns a range of file blocks into
    maps. An extent list has a meaning at every file offset, \<open>mapping_at\<close>; the maps returned are shown to tile
    the range and to agree with it block by block.

  \<^item> \<^verbatim>\<open>Bmap_Query\<close>: the first hole of a size, the last extent and the end of the mapped blocks, against the same meaning.

  \<^item> \<^verbatim>\<open>Bmap_Del\<close>, \<^verbatim>\<open>Bmap_Indlen\<close> and \<^verbatim>\<open>Bmap_Remove\<close>: reservations for indirect blocks and the removal of a range from a
    delayed or copy-on-write extent. The worst-case reservation is the size of a full btree; splitting one
    ends and is fair; a removal changes the mapping in exactly the range, and free and reserved blocks keep
    their sum, but for the blocks a remapping or a realtime inode does not give back.

  \<^item> \<^verbatim>\<open>Workqueue\<close> and \<^verbatim>\<open>Workqueue_Live\<close>: the thread pool of \<^verbatim>\<open>libfrog/workqueue.c\<close> as a step relation whose steps are the critical
    sections of the workers, of the clients and of the teardown, with condition variables, a bounded queue
    and spurious wakeups. Items run exactly once and start in order, no wakeup is lost, and every run ends with
    all items run. The locale \<open>ending_system\<close> is the argument for the last.

  \<^bold>\<open>Loops and fuel.\<close> Loops over words, blocks or nodes are recursive functions with a termination proof. Three
  loops whose progress depends on data take fuel: the query loop of \<open>Rt_Query\<close>, with the number of extents of
  the range, since every iteration advances past at least one extent, and the loops of
  \<^verbatim>\<open>bitmap_set\<close>, \<^verbatim>\<open>bitmap_clear\<close> and the iterators, with one more than the number of nodes ever allocated, since
  every iteration leaves one node behind. The theorems about them give the result, so they also show that
  the fuel is enough. The loops of the in-core extent tree that climb or follow links
  (\<open>xfs_iext_insert_node\<close>, \<open>remove_node_again\<close>, \<open>prev_recurse\<close>, \<open>iextents_copy_loop\<close>), and the loops over extents of
  \<^verbatim>\<open>xfs_bmap.c\<close> and the one of \<^verbatim>\<open>xfs_bmap_split_indlen\<close> are partial functions into \<open>option\<close>: a loop that
  does not end is \<open>None\<close>, and the theorems give \<open>Some\<close>.

  \<^bold>\<open>Not modelled.\<close> The generic btree and the allocators, transactions and trees on top of it, which need a model of
  the buffer cache and of btree cursors; the mapping of new blocks and the unmapping of real ones; inode forks in local format; directories and attributes; the
  superblock and transaction reservations; log recovery; and the tools themselves, which are mostly option
  parsing, I/O and system calls. Initialisation of the realtime files and the buffer verifiers of \<^verbatim>\<open>xfs_rtbitmap.c\<close>,
  \<^verbatim>\<open>bitmap_free\<close>, \<^verbatim>\<open>avl64_findanyrange\<close> and \<^verbatim>\<open>avl64_insert_immediate\<close> are left out of components that are otherwise
  modelled.

  \<^bold>\<open>Assertions.\<close> \<^verbatim>\<open>libfrog\<close> is built with assertions, \<^verbatim>\<open>libxfs\<close> with \<^verbatim>\<open>NDEBUG\<close>. The models of the extent tree, of \<^verbatim>\<open>xfs_bmap.c\<close> and
  of the thread pool have the assertions of their functions as steps that may fail, and the theorems give a result, so they hold
  whether or not the assertions are compiled. The one exception is the \<^verbatim>\<open>ASSERT(0)\<close> of \<^verbatim>\<open>libxfs_mod_incore_sb\<close>, which a
  realtime inode does reach: it is modelled as the library is built, as the error that its callers ignore.
  Assertions about arguments in the remaining theories (\<^verbatim>\<open>xfs_ag.c\<close>, \<^verbatim>\<open>xfs_rtgroup.c\<close>, \<^verbatim>\<open>xfs_rtbitmap.c\<close>, \<^verbatim>\<open>avl64.c\<close>,
  \<^verbatim>\<open>nullstartblock\<close>) are left out; what they demand is a hypothesis where a theorem needs it. Calls that
  \<^verbatim>\<open>libxfs_priv.h\<close> defines as empty macros (quota, statistics, busy extents, inode flags, zoned space, shutdown) are
  left out as well.
\<close>

end
